(* ===== verification/Prelude.thy ===== *)
theory Prelude
  imports Main "HOL-Library.Word"
begin

text \<open>
  Vocabulary shared by the component theories: the machine integers of the Rust
  sources as words, the checked and saturating operations of the Rust standard
  library, \<open>Iterator::position\<close> and \<open>slice::get\<close>, page alignment, and the two
  interfaces several components promise (an inductive invariant of a transition
  system, and generation-checked handles that never come back to life).

  A Rust \<open>Result<T, E>\<close> is the sum \<open>'e + 'a\<close>, written with the abbreviations
  \<open>Ok\<close> and \<open>Err\<close>. A method taking \<open>&mut self\<close> returns the result paired with
  the state it leaves behind, on the error branches too. \<open>usize\<close> is 64 bits wide on
  the only target; array indices and lengths are \<open>nat\<close>, and where the code checks
  a \<open>usize\<close> sum for overflow the bound \<open>2 ^ 64\<close> is written out.
\<close>

unbundle bit_operations_syntax

type_synonym u8 = "8 word"
type_synonym u16 = "16 word"
type_synonym u32 = "32 word"
type_synonym u64 = "64 word"

abbreviation Ok :: "'a \<Rightarrow> 'e + 'a" where "Ok \<equiv> Inr"
abbreviation Err :: "'e \<Rightarrow> 'e + 'a" where "Err \<equiv> Inl"

named_theorems arith_defs \<open>the checked and saturating operations\<close>

section \<open>Integer operations of the Rust standard library\<close>

definition checked_add :: "'a::len word \<Rightarrow> 'a word \<Rightarrow> 'a word option" where
  [arith_defs]: "checked_add x y = (if unat x + unat y < 2 ^ LENGTH('a) then Some (x + y) else None)"

definition checked_sub :: "'a::len word \<Rightarrow> 'a word \<Rightarrow> 'a word option" where
  [arith_defs]: "checked_sub x y = (if y \<le> x then Some (x - y) else None)"

definition checked_mul :: "'a::len word \<Rightarrow> 'a word \<Rightarrow> 'a word option" where
  [arith_defs]: "checked_mul x y = (if unat x * unat y < 2 ^ LENGTH('a) then Some (x * y) else None)"

definition saturating_add :: "'a::len word \<Rightarrow> 'a word \<Rightarrow> 'a word" where
  [arith_defs]: "saturating_add x y = (if unat x + unat y < 2 ^ LENGTH('a) then x + y else - 1)"

definition saturating_sub :: "'a::len word \<Rightarrow> 'a word \<Rightarrow> 'a word" where
  [arith_defs]: "saturating_sub x y = (if y \<le> x then x - y else 0)"

definition saturating_mul :: "'a::len word \<Rightarrow> 'a word \<Rightarrow> 'a word" where
  [arith_defs]: "saturating_mul x y = (if unat x * unat y < 2 ^ LENGTH('a) then x * y else - 1)"

definition checked_add_usize :: "nat \<Rightarrow> nat \<Rightarrow> nat option" where
  [arith_defs]: "checked_add_usize a b = (if a + b < 2 ^ 64 then Some (a + b) else None)"

definition checked_mul_usize :: "nat \<Rightarrow> nat \<Rightarrow> nat option" where
  [arith_defs]: "checked_mul_usize a b = (if a * b < 2 ^ 64 then Some (a * b) else None)"

lemma checked_add_SomeD:
  fixes x :: "'a::len word"
  assumes "checked_add x y = Some z"
  shows "unat z = unat x + unat y" and "z = x + y"
  using assms by (auto simp: checked_add_def unat_word_ariths split: if_splits)

lemma checked_add_NoneD:
  fixes x :: "'a::len word"
  shows "checked_add x y = None \<Longrightarrow> 2 ^ LENGTH('a) \<le> unat x + unat y"
  by (auto simp: checked_add_def split: if_splits)

lemma checked_mul_SomeD:
  fixes x :: "'a::len word"
  assumes "checked_mul x y = Some z"
  shows "unat z = unat x * unat y" and "z = x * y"
  using assms by (auto simp: checked_mul_def unat_word_ariths split: if_splits)

lemma checked_sub_SomeD:
  fixes x :: "'a::len word"
  assumes "checked_sub x y = Some z"
  shows "unat z = unat x - unat y" and "unat y \<le> unat x"
  using assms by (auto simp: checked_sub_def unat_sub word_le_nat_alt split: if_splits)

lemma unat_minus_one_word: "unat (- 1 :: 'a::len word) = 2 ^ LENGTH('a) - 1"
  by (simp add: unsigned_minus_1_eq_mask mask_eq_exp_minus_1)

lemma unat_saturating_add:
  "unat (saturating_add x (y :: 'a::len word)) = min (unat x + unat y) (2 ^ LENGTH('a) - 1)"
  by (auto simp: saturating_add_def unat_word_ariths unat_minus_one_word)

lemma unat_saturating_sub [simp]: "unat (saturating_sub x y) = unat x - unat y"
  by (auto simp: saturating_sub_def unat_sub word_le_nat_alt)

lemma unat_lt2p: "unat (x :: 'a::len word) < 2 ^ LENGTH('a)"
  by (rule unsigned_less)

lemma word_lt_iff_unat: "(x < y) = (unat x < unat (y :: 'a::len word))"
  by (simp add: word_less_nat_alt)

lemma unat_add_le: "unat x + unat y < 2 ^ LENGTH('a) \<Longrightarrow> unat (x + (y :: 'a::len word)) = unat x + unat y"
  by (simp add: unat_word_ariths)

lemma unat_Suc_le:
  fixes x :: "'a::len word"
  assumes "x \<noteq> - 1"
  shows "unat (x + 1) = Suc (unat x)"
proof -
  have "1 + x \<noteq> 0" using assms by (metis add_eq_0_iff minus_minus)
  then show ?thesis by (simp add: unatSuc add.commute)
qed

lemma unat_le_minus_one [simp]: "unat x \<le> unat (- 1 :: 'a word)" for x :: "'a::len word"
  unfolding unat_minus_one_word using unat_lt2p[of x] by linarith

lemma word_add_one_neq_0: "x \<noteq> - 1 \<Longrightarrow> x + 1 \<noteq> 0" for x :: "'a::len word"
  by (metis add_eq_0_iff minus_minus)

lemma word_le_add_one: "x \<noteq> - 1 \<Longrightarrow> x \<le> x + 1" for x :: "'a::len word"
  by (simp add: word_le_nat_alt unat_Suc_le)

lemma checked_add_one: "checked_add x 1 = (if x = - 1 then None else Some (x + 1))" for x :: "'a::len word"
proof -
  have "x = - 1 \<longleftrightarrow> unat x = 2 ^ LENGTH('a) - 1"
    unfolding unat_minus_one_word[symmetric] by (simp add: word_unat_eq_iff)
  moreover have "Suc (unat x) < 2 ^ LENGTH('a) \<longleftrightarrow> unat x \<noteq> 2 ^ LENGTH('a) - 1"
    using unat_lt2p[of x] by linarith
  ultimately show ?thesis by (simp add: checked_add_def)
qed

section \<open>Slices and iterators\<close>

fun position :: "('a \<Rightarrow> bool) \<Rightarrow> 'a list \<Rightarrow> nat option" where
  "position P [] = None"
| "position P (x # xs) = (if P x then Some 0 else map_option Suc (position P xs))"

definition get :: "'a list \<Rightarrow> nat \<Rightarrow> 'a option" where
  "get xs i = (if i < length xs then Some (xs ! i) else None)"

lemma find_map_upt_Some:
  assumes "List.find P (map f [a ..< b]) = Some y"
  obtains k where "a \<le> k" and "k < b" and "y = f k" and "P y" and "\<And>j. a \<le> j \<Longrightarrow> j < k \<Longrightarrow> \<not> P (f j)"
proof -
  from assms obtain i where i: "i < b - a" "y = f (a + i)" "P y" "\<forall>j < i. \<not> P (f (a + j))"
    by (auto simp: find_Some_iff nth_append)
  show ?thesis
  proof (rule that[of "a + i"])
    show "\<not> P (f j)" if "a \<le> j" "j < a + i" for j
      using i(4) that by (metis le_add_diff_inverse nat_add_left_cancel_less)
  qed (use i in auto)
qed

lemma find_map_upt_None: "List.find P (map f [a ..< b]) = None \<longleftrightarrow> (\<forall>k. a \<le> k \<and> k < b \<longrightarrow> \<not> P (f k))"
  by (auto simp: find_None_iff)

lemma nth_update: "xs[i := x] ! j = (if i = j \<and> j < length xs then x else xs ! j)"
  by (cases "i = j") (auto simp: list_update_beyond)

lemma length_filter_update:
  assumes "i < length xs"
  shows "length (filter P (xs[i := x])) + (if P (xs ! i) then 1 else 0) = length (filter P xs) + (if P x then 1 else 0)"
proof -
  have "filter P xs = filter P (take i xs) @ (if P (xs ! i) then [xs ! i] else []) @ filter P (drop (Suc i) xs)"
    by (subst id_take_nth_drop[OF assms]) simp
  moreover have "filter P (xs[i := x]) = filter P (take i xs) @ (if P x then [x] else []) @ filter P (drop (Suc i) xs)"
    using assms by (simp add: upd_conv_take_nth_drop)
  ultimately show ?thesis by simp
qed

lemma take_Suc_update: "i < length xs \<Longrightarrow> take (Suc i) (xs[i := x]) = take i xs @ [x]"
  by (simp add: take_Suc_conv_app_nth)

lemma position_SomeD:
  "position P xs = Some i \<Longrightarrow> i < length xs \<and> P (xs ! i) \<and> (\<forall>j < i. \<not> P (xs ! j))"
proof (induction xs arbitrary: i)
  case Nil
  then show ?case by simp
next
  case (Cons x xs)
  show ?case
  proof (cases "P x")
    case True
    with Cons.prems show ?thesis by simp
  next
    case False
    with Cons.prems obtain k where k: "position P xs = Some k" "i = Suc k"
      by auto
    with Cons.IH[OF k(1)] False show ?thesis
      by (auto simp: less_Suc_eq_0_disj)
  qed
qed

lemma position_None: "position P xs = None \<longleftrightarrow> (\<forall>x \<in> set xs. \<not> P x)"
  by (induction xs) auto

lemma position_None_nth: "position P xs = None \<longleftrightarrow> (\<forall>i < length xs. \<not> P (xs ! i))"
  by (auto simp: position_None all_set_conv_all_nth)

lemma position_SomeI:
  "i < length xs \<Longrightarrow> P (xs ! i) \<Longrightarrow> (\<And>j. j < i \<Longrightarrow> \<not> P (xs ! j)) \<Longrightarrow> position P xs = Some i"
proof (induction xs arbitrary: i)
  case Nil
  then show ?case by simp
next
  case (Cons x xs)
  show ?case
  proof (cases i)
    case 0
    with Cons.prems show ?thesis by simp
  next
    case (Suc k)
    have "\<not> P x" using Cons.prems(3)[of 0] Suc by simp
    moreover have "position P xs = Some k"
      using Cons.prems(1,2) Cons.prems(3)[of "Suc _"] Suc by (intro Cons.IH) auto
    ultimately show ?thesis using Suc by simp
  qed
qed

lemma position_ex: "i < length xs \<Longrightarrow> P (xs ! i) \<Longrightarrow> \<exists>k. position P xs = Some k"
  by (cases "position P xs") (auto simp: position_None_nth)

lemma position_unique:
  assumes "position P xs = Some i" "j < length xs" "P (xs ! j)"
    and "\<And>k. k < length xs \<Longrightarrow> P (xs ! k) \<Longrightarrow> k = j"
  shows "i = j"
  using assms position_SomeD by blast

lemma position_map: "position P (map f xs) = position (P \<circ> f) xs"
  by (induction xs) auto

lemma find_SomeD_position:
  "List.find P xs = Some x \<Longrightarrow> \<exists>i. position P xs = Some i \<and> xs ! i = x"
  by (induction xs) (auto split: if_splits)

section \<open>Page alignment\<close>

definition align_up :: "u64 \<Rightarrow> u64 \<Rightarrow> u64 option" where
  "align_up value alignment =
     map_option (\<lambda>rounded. rounded AND NOT (alignment - 1)) (checked_add value (alignment - 1))"

definition align_down :: "u64 \<Rightarrow> u64 \<Rightarrow> u64" where
  "align_down value alignment = value AND NOT (alignment - 1)"

definition is_power_of_two :: "u64 \<Rightarrow> bool" where
  "is_power_of_two x \<longleftrightarrow> (\<exists>k \<in> {0..<64}. x = 2 ^ k)"

lemma is_power_of_twoE:
  assumes "is_power_of_two x"
  obtains k where "k < 64" and "x = 2 ^ k"
  using assms by (auto simp: is_power_of_two_def)

lemma unat_pow2 [simp]: 
  assumes "k < LENGTH('a)" shows "unat (2 ^ k :: 'a::len word) = 2 ^ k"
proof -
  have "unat (push_bit k 1 :: 'a word) = take_bit LENGTH('a) (push_bit k 1)"
    by (simp only: unsigned_push_bit_eq unsigned_1)
  with assms show ?thesis by (simp add: take_bit_eq_mod)
qed

lemma is_power_of_two_pos: "is_power_of_two x \<Longrightarrow> 0 < unat x"
  by (auto elim: is_power_of_twoE)

lemma unat_and_not_mask: fixes x :: "'a::len word"  shows "unat (x AND NOT (mask k)) = unat x div 2 ^ k * 2 ^ k"
proof -
  have "unat (x AND NOT (mask k)) = take_bit LENGTH('a) (push_bit k (unat (drop_bit k x)))"
  proof -
    have e: "x AND NOT (mask k) = push_bit k (drop_bit k x)"
      by (rule bit_word_eqI) (auto simp: bit_simps)
    show ?thesis unfolding e by (rule unsigned_push_bit_eq)
  qed
  also have "\<dots> = (unat x div 2 ^ k * 2 ^ k) mod 2 ^ LENGTH('a)"
    by (subst unsigned_drop_bit_eq)
       (simp add: drop_bit_eq_div push_bit_eq_mult take_bit_eq_mod mod_less[OF unsigned_less])
  also have "\<dots> = unat x div 2 ^ k * 2 ^ k"
    by (meson div_times_less_eq_dividend le_less_trans mod_less unsigned_less)
  finally show ?thesis .
qed

lemma unat_align_down: "is_power_of_two a \<Longrightarrow> unat (align_down v a) = unat v div unat a * unat a"
  by (auto elim!: is_power_of_twoE simp: align_down_def unat_and_not_mask simp flip: mask_eq_exp_minus_1)

lemma unat_align_up:
  assumes "is_power_of_two a" and "align_up v a = Some r"
  shows "unat r = (unat v + unat a - 1) div unat a * unat a"
proof -
  from assms(1) obtain k where k: "k < 64" "a = 2 ^ k" by (rule is_power_of_twoE)
  from assms(2) obtain z where z: "checked_add v (a - 1) = Some z" "r = z AND NOT (a - 1)"
    by (auto simp: align_up_def)
  have one: "unat (a - 1) = unat a - 1"
    using is_power_of_two_pos[OF assms(1)] by (simp add: unat_sub word_le_nat_alt)
  have "unat z = unat v + unat a - 1"
    using checked_add_SomeD(1)[OF z(1)] one is_power_of_two_pos[OF assms(1)] by simp
  moreover have "a - 1 = mask k" using k by (simp add: mask_eq_exp_minus_1)
  ultimately show ?thesis using z(2) k by (simp add: unat_and_not_mask)
qed

lemma align_up_bounds:
  assumes "is_power_of_two a" and "align_up v a = Some r"
  shows "unat v \<le> unat r" and "unat r < unat v + unat a" and "unat a dvd unat r"
proof -
  let ?a = "unat a" and ?v = "unat v"
  have pos: "0 < ?a" using is_power_of_two_pos[OF assms(1)] .
  have r: "unat r = (?v + ?a - 1) div ?a * ?a" by (rule unat_align_up[OF assms])
  have split: "(?v + ?a - 1) div ?a * ?a = ?v + ?a - 1 - (?v + ?a - 1) mod ?a"
    by (simp add: minus_mod_eq_div_mult)
  have small: "(?v + ?a - 1) mod ?a < ?a" using pos by simp
  have le: "(?v + ?a - 1) mod ?a \<le> ?v + ?a - 1" by (rule mod_less_eq_dividend)
  show "?v \<le> unat r" and "unat r < ?v + ?a"
    using r split small le pos by linarith+
  show "?a dvd unat r" using r by simp
qed

lemma align_up_least:
  assumes "is_power_of_two a" and "align_up v a = Some r"
    and "unat v \<le> m" and "unat a dvd m"
  shows "unat r \<le> m"
proof (rule ccontr)
  assume "\<not> unat r \<le> m"
  moreover obtain p q where "unat r = unat a * p" "m = unat a * q"
    using align_up_bounds(3)[OF assms(1,2)] assms(4) by (auto simp: dvd_def)
  ultimately have "unat a * q < unat a * p" and r: "unat r = unat a * p" and m: "m = unat a * q"
    by auto
  then have "Suc q \<le> p" by simp
  then have "unat a * Suc q \<le> unat r" using r by (metis mult_le_mono2)
  then have "m + unat a \<le> unat r" using m by (simp add: algebra_simps)
  with align_up_bounds(2)[OF assms(1,2)] assms(3) show False by linarith
qed

lemma align_up_NoneD:
  assumes "is_power_of_two a" and "align_up v a = None"
  shows "2 ^ 64 \<le> unat v + unat a - 1"
proof -
  have "unat (a - 1) = unat a - 1"
    using is_power_of_two_pos[OF assms(1)] by (simp add: unat_sub word_le_nat_alt)
  with assms show ?thesis
    using is_power_of_two_pos[OF assms(1)] by (auto simp: align_up_def dest!: checked_add_NoneD)
qed

section \<open>Sequences of calls\<close>

text \<open>What a sequence of calls adds up to, when \<open>f\<close> weighs a call in the state it is made in.\<close>

fun tally :: "('s \<Rightarrow> 'c \<Rightarrow> 's) \<Rightarrow> ('s \<Rightarrow> 'c \<Rightarrow> nat) \<Rightarrow> 's \<Rightarrow> 'c list \<Rightarrow> nat" where
  "tally exec f s [] = 0"
| "tally exec f s (c # cs) = f s c + tally exec f (exec s c) cs"

section \<open>Interfaces\<close>

text \<open>
  An invariant that holds initially and is kept by every step holds in every
  reachable state.
\<close>

locale invariant_system =
  fixes initial :: "'s \<Rightarrow> bool" and step :: "'s \<Rightarrow> 's \<Rightarrow> bool" and inv :: "'s \<Rightarrow> bool"
  assumes inv_initial: "initial s \<Longrightarrow> inv s"
    and inv_step: "inv s \<Longrightarrow> step s t \<Longrightarrow> inv t"
begin

lemma inv_steps: "step\<^sup>*\<^sup>* s t \<Longrightarrow> inv s \<Longrightarrow> inv t"
  by (induction rule: rtranclp_induct) (auto intro: inv_step)

lemma inv_reachable: "initial s \<Longrightarrow> step\<^sup>*\<^sup>* s t \<Longrightarrow> inv t"
  using inv_initial inv_steps by blast

end

text \<open>
  A table of slots whose handles carry a generation. \<open>valid s i g\<close> says that the
  handle for slot \<open>i\<close> and generation \<open>g\<close> is accepted, and \<open>bound s i\<close> is a strict
  upper bound of every generation the slot has ever issued. A generation that is newly
  accepted is at least the bound, so a handle that was issued and has been retired is
  rejected in every later state.
\<close>

locale generation_ledger = invariant_system initial step inv
  for initial :: "'s \<Rightarrow> bool" and step :: "'s \<Rightarrow> 's \<Rightarrow> bool" and inv :: "'s \<Rightarrow> bool" +
  fixes valid :: "'s \<Rightarrow> nat \<Rightarrow> nat \<Rightarrow> bool" and bound :: "'s \<Rightarrow> nat \<Rightarrow> nat"
  assumes valid_below: "inv s \<Longrightarrow> valid s i g \<Longrightarrow> g < bound s i"
    and bound_mono: "inv s \<Longrightarrow> step s t \<Longrightarrow> bound s i \<le> bound t i"
    and issue_fresh: "inv s \<Longrightarrow> step s t \<Longrightarrow> \<not> valid s i g \<Longrightarrow> valid t i g \<Longrightarrow> bound s i \<le> g"
begin

lemma retired_forever:
  assumes "step\<^sup>*\<^sup>* s t" and "inv s" and "g < bound s i" and "\<not> valid s i g"
  shows "\<not> valid t i g"
proof -
  from assms(1) have "inv t \<and> g < bound t i \<and> \<not> valid t i g"
  proof (induction rule: rtranclp_induct)
    case base
    with assms show ?case by simp
  next
    case (step y z)
    then show ?case
      using inv_step bound_mono[of y z i] issue_fresh[of y z i g] by fastforce
  qed
  then show ?thesis by simp
qed

lemma stale_forever:
  assumes "inv s" and "valid s i g" and "step s u" and "\<not> valid u i g" and "step\<^sup>*\<^sup>* u t"
  shows "\<not> valid t i g"
  using assms valid_below[of s i g] bound_mono[of s u i] inv_step[of s u]
  by (intro retired_forever[OF assms(5)]) auto

end

end
