(* ===== verification/Context.thy ===== *)
theory Context
  imports Prelude
begin

text \<open>
  The saved Ring 3 register image and the dispatch authority of
  \<^verbatim>\<open>src/kernel/boulder/src/process/context.rs\<close>, with the checks the kernel performs
  before it returns to user mode. A register is a 64-bit word; the \<open>repr(C)\<close> layout
  assertions of the file concern the assembly and have no counterpart here.
\<close>

abbreviation USER_ADDRESS_MINIMUM :: u64 where "USER_ADDRESS_MINIMUM \<equiv> 0x1000"
abbreviation USER_ADDRESS_LIMIT :: u64 where "USER_ADDRESS_LIMIT \<equiv> 0x0000800000000000"
abbreviation KERNEL_ADDRESS_MINIMUM :: u64 where "KERNEL_ADDRESS_MINIMUM \<equiv> 0xffff800000000000"
abbreviation PAGE_MASK :: u64 where "PAGE_MASK \<equiv> 0xfff"
abbreviation PHYSICAL_ADDRESS_MASK :: u64 where "PHYSICAL_ADDRESS_MASK \<equiv> 0x000ffffffffff000"

definition INITIAL_USER_FLAGS :: u64 where
  "INITIAL_USER_FLAGS = push_bit 1 1 OR push_bit 9 1"

definition USER_FLAGS_ALLOWED :: u64 where
  "USER_FLAGS_ALLOWED = push_bit 0 1 OR push_bit 1 1 OR push_bit 2 1 OR push_bit 4 1 OR push_bit 6 1
     OR push_bit 7 1 OR push_bit 8 1 OR push_bit 9 1 OR push_bit 10 1 OR push_bit 11 1
     OR push_bit 16 1 OR push_bit 18 1 OR push_bit 21 1"

record saved_user_context =
  uc_r15 :: u64
  uc_r14 :: u64
  uc_r13 :: u64
  uc_r12 :: u64
  uc_r11 :: u64
  uc_r10 :: u64
  uc_r9 :: u64
  uc_r8 :: u64
  uc_rbp :: u64
  uc_rdi :: u64
  uc_rsi :: u64
  uc_rdx :: u64
  uc_rcx :: u64
  uc_rbx :: u64
  uc_rax :: u64
  uc_instruction_pointer :: u64
  uc_flags :: u64
  uc_stack_pointer :: u64

datatype context_error = InvalidInstructionPointer | InvalidStackPointer | InvalidFlags
  | InvalidAddressSpaceRoot | InvalidKernelStackPointer | InvalidDispatchAuthority

definition context_EMPTY :: saved_user_context where
  "context_EMPTY = \<lparr>uc_r15 = 0, uc_r14 = 0, uc_r13 = 0, uc_r12 = 0, uc_r11 = 0, uc_r10 = 0,
     uc_r9 = 0, uc_r8 = 0, uc_rbp = 0, uc_rdi = 0, uc_rsi = 0, uc_rdx = 0, uc_rcx = 0,
     uc_rbx = 0, uc_rax = 0, uc_instruction_pointer = 0, uc_flags = 0, uc_stack_pointer = 0\<rparr>"

definition context_initial :: "u64 \<Rightarrow> u64 \<Rightarrow> saved_user_context" where
  "context_initial ip sp = \<lparr>uc_r15 = 0, uc_r14 = 0, uc_r13 = 0, uc_r12 = 0,
     uc_r11 = INITIAL_USER_FLAGS, uc_r10 = 0, uc_r9 = 0, uc_r8 = 0, uc_rbp = 0, uc_rdi = 0,
     uc_rsi = 0, uc_rdx = 0, uc_rcx = ip, uc_rbx = 0, uc_rax = 0,
     uc_instruction_pointer = ip, uc_flags = INITIAL_USER_FLAGS, uc_stack_pointer = sp\<rparr>"

definition valid_user_address :: "u64 \<Rightarrow> bool" where
  "valid_user_address address \<longleftrightarrow> address \<ge> USER_ADDRESS_MINIMUM \<and> address < USER_ADDRESS_LIMIT"

definition valid_page_table_root :: "u64 \<Rightarrow> bool" where
  "valid_page_table_root root \<longleftrightarrow>
     root \<noteq> 0 \<and> (root AND PAGE_MASK) = 0 \<and> (root AND NOT PHYSICAL_ADDRESS_MASK) = 0"

definition valid_kernel_stack_pointer :: "u64 \<Rightarrow> bool" where
  "valid_kernel_stack_pointer pointer \<longleftrightarrow> pointer \<ge> KERNEL_ADDRESS_MINIMUM \<and> (pointer AND 0xf) = 0"

definition context_validate :: "saved_user_context \<Rightarrow> context_error + unit" where
  "context_validate c =
     (if \<not> valid_user_address (uc_instruction_pointer c) then Err InvalidInstructionPointer
      else if \<not> valid_user_address (uc_stack_pointer c) then Err InvalidStackPointer
      else if (uc_flags c AND push_bit 1 1) = 0 \<or> (uc_flags c AND NOT USER_FLAGS_ALLOWED) \<noteq> 0
      then Err InvalidFlags
      else Ok ())"

text \<open>\<open>isize\<close> is 64 bits wide; the cast to \<open>u64\<close> reinterprets the same bits.\<close>

definition set_syscall_result :: "64 word \<Rightarrow> saved_user_context \<Rightarrow> saved_user_context" where
  "set_syscall_result result c = c\<lparr>uc_rax := result\<rparr>"

definition syscall_arguments :: "saved_user_context \<Rightarrow> u64 list" where
  "syscall_arguments c = [uc_rdi c, uc_rsi c, uc_rdx c, uc_r10 c, uc_r8 c, uc_r9 c]"

record dispatch_context =
  dc_user :: saved_user_context
  dc_address_space_root :: u64
  dc_kernel_stack_pointer :: u64

definition dispatch_validate :: "dispatch_context \<Rightarrow> context_error + unit" where
  "dispatch_validate d =
     (case context_validate (dc_user d) of
        Err e \<Rightarrow> Err e
      | Ok _ \<Rightarrow>
          if \<not> valid_page_table_root (dc_address_space_root d) then Err InvalidAddressSpaceRoot
          else if \<not> valid_kernel_stack_pointer (dc_kernel_stack_pointer d)
          then Err InvalidKernelStackPointer
          else Ok ())"

record authorized_user_return =
  ar_dispatch :: dispatch_context
  ar_pid :: u32
  ar_generation :: u32
  ar_scheduler_epoch :: u64

definition return_EMPTY :: authorized_user_return where
  "return_EMPTY = \<lparr>ar_dispatch = \<lparr>dc_user = context_EMPTY, dc_address_space_root = 0,
     dc_kernel_stack_pointer = 0\<rparr>, ar_pid = 0, ar_generation = 0, ar_scheduler_epoch = 0\<rparr>"

definition return_validate :: "authorized_user_return \<Rightarrow> context_error + unit" where
  "return_validate r =
     (if ar_pid r = 0 \<or> ar_generation r = 0 \<or> ar_scheduler_epoch r = 0
      then Err InvalidDispatchAuthority
      else dispatch_validate (ar_dispatch r))"

section \<open>What validation guarantees\<close>

text \<open>
  The privileged bits of the flags register: the I/O privilege level (12, 13), nested task
  (14) and virtual-8086 mode (17).
\<close>

definition ring3_safe :: "saved_user_context \<Rightarrow> bool" where
  "ring3_safe c \<longleftrightarrow>
     0x1000 \<le> unat (uc_instruction_pointer c) \<and> unat (uc_instruction_pointer c) < 2 ^ 47
     \<and> 0x1000 \<le> unat (uc_stack_pointer c) \<and> unat (uc_stack_pointer c) < 2 ^ 47
     \<and> bit (uc_flags c) 1
     \<and> \<not> bit (uc_flags c) 12 \<and> \<not> bit (uc_flags c) 13 \<and> \<not> bit (uc_flags c) 14 \<and> \<not> bit (uc_flags c) 17"

lemma valid_user_address_unat:
  "valid_user_address a \<longleftrightarrow> 0x1000 \<le> unat a \<and> unat a < 2 ^ 47"
  by (simp add: valid_user_address_def word_le_nat_alt word_less_nat_alt)

lemma disallowed_flag:
  assumes "(f AND NOT USER_FLAGS_ALLOWED) = 0" and "\<not> bit USER_FLAGS_ALLOWED n" and "n < 64"
  shows "\<not> bit (f :: u64) n"
proof -
  have "\<not> bit (f AND NOT USER_FLAGS_ALLOWED) n" using assms(1) by simp
  then show ?thesis using assms(2,3) by (simp add: bit_simps)
qed

lemma USER_FLAGS_ALLOWED_bits:
  "\<not> bit USER_FLAGS_ALLOWED 12" "\<not> bit USER_FLAGS_ALLOWED 13"
  "\<not> bit USER_FLAGS_ALLOWED 14" "\<not> bit USER_FLAGS_ALLOWED 17"
  by (simp_all add: USER_FLAGS_ALLOWED_def bit_simps)

lemma context_validate_ring3:
  assumes "context_validate c = Ok ()"
  shows "ring3_safe c"
proof -
  from assms have f: "(uc_flags c AND NOT USER_FLAGS_ALLOWED) = 0"
    and one: "(uc_flags c AND push_bit 1 1) \<noteq> 0"
    and ip: "valid_user_address (uc_instruction_pointer c)" and sp: "valid_user_address (uc_stack_pointer c)"
    by (auto simp: context_validate_def split: if_splits)
  have "bit (uc_flags c) 1" using one and_exp_eq_0_iff_not_bit[of "uc_flags c" 1] by simp
  with ip sp disallowed_flag[OF f] USER_FLAGS_ALLOWED_bits show ?thesis
    by (simp add: ring3_safe_def valid_user_address_unat)
qed

lemma set_syscall_result_validate [simp]:
  "context_validate (set_syscall_result r c) = context_validate c"
  by (simp add: context_validate_def set_syscall_result_def)

lemma context_initial_validate:
  "valid_user_address ip \<Longrightarrow> valid_user_address sp \<Longrightarrow> context_validate (context_initial ip sp) = Ok ()"
  by (simp add: context_validate_def context_initial_def INITIAL_USER_FLAGS_def USER_FLAGS_ALLOWED_def)

lemma dispatch_validate_Ok:
  "dispatch_validate d = Ok () \<longleftrightarrow> context_validate (dc_user d) = Ok ()
     \<and> valid_page_table_root (dc_address_space_root d)
     \<and> valid_kernel_stack_pointer (dc_kernel_stack_pointer d)"
  by (auto simp: dispatch_validate_def split: sum.splits)

text \<open>
  A user return that validates runs user code only: instruction and stack
  pointer lie in the lower half above the first page, the I/O privilege level, nested-task
  and virtual-8086 flags are clear, the page-table root is a non-null page-aligned physical
  address below \<open>2 ^ 52\<close>, and the kernel stack handed to the TSS lies in the upper half.
\<close>

theorem validated_return_is_user_mode:
  assumes "return_validate r = Ok ()"
  shows "ring3_safe (dc_user (ar_dispatch r))
    \<and> dc_address_space_root (ar_dispatch r) \<noteq> 0
    \<and> 4096 dvd unat (dc_address_space_root (ar_dispatch r))
    \<and> unat (dc_address_space_root (ar_dispatch r)) < 2 ^ 52
    \<and> 2 ^ 64 - 2 ^ 47 \<le> unat (dc_kernel_stack_pointer (ar_dispatch r))
    \<and> ar_pid r \<noteq> 0 \<and> ar_generation r \<noteq> 0 \<and> ar_scheduler_epoch r \<noteq> 0"
proof -
  let ?root = "dc_address_space_root (ar_dispatch r)"
  from assms have ids: "ar_pid r \<noteq> 0" "ar_generation r \<noteq> 0" "ar_scheduler_epoch r \<noteq> 0"
    and d: "dispatch_validate (ar_dispatch r) = Ok ()"
    by (auto simp: return_validate_def split: if_splits)
  then have root: "?root \<noteq> 0" "(?root AND mask 12) = 0" "(?root AND NOT PHYSICAL_ADDRESS_MASK) = 0"
    and stack: "dc_kernel_stack_pointer (ar_dispatch r) \<ge> KERNEL_ADDRESS_MINIMUM"
    by (auto simp: dispatch_validate_Ok valid_page_table_root_def valid_kernel_stack_pointer_def
        mask_eq_exp_minus_1)
  have "unat (take_bit 12 ?root) = 0" using root(2) by (simp add: take_bit_eq_mask)
  then have al: "4096 dvd unat ?root"
    by (simp only: unsigned_take_bit_eq) (simp add: take_bit_eq_mod dvd_eq_mod_eq_0)
  have "?root = take_bit 52 ?root"
  proof (rule bit_word_eqI)
    fix n assume n: "n < LENGTH(64)"
    have "\<not> bit (?root AND NOT PHYSICAL_ADDRESS_MASK) n" using root(3) by simp
    moreover have "PHYSICAL_ADDRESS_MASK = push_bit 12 (mask 40)" by (simp add: mask_eq_exp_minus_1)
    ultimately show "bit ?root n = bit (take_bit 52 ?root) n" using n by (auto simp: bit_simps)
  qed
  then have "unat ?root = take_bit 52 (unat ?root)" by (metis unsigned_take_bit_eq)
  then have "unat ?root < 2 ^ 52" by (metis take_bit_nat_less_exp)
  with al ids d root(1) stack context_validate_ring3 show ?thesis
    by (simp add: dispatch_validate_Ok word_le_nat_alt)
qed

definition sample_return :: authorized_user_return where
  "sample_return = \<lparr>ar_dispatch = \<lparr>dc_user = context_initial 0x2000 0x8000,
     dc_address_space_root = 0x3000, dc_kernel_stack_pointer = 0xffff800000004000\<rparr>,
     ar_pid = 1, ar_generation = 1, ar_scheduler_epoch = 1\<rparr>"

theorem validated_return_is_user_mode_witness:
  "return_validate sample_return = Ok () \<and> ring3_safe (dc_user (ar_dispatch sample_return))"
proof
  show "return_validate sample_return = Ok ()"
    by (simp add: return_validate_def dispatch_validate_Ok sample_return_def context_initial_validate
        valid_user_address_def valid_page_table_root_def valid_kernel_stack_pointer_def)
  from validated_return_is_user_mode[OF this]
  show "ring3_safe (dc_user (ar_dispatch sample_return))" by blast
qed

end
