(* ===== verification/Lifecycle.thy ===== *)
theory Lifecycle
  imports Context
begin

text \<open>
  The process lifecycle registry of \<^verbatim>\<open>src/kernel/boulder/src/process/lifecycle.rs\<close>. The state
  joins the lock-protected \<open>ProcessTable\<close> with the two atomics beside it,
  \<open>CURRENT_EXECUTION\<close> and \<open>CURRENT_SCHEDULER_EPOCH\<close>. Every public function is one
  definition that takes the state and returns its result with the state it leaves, and
  \<open>lifecycle_step\<close> is their union. The functions change the table under its lock, so a run
  of the system is a sequence of such steps. Three accesses to the atomics lie outside the
  lock and are part of the step here: \<open>resume_current\<close>, \<open>schedule_yield\<close> and
  \<open>schedule_exit\<close> read the caller's identity just before they take it, on behalf of the
  process that is running; \<open>publish_current\<close>, which has no caller, stores the identity after
  it has dropped it; and the interrupt handler reads without it, for which
  \<open>execution_snapshot\<close> takes the three loaded values apart and \<open>torn_snapshot_harmless\<close>
  shows that a mixture of them is never honoured unless it is the authority in force.
\<close>

type_synonym isize = "64 word"

abbreviation MAXIMUM_PROCESSES :: nat where "MAXIMUM_PROCESSES \<equiv> 64"
abbreviation NO_PID :: u32 where "NO_PID \<equiv> 0"
abbreviation INIT_PID :: u32 where "INIT_PID \<equiv> 1"
abbreviation PID0_GENERATION :: u32 where "PID0_GENERATION \<equiv> 1"

definition PID0_IDENTITY :: u64 where
  "PID0_IDENTITY = push_bit 32 (ucast PID0_GENERATION)"

datatype process_phase = Free | Installing | Runnable | Running | Blocked | Zombie

record process_launch =
  pl_address_space_root :: u64
  pl_entry_point :: u64
  pl_user_stack_pointer :: u64
  pl_kernel_stack_pointer :: u64
  pl_image_measurement_root :: u64
  pl_capability_root :: u64
  pl_service_class :: u16
  pl_priority :: u8

definition launch_validate :: "process_launch \<Rightarrow> bool" where
  "launch_validate l \<longleftrightarrow> valid_page_table_root (pl_address_space_root l)
     \<and> valid_user_address (pl_entry_point l)
     \<and> valid_user_address (pl_user_stack_pointer l)
     \<and> valid_kernel_stack_pointer (pl_kernel_stack_pointer l)
     \<and> pl_image_measurement_root l \<noteq> 0
     \<and> pl_capability_root l \<noteq> 0"

record process_handle =
  ph_pid :: u32
  ph_generation :: u32

record execution_authority =
  ea_handle :: process_handle
  ea_scheduler_epoch :: u64

definition handle_encode :: "process_handle \<Rightarrow> u64" where
  "handle_encode h = push_bit 32 (ucast (ph_generation h)) OR ucast (ph_pid h)"

definition handle_decode :: "u64 \<Rightarrow> process_handle option" where
  "handle_decode encoded =
     (if encoded = 0 then None
      else
        (let h = \<lparr>ph_pid = ucast encoded, ph_generation = ucast (drop_bit 32 encoded)\<rparr> in
         if ph_pid h = NO_PID \<or> ph_generation h = 0 then None else Some h))"

definition encode_identity :: "execution_authority \<Rightarrow> u64" where
  "encode_identity a = handle_encode (ea_handle a)"

definition authority_decode :: "u64 \<Rightarrow> u64 \<Rightarrow> execution_authority option" where
  "authority_decode identity epoch =
     (if epoch = 0 then None
      else
        (case handle_decode identity of
           None \<Rightarrow> None
         | Some h \<Rightarrow> Some \<lparr>ea_handle = h, ea_scheduler_epoch = epoch\<rparr>))"

record process_snapshot =
  sn_handle :: process_handle
  sn_parent :: u32
  sn_phase :: process_phase
  sn_launch :: process_launch
  sn_exit_code :: isize
  sn_wait_sequence :: u64

record scheduled_process =
  sp_handle :: process_handle
  sp_context :: dispatch_context
  sp_scheduler_epoch :: u64

definition authorized_return :: "scheduled_process \<Rightarrow> authorized_user_return" where
  "authorized_return p = \<lparr>ar_dispatch = sp_context p, ar_pid = ph_pid (sp_handle p),
     ar_generation = ph_generation (sp_handle p), ar_scheduler_epoch = sp_scheduler_epoch p\<rparr>"

record pid0_authority =
  pa_generation :: u32
  pa_scheduler_epoch :: u64

datatype schedule_decision = User scheduled_process | Pid0 pid0_authority

record process_slot =
  ps_occupied :: bool
  ps_generation :: u32
  ps_pid :: u32
  ps_parent :: u32
  ps_phase :: process_phase
  ps_launch :: process_launch
  ps_context :: saved_user_context
  ps_exit_code :: isize
  ps_wait_sequence :: u64

definition slot_EMPTY :: process_slot where
  "slot_EMPTY = \<lparr>ps_occupied = False, ps_generation = 1, ps_pid = 0, ps_parent = 0, ps_phase = Free,
     ps_launch = \<lparr>pl_address_space_root = 0, pl_entry_point = 0, pl_user_stack_pointer = 0,
       pl_kernel_stack_pointer = 0, pl_image_measurement_root = 0, pl_capability_root = 0,
       pl_service_class = 0, pl_priority = 0\<rparr>,
     ps_context = context_EMPTY, ps_exit_code = 0, ps_wait_sequence = 0\<rparr>"

definition slot_handle :: "process_slot \<Rightarrow> process_handle" where
  "slot_handle sl = \<lparr>ph_pid = ps_pid sl, ph_generation = ps_generation sl\<rparr>"

definition slot_snapshot :: "process_slot \<Rightarrow> process_snapshot" where
  "slot_snapshot sl = \<lparr>sn_handle = slot_handle sl, sn_parent = ps_parent sl, sn_phase = ps_phase sl,
     sn_launch = ps_launch sl, sn_exit_code = ps_exit_code sl, sn_wait_sequence = ps_wait_sequence sl\<rparr>"

record lifecycle =
  lc_slots :: "process_slot list"
  lc_next_pid :: u32
  lc_scheduler_epoch :: u64
  lc_current_execution :: u64
  lc_published_epoch :: u64

definition lifecycle_new :: lifecycle where
  "lifecycle_new = \<lparr>lc_slots = replicate MAXIMUM_PROCESSES slot_EMPTY, lc_next_pid = 2,
     lc_scheduler_epoch = 0, lc_current_execution = PID0_IDENTITY, lc_published_epoch = 0\<rparr>"

datatype lifecycle_error = InvalidLaunch | InvalidContext | Capacity | InvalidHandle
  | InvalidTransition | NotChild | StillRunning | NoChild | EpochExhausted
  | StaleDispatchAuthority | StalePreemptionAuthority | StalePid0Authority | Pid0Immutable

section \<open>Table helpers\<close>

text \<open>\<open>allocate_pid\<close>: the loop runs at most \<open>MAXIMUM_PROCESSES + 1\<close> times.\<close>

fun allocate_pid_loop :: "nat \<Rightarrow> process_slot list \<Rightarrow> u32 \<Rightarrow> u32 option \<times> u32" where
  "allocate_pid_loop 0 slots next_pid = (None, next_pid)"
| "allocate_pid_loop (Suc n) slots next_pid =
     (let candidate = max next_pid 2; next_pid = max (candidate + 1) 2 in
      if \<not> list_ex (\<lambda>sl. ps_occupied sl \<and> ps_pid sl = candidate) slots then (Some candidate, next_pid)
      else allocate_pid_loop n slots next_pid)"

definition allocate_pid :: "lifecycle \<Rightarrow> u32 option \<times> lifecycle" where
  "allocate_pid s =
     (case allocate_pid_loop (MAXIMUM_PROCESSES + 1) (lc_slots s) (lc_next_pid s) of
        (r, n) \<Rightarrow> (r, s\<lparr>lc_next_pid := n\<rparr>))"

definition matches_handle :: "process_handle \<Rightarrow> process_slot \<Rightarrow> bool" where
  "matches_handle h sl \<longleftrightarrow> ps_occupied sl \<and> ps_pid sl = ph_pid h \<and> ps_generation sl = ph_generation h"

text \<open>The mutable reference of \<open>slot_by_handle_mut\<close> is the index of the slot.\<close>

definition slot_by_handle_mut :: "lifecycle \<Rightarrow> process_handle \<Rightarrow> nat option" where
  "slot_by_handle_mut s h = position (matches_handle h) (lc_slots s)"

definition slot_by_handle :: "lifecycle \<Rightarrow> process_handle \<Rightarrow> process_slot option" where
  "slot_by_handle s h = List.find (matches_handle h) (lc_slots s)"

definition slot_by_pid :: "lifecycle \<Rightarrow> u32 \<Rightarrow> process_slot option" where
  "slot_by_pid s pid = List.find (\<lambda>sl. ps_occupied sl \<and> ps_pid sl = pid) (lc_slots s)"

definition is_runnable :: "process_slot \<Rightarrow> bool" where
  "is_runnable sl \<longleftrightarrow> ps_occupied sl \<and> ps_phase sl = Runnable"

definition is_running :: "process_slot \<Rightarrow> bool" where
  "is_running sl \<longleftrightarrow> ps_occupied sl \<and> ps_phase sl = Running"

definition next_runnable_index :: "lifecycle \<Rightarrow> nat \<Rightarrow> nat option" where
  "next_runnable_index s after =
     List.find (\<lambda>index. is_runnable (lc_slots s ! index))
       (map (\<lambda>offset. (after + offset) mod length (lc_slots s)) [1 ..< Suc (length (lc_slots s))])"

definition scheduled :: "lifecycle \<Rightarrow> nat \<Rightarrow> saved_user_context \<Rightarrow> u64 \<Rightarrow> scheduled_process" where
  "scheduled s index user epoch =
     (let sl = lc_slots s ! index in
      \<lparr>sp_handle = slot_handle sl,
       sp_context = \<lparr>dc_user = user, dc_address_space_root = pl_address_space_root (ps_launch sl),
         dc_kernel_stack_pointer = pl_kernel_stack_pointer (ps_launch sl)\<rparr>,
       sp_scheduler_epoch = epoch\<rparr>)"

definition next_scheduler_epoch :: "u64 \<Rightarrow> lifecycle_error + u64" where
  "next_scheduler_epoch epoch =
     (case checked_add epoch 1 of Some n \<Rightarrow> Ok n | None \<Rightarrow> Err EpochExhausted)"

definition update_slot :: "nat \<Rightarrow> (process_slot \<Rightarrow> process_slot) \<Rightarrow> lifecycle \<Rightarrow> lifecycle" where
  "update_slot i f s = s\<lparr>lc_slots := (lc_slots s)[i := f (lc_slots s ! i)]\<rparr>"

section \<open>Execution identity\<close>

definition current_handle :: "lifecycle \<Rightarrow> process_handle option" where
  "current_handle s = handle_decode (lc_current_execution s)"

definition current_pid :: "lifecycle \<Rightarrow> u32" where
  "current_pid s = (case current_handle s of None \<Rightarrow> NO_PID | Some h \<Rightarrow> ph_pid h)"

text \<open>The interrupt handler's snapshot as a function of the three values it loads one after the other.\<close>

definition execution_snapshot :: "u64 \<Rightarrow> u64 \<Rightarrow> u64 \<Rightarrow> execution_authority option" where
  "execution_snapshot epoch_before encoded epoch_after =
     (case handle_decode encoded of
        None \<Rightarrow> None
      | Some h \<Rightarrow>
          if epoch_before = 0 \<or> epoch_before \<noteq> epoch_after then None
          else Some \<lparr>ea_handle = h, ea_scheduler_epoch = epoch_before\<rparr>)"

definition current_execution_authority_from_irq :: "lifecycle \<Rightarrow> execution_authority option" where
  "current_execution_authority_from_irq s =
     execution_snapshot (lc_published_epoch s) (lc_current_execution s) (lc_published_epoch s)"

definition current_user_handle :: "lifecycle \<Rightarrow> lifecycle_error + process_handle" where
  "current_user_handle s =
     (if lc_current_execution s = PID0_IDENTITY then Err Pid0Immutable
      else
        (case handle_decode (lc_current_execution s) of
           Some h \<Rightarrow> Ok h
         | None \<Rightarrow> Err InvalidHandle))"

definition mk_pid0_authority :: "u64 \<Rightarrow> pid0_authority" where
  "mk_pid0_authority epoch = \<lparr>pa_generation = PID0_GENERATION, pa_scheduler_epoch = epoch\<rparr>"

definition validate_pid0_authority :: "lifecycle \<Rightarrow> pid0_authority \<Rightarrow> lifecycle_error + unit" where
  "validate_pid0_authority s a =
     (if lc_current_execution s \<noteq> PID0_IDENTITY \<or> pa_generation a \<noteq> PID0_GENERATION
         \<or> pa_scheduler_epoch a \<noteq> lc_scheduler_epoch s
      then Err StalePid0Authority else Ok ())"

definition current_pid0_authority :: "lifecycle \<Rightarrow> lifecycle_error + pid0_authority" where
  "current_pid0_authority s =
     (let a = mk_pid0_authority (lc_scheduler_epoch s) in
      case validate_pid0_authority s a of Err e \<Rightarrow> Err e | Ok _ \<Rightarrow> Ok a)"

definition authorize_pid0 :: "lifecycle \<Rightarrow> pid0_authority \<Rightarrow> lifecycle_error + unit" where
  "authorize_pid0 s a = validate_pid0_authority s a"

section \<open>Operations\<close>

definition publish_current :: "lifecycle \<Rightarrow> process_handle \<Rightarrow> (lifecycle_error + unit) \<times> lifecycle" where
  "publish_current s h =
     (if ph_pid h = NO_PID then (Err Pid0Immutable, s)
      else
        (case slot_by_handle s h of
           None \<Rightarrow> (Err InvalidHandle, s)
         | Some sl \<Rightarrow>
             if ps_phase sl \<noteq> Running then (Err InvalidTransition, s)
             else (Ok (), s\<lparr>lc_current_execution := handle_encode h\<rparr>)))"

definition fill_slot :: "u32 \<Rightarrow> u32 \<Rightarrow> process_launch \<Rightarrow> u64 \<Rightarrow> process_slot \<Rightarrow> process_slot" where
  "fill_slot pid parent launch sequence sl =
     sl\<lparr>ps_occupied := True, ps_pid := pid, ps_parent := parent, ps_phase := Runnable,
        ps_launch := launch,
        ps_context := context_initial (pl_entry_point launch) (pl_user_stack_pointer launch),
        ps_exit_code := 0, ps_wait_sequence := sequence\<rparr>"

definition is_free_slot :: "process_slot \<Rightarrow> bool" where
  "is_free_slot sl \<longleftrightarrow> \<not> ps_occupied sl \<and> ps_generation sl \<noteq> - 1"

definition register_init :: "lifecycle \<Rightarrow> process_launch \<Rightarrow> (lifecycle_error + process_handle) \<times> lifecycle" where
  "register_init s launch =
     (if \<not> launch_validate launch then (Err InvalidLaunch, s)
      else if slot_by_pid s INIT_PID \<noteq> None then (Err InvalidTransition, s)
      else
        (case position is_free_slot (lc_slots s) of
           None \<Rightarrow> (Err Capacity, s)
         | Some i \<Rightarrow>
             (let t = update_slot i (fill_slot INIT_PID NO_PID launch 0) s in
              (Ok \<lparr>ph_pid = INIT_PID, ph_generation = ps_generation (lc_slots t ! i)\<rparr>, t))))"

text \<open>
  A failure after \<open>allocate_pid\<close> keeps the advanced PID cursor. The generation of a slot
  that is chosen is not \<open>u32::MAX\<close>, yet the code still checks the increment; the slot
  would then stay marked occupied.
\<close>

definition commit_child :: "lifecycle \<Rightarrow> u32 \<Rightarrow> process_launch \<Rightarrow> (lifecycle_error + process_handle) \<times> lifecycle" where
  "commit_child s parent launch =
     (if parent = NO_PID \<or> \<not> launch_validate launch then (Err InvalidLaunch, s)
      else
        (case slot_by_pid s parent of
           None \<Rightarrow> (Err InvalidHandle, s)
         | Some parent_slot \<Rightarrow>
             if ps_phase parent_slot = Free \<or> ps_phase parent_slot = Zombie then (Err InvalidTransition, s)
             else
               (case allocate_pid s of
                  (None, s) \<Rightarrow> (Err Capacity, s)
                | (Some pid, s) \<Rightarrow>
                    (case position is_free_slot (lc_slots s) of
                       None \<Rightarrow> (Err Capacity, s)
                     | Some i \<Rightarrow>
                         (case checked_add (ps_generation (lc_slots s ! i)) 1 of
                            None \<Rightarrow> (Err Capacity, update_slot i (\<lambda>sl. sl\<lparr>ps_occupied := True\<rparr>) s)
                          | Some generation \<Rightarrow>
                              (Ok \<lparr>ph_pid = pid, ph_generation = generation\<rparr>,
                               update_slot i (\<lambda>sl. fill_slot pid parent launch (lc_scheduler_epoch s)
                                                (sl\<lparr>ps_generation := generation\<rparr>)) s))))))"

definition publish_scheduler_epoch :: "u64 \<Rightarrow> lifecycle \<Rightarrow> lifecycle" where
  "publish_scheduler_epoch epoch s = s\<lparr>lc_published_epoch := epoch\<rparr>"

definition mark_running :: "lifecycle \<Rightarrow> process_handle \<Rightarrow> (lifecycle_error + process_snapshot) \<times> lifecycle" where
  "mark_running s h =
     (if ph_pid h = NO_PID then (Err Pid0Immutable, s)
      else if lc_current_execution s \<noteq> PID0_IDENTITY \<or> list_ex is_running (lc_slots s)
      then (Err InvalidTransition, s)
      else
        (case position (matches_handle h) (lc_slots s) of
           None \<Rightarrow> (Err InvalidHandle, s)
         | Some i \<Rightarrow>
             if ps_phase (lc_slots s ! i) \<noteq> Runnable then (Err InvalidTransition, s)
             else
               (case next_scheduler_epoch (lc_scheduler_epoch s) of
                  Err e \<Rightarrow> (Err e, s)
                | Ok epoch \<Rightarrow>
                    (let t = update_slot i (\<lambda>sl. sl\<lparr>ps_phase := Running\<rparr>) (s\<lparr>lc_scheduler_epoch := epoch\<rparr>);
                         snap = slot_snapshot (lc_slots t ! i) in
                     (Ok snap,
                      publish_scheduler_epoch epoch
                        (t\<lparr>lc_current_execution := handle_encode (sn_handle snap)\<rparr>))))))"

text \<open>The entry shared by the scheduling calls: the index of the running caller.\<close>

definition running_index :: "lifecycle \<Rightarrow> process_handle \<Rightarrow> lifecycle_error \<Rightarrow> lifecycle_error \<Rightarrow> lifecycle_error + nat" where
  "running_index s h missing wrong_phase =
     (case position (matches_handle h) (lc_slots s) of
        None \<Rightarrow> Err missing
      | Some i \<Rightarrow> if ps_phase (lc_slots s ! i) \<noteq> Running then Err wrong_phase else Ok i)"

definition resume_current :: "lifecycle \<Rightarrow> saved_user_context \<Rightarrow> (lifecycle_error + scheduled_process) \<times> lifecycle" where
  "resume_current s saved =
     (case context_validate saved of Err _ \<Rightarrow> (Err InvalidContext, s) | Ok _ \<Rightarrow>
     (case current_user_handle s of Err e \<Rightarrow> (Err e, s) | Ok current \<Rightarrow>
     (case running_index s current InvalidHandle InvalidTransition of Err e \<Rightarrow> (Err e, s) | Ok i \<Rightarrow>
     (case next_scheduler_epoch (lc_scheduler_epoch s) of Err e \<Rightarrow> (Err e, s) | Ok epoch \<Rightarrow>
     (let p = scheduled s i saved epoch in
      case dispatch_validate (sp_context p) of Err _ \<Rightarrow> (Err InvalidContext, s) | Ok _ \<Rightarrow>
        (Ok p, publish_scheduler_epoch epoch
           ((update_slot i (\<lambda>sl. sl\<lparr>ps_context := saved\<rparr>) s)\<lparr>lc_scheduler_epoch := epoch\<rparr>)))))))"

definition authorize_user_return :: "lifecycle \<Rightarrow> authorized_user_return \<Rightarrow> lifecycle_error + scheduled_process" where
  "authorize_user_return s authority =
     (case return_validate authority of Err _ \<Rightarrow> Err InvalidContext | Ok _ \<Rightarrow>
      (let h = \<lparr>ph_pid = ar_pid authority, ph_generation = ar_generation authority\<rparr> in
       if current_handle s \<noteq> Some h \<or> lc_scheduler_epoch s \<noteq> ar_scheduler_epoch authority
       then Err StaleDispatchAuthority
       else
         (case running_index s h StaleDispatchAuthority StaleDispatchAuthority of Err e \<Rightarrow> Err e | Ok i \<Rightarrow>
          (let expected = scheduled s i (ps_context (lc_slots s ! i)) (lc_scheduler_epoch s) in
           if authorized_return expected \<noteq> authority then Err StaleDispatchAuthority
           else Ok expected))))"

text \<open>
  The common tail of \<open>schedule_yield\<close> and \<open>schedule_preempt\<close>: from the running slot
  \<open>i\<close>, pick the next runnable process, validate its dispatch and switch.
\<close>

definition rotate :: "lifecycle \<Rightarrow> nat \<Rightarrow> saved_user_context \<Rightarrow> (lifecycle_error + scheduled_process) \<times> lifecycle" where
  "rotate s i saved =
     (let target = (case next_runnable_index s i of None \<Rightarrow> i | Some j \<Rightarrow> j) in
      case next_scheduler_epoch (lc_scheduler_epoch s) of Err e \<Rightarrow> (Err e, s) | Ok epoch \<Rightarrow>
      (let user = (if target = i then saved else ps_context (lc_slots s ! target));
           p = scheduled s target user epoch in
       case dispatch_validate (sp_context p) of Err _ \<Rightarrow> (Err InvalidContext, s) | Ok _ \<Rightarrow>
         (let t = update_slot i (\<lambda>sl. sl\<lparr>ps_context := saved, ps_phase := Runnable\<rparr>) s;
              t = update_slot target (\<lambda>sl. sl\<lparr>ps_phase := Running\<rparr>) (t\<lparr>lc_scheduler_epoch := epoch\<rparr>) in
          (Ok p, publish_scheduler_epoch epoch (t\<lparr>lc_current_execution := handle_encode (sp_handle p)\<rparr>)))))"

definition schedule_yield :: "lifecycle \<Rightarrow> saved_user_context \<Rightarrow> (lifecycle_error + scheduled_process) \<times> lifecycle" where
  "schedule_yield s saved =
     (case context_validate saved of Err _ \<Rightarrow> (Err InvalidContext, s) | Ok _ \<Rightarrow>
     (let saved = set_syscall_result 0 saved in
      case current_user_handle s of Err e \<Rightarrow> (Err e, s) | Ok current \<Rightarrow>
     (case running_index s current InvalidHandle InvalidTransition of Err e \<Rightarrow> (Err e, s) | Ok i \<Rightarrow>
      rotate s i saved)))"

definition schedule_preempt ::
    "lifecycle \<Rightarrow> saved_user_context \<Rightarrow> execution_authority \<Rightarrow> (lifecycle_error + scheduled_process) \<times> lifecycle" where
  "schedule_preempt s saved authority =
     (case context_validate saved of Err _ \<Rightarrow> (Err InvalidContext, s) | Ok _ \<Rightarrow>
      if lc_current_execution s \<noteq> handle_encode (ea_handle authority)
         \<or> lc_scheduler_epoch s \<noteq> ea_scheduler_epoch authority
      then (Err StalePreemptionAuthority, s)
      else
        (case running_index s (ea_handle authority) StalePreemptionAuthority StalePreemptionAuthority of
           Err e \<Rightarrow> (Err e, s)
         | Ok i \<Rightarrow> rotate s i saved))"

text \<open>The common tail of \<open>schedule_exit\<close> and \<open>schedule_from_pid0\<close>: dispatch or go idle.\<close>

definition dispatch_or_idle :: "(nat \<times> scheduled_process) option \<Rightarrow> u64 \<Rightarrow> lifecycle \<Rightarrow> (lifecycle_error + schedule_decision) \<times> lifecycle" where
  "dispatch_or_idle target epoch t =
     (case target of
        Some (j, p) \<Rightarrow>
          (Ok (User p), publish_scheduler_epoch epoch
             ((update_slot j (\<lambda>sl. sl\<lparr>ps_phase := Running\<rparr>) t)
                \<lparr>lc_current_execution := handle_encode (sp_handle p)\<rparr>))
      | None \<Rightarrow>
          (Ok (Pid0 (mk_pid0_authority epoch)), publish_scheduler_epoch epoch
             (t\<lparr>lc_current_execution := PID0_IDENTITY\<rparr>)))"

definition dispatch_target :: "lifecycle \<Rightarrow> nat option \<Rightarrow> u64 \<Rightarrow> (nat \<times> scheduled_process) option" where
  "dispatch_target s target epoch =
     map_option (\<lambda>j. (j, scheduled s j (ps_context (lc_slots s ! j)) epoch)) target"

definition target_invalid :: "(nat \<times> scheduled_process) option \<Rightarrow> bool" where
  "target_invalid target \<longleftrightarrow>
     (case target of None \<Rightarrow> False | Some (_, p) \<Rightarrow> isl (dispatch_validate (sp_context p)))"

definition schedule_exit :: "lifecycle \<Rightarrow> isize \<Rightarrow> (lifecycle_error + schedule_decision) \<times> lifecycle" where
  "schedule_exit s exit_code =
     (case current_user_handle s of Err e \<Rightarrow> (Err e, s) | Ok current \<Rightarrow>
     (case running_index s current InvalidHandle InvalidTransition of Err e \<Rightarrow> (Err e, s) | Ok i \<Rightarrow>
     (case next_scheduler_epoch (lc_scheduler_epoch s) of Err e \<Rightarrow> (Err e, s) | Ok epoch \<Rightarrow>
     (let target = dispatch_target s (next_runnable_index s i) epoch in
      if target_invalid target then (Err InvalidContext, s)
      else
        dispatch_or_idle target epoch
          ((update_slot i (\<lambda>sl. sl\<lparr>ps_phase := Zombie, ps_exit_code := exit_code,
                                     ps_wait_sequence := epoch\<rparr>) s)\<lparr>lc_scheduler_epoch := epoch\<rparr>)))))"

definition schedule_from_pid0 :: "lifecycle \<Rightarrow> pid0_authority \<Rightarrow> (lifecycle_error + schedule_decision) \<times> lifecycle" where
  "schedule_from_pid0 s authority =
     (case validate_pid0_authority s authority of Err e \<Rightarrow> (Err e, s) | Ok _ \<Rightarrow>
      if list_ex is_running (lc_slots s) then (Err InvalidTransition, s)
      else
        (case next_scheduler_epoch (lc_scheduler_epoch s) of Err e \<Rightarrow> (Err e, s) | Ok epoch \<Rightarrow>
        (let target = dispatch_target s (position is_runnable (lc_slots s)) epoch in
         if target_invalid target then (Err InvalidContext, s)
         else dispatch_or_idle target epoch (s\<lparr>lc_scheduler_epoch := epoch\<rparr>))))"

definition mark_runnable :: "lifecycle \<Rightarrow> process_handle \<Rightarrow> (lifecycle_error + unit) \<times> lifecycle" where
  "mark_runnable s h =
     (if ph_pid h = NO_PID then (Err Pid0Immutable, s)
      else
        (case slot_by_handle_mut s h of
           None \<Rightarrow> (Err InvalidHandle, s)
         | Some i \<Rightarrow>
             if ps_phase (lc_slots s ! i) \<noteq> Running \<and> ps_phase (lc_slots s ! i) \<noteq> Blocked
             then (Err InvalidTransition, s)
             else (Ok (), update_slot i (\<lambda>sl. sl\<lparr>ps_phase := Runnable\<rparr>) s)))"

definition mark_blocked :: "lifecycle \<Rightarrow> process_handle \<Rightarrow> (lifecycle_error + unit) \<times> lifecycle" where
  "mark_blocked s h =
     (if ph_pid h = NO_PID then (Err Pid0Immutable, s)
      else
        (case slot_by_handle_mut s h of
           None \<Rightarrow> (Err InvalidHandle, s)
         | Some i \<Rightarrow>
             if ps_phase (lc_slots s ! i) \<noteq> Running then (Err InvalidTransition, s)
             else (Ok (), update_slot i (\<lambda>sl. sl\<lparr>ps_phase := Blocked\<rparr>) s)))"

fun wait_loop :: "u32 \<Rightarrow> u32 option \<Rightarrow> bool \<Rightarrow> process_slot list \<Rightarrow> lifecycle_error + process_snapshot" where
  "wait_loop parent requested saw_child [] = Err (if saw_child then StillRunning else NoChild)"
| "wait_loop parent requested saw_child (sl # rest) =
     (if \<not> ps_occupied sl \<or> ps_parent sl \<noteq> parent then wait_loop parent requested saw_child rest
      else if (case requested of None \<Rightarrow> False | Some pid \<Rightarrow> ps_pid sl \<noteq> pid)
      then wait_loop parent requested saw_child rest
      else if ps_phase sl = Zombie then Ok (slot_snapshot sl)
      else wait_loop parent requested True rest)"

definition wait_child :: "lifecycle \<Rightarrow> u32 \<Rightarrow> u32 option \<Rightarrow> lifecycle_error + process_snapshot" where
  "wait_child s parent requested = wait_loop parent requested False (lc_slots s)"

definition reap_child :: "lifecycle \<Rightarrow> u32 \<Rightarrow> process_handle \<Rightarrow> (lifecycle_error + isize) \<times> lifecycle" where
  "reap_child s parent h =
     (if ph_pid h = NO_PID then (Err Pid0Immutable, s)
      else
        (case slot_by_handle_mut s h of
           None \<Rightarrow> (Err InvalidHandle, s)
         | Some i \<Rightarrow>
             (let sl = lc_slots s ! i in
              if ps_parent sl \<noteq> parent then (Err NotChild, s)
              else if ps_phase sl \<noteq> Zombie then (Err StillRunning, s)
              else
                (let generation = (case checked_add (ps_generation sl) 1 of None \<Rightarrow> - 1 | Some g \<Rightarrow> g) in
                 (Ok (ps_exit_code sl),
                  update_slot i (\<lambda>_. slot_EMPTY\<lparr>ps_generation := generation\<rparr>) s)))))"

definition snapshot :: "lifecycle \<Rightarrow> u32 \<Rightarrow> process_snapshot option" where
  "snapshot s pid = map_option slot_snapshot (slot_by_pid s pid)"

definition next_runnable :: "lifecycle \<Rightarrow> u32 \<Rightarrow> process_snapshot option" where
  "next_runnable s after_pid =
     (let start = (case position (\<lambda>sl. ps_occupied sl \<and> ps_pid sl = after_pid) (lc_slots s) of
                     None \<Rightarrow> 0 | Some i \<Rightarrow> i + 1);
          n = length (lc_slots s) in
      map_option slot_snapshot
        (List.find is_runnable (map (\<lambda>k. lc_slots s ! ((start + k) mod n)) [0..<n])))"

inductive lifecycle_step :: "lifecycle \<Rightarrow> lifecycle \<Rightarrow> bool" where
  register: "lifecycle_step s (snd (register_init s launch))"
| commit: "lifecycle_step s (snd (commit_child s parent launch))"
| publish: "lifecycle_step s (snd (publish_current s h))"
| run: "lifecycle_step s (snd (mark_running s h))"
| resume: "lifecycle_step s (snd (resume_current s saved))"
| yield: "lifecycle_step s (snd (schedule_yield s saved))"
| preempt: "lifecycle_step s (snd (schedule_preempt s saved authority))"
| exit: "lifecycle_step s (snd (schedule_exit s exit_code))"
| idle: "lifecycle_step s (snd (schedule_from_pid0 s pid0))"
| wake: "lifecycle_step s (snd (mark_runnable s h))"
| block: "lifecycle_step s (snd (mark_blocked s h))"
| reap: "lifecycle_step s (snd (reap_child s parent h))"

section \<open>Identity encoding\<close>

lemma ucast_handle_encode [simp]: "ucast (handle_encode h) = ph_pid h"
  by (rule bit_word_eqI) (simp add: handle_encode_def bit_simps)

lemma ucast_drop_handle_encode [simp]: "ucast (drop_bit 32 (handle_encode h)) = ph_generation h"
  by (rule bit_word_eqI) (auto simp: handle_encode_def bit_simps dest: bit_imp_le_length)

lemma handle_encode_inj [simp]: "handle_encode a = handle_encode b \<longleftrightarrow> a = b"
  by (metis ucast_handle_encode ucast_drop_handle_encode process_handle.equality unit.exhaust)

lemma PID0_IDENTITY_encode: "PID0_IDENTITY = handle_encode \<lparr>ph_pid = 0, ph_generation = 1\<rparr>"
  by (simp add: PID0_IDENTITY_def handle_encode_def)

lemma encode_eq_PID0: "ph_pid h \<noteq> 0 \<Longrightarrow> handle_encode h \<noteq> PID0_IDENTITY"
  unfolding PID0_IDENTITY_encode handle_encode_inj by (metis process_handle.select_convs(1))

lemma handle_decode_encode: "ph_pid h \<noteq> 0 \<Longrightarrow> ph_generation h \<noteq> 0 \<Longrightarrow> handle_decode (handle_encode h) = Some h"
proof -
  assume h: "ph_pid h \<noteq> 0" "ph_generation h \<noteq> 0"
  have "handle_encode h \<noteq> 0" using h(1) ucast_handle_encode[of h] by (metis ucast_0)
  with h show ?thesis by (simp add: handle_decode_def)
qed

lemma handle_encode_ucast: "handle_encode \<lparr>ph_pid = ucast e, ph_generation = ucast (drop_bit 32 e)\<rparr> = e"
  by (rule bit_word_eqI) (auto simp: handle_encode_def bit_simps)

lemma handle_decode_SomeD: "handle_decode e = Some h \<Longrightarrow> handle_encode h = e \<and> ph_pid h \<noteq> 0 \<and> ph_generation h \<noteq> 0"
  by (auto simp: handle_decode_def Let_def handle_encode_ucast split: if_splits)

lemma handle_decode_PID0 [simp]: "handle_decode PID0_IDENTITY = None"
  by (simp add: PID0_IDENTITY_def handle_decode_def)

section \<open>The invariant\<close>

definition slot_ok :: "process_slot \<Rightarrow> bool" where
  "slot_ok sl \<longleftrightarrow> ps_generation sl \<noteq> 0 \<and>
     (if ps_occupied sl
      then ps_pid sl \<noteq> 0 \<and> ps_phase sl \<noteq> Free \<and> ps_phase sl \<noteq> Installing
           \<and> launch_validate (ps_launch sl) \<and> context_validate (ps_context sl) = Ok ()
      else ps_phase sl = Free)"

definition pids_distinct :: "process_slot list \<Rightarrow> bool" where
  "pids_distinct L \<longleftrightarrow> (\<forall>i < length L. \<forall>j < length L.
     ps_occupied (L ! i) \<longrightarrow> ps_occupied (L ! j) \<longrightarrow> ps_pid (L ! i) = ps_pid (L ! j) \<longrightarrow> i = j)"

definition running_is :: "u64 \<Rightarrow> process_slot list \<Rightarrow> bool" where
  "running_is c L \<longleftrightarrow> (\<forall>i < length L. is_running (L ! i) \<longrightarrow> handle_encode (slot_handle (L ! i)) = c)"

definition is_live :: "process_slot \<Rightarrow> bool" where
  "is_live sl \<longleftrightarrow> ps_occupied sl \<and> ps_phase sl \<noteq> Zombie"

definition current_live :: "u64 \<Rightarrow> process_slot list \<Rightarrow> bool" where
  "current_live c L \<longleftrightarrow> c = PID0_IDENTITY
     \<or> (\<exists>i < length L. is_live (L ! i) \<and> handle_encode (slot_handle (L ! i)) = c)"

definition lifecycle_inv :: "lifecycle \<Rightarrow> bool" where
  "lifecycle_inv s \<longleftrightarrow> length (lc_slots s) = MAXIMUM_PROCESSES \<and> list_all slot_ok (lc_slots s)
     \<and> pids_distinct (lc_slots s)
     \<and> running_is (lc_current_execution s) (lc_slots s)
     \<and> current_live (lc_current_execution s) (lc_slots s)
     \<and> lc_published_epoch s = lc_scheduler_epoch s"

lemma lifecycle_invD:
  assumes "lifecycle_inv s"
  shows "length (lc_slots s) = 64" and "i < 64 \<Longrightarrow> slot_ok (lc_slots s ! i)"
    and "pids_distinct (lc_slots s)" and "running_is (lc_current_execution s) (lc_slots s)"
    and "current_live (lc_current_execution s) (lc_slots s)"
    and "lc_published_epoch s = lc_scheduler_epoch s"
  using assms by (auto simp: lifecycle_inv_def list_all_length)

lemma slot_handle_eq: "slot_handle sl = h \<longleftrightarrow> ps_pid sl = ph_pid h \<and> ps_generation sl = ph_generation h"
  by (cases h) (simp add: slot_handle_def)

lemma matches_handle_iff: "matches_handle h sl \<longleftrightarrow> ps_occupied sl \<and> slot_handle sl = h"
  by (auto simp: matches_handle_def slot_handle_eq)

lemma is_running_live: "is_running sl \<Longrightarrow> is_live sl" "is_runnable sl \<Longrightarrow> is_live sl"
  by (simp_all add: is_running_def is_live_def is_runnable_def)

lemma not_running_runnable: "is_running sl \<Longrightarrow> \<not> is_runnable sl"
  by (simp add: is_running_def is_runnable_def)

lemma same_handle_same_index:
  assumes "pids_distinct L" and "i < length L" and "j < length L"
    and "ps_occupied (L ! i)" and "ps_occupied (L ! j)"
    and "handle_encode (slot_handle (L ! i)) = handle_encode (slot_handle (L ! j))"
  shows "i = j"
proof -
  from assms(6) have "ps_pid (L ! i) = ps_pid (L ! j)" by (simp add: slot_handle_def)
  with assms(1-5) show ?thesis by (auto simp: pids_distinct_def)
qed

lemma running_unique:
  assumes "lifecycle_inv s" and "is_running (lc_slots s ! i)" and "is_running (lc_slots s ! j)"
    and "i < 64" and "j < 64"
  shows "i = j"
  using lifecycle_invD(1,3,4)[OF assms(1)] assms(2-5)
  by (intro same_handle_same_index[of "lc_slots s"]) (auto simp: running_is_def is_running_def)

text \<open>How the parts of the invariant survive the update of one slot.\<close>

lemma list_all_update: "list_all P xs \<Longrightarrow> P x \<Longrightarrow> list_all P (xs[i := x])"
  by (auto simp: list_all_iff dest: set_update_subset_insert[THEN subsetD])

lemma pids_distinct_same:
  assumes "pids_distinct L" and "i < length L" and "ps_occupied x = ps_occupied (L ! i)" and "ps_pid x = ps_pid (L ! i)"
  shows "pids_distinct (L[i := x])"
proof -
  have "ps_occupied (L[i := x] ! j) = ps_occupied (L ! j) \<and> ps_pid (L[i := x] ! j) = ps_pid (L ! j)" for j
    using assms(2-4) by (cases "i = j") simp_all
  then show ?thesis using assms(1) by (simp add: pids_distinct_def)
qed

lemma pids_distinct_free:
  "pids_distinct L \<Longrightarrow> \<not> ps_occupied x \<Longrightarrow> pids_distinct (L[i := x])"
  unfolding pids_distinct_def by (auto simp: nth_update split: if_splits)

lemma pids_distinct_new:
  "pids_distinct L \<Longrightarrow> \<forall>j < length L. ps_occupied (L ! j) \<longrightarrow> ps_pid (L ! j) \<noteq> ps_pid x
     \<Longrightarrow> pids_distinct (L[i := x])"
  unfolding pids_distinct_def by (auto simp: nth_update split: if_splits)

lemma running_is_update:
  "running_is c L \<Longrightarrow> (is_running x \<Longrightarrow> handle_encode (slot_handle x) = c) \<Longrightarrow> running_is c (L[i := x])"
  unfolding running_is_def by (auto simp: nth_update split: if_splits)

definition none_running :: "process_slot list \<Rightarrow> bool" where
  "none_running L \<longleftrightarrow> (\<forall>i < length L. \<not> is_running (L ! i))"

lemma none_running_list_ex: "none_running L \<longleftrightarrow> \<not> list_ex is_running L"
  by (simp add: none_running_def list_ex_length)

lemma none_running_start:
  "none_running L \<Longrightarrow> handle_encode (slot_handle x) = c \<Longrightarrow> running_is c (L[i := x])"
  unfolding running_is_def none_running_def by (auto simp: nth_update split: if_splits)

lemma running_stopped:
  assumes "lifecycle_inv s" and "is_running (lc_slots s ! i)" and "i < 64" and "\<not> is_running x"
  shows "none_running ((lc_slots s)[i := x])"
  using running_unique[OF assms(1) _ assms(2) _ assms(3)] lifecycle_invD(1)[OF assms(1)] assms(4)
  by (auto simp: none_running_def nth_update split: if_splits)

lemma current_live_update:
  assumes "current_live c L" and "i < length L" and "is_live (L ! i) \<Longrightarrow> is_live x"
    and "is_live (L ! i) \<Longrightarrow> slot_handle x = slot_handle (L ! i)"
  shows "current_live c (L[i := x])"
  using assms(1)[unfolded current_live_def]
proof
  assume "c = PID0_IDENTITY" then show ?thesis by (simp add: current_live_def)
next
  assume "\<exists>j<length L. is_live (L ! j) \<and> handle_encode (slot_handle (L ! j)) = c"
  then obtain j where j: "j < length L" "is_live (L ! j)" "handle_encode (slot_handle (L ! j)) = c" by blast
  have "is_live (L[i := x] ! j) \<and> handle_encode (slot_handle (L[i := x] ! j)) = c"
    using j assms(2-4) by (cases "i = j") auto
  then show ?thesis using j(1) unfolding current_live_def by (auto intro!: exI[of _ j])
qed

lemma current_live_at:
  "i < length L \<Longrightarrow> is_live x \<Longrightarrow> handle_encode (slot_handle x) = c \<Longrightarrow> current_live c (L[i := x])"
  unfolding current_live_def by (auto intro!: exI[of _ i])

section \<open>Effects\<close>

text \<open>
  What one step can do to a well-formed state, by the shape of the change. The proofs below
  go by cases on the effect instead of on the twelve operations.
\<close>

abbreviation advance :: "u64 \<Rightarrow> process_slot list \<Rightarrow> lifecycle \<Rightarrow> lifecycle" where
  "advance c L s \<equiv> s\<lparr>lc_slots := L, lc_scheduler_epoch := lc_scheduler_epoch s + 1,
     lc_current_execution := c, lc_published_epoch := lc_scheduler_epoch s + 1\<rparr>"

abbreviation slot_identity :: "lifecycle \<Rightarrow> nat \<Rightarrow> u64" where
  "slot_identity s i \<equiv> handle_encode (slot_handle (lc_slots s ! i))"

inductive lifecycle_effect :: "lifecycle \<Rightarrow> lifecycle \<Rightarrow> bool" where
  skip: "lifecycle_effect s (s\<lparr>lc_next_pid := n\<rparr>)"
| fill: "i < 64 \<Longrightarrow> is_free_slot (lc_slots s ! i) \<Longrightarrow> slot_ok x \<Longrightarrow> is_runnable x
    \<Longrightarrow> \<forall>j < 64. ps_occupied (lc_slots s ! j) \<longrightarrow> ps_pid (lc_slots s ! j) \<noteq> ps_pid x
    \<Longrightarrow> ps_generation (lc_slots s ! i) \<le> ps_generation x
    \<Longrightarrow> lifecycle_effect s (s\<lparr>lc_slots := (lc_slots s)[i := x], lc_next_pid := n\<rparr>)"
| start: "lc_current_execution s = PID0_IDENTITY \<Longrightarrow> none_running (lc_slots s) \<Longrightarrow> i < 64
    \<Longrightarrow> is_runnable (lc_slots s ! i) \<Longrightarrow> lc_scheduler_epoch s \<noteq> - 1
    \<Longrightarrow> lifecycle_effect s (advance (slot_identity s i)
          ((lc_slots s)[i := (lc_slots s ! i)\<lparr>ps_phase := Running\<rparr>]) s)"
| idle: "lc_current_execution s = PID0_IDENTITY \<Longrightarrow> lc_scheduler_epoch s \<noteq> - 1
    \<Longrightarrow> lifecycle_effect s (advance PID0_IDENTITY (lc_slots s) s)"
| save: "i < 64 \<Longrightarrow> is_running (lc_slots s ! i) \<Longrightarrow> context_validate saved = Ok ()
    \<Longrightarrow> lc_scheduler_epoch s \<noteq> - 1
    \<Longrightarrow> lifecycle_effect s (advance (slot_identity s i)
          ((lc_slots s)[i := (lc_slots s ! i)\<lparr>ps_context := saved\<rparr>]) s)"
| switch: "i < 64 \<Longrightarrow> is_running (lc_slots s ! i) \<Longrightarrow> context_validate saved = Ok ()
    \<Longrightarrow> j < 64 \<Longrightarrow> is_runnable (lc_slots s ! j) \<Longrightarrow> lc_scheduler_epoch s \<noteq> - 1
    \<Longrightarrow> lifecycle_effect s (advance (slot_identity s j)
          ((lc_slots s)[i := (lc_slots s ! i)\<lparr>ps_phase := Runnable, ps_context := saved\<rparr>,
                        j := (lc_slots s ! j)\<lparr>ps_phase := Running\<rparr>]) s)"
| exit_to: "i < 64 \<Longrightarrow> is_running (lc_slots s ! i) \<Longrightarrow> j < 64 \<Longrightarrow> is_runnable (lc_slots s ! j)
    \<Longrightarrow> lc_scheduler_epoch s \<noteq> - 1
    \<Longrightarrow> lifecycle_effect s (advance (slot_identity s j)
          ((lc_slots s)[i := (lc_slots s ! i)\<lparr>ps_phase := Zombie, ps_exit_code := code, ps_wait_sequence := seq\<rparr>,
                        j := (lc_slots s ! j)\<lparr>ps_phase := Running\<rparr>]) s)"
| exit_idle: "i < 64 \<Longrightarrow> is_running (lc_slots s ! i) \<Longrightarrow> lc_scheduler_epoch s \<noteq> - 1
    \<Longrightarrow> lifecycle_effect s (advance PID0_IDENTITY
          ((lc_slots s)[i := (lc_slots s ! i)\<lparr>ps_phase := Zombie, ps_exit_code := code, ps_wait_sequence := seq\<rparr>]) s)"
| phase: "i < 64 \<Longrightarrow> ps_occupied (lc_slots s ! i) \<Longrightarrow> ps_phase (lc_slots s ! i) \<in> {Running, Blocked}
    \<Longrightarrow> p \<in> {Runnable, Blocked}
    \<Longrightarrow> lifecycle_effect s (s\<lparr>lc_slots := (lc_slots s)[i := (lc_slots s ! i)\<lparr>ps_phase := p\<rparr>]\<rparr>)"
| reap: "i < 64 \<Longrightarrow> ps_occupied (lc_slots s ! i) \<Longrightarrow> ps_phase (lc_slots s ! i) = Zombie
    \<Longrightarrow> g = (if ps_generation (lc_slots s ! i) = - 1 then - 1 else ps_generation (lc_slots s ! i) + 1)
    \<Longrightarrow> lifecycle_effect s (s\<lparr>lc_slots := (lc_slots s)[i := slot_EMPTY\<lparr>ps_generation := g\<rparr>]\<rparr>)"

lemma effect_same [simp, intro]: "lifecycle_effect s s"
  using lifecycle_effect.skip[of s "lc_next_pid s"] by simp

lemma next_scheduler_epoch_cases:
  "next_scheduler_epoch e = (if e = - 1 then Err EpochExhausted else Ok (e + 1))"
  by (simp add: next_scheduler_epoch_def checked_add_one)

lemma position_64:
  "lifecycle_inv s \<Longrightarrow> position P (lc_slots s) = Some i \<Longrightarrow> i < 64 \<and> P (lc_slots s ! i)"
  using lifecycle_invD(1) position_SomeD by metis

lemma running_index_Ok:
  assumes "lifecycle_inv s" and "running_index s h e1 e2 = Ok i"
  shows "i < 64" and "is_running (lc_slots s ! i)" and "slot_handle (lc_slots s ! i) = h"
  using assms position_64[OF assms(1), of "matches_handle h" i]
  by (auto simp: running_index_def is_running_def matches_handle_iff split: option.splits if_splits)

lemma next_runnable_index_Some:
  assumes "lifecycle_inv s" and "next_runnable_index s i = Some j"
  shows "j < 64" and "is_runnable (lc_slots s ! j)"
proof -
  from assms(2)[unfolded next_runnable_index_def] obtain k where
    "j = (i + k) mod length (lc_slots s)" "is_runnable (lc_slots s ! j)"
    by (rule find_map_upt_Some)
  with lifecycle_invD(1)[OF assms(1)] show "j < 64" "is_runnable (lc_slots s ! j)" by simp_all
qed

lemma scheduled_validate:
  assumes "lifecycle_inv s" and "i < 64" and "ps_occupied (lc_slots s ! i)"
  shows "dispatch_validate (sp_context (scheduled s i user e)) = Ok () \<longleftrightarrow> context_validate user = Ok ()"
  using lifecycle_invD(2)[OF assms(1,2)] assms(3)
  by (simp add: dispatch_validate_Ok scheduled_def Let_def slot_ok_def launch_validate_def)

lemma scheduled_handle [simp]: "sp_handle (scheduled s i user e) = slot_handle (lc_slots s ! i)"
  by (simp add: scheduled_def Let_def)

lemma runnable_context:
  assumes "lifecycle_inv s" and "i < 64" and "is_runnable (lc_slots s ! i)"
  shows "context_validate (ps_context (lc_slots s ! i)) = Ok ()" and "ps_occupied (lc_slots s ! i)"
  using lifecycle_invD(2)[OF assms(1,2)] assms(3) by (auto simp: slot_ok_def is_runnable_def)

lemma lifecycle_update_commute:
  "s\<lparr>lc_scheduler_epoch := e, lc_slots := L\<rparr> = s\<lparr>lc_slots := L, lc_scheduler_epoch := e\<rparr>"
  "s\<lparr>lc_next_pid := n, lc_slots := L\<rparr> = s\<lparr>lc_slots := L, lc_next_pid := n\<rparr>"
  "sl\<lparr>ps_context := c, ps_phase := p\<rparr> = sl\<lparr>ps_phase := p, ps_context := c\<rparr>"
  by simp_all

lemma update_slot_eq: "update_slot i f s = s\<lparr>lc_slots := (lc_slots s)[i := f (lc_slots s ! i)]\<rparr>"
  by (simp add: update_slot_def)

lemma publish_current_effect:
  assumes "lifecycle_inv s"
  shows "snd (publish_current s h) = s"
proof (cases "fst (publish_current s h) = Ok ()")
  case True
  then obtain sl where sl: "slot_by_handle s h = Some sl" "ps_phase sl = Running"
    and t: "snd (publish_current s h) = s\<lparr>lc_current_execution := handle_encode h\<rparr>"
    by (auto simp: publish_current_def split: if_splits option.splits)
  from sl(1) obtain i where "i < 64" "matches_handle h (lc_slots s ! i)" "sl = lc_slots s ! i"
    using lifecycle_invD(1)[OF assms] by (auto simp: slot_by_handle_def find_Some_iff)
  with sl(2) lifecycle_invD(1,4)[OF assms] have "handle_encode h = lc_current_execution s"
    by (auto simp: running_is_def is_running_def matches_handle_iff)
  with t show ?thesis by simp
qed (auto simp: publish_current_def split: if_splits option.splits)

lemma fill_slot_ok:
  assumes "slot_ok sl" and "ps_generation sl \<noteq> 0" and "pid \<noteq> 0" and "launch_validate l"
  shows "slot_ok (fill_slot pid parent l seq sl)" and "is_runnable (fill_slot pid parent l seq sl)"
  using assms by (simp_all add: slot_ok_def fill_slot_def is_runnable_def launch_validate_def context_initial_validate)

lemma slot_by_pid_None:
  "lifecycle_inv s \<Longrightarrow> slot_by_pid s pid = None \<Longrightarrow> j < 64 \<Longrightarrow> ps_occupied (lc_slots s ! j) \<Longrightarrow> ps_pid (lc_slots s ! j) \<noteq> pid"
  using lifecycle_invD(1)[of s] by (auto simp: slot_by_pid_def find_None_iff)

lemma register_init_effect:
  assumes "lifecycle_inv s"
  shows "lifecycle_effect s (snd (register_init s l))"
proof (cases "launch_validate l \<and> slot_by_pid s INIT_PID = None")
  case True
  show ?thesis
  proof (cases "position is_free_slot (lc_slots s)")
    case None
    with True show ?thesis by (simp add: register_init_def)
  next
    case (Some i)
    note p = position_64[OF assms Some]
    let ?x = "fill_slot INIT_PID NO_PID l 0 (lc_slots s ! i)"
    have ok: "slot_ok (lc_slots s ! i)" using lifecycle_invD(2)[OF assms] p by blast
    then have gen: "ps_generation (lc_slots s ! i) \<noteq> 0" by (simp add: slot_ok_def)
    have "lifecycle_effect s (s\<lparr>lc_slots := (lc_slots s)[i := ?x], lc_next_pid := lc_next_pid s\<rparr>)"
      using p fill_slot_ok[OF ok gen, of INIT_PID l] slot_by_pid_None[OF assms] True
      by (intro lifecycle_effect.fill) (auto simp: fill_slot_def)
    with Some True show ?thesis by (simp add: register_init_def update_slot_eq)
  qed
qed (auto simp: register_init_def)

lemma allocate_pid_loop_Some:
  "allocate_pid_loop n L p = (Some c, q) \<Longrightarrow> c \<noteq> 0 \<and> (\<forall>sl \<in> set L. ps_occupied sl \<longrightarrow> ps_pid sl \<noteq> c)"
proof (induction n L p rule: allocate_pid_loop.induct)
  case (2 n L p)
  have "(2 :: u32) \<noteq> 0" by simp
  then have "max p 2 \<noteq> (0 :: u32)" by (metis max.cobounded2 word_le_0_iff)
  with 2 show ?case by (auto simp: Let_def list_ex_iff split: if_splits)
qed simp

lemma allocate_pid_cases:
  assumes "lifecycle_inv s" and "allocate_pid s = (r, t)"
  obtains n where "t = s\<lparr>lc_next_pid := n\<rparr>"
    and "\<And>c. r = Some c \<Longrightarrow> c \<noteq> 0 \<and> (\<forall>j < 64. ps_occupied (lc_slots s ! j) \<longrightarrow> ps_pid (lc_slots s ! j) \<noteq> c)"
proof -
  obtain r' n where a: "allocate_pid_loop (MAXIMUM_PROCESSES + 1) (lc_slots s) (lc_next_pid s) = (r', n)" by fastforce
  show ?thesis
  proof (rule that[of n])
    show "t = s\<lparr>lc_next_pid := n\<rparr>" using assms(2) a by (simp add: allocate_pid_def)
    show "c \<noteq> 0 \<and> (\<forall>j < 64. ps_occupied (lc_slots s ! j) \<longrightarrow> ps_pid (lc_slots s ! j) \<noteq> c)" if "r = Some c" for c
      using allocate_pid_loop_Some[of "MAXIMUM_PROCESSES + 1" "lc_slots s" "lc_next_pid s" c n]
        a assms(2) that lifecycle_invD(1)[OF assms(1)] by (auto simp: allocate_pid_def)
  qed
qed

lemma commit_child_effect:
  assumes "lifecycle_inv s"
  shows "lifecycle_effect s (snd (commit_child s parent l))"
proof (cases "parent \<noteq> NO_PID \<and> launch_validate l \<and> (\<exists>sl. slot_by_pid s parent = Some sl \<and> ps_phase sl \<noteq> Free \<and> ps_phase sl \<noteq> Zombie)")
  case True
  then obtain psl where psl: "slot_by_pid s parent = Some psl" "ps_phase psl \<noteq> Free" "ps_phase psl \<noteq> Zombie" by blast
  obtain r t where a: "allocate_pid s = (r, t)" by fastforce
  from allocate_pid_cases[OF assms a] obtain n where t: "t = s\<lparr>lc_next_pid := n\<rparr>"
    and r: "\<And>c. r = Some c \<Longrightarrow> c \<noteq> 0 \<and> (\<forall>j < 64. ps_occupied (lc_slots s ! j) \<longrightarrow> ps_pid (lc_slots s ! j) \<noteq> c)"
    by blast
  show ?thesis
  proof (cases "r = None \<or> position is_free_slot (lc_slots s) = None")
    case True
    with a t psl show ?thesis
      using lifecycle_effect.skip[of s n]
      by (auto simp: commit_child_def split: option.splits)
  next
    case False
    then obtain c i where c: "r = Some c" and i: "position is_free_slot (lc_slots s) = Some i" by auto
    note p = position_64[OF assms i]
    let ?g = "ps_generation (lc_slots s ! i) + 1"
    let ?x = "fill_slot c parent l (lc_scheduler_epoch s) ((lc_slots s ! i)\<lparr>ps_generation := ?g\<rparr>)"
    have gen: "ps_generation (lc_slots s ! i) \<noteq> - 1" using p by (simp add: is_free_slot_def)
    have "?g \<noteq> 0" using gen by (rule word_add_one_neq_0)
    moreover have "slot_ok ((lc_slots s ! i)\<lparr>ps_generation := ?g\<rparr>)"
      using lifecycle_invD(2)[OF assms] p \<open>?g \<noteq> 0\<close> by (auto simp: slot_ok_def)
    ultimately have "lifecycle_effect s (s\<lparr>lc_slots := (lc_slots s)[i := ?x], lc_next_pid := n\<rparr>)"
      using p r[OF c] True fill_slot_ok[of "(lc_slots s ! i)\<lparr>ps_generation := ?g\<rparr>" c l] gen
      by (intro lifecycle_effect.fill) (auto simp: fill_slot_def word_le_add_one)
    with psl True a c t i gen show ?thesis
      by (simp add: commit_child_def update_slot_eq lifecycle_update_commute checked_add_one)
  qed
qed (auto simp: commit_child_def split: option.splits)

lemma mark_running_effect:
  assumes "lifecycle_inv s"
  shows "lifecycle_effect s (snd (mark_running s h))"
proof (cases "ph_pid h \<noteq> NO_PID \<and> lc_current_execution s = PID0_IDENTITY \<and> \<not> list_ex is_running (lc_slots s)
    \<and> lc_scheduler_epoch s \<noteq> - 1
    \<and> (\<exists>i. position (matches_handle h) (lc_slots s) = Some i \<and> ps_phase (lc_slots s ! i) = Runnable)")
  case True
  then obtain i where i: "position (matches_handle h) (lc_slots s) = Some i" "ps_phase (lc_slots s ! i) = Runnable" by blast
  note p = position_64[OF assms i(1)]
  have "lifecycle_effect s (advance (slot_identity s i) ((lc_slots s)[i := (lc_slots s ! i)\<lparr>ps_phase := Running\<rparr>]) s)"
    using True p i(2) by (intro lifecycle_effect.start) (simp_all add: none_running_list_ex is_runnable_def matches_handle_iff)
  moreover have "slot_handle ((lc_slots s ! i)\<lparr>ps_phase := Running\<rparr>) = slot_handle (lc_slots s ! i)"
    by (simp add: slot_handle_def)
  ultimately show ?thesis using True i p lifecycle_invD(1)[OF assms]
    by (simp add: mark_running_def next_scheduler_epoch_cases update_slot_eq lifecycle_update_commute publish_scheduler_epoch_def Let_def slot_snapshot_def)
qed (auto simp: mark_running_def next_scheduler_epoch_cases split: option.splits)

lemma advance_same_current:
  "lc_current_execution s = c \<Longrightarrow> s\<lparr>lc_slots := L, lc_scheduler_epoch := lc_scheduler_epoch s + 1,
     lc_published_epoch := lc_scheduler_epoch s + 1\<rparr> = advance c L s"
  by simp

lemma running_current:
  "lifecycle_inv s \<Longrightarrow> i < 64 \<Longrightarrow> is_running (lc_slots s ! i) \<Longrightarrow> lc_current_execution s = slot_identity s i"
  using lifecycle_invD(1,4)[of s] by (auto simp: running_is_def)

lemma resume_current_eq:
  assumes "lifecycle_inv s" and "context_validate saved = Ok ()" and "current_user_handle s = Ok h"
    and "running_index s h InvalidHandle InvalidTransition = Ok i" and "lc_scheduler_epoch s \<noteq> - 1"
  shows "resume_current s saved = (Ok (scheduled s i saved (lc_scheduler_epoch s + 1)),
     advance (slot_identity s i) ((lc_slots s)[i := (lc_slots s ! i)\<lparr>ps_context := saved\<rparr>]) s)"
proof -
  note i = running_index_Ok[OF assms(1,4)]
  note cur = advance_same_current[OF running_current[OF assms(1) i(1,2)]]
  have "dispatch_validate (sp_context (scheduled s i saved e)) = Ok ()" for e
    using scheduled_validate[OF assms(1) i(1)] i(2) assms(2) by (simp add: is_running_def)
  then show ?thesis using assms cur
    by (simp add: resume_current_def next_scheduler_epoch_cases update_slot_eq publish_scheduler_epoch_def Let_def)
qed

lemma resume_current_effect:
  assumes "lifecycle_inv s"
  shows "lifecycle_effect s (snd (resume_current s saved))"
proof (cases "\<exists>h i. context_validate saved = Ok () \<and> current_user_handle s = Ok h
    \<and> running_index s h InvalidHandle InvalidTransition = Ok i \<and> lc_scheduler_epoch s \<noteq> - 1")
  case True
  then obtain h i where *: "context_validate saved = Ok ()" "current_user_handle s = Ok h"
    "running_index s h InvalidHandle InvalidTransition = Ok i" "lc_scheduler_epoch s \<noteq> - 1" by blast
  show ?thesis unfolding resume_current_eq[OF assms *] snd_conv
    using running_index_Ok[OF assms *(3)] * by (intro lifecycle_effect.save)
qed (auto simp: resume_current_def next_scheduler_epoch_cases Let_def split: sum.splits)

text \<open>The scheduling tail never fails on a well-formed table unless the epoch is exhausted.\<close>

lemma rotate_eq:
  assumes "lifecycle_inv s" and "i < 64" and "is_running (lc_slots s ! i)" and "context_validate saved = Ok ()"
    and "lc_scheduler_epoch s \<noteq> - 1"
  shows "rotate s i saved = (case next_runnable_index s i of
      None \<Rightarrow> (Ok (scheduled s i saved (lc_scheduler_epoch s + 1)),
         advance (slot_identity s i) ((lc_slots s)[i := (lc_slots s ! i)\<lparr>ps_context := saved\<rparr>]) s)
    | Some j \<Rightarrow> (Ok (scheduled s j (ps_context (lc_slots s ! j)) (lc_scheduler_epoch s + 1)),
         advance (slot_identity s j)
           ((lc_slots s)[i := (lc_slots s ! i)\<lparr>ps_phase := Runnable, ps_context := saved\<rparr>,
                         j := (lc_slots s ! j)\<lparr>ps_phase := Running\<rparr>]) s))"
proof (cases "next_runnable_index s i")
  case None
  have "dispatch_validate (sp_context (scheduled s i saved e)) = Ok ()" for e
    using scheduled_validate[OF assms(1,2)] assms(3,4) by (simp add: is_running_def)
  moreover have "(lc_slots s ! i)\<lparr>ps_context := saved, ps_phase := Running\<rparr> = (lc_slots s ! i)\<lparr>ps_context := saved\<rparr>"
    using assms(3) by (simp add: is_running_def)
  ultimately show ?thesis using None assms(2,5) lifecycle_invD(1)[OF assms(1)]
    by (simp add: rotate_def next_scheduler_epoch_cases update_slot_eq lifecycle_update_commute publish_scheduler_epoch_def Let_def)
next
  case (Some j)
  note j = next_runnable_index_Some[OF assms(1) Some]
  have ij: "j \<noteq> i" using not_running_runnable[OF assms(3)] j(2) by blast
  have "dispatch_validate (sp_context (scheduled s j (ps_context (lc_slots s ! j)) e)) = Ok ()" for e
    using scheduled_validate[OF assms(1) j(1)] runnable_context[OF assms(1) j] by simp
  then show ?thesis using Some ij assms(2,5) lifecycle_invD(1)[OF assms(1)]
    by (simp add: rotate_def next_scheduler_epoch_cases update_slot_eq lifecycle_update_commute publish_scheduler_epoch_def Let_def)
qed

lemma rotate_exhausted: "lc_scheduler_epoch s = - 1 \<Longrightarrow> rotate s i saved = (Err EpochExhausted, s)"
  by (simp add: rotate_def next_scheduler_epoch_cases Let_def)

lemma rotate_effect:
  assumes "lifecycle_inv s" and "i < 64" and "is_running (lc_slots s ! i)" and "context_validate saved = Ok ()"
  shows "lifecycle_effect s (snd (rotate s i saved))"
proof (cases "lc_scheduler_epoch s = - 1")
  case True
  then show ?thesis by (simp add: rotate_exhausted)
next
  case False
  show ?thesis
    unfolding rotate_eq[OF assms False]
    by (cases "next_runnable_index s i")
      (use assms False next_runnable_index_Some[OF assms(1)] in \<open>auto intro: lifecycle_effect.save lifecycle_effect.switch\<close>)
qed

lemma schedule_yield_effect:
  assumes "lifecycle_inv s"
  shows "lifecycle_effect s (snd (schedule_yield s saved))"
  using running_index_Ok[OF assms] rotate_effect[OF assms]
  by (auto simp: schedule_yield_def Let_def split: sum.splits)

lemma schedule_preempt_effect:
  assumes "lifecycle_inv s"
  shows "lifecycle_effect s (snd (schedule_preempt s saved a))"
  using running_index_Ok[OF assms] rotate_effect[OF assms]
  by (auto simp: schedule_preempt_def split: sum.splits)

lemma dispatch_target_valid:
  assumes "lifecycle_inv s" and "\<And>j. target = Some j \<Longrightarrow> j < 64 \<and> is_runnable (lc_slots s ! j)"
  shows "\<not> target_invalid (dispatch_target s target e)"
proof (cases target)
  case (Some j)
  with assms(2) have j: "j < 64" "is_runnable (lc_slots s ! j)" by blast+
  have "dispatch_validate (sp_context (scheduled s j (ps_context (lc_slots s ! j)) e)) = Ok ()"
    using scheduled_validate[OF assms(1) j(1)] runnable_context[OF assms(1) j] by simp
  with Some show ?thesis by (simp add: target_invalid_def dispatch_target_def)
qed (simp add: target_invalid_def dispatch_target_def)

lemma schedule_exit_effect:
  assumes "lifecycle_inv s"
  shows "lifecycle_effect s (snd (schedule_exit s code))"
proof (cases "\<exists>h i. current_user_handle s = Ok h \<and> running_index s h InvalidHandle InvalidTransition = Ok i
    \<and> lc_scheduler_epoch s \<noteq> - 1")
  case True
  then obtain h i where *: "current_user_handle s = Ok h"
    "running_index s h InvalidHandle InvalidTransition = Ok i" "lc_scheduler_epoch s \<noteq> - 1" by blast
  note i = running_index_Ok[OF assms *(2)]
  note valid = dispatch_target_valid[OF assms, of "next_runnable_index s i"]
  show ?thesis
  proof (cases "next_runnable_index s i")
    case None
    then show ?thesis using * valid lifecycle_effect.exit_idle[OF i(1,2) *(3)]
      by (simp add: schedule_exit_def next_scheduler_epoch_cases update_slot_eq publish_scheduler_epoch_def Let_def
          dispatch_or_idle_def dispatch_target_def)
  next
    case (Some j)
    note j = next_runnable_index_Some[OF assms Some]
    have ij: "j \<noteq> i" using not_running_runnable[OF i(2)] j(2) by blast
    show ?thesis using Some j ij * valid lifecycle_effect.exit_to[OF i(1,2) j *(3)]
      by (simp add: schedule_exit_def next_scheduler_epoch_cases update_slot_eq publish_scheduler_epoch_def Let_def
          dispatch_or_idle_def dispatch_target_def lifecycle_update_commute)
  qed
qed (auto simp: schedule_exit_def next_scheduler_epoch_cases Let_def split: sum.splits)

lemma schedule_from_pid0_effect:
  assumes "lifecycle_inv s"
  shows "lifecycle_effect s (snd (schedule_from_pid0 s a))"
proof (cases "validate_pid0_authority s a = Ok () \<and> \<not> list_ex is_running (lc_slots s) \<and> lc_scheduler_epoch s \<noteq> - 1")
  case True
  then have cur: "lc_current_execution s = PID0_IDENTITY" by (auto simp: validate_pid0_authority_def split: if_splits)
  note valid = dispatch_target_valid[OF assms, of "position is_runnable (lc_slots s)"]
  show ?thesis
  proof (cases "position is_runnable (lc_slots s)")
    case None
    then show ?thesis using True valid cur lifecycle_effect.idle[OF cur]
      by (simp add: schedule_from_pid0_def next_scheduler_epoch_cases publish_scheduler_epoch_def Let_def
          dispatch_or_idle_def dispatch_target_def)
  next
    case (Some j)
    note j = position_64[OF assms Some]
    have "none_running (lc_slots s)" using True by (simp add: none_running_list_ex)
    with Some j True valid cur lifecycle_effect.start[OF cur _ j[THEN conjunct1] j[THEN conjunct2]] show ?thesis
      by (simp add: schedule_from_pid0_def next_scheduler_epoch_cases update_slot_eq publish_scheduler_epoch_def Let_def
          dispatch_or_idle_def dispatch_target_def lifecycle_update_commute)
  qed
qed (auto simp: schedule_from_pid0_def next_scheduler_epoch_cases Let_def split: sum.splits)

lemma mark_effects:
  assumes "lifecycle_inv s"
  shows "lifecycle_effect s (snd (mark_runnable s h))" and "lifecycle_effect s (snd (mark_blocked s h))"
  using position_64[OF assms, of "matches_handle h"]
  by (auto simp: mark_runnable_def mark_blocked_def slot_by_handle_mut_def update_slot_eq matches_handle_iff
      intro!: lifecycle_effect.phase split: option.splits)

lemma reap_child_effect:
  assumes "lifecycle_inv s"
  shows "lifecycle_effect s (snd (reap_child s parent h))"
  using position_64[OF assms, of "matches_handle h"]
  by (auto simp: reap_child_def slot_by_handle_mut_def update_slot_eq matches_handle_iff Let_def checked_add_one
      intro!: lifecycle_effect.reap split: option.splits)

lemma step_effect:
  assumes "lifecycle_inv s" and "lifecycle_step s t"
  shows "lifecycle_effect s t"
  using assms(2)
  by cases (simp_all add: assms(1) register_init_effect commit_child_effect publish_current_effect
      mark_running_effect resume_current_effect schedule_yield_effect schedule_preempt_effect
      schedule_exit_effect schedule_from_pid0_effect mark_effects reap_child_effect)

section \<open>Every operation keeps the invariant\<close>

lemma lifecycle_inv_new: "lifecycle_inv lifecycle_new"
  by (simp add: lifecycle_inv_def lifecycle_new_def list_all_length slot_ok_def slot_EMPTY_def
      pids_distinct_def running_is_def is_running_def current_live_def)

lemma phase_update_simps [simp]:
  "slot_handle (sl\<lparr>ps_phase := p\<rparr>) = slot_handle sl"
  "slot_handle (sl\<lparr>ps_context := c\<rparr>) = slot_handle sl"
  "slot_handle (sl\<lparr>ps_exit_code := x\<rparr>) = slot_handle sl"
  "slot_handle (sl\<lparr>ps_wait_sequence := w\<rparr>) = slot_handle sl"
  by (simp_all add: slot_handle_def)

lemma slot_ok_phase:
  "slot_ok sl \<Longrightarrow> ps_occupied sl \<Longrightarrow> p \<noteq> Free \<Longrightarrow> p \<noteq> Installing \<Longrightarrow> slot_ok (sl\<lparr>ps_phase := p\<rparr>)"
  "slot_ok sl \<Longrightarrow> context_validate c = Ok () \<Longrightarrow> slot_ok (sl\<lparr>ps_context := c\<rparr>)"
  "slot_ok (sl\<lparr>ps_exit_code := x\<rparr>) = slot_ok sl"
  "slot_ok (sl\<lparr>ps_wait_sequence := w\<rparr>) = slot_ok sl"
  by (auto simp: slot_ok_def split: if_splits)

lemma inv_advance:
  assumes "lifecycle_inv s" and "length L = 64" and "list_all slot_ok L" and "pids_distinct L"
    and "running_is c L" and "current_live c L"
  shows "lifecycle_inv (advance c L s)"
  using assms by (simp add: lifecycle_inv_def)

lemma list_all_slot_ok: "lifecycle_inv s \<Longrightarrow> list_all slot_ok (lc_slots s)"
  by (simp add: lifecycle_inv_def)

lemma not_running_simps [simp]:
  "\<not> is_running (sl\<lparr>ps_phase := Zombie, ps_exit_code := x, ps_wait_sequence := w\<rparr>)"
  "\<not> is_running (sl\<lparr>ps_phase := Runnable\<rparr>)"
  "\<not> is_running (sl\<lparr>ps_phase := Runnable, ps_context := c\<rparr>)"
  "\<not> is_running (sl\<lparr>ps_phase := Blocked\<rparr>)"
  by (simp_all add: is_running_def)

text \<open>
  A running slot \<open>i\<close> steps back, becoming \<open>x\<close>, and a runnable slot \<open>j\<close> starts.
\<close>

lemma inv_hand_over:
  assumes "lifecycle_inv s" and "i < 64" and "is_running (lc_slots s ! i)"
    and "j < 64" and "is_runnable (lc_slots s ! j)"
    and "slot_ok x" and "\<not> is_running x" and "ps_occupied x" and "ps_pid x = ps_pid (lc_slots s ! i)"
  shows "lifecycle_inv (advance (slot_identity s j)
      ((lc_slots s)[i := x, j := (lc_slots s ! j)\<lparr>ps_phase := Running\<rparr>]) s)"
proof (rule inv_advance[OF assms(1)])
  let ?y = "(lc_slots s ! j)\<lparr>ps_phase := Running\<rparr>"
  note inv = lifecycle_invD[OF assms(1)]
  have ij: "j \<noteq> i" using not_running_runnable[OF assms(3)] assms(5) by blast
  have occ: "ps_occupied (lc_slots s ! j)" "ps_occupied (lc_slots s ! i)"
    using assms(3,5) by (simp_all add: is_runnable_def is_running_def)
  show "length ((lc_slots s)[i := x, j := ?y]) = 64" using inv(1) by simp
  have "slot_ok ?y" using slot_ok_phase(1)[OF inv(2)[OF assms(4)] occ(1), of Running] by simp
  then show "list_all slot_ok ((lc_slots s)[i := x, j := ?y])"
    by (intro list_all_update list_all_slot_ok assms)
  show "pids_distinct ((lc_slots s)[i := x, j := ?y])"
    using inv(1,3) assms(2,4,8,9) occ ij by (intro pids_distinct_same) simp_all
  show "running_is (slot_identity s j) ((lc_slots s)[i := x, j := ?y])"
    by (rule none_running_start[OF running_stopped[OF assms(1,3,2,7)]]) simp
  show "current_live (slot_identity s j) ((lc_slots s)[i := x, j := ?y])"
    using inv(1) assms(4) occ by (intro current_live_at) (simp_all add: is_live_def)
qed

lemma inv_single_advance:
  assumes "lifecycle_inv s" and "i < 64" and "slot_ok y" and "ps_occupied y" and "ps_occupied (lc_slots s ! i)"
    and "slot_handle y = slot_handle (lc_slots s ! i)"
    and "running_is c ((lc_slots s)[i := y])" and "c = PID0_IDENTITY \<or> c = slot_identity s i \<and> is_live y"
  shows "lifecycle_inv (advance c ((lc_slots s)[i := y]) s)"
proof (rule inv_advance[OF assms(1)])
  note inv = lifecycle_invD[OF assms(1)]
  show "length ((lc_slots s)[i := y]) = 64" using inv(1) by simp
  show "list_all slot_ok ((lc_slots s)[i := y])" by (intro list_all_update list_all_slot_ok assms(1,3))
  show "pids_distinct ((lc_slots s)[i := y])"
    using inv(1,3) assms(2,4-6) by (intro pids_distinct_same) (simp_all add: slot_handle_eq slot_handle_def)
  show "current_live c ((lc_slots s)[i := y])"
    using assms(8)
  proof
    assume "c = PID0_IDENTITY" then show ?thesis by (simp add: current_live_def)
  next
    assume "c = slot_identity s i \<and> is_live y"
    then show ?thesis using inv(1) assms(2,6) by (intro current_live_at) simp_all
  qed
qed (rule assms(7))

lemma inv_single:
  assumes "lifecycle_inv s" and "i < 64" and "slot_ok y" and "pids_distinct ((lc_slots s)[i := y])"
    and "is_running y \<Longrightarrow> handle_encode (slot_handle y) = lc_current_execution s"
    and "is_live (lc_slots s ! i) \<Longrightarrow> is_live y"
    and "is_live (lc_slots s ! i) \<Longrightarrow> slot_handle y = slot_handle (lc_slots s ! i)"
  shows "lifecycle_inv (s\<lparr>lc_slots := (lc_slots s)[i := y], lc_next_pid := n\<rparr>)"
proof -
  note inv = lifecycle_invD[OF assms(1)]
  have "list_all slot_ok ((lc_slots s)[i := y])" by (intro list_all_update list_all_slot_ok assms(1,3))
  moreover have "running_is (lc_current_execution s) ((lc_slots s)[i := y])"
    using inv(4) assms(5) by (rule running_is_update)
  moreover have "current_live (lc_current_execution s) ((lc_slots s)[i := y])"
    using inv(1,5) assms(2,6,7) by (intro current_live_update) simp_all
  ultimately show ?thesis using inv(1,6) assms(4) by (simp add: lifecycle_inv_def)
qed

lemma inv_effect:
  assumes "lifecycle_inv s" and "lifecycle_effect s t"
  shows "lifecycle_inv t"
  using assms(2)
proof cases
  case (skip n)
  with assms(1) show ?thesis by (simp add: lifecycle_inv_def)
next
  case (fill i x n)
  have "\<not> is_live (lc_slots s ! i)" using fill(3) by (simp add: is_free_slot_def is_live_def)
  then show ?thesis unfolding fill(1)
    using lifecycle_invD(1,3)[OF assms(1)] fill not_running_runnable[of x]
    by (intro inv_single[OF assms(1)] pids_distinct_new) auto
next
  case (start i)
  have "ps_occupied (lc_slots s ! i)" using start(5) by (simp add: is_runnable_def)
  then show ?thesis unfolding start(1) using start lifecycle_invD(2)[OF assms(1) start(4)]
    by (intro inv_single_advance[OF assms(1)] slot_ok_phase none_running_start) (simp_all add: is_live_def)
next
  case idle
  with assms(1) show ?thesis by (simp add: lifecycle_inv_def)
next
  case (save i saved)
  have cur: "lc_current_execution s = slot_identity s i" by (rule running_current[OF assms(1) save(2,3)])
  have "running_is (slot_identity s i) ((lc_slots s)[i := (lc_slots s ! i)\<lparr>ps_context := saved\<rparr>])"
    using lifecycle_invD(4)[OF assms(1)] unfolding cur by (rule running_is_update) simp
  then show ?thesis unfolding save(1) using save lifecycle_invD(2)[OF assms(1) save(2)]
    by (intro inv_single_advance[OF assms(1)] slot_ok_phase(2)) (simp_all add: is_live_def is_running_def)
next
  case (switch i saved j)
  have "slot_ok ((lc_slots s ! i)\<lparr>ps_phase := Runnable, ps_context := saved\<rparr>)"
    using switch(3,4) lifecycle_invD(2)[OF assms(1) switch(2)] by (intro slot_ok_phase) (simp_all add: is_running_def)
  then show ?thesis unfolding switch(1)
    using switch by (intro inv_hand_over[OF assms(1)]) (simp_all add: is_running_def)
next
  case (exit_to i j seq code)
  have "slot_ok ((lc_slots s ! i)\<lparr>ps_phase := Zombie, ps_exit_code := code, ps_wait_sequence := seq\<rparr>)"
    unfolding slot_ok_phase(3,4)
    using exit_to(3) lifecycle_invD(2)[OF assms(1) exit_to(2)] by (intro slot_ok_phase) (simp_all add: is_running_def)
  then show ?thesis unfolding exit_to(1)
    using exit_to by (intro inv_hand_over[OF assms(1)]) (simp_all add: is_running_def)
next
  case (exit_idle i seq code)
  let ?y = "(lc_slots s ! i)\<lparr>ps_phase := Zombie, ps_exit_code := code, ps_wait_sequence := seq\<rparr>"
  have "slot_ok ?y" unfolding slot_ok_phase(3,4)
    using exit_idle(3) lifecycle_invD(2)[OF assms(1) exit_idle(2)] by (intro slot_ok_phase) (simp_all add: is_running_def)
  moreover have "none_running ((lc_slots s)[i := ?y])"
    by (rule running_stopped[OF assms(1) exit_idle(3,2)]) simp
  then have "running_is PID0_IDENTITY ((lc_slots s)[i := ?y])" by (simp add: running_is_def none_running_def)
  ultimately show ?thesis unfolding exit_idle(1)
    using exit_idle by (intro inv_single_advance[OF assms(1)]) (simp_all add: is_running_def)
next
  case (phase i p)
  have "slot_ok ((lc_slots s ! i)\<lparr>ps_phase := p\<rparr>)"
    using slot_ok_phase(1)[OF lifecycle_invD(2)[OF assms(1) phase(2)] phase(3)] phase(5) by auto
  then have "lifecycle_inv (s\<lparr>lc_slots := (lc_slots s)[i := (lc_slots s ! i)\<lparr>ps_phase := p\<rparr>], lc_next_pid := lc_next_pid s\<rparr>)"
    using lifecycle_invD(1,3)[OF assms(1)] phase
    by (intro inv_single[OF assms(1)] pids_distinct_same) (auto simp: is_running_def is_live_def)
  then show ?thesis by (simp add: phase(1))
next
  case (reap i g)
  have "g \<noteq> 0" using reap(5) by (auto simp: word_add_one_neq_0)
  then have "lifecycle_inv (s\<lparr>lc_slots := (lc_slots s)[i := slot_EMPTY\<lparr>ps_generation := g\<rparr>], lc_next_pid := lc_next_pid s\<rparr>)"
    using lifecycle_invD(3)[OF assms(1)] reap
    by (intro inv_single[OF assms(1)] pids_distinct_free) (auto simp: is_running_def is_live_def slot_ok_def slot_EMPTY_def)
  then show ?thesis by (simp add: reap(1))
qed

interpretation lifecycle: invariant_system "\<lambda>s. s = lifecycle_new" lifecycle_step lifecycle_inv
  by unfold_locales (auto simp: lifecycle_inv_new intro: inv_effect step_effect)

text \<open>
  C1 (invariant). In every reachable state at most one process runs, and it is the one the
  published execution identity names; process identifiers are unique; and every occupied
  slot, whatever its phase, holds a dispatch context that passes validation, so no switch
  can ever load a privileged or malformed user context.
\<close>

theorem lifecycle_safety:
  assumes "lifecycle_step\<^sup>*\<^sup>* lifecycle_new t" and "i < 64" and "j < 64"
  shows "(is_running (lc_slots t ! i) \<longrightarrow> current_handle t = Some (slot_handle (lc_slots t ! i)))
    \<and> (is_running (lc_slots t ! i) \<and> is_running (lc_slots t ! j) \<longrightarrow> i = j)
    \<and> (ps_occupied (lc_slots t ! i) \<and> ps_occupied (lc_slots t ! j)
         \<and> ps_pid (lc_slots t ! i) = ps_pid (lc_slots t ! j) \<longrightarrow> i = j)
    \<and> (ps_occupied (lc_slots t ! i) \<longrightarrow>
         dispatch_validate (sp_context (scheduled t i (ps_context (lc_slots t ! i)) e)) = Ok ())"
proof -
  have inv: "lifecycle_inv t" using lifecycle.inv_reachable[OF refl assms(1)] .
  note ok = lifecycle_invD(2)[OF inv assms(2)]
  have "current_handle t = Some (slot_handle (lc_slots t ! i))" if "is_running (lc_slots t ! i)"
    unfolding current_handle_def running_current[OF inv assms(2) that]
    using ok that by (intro handle_decode_encode) (auto simp: slot_ok_def is_running_def slot_handle_def)
  moreover have "dispatch_validate (sp_context (scheduled t i (ps_context (lc_slots t ! i)) e)) = Ok ()"
    if "ps_occupied (lc_slots t ! i)"
    using scheduled_validate[OF inv assms(2) that] ok that by (simp add: slot_ok_def)
  ultimately show ?thesis
    using running_unique[OF inv _ _ assms(2,3)] lifecycle_invD(1,3)[OF inv] assms(2,3)
    by (auto simp: pids_distinct_def)
qed

definition sample_launch :: "u64 \<Rightarrow> process_launch" where
  "sample_launch seed = \<lparr>pl_address_space_root = 0x1000 * seed, pl_entry_point = 0x2000,
     pl_user_stack_pointer = 0x8000, pl_kernel_stack_pointer = 0xffff800000000000 + 0x4000 * seed,
     pl_image_measurement_root = seed, pl_capability_root = seed, pl_service_class = 1, pl_priority = 10\<rparr>"

lemma sample_launch_validate: "seed \<in> {1, 2, 3, 4} \<Longrightarrow> launch_validate (sample_launch seed)"
  by (auto simp: launch_validate_def sample_launch_def valid_page_table_root_def valid_user_address_def
      valid_kernel_stack_pointer_def)

text \<open>Init registered and running, then one child committed.\<close>

definition sample_registered :: lifecycle where
  "sample_registered = snd (register_init lifecycle_new (sample_launch 1))"

definition sample_running :: lifecycle where
  "sample_running = snd (mark_running sample_registered \<lparr>ph_pid = 1, ph_generation = 1\<rparr>)"

definition sample_pair :: lifecycle where
  "sample_pair = snd (commit_child sample_running 1 (sample_launch 2))"

lemma sample_pair_reachable: "lifecycle_step\<^sup>*\<^sup>* lifecycle_new sample_pair"
proof -
  have "lifecycle_step lifecycle_new sample_registered" "lifecycle_step sample_registered sample_running"
    "lifecycle_step sample_running sample_pair"
    unfolding sample_registered_def sample_running_def sample_pair_def
    by (rule lifecycle_step.intros)+
  then show ?thesis by (meson converse_rtranclp_into_rtranclp rtranclp.rtrancl_refl)
qed

lemmas sample_inv = lifecycle.inv_reachable[OF refl sample_pair_reachable]

lemma sample_registered_eq: "sample_registered = lifecycle_new\<lparr>lc_slots :=
   (lc_slots lifecycle_new)[0 := fill_slot 1 0 (sample_launch 1) 0 slot_EMPTY]\<rparr>"
proof -
  have "position is_free_slot (lc_slots lifecycle_new) = Some 0"
    by (rule position_SomeI) (simp_all add: lifecycle_new_def is_free_slot_def slot_EMPTY_def)
  moreover have "slot_by_pid lifecycle_new INIT_PID = None"
    by (simp add: slot_by_pid_def lifecycle_new_def find_None_iff slot_EMPTY_def)
  ultimately show ?thesis
    using sample_launch_validate[of 1]
    by (simp add: sample_registered_def register_init_def update_slot_eq Let_def) (simp add: lifecycle_new_def)
qed

lemma sample_running_eq: "sample_running = advance 0x100000001
   ((lc_slots lifecycle_new)[0 := (fill_slot 1 0 (sample_launch 1) 0 slot_EMPTY)\<lparr>ps_phase := Running\<rparr>]) lifecycle_new"
proof -
  let ?h = "\<lparr>ph_pid = 1, ph_generation = 1\<rparr> :: process_handle"
  let ?x = "fill_slot 1 0 (sample_launch 1) 0 slot_EMPTY"
  have x: "ps_occupied ?x" "ps_pid ?x = 1" "ps_generation ?x = 1" "ps_phase ?x = Runnable"
    by (simp_all add: fill_slot_def slot_EMPTY_def)
  have len: "length (lc_slots lifecycle_new) = 64" by (simp add: lifecycle_new_def)
  have "position (matches_handle ?h) (lc_slots sample_registered) = Some 0"
    by (rule position_SomeI) (simp_all add: sample_registered_eq len matches_handle_def x)
  moreover have "\<not> list_ex is_running (lc_slots sample_registered)"
    unfolding none_running_list_ex[symmetric] none_running_def
    by (auto simp: sample_registered_eq len nth_update is_running_def x) (simp add: lifecycle_new_def slot_EMPTY_def)
  moreover have "lc_current_execution sample_registered = PID0_IDENTITY" "lc_scheduler_epoch sample_registered = 0"
    by (simp_all add: sample_registered_eq) (simp_all add: lifecycle_new_def)
  ultimately show ?thesis
    by (simp add: sample_running_def mark_running_def next_scheduler_epoch_cases update_slot_eq
        publish_scheduler_epoch_def Let_def slot_snapshot_def sample_registered_eq len x slot_handle_def
        lifecycle_update_commute)
      (simp add: handle_encode_def lifecycle_new_def)
qed

lemma sample_slot_simps:
  "length (lc_slots lifecycle_new) = 64" "j < 64 \<Longrightarrow> lc_slots lifecycle_new ! j = slot_EMPTY"
  by (simp_all add: lifecycle_new_def)

lemma sample_pair_eq: "sample_pair = sample_running\<lparr>lc_slots := (lc_slots sample_running)
   [1 := fill_slot 2 1 (sample_launch 2) 1 (slot_EMPTY\<lparr>ps_generation := 2\<rparr>)], lc_next_pid := 3\<rparr>"
proof -
  let ?x = "(fill_slot 1 0 (sample_launch 1) 0 slot_EMPTY)\<lparr>ps_phase := Running\<rparr>"
  have x: "ps_occupied ?x" "ps_pid ?x = 1" by (simp_all add: fill_slot_def)
  have nth: "lc_slots sample_running ! j = (if j = 0 then ?x else slot_EMPTY)" if "j < 64" for j
    using that by (auto simp: sample_running_eq sample_slot_simps nth_update)
  have len: "length (lc_slots sample_running) = 64" by (simp add: sample_running_eq sample_slot_simps)
  have pos: "position is_free_slot (lc_slots sample_running) = Some 1"
    using nth[of 0] nth[of 1] x by (intro position_SomeI) (simp_all add: len is_free_slot_def slot_EMPTY_def)
  have parent: "List.find (\<lambda>sl. ps_occupied sl \<and> ps_pid sl = 1) (lc_slots sample_running) = Some ?x"
    unfolding find_Some_iff using len nth[of 0] x by (intro exI[of _ 0]) simp
  have "\<not> list_ex (\<lambda>sl. ps_occupied sl \<and> ps_pid sl = 2) (lc_slots sample_running)"
    unfolding list_ex_length using len nth x by (auto simp: slot_EMPTY_def)
  moreover have "lc_next_pid sample_running = 2" by (simp add: sample_running_eq lifecycle_new_def)
  ultimately have "allocate_pid sample_running = (Some 2, sample_running\<lparr>lc_next_pid := 3\<rparr>)"
    unfolding allocate_pid_def Suc_eq_plus1[symmetric] allocate_pid_loop.simps(2) Let_def by simp
  moreover have "ps_generation (lc_slots sample_running ! 1) = 1" "lc_scheduler_epoch sample_running = 1"
    using nth[of 1] by (simp_all add: slot_EMPTY_def) (simp add: sample_running_eq lifecycle_new_def)
  ultimately show ?thesis
    using sample_launch_validate[of 2] nth[of 1] pos parent
    by (simp add: sample_pair_def commit_child_def slot_by_pid_def update_slot_eq checked_add_one lifecycle_update_commute)
qed

lemma sample_pair_facts:
  "is_running (lc_slots sample_pair ! 0)" "is_runnable (lc_slots sample_pair ! 1)"
  "slot_handle (lc_slots sample_pair ! 0) = \<lparr>ph_pid = 1, ph_generation = 1\<rparr>"
  "lc_scheduler_epoch sample_pair = 1" "lc_current_execution sample_pair = 0x100000001"
  by (simp_all add: sample_pair_eq sample_running_eq sample_slot_simps is_running_def is_runnable_def
      fill_slot_def slot_handle_def slot_EMPTY_def) (simp_all add: lifecycle_new_def)

definition sample_context :: saved_user_context where
  "sample_context = context_initial 0x2040 0x8040"

lemma sample_context_ok: "context_validate sample_context = Ok ()"
  by (simp add: sample_context_def context_initial_validate valid_user_address_def)

theorem lifecycle_safety_witness:
  "is_running (lc_slots sample_pair ! 0) \<and> current_handle sample_pair = Some \<lparr>ph_pid = 1, ph_generation = 1\<rparr>
   \<and> \<not> is_running (lc_slots sample_pair ! 1)"
  using lifecycle_safety[OF sample_pair_reachable, of 0 1] sample_pair_facts by auto

section \<open>Dispatch authority\<close>

lemma position_handle:
  assumes "lifecycle_inv s" and "i < 64" and "ps_occupied (lc_slots s ! i)"
  shows "position (matches_handle (slot_handle (lc_slots s ! i))) (lc_slots s) = Some i"
proof (rule position_SomeI)
  note inv = lifecycle_invD[OF assms(1)]
  show "i < length (lc_slots s)" using inv(1) assms(2) by simp
  show "matches_handle (slot_handle (lc_slots s ! i)) (lc_slots s ! i)" using assms(3) by (simp add: matches_handle_iff)
  show "\<not> matches_handle (slot_handle (lc_slots s ! i)) (lc_slots s ! j)" if "j < i" for j
    using same_handle_same_index[OF inv(3), of j i] inv(1) assms(2,3) that by (auto simp: matches_handle_iff)
qed

lemma running_facts:
  assumes "lifecycle_inv s" and "i < 64" and "is_running (lc_slots s ! i)"
  shows "running_index s (slot_handle (lc_slots s ! i)) e1 e2 = Ok i"
    and "current_handle s = Some (slot_handle (lc_slots s ! i))"
    and "current_user_handle s = Ok (slot_handle (lc_slots s ! i))"
proof -
  have occ: "ps_occupied (lc_slots s ! i)" "ps_phase (lc_slots s ! i) = Running"
    using assms(3) by (simp_all add: is_running_def)
  show "running_index s (slot_handle (lc_slots s ! i)) e1 e2 = Ok i"
    using position_handle[OF assms(1,2) occ(1)] occ(2) by (simp add: running_index_def)
  have nz: "ph_pid (slot_handle (lc_slots s ! i)) \<noteq> 0" "ph_generation (slot_handle (lc_slots s ! i)) \<noteq> 0"
    using lifecycle_invD(2)[OF assms(1,2)] occ by (auto simp: slot_ok_def slot_handle_def)
  note cur = running_current[OF assms]
  show "current_handle s = Some (slot_handle (lc_slots s ! i))"
    unfolding current_handle_def cur by (rule handle_decode_encode[OF nz])
  show "current_user_handle s = Ok (slot_handle (lc_slots s ! i))"
    using handle_decode_encode[OF nz] encode_eq_PID0[OF nz(1)] by (simp add: current_user_handle_def cur)
qed

lemma authorized_return_inj: "authorized_return p = authorized_return q \<longleftrightarrow> p = q"
proof
  assume "authorized_return p = authorized_return q"
  then have "sp_context p = sp_context q" "sp_scheduler_epoch p = sp_scheduler_epoch q"
    "ph_pid (sp_handle p) = ph_pid (sp_handle q)" "ph_generation (sp_handle p) = ph_generation (sp_handle q)"
    by (simp_all add: authorized_return_def)
  then show "p = q" by (intro scheduled_process.equality process_handle.equality) simp_all
qed simp

lemma authorize_user_return_iff:
  assumes "lifecycle_inv s"
  shows "authorize_user_return s a = Ok p \<longleftrightarrow>
    (\<exists>i < 64. is_running (lc_slots s ! i) \<and> lc_scheduler_epoch s \<noteq> 0
       \<and> p = scheduled s i (ps_context (lc_slots s ! i)) (lc_scheduler_epoch s) \<and> a = authorized_return p)"
proof
  assume ok: "authorize_user_return s a = Ok p"
  let ?h = "\<lparr>ph_pid = ar_pid a, ph_generation = ar_generation a\<rparr>"
  have v: "return_validate a = Ok ()"
    using ok by (cases "return_validate a") (simp_all add: authorize_user_return_def)
  have e: "lc_scheduler_epoch s = ar_scheduler_epoch a"
    using ok v by (simp add: authorize_user_return_def Let_def split: if_splits)
  obtain i where i: "running_index s ?h StaleDispatchAuthority StaleDispatchAuthority = Ok i"
    using ok v by (cases "running_index s ?h StaleDispatchAuthority StaleDispatchAuthority")
      (simp_all add: authorize_user_return_def Let_def split: if_splits)
  have p: "p = scheduled s i (ps_context (lc_slots s ! i)) (lc_scheduler_epoch s)" "a = authorized_return p"
    using ok v i by (simp_all add: authorize_user_return_def Let_def split: if_splits)
  from v e have "lc_scheduler_epoch s \<noteq> 0" by (auto simp: return_validate_def split: if_splits)
  with running_index_Ok[OF assms i] p show "\<exists>i < 64. is_running (lc_slots s ! i) \<and> lc_scheduler_epoch s \<noteq> 0
       \<and> p = scheduled s i (ps_context (lc_slots s ! i)) (lc_scheduler_epoch s) \<and> a = authorized_return p" by blast
next
  assume "\<exists>i < 64. is_running (lc_slots s ! i) \<and> lc_scheduler_epoch s \<noteq> 0
       \<and> p = scheduled s i (ps_context (lc_slots s ! i)) (lc_scheduler_epoch s) \<and> a = authorized_return p"
  then obtain i where i: "i < 64" "is_running (lc_slots s ! i)" "lc_scheduler_epoch s \<noteq> 0"
    and p: "p = scheduled s i (ps_context (lc_slots s ! i)) (lc_scheduler_epoch s)" and a: "a = authorized_return p" by blast
  note r = running_facts[OF assms i(1,2)]
  have ok: "slot_ok (lc_slots s ! i)" "ps_occupied (lc_slots s ! i)"
    using lifecycle_invD(2)[OF assms i(1)] i(2) by (simp_all add: is_running_def)
  have sel: "ar_pid a = ps_pid (lc_slots s ! i)" "ar_generation a = ps_generation (lc_slots s ! i)"
    "ar_scheduler_epoch a = lc_scheduler_epoch s" "ar_dispatch a = sp_context p"
    by (simp_all add: a authorized_return_def) (simp_all add: p slot_handle_def scheduled_def Let_def)
  have "dispatch_validate (sp_context p) = Ok ()"
    using scheduled_validate[OF assms i(1) ok(2)] ok unfolding p by (simp add: slot_ok_def)
  then have "return_validate a = Ok ()" using ok i(3) sel by (simp add: return_validate_def slot_ok_def)
  moreover have "\<lparr>ph_pid = ar_pid a, ph_generation = ar_generation a\<rparr> = slot_handle (lc_slots s ! i)"
    by (simp add: sel slot_handle_def)
  ultimately show "authorize_user_return s a = Ok p"
    using r sel(3) p a by (simp add: authorize_user_return_def)
qed

lemma effect_epoch_mono: "lifecycle_effect s t \<Longrightarrow> unat (lc_scheduler_epoch s) \<le> unat (lc_scheduler_epoch t)"
  by (erule lifecycle_effect.cases) (simp_all add: unat_Suc_le)

lemma steps_epoch_mono:
  assumes "lifecycle_step\<^sup>*\<^sup>* s t" and "lifecycle_inv s"
  shows "lifecycle_inv t \<and> unat (lc_scheduler_epoch s) \<le> unat (lc_scheduler_epoch t)"
  using assms
proof (induction rule: rtranclp_induct)
  case (step y z)
  then have y: "lifecycle_inv y" by simp
  from step(3,4) effect_epoch_mono[OF step_effect[OF y step(2)]] lifecycle.inv_step[OF y step(2)] show ?case by simp
qed simp

text \<open>A scheduling decision: a call of one of the six functions that choose what runs next, and
  that did not refuse.\<close>

inductive lifecycle_decision :: "lifecycle \<Rightarrow> lifecycle \<Rightarrow> bool" where
  run: "mark_running s h = (Ok sn, t) \<Longrightarrow> lifecycle_decision s t"
| resume: "resume_current s saved = (Ok p, t) \<Longrightarrow> lifecycle_decision s t"
| yield: "schedule_yield s saved = (Ok p, t) \<Longrightarrow> lifecycle_decision s t"
| preempt: "schedule_preempt s saved authority = (Ok p, t) \<Longrightarrow> lifecycle_decision s t"
| exit: "schedule_exit s exit_code = (Ok d, t) \<Longrightarrow> lifecycle_decision s t"
| idle: "schedule_from_pid0 s pid0 = (Ok d, t) \<Longrightarrow> lifecycle_decision s t"

lemma decision_step: "lifecycle_decision s t \<Longrightarrow> lifecycle_step s t"
  by (erule lifecycle_decision.cases) (metis lifecycle_step.intros snd_conv)+

lemma rotate_decides: "rotate s i saved = (Ok p, t) \<Longrightarrow> next_scheduler_epoch (lc_scheduler_epoch s) = Ok (lc_scheduler_epoch t)"
  by (auto simp: rotate_def Let_def publish_scheduler_epoch_def update_slot_def split: sum.splits)

lemma dispatch_or_idle_epoch: "dispatch_or_idle target epoch s = (r, t) \<Longrightarrow> lc_scheduler_epoch t = lc_scheduler_epoch s"
  by (auto simp: dispatch_or_idle_def publish_scheduler_epoch_def update_slot_def split: option.splits)

lemma decision_advances:
  assumes "lifecycle_decision s t"
  shows "unat (lc_scheduler_epoch t) = Suc (unat (lc_scheduler_epoch s))"
proof -
  have "next_scheduler_epoch (lc_scheduler_epoch s) = Ok (lc_scheduler_epoch t)"
    using assms
  proof cases
    case (run h sn)
    then show ?thesis
      by (auto simp: mark_running_def publish_scheduler_epoch_def update_slot_def Let_def split: if_splits option.splits sum.splits)
  next
    case (resume saved p)
    then show ?thesis by (auto simp: resume_current_def publish_scheduler_epoch_def Let_def split: sum.splits)
  next
    case (yield saved p)
    then show ?thesis by (auto simp: schedule_yield_def Let_def dest: rotate_decides split: sum.splits)
  next
    case (preempt saved a p)
    then show ?thesis by (auto simp: schedule_preempt_def dest: rotate_decides split: if_splits sum.splits)
  next
    case (exit code d)
    then show ?thesis
      by (auto simp: schedule_exit_def Let_def dest: dispatch_or_idle_epoch split: if_splits sum.splits)
  next
    case (idle a d)
    then show ?thesis
      by (auto simp: schedule_from_pid0_def Let_def dest: dispatch_or_idle_epoch split: if_splits sum.splits)
  qed
  then have "lc_scheduler_epoch s \<noteq> - 1" "lc_scheduler_epoch t = lc_scheduler_epoch s + 1"
    by (auto simp: next_scheduler_epoch_cases split: if_splits)
  then show ?thesis by (simp add: unat_Suc_le)
qed

text \<open>
  C2 (safety). The last check before user mode accepts an authority exactly when it is the
  one decision in force: the register image, page-table root, kernel stack, PID generation
  and epoch of the process that is running now. Once any later call of the scheduler, be it
  only \<open>resume_current\<close> for the same process, has made another decision, that authority is
  refused for good, however the system continues.
\<close>

theorem stale_return_refused_forever:
  assumes "lifecycle_step\<^sup>*\<^sup>* lifecycle_new s" and "authorize_user_return s a = Ok p"
    and "lifecycle_step\<^sup>*\<^sup>* s t" and "lifecycle_decision t t'" and "lifecycle_step\<^sup>*\<^sup>* t' u"
  shows "(\<exists>i < 64. is_running (lc_slots s ! i) \<and> a = authorized_return
            (scheduled s i (ps_context (lc_slots s ! i)) (lc_scheduler_epoch s)))
    \<and> (\<forall>q. authorize_user_return u a \<noteq> Ok q)"
proof -
  have s: "lifecycle_inv s" by (rule lifecycle.inv_reachable[OF refl assms(1)])
  note st = steps_epoch_mono[OF assms(3) s]
  have t': "lifecycle_inv t'" by (rule lifecycle.inv_step[OF st[THEN conjunct1] decision_step[OF assms(4)]])
  note tu = steps_epoch_mono[OF assms(5) t']
  have "unat (lc_scheduler_epoch s) < unat (lc_scheduler_epoch u)"
    using st tu decision_advances[OF assms(4)] by simp
  then have ne: "lc_scheduler_epoch s \<noteq> lc_scheduler_epoch u" by auto
  from assms(2)[unfolded authorize_user_return_iff[OF s]] obtain i where
    i: "i < 64" "is_running (lc_slots s ! i)" "a = authorized_return (scheduled s i (ps_context (lc_slots s ! i)) (lc_scheduler_epoch s))"
    by blast
  then have "ar_scheduler_epoch a = lc_scheduler_epoch s" by (simp add: authorized_return_def scheduled_def Let_def)
  moreover have "ar_scheduler_epoch a = lc_scheduler_epoch u" if "authorize_user_return u a = Ok q" for q
    using that[unfolded authorize_user_return_iff[OF tu[THEN conjunct1]]]
    by (auto simp: authorized_return_def scheduled_def Let_def)
  ultimately show ?thesis using i ne by auto
qed

text \<open>Whatever the three loads of the interrupt handler saw, possibly at different moments, a request
  made from them is honoured only if it names the running process and the epoch in force.\<close>

lemma torn_snapshot_harmless:
  assumes "lifecycle_inv s" and "execution_snapshot epoch_before encoded epoch_after = Some a"
    and "schedule_preempt s saved a = (Ok p, t)"
  obtains i where "i < 64" and "is_running (lc_slots s ! i)" and "ea_handle a = slot_handle (lc_slots s ! i)"
    and "encoded = lc_current_execution s" and "epoch_before = lc_scheduler_epoch s" and "epoch_after = lc_scheduler_epoch s"
proof -
  have a: "encoded = handle_encode (ea_handle a)" "ea_scheduler_epoch a = epoch_before" "epoch_after = epoch_before"
    using assms(2) by (auto simp: execution_snapshot_def dest: handle_decode_SomeD split: option.splits if_splits)
  obtain i where "running_index s (ea_handle a) StalePreemptionAuthority StalePreemptionAuthority = Ok i"
      "lc_current_execution s = handle_encode (ea_handle a)" "lc_scheduler_epoch s = ea_scheduler_epoch a"
    using assms(3) by (auto simp: schedule_preempt_def split: sum.splits if_splits)
  with running_index_Ok[OF assms(1)] a that show thesis by metis
qed

section \<open>Round-robin scheduling\<close>

lemma schedule_yield_eq:
  assumes "lifecycle_inv s" and "i < 64" and "is_running (lc_slots s ! i)" and "context_validate saved = Ok ()"
  shows "schedule_yield s saved = rotate s i (set_syscall_result 0 saved)"
  using running_facts[OF assms(1-3)] assms(4) by (simp add: schedule_yield_def)

lemma next_runnable_index_spec:
  assumes "lifecycle_inv s" and "i < 64"
  defines "j \<equiv> (case next_runnable_index s i of None \<Rightarrow> i | Some j \<Rightarrow> j)"
  shows "\<exists>k. 1 \<le> k \<and> k \<le> 64 \<and> j = (i + k) mod 64
    \<and> (\<forall>m. 1 \<le> m \<and> m < k \<longrightarrow> \<not> is_runnable (lc_slots s ! ((i + m) mod 64)))
    \<and> (is_runnable (lc_slots s ! j) \<or> j = i)"
proof -
  note len = lifecycle_invD(1)[OF assms(1)]
  show ?thesis
  proof (cases "next_runnable_index s i")
    case None
    then have "\<not> is_runnable (lc_slots s ! ((i + m) mod 64))" if "1 \<le> m" "m < 64" for m
      using that unfolding next_runnable_index_def find_map_upt_None len by simp
    then show ?thesis using None assms(2) by (intro exI[of _ 64]) (simp add: j_def)
  next
    case (Some j')
    from Some[unfolded next_runnable_index_def len] obtain k where
      "1 \<le> k" "k < Suc 64" "j' = (i + k) mod 64" "is_runnable (lc_slots s ! j')"
      "\<forall>m. 1 \<le> m \<and> m < k \<longrightarrow> \<not> is_runnable (lc_slots s ! ((i + m) mod 64))"
      by (rule find_map_upt_Some) blast
    with Some show ?thesis by (intro exI[of _ k]) (simp add: j_def)
  qed
qed

lemma mod_offset: "j < n \<Longrightarrow> i < n \<Longrightarrow> j \<noteq> i \<Longrightarrow> \<exists>k. 1 \<le> k \<and> k < n \<and> j = (i + k) mod n" for i j n :: nat
  by (cases "i < j") (auto intro: exI[of _ "j - i"] exI[of _ "n + j - i"])

lemma next_runnable_index_None:
  assumes "lifecycle_inv s" and "i < 64" and "next_runnable_index s i = None"
  shows "j < 64 \<Longrightarrow> \<not> is_runnable (lc_slots s ! j)"
proof -
  note len = lifecycle_invD(1)[OF assms(1)]
  assume j: "j < 64"
  show ?thesis
  proof (cases "j = i")
    case True
    then have "j = (i + 64) mod 64" using assms(2) by simp
    with assms(3) show ?thesis unfolding next_runnable_index_def find_map_upt_None len by (metis lessI one_le_numeral)
  next
    case False
    with mod_offset[OF j assms(2)] obtain k where "1 \<le> k" "k < 64" "j = (i + k) mod 64" by blast
    with assms(3) show ?thesis unfolding next_runnable_index_def find_map_upt_None len by auto
  qed
qed

lemma yield_outcome:
  assumes s: "lifecycle_inv s" and "i < 64" and "is_running (lc_slots s ! i)"
    and "context_validate saved = Ok ()" and "lc_scheduler_epoch s \<noteq> - 1"
  shows "\<exists>p t k. schedule_yield s saved = (Ok p, t) \<and> 1 \<le> k \<and> k \<le> 64
    \<and> (\<forall>m. 1 \<le> m \<and> m < k \<longrightarrow> \<not> is_runnable (lc_slots s ! ((i + m) mod 64)))
    \<and> (let j = (i + k) mod 64 in
         (is_runnable (lc_slots s ! j) \<or> j = i) \<and> sp_handle p = slot_handle (lc_slots s ! j)
         \<and> dc_user (sp_context p) = (if j = i then saved\<lparr>uc_rax := 0\<rparr> else ps_context (lc_slots s ! j)))
    \<and> ps_context (lc_slots t ! i) = saved\<lparr>uc_rax := 0\<rparr>
    \<and> lc_scheduler_epoch t = lc_scheduler_epoch s + 1
    \<and> authorize_user_return t (authorized_return p) = Ok p"
proof -
  note len = lifecycle_invD(1)[OF s]
  let ?w = "set_syscall_result 0 saved" and ?e = "lc_scheduler_epoch s + 1"
  have w: "context_validate ?w = Ok ()" using assms(4) by simp
  let ?j = "case next_runnable_index s i of None \<Rightarrow> i | Some j \<Rightarrow> j"
  let ?p = "scheduled s ?j (if ?j = i then ?w else ps_context (lc_slots s ! ?j)) ?e"
  let ?t = "snd (schedule_yield s saved)"
  have y: "schedule_yield s saved = rotate s i ?w" by (rule schedule_yield_eq[OF s assms(2-4)])
  have ne: "j \<noteq> i" if "next_runnable_index s i = Some j" for j
    using next_runnable_index_Some(2)[OF s that] not_running_runnable[OF assms(3)] by blast
  have fst: "fst (schedule_yield s saved) = Ok ?p"
    unfolding y rotate_eq[OF s assms(2,3) w assms(5)] using ne by (auto split: option.split)
  have ep: "lc_scheduler_epoch ?t = ?e"
    unfolding y rotate_eq[OF s assms(2,3) w assms(5)] by (auto split: option.split)
  have slots: "ps_context (lc_slots ?t ! i) = ?w"
    "is_running (lc_slots ?t ! ?j)" "?j < 64"
    "scheduled ?t ?j (ps_context (lc_slots ?t ! ?j)) ?e = ?p"
    unfolding y rotate_eq[OF s assms(2,3) w assms(5)]
    using ne len assms(2,3) next_runnable_index_Some[OF s]
    by (auto simp: nth_update is_running_def is_runnable_def scheduled_def Let_def split: option.split)
  have "lifecycle_inv ?t" using lifecycle.inv_step[OF s] lifecycle_step.yield by blast
  moreover have "?e \<noteq> 0" using assms(5) by (rule word_add_one_neq_0)
  ultimately have auth: "authorize_user_return ?t (authorized_return ?p) = Ok ?p"
    unfolding authorize_user_return_iff[OF \<open>lifecycle_inv ?t\<close>] using slots ep by metis
  from next_runnable_index_spec[OF s assms(2)] obtain k where
    k: "1 \<le> k" "k \<le> 64" "?j = (i + k) mod 64"
      "\<forall>m. 1 \<le> m \<and> m < k \<longrightarrow> \<not> is_runnable (lc_slots s ! ((i + m) mod 64))"
      "is_runnable (lc_slots s ! ?j) \<or> ?j = i" by blast
  have "sp_handle ?p = slot_handle (lc_slots s ! ?j)"
    "dc_user (sp_context ?p) = (if ?j = i then ?w else ps_context (lc_slots s ! ?j))"
    by (simp_all add: scheduled_def Let_def)
  with k fst slots(1) ep auth show ?thesis
    by (intro exI[of _ ?p] exI[of _ ?t] exI[of _ k]) (simp add: set_syscall_result_def prod_eq_iff Let_def)
qed

text \<open>
  C10 (functional). A yield by the running process of any reachable state succeeds unless
  the epoch counter is exhausted. It resumes the first runnable process after the caller in
  cyclic slot order, or the caller itself when no other is runnable, with exactly the
  register image saved for it; the caller's image is stored with a zero syscall result; and
  the authority it returns is the one the return path accepts.
\<close>

theorem yield_round_robin:
  assumes "lifecycle_step\<^sup>*\<^sup>* lifecycle_new s" and "i < 64" and "is_running (lc_slots s ! i)"
    and "context_validate saved = Ok ()" and "lc_scheduler_epoch s \<noteq> - 1"
  shows "\<exists>p t k. schedule_yield s saved = (Ok p, t) \<and> 1 \<le> k \<and> k \<le> 64
    \<and> (\<forall>m. 1 \<le> m \<and> m < k \<longrightarrow> \<not> is_runnable (lc_slots s ! ((i + m) mod 64)))
    \<and> (let j = (i + k) mod 64 in
         (is_runnable (lc_slots s ! j) \<or> j = i) \<and> sp_handle p = slot_handle (lc_slots s ! j)
         \<and> dc_user (sp_context p) = (if j = i then saved\<lparr>uc_rax := 0\<rparr> else ps_context (lc_slots s ! j)))
    \<and> ps_context (lc_slots t ! i) = saved\<lparr>uc_rax := 0\<rparr>
    \<and> lc_scheduler_epoch t = lc_scheduler_epoch s + 1
    \<and> authorize_user_return t (authorized_return p) = Ok p"
  by (rule yield_outcome[OF lifecycle.inv_reachable[OF refl assms(1)] assms(2-5)])

theorem yield_round_robin_witness:
  "\<exists>p t. schedule_yield sample_pair sample_context = (Ok p, t)
     \<and> authorize_user_return t (authorized_return p) = Ok p"
  using yield_round_robin[OF sample_pair_reachable _ sample_pair_facts(1) sample_context_ok]
  by (auto simp: sample_pair_facts)

theorem stale_return_refused_forever_witness:
  "\<exists>p t. schedule_yield sample_pair sample_context = (Ok p, t)
     \<and> authorize_user_return t (authorized_return p) = Ok p
     \<and> authorize_user_return (snd (schedule_yield t sample_context)) (authorized_return p) \<noteq> Ok p"
proof -
  have e: "lc_scheduler_epoch sample_pair = 1" by (rule sample_pair_facts)
  then have "lc_scheduler_epoch sample_pair \<noteq> - 1" by simp
  from yield_outcome[OF sample_inv _ sample_pair_facts(1) sample_context_ok this] obtain p t where
    y: "schedule_yield sample_pair sample_context = (Ok p, t)" and t: "lc_scheduler_epoch t = 2"
      "authorize_user_return t (authorized_return p) = Ok p" by (auto simp: e)
  have st: "lifecycle_step sample_pair t" using lifecycle_step.yield[of sample_pair sample_context] by (simp add: y)
  then have reach: "lifecycle_step\<^sup>*\<^sup>* lifecycle_new t"
    using sample_pair_reachable by (meson rtranclp.rtrancl_into_rtrancl)
  have inv: "lifecycle_inv t" by (rule lifecycle.inv_reachable[OF refl reach])
  from t(2)[unfolded authorize_user_return_iff[OF inv]] obtain i where "i < 64" "is_running (lc_slots t ! i)" by blast
  from yield_outcome[OF inv this sample_context_ok] t(1) obtain q v where
    v: "schedule_yield t sample_context = (Ok q, v)" by auto
  from stale_return_refused_forever[OF reach t(2) rtranclp.rtrancl_refl lifecycle_decision.yield[OF v] rtranclp.rtrancl_refl] v y t(2)
  show ?thesis by simp
qed

section \<open>No starvation\<close>

text \<open>Successive yields with the register images \<open>cs\<close>; the run stops at a refusal.\<close>

fun yields :: "lifecycle \<Rightarrow> saved_user_context list \<Rightarrow> lifecycle" where
  "yields s [] = s"
| "yields s (c # cs) = yields (snd (schedule_yield s c)) cs"

lemma yields_append: "yields s (xs @ ys) = yields (yields s xs) ys"
  by (induction xs arbitrary: s) simp_all

text \<open>The number of slots from \<open>i\<close> forward to \<open>j\<close>, cyclically.\<close>

definition ring_distance :: "nat \<Rightarrow> nat \<Rightarrow> nat" where
  "ring_distance i j = (if i \<le> j then j - i else j + 64 - i)"

lemma mod_64: "x < 128 \<Longrightarrow> x mod 64 = (if x < 64 then x else x - 64)" for x :: nat
  by (simp add: mod_if)

lemma ring_distance_step:
  assumes "i < 64" and "j < 64" and "1 \<le> k" and "k \<le> ring_distance i j"
  shows "ring_distance ((i + k) mod 64) j = ring_distance i j - k"
proof -
  have "i + k < 128" using assms unfolding ring_distance_def by (simp split: if_splits)
  from mod_64[OF this] show ?thesis using assms unfolding ring_distance_def by (auto split: if_splits)
qed

lemma ring_distance_bounds:
  assumes "i < 64" and "j < 64"
  shows "ring_distance i j < 64" and "ring_distance i j = 0 \<longleftrightarrow> i = j" and "(i + ring_distance i j) mod 64 = j"
proof -
  show "ring_distance i j < 64" "ring_distance i j = 0 \<longleftrightarrow> i = j"
    using assms by (auto simp: ring_distance_def)
  have "i + ring_distance i j < 128" using assms by (simp add: ring_distance_def)
  from mod_64[OF this] show "(i + ring_distance i j) mod 64 = j" using assms by (simp add: ring_distance_def)
qed

lemma yield_step:
  assumes s: "lifecycle_inv s" and "i < 64" and "is_running (lc_slots s ! i)" and "context_validate c = Ok ()"
    and "lc_scheduler_epoch s \<noteq> - 1" and "j < 64" and "is_runnable (lc_slots s ! j)"
  obtains i' where "i' < 64" and "is_running (lc_slots (snd (schedule_yield s c)) ! i')"
    and "ring_distance i' j < ring_distance i j"
    and "i' \<noteq> j \<Longrightarrow> is_runnable (lc_slots (snd (schedule_yield s c)) ! j)"
    and "slot_handle (lc_slots (snd (schedule_yield s c)) ! j) = slot_handle (lc_slots s ! j)"
    and "lc_scheduler_epoch (snd (schedule_yield s c)) = lc_scheduler_epoch s + 1"
proof -
  note len = lifecycle_invD(1)[OF s]
  have w: "context_validate (set_syscall_result 0 c) = Ok ()" using assms(4) by simp
  note y = schedule_yield_eq[OF s assms(2-4)] rotate_eq[OF s assms(2,3) w assms(5)]
  obtain i' where i': "next_runnable_index s i = Some i'"
    using next_runnable_index_None[OF s assms(2) _ assms(6)] assms(7) by (cases "next_runnable_index s i") auto
  note run = next_runnable_index_Some[OF s i']
  have ij: "i \<noteq> j" "i' \<noteq> i" using not_running_runnable[OF assms(3)] assms(7) run(2) by blast+
  from next_runnable_index_spec[OF s assms(2)] i' obtain k where k: "1 \<le> k" "k \<le> 64" "i' = (i + k) mod 64"
    "\<forall>m. 1 \<le> m \<and> m < k \<longrightarrow> \<not> is_runnable (lc_slots s ! ((i + m) mod 64))" by auto
  note d = ring_distance_bounds[OF assms(2,6)]
  have "k \<le> ring_distance i j"
    using k(4) d(2,3) ij(1) assms(7) by (metis Suc_leI One_nat_def neq0_conv not_le)
  with ring_distance_step[OF assms(2,6) k(1)] k(1,3) have "ring_distance i' j < ring_distance i j" by simp
  then show ?thesis
    using i' run ij len assms(2,6,7)
    by (intro that[of i']) (auto simp: y nth_update is_running_def is_runnable_def)
qed

lemma yields_reach:
  assumes "lifecycle_inv s" and "i < 64" and "is_running (lc_slots s ! i)" and "j < 64"
    and "is_runnable (lc_slots s ! j)" and "ring_distance i j \<le> length cs"
    and "\<forall>c \<in> set cs. context_validate c = Ok ()" and "unat (lc_scheduler_epoch s) + length cs < 2 ^ 64"
  shows "\<exists>n \<le> ring_distance i j. is_running (lc_slots (yields s (take n cs)) ! j)
    \<and> slot_handle (lc_slots (yields s (take n cs)) ! j) = slot_handle (lc_slots s ! j)"
  using assms
proof (induction cs arbitrary: s i)
  case Nil
  then have "i = j" using ring_distance_bounds(2)[of i j] by simp
  with Nil not_running_runnable show ?case by blast
next
  case (Cons c cs)
  have e: "lc_scheduler_epoch s \<noteq> - 1" using Cons.prems(8) by (auto simp: unat_minus_one_word)
  have c: "context_validate c = Ok ()" using Cons.prems(7) by simp
  let ?t = "snd (schedule_yield s c)"
  obtain i' where i': "i' < 64" "is_running (lc_slots ?t ! i')" "ring_distance i' j < ring_distance i j"
    "i' \<noteq> j \<Longrightarrow> is_runnable (lc_slots ?t ! j)" "slot_handle (lc_slots ?t ! j) = slot_handle (lc_slots s ! j)"
    "lc_scheduler_epoch ?t = lc_scheduler_epoch s + 1"
    using yield_step[OF Cons.prems(1-3) c e Cons.prems(4,5)] by metis
  show ?case
  proof (cases "i' = j")
    case True
    with i' show ?thesis by (intro exI[of _ 1]) simp
  next
    case False
    have inv: "lifecycle_inv ?t" using lifecycle.inv_step[OF Cons.prems(1)] lifecycle_step.yield by blast
    have "unat (lc_scheduler_epoch ?t) + length cs < 2 ^ 64"
      using Cons.prems(8) e i'(6) by (simp add: unat_Suc_le)
    from Cons.IH[OF inv i'(1,2) Cons.prems(4) i'(4)[OF False] _ _ this] i'(3) Cons.prems(6,7) obtain n where
      "n \<le> ring_distance i' j" "is_running (lc_slots (yields ?t (take n cs)) ! j)"
      "slot_handle (lc_slots (yields ?t (take n cs)) ! j) = slot_handle (lc_slots ?t ! j)" by auto
    with i'(3,5) show ?thesis by (intro exI[of _ "Suc n"]) simp
  qed
qed

text \<open>
  C15 (liveness). No starvation: whenever a process is runnable and another one runs, at most
  63 further yields, with any valid register images, give it the processor.
\<close>

theorem runnable_is_scheduled:
  assumes "lifecycle_step\<^sup>*\<^sup>* lifecycle_new s" and "i < 64" and "is_running (lc_slots s ! i)"
    and "j < 64" and "is_runnable (lc_slots s ! j)" and "length cs = 63"
    and "\<forall>c \<in> set cs. context_validate c = Ok ()" and "unat (lc_scheduler_epoch s) + 63 < 2 ^ 64"
  shows "\<exists>n \<le> 63. is_running (lc_slots (yields s (take n cs)) ! j)
    \<and> slot_handle (lc_slots (yields s (take n cs)) ! j) = slot_handle (lc_slots s ! j)"
proof -
  have "ring_distance i j \<le> 63" using ring_distance_bounds(1)[OF assms(2,4)] by simp
  then show ?thesis
    using yields_reach[OF lifecycle.inv_reachable[OF refl assms(1)] assms(2-5) _ assms(7)] assms(6,8)
    by (auto intro: le_trans)
qed

theorem runnable_is_scheduled_witness:
  "\<exists>n \<le> 63. is_running (lc_slots (yields sample_pair (take n (replicate 63 sample_context))) ! 1)"
  using runnable_is_scheduled[OF sample_pair_reachable _ sample_pair_facts(1) _ sample_pair_facts(2),
      of "replicate 63 sample_context"] sample_context_ok
  by (auto simp: sample_pair_facts)

section \<open>Process identifiers\<close>

definition pid_successor :: "u32 \<Rightarrow> u32" where
  "pid_successor c = max (c + 1) 2"

lemma pid_successor_unat:
  assumes "2 \<le> unat c"
  shows "unat (pid_successor c) = 2 + (unat c - 2 + 1) mod (2 ^ 32 - 2)" and "2 \<le> unat (pid_successor c)"
proof -
  have lt: "unat c < 2 ^ 32" using unat_lt2p[of c] by simp
  show "unat (pid_successor c) = 2 + (unat c - 2 + 1) mod (2 ^ 32 - 2)"
  proof (cases "c = - 1")
    case True
    moreover have "unat (- 1 :: u32) = 4294967295" using unat_minus_one_word[where 'a = 32] by simp
    ultimately show ?thesis by (simp add: pid_successor_def)
  next
    case False
    have "unat (c + 1) = Suc (unat c)" using False by (rule unat_Suc_le)
    moreover have "unat c \<noteq> 2 ^ 32 - 1" using False unat_minus_one_word[where 'a = 32] by (auto simp: word_unat_eq_iff)
    ultimately show ?thesis using assms lt by (simp add: pid_successor_def max_def word_le_nat_alt)
  qed
  then show "2 \<le> unat (pid_successor c)" by simp
qed

lemma pid_sequence:
  assumes "2 \<le> unat c"
  shows "unat ((pid_successor ^^ k) c) = 2 + (unat c - 2 + k) mod (2 ^ 32 - 2)"
proof (induction k)
  case 0
  then show ?case using assms unat_lt2p[of c] by simp
next
  case (Suc k)
  have "2 \<le> unat ((pid_successor ^^ k) c)" by (simp add: Suc)
  from pid_successor_unat(1)[OF this] show ?case
    by (simp add: Suc mod_Suc_eq)
qed

lemma mod_shift_inj:
  fixes a b x m :: nat
  assumes "a \<le> b" and "b < m" and "(x + a) mod m = (x + b) mod m"
  shows "a = b"
proof -
  have "m dvd (x + b) - (x + a)" using assms(1,3) by (subst mod_eq_dvd_iff_nat[symmetric]) simp_all
  then have "m dvd b - a" by simp
  with assms(1,2) show ?thesis using dvd_imp_le[of m "b - a"] by (cases "b - a = 0") auto
qed

lemma pid_sequence_inj:
  assumes "2 \<le> unat c"
  shows "inj_on (\<lambda>k. (pid_successor ^^ k) c) {..< 65}"
proof (rule linorder_inj_onI')
  fix a b :: nat
  assume ab: "a \<in> {..<65}" "b \<in> {..<65}" "a < b"
  show "(pid_successor ^^ a) c \<noteq> (pid_successor ^^ b) c"
  proof
    assume "(pid_successor ^^ a) c = (pid_successor ^^ b) c"
    from arg_cong[OF this, of unat]
    have "(unat c - 2 + a) mod (2 ^ 32 - 2) = (unat c - 2 + b) mod (2 ^ 32 - 2)"
      unfolding pid_sequence[OF assms] by (rule add_left_imp_eq)
    from mod_shift_inj[OF _ _ this] ab show False by simp
  qed
qed

lemma allocate_pid_loop_None:
  "allocate_pid_loop n L p = (None, q) \<Longrightarrow> k < n \<Longrightarrow>
     \<exists>sl \<in> set L. ps_occupied sl \<and> ps_pid sl = (pid_successor ^^ k) (max p 2)"
proof (induction n arbitrary: p k)
  case (Suc n)
  let ?c = "max p 2"
  have step: "max (pid_successor ?c) 2 = pid_successor ?c" by (simp add: pid_successor_def)
  from Suc.prems have occ: "\<exists>sl \<in> set L. ps_occupied sl \<and> ps_pid sl = ?c"
    and rest: "allocate_pid_loop n L (pid_successor ?c) = (None, q)"
    by (auto simp: Let_def pid_successor_def list_ex_iff split: if_splits)
  show ?case
  proof (cases k)
    case 0
    with occ show ?thesis by simp
  next
    case (Suc m)
    with Suc.IH[OF rest, of m] Suc.prems(2) show ?thesis unfolding step by (simp add: funpow_swap1)
  qed
qed simp

lemma allocate_pid_total:
  assumes "length (lc_slots s) = 64"
  obtains c t where "allocate_pid s = (Some c, t)"
proof (cases "allocate_pid s")
  case (Pair r t)
  show ?thesis
  proof (cases r)
    case (Some c)
    with Pair that show ?thesis by blast
  next
    case None
    let ?c = "max (lc_next_pid s) 2"
    have c: "2 \<le> unat ?c" using word_le_nat_alt[of 2 ?c] by simp
    from None Pair obtain q where q: "allocate_pid_loop 65 (lc_slots s) (lc_next_pid s) = (None, q)"
      by (auto simp: allocate_pid_def split: prod.splits)
    have "(\<lambda>k. (pid_successor ^^ k) ?c) ` {..<65} \<subseteq> ps_pid ` set (lc_slots s)"
      using allocate_pid_loop_None[OF q] by (metis (no_types, lifting) image_subsetI imageI lessThan_iff)
    from card_mono[OF _ this] card_image[OF pid_sequence_inj[OF c]]
    have "65 \<le> card (ps_pid ` set (lc_slots s))" by simp
    moreover have "card (ps_pid ` set (lc_slots s)) \<le> 64"
      using card_image_le[of "set (lc_slots s)" ps_pid] card_length[of "lc_slots s"] assms by simp
    ultimately show ?thesis by simp
  qed
qed

lemma slot_by_pid_live:
  assumes "lifecycle_inv s" and "slot_by_pid s pid = Some sl"
  shows "ps_phase sl \<noteq> Free"
proof -
  from assms(2) obtain k where k: "k < length (lc_slots s)" "ps_occupied (lc_slots s ! k)" "sl = lc_slots s ! k"
    unfolding slot_by_pid_def find_Some_iff by blast
  with lifecycle_invD(1,2)[OF assms(1)] show ?thesis by (simp add: slot_ok_def)
qed

text \<open>
  Committing a child for a live parent with a valid launch image succeeds
  exactly when some slot is free and not retired: the search for an unused process
  identifier cannot fail, even across the wrap-around of the 32-bit cursor. The child gets a
  fresh identifier and starts runnable at its entry point.
\<close>

theorem commit_child_succeeds_iff_slot_free:
  assumes "lifecycle_step\<^sup>*\<^sup>* lifecycle_new s" and "parent \<noteq> 0" and "launch_validate l"
    and "slot_by_pid s parent = Some sl" and "ps_phase sl \<noteq> Zombie"
  shows "if list_ex is_free_slot (lc_slots s)
    then \<exists>h t i. commit_child s parent l = (Ok h, t) \<and> i < 64 \<and> slot_handle (lc_slots t ! i) = h
           \<and> is_runnable (lc_slots t ! i) \<and> ps_parent (lc_slots t ! i) = parent
           \<and> ps_launch (lc_slots t ! i) = l
           \<and> ps_context (lc_slots t ! i) = context_initial (pl_entry_point l) (pl_user_stack_pointer l)
           \<and> (\<forall>k < 64. ps_occupied (lc_slots s ! k) \<longrightarrow> ps_pid (lc_slots s ! k) \<noteq> ph_pid h)
    else fst (commit_child s parent l) = Err Capacity"
proof -
  have s: "lifecycle_inv s" by (rule lifecycle.inv_reachable[OF refl assms(1)])
  note len = lifecycle_invD(1)[OF s]
  have live: "ps_phase sl \<noteq> Free" by (rule slot_by_pid_live[OF s assms(4)])
  obtain c t where a: "allocate_pid s = (Some c, t)" using allocate_pid_total[OF len] .
  obtain n where t: "t = s\<lparr>lc_next_pid := n\<rparr>"
    and fresh: "\<And>x. Some c = Some x \<Longrightarrow> x \<noteq> 0
      \<and> (\<forall>j < 64. ps_occupied (lc_slots s ! j) \<longrightarrow> ps_pid (lc_slots s ! j) \<noteq> x)"
    using allocate_pid_cases[OF s a] by blast
  note c = fresh[OF refl, THEN conjunct2]
  show ?thesis
  proof (cases "position is_free_slot (lc_slots s)")
    case None
    then have "\<not> list_ex is_free_slot (lc_slots s)" by (simp add: position_None list_ex_iff)
    with None assms live a t show ?thesis by (simp add: commit_child_def)
  next
    case (Some i)
    note p = position_64[OF s Some]
    then have free: "list_ex is_free_slot (lc_slots s)" using len by (auto simp: list_ex_length)
    have "ps_generation (lc_slots s ! i) \<noteq> - 1" using p by (simp add: is_free_slot_def)
    then have "commit_child s parent l = (Ok \<lparr>ph_pid = c, ph_generation = ps_generation (lc_slots s ! i) + 1\<rparr>,
        update_slot i (\<lambda>sl. fill_slot c parent l (lc_scheduler_epoch s)
           (sl\<lparr>ps_generation := ps_generation (lc_slots s ! i) + 1\<rparr>)) t)"
      using Some assms(2-5) live a t by (simp add: commit_child_def checked_add_one)
    with p len c free t show ?thesis
      by (simp add: update_slot_eq fill_slot_def slot_handle_def is_runnable_def) (rule exI[of _ i], simp)
  qed
qed

lemma sample_pair_parent: "slot_by_pid sample_pair 1 = Some (lc_slots sample_pair ! 0)"
  using lifecycle_invD(1)[OF sample_inv] sample_pair_facts(1,3)
  unfolding slot_by_pid_def find_Some_iff by (intro exI[of _ 0]) (simp add: is_running_def slot_handle_def)

lemma sample_pair_free: "list_ex is_free_slot (lc_slots sample_pair)"
  unfolding list_ex_length
  by (rule exI[of _ 2]) (simp add: sample_pair_eq sample_running_eq sample_slot_simps is_free_slot_def slot_EMPTY_def)

theorem commit_child_succeeds_iff_slot_free_witness:
  "\<exists>h t. commit_child sample_pair 1 (sample_launch 3) = (Ok h, t)"
  using commit_child_succeeds_iff_slot_free[OF sample_pair_reachable _ _ sample_pair_parent, of "sample_launch 3"]
    sample_pair_free sample_pair_facts(1) sample_launch_validate[of 3]
  by (auto simp: is_running_def)

section \<open>Generations of a slot\<close>

definition slot_valid :: "lifecycle \<Rightarrow> nat \<Rightarrow> nat \<Rightarrow> bool" where
  "slot_valid s i g \<longleftrightarrow> i < 64 \<and> ps_occupied (lc_slots s ! i) \<and> unat (ps_generation (lc_slots s ! i)) = g"

definition slot_bound :: "lifecycle \<Rightarrow> nat \<Rightarrow> nat" where
  "slot_bound s i =
     (if i < 64
      then if ps_occupied (lc_slots s ! i) \<or> ps_generation (lc_slots s ! i) = - 1
           then Suc (unat (ps_generation (lc_slots s ! i))) else unat (ps_generation (lc_slots s ! i))
      else 0)"

lemma effect_generation:
  assumes "lifecycle_effect s t" and "lifecycle_inv s" and "i < 64"
  shows "ps_occupied (lc_slots t ! i) = ps_occupied (lc_slots s ! i) \<and> ps_generation (lc_slots t ! i) = ps_generation (lc_slots s ! i)
    \<or> is_free_slot (lc_slots s ! i) \<and> ps_occupied (lc_slots t ! i) \<and> ps_generation (lc_slots s ! i) \<le> ps_generation (lc_slots t ! i)
    \<or> ps_occupied (lc_slots s ! i) \<and> \<not> ps_occupied (lc_slots t ! i) \<and> ps_generation (lc_slots t ! i) =
        (if ps_generation (lc_slots s ! i) = - 1 then - 1 else ps_generation (lc_slots s ! i) + 1)"
  using assms(1)
proof cases
  case (fill k x n)
  then show ?thesis using lifecycle_invD(1)[OF assms(2)] by (auto simp: nth_update is_runnable_def)
next
  case (reap k g)
  then show ?thesis using lifecycle_invD(1)[OF assms(2)] by (auto simp: nth_update slot_EMPTY_def)
qed (simp_all add: nth_update)

interpretation slots: generation_ledger "\<lambda>s. s = lifecycle_new" lifecycle_step lifecycle_inv slot_valid slot_bound
proof (unfold_locales, goal_cases)
  case (1 s i g)
  then show ?case by (auto simp: slot_valid_def slot_bound_def)
next
  case (2 s t i)
  show ?case
  proof (cases "i < 64")
    case True
    from effect_generation[OF step_effect[OF 2] 2(1) True] show ?thesis
      using True by (auto simp: slot_bound_def is_free_slot_def unat_Suc_le word_le_nat_alt le_SucI)
  qed (simp add: slot_bound_def)
next
  case (3 s t i g)
  then have "i < 64" by (simp add: slot_valid_def)
  from effect_generation[OF step_effect[OF 3(1,2)] 3(1) this] show ?case
    using 3(3,4) by (auto simp: slot_bound_def slot_valid_def is_free_slot_def word_le_nat_alt)
qed

text \<open>
  Within one slot a handle dies for good: once the process a slot held under
  some generation has been reaped, the slot never again holds an occupant with that
  generation, also when the 32-bit counter runs out (the slot is then retired).
\<close>

theorem reaped_generation_never_returns:
  assumes "lifecycle_step\<^sup>*\<^sup>* lifecycle_new s" and "i < 64" and "ps_occupied (lc_slots s ! i)"
    and "reap_child s parent (slot_handle (lc_slots s ! i)) = (Ok code, u)" and "lifecycle_step\<^sup>*\<^sup>* u t"
  shows "\<not> (ps_occupied (lc_slots t ! i) \<and> ps_generation (lc_slots t ! i) = ps_generation (lc_slots s ! i))"
proof -
  have s: "lifecycle_inv s" by (rule lifecycle.inv_reachable[OF refl assms(1)])
  let ?g = "unat (ps_generation (lc_slots s ! i))"
  have u: "lifecycle_step s u" using lifecycle_step.reap[of s parent "slot_handle (lc_slots s ! i)"] assms(4) by simp
  have "\<not> slot_valid u i ?g"
    using assms(2-4) position_handle[OF s assms(2,3)] lifecycle_invD(1)[OF s]
    by (auto simp: reap_child_def slot_by_handle_mut_def slot_valid_def update_slot_eq slot_EMPTY_def Let_def split: if_splits)
  from slots.stale_forever[OF s _ u this assms(5)] assms(2,3) show ?thesis
    by (auto simp: slot_valid_def)
qed

section \<open>Blocking the running process\<close>

definition wedged :: "lifecycle \<Rightarrow> bool" where
  "wedged s \<longleftrightarrow> lc_current_execution s \<noteq> PID0_IDENTITY \<and> none_running (lc_slots s)"

lemma none_running_update: "none_running L \<Longrightarrow> \<not> is_running x \<Longrightarrow> none_running (L[i := x])"
  by (auto simp: none_running_def nth_update)

lemma none_runningD: "lifecycle_inv s \<Longrightarrow> none_running (lc_slots s) \<Longrightarrow> i < 64 \<Longrightarrow> \<not> is_running (lc_slots s ! i)"
  using lifecycle_invD(1) by (auto simp: none_running_def)

lemma wedged_effect:
  assumes "lifecycle_inv s" and "wedged s" and "lifecycle_effect s t"
  shows "wedged t"
  using assms(3)
proof cases
  case (fill i x n)
  with assms(2) not_running_runnable[of x] show ?thesis by (auto simp: wedged_def intro!: none_running_update)
next
  case (phase i p)
  with assms(2) show ?thesis by (auto simp: wedged_def is_running_def intro!: none_running_update)
next
  case (reap i g)
  with assms(2) show ?thesis by (auto simp: wedged_def is_running_def slot_EMPTY_def intro!: none_running_update)
qed (use assms(2) none_runningD[OF assms(1)] in \<open>auto simp: wedged_def\<close>)

lemma wedged_steps: "lifecycle_step\<^sup>*\<^sup>* s t \<Longrightarrow> lifecycle_inv s \<Longrightarrow> wedged s \<Longrightarrow> wedged t \<and> lifecycle_inv t"
  by (induction rule: rtranclp_induct) (auto intro: wedged_effect step_effect lifecycle.inv_step)

text \<open>
  \<open>mark_blocked\<close> takes the running process off the processor without
  clearing the published execution identity. From then on no sequence of lifecycle calls, not
  even waking the process again, makes any process run: \<open>mark_running\<close> and
  \<open>schedule_from_pid0\<close> insist on the idle identity, and every other scheduling call on a
  running caller.
\<close>

theorem blocking_the_running_process_wedges:
  assumes "lifecycle_step\<^sup>*\<^sup>* lifecycle_new s" and "i < 64" and "is_running (lc_slots s ! i)"
    and "mark_blocked s (slot_handle (lc_slots s ! i)) = (Ok (), u)" and "lifecycle_step\<^sup>*\<^sup>* u t"
  shows "\<forall>k < 64. \<not> is_running (lc_slots t ! k)"
proof -
  have s: "lifecycle_inv s" by (rule lifecycle.inv_reachable[OF refl assms(1)])
  have u: "lifecycle_inv u"
    using lifecycle.inv_step[OF s lifecycle_step.block, of "slot_handle (lc_slots s ! i)"] assms(4) by simp
  have occ: "ps_occupied (lc_slots s ! i)" using assms(3) by (simp add: is_running_def)
  have eq: "u = s\<lparr>lc_slots := (lc_slots s)[i := (lc_slots s ! i)\<lparr>ps_phase := Blocked\<rparr>]\<rparr>"
    using assms(4) position_handle[OF s assms(2) occ]
    by (auto simp: mark_blocked_def slot_by_handle_mut_def update_slot_eq split: if_splits)
  have "ps_pid (lc_slots s ! i) \<noteq> 0" using lifecycle_invD(2)[OF s assms(2)] occ by (simp add: slot_ok_def)
  then have "lc_current_execution u \<noteq> PID0_IDENTITY"
    using running_current[OF s assms(2,3)] encode_eq_PID0 by (simp add: eq slot_handle_def)
  moreover have "none_running (lc_slots u)" using running_stopped[OF s assms(3,2)] by (simp add: eq)
  ultimately have "wedged u" by (simp add: wedged_def)
  from wedged_steps[OF assms(5) u this] show ?thesis using none_runningD by (auto simp: wedged_def)
qed

theorem blocking_the_running_process_wedges_witness:
  "\<exists>u. mark_blocked sample_pair (slot_handle (lc_slots sample_pair ! 0)) = (Ok (), u)
     \<and> \<not> is_running (lc_slots (snd (mark_runnable u (slot_handle (lc_slots sample_pair ! 0)))) ! 0)"
proof -
  have occ: "ps_occupied (lc_slots sample_pair ! 0)" using sample_pair_facts(1) by (simp add: is_running_def)
  have "fst (mark_blocked sample_pair (slot_handle (lc_slots sample_pair ! 0))) = Ok ()"
    using position_handle[OF sample_inv _ occ] sample_pair_facts(1,3)
    by (simp add: mark_blocked_def slot_by_handle_mut_def is_running_def)
  then obtain u where u: "mark_blocked sample_pair (slot_handle (lc_slots sample_pair ! 0)) = (Ok (), u)"
    by (metis prod.collapse)
  from blocking_the_running_process_wedges[OF sample_pair_reachable _ sample_pair_facts(1) u
      r_into_rtranclp[of lifecycle_step, OF lifecycle_step.wake]] u show ?thesis by auto
qed

section \<open>Reissued init handle\<close>

abbreviation init_handle :: process_handle where
  "init_handle \<equiv> \<lparr>ph_pid = 1, ph_generation = 1\<rparr>"

text \<open>
  A run in which init exits and is reaped, its slot goes to a new child of the surviving
  process, and init is registered again in a slot never used before.
\<close>

definition sample_exited :: lifecycle where
  "sample_exited = snd (schedule_exit sample_pair 7)"

definition sample_reaped :: lifecycle where
  "sample_reaped = snd (reap_child sample_exited 0 init_handle)"

definition sample_refilled :: lifecycle where
  "sample_refilled = snd (commit_child sample_reaped 2 (sample_launch 3))"

definition sample_slots :: "lifecycle \<Rightarrow> process_slot \<Rightarrow> process_slot \<Rightarrow> bool" where
  "sample_slots s a b \<longleftrightarrow> length (lc_slots s) = 64
     \<and> (\<forall>j < 64. lc_slots s ! j = (if j = 0 then a else if j = 1 then b else slot_EMPTY))"

abbreviation "sample_init \<equiv> fill_slot 1 0 (sample_launch 1) 0 slot_EMPTY"
abbreviation "sample_child \<equiv> fill_slot 2 1 (sample_launch 2) 1 (slot_EMPTY\<lparr>ps_generation := 2\<rparr>)"
abbreviation "sample_zombie \<equiv> sample_init\<lparr>ps_phase := Zombie, ps_exit_code := 7, ps_wait_sequence := 2\<rparr>"

lemma sample_pair_slots: "sample_slots sample_pair (sample_init\<lparr>ps_phase := Running\<rparr>) sample_child"
  by (auto simp: sample_slots_def sample_pair_eq sample_running_eq sample_slot_simps nth_update)

lemma sample_exited_slots:
  "sample_slots sample_exited sample_zombie (sample_child\<lparr>ps_phase := Running\<rparr>)"
proof -
  note run = running_facts[OF sample_inv _ sample_pair_facts(1)]
  have r1: "is_runnable (lc_slots sample_pair ! Suc 0)" using sample_pair_facts(2) by simp
  have "[1 ..< Suc (length (lc_slots sample_pair))] = 1 # [2 ..< Suc (length (lc_slots sample_pair))]"
    using lifecycle_invD(1)[OF sample_inv] by (simp add: upt_conv_Cons numeral_2_eq_2)
  then have nxt: "next_runnable_index sample_pair 0 = Some 1"
    using r1 lifecycle_invD(1)[OF sample_inv] by (simp add: next_runnable_index_def)
  then have valid: "\<not> target_invalid (dispatch_target sample_pair (Some 1) e)" for e
    using dispatch_target_valid[OF sample_inv, of "Some 1" e] sample_pair_facts(2) by simp
  have "lc_slots sample_exited = (lc_slots sample_pair)[0 := sample_zombie, 1 := sample_child\<lparr>ps_phase := Running\<rparr>]"
    using run nxt valid sample_pair_slots
    by (simp add: sample_exited_def schedule_exit_def sample_pair_facts next_scheduler_epoch_cases Let_def
        dispatch_or_idle_def dispatch_target_def update_slot_eq publish_scheduler_epoch_def sample_slots_def)
  with sample_pair_slots show ?thesis by (auto simp: sample_slots_def nth_update)
qed

lemma sample_slots_sel:
  "ps_occupied (sample_init\<lparr>ps_phase := p\<rparr>)" "ps_pid (sample_init\<lparr>ps_phase := p\<rparr>) = 1"
  "ps_occupied sample_zombie" "ps_pid sample_zombie = 1" "ps_generation sample_zombie = 1"
  "ps_phase sample_zombie = Zombie" "ps_parent sample_zombie = 0"
  "ps_occupied (sample_child\<lparr>ps_phase := p\<rparr>)" "ps_pid (sample_child\<lparr>ps_phase := p\<rparr>) = 2"
  "ps_phase (sample_child\<lparr>ps_phase := p\<rparr>) = p"
  "\<not> ps_occupied slot_EMPTY" "ps_generation slot_EMPTY = 1"
  by (simp_all add: fill_slot_def slot_EMPTY_def)

lemma sample_reap:
  "reap_child sample_exited 0 init_handle = (Ok 7, sample_reaped)"
  "sample_slots sample_reaped (slot_EMPTY\<lparr>ps_generation := 2\<rparr>) (sample_child\<lparr>ps_phase := Running\<rparr>)"
  "lc_next_pid sample_reaped = lc_next_pid sample_exited"
proof -
  note e = sample_exited_slots[unfolded sample_slots_def]
  have "position (matches_handle init_handle) (lc_slots sample_exited) = Some 0"
    using e by (intro position_SomeI) (simp_all add: matches_handle_def sample_slots_sel)
  then have "reap_child sample_exited 0 init_handle =
      (Ok 7, update_slot 0 (\<lambda>_. slot_EMPTY\<lparr>ps_generation := 2\<rparr>) sample_exited)"
    using e by (simp add: reap_child_def slot_by_handle_mut_def sample_slots_sel checked_add_one)
  then show "reap_child sample_exited 0 init_handle = (Ok 7, sample_reaped)"
    "sample_slots sample_reaped (slot_EMPTY\<lparr>ps_generation := 2\<rparr>) (sample_child\<lparr>ps_phase := Running\<rparr>)"
    "lc_next_pid sample_reaped = lc_next_pid sample_exited"
    using e by (simp_all add: sample_reaped_def sample_slots_def update_slot_eq nth_update)
qed

lemma sample_exited_next_pid: "lc_next_pid sample_exited = 3"
  using running_facts[OF sample_inv _ sample_pair_facts(1)]
  by (simp add: sample_exited_def schedule_exit_def next_scheduler_epoch_cases Let_def dispatch_or_idle_def
      dispatch_target_def update_slot_eq publish_scheduler_epoch_def split: option.split)
    (simp add: sample_pair_eq)

lemma sample_refilled_slots:
  "\<exists>a. ps_occupied a \<and> ps_pid a = 3 \<and> sample_slots sample_refilled a (sample_child\<lparr>ps_phase := Running\<rparr>)"
proof -
  let ?L = "lc_slots sample_reaped" and ?b = "sample_child\<lparr>ps_phase := Running\<rparr>"
  note r = sample_reap(2)[unfolded sample_slots_def]
  have pos: "position is_free_slot ?L = Some 0"
    using r by (intro position_SomeI) (simp_all add: is_free_slot_def sample_slots_sel)
  have parent: "slot_by_pid sample_reaped 2 = Some ?b"
    unfolding slot_by_pid_def find_Some_iff using r by (intro exI[of _ 1]) (simp add: sample_slots_sel)
  have "\<not> list_ex (\<lambda>sl. ps_occupied sl \<and> ps_pid sl = 3) ?L"
    using r by (auto simp: list_ex_length sample_slots_sel)
  moreover have "lc_next_pid sample_reaped = 3" by (simp add: sample_reap(3) sample_exited_next_pid)
  ultimately have pid: "allocate_pid sample_reaped = (Some 3, sample_reaped\<lparr>lc_next_pid := 4\<rparr>)"
    unfolding allocate_pid_def Suc_eq_plus1[symmetric] allocate_pid_loop.simps(2) Let_def by simp
  have "lc_slots sample_refilled = ?L[0 := fill_slot 3 2 (sample_launch 3) (lc_scheduler_epoch sample_reaped)
      (slot_EMPTY\<lparr>ps_generation := 3\<rparr>)]"
    using r pos pid parent sample_launch_validate[of 3]
    by (simp add: sample_refilled_def commit_child_def sample_slots_sel checked_add_one update_slot_eq)
  with r show ?thesis
    by (intro exI[of _ "fill_slot 3 2 (sample_launch 3) (lc_scheduler_epoch sample_reaped) (slot_EMPTY\<lparr>ps_generation := 3\<rparr>)"])
      (auto simp: sample_slots_def nth_update fill_slot_def)
qed

lemma sample_reissue: "fst (register_init sample_refilled (sample_launch 4)) = Ok init_handle"
proof -
  obtain a where a: "ps_occupied a" "ps_pid a = 3" and
    r: "sample_slots sample_refilled a (sample_child\<lparr>ps_phase := Running\<rparr>)" using sample_refilled_slots by blast
  note r = r[unfolded sample_slots_def]
  have "\<And>j. j < 2 \<Longrightarrow> j = 0 \<or> j = (1::nat)" by auto
  then have "position is_free_slot (lc_slots sample_refilled) = Some 2"
    using r a by (intro position_SomeI) (auto simp: is_free_slot_def sample_slots_sel)
  moreover have "slot_by_pid sample_refilled 1 = None"
    using r a by (auto simp: slot_by_pid_def find_None_iff in_set_conv_nth sample_slots_sel)
  ultimately show ?thesis
    using r sample_launch_validate[of 4]
    by (simp add: register_init_def Let_def update_slot_eq) (simp add: fill_slot_def sample_slots_sel)
qed

lemma sample_run:
  "lifecycle_step\<^sup>*\<^sup>* lifecycle_new sample_exited" "lifecycle_step sample_exited sample_reaped"
  "lifecycle_step\<^sup>*\<^sup>* sample_reaped sample_refilled"
proof -
  show "lifecycle_step\<^sup>*\<^sup>* lifecycle_new sample_exited"
    using sample_pair_reachable lifecycle_step.exit unfolding sample_exited_def
    by (meson rtranclp.rtrancl_into_rtrancl)
  show "lifecycle_step sample_exited sample_reaped" unfolding sample_reaped_def by (rule lifecycle_step.reap)
  show "lifecycle_step\<^sup>*\<^sup>* sample_reaped sample_refilled"
    unfolding sample_refilled_def by (rule r_into_rtranclp) (rule lifecycle_step.commit)
qed

text \<open>
  Across slots a handle can come back: \<open>register_init\<close> reuses the current
  generation of the first free slot instead of advancing it. After init has exited and been
  reaped, and its old slot has been taken by another process, registering init again lands
  in an unused slot and returns the very handle \<open>(1, 1)\<close> that had been retired.
\<close>

theorem init_handle_reissued:
  "\<exists>s u v. lifecycle_step\<^sup>*\<^sup>* lifecycle_new s \<and> reap_child s 0 init_handle = (Ok 7, u)
     \<and> slot_by_handle u init_handle = None
     \<and> lifecycle_step\<^sup>*\<^sup>* u v \<and> fst (register_init v (sample_launch 4)) = Ok init_handle"
proof (intro exI conjI)
  show "lifecycle_step\<^sup>*\<^sup>* lifecycle_new sample_exited" by (rule sample_run)
  show "reap_child sample_exited 0 init_handle = (Ok 7, sample_reaped)" by (rule sample_reap)
  show "slot_by_handle sample_reaped init_handle = None"
    using sample_reap(2) by (auto simp: slot_by_handle_def find_None_iff in_set_conv_nth sample_slots_def
        matches_handle_def sample_slots_sel)
  show "lifecycle_step\<^sup>*\<^sup>* sample_reaped sample_refilled" by (rule sample_run)
  show "fst (register_init sample_refilled (sample_launch 4)) = Ok init_handle" by (rule sample_reissue)
qed

theorem reaped_generation_never_returns_witness:
  "reap_child sample_exited 0 init_handle = (Ok 7, sample_reaped)
   \<and> \<not> (ps_occupied (lc_slots sample_refilled ! 0) \<and> ps_generation (lc_slots sample_refilled ! 0) = 1)"
proof -
  note e = sample_exited_slots[unfolded sample_slots_def]
  have "ps_occupied (lc_slots sample_exited ! 0)" "slot_handle (lc_slots sample_exited ! 0) = init_handle"
    "ps_generation (lc_slots sample_exited ! 0) = 1"
    using e by (simp_all add: slot_handle_def sample_slots_sel)
  with reaped_generation_never_returns[OF sample_run(1) _ _ _ sample_run(3), of 0 0 7] sample_reap(1) show ?thesis by simp
qed

end
