(* ===== verification/Preemption.thy ===== *)
theory Preemption
  imports Lifecycle
begin

text \<open>
  The bridge from the timer interrupt to the scheduler,
  \<^verbatim>\<open>src/kernel/boulder/src/process/preemption.rs\<close>. The mailbox is a set of atomics written
  by the interrupt handler and read at a safe point, so \<open>publish\<close> and \<open>take\<close> are modelled
  twice: as atomic functions, for use with the lifecycle, and as the sequence of single
  atomic accesses the code performs, with any number of threads interleaved
  (\<open>mailbox_step\<close>). Memory is sequentially consistent in the model; the code's
  acquire/release pairs on \<open>state\<close> order the relaxed payload accesses.
\<close>

abbreviation EMPTY :: u32 where "EMPTY \<equiv> 0"
abbreviation CLAIMED :: u32 where "CLAIMED \<equiv> 1"
abbreviation PENDING :: u32 where "PENDING \<equiv> 2"

record preemption_ticket =
  pt_authority :: execution_authority
  pt_requested_tick :: u64

datatype request_disposition = Published | Coalesced | NoUserAuthority

record mailbox =
  mb_state :: u32
  mb_identity :: u64
  mb_scheduler_epoch :: u64
  mb_requested_tick :: u64

definition mailbox_new :: mailbox where
  "mailbox_new = \<lparr>mb_state = EMPTY, mb_identity = 0, mb_scheduler_epoch = 0, mb_requested_tick = 0\<rparr>"

definition mailbox_publish :: "mailbox \<Rightarrow> preemption_ticket \<Rightarrow> bool \<times> mailbox" where
  "mailbox_publish m ticket =
     (if mb_state m \<noteq> EMPTY then (False, m)
      else (True, \<lparr>mb_state = PENDING, mb_identity = encode_identity (pt_authority ticket),
                   mb_scheduler_epoch = ea_scheduler_epoch (pt_authority ticket),
                   mb_requested_tick = pt_requested_tick ticket\<rparr>))"

definition payload_decode :: "u64 \<Rightarrow> u64 \<Rightarrow> u64 \<Rightarrow> preemption_ticket option" where
  "payload_decode identity epoch tick =
     map_option (\<lambda>a. \<lparr>pt_authority = a, pt_requested_tick = tick\<rparr>) (authority_decode identity epoch)"

definition mailbox_take :: "mailbox \<Rightarrow> preemption_ticket option \<times> mailbox" where
  "mailbox_take m =
     (if mb_state m \<noteq> PENDING then (None, m)
      else (payload_decode (mb_identity m) (mb_scheduler_epoch m) (mb_requested_tick m),
            m\<lparr>mb_state := EMPTY\<rparr>))"

text \<open>The counters wrap, as \<open>AtomicU64::fetch_add\<close> does.\<close>

record preemption =
  pr_mailbox :: mailbox
  pr_irq_requests :: u64
  pr_published :: u64
  pr_coalesced :: u64
  pr_no_user_authority :: u64
  pr_serviced :: u64
  pr_stale :: u64
  pr_superseded :: u64
  pr_first_service :: bool

definition preemption_new :: preemption where
  "preemption_new = \<lparr>pr_mailbox = mailbox_new, pr_irq_requests = 0, pr_published = 0, pr_coalesced = 0,
     pr_no_user_authority = 0, pr_serviced = 0, pr_stale = 0, pr_superseded = 0, pr_first_service = False\<rparr>"

definition request_from_timer_irq :: "lifecycle \<Rightarrow> preemption \<Rightarrow> u64 \<Rightarrow> request_disposition \<times> preemption" where
  "request_from_timer_irq s p wall_tick =
     (let p = p\<lparr>pr_irq_requests := pr_irq_requests p + 1\<rparr> in
      case current_execution_authority_from_irq s of
        None \<Rightarrow> (NoUserAuthority, p\<lparr>pr_no_user_authority := pr_no_user_authority p + 1\<rparr>)
      | Some a \<Rightarrow>
          (case mailbox_publish (pr_mailbox p) \<lparr>pt_authority = a, pt_requested_tick = wall_tick\<rparr> of
             (True, m) \<Rightarrow> (Published, p\<lparr>pr_mailbox := m, pr_published := pr_published p + 1\<rparr>)
           | (False, m) \<Rightarrow> (Coalesced, p\<lparr>pr_mailbox := m, pr_coalesced := pr_coalesced p + 1\<rparr>)))"

definition take_at_safe_point :: "preemption \<Rightarrow> preemption_ticket option \<times> preemption" where
  "take_at_safe_point p = (case mailbox_take (pr_mailbox p) of (r, m) \<Rightarrow> (r, p\<lparr>pr_mailbox := m\<rparr>))"

definition record_serviced :: "preemption \<Rightarrow> bool \<times> preemption" where
  "record_serviced p =
     (\<not> pr_first_service p, p\<lparr>pr_serviced := pr_serviced p + 1, pr_first_service := True\<rparr>)"

definition record_stale :: "preemption \<Rightarrow> preemption" where
  "record_stale p = p\<lparr>pr_stale := pr_stale p + 1\<rparr>"

definition retire_superseded :: "preemption \<Rightarrow> preemption" where
  "retire_superseded p =
     (case mailbox_take (pr_mailbox p) of
        (Some _, m) \<Rightarrow> p\<lparr>pr_mailbox := m, pr_superseded := pr_superseded p + 1\<rparr>
      | (None, m) \<Rightarrow> p\<lparr>pr_mailbox := m\<rparr>)"

section \<open>The mailbox under interleaving\<close>

text \<open>
  Where a thread stands inside \<open>publish\<close> or \<open>take\<close>: between two atomic accesses.
\<close>

datatype mailbox_pc = Outside
  | Pub_identity preemption_ticket | Pub_epoch preemption_ticket | Pub_tick preemption_ticket
  | Pub_release preemption_ticket
  | Take_identity | Take_epoch u64 | Take_tick u64 u64 | Take_release u64 u64 u64

record mailbox_run =
  mr_box :: mailbox
  mr_pc :: "nat \<Rightarrow> mailbox_pc"
  mr_published :: "preemption_ticket list"
  mr_taken :: "preemption_ticket option list"

definition goto :: "nat \<Rightarrow> mailbox_pc \<Rightarrow> mailbox_run \<Rightarrow> mailbox_run" where
  "goto n pc r = r\<lparr>mr_pc := (mr_pc r)(n := pc)\<rparr>"

inductive mailbox_step :: "mailbox_run \<Rightarrow> mailbox_run \<Rightarrow> bool" where
  pub_claim: "mr_pc r n = Outside \<Longrightarrow> mb_state (mr_box r) = EMPTY
    \<Longrightarrow> mailbox_step r (goto n (Pub_identity k) (r\<lparr>mr_box := (mr_box r)\<lparr>mb_state := CLAIMED\<rparr>\<rparr>))"
| pub_fail: "mr_pc r n = Outside \<Longrightarrow> mb_state (mr_box r) \<noteq> EMPTY \<Longrightarrow> mailbox_step r r"
| pub_identity: "mr_pc r n = Pub_identity k
    \<Longrightarrow> mailbox_step r (goto n (Pub_epoch k)
          (r\<lparr>mr_box := (mr_box r)\<lparr>mb_identity := encode_identity (pt_authority k)\<rparr>\<rparr>))"
| pub_epoch: "mr_pc r n = Pub_epoch k
    \<Longrightarrow> mailbox_step r (goto n (Pub_tick k)
          (r\<lparr>mr_box := (mr_box r)\<lparr>mb_scheduler_epoch := ea_scheduler_epoch (pt_authority k)\<rparr>\<rparr>))"
| pub_tick: "mr_pc r n = Pub_tick k
    \<Longrightarrow> mailbox_step r (goto n (Pub_release k)
          (r\<lparr>mr_box := (mr_box r)\<lparr>mb_requested_tick := pt_requested_tick k\<rparr>\<rparr>))"
| pub_release: "mr_pc r n = Pub_release k
    \<Longrightarrow> mailbox_step r (goto n Outside
          (r\<lparr>mr_box := (mr_box r)\<lparr>mb_state := PENDING\<rparr>, mr_published := mr_published r @ [k]\<rparr>))"
| take_claim: "mr_pc r n = Outside \<Longrightarrow> mb_state (mr_box r) = PENDING
    \<Longrightarrow> mailbox_step r (goto n Take_identity (r\<lparr>mr_box := (mr_box r)\<lparr>mb_state := CLAIMED\<rparr>\<rparr>))"
| take_fail: "mr_pc r n = Outside \<Longrightarrow> mb_state (mr_box r) \<noteq> PENDING \<Longrightarrow> mailbox_step r r"
| take_identity: "mr_pc r n = Take_identity
    \<Longrightarrow> mailbox_step r (goto n (Take_epoch (mb_identity (mr_box r))) r)"
| take_epoch: "mr_pc r n = Take_epoch i
    \<Longrightarrow> mailbox_step r (goto n (Take_tick i (mb_scheduler_epoch (mr_box r))) r)"
| take_tick: "mr_pc r n = Take_tick i e
    \<Longrightarrow> mailbox_step r (goto n (Take_release i e (mb_requested_tick (mr_box r))) r)"
| take_release: "mr_pc r n = Take_release i e w
    \<Longrightarrow> mailbox_step r (goto n Outside
          (r\<lparr>mr_box := (mr_box r)\<lparr>mb_state := EMPTY\<rparr>, mr_taken := mr_taken r @ [payload_decode i e w]\<rparr>))"

definition mailbox_start :: mailbox_run where
  "mailbox_start = \<lparr>mr_box = mailbox_new, mr_pc = (\<lambda>_. Outside), mr_published = [], mr_taken = []\<rparr>"

definition holds_ticket :: "preemption_ticket \<Rightarrow> mailbox \<Rightarrow> bool" where
  "holds_ticket k m \<longleftrightarrow> mb_identity m = encode_identity (pt_authority k)
     \<and> mb_scheduler_epoch m = ea_scheduler_epoch (pt_authority k)
     \<and> mb_requested_tick m = pt_requested_tick k"

definition wire :: "preemption_ticket \<Rightarrow> preemption_ticket option" where
  "wire k = payload_decode (encode_identity (pt_authority k)) (ea_scheduler_epoch (pt_authority k))
     (pt_requested_tick k)"

text \<open>What holds for the one thread inside a critical section.\<close>

fun inside :: "mailbox_run \<Rightarrow> mailbox_pc \<Rightarrow> bool" where
  "inside r Outside = False"
| "inside r (Pub_identity k) = (length (mr_published r) = length (mr_taken r))"
| "inside r (Pub_epoch k) = (length (mr_published r) = length (mr_taken r)
     \<and> mb_identity (mr_box r) = encode_identity (pt_authority k))"
| "inside r (Pub_tick k) = (length (mr_published r) = length (mr_taken r)
     \<and> mb_identity (mr_box r) = encode_identity (pt_authority k)
     \<and> mb_scheduler_epoch (mr_box r) = ea_scheduler_epoch (pt_authority k))"
| "inside r (Pub_release k) = (length (mr_published r) = length (mr_taken r) \<and> holds_ticket k (mr_box r))"
| "inside r Take_identity = (length (mr_published r) = Suc (length (mr_taken r))
     \<and> holds_ticket (last (mr_published r)) (mr_box r))"
| "inside r (Take_epoch i) = (length (mr_published r) = Suc (length (mr_taken r))
     \<and> holds_ticket (last (mr_published r)) (mr_box r) \<and> i = mb_identity (mr_box r))"
| "inside r (Take_tick i e) = (length (mr_published r) = Suc (length (mr_taken r))
     \<and> holds_ticket (last (mr_published r)) (mr_box r) \<and> i = mb_identity (mr_box r)
     \<and> e = mb_scheduler_epoch (mr_box r))"
| "inside r (Take_release i e w) = (length (mr_published r) = Suc (length (mr_taken r))
     \<and> holds_ticket (last (mr_published r)) (mr_box r) \<and> i = mb_identity (mr_box r)
     \<and> e = mb_scheduler_epoch (mr_box r) \<and> w = mb_requested_tick (mr_box r))"

definition all_outside :: "mailbox_run \<Rightarrow> bool" where
  "all_outside r \<longleftrightarrow> (\<forall>n. mr_pc r n = Outside)"

definition one_inside :: "mailbox_run \<Rightarrow> bool" where
  "one_inside r \<longleftrightarrow> (\<exists>n. inside r (mr_pc r n) \<and> (\<forall>m. m \<noteq> n \<longrightarrow> mr_pc r m = Outside))"

definition mailbox_inv :: "mailbox_run \<Rightarrow> bool" where
  "mailbox_inv r \<longleftrightarrow>
     mr_taken r = map wire (take (length (mr_taken r)) (mr_published r))
     \<and> (mb_state (mr_box r) = EMPTY \<and> all_outside r \<and> length (mr_published r) = length (mr_taken r)
        \<or> mb_state (mr_box r) = PENDING \<and> all_outside r
           \<and> length (mr_published r) = Suc (length (mr_taken r)) \<and> holds_ticket (last (mr_published r)) (mr_box r)
        \<or> mb_state (mr_box r) = CLAIMED \<and> one_inside r)"


text \<open>A thread found inside is the one the invariant speaks of.\<close>

lemma inside_thread:
  assumes "mailbox_inv r" and "mr_pc r n \<noteq> Outside"
  shows "mb_state (mr_box r) = CLAIMED" and "inside r (mr_pc r n)" and "\<forall>m. m \<noteq> n \<longrightarrow> mr_pc r m = Outside"
    and "mr_taken r = map wire (take (length (mr_taken r)) (mr_published r))"
proof -
  have *: "mb_state (mr_box r) = CLAIMED \<and> one_inside r"
    using assms by (auto simp: mailbox_inv_def all_outside_def)
  then obtain k where k: "inside r (mr_pc r k)" "\<forall>m. m \<noteq> k \<longrightarrow> mr_pc r m = Outside"
    by (auto simp: one_inside_def)
  with assms(2) have "k = n" by metis
  with k show "inside r (mr_pc r n)" and "\<forall>m. m \<noteq> n \<longrightarrow> mr_pc r m = Outside" by simp_all
  show "mb_state (mr_box r) = CLAIMED" using * by simp
  show "mr_taken r = map wire (take (length (mr_taken r)) (mr_published r))"
    using assms(1) by (simp add: mailbox_inv_def)
qed

lemma mailbox_inv_inside:
  assumes "mr_taken r = map wire (take (length (mr_taken r)) (mr_published r))"
    and "mb_state (mr_box r) = CLAIMED" and "inside r (mr_pc r n)" and "\<forall>m. m \<noteq> n \<longrightarrow> mr_pc r m = Outside"
  shows "mailbox_inv r"
  using assms by (auto simp: mailbox_inv_def one_inside_def)

lemma goto_sel [simp]:
  "mr_box (goto n pc r) = mr_box r" "mr_published (goto n pc r) = mr_published r"
  "mr_taken (goto n pc r) = mr_taken r" "mr_pc (goto n pc r) m = (if m = n then pc else mr_pc r m)"
  by (simp_all add: goto_def)

lemma taken_step:
  assumes "length ps = Suc (length ts)" and "ts = map wire (take (length ts) ps)"
  shows "ts @ [wire (last ps)] = map wire (take (length (ts @ [x])) ps)"
proof -
  have "take (Suc (length ts)) ps = take (length ts) ps @ [last ps]"
    using assms(1) by (metis append_butlast_last_id butlast_conv_take diff_Suc_1 length_greater_0_conv
        lessI less_imp_le_nat take_all zero_less_Suc le_refl)
  with assms(2) show ?thesis by (metis length_append_singleton list.simps(8,9) map_append)
qed

lemma mailbox_inv_step:
  assumes "mailbox_inv r" and "mailbox_step r t"
  shows "mailbox_inv t"
  using assms(2)
proof cases
  case (pub_claim n k)
  then show ?thesis using assms(1)
    by (intro mailbox_inv_inside[of _ n]) (auto simp: mailbox_inv_def all_outside_def)
next
  case (pub_identity n k)
  with inside_thread[OF assms(1), of n] show ?thesis by (intro mailbox_inv_inside[of _ n]) simp_all
next
  case (pub_epoch n k)
  with inside_thread[OF assms(1), of n] show ?thesis by (intro mailbox_inv_inside[of _ n]) simp_all
next
  case (pub_tick n k)
  with inside_thread[OF assms(1), of n] show ?thesis
    by (intro mailbox_inv_inside[of _ n]) (simp_all add: holds_ticket_def)
next
  case (pub_release n k)
  with inside_thread[OF assms(1), of n] show ?thesis
    by (auto simp: mailbox_inv_def all_outside_def holds_ticket_def)
next
  case (take_claim n)
  then show ?thesis using assms(1)
    by (intro mailbox_inv_inside[of _ n]) (auto simp: mailbox_inv_def all_outside_def holds_ticket_def)
next
  case (take_identity n)
  with inside_thread[OF assms(1), of n] show ?thesis
    by (intro mailbox_inv_inside[of _ n]) (simp_all add: holds_ticket_def)
next
  case (take_epoch n i)
  with inside_thread[OF assms(1), of n] show ?thesis
    by (intro mailbox_inv_inside[of _ n]) (simp_all add: holds_ticket_def)
next
  case (take_tick n i e)
  with inside_thread[OF assms(1), of n] show ?thesis
    by (intro mailbox_inv_inside[of _ n]) (simp_all add: holds_ticket_def)
next
  case (take_release n i e w)
  note t = inside_thread[OF assms(1), of n, unfolded take_release(2), simplified]
  have "payload_decode i e w = wire (last (mr_published r))"
    using t(2) by (simp add: wire_def holds_ticket_def)
  with taken_step[of "mr_published r" "mr_taken r"] t(2-4) show ?thesis
    by (simp add: take_release(1) mailbox_inv_def all_outside_def)
qed (use assms(1) in simp_all)

interpretation mailbox: invariant_system "\<lambda>r. r = mailbox_start" mailbox_step mailbox_inv
proof
  show "mailbox_inv r" if "r = mailbox_start" for r
    using that by (simp add: mailbox_start_def mailbox_inv_def all_outside_def mailbox_new_def)
qed (rule mailbox_inv_step)

lemma wire_Some:
  assumes "ph_pid (ea_handle (pt_authority k)) \<noteq> 0" and "ph_generation (ea_handle (pt_authority k)) \<noteq> 0"
    and "ea_scheduler_epoch (pt_authority k) \<noteq> 0"
  shows "wire k = Some k"
  using handle_decode_encode[OF assms(1,2)] assms(3)
  by (simp add: wire_def payload_decode_def encode_identity_def authority_decode_def)

text \<open>
  C18 (safety). However the timer interrupt and the safe points of any number of threads
  interleave at the granularity of single atomic accesses, the mailbox hands out exactly the
  published tickets, each at most once, in order and never torn: no delivered ticket mixes
  the fields of two requests, and at most one ticket is outstanding.
\<close>

theorem mailbox_tickets_exact:
  assumes "mailbox_step\<^sup>*\<^sup>* mailbox_start r"
    and "\<forall>k \<in> set (mr_published r). ph_pid (ea_handle (pt_authority k)) \<noteq> 0
      \<and> ph_generation (ea_handle (pt_authority k)) \<noteq> 0 \<and> ea_scheduler_epoch (pt_authority k) \<noteq> 0"
  shows "mr_taken r = map Some (take (length (mr_taken r)) (mr_published r))
    \<and> length (mr_taken r) \<le> length (mr_published r) \<and> length (mr_published r) \<le> length (mr_taken r) + 1"
proof -
  have inv: "mailbox_inv r" by (rule mailbox.inv_reachable[OF refl assms(1)])
  let ?n = "length (mr_taken r)"
  have "mr_taken r = map wire (take ?n (mr_published r))" using inv by (simp add: mailbox_inv_def)
  also have "\<dots> = map Some (take ?n (mr_published r))"
    using assms(2) by (intro map_cong refl wire_Some) (auto dest: in_set_takeD)
  finally have taken: "mr_taken r = map Some (take ?n (mr_published r))" .
  have "inside r pc \<Longrightarrow> length (mr_published r) = ?n \<or> length (mr_published r) = Suc ?n" for pc
    by (cases pc) simp_all
  then have "length (mr_published r) = ?n \<or> length (mr_published r) = Suc ?n"
    using inv by (auto simp: mailbox_inv_def one_inside_def)
  with taken show ?thesis by auto
qed

definition sample_ticket :: "u64 \<Rightarrow> preemption_ticket" where
  "sample_ticket tick = \<lparr>pt_authority = \<lparr>ea_handle = \<lparr>ph_pid = 1, ph_generation = 1\<rparr>, ea_scheduler_epoch = 1\<rparr>,
     pt_requested_tick = tick\<rparr>"

text \<open>Thread 0 publishes a ticket and thread 1 takes it.\<close>

lemma sample_mailbox_run:
  "\<exists>r. mailbox_step\<^sup>*\<^sup>* mailbox_start r \<and> mr_published r = [sample_ticket 5] \<and> length (mr_taken r) = 1"
proof -
  let ?k = "sample_ticket 5"
  note step = converse_rtranclp_into_rtranclp[of mailbox_step]
  show ?thesis
    apply (rule exI, rule conjI)
     apply (rule step, rule mailbox_step.pub_claim[of _ 0 ?k], simp add: mailbox_start_def, simp add: mailbox_start_def mailbox_new_def)
     apply (rule step, rule mailbox_step.pub_identity[of _ 0 ?k], simp)
     apply (rule step, rule mailbox_step.pub_epoch[of _ 0 ?k], simp)
     apply (rule step, rule mailbox_step.pub_tick[of _ 0 ?k], simp)
     apply (rule step, rule mailbox_step.pub_release[of _ 0 ?k], simp)
     apply (rule step, rule mailbox_step.take_claim[of _ 1], simp add: mailbox_start_def, simp)
     apply (rule step, rule mailbox_step.take_identity[of _ 1], simp)
     apply (rule step, rule mailbox_step.take_epoch[of _ 1], simp)
     apply (rule step, rule mailbox_step.take_tick[of _ 1], simp)
     apply (rule step, rule mailbox_step.take_release[of _ 1], simp)
     apply (rule rtranclp.rtrancl_refl)
    by (simp add: mailbox_start_def)
qed

theorem mailbox_tickets_exact_witness:
  "\<exists>r. mailbox_step\<^sup>*\<^sup>* mailbox_start r \<and> mr_published r = [sample_ticket 5] \<and> mr_taken r = [Some (sample_ticket 5)]"
proof -
  obtain r where r: "mailbox_step\<^sup>*\<^sup>* mailbox_start r" "mr_published r = [sample_ticket 5]" "length (mr_taken r) = 1"
    using sample_mailbox_run by blast
  have "mr_taken r = map Some (take 1 [sample_ticket 5])"
    using mailbox_tickets_exact[OF r(1)] r(2,3) by (simp add: sample_ticket_def)
  with r show ?thesis by auto
qed

section \<open>Tickets and the scheduler\<close>

lemma take_publish:
  assumes "mb_state m = EMPTY" and "ph_pid (ea_handle (pt_authority k)) \<noteq> 0"
    and "ph_generation (ea_handle (pt_authority k)) \<noteq> 0" and "ea_scheduler_epoch (pt_authority k) \<noteq> 0"
  shows "mailbox_publish m k = (True, snd (mailbox_publish m k))"
    and "fst (mailbox_take (snd (mailbox_publish m k))) = Some k"
  using wire_Some[OF assms(2-4)] assms(1) by (simp_all add: mailbox_publish_def mailbox_take_def wire_def)

lemma irq_authority:
  assumes "lifecycle_inv s" and "current_execution_authority_from_irq s = Some a"
  shows "handle_encode (ea_handle a) = lc_current_execution s" and "ea_scheduler_epoch a = lc_scheduler_epoch s"
    and "ph_pid (ea_handle a) \<noteq> 0" and "ph_generation (ea_handle a) \<noteq> 0" and "ea_scheduler_epoch a \<noteq> 0"
  using assms(2) lifecycle_invD(6)[OF assms(1)]
  by (auto simp: current_execution_authority_from_irq_def execution_snapshot_def dest: handle_decode_SomeD split: option.splits if_splits)

lemma preempt_running:
  assumes "lifecycle_inv s" and "i < 64" and "is_running (lc_slots s ! i)" and "context_validate saved = Ok ()"
    and "handle_encode (ea_handle a) = lc_current_execution s" and "ea_scheduler_epoch a = lc_scheduler_epoch s"
  shows "schedule_preempt s saved a = rotate s i saved"
proof -
  have "ea_handle a = slot_handle (lc_slots s ! i)"
    using assms(5) unfolding running_current[OF assms(1-3)] by simp
  then show ?thesis using running_facts(1)[OF assms(1-3)] assms(4-6) by (simp add: schedule_preempt_def)
qed

text \<open>Between two equal epochs the execution identity has not moved.\<close>

lemma effect_same_epoch:
  "lifecycle_effect s t \<Longrightarrow> lc_scheduler_epoch t = lc_scheduler_epoch s \<Longrightarrow> lc_current_execution t = lc_current_execution s"
  by (erule lifecycle_effect.cases) simp_all

lemma steps_same_epoch:
  assumes "lifecycle_step\<^sup>*\<^sup>* s t" and "lifecycle_inv s" and "lc_scheduler_epoch t = lc_scheduler_epoch s"
  shows "lc_current_execution t = lc_current_execution s"
  using assms
proof (induction rule: rtranclp_induct)
  case (step y z)
  note y = steps_epoch_mono[OF step(1,4)]
  note e = step_effect[OF y[THEN conjunct1] step(2)]
  have "unat (lc_scheduler_epoch y) = unat (lc_scheduler_epoch s)"
    using y effect_epoch_mono[OF e] step(5) by simp
  then have "lc_scheduler_epoch y = lc_scheduler_epoch s" by (simp add: word_unat_eq_iff)
  with step(3,4,5) effect_same_epoch[OF e] show ?case by simp
qed simp

lemma rotate_outcome:
  assumes "lifecycle_inv s" and "i < 64" and "is_running (lc_slots s ! i)" and "context_validate saved = Ok ()"
    and "lc_scheduler_epoch s \<noteq> - 1"
  shows "\<exists>d u. rotate s i saved = (Ok d, u) \<and> lc_scheduler_epoch u = lc_scheduler_epoch s + 1
    \<and> ps_context (lc_slots u ! i) = saved
    \<and> (sp_handle d = slot_handle (lc_slots s ! i) \<longrightarrow> dc_user (sp_context d) = saved)"
proof (cases "next_runnable_index s i")
  case None
  then show ?thesis unfolding rotate_eq[OF assms]
    using lifecycle_invD(1)[OF assms(1)] assms(2) by (simp add: scheduled_def Let_def)
next
  case (Some j)
  note j = next_runnable_index_Some[OF assms(1) Some]
  have ij: "j \<noteq> i" using not_running_runnable[OF assms(3)] j(2) by blast
  then have "slot_handle (lc_slots s ! j) \<noteq> slot_handle (lc_slots s ! i)"
    using same_handle_same_index[OF lifecycle_invD(3)[OF assms(1)], of j i] lifecycle_invD(1)[OF assms(1)] j assms(2,3)
    by (auto simp: is_running_def is_runnable_def)
  then show ?thesis unfolding rotate_eq[OF assms]
    using Some ij lifecycle_invD(1)[OF assms(1)] assms(2) by simp
qed

text \<open>
  C23 (safety). A ticket minted by the timer interrupt for the running process and carried
  through the mailbox to the next safe point is honoured exactly when no scheduling decision
  intervened. If the epoch is still the one of the tick, the switch succeeds and resumes the
  interrupted image, RAX included, when the process keeps the processor; otherwise the
  ticket is refused and the table is untouched, whichever process runs by then.
\<close>

theorem preemption_ticket_honoured_iff_current:
  assumes "lifecycle_step\<^sup>*\<^sup>* lifecycle_new s" and "mb_state (pr_mailbox p) = EMPTY"
    and "request_from_timer_irq s p tick = (Published, q)"
    and "lifecycle_step\<^sup>*\<^sup>* s t" and "i < 64" and "is_running (lc_slots t ! i)"
    and "context_validate saved = Ok ()" and "lc_scheduler_epoch t \<noteq> - 1"
  shows "\<exists>k. fst (take_at_safe_point q) = Some k \<and>
    (if lc_scheduler_epoch t = lc_scheduler_epoch s
     then \<exists>d u. schedule_preempt t saved (pt_authority k) = (Ok d, u)
            \<and> lc_scheduler_epoch u = lc_scheduler_epoch t + 1 \<and> ps_context (lc_slots u ! i) = saved
            \<and> (sp_handle d = slot_handle (lc_slots t ! i) \<longrightarrow> dc_user (sp_context d) = saved)
     else schedule_preempt t saved (pt_authority k) = (Err StalePreemptionAuthority, t))"
proof -
  have s: "lifecycle_inv s" by (rule lifecycle.inv_reachable[OF refl assms(1)])
  have t: "lifecycle_inv t" by (rule lifecycle.inv_steps[OF assms(4) s])
  from assms(3) obtain a where a: "current_execution_authority_from_irq s = Some a"
    by (auto simp: request_from_timer_irq_def Let_def split: option.splits)
  note auth = irq_authority[OF s a]
  let ?k = "\<lparr>pt_authority = a, pt_requested_tick = tick\<rparr>"
  have m: "pr_mailbox q = snd (mailbox_publish (pr_mailbox p) ?k)"
    using assms(2,3) a by (auto simp: request_from_timer_irq_def Let_def split: prod.splits bool.splits)
  have taken: "fst (take_at_safe_point q) = Some ?k"
    using take_publish(2)[OF assms(2), of ?k] auth m by (simp add: take_at_safe_point_def case_prod_beta)
  show ?thesis
  proof (cases "lc_scheduler_epoch t = lc_scheduler_epoch s")
    case False
    then have "schedule_preempt t saved a = (Err StalePreemptionAuthority, t)"
      using auth(1,2) assms(7) by (auto simp: schedule_preempt_def)
    with False taken show ?thesis by (intro exI[of _ ?k]) simp
  next
    case True
    with preempt_running[OF t assms(5-7), of a] auth(1,2) steps_same_epoch[OF assms(4) s] have "schedule_preempt t saved a = rotate t i saved" by simp
    moreover note rotate_outcome[OF t assms(5,6,7,8)]
    ultimately show ?thesis using True taken by (intro exI[of _ ?k]) simp
  qed
qed

theorem preemption_ticket_honoured_iff_current_witness:
  "\<exists>q k d u. request_from_timer_irq sample_pair preemption_new 9 = (Published, q)
     \<and> fst (take_at_safe_point q) = Some k
     \<and> schedule_preempt sample_pair sample_context (pt_authority k) = (Ok d, u)"
proof -
  have cur: "current_execution_authority_from_irq sample_pair \<noteq> None"
    using running_facts(2)[OF sample_inv _ sample_pair_facts(1)] sample_pair_facts(4)
      lifecycle_invD(6)[OF sample_inv]
    by (simp add: current_execution_authority_from_irq_def execution_snapshot_def current_handle_def)
  have box: "mb_state (pr_mailbox preemption_new) = EMPTY" by (simp add: preemption_new_def mailbox_new_def)
  with cur obtain q where q: "request_from_timer_irq sample_pair preemption_new 9 = (Published, q)"
    by (auto simp: request_from_timer_irq_def Let_def mailbox_publish_def)
  from preemption_ticket_honoured_iff_current[OF sample_pair_reachable box q rtranclp.rtrancl_refl _
      sample_pair_facts(1) sample_context_ok] sample_pair_facts(4) q
  show ?thesis by auto
qed

end
