(* ===== verification/RingAuthority.thy ===== *)
theory RingAuthority
  imports Context
begin

text \<open>
  Privilege-domain dispatch, \<^verbatim>\<open>src/kernel/boulder/src/ring_authority.rs\<close>: the hardware
  authority of a domain, the registry of live domains and the per-CPU transition frontier.
  Fixed arrays are lists of the array's length. A call that takes both the frontier and
  the registry by mutable reference returns both. The system of the proofs is one registry
  with any number of frontiers, one per CPU, and \<open>ring_step\<close> interleaves their calls.
\<close>

abbreviation MAXIMUM_IO_PORT_RANGES :: nat where "MAXIMUM_IO_PORT_RANGES \<equiv> 8"
abbreviation MAXIMUM_MMIO_RANGES :: nat where "MAXIMUM_MMIO_RANGES \<equiv> 8"

datatype privilege_ring = Kernel | HardwareCell | Personality | User

datatype domain_role = NativeHardwareCell | PersonalityTranslator | UserProcess

fun role_ring :: "domain_role \<Rightarrow> privilege_ring" where
  "role_ring NativeHardwareCell = HardwareCell"
| "role_ring PersonalityTranslator = Personality"
| "role_ring UserProcess = User"

datatype transition_gate = Iretq | Sysretq

definition valid_dispatch_gate :: "privilege_ring \<Rightarrow> privilege_ring \<Rightarrow> transition_gate \<Rightarrow> bool" where
  "valid_dispatch_gate source target gate =
     (if source \<noteq> Kernel then False
      else (case gate of Iretq \<Rightarrow> target \<noteq> Kernel | Sysretq \<Rightarrow> target = User))"

datatype authority_error = InvalidAddressSpaceRoot | SharedAddressSpace | InvalidCpuGeneration
  | InvalidIoPortRange | InvalidMmioRange | InvalidDmaGrant | OverlappingIoPortRange
  | OverlappingMmioRange | IoPortCapacity | MmioCapacity | DmaAlreadyGranted
  | HardwareCellHasNoAuthority | HardwareAuthorityForbidden | HardwareRequestDenied
  | HardwareAuthorityConflict | DomainCapacity | DomainBusy | GenerationExhausted
  | CorruptExecutionReference | StaleDomain | KernelAddressSpaceMismatch | KernelNotActive
  | TransitionAlreadyPending | InvalidTransitionGate | WrongCpu | StaleTransition
  | UnexpectedCaller | SourceAddressSpaceMismatch | StaleInvocation

record domain_handle =
  dh_slot :: u16
  dh_generation :: u32

section \<open>Hardware authority\<close>

record io_port_range =
  io_first :: u16
  io_last :: u16

definition io_new :: "u16 \<Rightarrow> u16 \<Rightarrow> authority_error + io_port_range" where
  "io_new lo hi =
     (if lo > hi then Err InvalidIoPortRange else Ok \<lparr>io_first = lo, io_last = hi\<rparr>)"

definition io_contains :: "io_port_range \<Rightarrow> u16 \<Rightarrow> u8 \<Rightarrow> bool" where
  "io_contains r first byte_width =
     (if byte_width \<noteq> 1 \<and> byte_width \<noteq> 2 \<and> byte_width \<noteq> 4 then False
      else
        (case checked_add first (ucast byte_width - 1) of
           Some final \<Rightarrow> first \<ge> io_first r \<and> final \<le> io_last r
         | None \<Rightarrow> False))"

definition io_overlaps :: "io_port_range \<Rightarrow> io_port_range \<Rightarrow> bool" where
  "io_overlaps a b \<longleftrightarrow> io_first a \<le> io_last b \<and> io_first b \<le> io_last a"

type_synonym mmio_access = u8

abbreviation MMIO_READ :: mmio_access where "MMIO_READ \<equiv> 1"
abbreviation MMIO_WRITE :: mmio_access where "MMIO_WRITE \<equiv> 2"
abbreviation MMIO_READ_WRITE :: mmio_access where "MMIO_READ_WRITE \<equiv> 3"

definition access_valid :: "mmio_access \<Rightarrow> bool" where
  "access_valid a \<longleftrightarrow> a \<noteq> 0 \<and> (a AND NOT MMIO_READ_WRITE) = 0"

definition access_contains :: "mmio_access \<Rightarrow> mmio_access \<Rightarrow> bool" where
  "access_contains a requested \<longleftrightarrow> access_valid requested \<and> (a AND requested) = requested"

record mmio_range =
  mm_base :: u64
  mm_length :: u64
  mm_access :: mmio_access

definition mmio_new :: "u64 \<Rightarrow> u64 \<Rightarrow> mmio_access \<Rightarrow> authority_error + mmio_range" where
  "mmio_new base len access =
     (if (base AND 0xfff) \<noteq> 0 \<or> len = 0 \<or> (len AND 0xfff) \<noteq> 0 \<or> checked_add base len = None
         \<or> \<not> access_valid access
      then Err InvalidMmioRange
      else Ok \<lparr>mm_base = base, mm_length = len, mm_access = access\<rparr>)"

definition mmio_end :: "mmio_range \<Rightarrow> u64" where
  "mmio_end r = mm_base r + mm_length r"

definition mmio_contains :: "mmio_range \<Rightarrow> u64 \<Rightarrow> u64 \<Rightarrow> mmio_access \<Rightarrow> bool" where
  "mmio_contains r address len access =
     (if len = 0 \<or> \<not> access_contains (mm_access r) access then False
      else
        (case checked_add address len of
           Some limit \<Rightarrow> address \<ge> mm_base r \<and> limit \<le> mmio_end r
         | None \<Rightarrow> False))"

definition mmio_overlaps :: "mmio_range \<Rightarrow> mmio_range \<Rightarrow> bool" where
  "mmio_overlaps a b \<longleftrightarrow> mm_base a < mmio_end b \<and> mm_base b < mmio_end a"

record dma_grant =
  dg_iommu_domain :: u64
  dg_generation :: u32
  dg_requester_id :: u16

definition dma_validate :: "dma_grant \<Rightarrow> bool" where
  "dma_validate g \<longleftrightarrow> dg_iommu_domain g \<noteq> 0 \<and> dg_generation g \<noteq> 0"

record hardware_authority =
  ha_io_ports :: "io_port_range option list"
  ha_mmio :: "mmio_range option list"
  ha_dma :: "dma_grant option"

definition authority_NONE :: hardware_authority where
  "authority_NONE = \<lparr>ha_io_ports = replicate MAXIMUM_IO_PORT_RANGES None,
     ha_mmio = replicate MAXIMUM_MMIO_RANGES None, ha_dma = None\<rparr>"

text \<open>\<open>Iterator::flatten\<close> over an array of options.\<close>

definition flatten :: "'a option list \<Rightarrow> 'a list" where
  "flatten xs = map the (filter (\<lambda>x. x \<noteq> None) xs)"

definition grant_io :: "hardware_authority \<Rightarrow> io_port_range \<Rightarrow> (authority_error + unit) \<times> hardware_authority" where
  "grant_io a rg =
     (if list_ex (\<lambda>entry. io_overlaps entry rg) (flatten (ha_io_ports a))
      then (Err OverlappingIoPortRange, a)
      else
        (case position (\<lambda>entry. entry = None) (ha_io_ports a) of
           None \<Rightarrow> (Err IoPortCapacity, a)
         | Some i \<Rightarrow> (Ok (), a\<lparr>ha_io_ports := (ha_io_ports a)[i := Some rg]\<rparr>)))"

definition grant_mmio :: "hardware_authority \<Rightarrow> mmio_range \<Rightarrow> (authority_error + unit) \<times> hardware_authority" where
  "grant_mmio a rg =
     (if list_ex (\<lambda>entry. mmio_overlaps entry rg) (flatten (ha_mmio a))
      then (Err OverlappingMmioRange, a)
      else
        (case position (\<lambda>entry. entry = None) (ha_mmio a) of
           None \<Rightarrow> (Err MmioCapacity, a)
         | Some i \<Rightarrow> (Ok (), a\<lparr>ha_mmio := (ha_mmio a)[i := Some rg]\<rparr>)))"

definition grant_dma :: "hardware_authority \<Rightarrow> dma_grant \<Rightarrow> (authority_error + unit) \<times> hardware_authority" where
  "grant_dma a grant =
     (if \<not> dma_validate grant then (Err InvalidDmaGrant, a)
      else if ha_dma a \<noteq> None then (Err DmaAlreadyGranted, a)
      else (Ok (), a\<lparr>ha_dma := Some grant\<rparr>))"

definition permits_io :: "hardware_authority \<Rightarrow> u16 \<Rightarrow> u8 \<Rightarrow> bool" where
  "permits_io a port byte_width =
     list_ex (\<lambda>rg. io_contains rg port byte_width) (flatten (ha_io_ports a))"

definition permits_mmio :: "hardware_authority \<Rightarrow> u64 \<Rightarrow> u64 \<Rightarrow> mmio_access \<Rightarrow> bool" where
  "permits_mmio a address len access =
     list_ex (\<lambda>rg. mmio_contains rg address len access) (flatten (ha_mmio a))"

definition permits_dma :: "hardware_authority \<Rightarrow> u64 \<Rightarrow> u32 \<Rightarrow> u16 \<Rightarrow> bool" where
  "permits_dma a iommu_domain generation requester_id =
     (case ha_dma a of
        Some grant \<Rightarrow> dg_iommu_domain grant = iommu_domain \<and> dg_generation grant = generation
                      \<and> dg_requester_id grant = requester_id
      | None \<Rightarrow> False)"

definition authority_is_empty :: "hardware_authority \<Rightarrow> bool" where
  "authority_is_empty a \<longleftrightarrow> list_all (\<lambda>x. x = None) (ha_io_ports a)
     \<and> list_all (\<lambda>x. x = None) (ha_mmio a) \<and> ha_dma a = None"

definition conflicts_with :: "hardware_authority \<Rightarrow> hardware_authority \<Rightarrow> bool" where
  "conflicts_with a b \<longleftrightarrow>
     list_ex (\<lambda>l. list_ex (\<lambda>r. io_overlaps l r) (flatten (ha_io_ports b))) (flatten (ha_io_ports a))
     \<or> list_ex (\<lambda>l. list_ex (\<lambda>r. mmio_overlaps l r) (flatten (ha_mmio b))) (flatten (ha_mmio a))
     \<or> (case (ha_dma a, ha_dma b) of
          (Some l, Some r) \<Rightarrow> dg_iommu_domain l = dg_iommu_domain r \<or> dg_requester_id l = dg_requester_id r
        | _ \<Rightarrow> False)"

record domain_descriptor =
  dd_role :: domain_role
  dd_address_space_root :: u64
  dd_authority :: hardware_authority

definition descriptor_validate :: "domain_descriptor \<Rightarrow> authority_error + unit" where
  "descriptor_validate d =
     (if \<not> valid_page_table_root (dd_address_space_root d) then Err InvalidAddressSpaceRoot
      else
        (case dd_role d of
           NativeHardwareCell \<Rightarrow>
             if authority_is_empty (dd_authority d) then Err HardwareCellHasNoAuthority else Ok ()
         | _ \<Rightarrow>
             if \<not> authority_is_empty (dd_authority d) then Err HardwareAuthorityForbidden else Ok ()))"

section \<open>The domain registry\<close>

record domain_slot =
  ds_occupied :: bool
  ds_generation :: u32
  ds_execution_references :: u32
  ds_descriptor :: domain_descriptor

definition descriptor_EMPTY :: domain_descriptor where
  "descriptor_EMPTY = \<lparr>dd_role = UserProcess, dd_address_space_root = 0, dd_authority = authority_NONE\<rparr>"

definition domain_slot_EMPTY :: domain_slot where
  "domain_slot_EMPTY = \<lparr>ds_occupied = False, ds_generation = 0, ds_execution_references = 0,
     ds_descriptor = descriptor_EMPTY\<rparr>"

record domain_registry =
  dr_kernel_root :: u64
  dr_slots :: "domain_slot list"
  dr_live :: nat

definition registry_new :: "nat \<Rightarrow> u64 \<Rightarrow> authority_error + domain_registry" where
  "registry_new capacity kernel_root =
     (if capacity = 0 \<or> capacity > 65536 then Err DomainCapacity
      else if \<not> valid_page_table_root kernel_root then Err InvalidAddressSpaceRoot
      else Ok \<lparr>dr_kernel_root = kernel_root, dr_slots = replicate capacity domain_slot_EMPTY, dr_live = 0\<rparr>)"

definition domain_register :: "domain_registry \<Rightarrow> domain_descriptor \<Rightarrow> (authority_error + domain_handle) \<times> domain_registry" where
  "domain_register r d =
     (case descriptor_validate d of Err e \<Rightarrow> (Err e, r) | Ok _ \<Rightarrow>
      if dd_address_space_root d = dr_kernel_root r
         \<or> list_ex (\<lambda>sl. ds_occupied sl \<and> dd_address_space_root (ds_descriptor sl) = dd_address_space_root d) (dr_slots r)
      then (Err SharedAddressSpace, r)
      else if dd_role d = NativeHardwareCell
         \<and> list_ex (\<lambda>sl. ds_occupied sl \<and> dd_role (ds_descriptor sl) = NativeHardwareCell
              \<and> conflicts_with (dd_authority (ds_descriptor sl)) (dd_authority d)) (dr_slots r)
      then (Err HardwareAuthorityConflict, r)
      else
        (case position (\<lambda>sl. \<not> ds_occupied sl \<and> ds_generation sl \<noteq> - 1) (dr_slots r) of
           None \<Rightarrow> (Err DomainCapacity, r)
         | Some index \<Rightarrow>
             (case checked_add (ds_generation (dr_slots r ! index)) 1 of
                None \<Rightarrow> (Err GenerationExhausted, r)
              | Some generation \<Rightarrow>
                  (Ok \<lparr>dh_slot = of_nat index, dh_generation = generation\<rparr>,
                   r\<lparr>dr_slots := (dr_slots r)[index := \<lparr>ds_occupied = True, ds_generation = generation,
                        ds_execution_references = 0, ds_descriptor = d\<rparr>],
                     dr_live := dr_live r + 1\<rparr>))))"

definition domain_slot_of :: "domain_registry \<Rightarrow> domain_handle \<Rightarrow> authority_error + domain_slot" where
  "domain_slot_of r h =
     (case get (dr_slots r) (unat (dh_slot h)) of
        None \<Rightarrow> Err StaleDomain
      | Some sl \<Rightarrow>
          if \<not> ds_occupied sl \<or> ds_generation sl \<noteq> dh_generation h then Err StaleDomain else Ok sl)"

definition registry_descriptor :: "domain_registry \<Rightarrow> domain_handle \<Rightarrow> authority_error + domain_descriptor" where
  "registry_descriptor r h = map_sum id ds_descriptor (domain_slot_of r h)"

definition set_domain_slot :: "domain_handle \<Rightarrow> domain_slot \<Rightarrow> domain_registry \<Rightarrow> domain_registry" where
  "set_domain_slot h sl r = r\<lparr>dr_slots := (dr_slots r)[unat (dh_slot h) := sl]\<rparr>"

definition domain_revoke :: "domain_registry \<Rightarrow> domain_handle \<Rightarrow> (authority_error + unit) \<times> domain_registry" where
  "domain_revoke r h =
     (case domain_slot_of r h of Err e \<Rightarrow> (Err e, r) | Ok sl \<Rightarrow>
      if ds_execution_references sl \<noteq> 0 then (Err DomainBusy, r)
      else (Ok (), (set_domain_slot h (sl\<lparr>ds_occupied := False, ds_descriptor := descriptor_EMPTY\<rparr>) r)
                     \<lparr>dr_live := dr_live r - 1\<rparr>))"

definition retain_execution :: "domain_registry \<Rightarrow> domain_handle \<Rightarrow> (authority_error + unit) \<times> domain_registry" where
  "retain_execution r h =
     (case domain_slot_of r h of Err e \<Rightarrow> (Err e, r) | Ok sl \<Rightarrow>
      if ds_execution_references sl \<noteq> 0 then (Err DomainBusy, r)
      else
        (case checked_add (ds_execution_references sl) 1 of
           None \<Rightarrow> (Err GenerationExhausted, r)
         | Some n \<Rightarrow> (Ok (), set_domain_slot h (sl\<lparr>ds_execution_references := n\<rparr>) r)))"

definition release_execution :: "domain_registry \<Rightarrow> domain_handle \<Rightarrow> (authority_error + unit) \<times> domain_registry" where
  "release_execution r h =
     (case domain_slot_of r h of Err e \<Rightarrow> (Err e, r) | Ok sl \<Rightarrow>
      (case checked_sub (ds_execution_references sl) 1 of
         None \<Rightarrow> (Err CorruptExecutionReference, r)
       | Some n \<Rightarrow> (Ok (), set_domain_slot h (sl\<lparr>ds_execution_references := n\<rparr>) r)))"

section \<open>The transition frontier\<close>

datatype active_execution = KernelActive | DomainActive domain_handle

record pending_transition =
  pd_sequence :: u64
  pd_target :: domain_handle
  pd_target_ring :: privilege_ring
  pd_address_space_root :: u64
  pd_gate :: transition_gate

record transition_lease =
  tl_cpu_id :: u32
  tl_cpu_generation :: u64
  tl_pending :: pending_transition

record committed_transition =
  ct_target :: domain_handle
  ct_target_ring :: privilege_ring
  ct_address_space_root :: u64
  ct_gate :: transition_gate
  ct_sequence :: u64

record kernel_invocation =
  ki_cpu_id :: u32
  ki_cpu_generation :: u64
  ki_caller :: domain_handle
  ki_entry_sequence :: u64

record frontier =
  fr_cpu_id :: u32
  fr_cpu_generation :: u64
  fr_kernel_root :: u64
  fr_sequence :: u64
  fr_active :: active_execution
  fr_pending :: "pending_transition option"
  fr_invocation :: "(domain_handle \<times> u64) option"

definition frontier_new :: "u32 \<Rightarrow> u64 \<Rightarrow> u64 \<Rightarrow> authority_error + frontier" where
  "frontier_new cpu_id cpu_generation kernel_root =
     (if cpu_generation = 0 then Err InvalidCpuGeneration
      else if \<not> valid_page_table_root kernel_root then Err InvalidAddressSpaceRoot
      else Ok \<lparr>fr_cpu_id = cpu_id, fr_cpu_generation = cpu_generation, fr_kernel_root = kernel_root,
              fr_sequence = 0, fr_active = KernelActive, fr_pending = None, fr_invocation = None\<rparr>)"

definition prepare :: "frontier \<Rightarrow> domain_registry \<Rightarrow> domain_handle \<Rightarrow> transition_gate
    \<Rightarrow> (authority_error + transition_lease) \<times> frontier \<times> domain_registry" where
  "prepare f r target gate =
     (if dr_kernel_root r \<noteq> fr_kernel_root f then (Err KernelAddressSpaceMismatch, f, r)
      else if fr_active f \<noteq> KernelActive then (Err KernelNotActive, f, r)
      else if fr_pending f \<noteq> None then (Err TransitionAlreadyPending, f, r)
      else
        (case registry_descriptor r target of Err e \<Rightarrow> (Err e, f, r) | Ok d \<Rightarrow>
         (let ring = role_ring (dd_role d) in
          if \<not> valid_dispatch_gate Kernel ring gate then (Err InvalidTransitionGate, f, r)
          else if dd_address_space_root d = fr_kernel_root f then (Err SharedAddressSpace, f, r)
          else
            (case checked_add (fr_sequence f) 1 of None \<Rightarrow> (Err GenerationExhausted, f, r) | Some n \<Rightarrow>
             (case retain_execution r target of
                (Err e, r') \<Rightarrow> (Err e, f, r')
              | (Ok _, r') \<Rightarrow>
                  (let p = \<lparr>pd_sequence = n, pd_target = target, pd_target_ring = ring,
                           pd_address_space_root = dd_address_space_root d, pd_gate = gate\<rparr> in
                   (Ok \<lparr>tl_cpu_id = fr_cpu_id f, tl_cpu_generation = fr_cpu_generation f, tl_pending = p\<rparr>,
                    f\<lparr>fr_sequence := n, fr_pending := Some p, fr_invocation := None\<rparr>, r')))))))"

definition commit :: "frontier \<Rightarrow> domain_registry \<Rightarrow> transition_lease \<Rightarrow> u64
    \<Rightarrow> (authority_error + committed_transition) \<times> frontier" where
  "commit f r lease observed =
     (let p = tl_pending lease in
      if tl_cpu_id lease \<noteq> fr_cpu_id f \<or> tl_cpu_generation lease \<noteq> fr_cpu_generation f then (Err WrongCpu, f)
      else if fr_pending f \<noteq> Some p then (Err StaleTransition, f)
      else
        (case registry_descriptor r (pd_target p) of Err e \<Rightarrow> (Err e, f) | Ok d \<Rightarrow>
         if dd_address_space_root d \<noteq> pd_address_space_root p \<or> role_ring (dd_role d) \<noteq> pd_target_ring p
         then (Err StaleDomain, f)
         else if observed \<noteq> fr_kernel_root f \<or> dr_kernel_root r \<noteq> fr_kernel_root f
         then (Err KernelAddressSpaceMismatch, f)
         else if \<not> valid_dispatch_gate Kernel (pd_target_ring p) (pd_gate p) then (Err InvalidTransitionGate, f)
         else
           (Ok \<lparr>ct_target = pd_target p, ct_target_ring = pd_target_ring p,
               ct_address_space_root = pd_address_space_root p, ct_gate = pd_gate p,
               ct_sequence = pd_sequence p\<rparr>,
            f\<lparr>fr_active := DomainActive (pd_target p), fr_pending := None\<rparr>)))"

definition abort :: "frontier \<Rightarrow> domain_registry \<Rightarrow> transition_lease
    \<Rightarrow> (authority_error + unit) \<times> frontier \<times> domain_registry" where
  "abort f r lease =
     (if tl_cpu_id lease \<noteq> fr_cpu_id f \<or> tl_cpu_generation lease \<noteq> fr_cpu_generation f then (Err WrongCpu, f, r)
      else if fr_pending f \<noteq> Some (tl_pending lease) then (Err StaleTransition, f, r)
      else
        (case release_execution r (pd_target (tl_pending lease)) of
           (Err e, r') \<Rightarrow> (Err e, f, r')
         | (Ok _, r') \<Rightarrow> (Ok (), f\<lparr>fr_pending := None\<rparr>, r')))"

definition enter_kernel :: "frontier \<Rightarrow> domain_registry \<Rightarrow> domain_handle \<Rightarrow> u64 \<Rightarrow> u64
    \<Rightarrow> (authority_error + kernel_invocation) \<times> frontier \<times> domain_registry" where
  "enter_kernel f r caller source_root installed_root =
     (if fr_pending f \<noteq> None then (Err TransitionAlreadyPending, f, r)
      else if fr_active f \<noteq> DomainActive caller then (Err UnexpectedCaller, f, r)
      else
        (case registry_descriptor r caller of Err e \<Rightarrow> (Err e, f, r) | Ok d \<Rightarrow>
         if dd_address_space_root d \<noteq> source_root then (Err SourceAddressSpaceMismatch, f, r)
         else if installed_root \<noteq> fr_kernel_root f \<or> dr_kernel_root r \<noteq> fr_kernel_root f
         then (Err KernelAddressSpaceMismatch, f, r)
         else
           (case checked_add (fr_sequence f) 1 of None \<Rightarrow> (Err GenerationExhausted, f, r) | Some n \<Rightarrow>
            (case release_execution r caller of
               (Err e, r') \<Rightarrow> (Err e, f, r')
             | (Ok _, r') \<Rightarrow>
                 (Ok \<lparr>ki_cpu_id = fr_cpu_id f, ki_cpu_generation = fr_cpu_generation f,
                     ki_caller = caller, ki_entry_sequence = n\<rparr>,
                  f\<lparr>fr_sequence := n, fr_active := KernelActive, fr_invocation := Some (caller, n)\<rparr>, r')))))"

definition validate_invocation :: "frontier \<Rightarrow> kernel_invocation \<Rightarrow> authority_error + unit" where
  "validate_invocation f i =
     (if ki_cpu_id i \<noteq> fr_cpu_id f \<or> ki_cpu_generation i \<noteq> fr_cpu_generation f then Err WrongCpu
      else if fr_active f \<noteq> KernelActive \<or> fr_pending f \<noteq> None
         \<or> fr_invocation f \<noteq> Some (ki_caller i, ki_entry_sequence i)
      then Err StaleInvocation
      else Ok ())"

section \<open>Hardware requests\<close>

definition authorized_caller :: "domain_registry \<Rightarrow> frontier \<Rightarrow> kernel_invocation \<Rightarrow> authority_error + domain_descriptor" where
  "authorized_caller r f i =
     (case validate_invocation f i of Err e \<Rightarrow> Err e | Ok _ \<Rightarrow> registry_descriptor r (ki_caller i))"

definition authorize_io :: "domain_registry \<Rightarrow> frontier \<Rightarrow> kernel_invocation \<Rightarrow> u16 \<Rightarrow> u8 \<Rightarrow> authority_error + unit" where
  "authorize_io r f i port byte_width =
     (case authorized_caller r f i of Err e \<Rightarrow> Err e | Ok d \<Rightarrow>
      if dd_role d \<noteq> NativeHardwareCell \<or> \<not> permits_io (dd_authority d) port byte_width
      then Err HardwareRequestDenied else Ok ())"

definition authorize_mmio :: "domain_registry \<Rightarrow> frontier \<Rightarrow> kernel_invocation \<Rightarrow> u64 \<Rightarrow> u64 \<Rightarrow> mmio_access \<Rightarrow> authority_error + unit" where
  "authorize_mmio r f i address len access =
     (case authorized_caller r f i of Err e \<Rightarrow> Err e | Ok d \<Rightarrow>
      if dd_role d \<noteq> NativeHardwareCell \<or> \<not> permits_mmio (dd_authority d) address len access
      then Err HardwareRequestDenied else Ok ())"

definition authorize_dma :: "domain_registry \<Rightarrow> frontier \<Rightarrow> kernel_invocation \<Rightarrow> u64 \<Rightarrow> u32 \<Rightarrow> u16 \<Rightarrow> authority_error + unit" where
  "authorize_dma r f i iommu_domain generation requester_id =
     (case authorized_caller r f i of Err e \<Rightarrow> Err e | Ok d \<Rightarrow>
      if dd_role d \<noteq> NativeHardwareCell \<or> \<not> permits_dma (dd_authority d) iommu_domain generation requester_id
      then Err HardwareRequestDenied else Ok ())"

section \<open>The system\<close>

record ring_system =
  rs_registry :: domain_registry
  rs_cpus :: "frontier list"

abbreviation set_cpu :: "nat \<Rightarrow> frontier \<Rightarrow> domain_registry \<Rightarrow> ring_system \<Rightarrow> ring_system" where
  "set_cpu c f r s \<equiv> s\<lparr>rs_registry := r, rs_cpus := (rs_cpus s)[c := f]\<rparr>"

inductive ring_step :: "ring_system \<Rightarrow> ring_system \<Rightarrow> bool" where
  register: "ring_step s (s\<lparr>rs_registry := snd (domain_register (rs_registry s) d)\<rparr>)"
| revoke: "ring_step s (s\<lparr>rs_registry := snd (domain_revoke (rs_registry s) h)\<rparr>)"
| prepare: "c < length (rs_cpus s) \<Longrightarrow> prepare (rs_cpus s ! c) (rs_registry s) target gate = (res, f, r)
    \<Longrightarrow> ring_step s (set_cpu c f r s)"
| commit: "c < length (rs_cpus s) \<Longrightarrow> commit (rs_cpus s ! c) (rs_registry s) lease observed = (res, f)
    \<Longrightarrow> ring_step s (set_cpu c f (rs_registry s) s)"
| abort: "c < length (rs_cpus s) \<Longrightarrow> abort (rs_cpus s ! c) (rs_registry s) lease = (res, f, r)
    \<Longrightarrow> ring_step s (set_cpu c f r s)"
| enter: "c < length (rs_cpus s) \<Longrightarrow> enter_kernel (rs_cpus s ! c) (rs_registry s) caller source_root installed = (res, f, r)
    \<Longrightarrow> ring_step s (set_cpu c f r s)"

text \<open>A freshly built registry with freshly built frontiers of distinct CPUs.\<close>

definition ring_initial :: "ring_system \<Rightarrow> bool" where
  "ring_initial s \<longleftrightarrow> (\<exists>capacity root. registry_new capacity root = Ok (rs_registry s))
     \<and> (\<forall>f \<in> set (rs_cpus s). \<exists>c g root. frontier_new c g root = Ok f)"

section \<open>Resolving handles\<close>

lemma domain_slot_of_Ok:
  "domain_slot_of r h = Ok sl \<longleftrightarrow> unat (dh_slot h) < length (dr_slots r) \<and> dr_slots r ! unat (dh_slot h) = sl
     \<and> ds_occupied sl \<and> ds_generation sl = dh_generation h"
  by (auto simp: domain_slot_of_def get_def)

lemma registry_descriptor_Ok:
  "registry_descriptor r h = Ok d \<longleftrightarrow> (\<exists>sl. domain_slot_of r h = Ok sl \<and> d = ds_descriptor sl)"
  by (auto simp: registry_descriptor_def elim: sum.map_cong split: sum.splits) (cases "domain_slot_of r h"; auto)+

lemma handle_eqI:
  "unat (dh_slot a) = unat (dh_slot b) \<Longrightarrow> dh_generation a = dh_generation b \<Longrightarrow> a = (b :: domain_handle)"
  by (simp add: word_unat_eq_iff[symmetric])

lemma same_slot_same_handle:
  "domain_slot_of r a = Ok x \<Longrightarrow> domain_slot_of r b = Ok y \<Longrightarrow> unat (dh_slot a) = unat (dh_slot b) \<Longrightarrow> a = b"
  by (auto simp: domain_slot_of_Ok intro: handle_eqI)

section \<open>Authorities do not overlap\<close>

lemma io_overlaps_sym: "io_overlaps a b = io_overlaps b a"
  by (auto simp: io_overlaps_def)

lemma mmio_overlaps_sym: "mmio_overlaps a b = mmio_overlaps b a"
  by (auto simp: mmio_overlaps_def)

lemma conflicts_with_sym: "conflicts_with a b = conflicts_with b a"
proof -
  have "conflicts_with a b \<Longrightarrow> conflicts_with b a" for a b
    unfolding conflicts_with_def list_ex_iff
    using io_overlaps_sym mmio_overlaps_sym by (fastforce split: option.splits)
  then show ?thesis by blast
qed

section \<open>Invariant\<close>

definition compatible :: "domain_descriptor \<Rightarrow> domain_descriptor \<Rightarrow> bool" where
  "compatible d e \<longleftrightarrow> dd_address_space_root d \<noteq> dd_address_space_root e
     \<and> (dd_role d = NativeHardwareCell \<and> dd_role e = NativeHardwareCell
        \<longrightarrow> \<not> conflicts_with (dd_authority d) (dd_authority e))"

lemma compatible_sym: "compatible d e = compatible e d"
  by (auto simp: compatible_def conflicts_with_sym)

definition domain_slot_ok :: "u64 \<Rightarrow> domain_slot \<Rightarrow> bool" where
  "domain_slot_ok kernel_root sl \<longleftrightarrow>
     (if ds_occupied sl
      then descriptor_validate (ds_descriptor sl) = Ok () \<and> dd_address_space_root (ds_descriptor sl) \<noteq> kernel_root
      else ds_execution_references sl = 0)"

definition registry_ok :: "domain_registry \<Rightarrow> bool" where
  "registry_ok r \<longleftrightarrow> length (dr_slots r) \<le> 65536
     \<and> (\<forall>i < length (dr_slots r). domain_slot_ok (dr_kernel_root r) (dr_slots r ! i))
     \<and> (\<forall>i < length (dr_slots r). \<forall>j < length (dr_slots r). i \<noteq> j \<longrightarrow> ds_occupied (dr_slots r ! i)
          \<longrightarrow> ds_occupied (dr_slots r ! j)
          \<longrightarrow> compatible (ds_descriptor (dr_slots r ! i)) (ds_descriptor (dr_slots r ! j)))
     \<and> dr_live r = length (filter ds_occupied (dr_slots r))"

definition holds :: "frontier \<Rightarrow> domain_handle \<Rightarrow> bool" where
  "holds f h \<longleftrightarrow> fr_active f = DomainActive h \<or> (\<exists>p. fr_pending f = Some p \<and> pd_target p = h)"

definition frontier_ok :: "domain_registry \<Rightarrow> frontier \<Rightarrow> bool" where
  "frontier_ok r f \<longleftrightarrow>
     (fr_pending f \<noteq> None \<longrightarrow> fr_active f = KernelActive)
     \<and> (\<forall>h. holds f h \<longrightarrow> (\<exists>sl. domain_slot_of r h = Ok sl \<and> ds_execution_references sl = 1))
     \<and> (\<forall>p. fr_pending f = Some p \<longrightarrow> (\<exists>sl. domain_slot_of r (pd_target p) = Ok sl
          \<and> pd_address_space_root p = dd_address_space_root (ds_descriptor sl)
          \<and> pd_target_ring p = role_ring (dd_role (ds_descriptor sl))
          \<and> valid_dispatch_gate Kernel (pd_target_ring p) (pd_gate p)))
     \<and> (\<forall>h e. fr_invocation f = Some (h, e) \<longrightarrow> e = fr_sequence f)"

definition exclusive :: "frontier list \<Rightarrow> bool" where
  "exclusive cpus \<longleftrightarrow> (\<forall>c < length cpus. \<forall>d < length cpus. \<forall>h.
     holds (cpus ! c) h \<longrightarrow> holds (cpus ! d) h \<longrightarrow> c = d)"

definition refs_held :: "domain_registry \<Rightarrow> frontier list \<Rightarrow> bool" where
  "refs_held r cpus \<longleftrightarrow> (\<forall>h sl. domain_slot_of r h = Ok sl \<longrightarrow> ds_execution_references sl \<noteq> 0
     \<longrightarrow> (\<exists>c < length cpus. holds (cpus ! c) h))"

definition ring_inv :: "ring_system \<Rightarrow> bool" where
  "ring_inv s \<longleftrightarrow> registry_ok (rs_registry s)
     \<and> (\<forall>c < length (rs_cpus s). frontier_ok (rs_registry s) (rs_cpus s ! c))
     \<and> exclusive (rs_cpus s) \<and> refs_held (rs_registry s) (rs_cpus s)"

lemma frontier_okD:
  assumes "frontier_ok r f"
  shows "fr_pending f \<noteq> None \<Longrightarrow> fr_active f = KernelActive"
    and "holds f h \<Longrightarrow> \<exists>sl. domain_slot_of r h = Ok sl \<and> ds_execution_references sl = 1"
  using assms by (auto simp: frontier_ok_def)

lemma frontier_ok_mono:
  assumes "frontier_ok r f" and "\<And>h. holds f h \<Longrightarrow> domain_slot_of r' h = domain_slot_of r h"
  shows "frontier_ok r' f"
proof -
  have t: "domain_slot_of r' (pd_target p) = domain_slot_of r (pd_target p)" if "fr_pending f = Some p" for p
    using that by (intro assms(2)) (auto simp: holds_def)
  show ?thesis
    unfolding frontier_ok_def
  proof (intro conjI allI impI, goal_cases)
    case 1 then show ?case using assms(1) by (simp add: frontier_ok_def)
  next
    case (2 h) then show ?case using assms(2)[OF 2] frontier_okD(2)[OF assms(1) 2] by simp
  next
    case (3 p) then show ?case unfolding t[OF 3] using assms(1) 3 unfolding frontier_ok_def by blast
  next
    case (4 h e) then show ?case using assms(1) unfolding frontier_ok_def by blast
  qed
qed

lemma domain_slot_of_set:
  assumes "domain_slot_of r h = Ok sl" and "ds_occupied x" and "ds_generation x = ds_generation sl"
  shows "domain_slot_of (set_domain_slot h x r) k = (if k = h then Ok x else domain_slot_of r k)"
proof (cases "unat (dh_slot k) = unat (dh_slot h)")
  case True
  have h: "unat (dh_slot h) < length (dr_slots r)" "dr_slots r ! unat (dh_slot h) = sl"
    "ds_generation sl = dh_generation h" using assms(1) by (simp_all add: domain_slot_of_Ok)
  have "k = h \<longleftrightarrow> dh_generation k = dh_generation h" using handle_eqI[OF True] by blast
  then show ?thesis using h assms(2,3) True
    by (simp add: set_domain_slot_def domain_slot_of_def get_def)
next
  case False
  then have "k \<noteq> h" by blast
  with False show ?thesis by (simp add: set_domain_slot_def domain_slot_of_def get_def)
qed

lemma registry_ok_refs:
  assumes "registry_ok r" and "domain_slot_of r h = Ok sl"
  shows "registry_ok (set_domain_slot h (sl\<lparr>ds_execution_references := n\<rparr>) r)"
proof -
  let ?x = "sl\<lparr>ds_execution_references := n\<rparr>" and ?i = "unat (dh_slot h)"
  have i: "?i < length (dr_slots r)" "dr_slots r ! ?i = sl" "ds_occupied sl" using assms(2) by (simp_all add: domain_slot_of_Ok)
  have occ: "ds_occupied ((dr_slots r)[?i := ?x] ! j) = ds_occupied (dr_slots r ! j)"
    and desc: "ds_descriptor ((dr_slots r)[?i := ?x] ! j) = ds_descriptor (dr_slots r ! j)" for j
    using i by (auto simp: nth_update)
  have "domain_slot_ok k ((dr_slots r)[?i := ?x] ! j) = domain_slot_ok k (dr_slots r ! j)" for j k
    using i by (auto simp: nth_update domain_slot_ok_def)
  moreover have "length (filter ds_occupied ((dr_slots r)[?i := ?x])) = length (filter ds_occupied (dr_slots r))"
    using length_filter_update[OF i(1), of ds_occupied ?x] i by simp
  ultimately show ?thesis
    using assms(1) by (simp add: registry_ok_def set_domain_slot_def occ desc)
qed

lemma registry_ok_register:
  assumes "registry_ok r" and "domain_register r d = (Ok h, r')"
  shows "registry_ok r'" and "dr_kernel_root r' = dr_kernel_root r"
    and "domain_slot_of r k = Ok sl \<Longrightarrow> domain_slot_of r' k = Ok sl"
    and "domain_slot_of r' k = Ok sl \<Longrightarrow> domain_slot_of r k = Ok sl \<or> ds_execution_references sl = 0"
proof -
  from assms(2) obtain i where v: "descriptor_validate d = Ok ()"
    and root: "dd_address_space_root d \<noteq> dr_kernel_root r"
    and fresh: "\<not> list_ex (\<lambda>sl. ds_occupied sl \<and> dd_address_space_root (ds_descriptor sl) = dd_address_space_root d) (dr_slots r)"
    and conf: "dd_role d = NativeHardwareCell \<Longrightarrow> \<not> list_ex (\<lambda>sl. ds_occupied sl \<and> dd_role (ds_descriptor sl) = NativeHardwareCell
              \<and> conflicts_with (dd_authority (ds_descriptor sl)) (dd_authority d)) (dr_slots r)"
    and i: "position (\<lambda>sl. \<not> ds_occupied sl \<and> ds_generation sl \<noteq> - 1) (dr_slots r) = Some i"
    and r': "r' = r\<lparr>dr_slots := (dr_slots r)[i := \<lparr>ds_occupied = True, ds_generation = ds_generation (dr_slots r ! i) + 1,
                        ds_execution_references = 0, ds_descriptor = d\<rparr>], dr_live := dr_live r + 1\<rparr>"
    unfolding domain_register_def checked_add_one by (auto split: sum.splits if_splits option.splits)
  let ?x = "\<lparr>ds_occupied = True, ds_generation = ds_generation (dr_slots r ! i) + 1,
                        ds_execution_references = 0, ds_descriptor = d\<rparr>"
  have pi: "i < length (dr_slots r)" "\<not> ds_occupied (dr_slots r ! i)" using position_SomeD[OF i] by auto
  have compat: "compatible (ds_descriptor (dr_slots r ! j)) d" if "j < length (dr_slots r)" "ds_occupied (dr_slots r ! j)" for j
    using fresh conf that by (auto simp: compatible_def list_ex_length)
  have len: "length (dr_slots r') = length (dr_slots r)" by (simp add: r')
  have nth: "dr_slots r' ! j = (if j = i then ?x else dr_slots r ! j)" for j using pi by (simp add: r' nth_update)
  have "length (filter ds_occupied (dr_slots r')) = Suc (length (filter ds_occupied (dr_slots r)))"
    using length_filter_update[OF pi(1), of ds_occupied ?x] pi by (simp add: r')
  moreover have "domain_slot_ok (dr_kernel_root r) ?x" using v root by (simp add: domain_slot_ok_def)
  ultimately show "registry_ok r'"
    using assms(1) compat compatible_sym unfolding registry_ok_def len nth
    by (simp add: r' split: if_splits)
  show "dr_kernel_root r' = dr_kernel_root r" by (simp add: r')
  show "domain_slot_of r' k = Ok sl" if "domain_slot_of r k = Ok sl"
    using that pi(2) by (auto simp: domain_slot_of_Ok len nth)
  show "domain_slot_of r k = Ok sl \<or> ds_execution_references sl = 0" if "domain_slot_of r' k = Ok sl"
    using that by (auto simp: domain_slot_of_Ok len nth split: if_splits)
qed

lemma domain_register_cases:
  obtains h r' where "domain_register r d = (Ok h, r')" | e where "domain_register r d = (Err e, r)"
proof -
  have "(\<exists>h r'. domain_register r d = (Ok h, r')) \<or> (\<exists>e. domain_register r d = (Err e, r))"
    by (auto simp: domain_register_def split: sum.split option.split)
  with that show thesis by blast
qed

lemma registry_ok_revoke:
  assumes "registry_ok r" and "domain_revoke r h = (Ok (), r')"
  shows "registry_ok r'" and "dr_kernel_root r' = dr_kernel_root r"
    and "\<exists>sl. domain_slot_of r h = Ok sl \<and> ds_execution_references sl = 0"
    and "domain_slot_of r' k = (if k = h then Err StaleDomain else domain_slot_of r k)"
proof -
  from assms(2) obtain sl where h: "domain_slot_of r h = Ok sl" "ds_execution_references sl = 0"
    and r': "r' = (set_domain_slot h (sl\<lparr>ds_occupied := False, ds_descriptor := descriptor_EMPTY\<rparr>) r)\<lparr>dr_live := dr_live r - 1\<rparr>"
    by (auto simp: domain_revoke_def split: sum.splits if_splits)
  let ?i = "unat (dh_slot h)" and ?x = "sl\<lparr>ds_occupied := False, ds_descriptor := descriptor_EMPTY\<rparr>"
  have i: "?i < length (dr_slots r)" "dr_slots r ! ?i = sl" "ds_occupied sl" "ds_generation sl = dh_generation h"
    using h(1) by (simp_all add: domain_slot_of_Ok)
  have len: "length (dr_slots r') = length (dr_slots r)" by (simp add: r' set_domain_slot_def)
  have nth: "dr_slots r' ! j = (if j = ?i then ?x else dr_slots r ! j)" for j
    using i by (simp add: r' set_domain_slot_def nth_update)
  have "Suc (length (filter ds_occupied (dr_slots r'))) = length (filter ds_occupied (dr_slots r))"
    using length_filter_update[OF i(1), of ds_occupied ?x] i by (simp add: r' set_domain_slot_def)
  moreover have "domain_slot_ok k ?x" for k using h(2) by (simp add: domain_slot_ok_def)
  ultimately show "registry_ok r'"
    using assms(1) unfolding registry_ok_def len nth by (auto simp: r' set_domain_slot_def)
  show "dr_kernel_root r' = dr_kernel_root r" by (simp add: r' set_domain_slot_def)
  show "\<exists>sl. domain_slot_of r h = Ok sl \<and> ds_execution_references sl = 0" using h by blast
  show "domain_slot_of r' k = (if k = h then Err StaleDomain else domain_slot_of r k)"
  proof (cases "unat (dh_slot k) = ?i")
    case True
    have "k = h \<longleftrightarrow> dh_generation k = dh_generation h" using handle_eqI[OF True] by blast
    then show ?thesis using i True by (simp add: domain_slot_of_def get_def len nth)
  next
    case False
    then have "k \<noteq> h" by blast
    with False show ?thesis by (simp add: domain_slot_of_def get_def len nth)
  qed
qed

lemma domain_revoke_cases:
  obtains r' where "domain_revoke r h = (Ok (), r')" | e where "domain_revoke r h = (Err e, r)"
proof -
  have "(\<exists>r'. domain_revoke r h = (Ok (), r')) \<or> (\<exists>e. domain_revoke r h = (Err e, r))"
    by (auto simp: domain_revoke_def split: sum.split)
  with that show thesis by blast
qed

lemma retain_execution_cases:
  obtains sl where "domain_slot_of r h = Ok sl" and "ds_execution_references sl = 0"
      and "retain_execution r h = (Ok (), set_domain_slot h (sl\<lparr>ds_execution_references := 1\<rparr>) r)"
  | e where "retain_execution r h = (Err e, r)"
proof (cases "domain_slot_of r h")
  case (Inl e)
  with that(2) show thesis by (simp add: retain_execution_def)
next
  case (Inr sl)
  then show thesis
    using that by (cases "ds_execution_references sl = 0") (simp_all add: retain_execution_def checked_add_one)
qed

lemma release_execution_held:
  assumes "domain_slot_of r h = Ok sl" and "ds_execution_references sl = 1"
  shows "release_execution r h = (Ok (), set_domain_slot h (sl\<lparr>ds_execution_references := 0\<rparr>) r)"
  using assms by (simp add: release_execution_def checked_sub_def)

section \<open>Every call keeps the invariant\<close>

lemma ring_invD:
  assumes "ring_inv s"
  shows "registry_ok (rs_registry s)"
    and "c < length (rs_cpus s) \<Longrightarrow> frontier_ok (rs_registry s) (rs_cpus s ! c)"
    and "exclusive (rs_cpus s)" and "refs_held (rs_registry s) (rs_cpus s)"
  using assms by (simp_all add: ring_inv_def)

lemma ring_inv_register:
  assumes "ring_inv s"
  shows "ring_inv (s\<lparr>rs_registry := snd (domain_register (rs_registry s) d)\<rparr>)"
proof (cases rule: domain_register_cases[of "rs_registry s" d])
  case (1 h r')
  note inv = ring_invD[OF assms] and reg = registry_ok_register[OF ring_invD(1)[OF assms] 1]
  have "frontier_ok r' (rs_cpus s ! c)" if "c < length (rs_cpus s)" for c
    using frontier_okD(2)[OF inv(2)[OF that]] reg(3) by (intro frontier_ok_mono[OF inv(2)[OF that]]) metis
  moreover have "refs_held r' (rs_cpus s)" using inv(4) reg(4) unfolding refs_held_def by blast
  ultimately show ?thesis using 1 reg(1) inv(3) by (simp add: ring_inv_def)
next
  case (2 e)
  with assms show ?thesis by simp
qed

lemma ring_inv_revoke:
  assumes "ring_inv s"
  shows "ring_inv (s\<lparr>rs_registry := snd (domain_revoke (rs_registry s) h)\<rparr>)"
proof (cases rule: domain_revoke_cases[of "rs_registry s" h])
  case (1 r')
  note inv = ring_invD[OF assms] and reg = registry_ok_revoke[OF ring_invD(1)[OF assms] 1]
  have "k \<noteq> h" if "c < length (rs_cpus s)" "holds (rs_cpus s ! c) k" for c k
    using frontier_okD(2)[OF inv(2)[OF that(1)] that(2)] reg(3) by auto
  then have "frontier_ok r' (rs_cpus s ! c)" if "c < length (rs_cpus s)" for c
    using that by (intro frontier_ok_mono[OF inv(2)[OF that]]) (auto simp: reg(4))
  moreover have "refs_held r' (rs_cpus s)" using inv(4) unfolding refs_held_def reg(4) by (auto split: if_splits)
  ultimately show ?thesis using 1 reg(1) inv(3) by (simp add: ring_inv_def)
next
  case (2 e)
  with assms show ?thesis by simp
qed

lemma exclusive_update:
  assumes "exclusive cpus" and "c < length cpus"
    and "\<And>d h. d < length cpus \<Longrightarrow> d \<noteq> c \<Longrightarrow> holds f h \<Longrightarrow> \<not> holds (cpus ! d) h"
  shows "exclusive (cpus[c := f])"
  unfolding exclusive_def
proof (intro allI impI)
  fix d e h
  assume de: "d < length (cpus[c := f])" "e < length (cpus[c := f])"
    and h: "holds (cpus[c := f] ! d) h" "holds (cpus[c := f] ! e) h"
  show "d = e"
  proof (cases "d = c \<or> e = c")
    case True
    then show ?thesis using assms(2,3) de h by (metis length_list_update nth_list_update_eq nth_list_update_neq)
  next
    case False
    then show ?thesis using assms(1) de h unfolding exclusive_def by simp
  qed
qed

lemma ring_inv_same:
  assumes "ring_inv s" and "c < length (rs_cpus s)" and "\<And>h. holds f h \<longleftrightarrow> holds (rs_cpus s ! c) h"
    and "frontier_ok (rs_registry s) f"
  shows "ring_inv (set_cpu c f (rs_registry s) s)"
proof -
  note inv = ring_invD[OF assms(1)]
  have h: "holds ((rs_cpus s)[c := f] ! d) h = holds (rs_cpus s ! d) h" for d h
    using assms(2,3) by (simp add: nth_update)
  have "refs_held (rs_registry s) ((rs_cpus s)[c := f])" "exclusive ((rs_cpus s)[c := f])"
    using inv(3,4) by (simp_all add: refs_held_def exclusive_def h)
  then show ?thesis using inv(1,2) assms(4) by (simp add: ring_inv_def nth_update)
qed

lemma ring_inv_acquire:
  assumes "ring_inv s" and "c < length (rs_cpus s)" and "\<And>h. \<not> holds (rs_cpus s ! c) h"
    and "domain_slot_of (rs_registry s) t = Ok sl" and "ds_execution_references sl = 0"
    and "\<And>h. holds f h \<longleftrightarrow> h = t"
    and "frontier_ok (set_domain_slot t (sl\<lparr>ds_execution_references := 1\<rparr>) (rs_registry s)) f"
  shows "ring_inv (set_cpu c f (set_domain_slot t (sl\<lparr>ds_execution_references := 1\<rparr>) (rs_registry s)) s)"
proof -
  note inv = ring_invD[OF assms(1)]
  let ?r = "set_domain_slot t (sl\<lparr>ds_execution_references := 1\<rparr>) (rs_registry s)"
  have occ: "ds_occupied sl" using assms(4) by (simp add: domain_slot_of_Ok)
  have look: "domain_slot_of ?r k = (if k = t then Ok (sl\<lparr>ds_execution_references := 1\<rparr>) else domain_slot_of (rs_registry s) k)" for k
    using occ by (intro domain_slot_of_set[OF assms(4)]) simp_all
  have not_t: "h \<noteq> t" if "d < length (rs_cpus s)" "holds (rs_cpus s ! d) h" for d h
    using frontier_okD(2)[OF inv(2)[OF that(1)] that(2)] assms(4,5) by auto
  have "frontier_ok ?r (rs_cpus s ! d)" if "d < length (rs_cpus s)" for d
    using not_t[OF that] by (intro frontier_ok_mono[OF inv(2)[OF that]]) (simp add: look)
  then have "\<forall>d < length (rs_cpus s). frontier_ok ?r ((rs_cpus s)[c := f] ! d)"
    using assms(7) by (simp add: nth_update)
  moreover have "exclusive ((rs_cpus s)[c := f])"
    using not_t assms(6) by (intro exclusive_update[OF inv(3) assms(2)]) blast
  moreover have "refs_held ?r ((rs_cpus s)[c := f])"
    unfolding refs_held_def
  proof (intro allI impI)
    fix h x assume x: "domain_slot_of ?r h = Ok x" "ds_execution_references x \<noteq> 0"
    show "\<exists>d < length ((rs_cpus s)[c := f]). holds ((rs_cpus s)[c := f] ! d) h"
    proof (cases "h = t")
      case True
      then show ?thesis using assms(2,6) by (intro exI[of _ c]) simp
    next
      case False
      then have "domain_slot_of (rs_registry s) h = Ok x" using x(1) by (simp add: look)
      with x(2) inv(4) obtain d where "d < length (rs_cpus s)" "holds (rs_cpus s ! d) h"
        unfolding refs_held_def by blast
      with assms(3) show ?thesis by (intro exI[of _ d]) (auto simp: nth_update)
    qed
  qed
  ultimately show ?thesis using registry_ok_refs[OF inv(1) assms(4)] by (simp add: ring_inv_def)
qed

lemma ring_inv_release:
  assumes "ring_inv s" and "c < length (rs_cpus s)" and "holds (rs_cpus s ! c) t"
    and "domain_slot_of (rs_registry s) t = Ok sl" and "\<And>h. \<not> holds f h"
    and "fr_pending f = None" and "\<And>h e. fr_invocation f = Some (h, e) \<Longrightarrow> e = fr_sequence f"
    and one: "\<And>h. holds (rs_cpus s ! c) h \<Longrightarrow> h = t"
  shows "ring_inv (set_cpu c f (set_domain_slot t (sl\<lparr>ds_execution_references := 0\<rparr>) (rs_registry s)) s)"
proof -
  note inv = ring_invD[OF assms(1)]
  let ?r = "set_domain_slot t (sl\<lparr>ds_execution_references := 0\<rparr>) (rs_registry s)"
  have occ: "ds_occupied sl" using assms(4) by (simp add: domain_slot_of_Ok)
  have look: "domain_slot_of ?r k = (if k = t then Ok (sl\<lparr>ds_execution_references := 0\<rparr>) else domain_slot_of (rs_registry s) k)" for k
    using occ by (intro domain_slot_of_set[OF assms(4)]) simp_all
  have not_t: "h \<noteq> t" if "d < length (rs_cpus s)" "d \<noteq> c" "holds (rs_cpus s ! d) h" for d h
    using inv(3) that assms(2,3) unfolding exclusive_def by blast
  have "frontier_ok ?r (rs_cpus s ! d)" if "d < length (rs_cpus s)" "d \<noteq> c" for d
    using not_t[OF that] by (intro frontier_ok_mono[OF inv(2)[OF that(1)]]) (simp add: look)
  moreover have "frontier_ok ?r f" using assms(5,6,7) by (simp add: frontier_ok_def)
  ultimately have "\<forall>d < length (rs_cpus s). frontier_ok ?r ((rs_cpus s)[c := f] ! d)" by (simp add: nth_update)
  moreover have "exclusive ((rs_cpus s)[c := f])"
    using assms(5) by (intro exclusive_update[OF inv(3) assms(2)]) blast
  moreover have "refs_held ?r ((rs_cpus s)[c := f])"
    unfolding refs_held_def
  proof (intro allI impI)
    fix h x assume x: "domain_slot_of ?r h = Ok x" "ds_execution_references x \<noteq> 0"
    then have h: "h \<noteq> t" "domain_slot_of (rs_registry s) h = Ok x" by (auto simp: look split: if_splits)
    with x(2) inv(4) obtain d where d: "d < length (rs_cpus s)" "holds (rs_cpus s ! d) h"
      unfolding refs_held_def by blast
    with h(1) one have "d \<noteq> c" by blast
    with d show "\<exists>d < length ((rs_cpus s)[c := f]). holds ((rs_cpus s)[c := f] ! d) h"
      by (intro exI[of _ d]) simp
  qed
  ultimately show ?thesis using registry_ok_refs[OF inv(1) assms(4)] by (simp add: ring_inv_def)
qed

lemma prepare_cases:
  obtains (granted) sl n lease p where "prepare f r target gate =
        (Ok lease, f\<lparr>fr_sequence := n, fr_pending := Some p, fr_invocation := None\<rparr>,
         set_domain_slot target (sl\<lparr>ds_execution_references := 1\<rparr>) r)"
      and "fr_active f = KernelActive" and "fr_pending f = None" and "n = fr_sequence f + 1" and "fr_sequence f \<noteq> - 1"
      and "domain_slot_of r target = Ok sl" and "ds_execution_references sl = 0"
      and "p = \<lparr>pd_sequence = n, pd_target = target, pd_target_ring = role_ring (dd_role (ds_descriptor sl)),
               pd_address_space_root = dd_address_space_root (ds_descriptor sl), pd_gate = gate\<rparr>"
      and "valid_dispatch_gate Kernel (role_ring (dd_role (ds_descriptor sl))) gate"
      and "lease = \<lparr>tl_cpu_id = fr_cpu_id f, tl_cpu_generation = fr_cpu_generation f, tl_pending = p\<rparr>"
      and "dd_address_space_root (ds_descriptor sl) \<noteq> fr_kernel_root f" and "dr_kernel_root r = fr_kernel_root f"
  | (refused) e where "prepare f r target gate = (Err e, f, r)"
proof (cases "dr_kernel_root r = fr_kernel_root f \<and> fr_active f = KernelActive \<and> fr_pending f = None")
  case True
  note t = True
  show thesis
  proof (cases "domain_slot_of r target")
    case (Inl e)
    with t refused show thesis by (simp add: prepare_def registry_descriptor_def)
  next
    case (Inr sl)
    let ?d = "ds_descriptor sl"
    have d: "registry_descriptor r target = Ok ?d" using Inr by (simp add: registry_descriptor_def)
    show thesis
    proof (cases "valid_dispatch_gate Kernel (role_ring (dd_role ?d)) gate \<and> dd_address_space_root ?d \<noteq> fr_kernel_root f
        \<and> fr_sequence f \<noteq> - 1")
      case False
      with t d have "\<exists>e. prepare f r target gate = (Err e, f, r)" by (auto simp: prepare_def Let_def checked_add_one)
      with refused show thesis by blast
    next
      case True
      show thesis
      proof (cases rule: retain_execution_cases[of r target])
        case (1 sl')
        with Inr have "sl' = sl" by simp
        with 1 True t d granted show thesis by (simp add: prepare_def Let_def checked_add_one)
      next
        case (2 e)
        with True t d refused show thesis by (simp add: prepare_def Let_def checked_add_one)
      qed
    qed
  qed
next
  case False
  then have "\<exists>e. prepare f r target gate = (Err e, f, r)" by (auto simp: prepare_def)
  with refused show thesis by blast
qed

lemma commit_cases:
  obtains (committed) p sl ct where "commit f r lease observed =
        (Ok ct, f\<lparr>fr_active := DomainActive (pd_target p), fr_pending := None\<rparr>)"
      and "fr_pending f = Some p" and "domain_slot_of r (pd_target p) = Ok sl"
      and "ct = \<lparr>ct_target = pd_target p, ct_target_ring = role_ring (dd_role (ds_descriptor sl)),
               ct_address_space_root = dd_address_space_root (ds_descriptor sl), ct_gate = pd_gate p,
               ct_sequence = pd_sequence p\<rparr>"
      and "valid_dispatch_gate Kernel (role_ring (dd_role (ds_descriptor sl))) (pd_gate p)"
      and "observed = fr_kernel_root f" and "dr_kernel_root r = fr_kernel_root f"
  | (refused) e where "commit f r lease observed = (Err e, f)"
proof (cases "tl_cpu_id lease = fr_cpu_id f \<and> tl_cpu_generation lease = fr_cpu_generation f
    \<and> fr_pending f = Some (tl_pending lease)")
  case True
  let ?p = "tl_pending lease"
  note t = True
  show thesis
  proof (cases "domain_slot_of r (pd_target ?p)")
    case (Inl e)
    with t refused show thesis by (simp add: commit_def registry_descriptor_def)
  next
    case (Inr sl)
    then have d: "registry_descriptor r (pd_target ?p) = Ok (ds_descriptor sl)" by (simp add: registry_descriptor_def)
    show thesis
    proof (cases "fst (commit f r lease observed)")
      case (Inl e)
      with t d have "commit f r lease observed = (Err e, f)"
        by (auto simp: commit_def Let_def split: if_splits)
      with refused show thesis by blast
    next
      case (Inr ct)
      with t d committed[of ct ?p sl] \<open>domain_slot_of r (pd_target ?p) = Ok sl\<close> show thesis
        by (auto simp: commit_def Let_def split: if_splits)
    qed
  qed
next
  case False
  then have "\<exists>e. commit f r lease observed = (Err e, f)" by (auto simp: commit_def Let_def)
  with refused show thesis by blast
qed

lemma set_cpu_same [simp]: "s\<lparr>rs_cpus := (rs_cpus s)[c := rs_cpus s ! c]\<rparr> = s"
  by simp

lemma ring_inv_prepare:
  assumes "ring_inv s" and "c < length (rs_cpus s)"
    and "prepare (rs_cpus s ! c) (rs_registry s) target gate = (res, f', r')"
  shows "ring_inv (set_cpu c f' r' s)"
proof (cases rule: prepare_cases[where f = "rs_cpus s ! c" and r = "rs_registry s" and target = target and gate = gate])
  case (granted sl n lease p)
  let ?f = "rs_cpus s ! c"
  have none: "\<not> holds ?f h" for h using granted(2,3) by (simp add: holds_def)
  have f': "f' = ?f\<lparr>fr_sequence := n, fr_pending := Some p, fr_invocation := None\<rparr>"
    and r': "r' = set_domain_slot target (sl\<lparr>ds_execution_references := 1\<rparr>) (rs_registry s)"
    using granted(1) assms(3) by simp_all
  have occ: "ds_occupied sl" using granted(6) by (simp add: domain_slot_of_Ok)
  have look: "domain_slot_of r' target = Ok (sl\<lparr>ds_execution_references := 1\<rparr>)"
    unfolding r' using occ by (subst domain_slot_of_set[OF granted(6)]) simp_all
  have hold: "holds f' h \<longleftrightarrow> h = target" for h using granted(2,8) by (auto simp: f' holds_def)
  have "frontier_ok r' f'"
    unfolding frontier_ok_def hold using look granted(2,8,9) by (simp add: f')
  then show ?thesis
    unfolding r' using hold none granted(6,7) by (intro ring_inv_acquire[OF assms(1,2)]) simp_all
next
  case (refused e)
  with assms(3) have "f' = rs_cpus s ! c" and "r' = rs_registry s" by simp_all
  with assms(1) show ?thesis by simp
qed

lemma ring_inv_commit:
  assumes "ring_inv s" and "c < length (rs_cpus s)"
    and "commit (rs_cpus s ! c) (rs_registry s) lease observed = (res, f')"
  shows "ring_inv (set_cpu c f' (rs_registry s) s)"
proof (cases rule: commit_cases[where f = "rs_cpus s ! c" and r = "rs_registry s" and lease = lease and observed = observed])
  case (committed p sl ct)
  let ?f = "rs_cpus s ! c"
  note ok = ring_invD(2)[OF assms(1,2)]
  have act: "fr_active ?f = KernelActive" using frontier_okD(1)[OF ok] committed(2) by simp
  have f': "f' = ?f\<lparr>fr_active := DomainActive (pd_target p), fr_pending := None\<rparr>" using committed(1) assms(3) by simp
  have hold: "holds f' h \<longleftrightarrow> holds ?f h" for h using committed(2) act by (auto simp: f' holds_def)
  have "frontier_ok (rs_registry s) f'"
    using ok unfolding frontier_ok_def hold by (simp add: f')
  with hold show ?thesis by (intro ring_inv_same[OF assms(1,2)])
next
  case (refused e)
  with assms(3) have "f' = rs_cpus s ! c" by simp
  with assms(1) show ?thesis by simp
qed

lemma frontier_held_unique:
  "frontier_ok r f \<Longrightarrow> holds f h \<Longrightarrow> holds f k \<Longrightarrow> k = h"
  using frontier_okD(1)[of r f] by (auto simp: holds_def)

lemma ring_inv_abort:
  assumes "ring_inv s" and "c < length (rs_cpus s)"
    and "abort (rs_cpus s ! c) (rs_registry s) lease = (res, f', r')"
  shows "ring_inv (set_cpu c f' r' s)"
proof (cases "tl_cpu_id lease = fr_cpu_id (rs_cpus s ! c) \<and> tl_cpu_generation lease = fr_cpu_generation (rs_cpus s ! c)
    \<and> fr_pending (rs_cpus s ! c) = Some (tl_pending lease)")
  case True
  let ?f = "rs_cpus s ! c" and ?t = "pd_target (tl_pending lease)"
  note ok = ring_invD(2)[OF assms(1,2)]
  have held: "holds ?f ?t" using True by (simp add: holds_def)
  from frontier_okD(2)[OF ok held] obtain sl where sl: "domain_slot_of (rs_registry s) ?t = Ok sl"
    "ds_execution_references sl = 1" by blast
  have act: "fr_active ?f = KernelActive" using frontier_okD(1)[OF ok] True by simp
  have f': "f' = ?f\<lparr>fr_pending := None\<rparr>" and
    r': "r' = set_domain_slot ?t (sl\<lparr>ds_execution_references := 0\<rparr>) (rs_registry s)"
    using assms(3) True release_execution_held[OF sl] by (simp_all add: abort_def)
  have "\<not> holds f' h" for h using act by (simp add: f' holds_def)
  moreover have "fr_invocation f' = Some (h, e) \<Longrightarrow> e = fr_sequence f'" for h e
    using ok by (simp add: f' frontier_ok_def)
  ultimately show ?thesis unfolding r' using frontier_held_unique[OF ok held]
    by (intro ring_inv_release[OF assms(1,2) held sl(1)]) (simp_all add: f')
next
  case False
  then have "f' = rs_cpus s ! c" "r' = rs_registry s" using assms(3) by (auto simp: abort_def split: if_splits)
  with assms(1) show ?thesis by simp
qed

lemma enter_kernel_cases:
  obtains (entered) d n where "registry_descriptor r caller = Ok d" and "fr_sequence f \<noteq> - 1"
      and "n = fr_sequence f + 1" and "fr_active f = DomainActive caller" and "fr_pending f = None"
      and "enter_kernel f r caller src inst =
        (case release_execution r caller of (Err e, r') \<Rightarrow> (Err e, f, r')
         | (Ok _, r') \<Rightarrow> (Ok \<lparr>ki_cpu_id = fr_cpu_id f, ki_cpu_generation = fr_cpu_generation f,
                     ki_caller = caller, ki_entry_sequence = n\<rparr>,
                  f\<lparr>fr_sequence := n, fr_active := KernelActive, fr_invocation := Some (caller, n)\<rparr>, r'))"
  | (refused) e where "enter_kernel f r caller src inst = (Err e, f, r)"
proof (cases "fr_pending f = None \<and> fr_active f = DomainActive caller \<and> fr_sequence f \<noteq> - 1
    \<and> (\<exists>d. registry_descriptor r caller = Ok d \<and> dd_address_space_root d = src)
    \<and> inst = fr_kernel_root f \<and> dr_kernel_root r = fr_kernel_root f")
  case True
  then obtain d where "registry_descriptor r caller = Ok d" "dd_address_space_root d = src" by blast
  with True entered[of d "fr_sequence f + 1"] show thesis by (simp add: enter_kernel_def checked_add_one)
next
  case False
  then have "\<exists>e. enter_kernel f r caller src inst = (Err e, f, r)"
    by (auto simp: enter_kernel_def checked_add_one split: sum.split)
  with refused show thesis by blast
qed

lemma ring_inv_enter:
  assumes "ring_inv s" and "c < length (rs_cpus s)"
    and "enter_kernel (rs_cpus s ! c) (rs_registry s) caller src inst = (res, f', r')"
  shows "ring_inv (set_cpu c f' r' s)"
proof (cases rule: enter_kernel_cases[where f = "rs_cpus s ! c" and r = "rs_registry s" and caller = caller and src = src and inst = inst])
  case (entered d n)
  let ?f = "rs_cpus s ! c"
  note ok = ring_invD(2)[OF assms(1,2)]
  have held: "holds ?f caller" using entered(4) by (simp add: holds_def)
  from frontier_okD(2)[OF ok held] obtain sl where sl: "domain_slot_of (rs_registry s) caller = Ok sl"
    "ds_execution_references sl = 1" by blast
  have f': "f' = ?f\<lparr>fr_sequence := n, fr_active := KernelActive, fr_invocation := Some (caller, n)\<rparr>" and
    r': "r' = set_domain_slot caller (sl\<lparr>ds_execution_references := 0\<rparr>) (rs_registry s)"
    using assms(3) entered(6) release_execution_held[OF sl] by simp_all
  show ?thesis unfolding r' using frontier_held_unique[OF ok held] entered(5)
    by (intro ring_inv_release[OF assms(1,2) held sl(1)]) (simp_all add: f' holds_def)
next
  case (refused e)
  with assms(3) have "f' = rs_cpus s ! c" and "r' = rs_registry s" by simp_all
  with assms(1) show ?thesis by simp
qed

lemma ring_inv_step: "ring_inv s \<Longrightarrow> ring_step s t \<Longrightarrow> ring_inv t"
  by (erule ring_step.cases; blast intro: ring_inv_register ring_inv_revoke
    ring_inv_prepare ring_inv_commit ring_inv_abort ring_inv_enter)

lemma ring_inv_initial: "ring_initial s \<Longrightarrow> ring_inv s"
proof -
  assume init: "ring_initial s"
  then obtain n root where "registry_new n root = Ok (rs_registry s)" by (auto simp: ring_initial_def)
  then have r: "rs_registry s = \<lparr>dr_kernel_root = root, dr_slots = replicate n domain_slot_EMPTY, dr_live = 0\<rparr>" "n \<le> 65536"
    by (auto simp: registry_new_def split: if_splits)
  have f: "fr_active f = KernelActive \<and> fr_pending f = None \<and> fr_invocation f = None" if "f \<in> set (rs_cpus s)" for f
    using init that by (fastforce simp: ring_initial_def frontier_new_def split: if_splits)
  then have none: "\<not> holds (rs_cpus s ! c) h" if "c < length (rs_cpus s)" for c h using that by (simp add: holds_def)
  have "registry_ok (rs_registry s)"
    using r(2) by (simp add: r(1) registry_ok_def domain_slot_ok_def domain_slot_EMPTY_def)
  moreover have "frontier_ok (rs_registry s) (rs_cpus s ! c)" if "c < length (rs_cpus s)" for c
    using none[OF that] f[OF nth_mem[OF that]] by (simp add: frontier_ok_def)
  moreover have "refs_held (rs_registry s) (rs_cpus s)"
    by (auto simp: refs_held_def domain_slot_of_Ok r(1) domain_slot_EMPTY_def)
  ultimately show ?thesis using none by (auto simp: ring_inv_def exclusive_def)
qed

interpretation ring: invariant_system ring_initial ring_step ring_inv
  by unfold_locales (auto intro: ring_inv_initial ring_inv_step)

section \<open>Ranges of ports and addresses\<close>

lemma io_contains_touched:
  fixes x :: u16
  assumes "io_contains r p w" and "unat p \<le> unat x" and "unat x < unat p + unat w"
  shows "io_first r \<le> x \<and> x \<le> io_last r"
proof -
  have w: "w = 1 \<or> w = 2 \<or> w = 4" using assms(1) by (auto simp: io_contains_def split: if_splits)
  obtain final where f: "checked_add p (ucast w - 1) = Some final" "io_first r \<le> p" "final \<le> io_last r"
    using assms(1) by (auto simp: io_contains_def split: if_splits option.splits)
  have "unat (ucast w - 1 :: u16) = unat w - 1" using w by auto
  then have "unat final = unat p + (unat w - 1)" using checked_add_SomeD(1)[OF f(1)] by simp
  with assms(2,3) have "p \<le> x" "x \<le> final" by (simp_all add: word_le_nat_alt)
  with f show ?thesis by auto
qed

lemma mmio_contains_touched:
  assumes "mmio_contains r p m access" and "unat p \<le> unat x" and "unat x < unat p + unat m"
  shows "mm_base r \<le> x \<and> x < mmio_end r"
proof -
  obtain e where f: "checked_add p m = Some e" "mm_base r \<le> p" "e \<le> mmio_end r"
    using assms(1) by (auto simp: mmio_contains_def split: if_splits option.splits)
  have "unat e = unat p + unat m" by (rule checked_add_SomeD(1)[OF f(1)])
  with assms(2,3) have "p \<le> x" "x < e" by (simp_all add: word_le_nat_alt word_less_nat_alt)
  with f show ?thesis by auto
qed

lemma no_conflict_ports:
  fixes x :: u16
  assumes "\<not> conflicts_with a b" and "permits_io a p w" and "permits_io b q v"
    and "unat p \<le> unat x" and "unat x < unat p + unat w" and "unat q \<le> unat x" and "unat x < unat q + unat v"
  shows False
proof -
  obtain r s where rs: "r \<in> set (flatten (ha_io_ports a))" "s \<in> set (flatten (ha_io_ports b))"
    "io_contains r p w" "io_contains s q v" using assms(2,3) by (auto simp: permits_io_def list_ex_iff)
  have "io_overlaps r s"
    using io_contains_touched[OF rs(3) assms(4,5)] io_contains_touched[OF rs(4) assms(6,7)]
    unfolding io_overlaps_def by (meson order_trans)
  with rs assms(1) show False unfolding conflicts_with_def list_ex_iff by blast
qed

lemma no_conflict_addresses:
  fixes x :: u64
  assumes "\<not> conflicts_with a b" and "permits_mmio a p w ac" and "permits_mmio b q v bc"
    and "unat p \<le> unat x" and "unat x < unat p + unat w" and "unat q \<le> unat x" and "unat x < unat q + unat v"
  shows False
proof -
  obtain r s where rs: "r \<in> set (flatten (ha_mmio a))" "s \<in> set (flatten (ha_mmio b))"
    "mmio_contains r p w ac" "mmio_contains s q v bc" using assms(2,3) by (auto simp: permits_mmio_def list_ex_iff)
  have "mmio_overlaps r s"
    using mmio_contains_touched[OF rs(3) assms(4,5)] mmio_contains_touched[OF rs(4) assms(6,7)]
    unfolding mmio_overlaps_def by (meson order.strict_trans1)
  with rs assms(1) show False unfolding conflicts_with_def list_ex_iff by blast
qed

lemma no_conflict_requester: "\<not> conflicts_with a b \<Longrightarrow> \<not> (permits_dma a k g rid \<and> permits_dma b l j rid)"
  by (auto simp: conflicts_with_def permits_dma_def split: option.splits)

section \<open>Generations of a domain slot\<close>

definition domain_valid :: "ring_system \<Rightarrow> nat \<Rightarrow> nat \<Rightarrow> bool" where
  "domain_valid s i g \<longleftrightarrow> i < length (dr_slots (rs_registry s)) \<and> ds_occupied (dr_slots (rs_registry s) ! i)
     \<and> unat (ds_generation (dr_slots (rs_registry s) ! i)) = g"

definition domain_bound :: "ring_system \<Rightarrow> nat \<Rightarrow> nat" where
  "domain_bound s i = (if i < length (dr_slots (rs_registry s)) then Suc (unat (ds_generation (dr_slots (rs_registry s) ! i))) else 0)"

definition registry_move :: "domain_registry \<Rightarrow> domain_registry \<Rightarrow> bool" where
  "registry_move r r' \<longleftrightarrow> length (dr_slots r') = length (dr_slots r) \<and> (\<forall>i < length (dr_slots r).
     let x = dr_slots r ! i; y = dr_slots r' ! i in
       ds_generation y = ds_generation x \<and> (ds_occupied y \<longrightarrow> ds_occupied x)
       \<or> \<not> ds_occupied x \<and> ds_occupied y \<and> ds_generation x \<noteq> - 1 \<and> ds_generation y = ds_generation x + 1)"

lemma registry_move_refl [simp]: "registry_move r r"
  by (simp add: registry_move_def)

lemma registry_move_refs:
  assumes "domain_slot_of r h = Ok sl"
  shows "registry_move r (set_domain_slot h (sl\<lparr>ds_execution_references := n\<rparr>) r)"
  using assms by (auto simp: registry_move_def set_domain_slot_def nth_update domain_slot_of_Ok Let_def)

lemma registry_move_register: "registry_move r (snd (domain_register r d))"
proof (cases rule: domain_register_cases[of r d])
  case (1 h r')
  then obtain i where i: "i < length (dr_slots r)" "\<not> ds_occupied (dr_slots r ! i)" "ds_generation (dr_slots r ! i) \<noteq> - 1"
    and r': "dr_slots r' = (dr_slots r)[i := \<lparr>ds_occupied = True, ds_generation = ds_generation (dr_slots r ! i) + 1,
                 ds_execution_references = 0, ds_descriptor = d\<rparr>]"
    by (auto simp: domain_register_def checked_add_one split: sum.splits if_splits option.splits dest!: position_SomeD)
  then show ?thesis by (auto simp: 1 registry_move_def nth_update Let_def)
qed simp

lemma registry_move_revoke: "registry_move r (snd (domain_revoke r h))"
proof (cases rule: domain_revoke_cases[of r h])
  case (1 r')
  then obtain sl where "domain_slot_of r h = Ok sl"
    "r' = (set_domain_slot h (sl\<lparr>ds_occupied := False, ds_descriptor := descriptor_EMPTY\<rparr>) r)\<lparr>dr_live := dr_live r - 1\<rparr>"
    by (auto simp: domain_revoke_def split: sum.splits if_splits)
  then show ?thesis by (auto simp: 1 registry_move_def set_domain_slot_def nth_update domain_slot_of_Ok Let_def)
qed simp

lemma registry_move_release: "release_execution r h = (res, r') \<Longrightarrow> registry_move r r'"
  by (auto simp: release_execution_def registry_move_refs split: sum.splits option.splits)

lemma registry_move_prepare: "prepare f r target gate = (res, f', r') \<Longrightarrow> registry_move r r'"
  by (rule prepare_cases[of f r target gate]) (auto simp: registry_move_refs)

lemma registry_move_abort: "abort f r lease = (res, f', r') \<Longrightarrow> registry_move r r'"
  by (auto simp: abort_def split: if_splits prod.splits sum.splits dest: registry_move_release)

lemma registry_move_enter: "enter_kernel f r caller src inst = (res, f', r') \<Longrightarrow> registry_move r r'"
  by (rule enter_kernel_cases[of r caller f src inst])
    (auto split: prod.splits sum.splits dest: registry_move_release)

lemma ring_step_move: "ring_step s t \<Longrightarrow> registry_move (rs_registry s) (rs_registry t)"
  by (induction rule: ring_step.induct)
    (auto intro: registry_move_register registry_move_revoke registry_move_prepare registry_move_abort registry_move_enter)

lemma registry_moveD:
  assumes "registry_move r r'" and "i < length (dr_slots r)"
  shows "i < length (dr_slots r')"
    and "ds_generation (dr_slots r' ! i) = ds_generation (dr_slots r ! i) \<and> (ds_occupied (dr_slots r' ! i) \<longrightarrow> ds_occupied (dr_slots r ! i))
      \<or> \<not> ds_occupied (dr_slots r ! i) \<and> unat (ds_generation (dr_slots r' ! i)) = Suc (unat (ds_generation (dr_slots r ! i)))"
proof -
  have "unat (x + 1) = Suc (unat x)" if "x \<noteq> - 1" for x :: u32
    using that by (rule unat_Suc_le)
  with assms show "i < length (dr_slots r')"
    and "ds_generation (dr_slots r' ! i) = ds_generation (dr_slots r ! i) \<and> (ds_occupied (dr_slots r' ! i) \<longrightarrow> ds_occupied (dr_slots r ! i))
      \<or> \<not> ds_occupied (dr_slots r ! i) \<and> unat (ds_generation (dr_slots r' ! i)) = Suc (unat (ds_generation (dr_slots r ! i)))"
    by (auto simp: registry_move_def Let_def)
qed

interpretation domains: generation_ledger ring_initial ring_step ring_inv domain_valid domain_bound
proof (unfold_locales, goal_cases)
  case (1 s i g)
  then show ?case by (auto simp: domain_valid_def domain_bound_def)
next
  case (2 s t i)
  then show ?case using registry_moveD[OF ring_step_move[OF 2(2)], of i] by (auto simp: domain_bound_def)
next
  case (3 s t i g)
  have "length (dr_slots (rs_registry t)) = length (dr_slots (rs_registry s))"
    using ring_step_move[OF 3(2)] by (simp add: registry_move_def)
  with 3(3,4) registry_moveD(2)[OF ring_step_move[OF 3(2)], of i] show ?case
    by (auto simp: domain_valid_def domain_bound_def)
qed

section \<open>Properties\<close>

lemma registry_ok_compatible:
  assumes "registry_ok r" and "registry_descriptor r h = Ok d" and "registry_descriptor r k = Ok e" and "h \<noteq> k"
  shows "compatible d e"
proof -
  from assms(2,3) obtain x y where x: "domain_slot_of r h = Ok x" "d = ds_descriptor x"
    and y: "domain_slot_of r k = Ok y" "e = ds_descriptor y" by (auto simp: registry_descriptor_Ok)
  have "unat (dh_slot h) \<noteq> unat (dh_slot k)" using same_slot_same_handle[OF x(1) y(1)] assms(4) by blast
  then show ?thesis using assms(1) x y unfolding registry_ok_def by (auto simp: domain_slot_of_Ok)
qed

lemma authorize_Ok:
  "authorize_io r f i p w = Ok () \<longleftrightarrow> validate_invocation f i = Ok () \<and>
     (\<exists>d. registry_descriptor r (ki_caller i) = Ok d \<and> dd_role d = NativeHardwareCell \<and> permits_io (dd_authority d) p w)"
  "authorize_mmio r f i a n m = Ok () \<longleftrightarrow> validate_invocation f i = Ok () \<and>
     (\<exists>d. registry_descriptor r (ki_caller i) = Ok d \<and> dd_role d = NativeHardwareCell \<and> permits_mmio (dd_authority d) a n m)"
  "authorize_dma r f i k g q = Ok () \<longleftrightarrow> validate_invocation f i = Ok () \<and>
     (\<exists>d. registry_descriptor r (ki_caller i) = Ok d \<and> dd_role d = NativeHardwareCell \<and> permits_dma (dd_authority d) k g q)"
  by (auto simp: authorize_io_def authorize_mmio_def authorize_dma_def authorized_caller_def split: sum.split)

lemma hardware_cells_exclusive:
  assumes "registry_ok r" and "registry_descriptor r h = Ok d" and "registry_descriptor r k = Ok e"
    and "dd_role d = NativeHardwareCell" and "dd_role e = NativeHardwareCell" and "conflicts_with (dd_authority d) (dd_authority e)"
  shows "h = k"
  using registry_ok_compatible[OF assms(1-3)] assms(4-6) by (auto simp: compatible_def)

text \<open>
  C5 (safety). No two domains ever hold the same piece of hardware. In every reachable state, if two
  hardware requests are authorised, on any frontiers, and they touch a common I/O port, a
  common MMIO byte, or use the same DMA requester, then the same domain made both.
\<close>

theorem hardware_grants_exclusive:
  fixes port :: u16 and byte :: u64
  assumes "ring_initial s0" and "ring_step\<^sup>*\<^sup>* s0 s" and "r = rs_registry s"
  shows "(authorize_io r f i p w = Ok () \<and> authorize_io r g j q v = Ok ()
            \<and> unat p \<le> unat port \<and> unat port < unat p + unat w \<and> unat q \<le> unat port \<and> unat port < unat q + unat v
          \<longrightarrow> ki_caller i = ki_caller j)
       \<and> (authorize_mmio r f i a m ac = Ok () \<and> authorize_mmio r g j b n bc = Ok ()
            \<and> unat a \<le> unat byte \<and> unat byte < unat a + unat m \<and> unat b \<le> unat byte \<and> unat byte < unat b + unat n
          \<longrightarrow> ki_caller i = ki_caller j)
       \<and> (authorize_dma r f i d1 g1 requester = Ok () \<and> authorize_dma r g j d2 g2 requester = Ok ()
          \<longrightarrow> ki_caller i = ki_caller j)"
proof -
  have ok: "registry_ok r" using ring_invD(1)[OF ring.inv_reachable[OF assms(1,2)]] assms(3) by simp
  show ?thesis unfolding authorize_Ok
    by (intro conjI impI; elim conjE exE; rule hardware_cells_exclusive[OF ok]; (assumption |
      (rule ccontr, erule (6) no_conflict_ports no_conflict_addresses) | (rule ccontr, drule no_conflict_requester, blast)))
qed

text \<open>
  C8 (safety). A domain runs on at most one CPU, and never outlives its registration. While a CPU has
  a domain pending or active, no other CPU has it, its handle resolves, revoking it is refused
  as busy with the registry untouched, and every further dispatch of it is refused.
\<close>

theorem domain_execution_exclusive:
  assumes "ring_initial s0" and "ring_step\<^sup>*\<^sup>* s0 s" and "c < length (rs_cpus s)" and "holds (rs_cpus s ! c) h"
  shows "(\<forall>d. d < length (rs_cpus s) \<and> holds (rs_cpus s ! d) h \<longrightarrow> d = c)
    \<and> (\<exists>desc. registry_descriptor (rs_registry s) h = Ok desc)
    \<and> domain_revoke (rs_registry s) h = (Err DomainBusy, rs_registry s)
    \<and> (\<forall>f gate. \<exists>e. prepare f (rs_registry s) h gate = (Err e, f, rs_registry s))"
proof -
  note inv = ring.inv_reachable[OF assms(1,2)]
  from frontier_okD(2)[OF ring_invD(2)[OF inv assms(3)] assms(4)] obtain sl
    where sl: "domain_slot_of (rs_registry s) h = Ok sl" "ds_execution_references sl = 1" by blast
  have "\<exists>e. prepare f (rs_registry s) h gate = (Err e, f, rs_registry s)" for f gate
    by (rule prepare_cases[of f "rs_registry s" h gate]) (use sl in auto)
  then show ?thesis using ring_invD(3)[OF inv] assms(3,4) sl
    by (auto simp: exclusive_def registry_descriptor_Ok domain_revoke_def)
qed

text \<open>
  C11 (roundtrip). A dispatch reaches exactly the prepared domain and is undone exactly. Once \<open>prepare\<close>
  has granted a lease, committing it under the kernel's page table succeeds and installs the
  live domain's own root, which is never the kernel's, at the ring of its role, never the
  kernel ring, and with \<open>sysretq\<close> only for a user process. Aborting the lease restores the
  registry, and so does the domain's return to the kernel, whose invocation is then valid.
\<close>

theorem dispatch_round_trip:
  assumes "ring_initial s0" and "ring_step\<^sup>*\<^sup>* s0 s" and "c < length (rs_cpus s)"
    and "f = rs_cpus s ! c" and "r = rs_registry s" and "prepare f r target gate = (Ok lease, f1, r1)"
  shows "\<exists>d ct f2. registry_descriptor r target = Ok d
    \<and> commit f1 r1 lease (fr_kernel_root f) = (Ok ct, f2)
    \<and> ct_target ct = target \<and> ct_address_space_root ct = dd_address_space_root d
    \<and> ct_address_space_root ct \<noteq> fr_kernel_root f
    \<and> ct_target_ring ct = role_ring (dd_role d) \<and> ct_target_ring ct \<noteq> Kernel
    \<and> ct_gate ct = gate \<and> (gate = Sysretq \<longrightarrow> dd_role d = UserProcess)
    \<and> fr_active f2 = DomainActive target
    \<and> abort f1 r1 lease = (Ok (), f1\<lparr>fr_pending := None\<rparr>, r)
    \<and> (fr_sequence f2 \<noteq> - 1 \<longrightarrow> (\<exists>inv f3.
          enter_kernel f2 r1 target (dd_address_space_root d) (fr_kernel_root f) = (Ok inv, f3, r)
          \<and> validate_invocation f3 inv = Ok () \<and> ki_caller inv = target))"
proof (rule prepare_cases[of f r target gate])
  fix e assume "prepare f r target gate = (Err e, f, r)"
  with assms(6) show ?thesis by simp
next
  fix sl n l p
  assume a: "prepare f r target gate = (Ok l, f\<lparr>fr_sequence := n, fr_pending := Some p, fr_invocation := None\<rparr>,
      set_domain_slot target (sl\<lparr>ds_execution_references := 1\<rparr>) r)" "domain_slot_of r target = Ok sl"
      "ds_execution_references sl = 0"
    and p: "p = \<lparr>pd_sequence = n, pd_target = target, pd_target_ring = role_ring (dd_role (ds_descriptor sl)),
               pd_address_space_root = dd_address_space_root (ds_descriptor sl), pd_gate = gate\<rparr>"
    and g: "valid_dispatch_gate Kernel (role_ring (dd_role (ds_descriptor sl))) gate"
    and l: "l = \<lparr>tl_cpu_id = fr_cpu_id f, tl_cpu_generation = fr_cpu_generation f, tl_pending = p\<rparr>"
    and root: "dd_address_space_root (ds_descriptor sl) \<noteq> fr_kernel_root f" "dr_kernel_root r = fr_kernel_root f"
  have occ: "ds_occupied sl" using a(2) by (simp add: domain_slot_of_Ok)
  have eqs: "lease = l" "f1 = f\<lparr>fr_sequence := n, fr_pending := Some p, fr_invocation := None\<rparr>"
    "r1 = set_domain_slot target (sl\<lparr>ds_execution_references := 1\<rparr>) r" using a(1) assms(6) by simp_all
  have look: "domain_slot_of r1 target = Ok (sl\<lparr>ds_execution_references := 1\<rparr>)"
    unfolding eqs using occ by (subst domain_slot_of_set[OF a(2)]) simp_all
  have same: "sl\<lparr>ds_execution_references := 0\<rparr> = sl" using a(3) by (cases sl) simp
  have "(dr_slots r)[unat (dh_slot target) := sl] = dr_slots r" using a(2) by (auto simp: domain_slot_of_Ok)
  then have undo: "release_execution r1 target = (Ok (), r)"
    using release_execution_held[OF look] by (simp add: eqs same set_domain_slot_def)
  have desc: "registry_descriptor r target = Ok (ds_descriptor sl)" "registry_descriptor r1 target = Ok (ds_descriptor sl)"
    using a(2) look by (simp_all add: registry_descriptor_def)
  show ?thesis
    using desc g root undo by (cases "dd_role (ds_descriptor sl)"; cases gate)
      (simp_all add: eqs l p commit_def abort_def enter_kernel_def validate_invocation_def Let_def set_domain_slot_def checked_add_one
        valid_dispatch_gate_def)
qed

lemma release_execution_sequence: "enter_kernel f r caller src inst = (res, f', r') \<Longrightarrow> fr_sequence f \<le> fr_sequence f'"
  by (rule enter_kernel_cases[of r caller f src inst]) (auto simp: word_le_add_one split: prod.splits sum.splits)

lemma prepare_sequence: "prepare f r target gate = (res, f', r') \<Longrightarrow> fr_sequence f \<le> fr_sequence f'"
  by (rule prepare_cases[of f r target gate]) (auto simp: word_le_add_one)

lemma commit_sequence: "commit f r lease observed = (res, f') \<Longrightarrow> fr_sequence f' = fr_sequence f"
  by (rule commit_cases[of f r lease observed]) auto

lemma abort_sequence: "abort f r lease = (res, f', r') \<Longrightarrow> fr_sequence f' = fr_sequence f"
  by (auto simp: abort_def split: if_splits prod.splits sum.splits)

lemma ring_step_sequence:
  "ring_step s t \<Longrightarrow> length (rs_cpus t) = length (rs_cpus s) \<and> fr_sequence (rs_cpus s ! c) \<le> fr_sequence (rs_cpus t ! c)"
  by (induction rule: ring_step.induct)
    (auto simp: nth_update dest: prepare_sequence commit_sequence abort_sequence release_execution_sequence)

lemma ring_steps_sequence:
  "ring_step\<^sup>*\<^sup>* s t \<Longrightarrow> length (rs_cpus t) = length (rs_cpus s) \<and> fr_sequence (rs_cpus s ! c) \<le> fr_sequence (rs_cpus t ! c)"
  by (induction rule: rtranclp_induct) (auto dest: ring_step_sequence[of _ _ c] intro: order_trans)

text \<open>
  A kernel invocation expires with the next dispatch. Once a CPU has prepared another
  dispatch after an invocation, that invocation is refused on this CPU in every later state.
\<close>

theorem invocation_expires:
  assumes "ring_initial s0" and "ring_step\<^sup>*\<^sup>* s0 s" and "c < length (rs_cpus s)"
    and "validate_invocation (rs_cpus s ! c) i = Ok ()"
    and "prepare (rs_cpus s ! c) (rs_registry s) target gate = (Ok lease, f, r)"
    and "ring_step\<^sup>*\<^sup>* (set_cpu c f r s) t"
  shows "validate_invocation (rs_cpus t ! c) i \<noteq> Ok ()"
proof -
  let ?f = "rs_cpus s ! c"
  note inv = ring.inv_reachable[OF assms(1,2)]
  have e: "ki_entry_sequence i = fr_sequence ?f"
    using assms(4) ring_invD(2)[OF inv assms(3)] by (auto simp: validate_invocation_def frontier_ok_def split: if_splits)
  have "fr_sequence ?f < fr_sequence f"
    by (rule prepare_cases[of ?f "rs_registry s" target gate]) (use assms(5) in \<open>auto simp: word_less_nat_alt unat_Suc_le\<close>)
  then have "ki_entry_sequence i < fr_sequence (rs_cpus (set_cpu c f r s) ! c)" using e assms(3) by simp
  moreover have step: "ring_step s (set_cpu c f r s)" using assms(3,5) by (rule ring_step.prepare)
  ultimately have "ki_entry_sequence i < fr_sequence (rs_cpus t ! c)" and "c < length (rs_cpus t)"
    using ring_steps_sequence[OF assms(6), of c] assms(3) by auto
  moreover have "ring_inv t" using ring.inv_steps[OF assms(6) ring.inv_step[OF inv step]] .
  ultimately show ?thesis using ring_invD(2)[of t c]
    by (auto simp: validate_invocation_def frontier_ok_def split: if_splits)
qed

text \<open>
  A revoked handle never becomes valid again, whatever is registered afterwards.
\<close>

theorem revoked_domain_never_returns:
  assumes "ring_initial s0" and "ring_step\<^sup>*\<^sup>* s0 s" and "domain_revoke (rs_registry s) h = (Ok (), r)"
    and "ring_step\<^sup>*\<^sup>* (s\<lparr>rs_registry := r\<rparr>) t"
  shows "registry_descriptor (rs_registry t) h = Err StaleDomain"
proof -
  note inv = ring.inv_reachable[OF assms(1,2)]
  have step: "ring_step s (s\<lparr>rs_registry := r\<rparr>)" using ring_step.revoke[of s h] assms(3) by simp
  obtain sl where sl: "domain_slot_of (rs_registry s) h = Ok sl"
    and r: "r = (set_domain_slot h (sl\<lparr>ds_occupied := False, ds_descriptor := descriptor_EMPTY\<rparr>) (rs_registry s))\<lparr>dr_live := dr_live (rs_registry s) - 1\<rparr>"
    using assms(3) by (auto simp: domain_revoke_def split: sum.splits if_splits)
  have "domain_valid s (unat (dh_slot h)) (unat (dh_generation h))"
    using sl by (simp add: domain_valid_def domain_slot_of_Ok)
  moreover have "\<not> domain_valid (s\<lparr>rs_registry := r\<rparr>) (unat (dh_slot h)) (unat (dh_generation h))"
    using sl by (simp add: r domain_valid_def set_domain_slot_def domain_slot_of_Ok)
  ultimately have "\<not> domain_valid t (unat (dh_slot h)) (unat (dh_generation h))"
    by (intro domains.stale_forever[OF inv _ step _ assms(4)])
  then show ?thesis
    by (auto simp: domain_valid_def registry_descriptor_def domain_slot_of_def get_def)
qed

section \<open>A sample run\<close>

text \<open>One CPU dispatches a hardware cell that owns the ports 0x60 to 0x64, and the cell enters the kernel.\<close>

definition sample_cell :: domain_descriptor where
  "sample_cell = \<lparr>dd_role = NativeHardwareCell, dd_address_space_root = 0x2000,
     dd_authority = \<lparr>ha_io_ports = Some \<lparr>io_first = 0x60, io_last = 0x64\<rparr> # replicate 7 None,
                     ha_mmio = replicate 8 None, ha_dma = None\<rparr>\<rparr>"

definition sample_domain :: domain_handle where
  "sample_domain = \<lparr>dh_slot = 0, dh_generation = 1\<rparr>"

definition sample_cpu :: "u64 \<Rightarrow> active_execution \<Rightarrow> pending_transition option \<Rightarrow> (domain_handle \<times> u64) option \<Rightarrow> frontier" where
  "sample_cpu n act p i = \<lparr>fr_cpu_id = 0, fr_cpu_generation = 1, fr_kernel_root = 0x1000, fr_sequence = n,
     fr_active = act, fr_pending = p, fr_invocation = i\<rparr>"

definition sample_registry :: "u32 \<Rightarrow> domain_registry" where
  "sample_registry refs = \<lparr>dr_kernel_root = 0x1000, dr_slots = [\<lparr>ds_occupied = True, ds_generation = 1,
     ds_execution_references = refs, ds_descriptor = sample_cell\<rparr>, domain_slot_EMPTY], dr_live = 1\<rparr>"

definition sample_ring :: "domain_registry \<Rightarrow> frontier \<Rightarrow> ring_system" where
  "sample_ring r f = \<lparr>rs_registry = r, rs_cpus = [f]\<rparr>"

definition sample_pending :: "u64 \<Rightarrow> pending_transition" where
  "sample_pending n = \<lparr>pd_sequence = n, pd_target = sample_domain,
     pd_target_ring = HardwareCell, pd_address_space_root = 0x2000, pd_gate = Iretq\<rparr>"

definition sample_lease :: "u64 \<Rightarrow> transition_lease" where
  "sample_lease n = \<lparr>tl_cpu_id = 0, tl_cpu_generation = 1, tl_pending = sample_pending n\<rparr>"

definition sample_invocation :: kernel_invocation where
  "sample_invocation = \<lparr>ki_cpu_id = 0, ki_cpu_generation = 1, ki_caller = sample_domain, ki_entry_sequence = 2\<rparr>"

definition ring_boot :: ring_system where
  "ring_boot = sample_ring \<lparr>dr_kernel_root = 0x1000, dr_slots = [domain_slot_EMPTY, domain_slot_EMPTY], dr_live = 0\<rparr>
     (sample_cpu 0 KernelActive None None)"

lemmas sample_ring_defs = sample_cell_def sample_domain_def sample_cpu_def sample_registry_def sample_ring_def
  sample_pending_def sample_lease_def sample_invocation_def ring_boot_def domain_slot_EMPTY_def

lemma ring_boot_initial: "ring_initial ring_boot"
proof -
  have "valid_page_table_root 0x1000" by (simp add: valid_page_table_root_def)
  then have "registry_new 2 0x1000 = Ok (rs_registry ring_boot)" "frontier_new 0 1 0x1000 = Ok (sample_cpu 0 KernelActive None None)"
    by (simp_all add: registry_new_def frontier_new_def sample_ring_defs numeral_2_eq_2)
  then show ?thesis by (auto simp: ring_initial_def ring_boot_def sample_ring_def)
qed

lemma sample_register: "domain_register (rs_registry ring_boot) sample_cell = (Ok sample_domain, sample_registry 0)"
  by (simp add: domain_register_def descriptor_validate_def valid_page_table_root_def authority_is_empty_def
    checked_add_one sample_ring_defs)

lemma sample_descriptor: "registry_descriptor (sample_registry n) sample_domain = Ok sample_cell"
  by (simp add: registry_descriptor_def domain_slot_of_def get_def sample_ring_defs)

lemmas sample_look_up = registry_descriptor_def domain_slot_of_def get_def set_domain_slot_def Let_def

lemma sample_prepare:
  "n \<noteq> - 1 \<Longrightarrow> prepare (sample_cpu n KernelActive None i) (sample_registry 0) sample_domain Iretq =
     (Ok (sample_lease (n + 1)), sample_cpu (n + 1) KernelActive (Some (sample_pending (n + 1))) None, sample_registry 1)"
  by (simp add: prepare_def retain_execution_def checked_add_one valid_dispatch_gate_def sample_look_up sample_ring_defs)

lemma sample_commit:
  "commit (sample_cpu n KernelActive (Some (sample_pending n)) None) (sample_registry 1) (sample_lease n) 0x1000 =
     (Ok \<lparr>ct_target = sample_domain, ct_target_ring = HardwareCell, ct_address_space_root = 0x2000, ct_gate = Iretq, ct_sequence = n\<rparr>,
      sample_cpu n (DomainActive sample_domain) None None)"
  by (simp add: commit_def valid_dispatch_gate_def sample_look_up sample_ring_defs)

lemma sample_enter:
  "enter_kernel (sample_cpu 1 (DomainActive sample_domain) None None) (sample_registry 1) sample_domain 0x2000 0x1000 =
     (Ok sample_invocation, sample_cpu 2 KernelActive None (Some (sample_domain, 2)), sample_registry 0)"
  by (simp add: enter_kernel_def release_execution_def checked_add_one checked_sub_def sample_look_up sample_ring_defs)

definition ring_prepared :: ring_system where
  "ring_prepared = sample_ring (sample_registry 1) (sample_cpu 1 KernelActive (Some (sample_pending 1)) None)"

definition ring_entered :: ring_system where
  "ring_entered = sample_ring (sample_registry 0) (sample_cpu 2 KernelActive None (Some (sample_domain, 2)))"

lemma sample_ring_steps:
  "ring_step\<^sup>*\<^sup>* ring_boot (sample_ring (sample_registry 0) (sample_cpu 0 KernelActive None None))"
  "ring_step\<^sup>*\<^sup>* ring_boot ring_prepared" "ring_step\<^sup>*\<^sup>* ring_boot ring_entered"
proof -
  let ?b = "sample_ring (sample_registry 0) (sample_cpu 0 KernelActive None None)"
  let ?d = "sample_ring (sample_registry 1) (sample_cpu 1 (DomainActive sample_domain) None None)"
  have "ring_step ring_boot ?b" using ring_step.register[of ring_boot sample_cell] unfolding sample_register
    by (simp add: ring_boot_def sample_ring_def)
  moreover have "ring_step ?b ring_prepared"
    using ring_step.prepare[of 0 ?b sample_domain Iretq] sample_prepare[of 0 None] by (simp add: ring_prepared_def sample_ring_def)
  moreover have "ring_step ring_prepared ?d"
    using ring_step.commit[of 0 ring_prepared "sample_lease 1" 4096] sample_commit[of 1] by (simp add: ring_prepared_def sample_ring_def)
  moreover have "ring_step ?d ring_entered"
    using ring_step.enter[of 0 ?d sample_domain 8192 4096] sample_enter by (simp add: ring_entered_def sample_ring_def)
  ultimately show "ring_step\<^sup>*\<^sup>* ring_boot ?b" "ring_step\<^sup>*\<^sup>* ring_boot ring_prepared" "ring_step\<^sup>*\<^sup>* ring_boot ring_entered"
    by (meson converse_rtranclp_into_rtranclp rtranclp.rtrancl_refl)+
qed

lemma sample_ring_parts [simp]:
  "rs_registry (sample_ring r f) = r" "length (rs_cpus (sample_ring r f)) = 1" "rs_cpus (sample_ring r f) ! 0 = f"
  "(sample_ring r f)\<lparr>rs_registry := r', rs_cpus := (rs_cpus (sample_ring r f))[0 := f']\<rparr> = sample_ring r' f'"
  by (simp_all add: sample_ring_def)

lemma sample_validate: "validate_invocation (sample_cpu 2 KernelActive None (Some (sample_domain, 2))) sample_invocation = Ok ()"
  by (simp add: validate_invocation_def sample_ring_defs)

lemma sample_authorize:
  "authorize_io (sample_registry 0) (sample_cpu 2 KernelActive None (Some (sample_domain, 2))) sample_invocation 0x60 4 = Ok ()"
  "authorize_io (sample_registry 0) (sample_cpu 2 KernelActive None (Some (sample_domain, 2))) sample_invocation 0x62 1 = Ok ()"
  unfolding authorize_Ok sample_validate by (simp_all add: sample_look_up permits_io_def io_contains_def checked_add_def flatten_def sample_ring_defs)

theorem hardware_grants_exclusive_witness:
  "authorize_io (rs_registry ring_entered) (rs_cpus ring_entered ! 0) sample_invocation 0x60 4 = Ok ()
   \<and> authorize_io (rs_registry ring_entered) (rs_cpus ring_entered ! 0)
        (sample_invocation\<lparr>ki_caller := \<lparr>dh_slot = 1, dh_generation = 1\<rparr>\<rparr>) 0x62 1 \<noteq> Ok ()"
proof -
  let ?j = "sample_invocation\<lparr>ki_caller := \<lparr>dh_slot = 1, dh_generation = 1\<rparr>\<rparr>"
  have a: "authorize_io (rs_registry ring_entered) (rs_cpus ring_entered ! 0) sample_invocation 96 4 = Ok ()"
    using sample_authorize by (simp add: ring_entered_def)
  have "ki_caller sample_invocation \<noteq> ki_caller ?j" by (simp add: sample_invocation_def sample_domain_def)
  with a hardware_grants_exclusive[OF ring_boot_initial sample_ring_steps(3) refl, of "rs_cpus ring_entered ! 0" sample_invocation 96 4
    "rs_cpus ring_entered ! 0" ?j 98 1 98, THEN conjunct1]
  show ?thesis by fastforce
qed

theorem domain_execution_exclusive_witness:
  "holds (rs_cpus ring_prepared ! 0) sample_domain
   \<and> domain_revoke (rs_registry ring_prepared) sample_domain = (Err DomainBusy, rs_registry ring_prepared)"
proof -
  have h: "holds (rs_cpus ring_prepared ! 0) sample_domain" "0 < length (rs_cpus ring_prepared)"
    by (simp_all add: ring_prepared_def holds_def sample_cpu_def sample_pending_def)
  with domain_execution_exclusive[OF ring_boot_initial sample_ring_steps(2) h(2,1)] show ?thesis by blast
qed

theorem dispatch_round_trip_witness:
  "\<exists>ct f2. commit (rs_cpus ring_prepared ! 0) (rs_registry ring_prepared) (sample_lease 1) 0x1000 = (Ok ct, f2)
     \<and> ct_target_ring ct \<noteq> Kernel \<and> fr_active f2 = DomainActive sample_domain"
  using dispatch_round_trip[OF ring_boot_initial sample_ring_steps(1), of 0, OF _ refl refl, of sample_domain Iretq]
    sample_prepare[of 0 None] by (auto simp: ring_prepared_def sample_cpu_def)

theorem invocation_expires_witness:
  "validate_invocation (rs_cpus ring_entered ! 0) sample_invocation = Ok ()
   \<and> validate_invocation (sample_cpu 3 KernelActive (Some (sample_pending 3)) None) sample_invocation \<noteq> Ok ()"
proof -
  have v: "validate_invocation (rs_cpus ring_entered ! 0) sample_invocation = Ok ()" "0 < length (rs_cpus ring_entered)"
    using sample_validate by (simp_all add: ring_entered_def)
  have p: "prepare (rs_cpus ring_entered ! 0) (rs_registry ring_entered) sample_domain Iretq =
      (Ok (sample_lease 3), sample_cpu 3 KernelActive (Some (sample_pending 3)) None, sample_registry 1)"
    using sample_prepare[of 2] by (simp add: ring_entered_def)
  from invocation_expires[OF ring_boot_initial sample_ring_steps(3) v(2,1) p rtranclp.rtrancl_refl] v(1)
  show ?thesis by (simp add: ring_entered_def)
qed

theorem revoked_domain_never_returns_witness:
  "domain_revoke (rs_registry ring_entered) sample_domain = (Ok (), snd (domain_revoke (rs_registry ring_entered) sample_domain))
   \<and> registry_descriptor (snd (domain_revoke (rs_registry ring_entered) sample_domain)) sample_domain = Err StaleDomain"
proof -
  have d: "domain_revoke (rs_registry ring_entered) sample_domain = (Ok (), snd (domain_revoke (rs_registry ring_entered) sample_domain))"
    by (simp add: ring_entered_def domain_revoke_def sample_look_up sample_registry_def sample_domain_def)
  from revoked_domain_never_returns[OF ring_boot_initial sample_ring_steps(3) d rtranclp.rtrancl_refl] d
  show ?thesis by simp
qed

end
