(* ===== verification/Iova.thy ===== *)
theory Iova
  imports Prelude "HOL-Library.Multiset"
begin

text \<open>
  The ledger of I/O virtual address leases, \<^verbatim>\<open>src/kernel/boulder/src/hw/iova.rs\<close>. The
  const generics \<open>LEASES\<close> and \<open>RESERVED\<close> are the lengths of the two arrays, which are
  lists. The search loop of \<open>first_fit\<close> is a partial function whose value \<open>None\<close> means
  that it does not return; it is shown to return for every request that \<open>IovaRequest::new\<close>
  can build. The lemmas show that the search finds the lowest fitting range, that live
  leases never overlap, that a batch is all or nothing and that a released lease stays
  dead.
\<close>

abbreviation IOVA_PAGE_SIZE :: u64 where "IOVA_PAGE_SIZE \<equiv> 4096"

datatype iova_error = InvalidRange | InvalidRequest | InvalidCapacity | ReservedCapacity
  | ReservedOutsideAperture | OverlappingReservedRanges | LeaseCapacity | AddressSpaceExhausted
  | ExactRangeUnavailable | StaleLease | BatchOutputMismatch

section \<open>Ranges, leases and requests\<close>

record iova_range =
  ir_start :: u64
  ir_end :: u64

definition range_EMPTY :: iova_range where
  "range_EMPTY = \<lparr>ir_start = 0, ir_end = 0\<rparr>"

definition range_new :: "u64 \<Rightarrow> u64 \<Rightarrow> iova_error + iova_range" where
  "range_new start len =
     (case checked_add start len of
        None \<Rightarrow> Err InvalidRange
      | Some limit \<Rightarrow>
          if len = 0 \<or> start mod IOVA_PAGE_SIZE \<noteq> 0 \<or> len mod IOVA_PAGE_SIZE \<noteq> 0
             \<or> limit mod IOVA_PAGE_SIZE \<noteq> 0
          then Err InvalidRange
          else Ok \<lparr>ir_start = start, ir_end = limit\<rparr>)"

definition range_length :: "iova_range \<Rightarrow> u64" where
  "range_length r = ir_end r - ir_start r"

definition range_page_count :: "iova_range \<Rightarrow> u64" where
  "range_page_count r = range_length r div IOVA_PAGE_SIZE"

definition range_contains :: "iova_range \<Rightarrow> iova_range \<Rightarrow> bool" where
  "range_contains r other \<longleftrightarrow> ir_start r \<le> ir_start other \<and> ir_end other \<le> ir_end r"

definition range_overlaps :: "iova_range \<Rightarrow> iova_range \<Rightarrow> bool" where
  "range_overlaps r other \<longleftrightarrow> ir_start r < ir_end other \<and> ir_start other < ir_end r"

text \<open>A lease is the 64-bit value it wraps.\<close>

type_synonym iova_lease = u64

definition lease_INVALID :: iova_lease where
  "lease_INVALID = 0"

definition lease_from_raw :: "u64 \<Rightarrow> iova_lease option" where
  "lease_from_raw raw =
     (let slot = ucast raw :: u32; generation = ucast (drop_bit 32 raw) :: u32 in
      if slot = 0 \<or> generation = 0 then None else Some raw)"

definition lease_new :: "nat \<Rightarrow> u32 \<Rightarrow> iova_lease" where
  "lease_new slot generation = push_bit 32 (ucast generation) OR (of_nat slot + 1)"

definition encoded_slot :: "iova_lease \<Rightarrow> nat option" where
  "encoded_slot lease =
     (let encoded = ucast lease :: u32 in
      if encoded = 0 then None else Some (unat (encoded - 1)))"

definition lease_generation :: "iova_lease \<Rightarrow> u32" where
  "lease_generation lease = ucast (drop_bit 32 lease)"

record iova_request =
  rq_page_count :: u64
  rq_alignment_pages :: u64

definition request_new :: "u64 \<Rightarrow> u64 \<Rightarrow> iova_error + iova_request" where
  "request_new page_count alignment_pages =
     (if page_count = 0 \<or> alignment_pages = 0 \<or> \<not> is_power_of_two alignment_pages
      then Err InvalidRequest
      else
        (case checked_mul page_count IOVA_PAGE_SIZE of
           None \<Rightarrow> Err InvalidRequest
         | Some _ \<Rightarrow>
             (case checked_mul alignment_pages IOVA_PAGE_SIZE of
                None \<Rightarrow> Err InvalidRequest
              | Some _ \<Rightarrow> Ok \<lparr>rq_page_count = page_count, rq_alignment_pages = alignment_pages\<rparr>)))"

section \<open>The ledger\<close>

record lease_slot =
  ls_range :: iova_range
  ls_generation :: u32
  ls_active :: bool

definition lease_slot_EMPTY :: lease_slot where
  "lease_slot_EMPTY = \<lparr>ls_range = range_EMPTY, ls_generation = 0, ls_active = False\<rparr>"

record iova_ledger =
  il_aperture :: iova_range
  il_reserved :: "iova_range list"
  il_reserved_count :: nat
  il_leases :: "lease_slot list"
  il_active_count :: nat

definition reserved_ranges :: "iova_ledger \<Rightarrow> iova_range list" where
  "reserved_ranges l = take (il_reserved_count l) (il_reserved l)"

text \<open>The reserved ranges above the insertion point move up by one, the highest first.\<close>

definition shift_up :: "nat \<Rightarrow> nat \<Rightarrow> 'a list \<Rightarrow> 'a list" where
  "shift_up p n xs = fold (\<lambda>index ys. ys[index + 1 := ys ! index]) (rev [p ..< n]) xs"

definition insert_reserved :: "iova_ledger \<Rightarrow> iova_range \<Rightarrow> (iova_error + unit) \<times> iova_ledger" where
  "insert_reserved l rg =
     (if \<not> range_contains (il_aperture l) rg then (Err ReservedOutsideAperture, l)
      else if list_ex (\<lambda>existing. range_overlaps existing rg) (reserved_ranges l)
      then (Err OverlappingReservedRanges, l)
      else
        (let count = il_reserved_count l;
             p = (case position (\<lambda>existing. ir_start rg < ir_start existing) (reserved_ranges l) of
                    Some i \<Rightarrow> i | None \<Rightarrow> count)
         in (Ok (), l\<lparr>il_reserved := (shift_up p count (il_reserved l))[p := rg],
                     il_reserved_count := count + 1\<rparr>)))"

fun insert_all_reserved :: "iova_ledger \<Rightarrow> iova_range list \<Rightarrow> iova_error + iova_ledger" where
  "insert_all_reserved l [] = Ok l"
| "insert_all_reserved l (rg # rest) =
     (case insert_reserved l rg of (Err e, _) \<Rightarrow> Err e | (Ok _, l') \<Rightarrow> insert_all_reserved l' rest)"

definition ledger_new :: "nat \<Rightarrow> nat \<Rightarrow> iova_range \<Rightarrow> iova_range list \<Rightarrow> iova_error + iova_ledger" where
  "ledger_new LEASES RESERVED aperture reserved =
     (if LEASES = 0 \<or> LEASES > 2 ^ 32 - 1 then Err InvalidCapacity
      else if length reserved > RESERVED then Err ReservedCapacity
      else insert_all_reserved
        \<lparr>il_aperture = aperture, il_reserved = replicate RESERVED range_EMPTY, il_reserved_count = 0,
         il_leases = replicate LEASES lease_slot_EMPTY, il_active_count = 0\<rparr> reserved)"

definition blockers :: "iova_ledger \<Rightarrow> iova_range list" where
  "blockers l = reserved_ranges l @ map ls_range (filter ls_active (il_leases l))"

definition advance_to :: "iova_range \<Rightarrow> iova_range list \<Rightarrow> u64" where
  "advance_to candidate bs =
     fold (\<lambda>blocker a. if range_overlaps candidate blocker then max a (ir_end blocker) else a) bs 0"

partial_function (option) first_fit_loop :: "iova_ledger \<Rightarrow> u64 \<Rightarrow> u64 \<Rightarrow> u64 \<Rightarrow> (iova_error + iova_range) option" where
  "first_fit_loop l len alignment start =
     (case checked_add start len of
        None \<Rightarrow> Some (Err AddressSpaceExhausted)
      | Some limit \<Rightarrow>
          if limit \<le> ir_end (il_aperture l) then
            (let candidate = \<lparr>ir_start = start, ir_end = limit\<rparr>; a = advance_to candidate (blockers l) in
             if a = 0 then Some (Ok candidate)
             else
               (case align_up a alignment of
                  None \<Rightarrow> Some (Err AddressSpaceExhausted)
                | Some start' \<Rightarrow> first_fit_loop l len alignment start'))
          else Some (Err AddressSpaceExhausted))"

definition first_fit :: "iova_ledger \<Rightarrow> iova_request \<Rightarrow> (iova_error + iova_range) option" where
  "first_fit l q =
     (case checked_mul (rq_page_count q) IOVA_PAGE_SIZE of
        None \<Rightarrow> Some (Err InvalidRequest)
      | Some len \<Rightarrow>
          (case checked_mul (rq_alignment_pages q) IOVA_PAGE_SIZE of
             None \<Rightarrow> Some (Err InvalidRequest)
           | Some alignment \<Rightarrow>
               (case align_up (ir_start (il_aperture l)) alignment of
                  None \<Rightarrow> Some (Err AddressSpaceExhausted)
                | Some start \<Rightarrow> first_fit_loop l len alignment start)))"

definition free_slot :: "iova_ledger \<Rightarrow> nat option" where
  "free_slot l = position (\<lambda>slot. \<not> ls_active slot \<and> ls_generation slot \<noteq> - 1) (il_leases l)"

definition issue :: "iova_ledger \<Rightarrow> nat \<Rightarrow> iova_range \<Rightarrow> (iova_error + iova_lease) \<times> iova_ledger" where
  "issue l slot_index rg =
     (let generation = ls_generation (il_leases l ! slot_index) + 1 in
      (Ok (lease_new slot_index generation),
       l\<lparr>il_leases := (il_leases l)[slot_index := \<lparr>ls_range = rg, ls_generation = generation, ls_active = True\<rparr>],
         il_active_count := il_active_count l + 1\<rparr>))"

definition reserve :: "iova_ledger \<Rightarrow> iova_request \<Rightarrow> ((iova_error + iova_lease) \<times> iova_ledger) option" where
  "reserve l q =
     (case free_slot l of
        None \<Rightarrow> Some (Err LeaseCapacity, l)
      | Some slot_index \<Rightarrow>
          map_option (\<lambda>res. case res of Err e \<Rightarrow> (Err e, l) | Ok rg \<Rightarrow> issue l slot_index rg) (first_fit l q))"

definition reserve_aligned :: "iova_ledger \<Rightarrow> u64 \<Rightarrow> u64 \<Rightarrow> ((iova_error + iova_lease) \<times> iova_ledger) option" where
  "reserve_aligned l page_count alignment_pages =
     (case request_new page_count alignment_pages of Err e \<Rightarrow> Some (Err e, l) | Ok q \<Rightarrow> reserve l q)"

definition reserve_pages :: "iova_ledger \<Rightarrow> u64 \<Rightarrow> ((iova_error + iova_lease) \<times> iova_ledger) option" where
  "reserve_pages l page_count =
     (case request_new page_count 1 of Err e \<Rightarrow> Some (Err e, l) | Ok q \<Rightarrow> reserve l q)"

definition reserve_exact :: "iova_ledger \<Rightarrow> iova_range \<Rightarrow> (iova_error + iova_lease) \<times> iova_ledger" where
  "reserve_exact l rg =
     (if \<not> range_contains (il_aperture l) rg
         \<or> list_ex (\<lambda>blocker. range_overlaps blocker rg) (reserved_ranges l)
         \<or> list_ex (\<lambda>blocker. range_overlaps (ls_range blocker) rg) (filter ls_active (il_leases l))
      then (Err ExactRangeUnavailable, l)
      else
        (case free_slot l of
           None \<Rightarrow> (Err LeaseCapacity, l)
         | Some slot_index \<Rightarrow> issue l slot_index rg))"

text \<open>The loop of a batch, on the candidate copy; the staged array grows by one per request.\<close>

fun stage :: "iova_ledger \<Rightarrow> iova_request list \<Rightarrow> iova_lease list \<Rightarrow> (iova_error + iova_lease list \<times> iova_ledger) option" where
  "stage candidate [] staged = Some (Ok (staged, candidate))"
| "stage candidate (q # rest) staged =
     (case reserve candidate q of
        None \<Rightarrow> None
      | Some (Err e, _) \<Rightarrow> Some (Err e)
      | Some (Ok lease, candidate') \<Rightarrow> stage candidate' rest (staged @ [lease]))"

definition reserve_many :: "iova_ledger \<Rightarrow> iova_request list \<Rightarrow> iova_lease list
    \<Rightarrow> ((iova_error + unit) \<times> iova_ledger \<times> iova_lease list) option" where
  "reserve_many l requests output =
     (if requests = [] \<or> length requests \<noteq> length output \<or> length requests > length (il_leases l)
      then Some (Err BatchOutputMismatch, l, output)
      else
        map_option (\<lambda>res. case res of Err e \<Rightarrow> (Err e, l, output)
                                     | Ok (staged, candidate) \<Rightarrow> (Ok (), candidate, staged))
          (stage l requests []))"

definition slot_at :: "iova_ledger \<Rightarrow> iova_lease \<Rightarrow> (nat \<times> lease_slot) option" where
  "slot_at l lease =
     (case encoded_slot lease of
        None \<Rightarrow> None
      | Some i \<Rightarrow>
          (case get (il_leases l) i of
             None \<Rightarrow> None
           | Some slot \<Rightarrow>
               if ls_active slot \<and> ls_generation slot = lease_generation lease then Some (i, slot) else None))"

definition lease_range :: "iova_ledger \<Rightarrow> iova_lease \<Rightarrow> iova_error + iova_range" where
  "lease_range l lease = (case slot_at l lease of None \<Rightarrow> Err StaleLease | Some (_, slot) \<Rightarrow> Ok (ls_range slot))"

definition release :: "iova_ledger \<Rightarrow> iova_lease \<Rightarrow> (iova_error + iova_range) \<times> iova_ledger" where
  "release l lease =
     (case slot_at l lease of
        None \<Rightarrow> (Err StaleLease, l)
      | Some (i, slot) \<Rightarrow>
          (Ok (ls_range slot),
           l\<lparr>il_leases := (il_leases l)[i := slot\<lparr>ls_range := range_EMPTY, ls_active := False\<rparr>],
             il_active_count := il_active_count l - 1\<rparr>))"

section \<open>The calls on one ledger\<close>

inductive iova_step :: "iova_ledger \<Rightarrow> iova_ledger \<Rightarrow> bool" where
  reserve: "request_new pages alignment = Ok q \<Longrightarrow> reserve l q = Some (res, l') \<Longrightarrow> iova_step l l'"
| reserve_exact: "range_new start len = Ok rg \<Longrightarrow> reserve_exact l rg = (res, l') \<Longrightarrow> iova_step l l'"
| reserve_many: "(\<forall>q \<in> set requests. \<exists>pages alignment. request_new pages alignment = Ok q)
    \<Longrightarrow> reserve_many l requests output = Some (res, l', output') \<Longrightarrow> iova_step l l'"
| release: "release l lease = (res, l') \<Longrightarrow> iova_step l l'"

definition iova_initial :: "iova_ledger \<Rightarrow> bool" where
  "iova_initial l \<longleftrightarrow> (\<exists>LEASES RESERVED start len aperture reserved.
     range_new start len = Ok aperture
     \<and> (\<forall>rg \<in> set reserved. \<exists>s n. range_new s n = Ok rg)
     \<and> ledger_new LEASES RESERVED aperture reserved = Ok l)"

section \<open>The encoding of a lease\<close>

lemma lease_decode:
  assumes "i < 2 ^ 32 - 1"
  shows "encoded_slot (lease_new i g) = Some i" and "lease_generation (lease_new i g) = g"
proof -
  let ?x = "of_nat i + 1 :: u64"
  have u: "unat ?x = i + 1" using assms by (simp add: unat_of_nat unat_word_ariths)
  have x: "?x = of_nat (Suc i)" by simp
  have low: "ucast (lease_new i g) = (of_nat (i + 1) :: u32)"
  proof (rule bit_word_eqI)
    fix n assume "n < LENGTH(32)"
    then show "bit (ucast (lease_new i g) :: u32) n = bit (of_nat (i + 1) :: u32) n"
      unfolding lease_new_def x by (auto simp: bit_simps simp del: of_nat_Suc)
  qed
  have hi: "\<not> bit ?x n" if "32 \<le> n" for n
  proof -
    have "unat ?x < 2 ^ n" using u assms that power_increasing[OF that, of "2::nat"] by linarith
    then have "take_bit n (unat ?x) = unat ?x" by (simp add: take_bit_nat_eq_self)
    then have "\<not> bit (unat ?x) n" by (metis bit_take_bit_iff order_less_irrefl)
    then show ?thesis by (simp add: bit_unsigned_iff)
  qed
  show "lease_generation (lease_new i g) = g"
    unfolding lease_generation_def
    by (rule bit_word_eqI) (auto simp: lease_new_def bit_simps hi)
  have s: "unat (of_nat (i + 1) :: u32) = i + 1" using assms by (simp only: unat_of_nat) simp
  then have "(of_nat (i + 1) :: u32) \<noteq> 0" by (metis add_is_0 unsigned_0 one_neq_zero)
  moreover have "unat (of_nat (i + 1) - 1 :: u32) = i" using s unat_sub[of 1 "of_nat (i + 1) :: u32"] by (simp only: word_le_nat_alt) simp
  ultimately show "encoded_slot (lease_new i g) = Some i"
    by (simp add: encoded_slot_def low Let_def)
qed

section \<open>First fit\<close>

definition request_ok :: "iova_request \<Rightarrow> bool" where
  "request_ok q \<longleftrightarrow> rq_page_count q \<noteq> 0 \<and> is_power_of_two (rq_alignment_pages q)
     \<and> unat (rq_page_count q) * 4096 < 2 ^ 64 \<and> unat (rq_alignment_pages q) * 4096 < 2 ^ 64"

lemma request_new_Ok:
  "request_new p a = Ok q \<longleftrightarrow> q = \<lparr>rq_page_count = p, rq_alignment_pages = a\<rparr> \<and> request_ok q"
  by (auto simp: request_new_def request_ok_def checked_mul_def dest: is_power_of_two_pos)

definition fits :: "iova_ledger \<Rightarrow> nat \<Rightarrow> nat \<Rightarrow> iova_range \<Rightarrow> bool" where
  "fits l len alignment r \<longleftrightarrow> alignment dvd unat (ir_start r) \<and> unat (ir_end r) = unat (ir_start r) + len
     \<and> range_contains (il_aperture l) r \<and> (\<forall>b \<in> set (blockers l). \<not> range_overlaps r b)"

lemma advance_to_fold:
  "fold (\<lambda>b a. if range_overlaps c b then max a (ir_end b) else a) bs a0 =
     fold max (map ir_end (filter (range_overlaps c) bs)) a0"
  by (induction bs arbitrary: a0) (auto simp: max.commute)

lemma fold_max_cases:
  "fold max xs a = (a :: u64) \<or> fold max xs a \<in> set xs"
proof (induction xs arbitrary: a)
  case (Cons x xs)
  from Cons.IH[of "max x a"] show ?case by (auto simp: max_def split: if_splits)
qed simp

lemma fold_max_ge: "(a :: u64) \<le> fold max xs a"
proof (induction xs arbitrary: a)
  case (Cons x xs)
  from Cons.IH[of "max x a"] show ?case by (simp add: order_trans)
qed simp

lemma fold_max_upper: "x \<in> set xs \<Longrightarrow> (x :: u64) \<le> fold max xs a"
proof (induction xs arbitrary: a)
  case (Cons y xs)
  then show ?case using fold_max_ge[of "max y a" xs] by auto
qed simp

lemma advance_to_zero:
  "advance_to c bs = 0 \<longleftrightarrow> (\<forall>b \<in> set bs. \<not> range_overlaps c b)"
proof
  assume a: "advance_to c bs = 0"
  show "\<forall>b \<in> set bs. \<not> range_overlaps c b"
  proof (intro ballI notI)
    fix b assume b: "b \<in> set bs" "range_overlaps c b"
    then have "ir_end b \<le> advance_to c bs"
      unfolding advance_to_def advance_to_fold by (intro fold_max_upper) auto
    with a b(2) show False by (simp add: range_overlaps_def)
  qed
next
  assume "\<forall>b \<in> set bs. \<not> range_overlaps c b"
  then show "advance_to c bs = 0" unfolding advance_to_def advance_to_fold by (simp add: filter_False)
qed

lemma advance_to_nonzero:
  assumes "advance_to c bs \<noteq> 0"
  obtains b where "b \<in> set bs" and "range_overlaps c b" and "advance_to c bs = ir_end b"
  using assms fold_max_cases[of "map ir_end (filter (range_overlaps c) bs)" 0]
  unfolding advance_to_def advance_to_fold by auto

lemma power_of_two_scaled:
  assumes "is_power_of_two a" and "unat a * 4096 < 2 ^ 64" and "checked_mul a IOVA_PAGE_SIZE = Some x"
  shows "is_power_of_two x"
proof -
  from assms(1) obtain k where k: "k < 64" "a = 2 ^ k" by (rule is_power_of_twoE)
  have "x = 2 ^ (k + 12)" using assms(3) k by (auto simp: checked_mul_def power_add split: if_splits)
  moreover have "k + 12 < 64"
  proof (rule ccontr)
    assume "\<not> k + 12 < 64"
    then have "(2::nat) ^ 64 \<le> 2 ^ (k + 12)" by (intro power_increasing) auto
    with assms(2) k show False by (simp add: power_add)
  qed
  ultimately show ?thesis by (auto simp: is_power_of_two_def)
qed

lemma align_up_none_no_multiple:
  assumes "is_power_of_two a" and "align_up v a = None" and "unat v \<le> m" and "unat a dvd m"
  shows "2 ^ 64 \<le> m"
proof (rule ccontr)
  assume "\<not> 2 ^ 64 \<le> m"
  from assms(1) obtain k where k: "k < 64" "a = 2 ^ k" by (rule is_power_of_twoE)
  then have a: "unat a = 2 ^ k" by simp
  have "unat a dvd 2 ^ 64" unfolding a using k by (intro le_imp_power_dvd) simp
  with assms(4) obtain p q where pq: "m = unat a * p" "(2::nat) ^ 64 = unat a * q" by (auto simp: dvd_def)
  have "p < q" using \<open>\<not> 2 ^ 64 \<le> m\<close> pq a by (metis linorder_not_le mult_le_mono2)
  then have "unat a * Suc p \<le> 2 ^ 64" unfolding pq(2) by (intro mult_le_mono2) simp
  then have "m + unat a \<le> 2 ^ 64" using pq(1) by simp
  moreover have "2 ^ 64 \<le> unat v + unat a - 1" by (rule align_up_NoneD[OF assms(1,2)])
  ultimately show False using assms(3) is_power_of_two_pos[OF assms(1)] by linarith
qed

lemma range_overlaps_later:
  assumes "range_overlaps \<lparr>ir_start = s, ir_end = e\<rparr> b" and "unat e = unat s + n" and "s \<le> ir_start r" and "ir_start r < ir_end b"
    and "unat (ir_end r) = unat (ir_start r) + n"
  shows "range_overlaps r b"
  using assms by (auto simp: range_overlaps_def word_le_nat_alt word_less_nat_alt)

lemma fits_reaches:
  assumes "fits l (unat len) a r" and "start \<le> ir_start r"
  shows "checked_add start len = Some (start + len)" and "start + len \<le> ir_end (il_aperture l)"
proof -
  have e: "unat (ir_end r) = unat (ir_start r) + unat len" "ir_end r \<le> ir_end (il_aperture l)"
    using assms(1) by (auto simp: fits_def range_contains_def)
  have le: "unat start \<le> unat (ir_start r)" using assms(2) by (simp add: word_le_nat_alt)
  then have b: "unat start + unat len < 2 ^ 64" using e(1) unat_lt2p[of "ir_end r"] by simp
  then show "checked_add start len = Some (start + len)" by (simp add: checked_add_def)
  have "start + len \<le> ir_end r" using b le e(1) by (simp add: word_le_nat_alt unat_add_le)
  with e(2) show "start + len \<le> ir_end (il_aperture l)" by simp
qed

lemma fits_past_blockers:
  assumes "advance_to \<lparr>ir_start = start, ir_end = e\<rparr> (blockers l) \<noteq> 0" and "unat e = unat start + unat len"
    and "fits l (unat len) a r" and "start \<le> ir_start r"
  shows "advance_to \<lparr>ir_start = start, ir_end = e\<rparr> (blockers l) \<le> ir_start r"
proof (rule ccontr)
  obtain b where b: "b \<in> set (blockers l)" "range_overlaps \<lparr>ir_start = start, ir_end = e\<rparr> b"
    "advance_to \<lparr>ir_start = start, ir_end = e\<rparr> (blockers l) = ir_end b" using advance_to_nonzero[OF assms(1)] .
  assume "\<not> ?thesis"
  then have "range_overlaps r b" using range_overlaps_later[OF b(2) assms(2,4)] assms(3) b(3) by (auto simp: fits_def)
  with assms(3) b(1) show False by (auto simp: fits_def)
qed

definition lowest_fit :: "iova_ledger \<Rightarrow> nat \<Rightarrow> nat \<Rightarrow> iova_error + iova_range \<Rightarrow> bool" where
  "lowest_fit l len alignment res \<longleftrightarrow>
     (case res of Ok r \<Rightarrow> fits l len alignment r \<and> (\<forall>r'. fits l len alignment r' \<longrightarrow> ir_start r \<le> ir_start r')
        | Err e \<Rightarrow> e = AddressSpaceExhausted \<and> (\<nexists>r. fits l len alignment r))"

lemma first_fit_loop_correct:
  assumes "is_power_of_two a" and "unat a dvd unat start" and "ir_start (il_aperture l) \<le> start"
    and "\<And>r. fits l (unat len) (unat a) r \<Longrightarrow> start \<le> ir_start r"
  shows "\<exists>res. first_fit_loop l len a start = Some res \<and> lowest_fit l (unat len) (unat a) res"
  using assms(2-4)
proof (induction "2 ^ 64 - unat start" arbitrary: start rule: less_induct)
  case less
  let ?fits = "fits l (unat len) (unat a)" let ?e = "start + len"
  let ?c = "\<lparr>ir_start = start, ir_end = ?e\<rparr>" let ?a = "advance_to ?c (blockers l)"
  consider (outside) "checked_add start len \<noteq> Some ?e \<or> \<not> ?e \<le> ir_end (il_aperture l)"
    | (found) "checked_add start len = Some ?e" "?e \<le> ir_end (il_aperture l)" "?a = 0"
    | (blocked) "checked_add start len = Some ?e" "?e \<le> ir_end (il_aperture l)" "?a \<noteq> 0" by blast
  then show ?case
  proof cases
    case outside
    then have "first_fit_loop l len a start = Some (Err AddressSpaceExhausted)"
      by (subst first_fit_loop.simps) (auto split: option.split dest: checked_add_SomeD(2))
    moreover have "\<not> ?fits r" for r using outside fits_reaches[of l len "unat a" r start] less.prems(3)[of r] by auto
    ultimately show ?thesis by (simp add: lowest_fit_def)
  next
    case found
    then have "?fits ?c"
      using less.prems(1,2) checked_add_SomeD(1)[OF found(1)] by (simp add: fits_def range_contains_def advance_to_zero)
    with found less.prems(3) show ?thesis by (subst first_fit_loop.simps) (auto simp: lowest_fit_def)
  next
    case blocked
    note past = fits_past_blockers[OF blocked(3) checked_add_SomeD(1)[OF blocked(1)] _ less.prems(3)]
    show ?thesis
    proof (cases "align_up ?a a")
      case None
      have "\<not> ?fits r" for r
        using align_up_none_no_multiple[OF assms(1) None, of "unat (ir_start r)"] past[of "unat a" r] unat_lt2p[of "ir_start r"]
        by (auto simp: fits_def word_le_nat_alt)
      with blocked None show ?thesis by (subst first_fit_loop.simps) (auto simp: Let_def lowest_fit_def)
    next
      case (Some s')
      note s' = align_up_bounds[OF assms(1) Some]
      have "start < ?a" using advance_to_nonzero[OF blocked(3)] by (metis iova_range.select_convs(1) range_overlaps_def)
      then have "start < s'" using s'(1) by (simp add: word_less_nat_alt word_le_nat_alt)
      moreover have "s' \<le> ir_start r" if "?fits r" for r
        using align_up_least[OF assms(1) Some, of "unat (ir_start r)"] past[OF that that] that by (simp add: fits_def word_le_nat_alt)
      ultimately have "\<exists>res. first_fit_loop l len a s' = Some res \<and> lowest_fit l (unat len) (unat a) res"
        using less.prems(2) s'(3) unat_lt2p[of s'] by (intro less.hyps) (auto simp: word_less_nat_alt word_le_nat_alt)
      then show ?thesis using blocked Some by (subst first_fit_loop.simps) (simp add: Let_def)
    qed
  qed
qed

lemma first_fit_correct:
  assumes "request_ok q"
  shows "\<exists>res. first_fit l q = Some res
    \<and> lowest_fit l (unat (rq_page_count q) * 4096) (unat (rq_alignment_pages q) * 4096) res"
proof -
  let ?len = "rq_page_count q * IOVA_PAGE_SIZE" and ?a = "rq_alignment_pages q * IOVA_PAGE_SIZE"
  have mul: "checked_mul (rq_page_count q) IOVA_PAGE_SIZE = Some ?len" "checked_mul (rq_alignment_pages q) IOVA_PAGE_SIZE = Some ?a"
    using assms by (auto simp: request_ok_def checked_mul_def)
  have u: "unat ?len = unat (rq_page_count q) * 4096" "unat ?a = unat (rq_alignment_pages q) * 4096"
    using checked_mul_SomeD(1)[OF mul(1)] checked_mul_SomeD(1)[OF mul(2)] by simp_all
  have p2: "is_power_of_two ?a" using assms power_of_two_scaled[OF _ _ mul(2)] by (simp add: request_ok_def)
  show ?thesis
  proof (cases "align_up (ir_start (il_aperture l)) ?a")
    case None
    have "\<not> fits l (unat ?len) (unat ?a) r" for r
      using align_up_none_no_multiple[OF p2 None, of "unat (ir_start r)"] unat_lt2p[of "ir_start r"]
      by (auto simp: fits_def range_contains_def word_le_nat_alt)
    with None mul show ?thesis by (auto simp: first_fit_def lowest_fit_def u)
  next
    case (Some s)
    note b = align_up_bounds[OF p2 Some]
    have "s \<le> ir_start r" if "fits l (unat ?len) (unat ?a) r" for r
      using align_up_least[OF p2 Some, of "unat (ir_start r)"] that by (simp add: fits_def range_contains_def word_le_nat_alt)
    from first_fit_loop_correct[OF p2 b(3), of l ?len, OF _ this] b(1) mul Some show ?thesis
      by (simp add: first_fit_def u word_le_nat_alt)
  qed
qed

section \<open>Well-formed ledgers\<close>

definition range_ok :: "iova_range \<Rightarrow> bool" where
  "range_ok r \<longleftrightarrow> ir_start r < ir_end r \<and> 4096 dvd unat (ir_start r) \<and> 4096 dvd unat (ir_end r)"

lemma page_mod_dvd: "x mod IOVA_PAGE_SIZE = 0 \<longleftrightarrow> 4096 dvd unat x"
  by (simp add: word_unat_eq_iff unat_mod dvd_eq_mod_eq_0)

lemma range_new_ok: "range_new s n = Ok r \<Longrightarrow> range_ok r"
proof -
  assume "range_new s n = Ok r"
  then obtain e where e: "checked_add s n = Some e" "n \<noteq> 0" "r = \<lparr>ir_start = s, ir_end = e\<rparr>" "s mod IOVA_PAGE_SIZE = 0" "e mod IOVA_PAGE_SIZE = 0"
    by (auto simp: range_new_def split: option.splits if_splits)
  have "s < e" using checked_add_SomeD(1)[OF e(1)] e(2) by (simp add: word_less_nat_alt unat_gt_0)
  with e show ?thesis by (simp add: range_ok_def page_mod_dvd)
qed

lemma range_overlaps_sym: "range_overlaps a b = range_overlaps b a"
  by (auto simp: range_overlaps_def)

definition lease_ok :: "iova_ledger \<Rightarrow> lease_slot \<Rightarrow> bool" where
  "lease_ok l sl \<longleftrightarrow>
     (if ls_active sl then range_ok (ls_range sl) \<and> range_contains (il_aperture l) (ls_range sl)
         \<and> (\<forall>b \<in> set (reserved_ranges l). \<not> range_overlaps (ls_range sl) b)
      else ls_range sl = range_EMPTY)"

definition iova_inv :: "iova_ledger \<Rightarrow> bool" where
  "iova_inv l \<longleftrightarrow> length (il_leases l) < 2 ^ 32
     \<and> (\<forall>i < length (il_leases l). lease_ok l (il_leases l ! i))
     \<and> (\<forall>i < length (il_leases l). \<forall>j < length (il_leases l). i \<noteq> j \<longrightarrow> ls_active (il_leases l ! i)
          \<longrightarrow> ls_active (il_leases l ! j) \<longrightarrow> \<not> range_overlaps (ls_range (il_leases l ! i)) (ls_range (il_leases l ! j)))
     \<and> il_active_count l = length (filter ls_active (il_leases l))"

lemma iova_invD:
  assumes "iova_inv l"
  shows "length (il_leases l) < 2 ^ 32"
    and "i < length (il_leases l) \<Longrightarrow> lease_ok l (il_leases l ! i)"
    and "\<lbrakk>i < length (il_leases l); j < length (il_leases l); i \<noteq> j; ls_active (il_leases l ! i); ls_active (il_leases l ! j)\<rbrakk>
      \<Longrightarrow> \<not> range_overlaps (ls_range (il_leases l ! i)) (ls_range (il_leases l ! j))"
    and "il_active_count l = length (filter ls_active (il_leases l))"
  using assms by (auto simp: iova_inv_def)

text \<open>Every call either leaves the ledger alone, or issues and releases leases one at a time.\<close>

definition grantable :: "iova_ledger \<Rightarrow> nat \<Rightarrow> iova_range \<Rightarrow> bool" where
  "grantable l i r \<longleftrightarrow> free_slot l = Some i \<and> range_ok r \<and> range_contains (il_aperture l) r
     \<and> (\<forall>b \<in> set (blockers l). \<not> range_overlaps r b)"

inductive iova_effect :: "iova_ledger \<Rightarrow> iova_ledger \<Rightarrow> bool" where
  issue: "grantable l i r \<Longrightarrow> iova_effect l (snd (issue l i r))"
| release: "slot_at l lease = Some (i, sl) \<Longrightarrow> iova_effect l (snd (release l lease))"

lemma free_slotD:
  assumes "free_slot l = Some i"
  shows "i < length (il_leases l)" and "\<not> ls_active (il_leases l ! i)" and "ls_generation (il_leases l ! i) \<noteq> - 1"
  using position_SomeD[OF assms[unfolded free_slot_def]] by auto

lemma active_blocker: "i < length (il_leases l) \<Longrightarrow> ls_active (il_leases l ! i) \<Longrightarrow> ls_range (il_leases l ! i) \<in> set (blockers l)"
  by (auto simp: blockers_def)

lemma slot_at_Some:
  "slot_at l lease = Some (i, sl) \<longleftrightarrow> encoded_slot lease = Some i \<and> i < length (il_leases l) \<and> il_leases l ! i = sl
     \<and> ls_active sl \<and> ls_generation sl = lease_generation lease"
  by (auto simp: slot_at_def get_def split: option.splits if_splits)

lemma iova_inv_update:
  assumes "iova_inv l" and "i < length (il_leases l)" and "lease_ok l sl"
    and "\<And>j. j < length (il_leases l) \<Longrightarrow> j \<noteq> i \<Longrightarrow> ls_active sl \<Longrightarrow> ls_active (il_leases l ! j)
           \<Longrightarrow> \<not> range_overlaps (ls_range sl) (ls_range (il_leases l ! j))"
    and "n + (if ls_active (il_leases l ! i) then 1 else 0) = il_active_count l + (if ls_active sl then 1 else 0)"
  shows "iova_inv (l\<lparr>il_leases := (il_leases l)[i := sl], il_active_count := n\<rparr>)"
proof -
  let ?l = "l\<lparr>il_leases := (il_leases l)[i := sl], il_active_count := n\<rparr>"
  have ok: "lease_ok ?l x = lease_ok l x" for x by (simp add: lease_ok_def reserved_ranges_def)
  have "length (filter ls_active ((il_leases l)[i := sl])) + (if ls_active (il_leases l ! i) then 1 else 0)
    = length (filter ls_active (il_leases l)) + (if ls_active sl then 1 else 0)"
    using length_filter_update[OF assms(2), of ls_active sl] by simp
  with assms(5) iova_invD(4)[OF assms(1)] have "n = length (filter ls_active ((il_leases l)[i := sl]))" by simp
  then show ?thesis unfolding iova_inv_def ok
    using iova_invD(1-3)[OF assms(1)] assms(2-4) range_overlaps_sym by (auto simp: nth_update)
qed

lemma iova_inv_effect: "iova_inv l \<Longrightarrow> iova_effect l l' \<Longrightarrow> iova_inv l'"
proof (erule iova_effect.cases)
  fix l1 i r assume inv: "iova_inv l" and eq: "l = l1" "l' = snd (issue l1 i r)" and g: "grantable l1 i r"
  note f = free_slotD[of l i]
  have "iova_inv (snd (issue l i r))" unfolding issue_def Let_def snd_conv
    using g[folded eq(1)] f active_blocker[of _ l]
    by (intro iova_inv_update[OF inv]) (auto simp: grantable_def lease_ok_def blockers_def)
  with eq show ?thesis by simp
next
  fix l1 lease i sl assume inv: "iova_inv l" and eq: "l = l1" "l' = snd (release l1 lease)" and s: "slot_at l1 lease = Some (i, sl)"
  note sl = s[folded eq(1), unfolded slot_at_Some]
  have "0 < length (filter ls_active (il_leases l))" using sl by (auto simp: filter_empty_conv dest: nth_mem)
  then have "iova_inv (snd (release l lease))"
    using sl iova_invD(4)[OF inv] unfolding release_def s[folded eq(1)] option.case prod.case snd_conv
    by (intro iova_inv_update[OF inv]) (auto simp: lease_ok_def)
  with eq show ?thesis by simp
qed

section \<open>The calls are sequences of effects\<close>

lemma fits_grantable:
  assumes "fits l (unat (rq_page_count q) * 4096) (unat (rq_alignment_pages q) * 4096) r" and "request_ok q" and "free_slot l = Some i"
  shows "grantable l i r"
proof -
  have "0 < unat (rq_page_count q)" using assms(2) by (simp add: request_ok_def unat_gt_0)
  moreover have "4096 dvd unat (ir_start r)" using assms(1) unfolding fits_def by (meson dvd_mult_right)
  ultimately have "range_ok r" using assms(1) by (auto simp: range_ok_def fits_def word_less_nat_alt)
  with assms show ?thesis by (simp add: grantable_def fits_def)
qed

lemma reserve_cases:
  assumes "request_ok q"
  obtains (granted) i r where "reserve l q = Some (issue l i r)" and "free_slot l = Some i" and "grantable l i r"
      and "first_fit l q = Some (Ok r)"
  | (full) "reserve l q = Some (Err LeaseCapacity, l)" and "free_slot l = None"
  | (exhausted) "reserve l q = Some (Err AddressSpaceExhausted, l)"
      and "\<nexists>r. fits l (unat (rq_page_count q) * 4096) (unat (rq_alignment_pages q) * 4096) r"
proof -
  obtain res where res: "first_fit l q = Some res"
    "lowest_fit l (unat (rq_page_count q) * 4096) (unat (rq_alignment_pages q) * 4096) res"
    using first_fit_correct[OF assms] by blast
  show thesis
  proof (cases "free_slot l")
    case None
    then show thesis using full by (simp add: reserve_def)
  next
    case (Some i)
    then show thesis
    proof (cases res)
      case (Inl e)
      then show thesis using Some res exhausted by (simp add: reserve_def lowest_fit_def)
    next
      case (Inr r)
      then have "grantable l i r" using res(2) fits_grantable[OF _ assms Some] by (simp add: lowest_fit_def)
      with Inr show thesis using Some res(1) by (intro granted[of i r]) (simp_all add: reserve_def)
    qed
  qed
qed

lemma reserve_effect:
  "request_ok q \<Longrightarrow> reserve l q = Some (res, l') \<Longrightarrow> l' = l \<or> iova_effect l l'"
  by (rule reserve_cases[of q l]) (auto dest: iova_effect.issue)

lemma reserve_exact_effect:
  "range_ok r \<Longrightarrow> reserve_exact l r = (res, l') \<Longrightarrow> l' = l \<or> iova_effect l l'"
proof (cases "fst (reserve_exact l r)")
  case (Inl e)
  then show "reserve_exact l r = (res, l') \<Longrightarrow> l' = l \<or> iova_effect l l'"
    by (auto simp: reserve_exact_def issue_def Let_def split: if_splits option.splits)
next
  case (Inr h)
  assume ok: "range_ok r" and eq: "reserve_exact l r = (res, l')"
  from Inr obtain i where i: "free_slot l = Some i" "reserve_exact l r = issue l i r" "range_contains (il_aperture l) r"
      "\<forall>b \<in> set (blockers l). \<not> range_overlaps b r"
    by (auto simp: reserve_exact_def blockers_def list_ex_iff split: if_splits option.splits)
  then have "grantable l i r" using ok range_overlaps_sym by (auto simp: grantable_def)
  with i(2) eq show ?thesis using iova_effect.issue[of l i r] by (metis snd_conv)
qed

lemma stage_effects:
  assumes "\<forall>q \<in> set qs. request_ok q" and "stage l qs staged = Some (Ok (out, l'))"
  shows "iova_effect\<^sup>*\<^sup>* l l'"
  using assms
proof (induction qs arbitrary: l staged)
  case (Cons q qs)
  from Cons.prems(2) obtain lease l1 where r: "reserve l q = Some (Ok lease, l1)" "stage l1 qs (staged @ [lease]) = Some (Ok (out, l'))"
    by (auto split: option.splits prod.splits sum.splits)
  have "iova_effect\<^sup>*\<^sup>* l l1" using reserve_effect[OF _ r(1)] Cons.prems(1) by auto
  moreover have "iova_effect\<^sup>*\<^sup>* l1 l'" using Cons.IH[OF _ r(2)] Cons.prems(1) by simp
  ultimately show ?case by simp
qed simp

lemma stage_returns: "\<forall>q \<in> set qs. request_ok q \<Longrightarrow> \<exists>res. stage l qs staged = Some res"
proof (induction qs arbitrary: l staged)
  case (Cons q qs)
  obtain res l1 where "reserve l q = Some (res, l1)" using reserve_cases[of q l] Cons.prems by (metis list.set_intros(1) surj_pair)
  with Cons show ?case by (cases res) auto
qed simp

lemma reserve_many_cases:
  assumes "\<forall>q \<in> set qs. request_ok q"
  obtains (all) staged l' where "stage l qs [] = Some (Ok (staged, l'))" and "reserve_many l qs out = Some (Ok (), l', staged)"
      and "qs \<noteq> []" and "length qs = length out"
  | (none) e where "reserve_many l qs out = Some (Err e, l, out)"
proof -
  obtain res where res: "stage l qs [] = Some res" using stage_returns[OF assms] by blast
  show thesis
  proof (cases "qs = [] \<or> length qs \<noteq> length out \<or> length qs > length (il_leases l)")
    case True
    with none show thesis by (simp add: reserve_many_def)
  next
    case False
    with res all none show thesis by (cases res) (auto simp: reserve_many_def)
  qed
qed

lemma iova_step_effects: "iova_step l l' \<Longrightarrow> iova_effect\<^sup>*\<^sup>* l l'"
proof (erule iova_step.cases)
  fix pages alignment q l1 res l1' assume "l = l1" "l' = l1'" "request_new pages alignment = Ok q" "reserve l1 q = Some (res, l1')"
  then show ?thesis using reserve_effect[of q l1 res l1'] by (auto simp: request_new_Ok)
next
  fix start len rg l1 res l1' assume "l = l1" "l' = l1'" "range_new start len = Ok rg" "reserve_exact l1 rg = (res, l1')"
  then show ?thesis using reserve_exact_effect[OF range_new_ok] by blast
next
  fix requests l1 out res l1' out'
  assume a: "l = l1" "l' = l1'" "\<forall>q \<in> set requests. \<exists>pages alignment. request_new pages alignment = Ok q"
    "reserve_many l1 requests out = Some (res, l1', out')"
  have "\<forall>q \<in> set requests. request_ok q" using a(3) by (auto simp: request_new_Ok)
  note e = stage_effects[OF this, of l1 "[]" out' l1']
  from \<open>\<forall>q \<in> set requests. request_ok q\<close> show ?thesis unfolding a(1,2)
    by (cases rule: reserve_many_cases[of requests l1 out]) (use a(4) e in auto)
next
  fix l1 lease res l1' assume a: "l = l1" "l' = l1'" "release l1 lease = (res, l1')"
  show ?thesis
  proof (cases "slot_at l1 lease")
    case None
    with a show ?thesis by (simp add: release_def)
  next
    case (Some x)
    with a iova_effect.release[of l1 lease "fst x" "snd x"] show ?thesis by simp
  qed
qed

lemma iova_steps_effects: "iova_step\<^sup>*\<^sup>* l l' \<Longrightarrow> iova_effect\<^sup>*\<^sup>* l l'"
  by (induction rule: rtranclp_induct) (auto dest: iova_step_effects)

section \<open>The reserved ranges\<close>

lemma shift_up_Suc: "p \<le> c \<Longrightarrow> shift_up p (Suc c) xs = shift_up p c (xs[Suc c := xs ! c])"
  by (simp add: shift_up_def)

lemma shift_up_nth:
  "p \<le> c \<Longrightarrow> c < length xs \<Longrightarrow> shift_up p c xs ! j = (if p < j \<and> j \<le> c then xs ! (j - 1) else xs ! j)"
proof (induction c arbitrary: xs)
  case 0
  then show ?case by (simp add: shift_up_def)
next
  case (Suc c)
  show ?case
  proof (cases "p = Suc c")
    case True
    then show ?thesis by (auto simp: shift_up_def)
  next
    case False
    with Suc.prems have "p \<le> c" by simp
    with Suc.IH[of "xs[Suc c := xs ! c]"] Suc.prems show ?thesis by (auto simp: shift_up_Suc nth_update le_Suc_eq)
  qed
qed

lemma shift_up_length [simp]: "length (shift_up p c xs) = length xs"
proof -
  have "length (fold (\<lambda>index ys. ys[index + 1 := ys ! index]) is xs) = length xs" for "is"
    by (induction "is" arbitrary: xs) auto
  then show ?thesis by (simp add: shift_up_def)
qed

lemma take_shift_up:
  assumes "p \<le> c" and "c < length xs"
  shows "take (Suc c) ((shift_up p c xs)[p := x]) = take p xs @ x # drop p (take c xs)"
proof (rule nth_equalityI)
  show "length (take (Suc c) ((shift_up p c xs)[p := x])) = length (take p xs @ x # drop p (take c xs))"
    using assms by simp
  fix i assume "i < length (take (Suc c) ((shift_up p c xs)[p := x]))"
  then show "take (Suc c) ((shift_up p c xs)[p := x]) ! i = (take p xs @ x # drop p (take c xs)) ! i"
    using assms by (cases "i < p"; cases "i = p") (auto simp: nth_update shift_up_nth nth_append nth_Cons')
qed

definition reserved_ok :: "iova_ledger \<Rightarrow> bool" where
  "reserved_ok l \<longleftrightarrow> il_reserved_count l \<le> length (il_reserved l) \<and> sorted (map ir_start (reserved_ranges l))
     \<and> (\<forall>r \<in> set (reserved_ranges l). range_ok r \<and> range_contains (il_aperture l) r)"

lemma sorted_insert_position:
  fixes f :: "'a \<Rightarrow> 'b::linorder"
  assumes "sorted (map f rs)" and "p = (case position (\<lambda>x. f r < f x) rs of Some i \<Rightarrow> i | None \<Rightarrow> length rs)"
  shows "p \<le> length rs" and "sorted (map f (take p rs @ r # drop p rs))"
proof -
  have "p \<le> length rs \<and> (\<forall>j < p. f (rs ! j) \<le> f r) \<and> (p < length rs \<longrightarrow> f r < f (rs ! p))"
  proof (cases "position (\<lambda>x. f r < f x) rs")
    case None
    then show ?thesis using None[unfolded position_None_nth] by (simp add: assms(2) not_less)
  next
    case (Some i)
    then show ?thesis using position_SomeD[OF Some] by (simp add: assms(2) not_less)
  qed
  then have p: "p \<le> length rs" "\<And>j. j < p \<Longrightarrow> f (rs ! j) \<le> f r" "p < length rs \<Longrightarrow> f r < f (rs ! p)" by simp_all
  show "p \<le> length rs" by fact
  have hi: "f r \<le> f x" if "x \<in> set (drop p rs)" for x
  proof -
    from that obtain j where j: "x = rs ! (p + j)" "p + j < length rs" by (auto simp: in_set_conv_nth)
    then have "f (rs ! p) \<le> f x" using sorted_nth_mono[OF assms(1), of p "p + j"] by simp
    then show ?thesis using p(3) j(2) by simp
  qed
  have lo: "f x \<le> f r" if "x \<in> set (take p rs)" for x using that p(2) by (auto simp: in_set_conv_nth)
  have "sorted (map f (take p rs))" "sorted (map f (drop p rs))"
    using assms(1) by (simp_all add: sorted_wrt_take sorted_wrt_drop flip: take_map drop_map)
  then show "sorted (map f (take p rs @ r # drop p rs))"
    unfolding map_append list.map sorted_append sorted_simps using hi lo by (auto intro: order_trans)
qed

lemma insert_reserved_cases:
  assumes "reserved_ok l" and "range_ok r" and "il_reserved_count l < length (il_reserved l)"
  obtains (inserted) l' where "insert_reserved l r = (Ok (), l')" and "reserved_ok l'"
      and "mset (reserved_ranges l') = add_mset r (mset (reserved_ranges l))"
      and "il_reserved_count l' = Suc (il_reserved_count l)" and "length (il_reserved l') = length (il_reserved l)"
      and "il_aperture l' = il_aperture l" and "il_leases l' = il_leases l" and "il_active_count l' = il_active_count l"
      and "range_contains (il_aperture l) r" and "\<forall>b \<in> set (reserved_ranges l). \<not> range_overlaps r b"
  | (outside) "insert_reserved l r = (Err ReservedOutsideAperture, l)" and "\<not> range_contains (il_aperture l) r"
  | (overlap) b where "insert_reserved l r = (Err OverlappingReservedRanges, l)" and "b \<in> set (reserved_ranges l)" and "range_overlaps r b"
proof -
  let ?rs = "reserved_ranges l" and ?c = "il_reserved_count l"
  consider "\<not> range_contains (il_aperture l) r" | b where "range_contains (il_aperture l) r" "b \<in> set ?rs" "range_overlaps r b"
    | "range_contains (il_aperture l) r" "\<forall>b \<in> set ?rs. \<not> range_overlaps r b" by blast
  then show thesis
  proof cases
    case 1
    with outside show thesis by (simp add: insert_reserved_def)
  next
    case (2 b)
    then have "insert_reserved l r = (Err OverlappingReservedRanges, l)"
      using range_overlaps_sym[of r b] by (auto simp: insert_reserved_def list_ex_iff)
    with 2 overlap show thesis by blast
  next
    case 3
    define p where "p = (case position (\<lambda>x. ir_start r < ir_start x) ?rs of Some i \<Rightarrow> i | None \<Rightarrow> length ?rs)"
    let ?l = "l\<lparr>il_reserved := (shift_up p ?c (il_reserved l))[p := r], il_reserved_count := ?c + 1\<rparr>"
    have len: "length ?rs = ?c" using assms(3) by (simp add: reserved_ranges_def)
    have "sorted (map ir_start ?rs)" using assms(1) by (simp add: reserved_ok_def)
    note p = sorted_insert_position[OF this p_def]
    have eq: "insert_reserved l r = (Ok (), ?l)"
      using 3 range_overlaps_sym[of r] by (auto simp: insert_reserved_def Let_def p_def list_ex_iff len cong: option.case_cong)
    have rs': "reserved_ranges ?l = take p ?rs @ r # drop p ?rs"
      using take_shift_up[of p ?c "il_reserved l" r] p(1) assms(3) len by (simp add: reserved_ranges_def take_take min_absorb1)
    have m: "mset (reserved_ranges ?l) = add_mset r (mset ?rs)"
      unfolding rs' by (metis append_take_drop_id mset.simps(2) mset_append union_mset_add_mset_right)
    then have "set (reserved_ranges ?l) = insert r (set ?rs)" by (metis set_mset_add_mset_insert set_mset_mset)
    then have "reserved_ok ?l" using assms 3(1) p(2) unfolding reserved_ok_def rs'[symmetric] by auto
    with eq 3 m show thesis by (intro inserted[of ?l]) simp_all
  qed
qed

definition disjoint_from :: "iova_range list \<Rightarrow> iova_range list \<Rightarrow> bool" where
  "disjoint_from rs bs \<longleftrightarrow> sorted_wrt (\<lambda>a b. \<not> range_overlaps a b) rs \<and> (\<forall>r \<in> set rs. \<forall>b \<in> set bs. \<not> range_overlaps r b)"

lemma insert_all_reserved_correct:
  assumes "reserved_ok l" and "\<forall>r \<in> set rs. range_ok r" and "il_reserved_count l + length rs \<le> length (il_reserved l)"
  shows "(case insert_all_reserved l rs of
       Ok l' \<Rightarrow> reserved_ok l' \<and> mset (reserved_ranges l') = mset rs + mset (reserved_ranges l)
         \<and> il_aperture l' = il_aperture l \<and> il_leases l' = il_leases l \<and> il_active_count l' = il_active_count l
         \<and> (\<forall>r \<in> set rs. range_contains (il_aperture l) r) \<and> disjoint_from rs (reserved_ranges l)
     | Err e \<Rightarrow> \<not> ((\<forall>r \<in> set rs. range_contains (il_aperture l) r) \<and> disjoint_from rs (reserved_ranges l)))"
  using assms
proof (induction rs arbitrary: l)
  case Nil
  then show ?case by (simp add: disjoint_from_def)
next
  case (Cons r rs)
  have ok: "range_ok r" "il_reserved_count l < length (il_reserved l)" using Cons.prems by auto
  from Cons.prems(1) ok show ?case
  proof (cases rule: insert_reserved_cases)
    case (inserted l')
    have s: "set (reserved_ranges l') = insert r (set (reserved_ranges l))" by (metis inserted(3) set_mset_add_mset_insert set_mset_mset)
    have d: "disjoint_from rs (reserved_ranges l') \<longleftrightarrow> disjoint_from (r # rs) (reserved_ranges l)"
      using inserted(10) range_overlaps_sym by (auto simp: disjoint_from_def s)
    show ?thesis using Cons.IH[OF inserted(2)] Cons.prems inserted(1,3-9) d by (auto split: sum.splits)
  next
    case outside
    then show ?thesis by simp
  next
    case (overlap b)
    then show ?thesis by (auto simp: disjoint_from_def)
  qed
qed

lemma ledger_new_cases:
  assumes "0 < LEASES" and "LEASES < 2 ^ 32" and "length reserved \<le> RESERVED" and "\<forall>r \<in> set reserved. range_ok r"
  shows "(case ledger_new LEASES RESERVED aperture reserved of
       Ok l \<Rightarrow> reserved_ok l \<and> mset (reserved_ranges l) = mset reserved \<and> il_aperture l = aperture
         \<and> il_leases l = replicate LEASES lease_slot_EMPTY \<and> il_active_count l = 0
         \<and> (\<forall>r \<in> set reserved. range_contains aperture r) \<and> sorted_wrt (\<lambda>a b. \<not> range_overlaps a b) reserved
     | Err e \<Rightarrow> \<not> ((\<forall>r \<in> set reserved. range_contains aperture r) \<and> sorted_wrt (\<lambda>a b. \<not> range_overlaps a b) reserved))"
proof -
  let ?l = "\<lparr>il_aperture = aperture, il_reserved = replicate RESERVED range_EMPTY, il_reserved_count = 0,
         il_leases = replicate LEASES lease_slot_EMPTY, il_active_count = 0\<rparr>"
  have "reserved_ok ?l" by (simp add: reserved_ok_def reserved_ranges_def)
  from insert_all_reserved_correct[OF this assms(4)] assms(1-3) show ?thesis
    by (simp add: ledger_new_def disjoint_from_def reserved_ranges_def not_le split: sum.splits)
qed

lemma iova_inv_initial: "iova_initial l \<Longrightarrow> iova_inv l"
proof -
  assume "iova_initial l"
  then obtain n k s m ap res where a: "ledger_new n k ap res = Ok l" "\<forall>r \<in> set res. \<exists>s n. range_new s n = Ok r"
    by (auto simp: iova_initial_def)
  then have "0 < n" "n < 2 ^ 32" "length res \<le> k" by (auto simp: ledger_new_def split: if_splits)
  moreover have "\<forall>r \<in> set res. range_ok r" using a(2) range_new_ok by blast
  ultimately show ?thesis using ledger_new_cases[of n res k ap] a(1) by (auto simp: iova_inv_def lease_ok_def lease_slot_EMPTY_def)
qed

interpretation iova: invariant_system iova_initial iova_effect iova_inv
  by unfold_locales (auto intro: iova_inv_initial iova_inv_effect)

section \<open>Generations of a lease slot\<close>

definition lease_valid :: "iova_ledger \<Rightarrow> nat \<Rightarrow> nat \<Rightarrow> bool" where
  "lease_valid l i g \<longleftrightarrow> i < length (il_leases l) \<and> ls_active (il_leases l ! i) \<and> unat (ls_generation (il_leases l ! i)) = g"

definition lease_bound :: "iova_ledger \<Rightarrow> nat \<Rightarrow> nat" where
  "lease_bound l i = (if i < length (il_leases l) then Suc (unat (ls_generation (il_leases l ! i))) else 0)"

lemma iova_effect_slot:
  assumes "iova_effect l l'"
  shows "length (il_leases l') = length (il_leases l) \<and> (i < length (il_leases l) \<longrightarrow>
      ls_generation (il_leases l' ! i) = ls_generation (il_leases l ! i) \<and> (ls_active (il_leases l' ! i) \<longrightarrow> ls_active (il_leases l ! i))
      \<or> \<not> ls_active (il_leases l ! i) \<and> unat (ls_generation (il_leases l' ! i)) = Suc (unat (ls_generation (il_leases l ! i))))"
  using assms
proof cases
  case (issue k r)
  then have "free_slot l = Some k" by (simp add: grantable_def)
  note f = free_slotD[OF this]
  show ?thesis unfolding issue(1) using f unat_Suc_le[OF f(3)] by (auto simp: issue_def Let_def nth_update)
next
  case (release lease k sl)
  then show ?thesis by (auto simp: release_def slot_at_Some nth_update)
qed

interpretation leases: generation_ledger iova_initial iova_effect iova_inv lease_valid lease_bound
proof (unfold_locales, goal_cases)
  case (1 l i g)
  then show ?case by (auto simp: lease_valid_def lease_bound_def)
next
  case (2 l l' i)
  then show ?case using iova_effect_slot[OF 2(2), of i] by (auto simp: lease_bound_def)
next
  case (3 l l' i g)
  then show ?case using iova_effect_slot[OF 3(2), of i] by (auto simp: lease_valid_def lease_bound_def)
qed

section \<open>The ledger as a map from leases to ranges\<close>

definition lease_map :: "iova_ledger \<Rightarrow> iova_lease \<Rightarrow> iova_range option" where
  "lease_map l x = (case lease_range l x of Ok r \<Rightarrow> Some r | Err _ \<Rightarrow> None)"

lemma lease_map_Some: "lease_map l x = Some r \<longleftrightarrow> (\<exists>i sl. slot_at l x = Some (i, sl) \<and> r = ls_range sl)"
  by (auto simp: lease_map_def lease_range_def split: option.splits)

lemma lease_map_None: "lease_map l x = None \<longleftrightarrow> slot_at l x = None"
  by (auto simp: lease_map_def lease_range_def split: option.splits)

lemma lease_eqI:
  assumes "encoded_slot x = Some i" and "encoded_slot y = Some i" and "lease_generation x = lease_generation y"
  shows "x = y"
proof -
  have "unat ((ucast x :: u32) - 1) = unat ((ucast y :: u32) - 1)"
    using assms(1,2) by (auto simp: encoded_slot_def Let_def split: if_splits)
  then have "(ucast x :: u32) - 1 = ucast y - 1" by (simp only: word_unat_eq_iff[symmetric])
  then have lo: "(ucast x :: u32) = ucast y" by (metis diff_add_cancel)
  show ?thesis
  proof (rule bit_word_eqI)
    fix n assume n: "n < LENGTH(64)"
    show "bit x n = bit y n"
    proof (cases "n < 32")
      case True
      then have "bit (ucast x :: u32) n = bit x n" "bit (ucast y :: u32) n = bit y n" by (simp_all add: bit_simps)
      with lo show ?thesis by simp
    next
      case False
      then have "bit (lease_generation x) (n - 32) = bit x n" "bit (lease_generation y) (n - 32) = bit y n"
        using n False less_diff_conv2[of 32 n 32] by (auto simp: lease_generation_def bit_simps)
      with assms(3) show ?thesis by simp
    qed
  qed
qed

lemma lease_map_issue:
  assumes "iova_inv l" and "free_slot l = Some i" and "issue l i r = (Ok x, l')"
  shows "lease_map l x = None" and "lease_map l' = (lease_map l)(x \<mapsto> r)"
proof -
  let ?g = "ls_generation (il_leases l ! i) + 1"
  note f = free_slotD[OF assms(2)]
  have i: "i < 2 ^ 32 - 1" using f(1) iova_invD(1)[OF assms(1)] by simp
  have x: "x = lease_new i ?g" and l': "il_leases l' = (il_leases l)[i := \<lparr>ls_range = r, ls_generation = ?g, ls_active = True\<rparr>]"
    using assms(3) by (auto simp: issue_def Let_def)
  note d = lease_decode[OF i, of ?g, folded x]
  show "lease_map l x = None" unfolding lease_map_None using d f by (simp add: slot_at_def get_def)
  show "lease_map l' = (lease_map l)(x \<mapsto> r)"
  proof
    fix y
    show "lease_map l' y = ((lease_map l)(x \<mapsto> r)) y"
    proof (cases "encoded_slot y = Some i")
      case True
      then have "y = x \<longleftrightarrow> lease_generation y = ?g" using d lease_eqI[OF True d(1)] by auto
      with True d f show ?thesis
        by (simp add: lease_map_def lease_range_def slot_at_def get_def l')
    next
      case False
      then have "y \<noteq> x" using d(1) by blast
      with False show ?thesis by (auto simp: lease_map_def lease_range_def slot_at_def get_def l' split: option.split)
    qed
  qed
qed

lemma lease_map_release:
  assumes "slot_at l x = Some (i, sl)"
  shows "lease_map (snd (release l x)) = (lease_map l)(x := None)"
proof
  fix y
  note s = assms[unfolded slot_at_Some]
  show "lease_map (snd (release l x)) y = ((lease_map l)(x := None)) y"
  proof (cases "encoded_slot y = Some i")
    case True
    then show ?thesis using s lease_eqI[OF True] by (auto simp: release_def assms lease_map_def lease_range_def slot_at_def get_def)
  next
    case False
    then have "y \<noteq> x" using s by blast
    with False show ?thesis using s
      by (auto simp: release_def assms lease_map_def lease_range_def slot_at_def get_def split: option.split)
  qed
qed

lemma lease_map_disjoint:
  assumes "iova_inv l" and "lease_map l x = Some r" and "lease_map l y = Some s" and "x \<noteq> y"
  shows "\<not> range_overlaps r s"
proof -
  from assms(2,3) obtain i sl j sm where s: "slot_at l x = Some (i, sl)" "r = ls_range sl" "slot_at l y = Some (j, sm)" "s = ls_range sm"
    by (auto simp: lease_map_Some)
  have "i \<noteq> j" using s(1,3) assms(4) lease_eqI[of x i y] by (auto simp: slot_at_Some)
  then show ?thesis using iova_invD(3)[OF assms(1), of i j] s by (auto simp: slot_at_Some)
qed

lemma lease_map_ok:
  assumes "iova_inv l" and "lease_map l x = Some r"
  shows "range_ok r" and "range_contains (il_aperture l) r" and "b \<in> set (reserved_ranges l) \<Longrightarrow> \<not> range_overlaps r b"
proof -
  from assms(2) obtain i sl where "slot_at l x = Some (i, sl)" "r = ls_range sl" by (auto simp: lease_map_Some)
  then show "range_ok r" and "range_contains (il_aperture l) r" and "b \<in> set (reserved_ranges l) \<Longrightarrow> \<not> range_overlaps r b"
    using iova_invD(2)[OF assms(1), of i] by (auto simp: slot_at_Some lease_ok_def)
qed

lemma iova_steps_inv: "iova_initial l0 \<Longrightarrow> iova_step\<^sup>*\<^sup>* l0 l \<Longrightarrow> iova_inv l"
  using iova.inv_reachable iova_steps_effects by blast

section \<open>Properties\<close>

text \<open>
  C13 (invariant). In every reachable ledger two different live leases have disjoint ranges,
  and each range is a non-empty run of whole pages inside the aperture that avoids every
  reserved range.
\<close>

theorem iova_leases_disjoint:
  assumes "iova_initial l0" and "iova_step\<^sup>*\<^sup>* l0 l" and "lease_range l x = Ok r"
  shows "ir_start r < ir_end r \<and> 4096 dvd unat (ir_start r) \<and> 4096 dvd unat (ir_end r)
    \<and> range_contains (il_aperture l) r \<and> \<not> list_ex (range_overlaps r) (reserved_ranges l)
    \<and> (\<forall>y s. y \<noteq> x \<and> lease_range l y = Ok s \<longrightarrow> \<not> range_overlaps r s)"
proof -
  note inv = iova_steps_inv[OF assms(1,2)]
  have m: "lease_map l x = Some r" using assms(3) by (simp add: lease_map_def)
  have "\<not> range_overlaps r s" if "y \<noteq> x" "lease_range l y = Ok s" for y s
    using lease_map_disjoint[OF inv m, of y s] that by (auto simp: lease_map_def)
  then show ?thesis using lease_map_ok[OF inv m] by (auto simp: range_ok_def list_ex_iff)
qed

text \<open>
  C28 (termination). The first-fit search returns for every request that can be built, on
  any ledger whatever, and it finds the lowest fitting range: the result is aligned, has
  the requested length, lies in the aperture and hits no blocker, and no fitting range
  starts lower. It reports exhaustion only when nothing fits.
\<close>

theorem first_fit_lowest:
  assumes "request_new pages alignment = Ok q"
  shows "\<exists>res. first_fit l q = Some res
    \<and> (case res of
         Ok r \<Rightarrow> fits l (unat pages * 4096) (unat alignment * 4096) r
           \<and> (\<forall>r'. fits l (unat pages * 4096) (unat alignment * 4096) r' \<longrightarrow> ir_start r \<le> ir_start r')
       | Err e \<Rightarrow> e = AddressSpaceExhausted \<and> \<not> (\<exists>r. fits l (unat pages * 4096) (unat alignment * 4096) r))"
proof -
  have q: "request_ok q" "rq_page_count q = pages" "rq_alignment_pages q = alignment" using assms by (auto simp: request_new_Ok)
  show ?thesis using first_fit_correct[OF q(1), of l] unfolding q(2,3) lowest_fit_def .
qed

text \<open>
  C33 (refinement). The ledger implements a partial map from leases to ranges. A reservation
  always returns; it binds one fresh lease to a lowest fitting range or leaves the ledger as
  it was, for want of a slot or of space. Releasing removes exactly the binding of the
  lease and returns its range, and a lease that is not bound is refused.
\<close>

theorem ledger_refines_map:
  assumes "iova_initial l0" and "iova_step\<^sup>*\<^sup>* l0 l" and "request_new pages alignment = Ok q"
  shows "(\<exists>res l'. reserve l q = Some (res, l') \<and>
       (case res of
          Ok x \<Rightarrow> lease_map l x = None \<and> (\<exists>r. first_fit l q = Some (Ok r) \<and> lease_map l' = (lease_map l)(x \<mapsto> r))
        | Err e \<Rightarrow> l' = l \<and> (e = LeaseCapacity \<and> free_slot l = None
             \<or> e = AddressSpaceExhausted \<and> \<not> (\<exists>r. fits l (unat pages * 4096) (unat alignment * 4096) r))))
    \<and> (case release l x of
         (Ok r, l') \<Rightarrow> lease_map l x = Some r \<and> lease_map l' = (lease_map l)(x := None)
       | (Err e, l') \<Rightarrow> e = StaleLease \<and> lease_map l x = None \<and> l' = l)"
proof
  note inv = iova_steps_inv[OF assms(1,2)]
  have q: "request_ok q" "rq_page_count q = pages" "rq_alignment_pages q = alignment" using assms(3) by (auto simp: request_new_Ok)
  from q(1) show "\<exists>res l'. reserve l q = Some (res, l') \<and>
       (case res of
          Ok x \<Rightarrow> lease_map l x = None \<and> (\<exists>r. first_fit l q = Some (Ok r) \<and> lease_map l' = (lease_map l)(x \<mapsto> r))
        | Err e \<Rightarrow> l' = l \<and> (e = LeaseCapacity \<and> free_slot l = None
             \<or> e = AddressSpaceExhausted \<and> \<not> (\<exists>r. fits l (unat pages * 4096) (unat alignment * 4096) r)))"
  proof (cases rule: reserve_cases[of q l])
    case (granted i r)
    obtain x l' where i: "issue l i r = (Ok x, l')" by (auto simp: issue_def Let_def)
    with granted lease_map_issue[OF inv granted(2) i] show ?thesis by auto
  qed (use q in auto)
  show "case release l x of
         (Ok r, l') \<Rightarrow> lease_map l x = Some r \<and> lease_map l' = (lease_map l)(x := None)
       | (Err e, l') \<Rightarrow> e = StaleLease \<and> lease_map l x = None \<and> l' = l"
  proof (cases "slot_at l x")
    case None
    then show ?thesis by (simp add: release_def lease_map_None)
  next
    case (Some p)
    then obtain i sl where p: "slot_at l x = Some (i, sl)" by (cases p) auto
    with lease_map_release[OF p] show ?thesis by (simp add: release_def lease_map_def lease_range_def)
  qed
qed

definition batch_bound :: "iova_ledger \<Rightarrow> iova_request list \<Rightarrow> iova_ledger \<Rightarrow> iova_lease list \<Rightarrow> bool" where
  "batch_bound l qs l' out \<longleftrightarrow> length out = length qs \<and> distinct out
     \<and> list_all (\<lambda>x. lease_map l x = None) out
     \<and> list_all2 (\<lambda>q x. case lease_map l' x of None \<Rightarrow> False
          | Some r \<Rightarrow> unat (ir_end r) = unat (ir_start r) + unat (rq_page_count q) * 4096
                      \<and> unat (rq_alignment_pages q) * 4096 dvd unat (ir_start r)) qs out
     \<and> lease_map l \<subseteq>\<^sub>m lease_map l'"

lemma stage_bound:
  assumes "\<forall>q \<in> set qs. request_ok q" and "iova_inv l" and "stage l qs staged = Some (Ok (out, l'))"
  shows "\<exists>new. out = staged @ new \<and> batch_bound l qs l' new"
  using assms
proof (induction qs arbitrary: l staged)
  case Nil
  then show ?case by (simp add: batch_bound_def)
next
  case (Cons q qs)
  have q: "request_ok q" using Cons.prems(1) by simp
  from q show ?case
  proof (cases rule: reserve_cases[of q l])
    case (granted i r)
    obtain x l1 where i: "issue l i r = (Ok x, l1)" by (auto simp: issue_def Let_def)
    note m = lease_map_issue[OF Cons.prems(2) granted(2) i]
    have "iova_inv l1" using iova_inv_effect[OF Cons.prems(2) iova_effect.issue[OF granted(3)]] i by simp
    moreover have "stage l1 qs (staged @ [x]) = Some (Ok (out, l'))" using Cons.prems(3) granted(1) i by simp
    ultimately obtain new where new: "out = (staged @ [x]) @ new" "batch_bound l1 qs l' new"
      using Cons.IH[of l1 "staged @ [x]"] Cons.prems(1) by auto
    have sub: "lease_map l \<subseteq>\<^sub>m lease_map l1" using m by (auto simp: map_le_def)
    have "lease_map l' x = Some r" using new(2) m(2) by (auto simp: batch_bound_def map_le_def dom_def)
    moreover have "fits l (unat (rq_page_count q) * 4096) (unat (rq_alignment_pages q) * 4096) r"
      using first_fit_correct[OF q, of l] granted(4) by (simp add: lowest_fit_def)
    moreover have fresh: "lease_map l y = None \<and> y \<noteq> x" if "y \<in> set new" for y
      using new(2) that m(2) by (auto simp: batch_bound_def list_all_iff split: if_splits)
    ultimately have "batch_bound l (q # qs) l' (x # new)"
      using new(2) m(1) map_le_trans[OF sub] unfolding batch_bound_def by (auto simp: fits_def list_all_iff)
    with new(1) show ?thesis by auto
  qed (use Cons.prems(3) in simp_all)
qed

text \<open>
  A batch is all or nothing. It always returns; on an error neither the ledger
  nor the output changes, and on success every request has its own fresh lease, in order,
  bound to a range of the requested length and alignment, while every lease that was live
  keeps its range.
\<close>

theorem reserve_many_atomic:
  assumes "iova_initial l0" and "iova_step\<^sup>*\<^sup>* l0 l"
    and "list_all (\<lambda>q. request_new (rq_page_count q) (rq_alignment_pages q) = Ok q) qs"
  shows "\<exists>res l' out'. reserve_many l qs out = Some (res, l', out')
    \<and> (case res of Err e \<Rightarrow> l' = l \<and> out' = out | Ok _ \<Rightarrow> batch_bound l qs l' out')"
proof -
  have ok: "\<forall>q \<in> set qs. request_ok q" using assms(3) by (auto simp: list_all_iff request_new_Ok)
  then show ?thesis
  proof (cases rule: reserve_many_cases[of qs l out])
    case (all staged l')
    with stage_bound[OF ok iova_steps_inv[OF assms(1,2)] all(1)] show ?thesis by simp
  qed auto
qed

text \<open>
  Building a ledger succeeds exactly when the reserved ranges lie in the
  aperture and do not overlap, and then the insertion loop has sorted them: the reserved
  ranges are the given ones, ordered by their starts, and no lease is live.
\<close>

theorem ledger_new_sorts_reserved:
  assumes "0 < LEASES" and "LEASES < 2 ^ 32" and "length reserved \<le> RESERVED"
    and "list_all (\<lambda>r. range_new (ir_start r) (range_length r) = Ok r) reserved"
  shows "((\<exists>l. ledger_new LEASES RESERVED aperture reserved = Ok l)
       = (list_all (range_contains aperture) reserved \<and> sorted_wrt (\<lambda>a b. \<not> range_overlaps a b) reserved))
    \<and> (\<forall>l. ledger_new LEASES RESERVED aperture reserved = Ok l \<longrightarrow>
         sorted (map ir_start (reserved_ranges l)) \<and> mset (reserved_ranges l) = mset reserved \<and> (\<forall>x. lease_map l x = None))"
proof -
  have "\<forall>r \<in> set reserved. range_ok r" using assms(4) range_new_ok by (auto simp: list_all_iff)
  note n = ledger_new_cases[OF assms(1-3) this, of aperture]
  have "lease_map l x = None" if "il_leases l = replicate LEASES lease_slot_EMPTY" for l x
    unfolding lease_map_None using that by (auto simp: slot_at_def get_def lease_slot_EMPTY_def split: option.split)
  with n show ?thesis by (cases "ledger_new LEASES RESERVED aperture reserved") (auto simp: reserved_ok_def list_all_iff)
qed

text \<open>
  Once a lease has been released it is refused in every later state, whoever
  owns its slot by then.
\<close>

theorem released_lease_dead:
  assumes "iova_initial l0" and "iova_step\<^sup>*\<^sup>* l0 l" and "release l x = (Ok r, l')" and "iova_step\<^sup>*\<^sup>* l' l''"
  shows "lease_range l'' x = Err StaleLease \<and> release l'' x = (Err StaleLease, l'')"
proof -
  note inv = iova_steps_inv[OF assms(1,2)]
  obtain i sl where s: "slot_at l x = Some (i, sl)" using assms(3) by (auto simp: release_def split: option.splits)
  note s' = s[unfolded slot_at_Some]
  have e: "iova_effect l l'" using iova_effect.release[OF s] assms(3) by simp
  have "lease_valid l i (unat (lease_generation x))" using s' by (auto simp: lease_valid_def)
  moreover have "\<not> lease_valid l' i (unat (lease_generation x))" using s' assms(3) by (auto simp: release_def s lease_valid_def)
  ultimately have "\<not> lease_valid l'' i (unat (lease_generation x))"
    by (rule leases.stale_forever[OF inv _ e _ iova_steps_effects[OF assms(4)]])
  then have "slot_at l'' x = None" using s' by (auto simp: slot_at_def get_def lease_valid_def)
  then show ?thesis by (simp add: lease_range_def release_def)
qed

section \<open>A sample ledger\<close>

text \<open>An aperture of eight pages with one reserved page and two lease slots.\<close>

definition sample_aperture :: iova_range where
  "sample_aperture = \<lparr>ir_start = 0x1000, ir_end = 0x9000\<rparr>"

definition sample_hole :: iova_range where
  "sample_hole = \<lparr>ir_start = 0x3000, ir_end = 0x4000\<rparr>"

definition sample_ledger :: iova_ledger where
  "sample_ledger = \<lparr>il_aperture = sample_aperture, il_reserved = [sample_hole], il_reserved_count = 1,
     il_leases = [lease_slot_EMPTY, lease_slot_EMPTY], il_active_count = 0\<rparr>"

definition sample_page :: iova_range where
  "sample_page = \<lparr>ir_start = 0x1000, ir_end = 0x2000\<rparr>"

definition sample_leased :: iova_ledger where
  "sample_leased = sample_ledger\<lparr>il_leases := [\<lparr>ls_range = sample_page, ls_generation = 1, ls_active = True\<rparr>, lease_slot_EMPTY],
     il_active_count := 1\<rparr>"

definition sample_request :: iova_request where
  "sample_request = \<lparr>rq_page_count = 1, rq_alignment_pages = 1\<rparr>"

lemmas sample_iova_defs = sample_aperture_def sample_hole_def sample_ledger_def sample_page_def sample_leased_def
  sample_request_def lease_slot_EMPTY_def range_EMPTY_def

lemma sample_ranges:
  "range_new 0x1000 0x8000 = Ok sample_aperture" "range_new 0x3000 0x1000 = Ok sample_hole" "range_new 0x1000 0x1000 = Ok sample_page"
  by (simp_all add: range_new_def checked_add_def sample_iova_defs)

lemma sample_ledger_new: "ledger_new 2 1 sample_aperture [sample_hole] = Ok sample_ledger"
proof -
  have "replicate 2 x = [x, x]" for x :: lease_slot by (simp add: numeral_2_eq_2)
  then show ?thesis
    by (simp add: ledger_new_def insert_reserved_def reserved_ranges_def range_contains_def shift_up_def sample_ledger_def
      sample_aperture_def sample_hole_def)
qed

lemma sample_ledger_initial: "iova_initial sample_ledger"
  unfolding iova_initial_def
  by (rule exI[of _ 2], rule exI[of _ 1], rule exI[of _ "0x1000"], rule exI[of _ "0x8000"], rule exI[of _ sample_aperture],
      rule exI[of _ "[sample_hole]"]) (use sample_ranges sample_ledger_new in auto)

lemma sample_reserve_exact: "reserve_exact sample_ledger sample_page = (Ok (lease_new 0 1), sample_leased)"
  by (simp add: reserve_exact_def reserved_ranges_def range_contains_def range_overlaps_def free_slot_def issue_def Let_def sample_iova_defs)

lemma sample_leased_step: "iova_step\<^sup>*\<^sup>* sample_ledger sample_leased"
  using iova_step.reserve_exact[OF sample_ranges(3) sample_reserve_exact] by blast

lemma sample_lease_range: "lease_range sample_leased (lease_new 0 1) = Ok sample_page"
  by (simp add: lease_range_def slot_at_def lease_decode get_def sample_iova_defs)

lemma sample_request_new: "request_new 1 1 = Ok sample_request"
proof -
  have "(1 :: u64) = 2 ^ 0" by simp
  then have "is_power_of_two 1" unfolding is_power_of_two_def by (intro bexI[of _ 0]) simp_all
  then show ?thesis by (simp add: request_new_def checked_mul_def sample_request_def)
qed

theorem iova_leases_disjoint_witness:
  "lease_range sample_leased (lease_new 0 1) = Ok sample_page \<and> \<not> list_ex (range_overlaps sample_page) (reserved_ranges sample_leased)"
  using iova_leases_disjoint[OF sample_ledger_initial sample_leased_step sample_lease_range] sample_lease_range by blast

theorem first_fit_lowest_witness:
  "request_new 1 1 = Ok sample_request \<and> (\<exists>res. first_fit sample_leased sample_request = Some res)"
  using first_fit_lowest[OF sample_request_new, of sample_leased] sample_request_new by blast

theorem ledger_refines_map_witness:
  "request_new 1 1 = Ok sample_request \<and> (\<exists>res l'. reserve sample_leased sample_request = Some (res, l'))
   \<and> lease_map (snd (release sample_leased (lease_new 0 1))) = (lease_map sample_leased)(lease_new 0 1 := None)"
proof -
  have r: "release sample_leased (lease_new 0 1) = (Ok sample_page, snd (release sample_leased (lease_new 0 1)))"
    by (simp add: release_def slot_at_def lease_decode get_def sample_iova_defs)
  note t = ledger_refines_map[OF sample_ledger_initial sample_leased_step sample_request_new, of "lease_new 0 1"]
  from conjunct2[OF t] r have "lease_map (snd (release sample_leased (lease_new 0 1))) = (lease_map sample_leased)(lease_new 0 1 := None)"
    by (metis (mono_tags, lifting) prod.case sum.case(2))
  then show ?thesis using conjunct1[OF t] sample_request_new by blast
qed

theorem reserve_many_atomic_witness:
  "\<exists>res l' out'. reserve_many sample_leased [sample_request] [0] = Some (res, l', out')
    \<and> (case res of Err e \<Rightarrow> l' = sample_leased \<and> out' = [0] | Ok _ \<Rightarrow> batch_bound sample_leased [sample_request] l' out')"
proof -
  have "list_all (\<lambda>q. request_new (rq_page_count q) (rq_alignment_pages q) = Ok q) [sample_request]"
    using sample_request_new by (simp add: sample_request_def)
  from reserve_many_atomic[OF sample_ledger_initial sample_leased_step this, of "[0]"] show ?thesis .
qed

theorem ledger_new_sorts_reserved_witness:
  "ledger_new 2 1 sample_aperture [sample_hole] = Ok sample_ledger \<and> mset (reserved_ranges sample_ledger) = mset [sample_hole]"
proof -
  have "list_all (\<lambda>r. range_new (ir_start r) (range_length r) = Ok r) [sample_hole]"
    using sample_ranges(2) by (simp add: sample_hole_def range_length_def)
  from ledger_new_sorts_reserved[of 2 "[sample_hole]" 1, OF _ _ _ this] sample_ledger_new show ?thesis by simp
qed

theorem released_lease_dead_witness:
  "release sample_leased (lease_new 0 1) = (Ok sample_page, snd (release sample_leased (lease_new 0 1)))
   \<and> lease_range (snd (release sample_leased (lease_new 0 1))) (lease_new 0 1) = Err StaleLease"
proof -
  have r: "release sample_leased (lease_new 0 1) = (Ok sample_page, snd (release sample_leased (lease_new 0 1)))"
    by (simp add: release_def slot_at_def lease_decode get_def sample_iova_defs)
  from released_lease_dead[OF sample_ledger_initial sample_leased_step r rtranclp.rtrancl_refl] r show ?thesis by blast
qed

end
