(* ===== verification/LeaseLattice.thy ===== *)
theory LeaseLattice
  imports Prelude
begin

text \<open>
  Delegated leases, \<^verbatim>\<open>src/kernel/boulder/src/lease_lattice.rs\<close>. The state behind the spin
  lock and the secret beside it are one record, and every call is one step. The capability
  argument of \<open>issue_root\<close> and \<open>revoke\<close> carries no data and is left out. The keyed tag is
  computed as the code computes it; nothing below relies on it being hard to forge. The
  lemmas show that admissions never exceed the quota of the issued roots, that a delegated
  lease is never stronger than its ancestors, and what the 16-bit generations cost.
\<close>

abbreviation ROOT_PARENT :: u16 where "ROOT_PARENT \<equiv> 0xffff"
abbreviation MAXIMUM_DELEGATION_DEPTH :: u8 where "MAXIMUM_DELEGATION_DEPTH \<equiv> 8"

section \<open>Rights and tokens\<close>

type_synonym lease_rights = u32

definition OBSERVE :: lease_rights where "OBSERVE = push_bit 0 1"
definition SCHEDULE :: lease_rights where "SCHEDULE = push_bit 1 1"
definition RESONANCE :: lease_rights where "RESONANCE = push_bit 2 1"
definition CONTROL :: lease_rights where "CONTROL = push_bit 3 1"
definition DELEGATE :: lease_rights where "DELEGATE = push_bit 31 1"

definition ALL_RIGHTS :: lease_rights where
  "ALL_RIGHTS = OBSERVE OR SCHEDULE OR RESONANCE OR CONTROL OR DELEGATE"

definition rights_contains :: "lease_rights \<Rightarrow> lease_rights \<Rightarrow> bool" where
  "rights_contains r required \<longleftrightarrow> r AND required = required"

definition rights_intersect :: "lease_rights \<Rightarrow> lease_rights \<Rightarrow> lease_rights" where
  "rights_intersect r other = r AND other"

definition rights_union :: "lease_rights \<Rightarrow> lease_rights \<Rightarrow> lease_rights" where
  "rights_union r other = r OR other"

type_synonym lease_token = u64

definition token_new :: "u16 \<Rightarrow> u16 \<Rightarrow> u32 \<Rightarrow> lease_token" where
  "token_new slot generation tag =
     ucast slot OR push_bit 16 (ucast generation) OR push_bit 32 (ucast tag)"

definition token_slot :: "lease_token \<Rightarrow> nat" where
  "token_slot t = unat (ucast t :: u16)"

definition token_generation :: "lease_token \<Rightarrow> u16" where
  "token_generation t = ucast (drop_bit 16 t)"

definition token_tag :: "lease_token \<Rightarrow> u32" where
  "token_tag t = ucast (drop_bit 32 t)"

section \<open>The table\<close>

record lease_record =
  lr_active :: bool
  lr_generation :: u16
  lr_depth :: u8
  lr_rights :: lease_rights
  lr_parent_slot :: u16
  lr_parent_generation :: u16
  lr_not_before :: u64
  lr_expires_at :: u64
  lr_quota_limit :: u32
  lr_uses :: u32
  lr_tag :: u32

definition lease_record_EMPTY :: lease_record where
  "lease_record_EMPTY = \<lparr>lr_active = False, lr_generation = 1, lr_depth = 0, lr_rights = 0,
     lr_parent_slot = ROOT_PARENT, lr_parent_generation = 0, lr_not_before = 0, lr_expires_at = 0,
     lr_quota_limit = 0, lr_uses = 0, lr_tag = 0\<rparr>"

record lattice =
  lt_secret :: u64
  lt_records :: "lease_record list"
  lt_issuance_nonce :: u64

definition lattice_new :: "nat \<Rightarrow> u64 \<Rightarrow> lattice" where
  "lattice_new N secret = \<lparr>lt_secret = secret, lt_records = replicate N lease_record_EMPTY, lt_issuance_nonce = 1\<rparr>"

datatype lease_error = Capacity | Invalid | Forged | NotYetValid | Expired | Exhausted | MissingRight
  | CannotDelegate | RightsAmplification | InvalidLifetime | InvalidQuota | DelegationDepth

record lease_admission =
  la_rights :: lease_rights
  la_remaining_uses :: u32
  la_expires_at :: u64
  la_depth :: u8

definition mix :: "u64 \<Rightarrow> u64 \<Rightarrow> u64" where
  "mix state v =
     (let state = state XOR (v + 0x9e3779b97f4a7c15);
          state = word_rotl 29 state;
          state = state * 0xbf58476d1ce4e5b9
      in state XOR drop_bit 31 state)"

definition seal :: "u64 \<Rightarrow> nat \<Rightarrow> lease_record \<Rightarrow> u64 \<Rightarrow> u32" where
  "seal secret slot r nonce =
     (let state = secret XOR word_rotl 17 nonce;
          state = mix state (of_nat slot);
          state = mix state (ucast (lr_generation r));
          state = mix state (ucast (lr_rights r));
          state = mix state (lr_not_before r);
          state = mix state (lr_expires_at r);
          state = mix state (ucast (lr_quota_limit r));
          state = mix state (ucast (lr_parent_slot r) OR push_bit 16 (ucast (lr_parent_generation r)))
      in ucast (state XOR drop_bit 32 state))"

definition validate_lifetime :: "u64 \<Rightarrow> u64 \<Rightarrow> lease_error + unit" where
  "validate_lifetime not_before expires_at =
     (if expires_at = 0 \<or> expires_at \<le> not_before then Err InvalidLifetime else Ok ())"

definition validate_token_without_time :: "lattice \<Rightarrow> lease_token \<Rightarrow> lease_error + nat" where
  "validate_token_without_time s token =
     (case get (lt_records s) (token_slot token) of
        None \<Rightarrow> Err Invalid
      | Some r \<Rightarrow>
          if \<not> lr_active r \<or> lr_generation r \<noteq> token_generation token then Err Invalid
          else if lr_tag r \<noteq> token_tag token then Err Forged
          else Ok (token_slot token))"

definition validate_token :: "lattice \<Rightarrow> lease_token \<Rightarrow> u64 \<Rightarrow> lease_error + nat" where
  "validate_token s token now_tick =
     (case validate_token_without_time s token of
        Err e \<Rightarrow> Err e
      | Ok index \<Rightarrow>
          (let r = lt_records s ! index in
           if now_tick < lr_not_before r then Err NotYetValid
           else if now_tick > lr_expires_at r then Err Expired
           else Ok index))"

text \<open>The walk to the root; it takes at most nine turns.\<close>

function validate_ancestry_loop :: "lattice \<Rightarrow> nat \<Rightarrow> u8 \<Rightarrow> lease_error + unit" where
  "validate_ancestry_loop s current traversed =
     (let r = lt_records s ! current in
      if lr_parent_slot r = ROOT_PARENT then Ok ()
      else
        (let traversed' = saturating_add traversed 1 in
         if traversed' > MAXIMUM_DELEGATION_DEPTH then Err DelegationDepth
         else
           (let parent_index = unat (lr_parent_slot r) in
            case get (lt_records s) parent_index of
              None \<Rightarrow> Err Invalid
            | Some parent \<Rightarrow>
                if \<not> lr_active parent \<or> lr_generation parent \<noteq> lr_parent_generation r then Err Invalid
                else validate_ancestry_loop s parent_index traversed')))"
  by pat_completeness auto

termination
proof (relation "measure (\<lambda>(s, current, traversed). 9 - unat (traversed :: u8))")
  fix s current traversed r traversed' parent_index parent
  assume "traversed' = saturating_add traversed (1 :: u8)" and "\<not> traversed' > MAXIMUM_DELEGATION_DEPTH"
  then have "unat traversed' = unat traversed + 1" and "unat traversed' \<le> 8"
    by (auto simp: unat_saturating_add not_less word_le_nat_alt min_def split: if_splits)
  then show "((s, parent_index, traversed'), (s, current, traversed)) \<in> measure (\<lambda>(s, current, traversed). 9 - unat traversed)"
    by simp
qed simp

definition validate_ancestry :: "lattice \<Rightarrow> nat \<Rightarrow> lease_error + unit" where
  "validate_ancestry s start = validate_ancestry_loop s start 0"

section \<open>The calls\<close>

definition bump :: "u16 \<Rightarrow> u16" where
  "bump generation = max (generation + 1) 1"

definition next_nonce :: "u64 \<Rightarrow> u64" where
  "next_nonce nonce = max (nonce + 1) 1"

definition first_inactive :: "lattice \<Rightarrow> nat option" where
  "first_inactive s = position (\<lambda>r. \<not> lr_active r) (lt_records s)"

definition issue_root :: "lattice \<Rightarrow> lease_rights \<Rightarrow> u64 \<Rightarrow> u64 \<Rightarrow> u32 \<Rightarrow> (lease_error + lease_token) \<times> lattice" where
  "issue_root s rights not_before expires_at quota =
     (case validate_lifetime not_before expires_at of
        Err e \<Rightarrow> (Err e, s)
      | Ok _ \<Rightarrow>
          if quota = 0 then (Err InvalidQuota, s)
          else
            (case first_inactive s of
               None \<Rightarrow> (Err Capacity, s)
             | Some slot \<Rightarrow>
                 (let generation = bump (lr_generation (lt_records s ! slot));
                      nonce = lt_issuance_nonce s;
                      r = \<lparr>lr_active = True, lr_generation = generation, lr_depth = 0, lr_rights = rights,
                           lr_parent_slot = ROOT_PARENT, lr_parent_generation = 0, lr_not_before = not_before,
                           lr_expires_at = expires_at, lr_quota_limit = quota, lr_uses = 0, lr_tag = 0\<rparr>;
                      tag = seal (lt_secret s) slot r nonce
                  in (Ok (token_new (of_nat slot) generation tag),
                      s\<lparr>lt_records := (lt_records s)[slot := r\<lparr>lr_tag := tag\<rparr>],
                        lt_issuance_nonce := next_nonce nonce\<rparr>))))"

definition attenuate :: "lattice \<Rightarrow> lease_token \<Rightarrow> lease_rights \<Rightarrow> u64 \<Rightarrow> u32 \<Rightarrow> u64 \<Rightarrow> (lease_error + lease_token) \<times> lattice" where
  "attenuate s parent_token rights expires_at quota now_tick =
     (if quota = 0 then (Err InvalidQuota, s)
      else
        (case validate_token s parent_token now_tick of
           Err e \<Rightarrow> (Err e, s)
         | Ok parent_index \<Rightarrow>
             (case validate_ancestry s parent_index of
                Err e \<Rightarrow> (Err e, s)
              | Ok _ \<Rightarrow>
                  (let parent = lt_records s ! parent_index in
                   if \<not> rights_contains (lr_rights parent) DELEGATE then (Err CannotDelegate, s)
                   else if lr_depth parent \<ge> MAXIMUM_DELEGATION_DEPTH then (Err DelegationDepth, s)
                   else if \<not> rights_contains (lr_rights parent) rights then (Err RightsAmplification, s)
                   else if expires_at > lr_expires_at parent \<or> expires_at \<le> now_tick then (Err InvalidLifetime, s)
                   else if quota > saturating_sub (lr_quota_limit parent) (lr_uses parent) then (Err InvalidQuota, s)
                   else
                     (case first_inactive s of
                        None \<Rightarrow> (Err Capacity, s)
                      | Some child_index \<Rightarrow>
                          (let generation = bump (lr_generation (lt_records s ! child_index));
                               nonce = lt_issuance_nonce s;
                               records = (lt_records s)[parent_index := parent\<lparr>lr_uses := saturating_add (lr_uses parent) quota\<rparr>];
                               child = \<lparr>lr_active = True, lr_generation = generation,
                                  lr_depth = saturating_add (lr_depth parent) 1,
                                  lr_rights = rights_intersect (lr_rights parent) rights,
                                  lr_parent_slot = of_nat parent_index, lr_parent_generation = lr_generation parent,
                                  lr_not_before = now_tick, lr_expires_at = expires_at, lr_quota_limit = quota,
                                  lr_uses = 0, lr_tag = 0\<rparr>;
                               tag = seal (lt_secret s) child_index child nonce
                           in (Ok (token_new (of_nat child_index) generation tag),
                               s\<lparr>lt_records := records[child_index := child\<lparr>lr_tag := tag\<rparr>],
                                 lt_issuance_nonce := next_nonce nonce\<rparr>)))))))"

definition admit :: "lattice \<Rightarrow> lease_token \<Rightarrow> lease_rights \<Rightarrow> u64 \<Rightarrow> (lease_error + lease_admission) \<times> lattice" where
  "admit s token required now_tick =
     (case validate_token s token now_tick of
        Err e \<Rightarrow> (Err e, s)
      | Ok index \<Rightarrow>
          (case validate_ancestry s index of
             Err e \<Rightarrow> (Err e, s)
           | Ok _ \<Rightarrow>
               (let r = lt_records s ! index in
                if \<not> rights_contains (lr_rights r) required then (Err MissingRight, s)
                else if lr_uses r \<ge> lr_quota_limit r then (Err Exhausted, s)
                else
                  (let r' = r\<lparr>lr_uses := saturating_add (lr_uses r) 1\<rparr> in
                   (Ok \<lparr>la_rights = lr_rights r', la_remaining_uses = saturating_sub (lr_quota_limit r') (lr_uses r'),
                        la_expires_at = lr_expires_at r', la_depth = lr_depth r'\<rparr>,
                    s\<lparr>lt_records := (lt_records s)[index := r']\<rparr>)))))"

definition revoke :: "lattice \<Rightarrow> lease_token \<Rightarrow> (lease_error + unit) \<times> lattice" where
  "revoke s token =
     (case validate_token_without_time s token of
        Err e \<Rightarrow> (Err e, s)
      | Ok index \<Rightarrow>
          (Ok (), s\<lparr>lt_records := (lt_records s)[index :=
             lease_record_EMPTY\<lparr>lr_generation := bump (lr_generation (lt_records s ! index))\<rparr>]\<rparr>))"

section \<open>Sequences of calls\<close>

datatype lease_call =
    IssueRoot lease_rights u64 u64 u32
  | Attenuate lease_token lease_rights u64 u32 u64
  | Admit lease_token lease_rights u64
  | Revoke lease_token

fun lease_exec :: "lattice \<Rightarrow> lease_call \<Rightarrow> lattice" where
  "lease_exec s (IssueRoot rights not_before expires_at quota) = snd (issue_root s rights not_before expires_at quota)"
| "lease_exec s (Attenuate token rights expires_at quota now) = snd (attenuate s token rights expires_at quota now)"
| "lease_exec s (Admit token required now) = snd (admit s token required now)"
| "lease_exec s (Revoke token) = snd (revoke s token)"

definition lease_run :: "lattice \<Rightarrow> lease_call list \<Rightarrow> lattice" where
  "lease_run s cs = foldl lease_exec s cs"

section \<open>What each call changes\<close>

lemma first_inactiveD:
  "first_inactive s = Some i \<Longrightarrow> i < length (lt_records s) \<and> \<not> lr_active (lt_records s ! i)"
  by (auto simp: first_inactive_def dest: position_SomeD)

lemma validate_token_without_time_Ok:
  "validate_token_without_time s t = Ok i \<longleftrightarrow> i = token_slot t \<and> i < length (lt_records s) \<and> lr_active (lt_records s ! i)
     \<and> lr_generation (lt_records s ! i) = token_generation t \<and> lr_tag (lt_records s ! i) = token_tag t"
  by (auto simp: validate_token_without_time_def get_def split: option.splits)

lemma validate_token_Ok:
  "validate_token s t now = Ok i \<longleftrightarrow> validate_token_without_time s t = Ok i
     \<and> lr_not_before (lt_records s ! i) \<le> now \<and> now \<le> lr_expires_at (lt_records s ! i)"
  by (auto simp: validate_token_def Let_def split: sum.splits)

definition filled :: "lattice \<Rightarrow> nat \<Rightarrow> lease_record \<Rightarrow> lease_token \<Rightarrow> bool" where
  "filled s i r t \<longleftrightarrow> first_inactive s = Some i \<and> lr_active r \<and> lr_generation r = bump (lr_generation (lt_records s ! i))
     \<and> lr_uses r = 0 \<and> t = token_new (of_nat i) (lr_generation r) (lr_tag r)"

lemma issue_root_cases:
  obtains (issued) i r t where "filled s i r t"
      and "issue_root s rights nb ex q = (Ok t, s\<lparr>lt_records := (lt_records s)[i := r], lt_issuance_nonce := next_nonce (lt_issuance_nonce s)\<rparr>)"
      and "lr_depth r = 0" and "lr_rights r = rights" and "lr_parent_slot r = ROOT_PARENT" and "lr_not_before r = nb"
      and "lr_expires_at r = ex" and "lr_quota_limit r = q"
  | (refused) e where "issue_root s rights nb ex q = (Err e, s)"
proof (cases "ex = 0 \<or> ex \<le> nb \<or> q = 0 \<or> first_inactive s = None")
  case True
  then have "\<exists>e. issue_root s rights nb ex q = (Err e, s)"
    by (auto simp: issue_root_def validate_lifetime_def)
  with refused show thesis by blast
next
  case False
  then obtain i where i: "first_inactive s = Some i" by blast
  define r where "r = \<lparr>lr_active = True, lr_generation = bump (lr_generation (lt_records s ! i)), lr_depth = 0, lr_rights = rights,
     lr_parent_slot = ROOT_PARENT, lr_parent_generation = 0, lr_not_before = nb, lr_expires_at = ex, lr_quota_limit = q,
     lr_uses = 0, lr_tag = 0\<rparr>"
  show thesis
    using False i by (intro issued[of i "r\<lparr>lr_tag := seal (lt_secret s) i r (lt_issuance_nonce s)\<rparr>"
        "token_new (of_nat i) (lr_generation r) (seal (lt_secret s) i r (lt_issuance_nonce s))"])
      (simp_all add: issue_root_def validate_lifetime_def Let_def r_def filled_def)
qed

text \<open>The guards of a delegation, and the child it makes.\<close>

definition delegable :: "lattice \<Rightarrow> lease_token \<Rightarrow> lease_rights \<Rightarrow> u64 \<Rightarrow> u32 \<Rightarrow> u64 \<Rightarrow> nat \<Rightarrow> bool" where
  "delegable s pt rights ex q now p \<longleftrightarrow> q \<noteq> 0 \<and> validate_token s pt now = Ok p \<and> validate_ancestry s p = Ok ()
     \<and> (let r = lt_records s ! p in rights_contains (lr_rights r) DELEGATE \<and> lr_depth r < 8 \<and> rights_contains (lr_rights r) rights
        \<and> ex \<le> lr_expires_at r \<and> now < ex \<and> q \<le> saturating_sub (lr_quota_limit r) (lr_uses r))"

definition child_of :: "lease_record \<Rightarrow> nat \<Rightarrow> lease_rights \<Rightarrow> u64 \<Rightarrow> u32 \<Rightarrow> u64 \<Rightarrow> lease_record \<Rightarrow> bool" where
  "child_of parent p rights ex q now r \<longleftrightarrow> lr_depth r = lr_depth parent + 1 \<and> lr_rights r = rights \<and> lr_parent_slot r = of_nat p
     \<and> lr_parent_generation r = lr_generation parent \<and> lr_not_before r = now \<and> lr_expires_at r = ex \<and> lr_quota_limit r = q"

lemma delegable_quota:
  assumes "delegable s pt rights ex q now p"
  shows "unat q + unat (lr_uses (lt_records s ! p)) \<le> unat (lr_quota_limit (lt_records s ! p))"
proof -
  have "0 < unat q" "unat q \<le> unat (lr_quota_limit (lt_records s ! p)) - unat (lr_uses (lt_records s ! p))"
    using assms by (simp_all add: delegable_def Let_def word_le_nat_alt unat_gt_0)
  then show ?thesis by linarith
qed

lemma attenuate_cases:
  obtains (delegated) p i r t where "delegable s pt rights ex q now p" and "filled s i r t"
      and "attenuate s pt rights ex q now = (Ok t, s\<lparr>lt_records := (lt_records s)[p := (lt_records s ! p)
          \<lparr>lr_uses := lr_uses (lt_records s ! p) + q\<rparr>, i := r], lt_issuance_nonce := next_nonce (lt_issuance_nonce s)\<rparr>)"
      and "child_of (lt_records s ! p) p rights ex q now r"
  | (refused) e where "attenuate s pt rights ex q now = (Err e, s)"
proof (cases "\<exists>p. delegable s pt rights ex q now p \<and> first_inactive s \<noteq> None")
  case True
  then obtain p i where d: "delegable s pt rights ex q now p" and i: "first_inactive s = Some i" by blast
  let ?p = "lt_records s ! p"
  define r where "r = \<lparr>lr_active = True, lr_generation = bump (lr_generation (lt_records s ! i)),
      lr_depth = saturating_add (lr_depth ?p) 1, lr_rights = rights_intersect (lr_rights ?p) rights,
      lr_parent_slot = of_nat p, lr_parent_generation = lr_generation ?p, lr_not_before = now, lr_expires_at = ex,
      lr_quota_limit = q, lr_uses = 0, lr_tag = 0\<rparr>"
  have g: "lr_depth ?p < 8" "rights_intersect (lr_rights ?p) rights = rights" "unat q + unat (lr_uses ?p) \<le> unat (lr_quota_limit ?p)"
    using d delegable_quota[OF d] by (simp_all add: delegable_def Let_def rights_intersect_def rights_contains_def)
  have depth: "saturating_add (lr_depth ?p) 1 = lr_depth ?p + 1"
    using g(1) by (auto simp: saturating_add_def word_less_nat_alt)
  have uses: "saturating_add (lr_uses ?p) q = lr_uses ?p + q"
    using g(3) unat_lt2p[of "lr_quota_limit ?p"] by (auto simp: saturating_add_def)
  show thesis
    using d i by (intro delegated[OF d, of i "r\<lparr>lr_tag := seal (lt_secret s) i r (lt_issuance_nonce s)\<rparr>"
        "token_new (of_nat i) (lr_generation r) (seal (lt_secret s) i r (lt_issuance_nonce s))"])
      (simp_all add: attenuate_def delegable_def Let_def r_def filled_def child_of_def g(2) depth uses not_less not_le)
next
  case False
  then have "\<exists>e. attenuate s pt rights ex q now = (Err e, s)"
    by (cases "validate_token s pt now"; cases "validate_ancestry s (projr (validate_token s pt now))")
      (auto simp: attenuate_def delegable_def Let_def not_less not_le split: option.split)
  with refused show thesis by blast
qed

lemma admit_cases:
  obtains (admitted) i a where "validate_token s t now = Ok i" and "validate_ancestry s i = Ok ()"
      and "rights_contains (lr_rights (lt_records s ! i)) required" and "lr_uses (lt_records s ! i) < lr_quota_limit (lt_records s ! i)"
      and "admit s t required now = (Ok a, s\<lparr>lt_records := (lt_records s)[i := (lt_records s ! i)\<lparr>lr_uses := lr_uses (lt_records s ! i) + 1\<rparr>]\<rparr>)"
      and "la_rights a = lr_rights (lt_records s ! i)" and "la_expires_at a = lr_expires_at (lt_records s ! i)"
      and "unat (la_remaining_uses a) = unat (lr_quota_limit (lt_records s ! i)) - (unat (lr_uses (lt_records s ! i)) + 1)"
  | (refused) e where "admit s t required now = (Err e, s)"
proof (cases "\<exists>i. validate_token s t now = Ok i \<and> validate_ancestry s i = Ok ()
    \<and> rights_contains (lr_rights (lt_records s ! i)) required \<and> lr_uses (lt_records s ! i) < lr_quota_limit (lt_records s ! i)")
  case True
  then obtain i where i: "validate_token s t now = Ok i" "validate_ancestry s i = Ok ()"
    "rights_contains (lr_rights (lt_records s ! i)) required" "lr_uses (lt_records s ! i) < lr_quota_limit (lt_records s ! i)" by blast
  have u: "unat (lr_uses (lt_records s ! i)) + 1 < 2 ^ 32"
    using i(4) unat_lt2p[of "lr_quota_limit (lt_records s ! i)"] by (simp add: word_less_nat_alt)
  then have sat: "saturating_add (lr_uses (lt_records s ! i)) 1 = lr_uses (lt_records s ! i) + 1" by (simp add: saturating_add_def)
  have "unat (lr_uses (lt_records s ! i) + 1) = unat (lr_uses (lt_records s ! i)) + 1" using u by (simp add: unat_add_le)
  with i sat show thesis by (intro admitted[OF i]) (auto simp: admit_def Let_def not_le)
next
  case False
  then have "\<exists>e. admit s t required now = (Err e, s)"
    by (cases "validate_token s t now"; cases "validate_ancestry s (projr (validate_token s t now))")
      (auto simp: admit_def Let_def not_le split: option.split)
  with refused show thesis by blast
qed

lemma revoke_cases:
  obtains (revoked) i where "validate_token_without_time s t = Ok i"
      and "revoke s t = (Ok (), s\<lparr>lt_records := (lt_records s)[i := lease_record_EMPTY\<lparr>lr_generation := bump (lr_generation (lt_records s ! i))\<rparr>]\<rparr>)"
  | (refused) e where "revoke s t = (Err e, s)"
  by (cases "validate_token_without_time s t") (auto simp: revoke_def)

text \<open>Every call is one of five changes of the table.\<close>

inductive lease_effect :: "lattice \<Rightarrow> lattice \<Rightarrow> bool" where
  same: "lease_effect s s"
| root: "filled s i r t \<Longrightarrow> lr_parent_slot r = ROOT_PARENT \<Longrightarrow> lr_depth r = 0
    \<Longrightarrow> lease_effect s (s\<lparr>lt_records := (lt_records s)[i := r], lt_issuance_nonce := n\<rparr>)"
| child: "delegable s pt rights ex q now p \<Longrightarrow> filled s i r t \<Longrightarrow> child_of (lt_records s ! p) p rights ex q now r
    \<Longrightarrow> lease_effect s (s\<lparr>lt_records := (lt_records s)[p := (lt_records s ! p)\<lparr>lr_uses := lr_uses (lt_records s ! p) + q\<rparr>, i := r],
          lt_issuance_nonce := n\<rparr>)"
| use: "i < length (lt_records s) \<Longrightarrow> lr_active (lt_records s ! i) \<Longrightarrow> lr_uses (lt_records s ! i) < lr_quota_limit (lt_records s ! i)
    \<Longrightarrow> lease_effect s (s\<lparr>lt_records := (lt_records s)[i := (lt_records s ! i)\<lparr>lr_uses := lr_uses (lt_records s ! i) + 1\<rparr>]\<rparr>)"
| clear: "i < length (lt_records s) \<Longrightarrow> lr_active (lt_records s ! i)
    \<Longrightarrow> lease_effect s (s\<lparr>lt_records := (lt_records s)[i := lease_record_EMPTY\<lparr>lr_generation := bump (lr_generation (lt_records s ! i))\<rparr>]\<rparr>)"

lemma lease_exec_effect: "lease_effect s (lease_exec s c)"
proof (cases c)
  case (IssueRoot rights nb ex q)
  then show ?thesis by (cases rule: issue_root_cases[of s rights nb ex q]) (auto intro: lease_effect.same lease_effect.root)
next
  case (Attenuate t rights ex q now)
  then show ?thesis by (cases rule: attenuate_cases[of s t rights ex q now]) (auto intro: lease_effect.same lease_effect.child)
next
  case (Admit t required now)
  then show ?thesis
    by (cases rule: admit_cases[of s t now required])
      (auto simp: validate_token_Ok validate_token_without_time_Ok intro: lease_effect.same lease_effect.use)
next
  case (Revoke t)
  show ?thesis
  proof (cases rule: revoke_cases[of s t])
    case (revoked i)
    then have "i < length (lt_records s)" "lr_active (lt_records s ! i)" by (auto simp: validate_token_without_time_Ok)
    from lease_effect.clear[OF this] show ?thesis using Revoke revoked(2) by simp
  qed (auto intro: lease_effect.same simp: Revoke)
qed

section \<open>Quota\<close>

definition remaining :: "lease_record \<Rightarrow> nat" where
  "remaining r = (if lr_active r then unat (lr_quota_limit r) - unat (lr_uses r) else 0)"

definition outstanding :: "lattice \<Rightarrow> nat" where
  "outstanding s = sum_list (map remaining (lt_records s))"

text \<open>What one call adds to the roots' quota, and whether it is an admission.\<close>

fun root_quota :: "lattice \<Rightarrow> lease_call \<Rightarrow> nat" where
  "root_quota s (IssueRoot rights not_before expires_at quota) =
     (case fst (issue_root s rights not_before expires_at quota) of Ok _ \<Rightarrow> unat quota | Err _ \<Rightarrow> 0)"
| "root_quota s _ = 0"

fun admission :: "lattice \<Rightarrow> lease_call \<Rightarrow> nat" where
  "admission s (Admit token required now) = (case fst (admit s token required now) of Ok _ \<Rightarrow> 1 | Err _ \<Rightarrow> 0)"
| "admission s _ = 0"

lemma outstanding_update:
  "i < length xs \<Longrightarrow> sum_list (map f (xs[i := x])) + f (xs ! i) = sum_list (map f xs) + (f x :: nat)"
  using member_le_sum_list[of "f (xs ! i)" "map f xs"] by (simp add: map_update sum_list_update)

lemma issue_outstanding: "admission s (IssueRoot rights nb ex q) + outstanding (lease_exec s (IssueRoot rights nb ex q)) \<le> outstanding s + root_quota s (IssueRoot rights nb ex q)"
proof (cases rule: issue_root_cases[of s rights nb ex q])
  case (issued i r t)
  have i: "i < length (lt_records s)" "remaining (lt_records s ! i) = 0"
    using first_inactiveD[of s i] issued(1) by (auto simp: filled_def remaining_def)
  have "remaining r = unat q" using issued by (auto simp: filled_def remaining_def)
  with issued(2) outstanding_update[OF i(1), of remaining r] i(2) show ?thesis by (simp add: outstanding_def)
qed (use in simp)

lemma attenuate_outstanding: "admission s (Attenuate t rights ex q now) + outstanding (lease_exec s (Attenuate t rights ex q now)) \<le> outstanding s + root_quota s (Attenuate t rights ex q now)"
proof (cases rule: attenuate_cases[of s t rights ex q now])
  case (delegated p i r u)
  let ?p = "lt_records s ! p" let ?p' = "?p\<lparr>lr_uses := lr_uses ?p + q\<rparr>"
  have p: "p < length (lt_records s)" "lr_active ?p"
    using delegated(1) by (auto simp: delegable_def validate_token_Ok validate_token_without_time_Ok)
  have i: "i < length (lt_records s)" "\<not> lr_active (lt_records s ! i)"
    using first_inactiveD[of s i] delegated(2) by (auto simp: filled_def)
  then have ne: "i \<noteq> p" using p(2) by blast
  have le: "unat q + unat (lr_uses ?p) \<le> unat (lr_quota_limit ?p)" by (rule delegable_quota[OF delegated(1)])
  then have "unat (lr_uses ?p + q) = unat (lr_uses ?p) + unat q"
    using unat_lt2p[of "lr_quota_limit ?p"] by (intro unat_add_le) simp
  then have "remaining ?p' + unat q = remaining ?p" using p(2) le by (simp add: remaining_def)
  moreover have "remaining r = unat q" using delegated(2,4) by (auto simp: filled_def child_of_def remaining_def)
  moreover have "sum_list (map remaining ((lt_records s)[p := ?p', i := r])) = sum_list (map remaining ((lt_records s)[p := ?p'])) + remaining r"
    using outstanding_update[of i "(lt_records s)[p := ?p']" remaining r] i ne by (simp add: remaining_def)
  ultimately show ?thesis using delegated(3) outstanding_update[OF p(1), of remaining ?p'] by (simp add: outstanding_def)
qed (use in simp)

lemma admit_outstanding: "admission s (Admit t required now) + outstanding (lease_exec s (Admit t required now)) \<le> outstanding s + root_quota s (Admit t required now)"
proof (cases rule: admit_cases[of s t now required])
  case (admitted i a)
  let ?r = "lt_records s ! i" let ?r' = "?r\<lparr>lr_uses := lr_uses ?r + 1\<rparr>"
  have i: "i < length (lt_records s)" "lr_active ?r" using admitted(1) by (auto simp: validate_token_Ok validate_token_without_time_Ok)
  have lt: "unat (lr_uses ?r) < unat (lr_quota_limit ?r)" using admitted(4) by (simp add: word_less_nat_alt)
  then have "unat (lr_uses ?r + 1) = unat (lr_uses ?r) + 1"
    using unat_lt2p[of "lr_quota_limit ?r"] unat_add_le[of "lr_uses ?r" 1] by simp
  then have "remaining ?r' + 1 = remaining ?r" using i(2) lt by (simp add: remaining_def)
  with admitted(5) outstanding_update[OF i(1), of remaining ?r'] show ?thesis by (simp add: outstanding_def)
qed (use in simp)

lemma revoke_outstanding: "admission s (Revoke t) + outstanding (lease_exec s (Revoke t)) \<le> outstanding s + root_quota s (Revoke t)"
proof (cases rule: revoke_cases[of s t])
  case (revoked i)
  then have "i < length (lt_records s)" by (simp add: validate_token_without_time_Ok)
  from outstanding_update[OF this, of remaining "lease_record_EMPTY\<lparr>lr_generation := bump (lr_generation (lt_records s ! i))\<rparr>"]
  show ?thesis using revoked(2) by (simp add: outstanding_def remaining_def lease_record_EMPTY_def)
qed (use in simp)

lemma exec_outstanding: "admission s c + outstanding (lease_exec s c) \<le> outstanding s + root_quota s c"
  by (cases c) (simp_all only: issue_outstanding attenuate_outstanding admit_outstanding revoke_outstanding)

lemma run_outstanding: "tally lease_exec admission s cs + outstanding (lease_run s cs) \<le> outstanding s + tally lease_exec root_quota s cs"
proof (induction cs arbitrary: s)
  case (Cons c cs)
  from Cons.IH[of "lease_exec s c"] exec_outstanding[of s c] show ?case by (simp add: lease_run_def)
qed (simp add: lease_run_def)

section \<open>Lineage\<close>

text \<open>
  A child is inside its parent: weaker rights, a nested lifetime and one level deeper. A
  link to a parent is either in force or dead, because the parent's slot has moved on to a
  later generation. Generations grow by at most one per call, so for the first 65533 calls
  they do not wrap.
\<close>

definition inside :: "lease_record \<Rightarrow> lease_record \<Rightarrow> bool" where
  "inside r p \<longleftrightarrow> rights_contains (lr_rights p) (lr_rights r) \<and> lr_not_before p \<le> lr_not_before r
     \<and> lr_expires_at r \<le> lr_expires_at p \<and> unat (lr_depth r) = Suc (unat (lr_depth p))"

definition link_ok :: "lattice \<Rightarrow> lease_record \<Rightarrow> bool" where
  "link_ok s r \<longleftrightarrow>
     (if lr_parent_slot r = ROOT_PARENT then lr_depth r = 0
      else unat (lr_parent_slot r) < length (lt_records s) \<and> lr_depth r \<noteq> 0 \<and> lr_depth r \<le> 8 \<and>
        (let p = lt_records s ! unat (lr_parent_slot r) in
           lr_parent_generation r < lr_generation p
           \<or> lr_active p \<and> lr_generation p = lr_parent_generation r \<and> inside r p))"

definition lineage_inv :: "nat \<Rightarrow> lattice \<Rightarrow> bool" where
  "lineage_inv n s \<longleftrightarrow> length (lt_records s) < 65535
     \<and> (\<forall>i < length (lt_records s). unat (lr_generation (lt_records s ! i)) \<le> Suc n)
     \<and> (\<forall>i < length (lt_records s). lr_active (lt_records s ! i) \<longrightarrow> link_ok s (lt_records s ! i))"

lemma unat_bump: "unat g < 65535 \<Longrightarrow> unat (bump g) = Suc (unat g)"
proof -
  assume "unat g < 65535"
  then have g: "g \<noteq> - 1" by (auto simp: unat_minus_one_word)
  then have "1 \<le> g + 1" by (simp add: word_le_nat_alt unat_Suc_le)
  then show ?thesis by (simp add: bump_def max_absorb1 unat_Suc_le[OF g])
qed

lemma lineage_invD:
  assumes "lineage_inv n s"
  shows "length (lt_records s) < 65535"
    and "i < length (lt_records s) \<Longrightarrow> unat (lr_generation (lt_records s ! i)) \<le> Suc n"
    and "i < length (lt_records s) \<Longrightarrow> lr_active (lt_records s ! i) \<Longrightarrow> link_ok s (lt_records s ! i)"
  using assms by (auto simp: lineage_inv_def)

text \<open>Slot \<open>i\<close> keeps its identity, or it moves on to the next generation.\<close>

definition kept :: "lease_record \<Rightarrow> lease_record \<Rightarrow> bool" where
  "kept r r' \<longleftrightarrow> (\<exists>n. r' = r\<lparr>lr_uses := n\<rparr>)"

lemma link_ok_move:
  assumes "link_ok s r" and "length (lt_records t) = length (lt_records s)"
    and "\<And>i. i < length (lt_records s) \<Longrightarrow> kept (lt_records s ! i) (lt_records t ! i)
           \<or> lr_generation (lt_records s ! i) < lr_generation (lt_records t ! i)"
  shows "link_ok t (r\<lparr>lr_uses := n\<rparr>)"
proof (cases "lr_parent_slot r = ROOT_PARENT")
  case True
  with assms(1) show ?thesis by (simp add: link_ok_def)
next
  case False
  then have "unat (lr_parent_slot r) < length (lt_records s)" using assms(1) by (simp add: link_ok_def)
  with assms(3)[OF this] assms(1,2) False show ?thesis
    by (auto simp: link_ok_def Let_def kept_def inside_def intro: order.strict_trans)
qed

lemma lineage_inv_update:
  assumes inv: "lineage_inv n s" and len: "length (lt_records t) = length (lt_records s)"
    and same: "\<And>j. j < length (lt_records s) \<Longrightarrow> j \<noteq> i \<Longrightarrow> kept (lt_records s ! j) (lt_records t ! j)"
    and moved: "unat (lr_generation (lt_records t ! i)) = Suc (unat (lr_generation (lt_records s ! i)))"
    and link: "lr_active (lt_records t ! i) \<Longrightarrow> link_ok t (lt_records t ! i)"
  shows "lineage_inv (Suc n) t"
proof -
  have move: "kept (lt_records s ! j) (lt_records t ! j) \<or> lr_generation (lt_records s ! j) < lr_generation (lt_records t ! j)"
    if "j < length (lt_records s)" for j using same[OF that] moved by (cases "j = i") (auto simp: word_less_nat_alt)
  have "link_ok t (lt_records t ! j)" if j: "j < length (lt_records s)" "lr_active (lt_records t ! j)" for j
  proof (cases "j = i")
    case False
    then obtain m where m: "lt_records t ! j = (lt_records s ! j)\<lparr>lr_uses := m\<rparr>" using same[OF j(1)] by (auto simp: kept_def)
    with link_ok_move[OF lineage_invD(3)[OF inv j(1)] len move, of m] j(2) show ?thesis by simp
  qed (use j link in simp)
  moreover have "unat (lr_generation (lt_records t ! j)) \<le> Suc (Suc n)" if "j < length (lt_records s)" for j
    using same[OF that] moved lineage_invD(2)[OF inv that] by (cases "j = i") (auto simp: kept_def)
  ultimately show ?thesis using lineage_invD(1)[OF inv] by (simp add: lineage_inv_def len)
qed

lemma lineage_inv_kept:
  assumes "lineage_inv n s" and "length (lt_records t) = length (lt_records s)"
    and "\<And>j. j < length (lt_records s) \<Longrightarrow> kept (lt_records s ! j) (lt_records t ! j)"
  shows "lineage_inv (Suc n) t"
proof -
  have "link_ok t (lt_records t ! j)" if j: "j < length (lt_records s)" "lr_active (lt_records t ! j)" for j
  proof -
    obtain m where m: "lt_records t ! j = (lt_records s ! j)\<lparr>lr_uses := m\<rparr>" using assms(3)[OF j(1)] by (auto simp: kept_def)
    with link_ok_move[OF lineage_invD(3)[OF assms(1) j(1)] assms(2), of m] assms(3) j(2) show ?thesis by simp
  qed
  moreover have "unat (lr_generation (lt_records t ! j)) \<le> Suc (Suc n)" if "j < length (lt_records s)" for j
    using assms(3)[OF that] lineage_invD(2)[OF assms(1) that] by (auto simp: kept_def)
  ultimately show ?thesis using lineage_invD(1)[OF assms(1)] by (simp add: lineage_inv_def assms(2))
qed

lemma kept_uses [simp]: "kept r r" "kept r (r\<lparr>lr_uses := m\<rparr>)"
  unfolding kept_def by (rule exI[of _ "lr_uses r"], simp) blast

lemma lineage_inv_effect:
  assumes "lineage_inv n s" and "lease_effect s t" and "n < 65534"
  shows "lineage_inv (Suc n) t"
  using assms(2)
proof cases
  case same
  then show ?thesis using lineage_inv_kept[OF assms(1), of s] by simp
next
  case (root i r u k)
  then have i: "i < length (lt_records s)" using first_inactiveD[of s i] by (simp add: filled_def)
  have "unat (lr_generation (lt_records s ! i)) < 65535" using lineage_invD(2)[OF assms(1) i] assms(3) by simp
  with root i show ?thesis
    by (intro lineage_inv_update[OF assms(1), where i = i]) (auto simp: nth_update filled_def unat_bump link_ok_def)
next
  case (child pt rights ex q now p i r u k)
  let ?p = "lt_records s ! p"
  have i: "i < length (lt_records s)" "\<not> lr_active (lt_records s ! i)" using first_inactiveD[of s i] child(3) by (simp_all add: filled_def)
  have p: "p < length (lt_records s)" "lr_active ?p" "lr_not_before ?p \<le> now"
    using child(2) by (auto simp: delegable_def validate_token_Ok validate_token_without_time_Ok)
  have ne: "i \<noteq> p" using i(2) p(2) by blast
  have sl: "unat (of_nat p :: u16) = p" using p(1) lineage_invD(1)[OF assms(1)] by (simp add: unat_of_nat)
  have root: "of_nat p \<noteq> ROOT_PARENT" using p(1) lineage_invD(1)[OF assms(1)] by (auto dest!: arg_cong[where f = unat] simp: unat_of_nat)
  have d: "unat (lr_depth ?p) < 8" using child(2) by (simp add: delegable_def Let_def word_less_nat_alt)
  then have d': "unat (lr_depth ?p + 1) = Suc (unat (lr_depth ?p))" by (subst unat_add_le) simp_all
  then have d0: "lr_depth ?p + 1 \<noteq> 0" by (metis nat.simps(3) unsigned_0)
  have "unat (lr_generation (lt_records s ! i)) < 65535" using lineage_invD(2)[OF assms(1) i(1)] assms(3) by simp
  with child i p ne sl root d d' d0 show ?thesis
    by (intro lineage_inv_update[OF assms(1), where i = i])
      (auto simp: nth_update filled_def unat_bump link_ok_def child_of_def inside_def delegable_def Let_def word_le_nat_alt)
next
  case (use i)
  then show ?thesis by (intro lineage_inv_kept[OF assms(1)]) (auto simp: nth_update)
next
  case (clear i)
  have "unat (lr_generation (lt_records s ! i)) < 65535" using lineage_invD(2)[OF assms(1) clear(2)] assms(3) by simp
  with clear show ?thesis
    by (intro lineage_inv_update[OF assms(1), where i = i]) (auto simp: nth_update unat_bump lease_record_EMPTY_def)
qed

lemma lease_effect_records: "lease_effect s t \<Longrightarrow> length (lt_records t) = length (lt_records s)"
  by (erule lease_effect.cases) auto

lemma lineage_inv_run:
  assumes "lineage_inv n s" and "n + length cs < 65535"
  shows "lineage_inv (n + length cs) (lease_run s cs)"
  using assms
proof (induction cs arbitrary: n s)
  case (Cons c cs)
  have "lineage_inv (Suc n) (lease_exec s c)" using lineage_inv_effect[OF Cons.prems(1) lease_exec_effect] Cons.prems(2) by simp
  from Cons.IH[OF this] Cons.prems(2) show ?case by (simp add: lease_run_def)
qed (simp add: lease_run_def)

lemma lineage_inv_new: "N < 65535 \<Longrightarrow> lineage_inv 0 (lattice_new N secret)"
  by (simp add: lineage_inv_def lattice_new_def lease_record_EMPTY_def)

lemma lineage_inv_reached:
  "N < 65535 \<Longrightarrow> length cs < 65535 \<Longrightarrow> lineage_inv (length cs) (lease_run (lattice_new N secret) cs)"
  using lineage_inv_run[OF lineage_inv_new, of N cs secret] by simp

section \<open>Ancestors\<close>

inductive ancestor :: "lattice \<Rightarrow> nat \<Rightarrow> nat \<Rightarrow> bool" where
  self: "ancestor s i i"
| up: "lr_parent_slot (lt_records s ! i) \<noteq> ROOT_PARENT \<Longrightarrow> ancestor s (unat (lr_parent_slot (lt_records s ! i))) j \<Longrightarrow> ancestor s i j"

lemma ancestry_step:
  assumes "validate_ancestry_loop s i k = Ok ()" and "lr_parent_slot (lt_records s ! i) \<noteq> ROOT_PARENT"
  obtains k' where "unat (lr_parent_slot (lt_records s ! i)) < length (lt_records s)"
    and "lr_active (lt_records s ! unat (lr_parent_slot (lt_records s ! i)))"
    and "lr_generation (lt_records s ! unat (lr_parent_slot (lt_records s ! i))) = lr_parent_generation (lt_records s ! i)"
    and "validate_ancestry_loop s (unat (lr_parent_slot (lt_records s ! i))) k' = Ok ()"
  using assms by (subst (asm) validate_ancestry_loop.simps) (auto simp: Let_def get_def split: if_splits option.splits)

declare validate_ancestry_loop.simps [simp del]

lemma rights_contains_trans: "rights_contains a b \<Longrightarrow> rights_contains b c \<Longrightarrow> rights_contains a c"
  unfolding rights_contains_def by (metis and.assoc)

lemma ancestor_inside:
  assumes "ancestor s i j" and "lineage_inv n s" and "validate_ancestry_loop s i k = Ok ()"
    and "i < length (lt_records s)" and "lr_active (lt_records s ! i)"
  shows "j < length (lt_records s) \<and> lr_active (lt_records s ! j) \<and> rights_contains (lr_rights (lt_records s ! j)) (lr_rights (lt_records s ! i))
    \<and> lr_not_before (lt_records s ! j) \<le> lr_not_before (lt_records s ! i) \<and> lr_expires_at (lt_records s ! i) \<le> lr_expires_at (lt_records s ! j)
    \<and> lr_depth (lt_records s ! j) \<le> lr_depth (lt_records s ! i)"
  using assms
proof (induction arbitrary: k rule: ancestor.induct)
  case (self s i)
  then show ?case by (simp add: rights_contains_def)
next
  case (up s i j)
  let ?p = "unat (lr_parent_slot (lt_records s ! i))"
  obtain k' where p: "?p < length (lt_records s)" "lr_active (lt_records s ! ?p)"
    "lr_generation (lt_records s ! ?p) = lr_parent_generation (lt_records s ! i)" "validate_ancestry_loop s ?p k' = Ok ()"
    using ancestry_step[OF up.prems(2) up.hyps(1)] .
  have "inside (lt_records s ! i) (lt_records s ! ?p)"
    using lineage_invD(3)[OF up.prems(1,3,4)] up.hyps(1) p(3) by (simp add: link_ok_def Let_def)
  then have a: "rights_contains (lr_rights (lt_records s ! ?p)) (lr_rights (lt_records s ! i))" "lr_not_before (lt_records s ! ?p) \<le> lr_not_before (lt_records s ! i)"
    "lr_expires_at (lt_records s ! i) \<le> lr_expires_at (lt_records s ! ?p)" "lr_depth (lt_records s ! ?p) \<le> lr_depth (lt_records s ! i)"
    by (simp_all add: inside_def word_le_nat_alt)
  from up.IH[OF up.prems(1) p(4,1,2)] show ?case
    by (elim conjE) (intro conjI rights_contains_trans[OF _ a(1)] order_trans[OF _ a(2)] order_trans[OF a(3)] order_trans[OF _ a(4)])
qed

lemma ancestry_depth_bounded:
  assumes "lineage_inv n s" and "i < length (lt_records s)" and "lr_active (lt_records s ! i)"
    and "unat k + unat (lr_depth (lt_records s ! i)) \<le> 8"
  shows "validate_ancestry_loop s i k \<noteq> Err DelegationDepth"
  using assms
proof (induction s i k rule: validate_ancestry_loop.induct)
  case (1 s i k)
  let ?r = "lt_records s ! i" let ?p = "unat (lr_parent_slot ?r)"
  show ?case
  proof (cases "lr_parent_slot ?r = ROOT_PARENT")
    case True
    then show ?thesis by (subst validate_ancestry_loop.simps) simp
  next
    case False
    note link = lineage_invD(3)[OF "1.prems"(1-3)]
    have d: "lr_depth ?r \<noteq> 0" using link False by (simp add: link_ok_def)
    then have "0 < unat (lr_depth ?r)" by (simp add: unat_gt_0)
    then have k: "unat k \<le> 7" using "1.prems"(4) by linarith
    then have k': "saturating_add k 1 = k + 1" "unat (k + 1) = unat k + 1" by (simp_all add: saturating_add_def unat_add_le)
    then have le: "\<not> 8 < saturating_add k 1" using k by (simp add: word_less_nat_alt)
    show ?thesis
    proof (cases "?p < length (lt_records s) \<and> lr_active (lt_records s ! ?p) \<and> lr_generation (lt_records s ! ?p) = lr_parent_generation ?r")
      case True
      then have "inside ?r (lt_records s ! ?p)" using link False by (simp add: link_ok_def Let_def)
      then have "unat (saturating_add k 1) + unat (lr_depth (lt_records s ! ?p)) \<le> 8" using "1.prems"(4) k' by (simp add: inside_def)
      from "1.IH"[OF refl False refl le refl _ _ "1.prems"(1) _ _ this] True
      have "validate_ancestry_loop s ?p (saturating_add k 1) \<noteq> Err DelegationDepth" by (simp add: get_def)
      with True False le show ?thesis by (subst validate_ancestry_loop.simps) (simp add: get_def Let_def)
    next
      case False
      with \<open>lr_parent_slot ?r \<noteq> ROOT_PARENT\<close> le show ?thesis
        by (subst validate_ancestry_loop.simps) (auto simp: get_def Let_def)
    qed
  qed
qed

section \<open>Revoked subtrees\<close>

text \<open>
  A lease that held generation \<open>g\<close> of slot \<open>i\<close> is doomed when the slot has moved on, or when
  the parent it points to is doomed.
\<close>

inductive doomed :: "lattice \<Rightarrow> nat \<Rightarrow> u16 \<Rightarrow> bool" where
  gone: "i < length (lt_records s) \<Longrightarrow> g < lr_generation (lt_records s ! i) \<Longrightarrow> doomed s i g"
| inherits: "i < length (lt_records s) \<Longrightarrow> lr_generation (lt_records s ! i) = g \<Longrightarrow> lr_parent_slot (lt_records s ! i) \<noteq> ROOT_PARENT
    \<Longrightarrow> doomed s (unat (lr_parent_slot (lt_records s ! i))) (lr_parent_generation (lt_records s ! i)) \<Longrightarrow> doomed s i g"

lemma lease_effect_slot:
  assumes "lease_effect s t" and "lineage_inv n s" and "n < 65534" and "i < length (lt_records s)"
  shows "kept (lt_records s ! i) (lt_records t ! i) \<or> lr_generation (lt_records s ! i) < lr_generation (lt_records t ! i)"
proof -
  have "unat (lr_generation (lt_records s ! i)) < 65535" using lineage_invD(2)[OF assms(2,4)] assms(3) by simp
  with unat_bump have b: "lr_generation (lt_records s ! i) < bump (lr_generation (lt_records s ! i))" by (simp add: word_less_nat_alt)
  show ?thesis using assms(1) by cases (use b in \<open>auto simp: nth_update filled_def lease_record_EMPTY_def\<close>)
qed

lemma doomed_step:
  assumes "doomed s i g" and "lease_effect s t" and "lineage_inv n s" and "n < 65534"
  shows "doomed t i g"
  using assms
proof (induction rule: doomed.induct)
  case (gone i s g)
  then have "lr_generation (lt_records s ! i) \<le> lr_generation (lt_records t ! i)"
    using lease_effect_slot[OF gone.prems gone.hyps(1)] by (auto simp: kept_def)
  with gone show ?case by (intro doomed.gone) (auto simp: lease_effect_records)
next
  case (inherits i s g)
  from lease_effect_slot[OF inherits.prems inherits.hyps(1)] show ?case
  proof
    assume "kept (lt_records s ! i) (lt_records t ! i)"
    then obtain m where m: "lt_records t ! i = (lt_records s ! i)\<lparr>lr_uses := m\<rparr>" by (auto simp: kept_def)
    show ?thesis using inherits.IH[OF inherits.prems] inherits.hyps(1-3) lease_effect_records[OF inherits.prems(1)]
      by (subst doomed.simps) (simp add: m)
  next
    assume "lr_generation (lt_records s ! i) < lr_generation (lt_records t ! i)"
    with inherits show ?thesis by (intro doomed.gone) (auto simp: lease_effect_records)
  qed
qed

lemma doomed_run:
  assumes "doomed s i g" and "lineage_inv n s" and "n + length cs < 65535"
  shows "doomed (lease_run s cs) i g"
  using assms
proof (induction cs arbitrary: s n)
  case (Cons c cs)
  have n: "n < 65534" using Cons.prems(3) by simp
  note e = lease_exec_effect[of s c]
  from Cons.IH[OF doomed_step[OF Cons.prems(1) e Cons.prems(2) n] lineage_inv_effect[OF Cons.prems(2) e n]] Cons.prems(3)
  show ?case by (simp add: lease_run_def)
qed (simp add: lease_run_def)

lemma doomed_refused:
  assumes "doomed s i g" and "lr_generation (lt_records s ! i) = g"
  shows "validate_ancestry_loop s i k \<noteq> Ok ()"
  using assms
proof (induction arbitrary: k rule: doomed.induct)
  case (inherits i s g)
  show ?case
  proof
    assume "validate_ancestry_loop s i k = Ok ()"
    from ancestry_step[OF this inherits.hyps(3)] inherits.IH show False by metis
  qed
qed simp

lemma revoked_doomed:
  assumes "ancestor s i j" and "lineage_inv n s" and "lease_effect s t" and "n < 65534"
    and "i < length (lt_records s)" and "lr_active (lt_records s ! i)"
    and "lr_generation (lt_records s ! j) < lr_generation (lt_records t ! j)" and "j < length (lt_records s)"
  shows "doomed t i (lr_generation (lt_records s ! i))"
  using assms
proof (induction rule: ancestor.induct)
  case (self s i)
  then show ?case by (intro doomed.gone) (auto simp: lease_effect_records)
next
  case (up s i j)
  let ?r = "lt_records s ! i" let ?p = "unat (lr_parent_slot ?r)"
  have p: "?p < length (lt_records s)" "lr_parent_generation ?r < lr_generation (lt_records s ! ?p)
      \<or> lr_active (lt_records s ! ?p) \<and> lr_generation (lt_records s ! ?p) = lr_parent_generation ?r"
    using lineage_invD(3)[OF up.prems(1,4,5)] up.hyps(1) by (auto simp: link_ok_def Let_def)
  have d: "doomed t ?p (lr_parent_generation ?r)"
  proof (cases "lr_parent_generation ?r < lr_generation (lt_records s ! ?p)")
    case True
    then have "doomed s ?p (lr_parent_generation ?r)" by (rule doomed.gone[OF p(1)])
    then show ?thesis by (rule doomed_step[OF _ up.prems(2,1,3)])
  next
    case False
    with p up.IH[OF up.prems(1-3) p(1) _ up.prems(6,7)] show ?thesis by auto
  qed
  from lease_effect_slot[OF up.prems(2,1,3,4)] show ?case
  proof
    assume "kept ?r (lt_records t ! i)"
    then obtain m where m: "lt_records t ! i = ?r\<lparr>lr_uses := m\<rparr>" by (auto simp: kept_def)
    show ?thesis using d up.prems(4) up.hyps(1) lease_effect_records[OF up.prems(2)] by (subst doomed.simps) (simp add: m)
  qed (use up.prems in \<open>auto intro: doomed.gone simp: lease_effect_records\<close>)
qed

section \<open>Properties\<close>

text \<open>
  C19 (bounds). Admissions are paid for by the issued roots. In any sequence of calls on a new
  table, the successful admissions and the uses still outstanding at the end together never
  exceed the quota of the roots issued on the way, however the leases were delegated.
\<close>

theorem lease_quota_conserved:
  "tally lease_exec admission (lattice_new N secret) cs + outstanding (lease_run (lattice_new N secret) cs)
     \<le> tally lease_exec root_quota (lattice_new N secret) cs"
proof -
  have "outstanding (lattice_new N secret) = 0"
    by (simp add: outstanding_def lattice_new_def lease_record_EMPTY_def remaining_def)
  with run_outstanding[of "lattice_new N secret" cs] show ?thesis by simp
qed

text \<open>
  C26 (safety). A delegated lease is never stronger than its ancestors. While fewer than 65534
  calls have been made, an admission succeeds only if every ancestor of the lease is live,
  holds the required rights and is within its own lifetime, and the granted rights and
  expiry are bounded by each of them. The walk to the root never runs into its depth limit.
\<close>

theorem admission_within_ancestors:
  assumes "N < 65535" and "length cs < 65534" and "s = lease_run (lattice_new N secret) cs"
    and "validate_token s token now = Ok i"
  shows "validate_ancestry s i \<noteq> Err DelegationDepth
    \<and> (\<forall>a t j. admit s token required now = (Ok a, t) \<and> ancestor s i j \<longrightarrow>
         lr_active (lt_records s ! j) \<and> rights_contains (lr_rights (lt_records s ! j)) required
         \<and> rights_contains (lr_rights (lt_records s ! j)) (la_rights a)
         \<and> lr_not_before (lt_records s ! j) \<le> now \<and> now \<le> lr_expires_at (lt_records s ! j)
         \<and> la_expires_at a \<le> lr_expires_at (lt_records s ! j))"
proof -
  have inv: "lineage_inv (length cs) s" using lineage_inv_reached[OF assms(1), of cs secret] assms(2,3) by simp
  have i: "i < length (lt_records s)" "lr_active (lt_records s ! i)" "lr_not_before (lt_records s ! i) \<le> now"
    "now \<le> lr_expires_at (lt_records s ! i)" using assms(4) by (auto simp: validate_token_Ok validate_token_without_time_Ok)
  have "lr_depth (lt_records s ! i) \<le> 8" using lineage_invD(3)[OF inv i(1,2)] by (auto simp: link_ok_def split: if_splits)
  then have d: "validate_ancestry s i \<noteq> Err DelegationDepth"
    unfolding validate_ancestry_def by (intro ancestry_depth_bounded[OF inv i(1,2)]) (simp add: word_le_nat_alt)
  have "lr_active (lt_records s ! j) \<and> rights_contains (lr_rights (lt_records s ! j)) required
         \<and> rights_contains (lr_rights (lt_records s ! j)) (la_rights a)
         \<and> lr_not_before (lt_records s ! j) \<le> now \<and> now \<le> lr_expires_at (lt_records s ! j)
         \<and> la_expires_at a \<le> lr_expires_at (lt_records s ! j)"
    if a: "admit s token required now = (Ok a, t)" and j: "ancestor s i j" for a t j
  proof (cases rule: admit_cases[of s token now required])
    case (admitted i' b)
    then have eq: "i' = i" "b = a" using assms(4) a by simp_all
    from ancestor_inside[OF j inv admitted(2)[unfolded validate_ancestry_def eq] i(1,2)] i(3,4) admitted(3,6,7)
    show ?thesis unfolding eq by (elim conjE) (auto intro: order_trans rights_contains_trans)
  qed (use a in simp)
  with d show ?thesis by blast
qed

text \<open>
  C38 (safety). Revoking a lease kills its whole subtree for good. Within the same number of
  calls, after a lease is revoked every lease that had it as an ancestor is refused, both
  for admission and for delegation, in every later state.
\<close>

theorem revoked_subtree_dead:
  assumes "N < 65535" and "length cs + length ds < 65533" and "s = lease_run (lattice_new N secret) cs"
    and "revoke s token = (Ok (), s1)" and "validate_token_without_time s t = Ok i" and "ancestor s i (token_slot token)"
    and "u = lease_run s1 ds"
  shows "(\<exists>e. admit u t required now = (Err e, u)) \<and> (\<exists>e. attenuate u t rights expires_at quota now = (Err e, u))"
proof -
  have inv: "lineage_inv (length cs) s" using lineage_inv_reached[OF assms(1), of cs secret] assms(2,3) by simp
  have n: "length cs < 65534" using assms(2) by simp
  have e: "lease_effect s s1" using lease_exec_effect[of s "Revoke token"] assms(4) by simp
  obtain j where j: "validate_token_without_time s token = Ok j"
    and s1: "lt_records s1 = (lt_records s)[j := lease_record_EMPTY\<lparr>lr_generation := bump (lr_generation (lt_records s ! j))\<rparr>]"
    using assms(4) by (cases rule: revoke_cases[of s token]) auto
  have jl: "j < length (lt_records s)" "j = token_slot token" using j by (auto simp: validate_token_without_time_Ok)
  have "unat (lr_generation (lt_records s ! j)) < 65535" using lineage_invD(2)[OF inv jl(1)] n by simp
  then have g: "lr_generation (lt_records s ! j) < lr_generation (lt_records s1 ! j)" using jl(1) by (simp add: s1 word_less_nat_alt unat_bump)
  have i: "i < length (lt_records s)" "lr_active (lt_records s ! i)" "lr_generation (lt_records s ! i) = token_generation t" "i = token_slot t"
    using assms(5) by (auto simp: validate_token_without_time_Ok)
  have "doomed s1 i (token_generation t)"
    using revoked_doomed[OF assms(6) inv e n i(1,2)] g jl i(3) by simp
  then have "doomed u i (token_generation t)"
    unfolding assms(7) using assms(2) by (intro doomed_run[OF _ lineage_inv_effect[OF inv e n]]) simp_all
  then have no: "validate_token u t now = Ok k \<Longrightarrow> validate_ancestry u k = Ok () \<Longrightarrow> False" for k
    using doomed_refused[of u i "token_generation t" 0] i(4) by (auto simp: validate_token_Ok validate_token_without_time_Ok validate_ancestry_def)
  have "\<exists>e. admit u t required now = (Err e, u)" using no by (cases rule: admit_cases[of u t now required]) auto
  moreover have "\<exists>e. attenuate u t rights expires_at quota now = (Err e, u)"
    using no by (cases rule: attenuate_cases[of u t rights expires_at quota now]) (auto simp: delegable_def)
  ultimately show ?thesis by blast
qed

section \<open>Sixteen-bit generations\<close>

lemma token_decode [simp]:
  "token_slot (token_new a b c) = unat a" "token_generation (token_new a b c) = b" "token_tag (token_new a b c) = c"
proof -
  have "(ucast (token_new a b c) :: u16) = a"
    by (rule bit_word_eqI) (auto simp: token_new_def bit_simps)
  then show "token_slot (token_new a b c) = unat a" by (simp add: token_slot_def)
  show "token_generation (token_new a b c) = b" unfolding token_generation_def
    by (rule bit_word_eqI) (auto simp: token_new_def bit_simps dest: bit_imp_le_length)
  show "token_tag (token_new a b c) = c" unfolding token_tag_def
    by (rule bit_word_eqI) (auto simp: token_new_def bit_simps dest: bit_imp_le_length)
qed

lemma unat_bump_mod: "unat (bump g) = (if unat g = 65535 then 1 else Suc (unat g))"
proof (cases "unat g = 65535")
  case True
  then have "g = - 1" by (simp add: word_unat_eq_iff unat_minus_one_word)
  with True show ?thesis by (simp add: bump_def)
next
  case False
  then have "unat g < 65535" using unat_lt2p[of g] by simp
  with False show ?thesis by (simp add: unat_bump)
qed

lemma unat_bump_funpow: "0 < unat g \<Longrightarrow> unat ((bump ^^ n) g) = (unat g - 1 + n) mod 65535 + 1"
proof (induction n)
  case 0
  have "unat g \<le> 65535" using unat_lt2p[of g] by simp
  with 0 show ?case by auto
next
  case (Suc n)
  let ?m = "unat g - 1 + n"
  have "unat ((bump ^^ Suc n) g) = (if ?m mod 65535 = 65534 then 1 else ?m mod 65535 + 2)"
    using Suc by (simp add: unat_bump_mod)
  also have "\<dots> = Suc ?m mod 65535 + 1" by (simp add: mod_Suc)
  finally show ?case by simp
qed

text \<open>A free first slot at generation \<open>g\<close> beside an orphan in the second.\<close>

definition orphaned :: "u64 \<Rightarrow> lease_record \<Rightarrow> u16 \<Rightarrow> u64 \<Rightarrow> lattice" where
  "orphaned secret orphan g nonce = \<lparr>lt_secret = secret,
     lt_records = [lease_record_EMPTY\<lparr>lr_generation := g\<rparr>, orphan], lt_issuance_nonce = nonce\<rparr>"

definition weak_root :: "u64 \<Rightarrow> u16 \<Rightarrow> u64 \<Rightarrow> lease_record" where
  "weak_root secret g nonce =
     (let r = \<lparr>lr_active = True, lr_generation = g, lr_depth = 0, lr_rights = OBSERVE,
               lr_parent_slot = ROOT_PARENT, lr_parent_generation = 0, lr_not_before = 0, lr_expires_at = 100,
               lr_quota_limit = 1, lr_uses = 0, lr_tag = 0\<rparr>
      in r\<lparr>lr_tag := seal secret 0 r nonce\<rparr>)"

lemma orphaned_issue:
  "issue_root (orphaned secret orphan g n) OBSERVE 0 100 1 =
     (Ok (token_new 0 (bump g) (lr_tag (weak_root secret (bump g) n))),
      \<lparr>lt_secret = secret, lt_records = [weak_root secret (bump g) n, orphan], lt_issuance_nonce = next_nonce n\<rparr>)"
  by (simp add: issue_root_def orphaned_def validate_lifetime_def first_inactive_def lease_record_EMPTY_def Let_def weak_root_def)

lemma orphaned_cycle:
  "\<exists>cs. lease_run (orphaned secret orphan g n) cs = orphaned secret orphan (bump (bump g)) (next_nonce n)"
proof -
  let ?r = "weak_root secret (bump g) n"
  let ?s = "\<lparr>lt_secret = secret, lt_records = [?r, orphan], lt_issuance_nonce = next_nonce n\<rparr>"
  let ?t = "token_new 0 (bump g) (lr_tag ?r)"
  have r: "lr_active ?r" "lr_generation ?r = bump g" by (simp_all add: weak_root_def Let_def)
  have "revoke ?s ?t = (Ok (), orphaned secret orphan (bump (bump g)) (next_nonce n))"
    by (simp add: revoke_def validate_token_without_time_def get_def r orphaned_def)
  then show ?thesis by (intro exI[of _ "[IssueRoot OBSERVE 0 100 1, Revoke ?t]"]) (simp add: lease_run_def orphaned_issue)
qed

lemma lease_run_append: "lease_run s (cs @ ds) = lease_run (lease_run s cs) ds"
  by (simp add: lease_run_def)

lemma orphaned_cycles:
  "\<exists>cs m. lease_run (orphaned secret orphan g n) cs = orphaned secret orphan ((bump ^^ (2 * k)) g) m"
proof (induction k)
  case 0
  show ?case by (intro exI[of _ "[]"] exI[of _ n]) (simp add: lease_run_def)
next
  case (Suc k)
  then obtain cs m where "lease_run (orphaned secret orphan g n) cs = orphaned secret orphan ((bump ^^ (2 * k)) g) m" by blast
  moreover obtain ds where "lease_run (orphaned secret orphan ((bump ^^ (2 * k)) g) m) ds = orphaned secret orphan ((bump ^^ (2 * Suc k)) g) (next_nonce m)"
    using orphaned_cycle[of secret orphan "(bump ^^ (2 * k)) g" m] by auto
  ultimately have "lease_run (orphaned secret orphan g n) (cs @ ds) = orphaned secret orphan ((bump ^^ (2 * Suc k)) g) (next_nonce m)"
    by (simp add: lease_run_append)
  then show ?case by blast
qed

lemma bump_returns: "bump ((bump ^^ (2 * 65534)) 3) = 2"
proof -
  have "bump ((bump ^^ (2 * 65534)) 3) = (bump ^^ Suc (2 * 65534)) 3" by (simp only: funpow.simps comp_apply)
  moreover have "unat ((bump ^^ Suc (2 * 65534)) 3) = 2" by (subst unat_bump_funpow) simp_all
  ultimately show ?thesis by (simp add: word_unat_eq_iff del: funpow.simps)
qed

definition strong_root :: "u64 \<Rightarrow> lease_record" where
  "strong_root secret =
     (let r = \<lparr>lr_active = True, lr_generation = 2, lr_depth = 0, lr_rights = ALL_RIGHTS,
               lr_parent_slot = ROOT_PARENT, lr_parent_generation = 0, lr_not_before = 0, lr_expires_at = 100,
               lr_quota_limit = 10, lr_uses = 0, lr_tag = 0\<rparr>
      in r\<lparr>lr_tag := seal secret 0 r 1\<rparr>)"

definition strong_child :: "u64 \<Rightarrow> lease_record" where
  "strong_child secret =
     (let r = \<lparr>lr_active = True, lr_generation = 2, lr_depth = 1, lr_rights = CONTROL,
               lr_parent_slot = 0, lr_parent_generation = 2, lr_not_before = 0, lr_expires_at = 100,
               lr_quota_limit = 5, lr_uses = 0, lr_tag = 0\<rparr>
      in r\<lparr>lr_tag := seal secret 1 r 2\<rparr>)"

definition root_token :: "u64 \<Rightarrow> lease_token" where
  "root_token secret = token_new 0 2 (lr_tag (strong_root secret))"

definition child_token :: "u64 \<Rightarrow> lease_token" where
  "child_token secret = token_new 1 2 (lr_tag (strong_child secret))"

definition delegated :: "u64 \<Rightarrow> lattice" where
  "delegated secret = \<lparr>lt_secret = secret, lt_records = [(strong_root secret)\<lparr>lr_uses := 5\<rparr>, strong_child secret], lt_issuance_nonce = 3\<rparr>"

lemma record_fields:
  "lr_active (strong_root x)" "lr_generation (strong_root x) = 2" "lr_rights (strong_root x) = ALL_RIGHTS" "lr_parent_slot (strong_root x) = ROOT_PARENT"
  "lr_not_before (strong_root x) = 0" "lr_expires_at (strong_root x) = 100" "lr_quota_limit (strong_root x) = 10" "lr_uses (strong_root x) = 0" "lr_depth (strong_root x) = 0"
  "lr_active (strong_child x)" "lr_generation (strong_child x) = 2" "lr_rights (strong_child x) = CONTROL" "lr_parent_slot (strong_child x) = 0"
  "lr_not_before (strong_child x) = 0" "lr_expires_at (strong_child x) = 100" "lr_quota_limit (strong_child x) = 5" "lr_uses (strong_child x) = 0"
  "lr_parent_generation (strong_child x) = 2"
  "lr_active (weak_root x g n)" "lr_generation (weak_root x g n) = g" "lr_rights (weak_root x g n) = OBSERVE" "lr_parent_slot (weak_root x g n) = ROOT_PARENT"
  by (simp_all add: strong_root_def strong_child_def weak_root_def Let_def)

lemmas rights_defs = ALL_RIGHTS_def OBSERVE_def SCHEDULE_def RESONANCE_def CONTROL_def DELEGATE_def rights_contains_def rights_intersect_def

lemma sample_issue:
  "issue_root (lattice_new 2 secret) ALL_RIGHTS 0 100 10 =
     (Ok (root_token secret), \<lparr>lt_secret = secret, lt_records = [strong_root secret, lease_record_EMPTY], lt_issuance_nonce = 2\<rparr>)"
proof -
  have "replicate 2 x = [x, x]" for x :: lease_record by (simp add: numeral_2_eq_2)
  then show ?thesis
    by (simp add: issue_root_def lattice_new_def validate_lifetime_def first_inactive_def lease_record_EMPTY_def Let_def bump_def next_nonce_def
      strong_root_def root_token_def)
qed

lemma sample_attenuate:
  "attenuate \<lparr>lt_secret = secret, lt_records = [strong_root secret, lease_record_EMPTY], lt_issuance_nonce = 2\<rparr>
     (root_token secret) CONTROL 100 5 0 = (Ok (child_token secret), delegated secret)"
proof -
  let ?s = "\<lparr>lt_secret = secret, lt_records = [strong_root secret, lease_record_EMPTY], lt_issuance_nonce = 2\<rparr>"
  have v: "validate_token ?s (root_token secret) 0 = Ok 0"
    by (simp add: validate_token_Ok validate_token_without_time_Ok root_token_def record_fields)
  have a: "validate_ancestry ?s 0 = Ok ()"
    by (simp add: validate_ancestry_def validate_ancestry_loop.simps record_fields)
  have f: "first_inactive ?s = Some 1" by (simp add: first_inactive_def record_fields lease_record_EMPTY_def)
  have r: "rights_contains ALL_RIGHTS DELEGATE" "rights_contains ALL_RIGHTS CONTROL" "rights_intersect ALL_RIGHTS CONTROL = CONTROL"
    by (simp_all add: rights_defs)
  have g: "lr_generation lease_record_EMPTY = 1" by (simp add: lease_record_EMPTY_def)
  show ?thesis unfolding attenuate_def
    by (simp add: v a f r g record_fields Let_def bump_def next_nonce_def saturating_add_def saturating_sub_def
      delegated_def child_token_def strong_child_def)
qed

lemma sample_delegated: "lease_run (lattice_new 2 secret) [IssueRoot ALL_RIGHTS 0 100 10, Attenuate (root_token secret) CONTROL 100 5 0] = delegated secret"
  by (simp add: lease_run_def sample_issue sample_attenuate)

lemma sample_revoke: "revoke (delegated secret) (root_token secret) = (Ok (), orphaned secret (strong_child secret) 3 3)"
  by (simp add: revoke_def validate_token_without_time_def get_def delegated_def root_token_def record_fields orphaned_def bump_def)

lemma sample_child_valid: "validate_token_without_time (delegated secret) (child_token secret) = Ok 1"
  by (simp add: validate_token_without_time_def get_def delegated_def child_token_def record_fields)

lemma sample_ancestor: "ancestor (delegated secret) 1 0"
  by (rule ancestor.up) (simp_all add: delegated_def record_fields ancestor.self)

text \<open>
  Generations are 16 bits wide and wrap. After a parent has been revoked, its
  orphan is refused; but once the parent's slot has been issued and revoked often enough for
  its generation to come round again, the orphan is admitted with a right that the new
  occupant of the slot, now its live parent, does not hold.
\<close>

theorem orphan_revived:
  "\<exists>cs a u. revoke (lease_run (lattice_new 2 secret) [IssueRoot ALL_RIGHTS 0 100 10, Attenuate (root_token secret) CONTROL 100 5 0])
       (root_token secret) = (Ok (), orphaned secret (strong_child secret) 3 3)
     \<and> fst (admit (orphaned secret (strong_child secret) 3 3) (child_token secret) CONTROL 0) = Err Invalid
     \<and> u = lease_run (orphaned secret (strong_child secret) 3 3) cs
     \<and> fst (admit u (child_token secret) CONTROL 0) = Ok a
     \<and> ancestor u 1 0 \<and> lr_active (lt_records u ! 0) \<and> \<not> rights_contains (lr_rights (lt_records u ! 0)) CONTROL"
proof -
  let ?o = "orphaned secret (strong_child secret) 3 3"
  obtain cs m where cs: "lease_run ?o cs = orphaned secret (strong_child secret) ((bump ^^ (2 * 65534)) 3) m"
    using orphaned_cycles[of secret "strong_child secret" 3 3 65534] by blast
  let ?u = "\<lparr>lt_secret = secret, lt_records = [weak_root secret 2 m, strong_child secret], lt_issuance_nonce = next_nonce m\<rparr>"
  have u: "lease_run ?o (cs @ [IssueRoot OBSERVE 0 100 1]) = ?u"
    by (simp only: lease_run_append cs) (simp add: lease_run_def orphaned_issue bump_returns[simplified])
  have v: "validate_token ?u (child_token secret) 0 = Ok 1" "validate_token ?o (child_token secret) 0 = Ok 1"
    by (simp_all add: validate_token_Ok validate_token_without_time_Ok child_token_def record_fields orphaned_def)
  have a: "validate_ancestry ?u 1 = Ok ()" "validate_ancestry ?o 1 = Err Invalid"
    by (simp_all add: validate_ancestry_def validate_ancestry_loop.simps record_fields saturating_add_def get_def orphaned_def lease_record_EMPTY_def)
  obtain b where "fst (admit ?u (child_token secret) CONTROL 0) = Ok b"
    by (simp add: admit_def v a[unfolded One_nat_def] record_fields Let_def rights_contains_def)
  moreover have "fst (admit ?o (child_token secret) CONTROL 0) = Err Invalid"
    by (simp add: admit_def v a[unfolded One_nat_def])
  moreover have "ancestor ?u 1 0" by (rule ancestor.up) (simp_all add: record_fields ancestor.self)
  moreover have "\<not> rights_contains OBSERVE CONTROL" by (simp add: rights_defs)
  ultimately show ?thesis
    unfolding sample_delegated sample_revoke
    by (intro exI[of _ "cs @ [IssueRoot OBSERVE 0 100 1]"] exI[of _ b] exI[of _ ?u]) (simp add: u record_fields)
qed

theorem admission_within_ancestors_witness:
  "validate_token (delegated 7) (child_token 7) 0 = Ok 1
   \<and> fst (admit (delegated 7) (child_token 7) CONTROL 0) \<noteq> Err DelegationDepth
   \<and> rights_contains (lr_rights (lt_records (delegated 7) ! 0)) CONTROL"
proof -
  let ?s = "delegated 7"
  have v: "validate_token ?s (child_token 7) 0 = Ok 1"
    by (simp add: validate_token_Ok validate_token_without_time_Ok child_token_def record_fields delegated_def)
  have a: "validate_ancestry ?s 1 = Ok ()"
    by (simp add: validate_ancestry_def validate_ancestry_loop.simps record_fields saturating_add_def get_def delegated_def)
  have r: "lt_records ?s ! Suc 0 = strong_child 7" by (simp add: delegated_def)
  obtain b u where ad: "admit ?s (child_token 7) CONTROL 0 = (Ok b, u)"
    by (simp add: admit_def v a[unfolded One_nat_def] r record_fields Let_def rights_contains_def)
  from admission_within_ancestors[of 2 "[IssueRoot ALL_RIGHTS 0 100 10, Attenuate (root_token 7) CONTROL 100 5 0]" ?s 7 "child_token 7" 0 1 CONTROL]
    ad v sample_ancestor[of 7] show ?thesis by (simp add: sample_delegated)
qed

theorem revoked_subtree_dead_witness:
  "revoke (delegated 7) (root_token 7) = (Ok (), orphaned 7 (strong_child 7) 3 3)
   \<and> (\<exists>e. admit (orphaned 7 (strong_child 7) 3 3) (child_token 7) CONTROL 0 = (Err e, orphaned 7 (strong_child 7) 3 3))"
proof -
  have nil: "orphaned 7 (strong_child 7) 3 3 = lease_run (orphaned 7 (strong_child 7) 3 3) []" by (simp add: lease_run_def)
  have anc: "ancestor (delegated 7) 1 (token_slot (root_token 7))" using sample_ancestor[of 7] by (simp add: root_token_def)
  from revoked_subtree_dead[OF _ _ sample_delegated[symmetric] sample_revoke sample_child_valid anc nil, of CONTROL 0 0 0 0]
  show ?thesis using sample_revoke[of 7] by simp
qed

end
