(* ===== verification/Objects.thy ===== *)
theory Objects
  imports Prelude "HOL-Library.Multiset"
begin

text \<open>
  The kernel object table, \<^verbatim>\<open>src/core/kairos/src/object.rs\<close>. The table behind the spin lock
  is the list of its slots, and every call is one step. A \<open>Handle\<close> has private fields and
  is neither \<open>Copy\<close> nor \<open>Clone\<close>, so the handles in the hands of the clients are exactly
  those the table has returned and no call has consumed: the system of the proofs is the
  table together with the multiset of these handles, each with the payload its object was
  allocated for. A client may also drop a handle without closing it.
\<close>

datatype object_kind = Task | AddressSpace | Channel | Memory | Driver | Device | Policy | Fabric | Clock

type_synonym rights = u16

definition RIGHT_READ :: rights where "RIGHT_READ = push_bit 0 1"
definition RIGHT_WRITE :: rights where "RIGHT_WRITE = push_bit 1 1"
definition RIGHT_EXECUTE :: rights where "RIGHT_EXECUTE = push_bit 2 1"
definition RIGHT_MAP :: rights where "RIGHT_MAP = push_bit 3 1"
definition RIGHT_SEND :: rights where "RIGHT_SEND = push_bit 4 1"
definition RIGHT_RECEIVE :: rights where "RIGHT_RECEIVE = push_bit 5 1"
definition RIGHT_CONTROL :: rights where "RIGHT_CONTROL = push_bit 6 1"
definition RIGHT_MORPH :: rights where "RIGHT_MORPH = push_bit 7 1"
definition RIGHT_ALL :: rights where "RIGHT_ALL = 0xffff"

definition object_rights_union :: "rights \<Rightarrow> rights \<Rightarrow> rights" where
  "object_rights_union r other = r OR other"

definition object_rights_contain :: "rights \<Rightarrow> rights \<Rightarrow> bool" where
  "object_rights_contain r requested \<longleftrightarrow> r AND requested = requested"

record handle =
  h_slot :: u16
  h_generation :: u32
  h_kind :: object_kind
  h_rights :: rights

record object_slot =
  os_occupied :: bool
  os_generation :: u32
  os_kind :: object_kind
  os_maximum_rights :: rights
  os_references :: u32
  os_payload_handle :: u64

definition object_slot_EMPTY :: object_slot where
  "object_slot_EMPTY = \<lparr>os_occupied = False, os_generation = 0, os_kind = Task, os_maximum_rights = 0,
     os_references = 0, os_payload_handle = 0\<rparr>"

definition object_table_new :: "nat \<Rightarrow> object_slot list" where
  "object_table_new CAPACITY = replicate CAPACITY object_slot_EMPTY"

datatype object_error = CapacityExceeded | InvalidHandle | RightsEscalation | InsufficientRights | ReferenceOverflow

record object_info =
  oi_kind :: object_kind
  oi_payload_handle :: u64
  oi_rights :: rights

definition next_generation :: "u32 \<Rightarrow> u32" where
  "next_generation generation = (let n = generation + 1 in if n = 0 then 1 else n)"

definition validate_slot :: "object_slot list \<Rightarrow> handle \<Rightarrow> object_error + object_slot" where
  "validate_slot slots h =
     (case get slots (unat (h_slot h)) of
        None \<Rightarrow> Err InvalidHandle
      | Some sl \<Rightarrow>
          if \<not> os_occupied sl \<or> os_generation sl \<noteq> h_generation h \<or> os_kind sl \<noteq> h_kind h
          then Err InvalidHandle
          else Ok sl)"

definition allocate :: "object_slot list \<Rightarrow> object_kind \<Rightarrow> u64 \<Rightarrow> rights \<Rightarrow> (object_error + handle) \<times> object_slot list" where
  "allocate slots kind payload_handle r =
     (case position (\<lambda>sl. \<not> os_occupied sl) slots of
        None \<Rightarrow> (Err CapacityExceeded, slots)
      | Some index \<Rightarrow>
          if index \<ge> 65536 then (Err CapacityExceeded, slots)
          else
            (let generation = next_generation (os_generation (slots ! index)) in
             (Ok \<lparr>h_slot = of_nat index, h_generation = generation, h_kind = kind, h_rights = r\<rparr>,
              slots[index := \<lparr>os_occupied = True, os_generation = generation, os_kind = kind,
                 os_maximum_rights = r, os_references = 1, os_payload_handle = payload_handle\<rparr>])))"

definition duplicate :: "object_slot list \<Rightarrow> handle \<Rightarrow> rights \<Rightarrow> (object_error + handle) \<times> object_slot list" where
  "duplicate slots h r =
     (if \<not> object_rights_contain (h_rights h) r then (Err RightsEscalation, slots)
      else
        (case validate_slot slots h of
           Err e \<Rightarrow> (Err e, slots)
         | Ok sl \<Rightarrow>
             if \<not> object_rights_contain (os_maximum_rights sl) r then (Err RightsEscalation, slots)
             else
               (case checked_add (os_references sl) 1 of
                  None \<Rightarrow> (Err ReferenceOverflow, slots)
                | Some n \<Rightarrow>
                    (Ok \<lparr>h_slot = h_slot h, h_generation = h_generation h, h_kind = h_kind h, h_rights = r\<rparr>,
                     slots[unat (h_slot h) := sl\<lparr>os_references := n\<rparr>]))))"

definition resolve :: "object_slot list \<Rightarrow> handle \<Rightarrow> rights \<Rightarrow> object_error + object_info" where
  "resolve slots h required =
     (if \<not> object_rights_contain (h_rights h) required then Err InsufficientRights
      else
        (case validate_slot slots h of
           Err e \<Rightarrow> Err e
         | Ok sl \<Rightarrow> Ok \<lparr>oi_kind = os_kind sl, oi_payload_handle = os_payload_handle sl, oi_rights = h_rights h\<rparr>))"

definition close :: "object_slot list \<Rightarrow> handle \<Rightarrow> (object_error + bool) \<times> object_slot list" where
  "close slots h =
     (case validate_slot slots h of
        Err e \<Rightarrow> (Err e, slots)
      | Ok sl \<Rightarrow>
          (let sl' = sl\<lparr>os_references := os_references sl - 1\<rparr> in
           if os_references sl' = 0
           then (Ok True, slots[unat (h_slot h) := sl'\<lparr>os_occupied := False, os_maximum_rights := 0, os_payload_handle := 0\<rparr>])
           else (Ok False, slots[unat (h_slot h) := sl'])))"

section \<open>The table and its clients\<close>

record object_system =
  ob_slots :: "object_slot list"
  ob_handles :: "(handle \<times> u64) multiset"

inductive object_step :: "object_system \<Rightarrow> object_system \<Rightarrow> bool" where
  allocate: "allocate (ob_slots s) kind payload r = (Ok h, slots)
    \<Longrightarrow> object_step s (s\<lparr>ob_slots := slots, ob_handles := add_mset (h, payload) (ob_handles s)\<rparr>)"
| allocate_refused: "allocate (ob_slots s) kind payload r = (Err e, slots) \<Longrightarrow> object_step s (s\<lparr>ob_slots := slots\<rparr>)"
| duplicate: "(h, payload) \<in># ob_handles s \<Longrightarrow> duplicate (ob_slots s) h r = (Ok k, slots)
    \<Longrightarrow> object_step s (s\<lparr>ob_slots := slots, ob_handles := add_mset (k, payload) (ob_handles s)\<rparr>)"
| duplicate_refused: "(h, payload) \<in># ob_handles s \<Longrightarrow> duplicate (ob_slots s) h r = (Err e, slots)
    \<Longrightarrow> object_step s (s\<lparr>ob_slots := slots\<rparr>)"
| close: "(h, payload) \<in># ob_handles s \<Longrightarrow> close (ob_slots s) h = (res, slots)
    \<Longrightarrow> object_step s (s\<lparr>ob_slots := slots, ob_handles := ob_handles s - {#(h, payload)#}\<rparr>)"
| drop_handle: "(h, payload) \<in># ob_handles s \<Longrightarrow> object_step s (s\<lparr>ob_handles := ob_handles s - {#(h, payload)#}\<rparr>)"

definition object_initial :: "object_system \<Rightarrow> bool" where
  "object_initial s \<longleftrightarrow> (\<exists>CAPACITY. s = \<lparr>ob_slots = object_table_new CAPACITY, ob_handles = {#}\<rparr>)"

section \<open>Invariant\<close>

definition on_slot :: "nat \<Rightarrow> (handle \<times> u64) multiset \<Rightarrow> nat" where
  "on_slot i hs = size (filter_mset (\<lambda>x. unat (h_slot (fst x)) = i) hs)"

definition handle_ok :: "object_slot list \<Rightarrow> handle \<times> u64 \<Rightarrow> bool" where
  "handle_ok slots = (\<lambda>(h, payload). \<exists>sl. validate_slot slots h = Ok sl \<and> os_payload_handle sl = payload
     \<and> object_rights_contain (os_maximum_rights sl) (h_rights h))"

definition object_inv :: "object_system \<Rightarrow> bool" where
  "object_inv s \<longleftrightarrow> (\<forall>x \<in># ob_handles s. handle_ok (ob_slots s) x)
     \<and> (\<forall>i < length (ob_slots s). os_occupied (ob_slots s ! i) \<longrightarrow>
          0 < unat (os_references (ob_slots s ! i)) \<and> on_slot i (ob_handles s) \<le> unat (os_references (ob_slots s ! i)))"

lemma object_invD:
  assumes "object_inv s"
  shows "x \<in># ob_handles s \<Longrightarrow> handle_ok (ob_slots s) x"
    and "i < length (ob_slots s) \<Longrightarrow> os_occupied (ob_slots s ! i) \<Longrightarrow> 0 < unat (os_references (ob_slots s ! i))"
    and "i < length (ob_slots s) \<Longrightarrow> os_occupied (ob_slots s ! i) \<Longrightarrow> on_slot i (ob_handles s) \<le> unat (os_references (ob_slots s ! i))"
  using assms by (auto simp: object_inv_def)

lemma validate_slot_Ok:
  "validate_slot slots h = Ok sl \<longleftrightarrow> unat (h_slot h) < length slots \<and> slots ! unat (h_slot h) = sl \<and> os_occupied sl
     \<and> os_generation sl = h_generation h \<and> os_kind sl = h_kind h"
  by (auto simp: validate_slot_def get_def split: option.splits if_splits)

lemma on_slot_simps [simp]:
  "on_slot i {#} = 0"
  "on_slot i (add_mset x hs) = (if unat (h_slot (fst x)) = i then 1 else 0) + on_slot i hs"
  by (auto simp: on_slot_def)

lemma on_slot_remove:
  "x \<in># hs \<Longrightarrow> on_slot i hs = (if unat (h_slot (fst x)) = i then 1 else 0) + on_slot i (hs - {#x#})"
  by (metis insert_DiffM on_slot_simps(2))

lemma on_slot_zero: "on_slot i hs = 0 \<Longrightarrow> x \<in># hs \<Longrightarrow> unat (h_slot (fst x)) \<noteq> i"
  by (cases x) (auto simp: on_slot_def)

text \<open>Changing one slot disturbs only the handles on it.\<close>

lemma handle_ok_other:
  "unat (h_slot (fst x)) \<noteq> i \<Longrightarrow> handle_ok (slots[i := sl]) x = handle_ok slots x"
  by (auto simp: handle_ok_def validate_slot_Ok split: prod.splits)

lemma object_inv_update:
  assumes "object_inv s" and "i < length (ob_slots s)"
    and "\<And>x. x \<in># hs \<Longrightarrow> unat (h_slot (fst x)) \<noteq> i \<Longrightarrow> x \<in># ob_handles s"
    and "\<And>x. x \<in># hs \<Longrightarrow> unat (h_slot (fst x)) = i \<Longrightarrow> handle_ok ((ob_slots s)[i := sl]) x"
    and "\<And>j. j \<noteq> i \<Longrightarrow> on_slot j hs \<le> on_slot j (ob_handles s)"
    and "os_occupied sl \<Longrightarrow> 0 < unat (os_references sl) \<and> on_slot i hs \<le> unat (os_references sl)"
  shows "object_inv (s\<lparr>ob_slots := (ob_slots s)[i := sl], ob_handles := hs\<rparr>)"
proof -
  have "handle_ok ((ob_slots s)[i := sl]) x" if "x \<in># hs" for x
    using that assms(3,4)[OF that] object_invD(1)[OF assms(1)] handle_ok_other[of x i] by blast
  moreover have "0 < unat (os_references ((ob_slots s)[i := sl] ! j)) \<and> on_slot j hs \<le> unat (os_references ((ob_slots s)[i := sl] ! j))"
    if "j < length (ob_slots s)" "os_occupied ((ob_slots s)[i := sl] ! j)" for j
    using that assms(2,6) assms(5)[of j] object_invD(2,3)[OF assms(1), of j] by (cases "j = i") (auto intro: order_trans)
  ultimately show ?thesis by (auto simp: object_inv_def)
qed

lemma object_inv_allocate:
  assumes "object_inv s" and "allocate (ob_slots s) kind payload r = (Ok h, slots)"
  shows "object_inv (s\<lparr>ob_slots := slots, ob_handles := add_mset (h, payload) (ob_handles s)\<rparr>)"
proof -
  let ?new = "\<lambda>i. \<lparr>os_occupied = True, os_generation = next_generation (os_generation (ob_slots s ! i)), os_kind = kind,
                 os_maximum_rights = r, os_references = 1, os_payload_handle = payload\<rparr>"
  obtain i where i: "position (\<lambda>sl. \<not> os_occupied sl) (ob_slots s) = Some i" "i < 65536"
      "h = \<lparr>h_slot = of_nat i, h_generation = next_generation (os_generation (ob_slots s ! i)), h_kind = kind, h_rights = r\<rparr>"
      "slots = (ob_slots s)[i := ?new i]"
    using assms(2) by (auto simp: allocate_def Let_def split: option.splits if_splits)
  have f: "i < length (ob_slots s)" "\<not> os_occupied (ob_slots s ! i)" using position_SomeD[OF i(1)] by auto
  have u: "unat (h_slot h) = i" using i(2,3) by (simp add: unat_of_nat)
  have none: "unat (h_slot (fst x)) \<noteq> i" if "x \<in># ob_handles s" for x
    using object_invD(1)[OF assms(1) that] f(2) by (auto simp: handle_ok_def validate_slot_Ok split: prod.splits)
  then have zero: "on_slot i (ob_handles s) = 0" unfolding on_slot_def by (auto simp: filter_mset_eq_conv)
  have ok: "handle_ok ((ob_slots s)[i := ?new i]) (h, payload)"
    using f(1) u i(3) by (simp add: handle_ok_def validate_slot_Ok object_rights_contain_def)
  show ?thesis unfolding i(4)
    using none zero ok u by (intro object_inv_update[OF assms(1) f(1)]) auto
qed

lemma object_inv_duplicate:
  assumes "object_inv s" and "(h, payload) \<in># ob_handles s" and "duplicate (ob_slots s) h r = (Ok k, slots)"
  shows "object_inv (s\<lparr>ob_slots := slots, ob_handles := add_mset (k, payload) (ob_handles s)\<rparr>)"
proof -
  let ?i = "unat (h_slot h)" let ?sl = "ob_slots s ! ?i"
  have d: "validate_slot (ob_slots s) h = Ok ?sl" "object_rights_contain (os_maximum_rights ?sl) r" "os_references ?sl \<noteq> - 1"
      "k = h\<lparr>h_rights := r\<rparr>" "slots = (ob_slots s)[?i := ?sl\<lparr>os_references := os_references ?sl + 1\<rparr>]"
    using assms(3) by (auto simp: duplicate_def validate_slot_Ok checked_add_one split: if_splits sum.splits option.splits)
  have v: "?i < length (ob_slots s)" "os_occupied ?sl" using d(1) by (simp_all add: validate_slot_Ok)
  have n: "unat (os_references ?sl + 1) = Suc (unat (os_references ?sl))" by (rule unat_Suc_le[OF d(3)])
  have ok: "handle_ok ((ob_slots s)[?i := ?sl\<lparr>os_references := os_references ?sl + 1\<rparr>]) x"
    if "handle_ok (ob_slots s) x" "unat (h_slot (fst x)) = ?i" for x
    using that v(1) by (auto simp: handle_ok_def validate_slot_Ok split: prod.splits)
  have "handle_ok (ob_slots s) (k, payload)"
    using object_invD(1)[OF assms(1,2)] d(1,2,4) by (auto simp: handle_ok_def validate_slot_Ok)
  then show ?thesis unfolding d(5)
    using object_invD(1)[OF assms(1)] ok object_invD(3)[OF assms(1) v] d(4) n
    by (intro object_inv_update[OF assms(1) v(1)]) auto
qed

lemma object_inv_close:
  assumes "object_inv s" and "(h, payload) \<in># ob_handles s" and "close (ob_slots s) h = (res, slots)"
  shows "object_inv (s\<lparr>ob_slots := slots, ob_handles := ob_handles s - {#(h, payload)#}\<rparr>)"
proof -
  let ?i = "unat (h_slot h)" let ?sl = "ob_slots s ! ?i" let ?hs = "ob_handles s - {#(h, payload)#}"
  have v: "validate_slot (ob_slots s) h = Ok ?sl" "?i < length (ob_slots s)" "os_occupied ?sl"
    using object_invD(1)[OF assms(1,2)] by (auto simp: handle_ok_def validate_slot_Ok)
  have pos: "0 < unat (os_references ?sl)" by (rule object_invD(2)[OF assms(1) v(2,3)])
  have n: "unat (os_references ?sl - 1) = unat (os_references ?sl) - 1" using pos by (simp add: unat_sub word_le_nat_alt)
  have c: "on_slot ?i (ob_handles s) = Suc (on_slot ?i ?hs)" "\<And>j. j \<noteq> ?i \<Longrightarrow> on_slot j (ob_handles s) = on_slot j ?hs"
    using on_slot_remove[OF assms(2)] by auto
  then have le: "Suc (on_slot ?i ?hs) \<le> unat (os_references ?sl)" using object_invD(3)[OF assms(1) v(2,3)] by simp
  have sub: "x \<in># ob_handles s" if "x \<in># ?hs" for x using that by (rule in_diffD)
  obtain sl where sl: "slots = (ob_slots s)[?i := sl]" and cases: "os_references ?sl - 1 = 0 \<and> \<not> os_occupied sl
      \<or> os_references ?sl - 1 \<noteq> 0 \<and> sl = ?sl\<lparr>os_references := os_references ?sl - 1\<rparr>"
    using assms(3) v(1) by (auto simp: close_def Let_def split: if_splits)
  have ok: "handle_ok ((ob_slots s)[?i := sl]) x" if "x \<in># ?hs" "unat (h_slot (fst x)) = ?i" for x
    using cases
  proof
    assume "os_references ?sl - 1 = 0 \<and> \<not> os_occupied sl"
    then have "on_slot ?i ?hs = 0" using le n by (simp add: word_unat_eq_iff)
    with on_slot_zero that show ?thesis by blast
  next
    assume "os_references ?sl - 1 \<noteq> 0 \<and> sl = ?sl\<lparr>os_references := os_references ?sl - 1\<rparr>"
    with object_invD(1)[OF assms(1) sub[OF that(1)]] that(2) v(2) show ?thesis
      by (auto simp: handle_ok_def validate_slot_Ok split: prod.splits)
  qed
  have refs: "0 < unat (os_references sl) \<and> on_slot ?i ?hs \<le> unat (os_references sl)" if "os_occupied sl"
  proof -
    have "os_references ?sl - 1 \<noteq> 0" "sl = ?sl\<lparr>os_references := os_references ?sl - 1\<rparr>" using cases that by blast+
    with le n show ?thesis using unat_gt_0[of "os_references ?sl - 1"] by simp
  qed
  show ?thesis unfolding sl
    using sub ok c(2) refs by (intro object_inv_update[OF assms(1) v(2)]) auto
qed

lemma refused_unchanged:
  "allocate slots kind payload r = (Err e, slots') \<Longrightarrow> slots' = slots"
  "duplicate slots h r = (Err e, slots') \<Longrightarrow> slots' = slots"
  by (auto simp: allocate_def duplicate_def Let_def split: if_splits option.splits sum.splits)

lemma object_inv_drop:
  assumes "object_inv s" and "x \<in># ob_handles s"
  shows "object_inv (s\<lparr>ob_handles := ob_handles s - {#x#}\<rparr>)"
proof -
  have "on_slot i (ob_handles s - {#x#}) \<le> on_slot i (ob_handles s)" for i using on_slot_remove[OF assms(2), of i] by simp
  with assms(1) show ?thesis by (auto simp: object_inv_def dest: in_diffD intro: order_trans)
qed

lemma object_inv_step: "object_inv s \<Longrightarrow> object_step s t \<Longrightarrow> object_inv t"
proof (erule object_step.cases, goal_cases)
  case (1 s' kind payload r h slots)
  then show ?case using object_inv_allocate by simp
next
  case (2 s' kind payload r e slots)
  then show ?case using refused_unchanged(1)[of "ob_slots s'" kind payload r e slots] by simp
next
  case (3 h payload s' r k slots)
  then show ?case using object_inv_duplicate by simp
next
  case (4 h payload s' r e slots)
  then show ?case using refused_unchanged(2)[of "ob_slots s'" h r e slots] by simp
next
  case (5 h payload s' res slots)
  then show ?case using object_inv_close by simp
next
  case (6 h payload s')
  then show ?case using object_inv_drop by simp
qed

lemma object_inv_initial: "object_initial s \<Longrightarrow> object_inv s"
  by (auto simp: object_initial_def object_inv_def object_table_new_def object_slot_EMPTY_def)

interpretation objects: invariant_system object_initial object_step object_inv
  by unfold_locales (rule object_inv_initial, assumption, rule object_inv_step)

section \<open>Properties\<close>

text \<open>
  C39 (safety). A handle is never used after its object is gone. In every reachable state each
  handle a client holds resolves, for every right it carries, to the kind and payload its
  object was allocated with; it cannot be duplicated into more rights than it carries, and
  closing it succeeds and releases the object only when the client held the last handle.
\<close>

theorem handles_resolve:
  assumes "object_initial s0" and "object_step\<^sup>*\<^sup>* s0 s" and "(h, payload) \<in># ob_handles s"
  shows "(\<forall>required. resolve (ob_slots s) h required =
            (if object_rights_contain (h_rights h) required
             then Ok \<lparr>oi_kind = h_kind h, oi_payload_handle = payload, oi_rights = h_rights h\<rparr> else Err InsufficientRights))
    \<and> (\<forall>r k slots. duplicate (ob_slots s) h r = (Ok k, slots) \<longrightarrow> object_rights_contain (h_rights h) (h_rights k) \<and> h_kind k = h_kind h)
    \<and> (\<exists>freed slots. close (ob_slots s) h = (Ok freed, slots)
         \<and> (freed \<longrightarrow> (\<forall>x. x \<in># ob_handles s - {#(h, payload)#} \<longrightarrow> h_slot (fst x) \<noteq> h_slot h)))"
proof -
  note inv = objects.inv_reachable[OF assms(1,2)]
  let ?i = "unat (h_slot h)" let ?sl = "ob_slots s ! ?i" let ?hs = "ob_handles s - {#(h, payload)#}"
  have v: "validate_slot (ob_slots s) h = Ok ?sl" "os_payload_handle ?sl = payload" "os_kind ?sl = h_kind h" "?i < length (ob_slots s)" "os_occupied ?sl"
    using object_invD(1)[OF inv assms(3)] by (auto simp: handle_ok_def validate_slot_Ok)
  have r: "resolve (ob_slots s) h required = (if object_rights_contain (h_rights h) required
      then Ok \<lparr>oi_kind = h_kind h, oi_payload_handle = payload, oi_rights = h_rights h\<rparr> else Err InsufficientRights)" for required
    using v by (simp add: resolve_def)
  have d: "object_rights_contain (h_rights h) (h_rights k) \<and> h_kind k = h_kind h" if "duplicate (ob_slots s) h r = (Ok k, slots)" for r k slots
    using that by (auto simp: duplicate_def split: if_splits sum.splits option.splits)
  have "h_slot (fst x) \<noteq> h_slot h" if "os_references ?sl - 1 = 0" "x \<in># ?hs" for x
  proof -
    have "unat (os_references ?sl) = 1" using that(1) by simp
    then have "on_slot ?i ?hs = 0" using on_slot_remove[OF assms(3), of ?i] object_invD(3)[OF inv v(4,5)] by simp
    from on_slot_zero[OF this that(2)] show ?thesis by auto
  qed
  then have "\<exists>freed slots. close (ob_slots s) h = (Ok freed, slots) \<and> (freed \<longrightarrow> (\<forall>x. x \<in># ?hs \<longrightarrow> h_slot (fst x) \<noteq> h_slot h))"
    using v(1) by (cases "os_references ?sl - 1 = 0") (auto simp: close_def Let_def)
  with r d show ?thesis by blast
qed

definition sample_object :: object_system where
  "sample_object = \<lparr>ob_slots = [\<lparr>os_occupied = True, os_generation = 1, os_kind = Memory, os_maximum_rights = 3,
      os_references = 1, os_payload_handle = 77\<rparr>],
    ob_handles = {#(\<lparr>h_slot = 0, h_generation = 1, h_kind = Memory, h_rights = 3\<rparr>, 77)#}\<rparr>"

theorem handles_resolve_witness:
  "resolve (ob_slots sample_object) \<lparr>h_slot = 0, h_generation = 1, h_kind = Memory, h_rights = 3\<rparr> 1
     = Ok \<lparr>oi_kind = Memory, oi_payload_handle = 77, oi_rights = 3\<rparr>"
proof -
  let ?s0 = "\<lparr>ob_slots = object_table_new 1, ob_handles = {#}\<rparr>"
  let ?h = "\<lparr>h_slot = 0, h_generation = 1, h_kind = Memory, h_rights = 3\<rparr> :: handle"
  have init: "object_initial ?s0" by (auto simp: object_initial_def)
  have "allocate (ob_slots ?s0) Memory 77 3 = (Ok ?h, ob_slots sample_object)"
    by (simp add: allocate_def object_table_new_def object_slot_EMPTY_def next_generation_def sample_object_def)
  from object_step.allocate[OF this] have step: "object_step\<^sup>*\<^sup>* ?s0 sample_object" by (simp add: sample_object_def r_into_rtranclp)
  have "(?h, 77) \<in># ob_handles sample_object" by (simp add: sample_object_def)
  from handles_resolve[OF init step this] show ?thesis by (simp add: object_rights_contain_def)
qed

end
