(* ===== verification/ServiceCalculus.thy ===== *)
theory ServiceCalculus
  imports Prelude "HOL-Library.Multiset"
begin

text \<open>
  Admission control by service curves, \<^verbatim>\<open>src/libraries/slope/src/service_calculus.rs\<close>: the
  curve and its delay bound, the conformal residual calibrator and the controller. Ticks and
  counters keep their widths; the const generic \<open>N\<close> is the length of the residual ring. The
  keyed roots are computed as in the code, and nothing relies on their strength. The lemmas
  give the delay bound as exact arithmetic, the coverage of the guard, the arrival bound of
  a window and what a rollback restores.
\<close>

abbreviation Q16_ONE :: u64 where "Q16_ONE \<equiv> 65536"
abbreviation DEFAULT_CONFORMAL_NUMERATOR :: u8 where "DEFAULT_CONFORMAL_NUMERATOR \<equiv> 15"
abbreviation DEFAULT_CONFORMAL_DENOMINATOR :: u8 where "DEFAULT_CONFORMAL_DENOMINATOR \<equiv> 16"

section \<open>The service curve\<close>

record service_curve =
  sc_minimum_completions_per_window :: u16
  sc_maximum_admissions_per_window :: u16
  sc_window_ticks :: u64
  sc_latency_ticks :: u64
  sc_maximum_backlog :: u16

definition curve_valid :: "service_curve \<Rightarrow> bool" where
  "curve_valid c \<longleftrightarrow> sc_minimum_completions_per_window c \<noteq> 0 \<and> sc_maximum_admissions_per_window c \<noteq> 0
     \<and> sc_window_ticks c \<noteq> 0 \<and> sc_maximum_backlog c \<noteq> 0
     \<and> sc_minimum_completions_per_window c \<le> sc_maximum_backlog c
     \<and> sc_maximum_admissions_per_window c \<le> sc_maximum_backlog c"

definition deterministic_delay :: "service_curve \<Rightarrow> nat \<Rightarrow> u64 option" where
  "deterministic_delay c backlog_before =
     (if \<not> curve_valid c \<or> backlog_before \<ge> unat (sc_maximum_backlog c) then None
      else if backlog_before \<ge> 2 ^ 64 then None
      else
        (case checked_add (of_nat backlog_before) 1 of None \<Rightarrow> None | Some demand \<Rightarrow>
         (let service = ucast (sc_minimum_completions_per_window c) in
          (case checked_add demand (service - 1) of None \<Rightarrow> None | Some rounded \<Rightarrow>
           (let windows = rounded div service in
            (case checked_mul windows (sc_window_ticks c) of None \<Rightarrow> None | Some t \<Rightarrow>
             checked_add (sc_latency_ticks c) t))))))"

section \<open>The residual calibrator\<close>

datatype calibration_fault = ZeroCapacity | InvalidCoverage | CalibrationTimeRegression
  | CalibrationArithmeticOverflow | CorruptCertificate

record calibrator =
  ca_residuals :: "u64 list"
  ca_length :: nat
  ca_cursor :: nat
  ca_samples :: u64
  ca_coverage_numerator :: u8
  ca_coverage_denominator :: u8
  ca_additive_slack :: u64
  ca_maximum_guard :: u64
  ca_secret :: u64
  ca_root :: u64

definition service_mix :: "u64 \<Rightarrow> u64 \<Rightarrow> u64" where
  "service_mix state w =
     (let state = state XOR (w * 0x9e3779b97f4a7c15);
          state = state XOR drop_bit 30 state;
          state = state * 0xbf58476d1ce4e5b9;
          state = state XOR drop_bit 27 state;
          state = state * 0x94d049bb133111eb
      in state XOR drop_bit 31 state)"

definition calibrator_root :: "calibrator \<Rightarrow> u64" where
  "calibrator_root c =
     (let state = service_mix (ca_secret c) (ca_samples c);
          state = service_mix state (of_nat (ca_length c));
          state = service_mix state (of_nat (ca_cursor c));
          state = service_mix state (ucast (ca_coverage_numerator c) OR push_bit 8 (ucast (ca_coverage_denominator c)));
          state = service_mix state (ca_additive_slack c);
          state = service_mix state (ca_maximum_guard c)
      in fold (\<lambda>residual state. service_mix state residual) (take (ca_length c) (ca_residuals c)) state)"

definition calibrator_seal :: "calibrator \<Rightarrow> calibrator" where
  "calibrator_seal c = c\<lparr>ca_root := calibrator_root c\<rparr>"

definition verify_root :: "calibrator \<Rightarrow> bool" where
  "verify_root c \<longleftrightarrow> ca_root c = calibrator_root c"

definition calibrator_new :: "nat \<Rightarrow> u8 \<Rightarrow> u8 \<Rightarrow> u64 \<Rightarrow> u64 \<Rightarrow> u64 \<Rightarrow> calibration_fault + calibrator" where
  "calibrator_new N numerator denominator additive_slack maximum_guard secret =
     (if N = 0 then Err ZeroCapacity
      else if numerator = 0 \<or> denominator = 0 \<or> numerator \<ge> denominator \<or> maximum_guard = 0 \<or> secret = 0
      then Err InvalidCoverage
      else Ok (calibrator_seal \<lparr>ca_residuals = replicate N 0, ca_length = 0, ca_cursor = 0, ca_samples = 0,
             ca_coverage_numerator = numerator, ca_coverage_denominator = denominator,
             ca_additive_slack = additive_slack, ca_maximum_guard = maximum_guard, ca_secret = secret, ca_root = 0\<rparr>))"

definition kernel_default :: "nat \<Rightarrow> u64 \<Rightarrow> u64 \<Rightarrow> u64 \<Rightarrow> calibration_fault + calibrator" where
  "kernel_default N additive_slack maximum_guard secret =
     calibrator_new N DEFAULT_CONFORMAL_NUMERATOR DEFAULT_CONFORMAL_DENOMINATOR additive_slack maximum_guard secret"

definition guard :: "calibrator \<Rightarrow> calibration_fault + u64" where
  "guard c =
     (if ca_length c = 0 then Ok (min (ca_additive_slack c) (ca_maximum_guard c))
      else
        (let sorted = sort (take (ca_length c) (ca_residuals c)) in
         case Option.bind (checked_add_usize (ca_length c) 1)
                (\<lambda>n. checked_mul_usize n (unat (ca_coverage_numerator c))) of
           None \<Rightarrow> Err CalibrationArithmeticOverflow
         | Some numerator \<Rightarrow>
             (let denominator = unat (ca_coverage_denominator c) in
              case checked_add_usize numerator (denominator - 1) of
                None \<Rightarrow> Err CalibrationArithmeticOverflow
              | Some rounded \<Rightarrow>
                  (let rank = rounded div denominator; index = min (rank - 1) (ca_length c - 1) in
                   case checked_add (sorted ! index) (ca_additive_slack c) of
                     None \<Rightarrow> Err CalibrationArithmeticOverflow
                   | Some v \<Rightarrow> Ok (min v (ca_maximum_guard c))))))"

definition calibrator_push :: "calibrator \<Rightarrow> u64 \<Rightarrow> (calibration_fault + u64) \<times> calibrator" where
  "calibrator_push c residual =
     (let bounded = min residual (ca_maximum_guard c);
          c' = calibrator_seal (c\<lparr>ca_residuals := (ca_residuals c)[ca_cursor c := bounded],
                 ca_cursor := (ca_cursor c + 1) mod length (ca_residuals c),
                 ca_length := min (ca_length c + 1) (length (ca_residuals c)),
                 ca_samples := saturating_add (ca_samples c) 1\<rparr>)
      in (guard c', c'))"

section \<open>The controller\<close>

datatype admission_fault = InvalidCurve | BacklogSaturated | ArrivalEnvelopeExceeded | DeadlineUnsafe
  | TimeRegression | ArithmeticOverflow | StaleReservation | CorruptObservation

record certificate =
  ce_reservation_sequence :: u64
  ce_admitted_tick :: u64
  ce_window_start :: u64
  ce_backlog_before :: u16
  ce_admitted_before :: u16
  ce_deterministic_delay_ticks :: u64
  ce_uncertainty_guard_ticks :: u64
  ce_drift_penalty_ticks :: u64
  ce_delay_bound_ticks :: u64
  ce_deadline_slack_ticks :: u64
  ce_curve_root :: u64
  ce_calibration_root :: u64
  ce_certificate_root :: u64

definition certificate_EMPTY :: certificate where
  "certificate_EMPTY = \<lparr>ce_reservation_sequence = 0, ce_admitted_tick = 0, ce_window_start = 0, ce_backlog_before = 0,
     ce_admitted_before = 0, ce_deterministic_delay_ticks = 0, ce_uncertainty_guard_ticks = 0, ce_drift_penalty_ticks = 0,
     ce_delay_bound_ticks = 0, ce_deadline_slack_ticks = 0, ce_curve_root = 0, ce_calibration_root = 0, ce_certificate_root = 0\<rparr>"

definition certificate_valid :: "certificate \<Rightarrow> bool" where
  "certificate_valid c \<longleftrightarrow> ce_reservation_sequence c \<noteq> 0 \<and> ce_delay_bound_ticks c \<noteq> 0 \<and> ce_curve_root c \<noteq> 0
     \<and> ce_calibration_root c \<noteq> 0 \<and> ce_certificate_root c \<noteq> 0"

definition service_curve_root :: "u64 \<Rightarrow> service_curve \<Rightarrow> u64" where
  "service_curve_root secret c =
     (let state = service_mix secret (ucast (sc_minimum_completions_per_window c));
          state = service_mix state (ucast (sc_maximum_admissions_per_window c));
          state = service_mix state (sc_window_ticks c);
          state = service_mix state (sc_latency_ticks c)
      in service_mix state (ucast (sc_maximum_backlog c)))"

definition admission_certificate_root :: "u64 \<Rightarrow> certificate \<Rightarrow> u64" where
  "admission_certificate_root secret c =
     (let state = service_mix secret (ce_reservation_sequence c);
          state = service_mix state (ce_admitted_tick c);
          state = service_mix state (ce_window_start c);
          state = service_mix state (ucast (ce_backlog_before c) OR push_bit 16 (ucast (ce_admitted_before c)));
          state = service_mix state (ce_deterministic_delay_ticks c);
          state = service_mix state (ce_uncertainty_guard_ticks c);
          state = service_mix state (ce_drift_penalty_ticks c);
          state = service_mix state (ce_delay_bound_ticks c);
          state = service_mix state (ce_deadline_slack_ticks c);
          state = service_mix state (ce_curve_root c)
      in service_mix state (ce_calibration_root c))"

record controller =
  co_curve :: service_curve
  co_secret :: u64
  co_window_start :: u64
  co_last_tick :: u64
  co_admitted_in_window :: u16
  co_reservation_sequence :: u64
  co_accepted :: u64
  co_rejected :: u64
  co_observed :: u64
  co_virtual_backlog_q16 :: u64
  co_curve_root :: u64
  co_calibrator :: calibrator

definition controller_new :: "nat \<Rightarrow> service_curve \<Rightarrow> u64 \<Rightarrow> u64 \<Rightarrow> admission_fault + controller" where
  "controller_new N curve now_tick secret =
     (if \<not> curve_valid curve \<or> secret = 0 \<or> N = 0 then Err InvalidCurve
      else
        (let curve_root = service_curve_root secret curve in
         if curve_root = 0 then Err InvalidCurve
         else
           (case checked_mul (sc_window_ticks curve) (ucast (sc_maximum_backlog curve)) of
              None \<Rightarrow> Err ArithmeticOverflow
            | Some maximum_guard \<Rightarrow>
                (case kernel_default N 1 (max maximum_guard 1) (service_mix secret 0x43414c4942524154) of
                   Err _ \<Rightarrow> Err InvalidCurve
                 | Ok cal \<Rightarrow>
                     Ok \<lparr>co_curve = curve, co_secret = secret, co_window_start = now_tick, co_last_tick = now_tick,
                         co_admitted_in_window = 0, co_reservation_sequence = 0, co_accepted = 0, co_rejected = 0,
                         co_observed = 0, co_virtual_backlog_q16 = 0, co_curve_root = curve_root, co_calibrator = cal\<rparr>))))"

definition uncertainty_guard_ticks :: "controller \<Rightarrow> u64" where
  "uncertainty_guard_ticks s = (case guard (co_calibrator s) of Ok g \<Rightarrow> g | Err _ \<Rightarrow> sc_window_ticks (co_curve s))"

definition reject :: "controller \<Rightarrow> controller" where
  "reject s = s\<lparr>co_rejected := saturating_add (co_rejected s) 1\<rparr>"

definition drift_penalty_ticks :: "controller \<Rightarrow> u64" where
  "drift_penalty_ticks s =
     (let jobs = drop_bit 16 (co_virtual_backlog_q16 s) in
      if jobs = 0 then 0
      else
        (let service = ucast (sc_minimum_completions_per_window (co_curve s));
             windows = saturating_add jobs (service - 1) div service
         in saturating_mul windows (sc_window_ticks (co_curve s))))"

definition controller_advance :: "controller \<Rightarrow> u64 \<Rightarrow> (admission_fault + unit) \<times> controller" where
  "controller_advance s now_tick =
     (if now_tick < co_last_tick s \<or> now_tick < co_window_start s then (Err TimeRegression, reject s)
      else
        (let elapsed = now_tick - co_window_start s; w = sc_window_ticks (co_curve s) in
         if elapsed \<ge> w then
           (let windows = elapsed div w in
            case checked_mul windows w of
              None \<Rightarrow> (Err ArithmeticOverflow, s)
            | Some span \<Rightarrow>
                (case checked_add (co_window_start s) span of
                   None \<Rightarrow> (Err ArithmeticOverflow, s)
                 | Some start \<Rightarrow>
                     (let s = s\<lparr>co_window_start := start, co_admitted_in_window := 0\<rparr> in
                      case Option.bind (checked_mul windows (ucast (sc_minimum_completions_per_window (co_curve s))))
                             (\<lambda>v. checked_mul v Q16_ONE) of
                        None \<Rightarrow> (Err ArithmeticOverflow, s)
                      | Some service \<Rightarrow>
                          (Ok (), s\<lparr>co_virtual_backlog_q16 := saturating_sub (co_virtual_backlog_q16 s) service,
                                   co_last_tick := now_tick\<rparr>))))
         else (Ok (), s\<lparr>co_last_tick := now_tick\<rparr>)))"

definition verify_certificate :: "controller \<Rightarrow> certificate \<Rightarrow> bool" where
  "verify_certificate s c \<longleftrightarrow> certificate_valid c \<and> ce_curve_root c = co_curve_root s
     \<and> ce_certificate_root c = admission_certificate_root (co_secret s) c"

definition controller_admit :: "controller \<Rightarrow> u64 \<Rightarrow> u64 \<Rightarrow> nat \<Rightarrow> (admission_fault + certificate) \<times> controller" where
  "controller_admit s now_tick deadline_tick backlog_before =
     (case controller_advance s now_tick of
        (Err e, s) \<Rightarrow> (Err e, s)
      | (Ok _, s) \<Rightarrow>
          if backlog_before \<ge> unat (sc_maximum_backlog (co_curve s)) then (Err BacklogSaturated, reject s)
          else if co_admitted_in_window s \<ge> sc_maximum_admissions_per_window (co_curve s)
          then (Err ArrivalEnvelopeExceeded, reject s)
          else
            (case deterministic_delay (co_curve s) backlog_before of None \<Rightarrow> (Err BacklogSaturated, s) | Some deterministic \<Rightarrow>
            (case guard (co_calibrator s) of Err _ \<Rightarrow> (Err ArithmeticOverflow, s) | Ok uncertainty \<Rightarrow>
            (let drift_penalty = drift_penalty_ticks s in
             case Option.bind (checked_add deterministic uncertainty) (\<lambda>v. checked_add v drift_penalty) of
               None \<Rightarrow> (Err ArithmeticOverflow, s)
             | Some delay \<Rightarrow>
            (case checked_add now_tick delay of None \<Rightarrow> (Err ArithmeticOverflow, s) | Some required_deadline \<Rightarrow>
             if deadline_tick < required_deadline then (Err DeadlineUnsafe, reject s)
             else
            (case checked_add (co_reservation_sequence s) 1 of None \<Rightarrow> (Err ArithmeticOverflow, s) | Some sequence \<Rightarrow>
            (let admitted_before = co_admitted_in_window s in
             case checked_add (co_admitted_in_window s) 1 of None \<Rightarrow> (Err ArithmeticOverflow, s) | Some admitted \<Rightarrow>
            (let s = s\<lparr>co_admitted_in_window := admitted, co_reservation_sequence := sequence,
                       co_accepted := saturating_add (co_accepted s) 1,
                       co_virtual_backlog_q16 := saturating_add (co_virtual_backlog_q16 s) Q16_ONE\<rparr> in
             if backlog_before \<ge> 65536 then (Err BacklogSaturated, s)
             else
               (let c = \<lparr>ce_reservation_sequence = co_reservation_sequence s, ce_admitted_tick = now_tick,
                         ce_window_start = co_window_start s, ce_backlog_before = of_nat backlog_before,
                         ce_admitted_before = admitted_before, ce_deterministic_delay_ticks = deterministic,
                         ce_uncertainty_guard_ticks = uncertainty, ce_drift_penalty_ticks = drift_penalty,
                         ce_delay_bound_ticks = delay, ce_deadline_slack_ticks = deadline_tick - required_deadline,
                         ce_curve_root = co_curve_root s, ce_calibration_root = ca_root (co_calibrator s),
                         ce_certificate_root = 0\<rparr>
                in (Ok (c\<lparr>ce_certificate_root := admission_certificate_root (co_secret s) c\<rparr>), s))))))))))"

definition rollback :: "controller \<Rightarrow> certificate \<Rightarrow> (admission_fault + unit) \<times> controller" where
  "rollback s c =
     (if \<not> verify_certificate s c \<or> ce_window_start c \<noteq> co_window_start s
         \<or> ce_reservation_sequence c \<noteq> co_reservation_sequence s
         \<or> co_admitted_in_window s \<noteq> saturating_add (ce_admitted_before c) 1
      then (Err StaleReservation, s)
      else (Ok (), s\<lparr>co_admitted_in_window := ce_admitted_before c,
                    co_accepted := saturating_sub (co_accepted s) 1,
                    co_virtual_backlog_q16 := saturating_sub (co_virtual_backlog_q16 s) Q16_ONE\<rparr>))"

definition observe_completion :: "controller \<Rightarrow> certificate \<Rightarrow> u64 \<Rightarrow> (admission_fault + u64) \<times> controller" where
  "observe_completion s c completion_tick =
     (if \<not> verify_certificate s c \<or> completion_tick < ce_admitted_tick c then (Err CorruptObservation, s)
      else
        (case controller_advance s completion_tick of
           (Err e, s) \<Rightarrow> (Err e, s)
         | (Ok _, s) \<Rightarrow>
             (let observed_delay = completion_tick - ce_admitted_tick c in
              case checked_add (ce_deterministic_delay_ticks c) (ce_drift_penalty_ticks c) of
                None \<Rightarrow> (Err ArithmeticOverflow, s)
              | Some predicted \<Rightarrow>
                  (let residual = saturating_sub observed_delay predicted in
                   case calibrator_push (co_calibrator s) residual of
                     (Err _, cal) \<Rightarrow> (Err CorruptObservation, s\<lparr>co_calibrator := cal\<rparr>)
                   | (Ok g, cal) \<Rightarrow>
                       (let s = s\<lparr>co_calibrator := cal,
                                  co_virtual_backlog_q16 := saturating_sub (co_virtual_backlog_q16 s) Q16_ONE\<rparr>;
                            s = (if observed_delay > ce_delay_bound_ticks c then
                                   (let excess = observed_delay - ce_delay_bound_ticks c;
                                        pressure = (case checked_mul excess Q16_ONE of
                                                      Some v \<Rightarrow> if sc_window_ticks (co_curve s) = 0 then - 1
                                                                else v div sc_window_ticks (co_curve s)
                                                    | None \<Rightarrow> - 1)
                                    in s\<lparr>co_virtual_backlog_q16 := saturating_add (co_virtual_backlog_q16 s) pressure\<rparr>)
                                 else s)
                        in (Ok g, s\<lparr>co_observed := saturating_add (co_observed s) 1\<rparr>))))))"

section \<open>Sequences of calls\<close>

datatype service_call = AdmitCall u64 u64 nat | RollbackCall certificate | ObserveCall certificate u64

fun service_exec :: "controller \<Rightarrow> service_call \<Rightarrow> controller" where
  "service_exec s (AdmitCall now deadline backlog) = snd (controller_admit s now deadline backlog)"
| "service_exec s (RollbackCall c) = snd (rollback s c)"
| "service_exec s (ObserveCall c tick) = snd (observe_completion s c tick)"

definition service_run :: "controller \<Rightarrow> service_call list \<Rightarrow> controller" where
  "service_run s cs = foldl service_exec s cs"

section \<open>The delay bound\<close>

lemma ceil_windows:
  fixes d s :: nat
  assumes "0 < s"
  shows "d \<le> (d + (s - 1)) div s * s" and "k < (d + (s - 1)) div s \<Longrightarrow> k * s < d"
proof -
  let ?w = "(d + (s - 1)) div s"
  have split: "?w * s + (d + (s - 1)) mod s = d + (s - 1)" by simp
  have r: "(d + (s - 1)) mod s < s" using assms by simp
  show "d \<le> ?w * s" using split r by linarith
  assume "k < ?w"
  then have "Suc k * s \<le> ?w * s" by (intro mult_le_mono1) simp
  then show "k * s < d" using split assms unfolding mult_Suc by linarith
qed

definition exact_delay :: "service_curve \<Rightarrow> nat \<Rightarrow> nat" where
  "exact_delay c backlog =
     (let s = unat (sc_minimum_completions_per_window c) in
      unat (sc_latency_ticks c) + (backlog + 1 + (s - 1)) div s * unat (sc_window_ticks c))"

text \<open>The completions the curve guarantees within \<open>t\<close> ticks.\<close>

definition guaranteed :: "service_curve \<Rightarrow> nat \<Rightarrow> nat" where
  "guaranteed c t = (t - unat (sc_latency_ticks c)) div unat (sc_window_ticks c) * unat (sc_minimum_completions_per_window c)"

lemma exact_delay_least:
  assumes "curve_valid c"
  shows "backlog + 1 \<le> guaranteed c (exact_delay c backlog)" and "t < exact_delay c backlog \<Longrightarrow> guaranteed c t < backlog + 1"
proof -
  let ?s = "unat (sc_minimum_completions_per_window c)" and ?W = "unat (sc_window_ticks c)"
  have pos: "0 < ?s" "0 < ?W" using assms by (simp_all add: curve_valid_def unat_gt_0)
  note w = ceil_windows[OF pos(1), where d = "backlog + 1"]
  show "backlog + 1 \<le> guaranteed c (exact_delay c backlog)" using w(1) pos(2) by (simp add: guaranteed_def exact_delay_def Let_def)
  assume t: "t < exact_delay c backlog"
  have "(t - unat (sc_latency_ticks c)) div ?W < (backlog + 1 + (?s - 1)) div ?s"
  proof (cases "unat (sc_latency_ticks c) \<le> t")
    case True
    then have "t - unat (sc_latency_ticks c) < (backlog + 1 + (?s - 1)) div ?s * ?W" using t by (simp add: exact_delay_def Let_def)
    then show ?thesis using pos(2) by (simp add: less_mult_imp_div_less)
  next
    case False
    have "?s \<le> backlog + 1 + (?s - 1)" using pos(1) by simp
    then have "0 < (backlog + 1 + (?s - 1)) div ?s" using pos(1) by (simp only: div_greater_zero_iff)
    with False show ?thesis by simp
  qed
  from w(2)[OF this] show "guaranteed c t < backlog + 1" by (simp add: guaranteed_def)
qed

lemma unat_ucast_u16 [simp]: "unat (ucast (x :: u16) :: u64) = unat x"
  by (simp add: unsigned_ucast_eq take_bit_nat_eq_self_iff) (use unat_lt2p[of x] in simp)

lemma deterministic_delay_exact:
  assumes "curve_valid c" and "backlog < unat (sc_maximum_backlog c)"
  shows "deterministic_delay c backlog = (if exact_delay c backlog < 2 ^ 64 then Some (of_nat (exact_delay c backlog)) else None)"
proof -
  let ?s = "sc_minimum_completions_per_window c" let ?service = "ucast ?s :: u64" let ?W = "sc_window_ticks c"
  have b: "backlog < 65536" using assms(2) unat_lt2p[of "sc_maximum_backlog c"] by simp
  have s: "0 < unat ?s" "unat ?s < 65536" using assms(1) unat_lt2p[of ?s] by (simp_all add: curve_valid_def unat_gt_0)
  have ub: "unat (of_nat backlog :: u64) = backlog" using b by (simp add: unat_of_nat)
  have d: "checked_add (of_nat backlog) (1 :: u64) = Some (of_nat backlog + 1)" "unat (of_nat backlog + 1 :: u64) = backlog + 1"
    using b ub by (simp_all add: checked_add_def unat_add_le)
  have m: "unat (?service - 1) = unat ?s - 1" using s by (simp add: unat_sub word_le_nat_alt)
  have t: "checked_add (of_nat backlog + 1) (?service - 1) = Some (of_nat backlog + 1 + (?service - 1))"
    "unat (of_nat backlog + 1 + (?service - 1)) = backlog + 1 + (unat ?s - 1)"
    using b s d(2) m unat_add_le[of "of_nat backlog + 1 :: u64" "?service - 1"] by (simp_all add: checked_add_def)
  let ?w = "(of_nat backlog + 1 + (?service - 1)) div ?service"
  have w: "unat ?w = (backlog + 1 + (unat ?s - 1)) div unat ?s" by (simp only: unat_div t(2) unat_ucast_u16)
  have "deterministic_delay c backlog = (case checked_mul ?w ?W of None \<Rightarrow> None | Some t \<Rightarrow> checked_add (sc_latency_ticks c) t)"
    using assms b d(1) t(1) by (simp add: deterministic_delay_def Let_def)
  also have "\<dots> = (if exact_delay c backlog < 2 ^ 64 then Some (of_nat (exact_delay c backlog)) else None)"
  proof (cases "unat ?w * unat ?W < 2 ^ 64")
    case True
    then have "unat (?w * ?W) = unat ?w * unat ?W" by (simp add: unat_word_ariths)
    then have e: "exact_delay c backlog = unat (sc_latency_ticks c) + unat (?w * ?W)" using w by (simp add: exact_delay_def Let_def)
    show ?thesis using True by (simp add: checked_mul_def checked_add_def e of_nat_unat)
  next
    case False
    then have "\<not> exact_delay c backlog < 2 ^ 64" using w by (simp add: exact_delay_def Let_def)
    with False show ?thesis by (simp add: checked_mul_def)
  qed
  finally show ?thesis .
qed

section \<open>The guard\<close>

lemma sorted_count:
  "sorted xs \<Longrightarrow> i < length xs \<Longrightarrow> Suc i \<le> length (filter (\<lambda>x. x \<le> xs ! i) xs)"
proof -
  assume s: "sorted xs" "i < length xs"
  have "filter (\<lambda>x. x \<le> xs ! i) (take (Suc i) xs) = take (Suc i) xs"
    using s by (auto simp: in_set_conv_nth intro!: filter_True sorted_nth_mono)
  then have "Suc i = length (filter (\<lambda>x. x \<le> xs ! i) (take (Suc i) xs))" using s(2) by simp
  also have "\<dots> \<le> length (filter (\<lambda>x. x \<le> xs ! i) (take (Suc i) xs @ drop (Suc i) xs))" by (simp only: filter_append length_append le_add1)
  finally show ?thesis by simp
qed

lemma length_filter_sort: "length (filter P (sort xs)) = length (filter P xs)"
  by (metis mset_filter mset_sort size_mset)

definition calibrator_ok :: "calibrator \<Rightarrow> bool" where
  "calibrator_ok c \<longleftrightarrow> ca_length c \<le> length (ca_residuals c) \<and> ca_cursor c < length (ca_residuals c)
     \<and> 0 < unat (ca_coverage_numerator c) \<and> ca_coverage_numerator c < ca_coverage_denominator c"

lemma guard_coverage:
  assumes "calibrator_ok c" and "guard c = Ok g" and "0 < ca_length c" and "g \<noteq> ca_maximum_guard c"
  shows "min (ca_length c) (((ca_length c + 1) * unat (ca_coverage_numerator c) + (unat (ca_coverage_denominator c) - 1)) div unat (ca_coverage_denominator c))
    \<le> length (filter (\<lambda>r. unat r + unat (ca_additive_slack c) \<le> unat g) (take (ca_length c) (ca_residuals c)))"
proof -
  let ?n = "ca_length c" and ?a = "unat (ca_coverage_numerator c)" and ?d = "unat (ca_coverage_denominator c)"
  let ?rs = "take ?n (ca_residuals c)" let ?rank = "((?n + 1) * ?a + (?d - 1)) div ?d" let ?i = "min (?rank - 1) (?n - 1)"
  have d: "0 < ?a" "?a < ?d" using assms(1) by (simp_all add: calibrator_ok_def word_less_nat_alt)
  obtain n num r v where "checked_add_usize ?n 1 = Some n" "checked_mul_usize n ?a = Some num" "checked_add_usize num (?d - 1) = Some r"
    "checked_add (sort ?rs ! min (r div ?d - 1) (?n - 1)) (ca_additive_slack c) = Some v" and gv: "g = min v (ca_maximum_guard c)"
    using assms(2,3) unfolding guard_def Let_def by (simp add: bind_eq_Some_conv bind_eq_None_conv split: option.split_asm)
  then have v: "checked_add (sort ?rs ! ?i) (ca_additive_slack c) = Some v" "g = min v (ca_maximum_guard c)"
    by (auto simp: checked_add_usize_def checked_mul_usize_def split: if_splits)
  have g: "g = v" using v(2) assms(4) by (auto simp: min_def split: if_splits)
  have u: "unat v = unat (sort ?rs ! ?i) + unat (ca_additive_slack c)" by (rule checked_add_SomeD(1)[OF v(1)])
  have len: "length (sort ?rs) = ?n" using assms(1) by (simp add: calibrator_ok_def)
  have "?d \<le> (?n + 1) * ?a + (?d - 1)" using d by simp
  then have "0 < ?rank" using d unfolding div_greater_zero_iff by simp
  then have "min ?n ?rank = Suc ?i" using assms(3) by simp
  also have "\<dots> \<le> length (filter (\<lambda>x. x \<le> sort ?rs ! ?i) (sort ?rs))" using assms(3) len by (intro sorted_count) auto
  also have "\<dots> = length (filter (\<lambda>x. x \<le> sort ?rs ! ?i) ?rs)" by (rule length_filter_sort)
  also have "\<dots> = length (filter (\<lambda>r. unat r + unat (ca_additive_slack c) \<le> unat g) ?rs)"
    unfolding g u by (simp add: word_le_nat_alt)
  finally show ?thesis .
qed

section \<open>Windows\<close>

text \<open>An advance stays in the window, or moves to a later one that is still empty.\<close>

lemma advance_window:
  assumes "controller_advance s now = (res, t)" and "sc_window_ticks (co_curve s) \<noteq> 0"
  shows "co_curve t = co_curve s \<and> co_calibrator t = co_calibrator s \<and> co_reservation_sequence t = co_reservation_sequence s
    \<and> co_secret t = co_secret s \<and> co_curve_root t = co_curve_root s \<and> co_accepted t = co_accepted s
    \<and> (co_window_start t = co_window_start s \<and> co_admitted_in_window t = co_admitted_in_window s
       \<or> co_window_start s < co_window_start t \<and> co_admitted_in_window t = 0)"
proof (cases "now < co_last_tick s \<or> now < co_window_start s \<or> now - co_window_start s < sc_window_ticks (co_curve s)")
  case True
  then show ?thesis using assms(1) by (auto simp: controller_advance_def reject_def Let_def split: if_splits)
next
  case False
  let ?e = "now - co_window_start s" and ?w = "sc_window_ticks (co_curve s)"
  have le: "?w \<le> ?e" using False by (simp add: not_less)
  have pos: "0 < unat ?w" using assms(2) by (simp add: unat_gt_0)
  have span: "unat (?e div ?w) * unat ?w \<le> unat ?e" by (simp add: unat_div)
  then have m: "checked_mul (?e div ?w) ?w = Some (?e div ?w * ?w)" "unat (?e div ?w * ?w) = unat (?e div ?w) * unat ?w"
    using unat_lt2p[of ?e] by (simp_all add: checked_mul_def unat_word_ariths)
  have "1 \<le> unat (?e div ?w)" using le pos by (simp add: unat_div word_le_nat_alt div_greater_zero_iff Suc_le_eq)
  then have "0 < unat (?e div ?w * ?w)" using m(2) pos by simp
  moreover have "co_window_start s \<le> now" using False by (simp add: not_less)
  then have "unat ?e = unat now - unat (co_window_start s)" "unat (co_window_start s) \<le> unat now"
    by (simp_all add: unat_sub word_le_nat_alt)
  then have "unat (co_window_start s) + unat (?e div ?w * ?w) < 2 ^ 64" using span m(2) unat_lt2p[of now] by simp
  ultimately have a: "checked_add (co_window_start s) (?e div ?w * ?w) = Some (co_window_start s + ?e div ?w * ?w)"
    "co_window_start s < co_window_start s + ?e div ?w * ?w" by (simp_all add: checked_add_def word_less_nat_alt unat_add_le)
  show ?thesis using assms(1) False m(1) a by (auto simp: controller_advance_def Let_def split: if_splits option.splits)
qed

section \<open>Admission\<close>

definition admissible :: "controller \<Rightarrow> u64 \<Rightarrow> u64 \<Rightarrow> nat \<Rightarrow> u64 \<Rightarrow> u64 \<Rightarrow> u64 \<Rightarrow> bool" where
  "admissible s now deadline backlog det unc delay \<longleftrightarrow> backlog < unat (sc_maximum_backlog (co_curve s))
     \<and> co_admitted_in_window s < sc_maximum_admissions_per_window (co_curve s)
     \<and> deterministic_delay (co_curve s) backlog = Some det \<and> guard (co_calibrator s) = Ok unc
     \<and> unat delay = unat det + unat unc + unat (drift_penalty_ticks s) \<and> unat now + unat delay \<le> unat deadline
     \<and> co_reservation_sequence s \<noteq> - 1"

definition admitted_state :: "controller \<Rightarrow> controller" where
  "admitted_state s = s\<lparr>co_admitted_in_window := co_admitted_in_window s + 1, co_reservation_sequence := co_reservation_sequence s + 1,
     co_accepted := saturating_add (co_accepted s) 1, co_virtual_backlog_q16 := saturating_add (co_virtual_backlog_q16 s) Q16_ONE\<rparr>"

definition certifies :: "controller \<Rightarrow> u64 \<Rightarrow> u64 \<Rightarrow> nat \<Rightarrow> u64 \<Rightarrow> u64 \<Rightarrow> u64 \<Rightarrow> certificate \<Rightarrow> bool" where
  "certifies s now deadline backlog det unc delay c \<longleftrightarrow> ce_reservation_sequence c = co_reservation_sequence s + 1
     \<and> ce_admitted_tick c = now \<and> ce_window_start c = co_window_start s \<and> ce_backlog_before c = of_nat backlog
     \<and> ce_admitted_before c = co_admitted_in_window s \<and> ce_deterministic_delay_ticks c = det \<and> ce_uncertainty_guard_ticks c = unc
     \<and> ce_drift_penalty_ticks c = drift_penalty_ticks s \<and> ce_delay_bound_ticks c = delay
     \<and> ce_deadline_slack_ticks c = deadline - (now + delay) \<and> ce_curve_root c = co_curve_root s
     \<and> ce_calibration_root c = ca_root (co_calibrator s) \<and> ce_certificate_root c = admission_certificate_root (co_secret s) c"

lemma checked_add_two:
  fixes x :: "'a::len word"
  shows "Option.bind (checked_add x y) (\<lambda>v. checked_add v z) = Some d \<longleftrightarrow> unat d = unat x + unat y + unat z"
proof
  assume "Option.bind (checked_add x y) (\<lambda>v. checked_add v z) = Some d"
  then obtain v where "checked_add x y = Some v" "checked_add v z = Some d" by (auto simp: bind_eq_Some_conv)
  then show "unat d = unat x + unat y + unat z" using checked_add_SomeD(1) by metis
next
  assume d: "unat d = unat x + unat y + unat z"
  then have lt: "unat x + unat y + unat z < 2 ^ LENGTH('a)" using unat_lt2p[of d] by simp
  then have a: "unat (x + y) = unat x + unat y" by (simp add: unat_add_le)
  then have "unat (x + y + z) = unat d" using lt d by (simp add: unat_add_le)
  then have "d = x + y + z" by (simp add: word_unat_eq_iff)
  with lt a show "Option.bind (checked_add x y) (\<lambda>v. checked_add v z) = Some d" by (simp add: checked_add_def)
qed

lemma controller_admit_Ok:
  assumes "controller_admit s now deadline backlog = (Ok c, s')"
  obtains t det unc delay where "controller_advance s now = (Ok (), t)" and "admissible t now deadline backlog det unc delay"
    and "s' = admitted_state t" and "certifies t now deadline backlog det unc delay c"
proof -
  obtain t where t: "controller_advance s now = (Ok (), t)"
    using assms by (cases "controller_advance s now"; cases "fst (controller_advance s now)") (auto simp: controller_admit_def)
  let ?dr = "drift_penalty_ticks t"
  obtain det unc delay req where g: "backlog < unat (sc_maximum_backlog (co_curve t))"
      "co_admitted_in_window t < sc_maximum_admissions_per_window (co_curve t)"
      "deterministic_delay (co_curve t) backlog = Some det" "guard (co_calibrator t) = Ok unc"
      "Option.bind (checked_add det unc) (\<lambda>v. checked_add v ?dr) = Some delay" "checked_add now delay = Some req" "req \<le> deadline"
      "co_reservation_sequence t \<noteq> - 1" "co_admitted_in_window t \<noteq> - 1" "s' = admitted_state t"
    using assms t by (auto simp: controller_admit_def Let_def checked_add_one admitted_state_def not_le not_less
        split: if_splits option.splits sum.splits)
  have req: "req = now + delay" "unat req = unat now + unat delay" using checked_add_SomeD[OF g(6)] by auto
  have "admissible t now deadline backlog det unc delay"
    using g req(2) by (simp add: admissible_def checked_add_two word_le_nat_alt)
  moreover have "certifies t now deadline backlog det unc delay c"
    using assms t g(3-6) req(1) by (auto simp: controller_admit_def Let_def checked_add_one certifies_def
        admission_certificate_root_def split: if_splits option.splits)
  ultimately show thesis using that t g(10) by blast
qed

lemma controller_admit_Err:
  assumes "controller_admit s now deadline backlog = (Err e, s')"
  shows "\<exists>res t. controller_advance s now = (res, t) \<and> (s' = t \<or> s' = reject t)"
proof -
  obtain res t where t: "controller_advance s now = (res, t)" by (cases "controller_advance s now")
  have "\<not> (backlog < unat (sc_maximum_backlog (co_curve t)) \<and> 65536 \<le> backlog)"
    using unat_lt2p[of "sc_maximum_backlog (co_curve t)"] by simp
  then show ?thesis using assms t by (auto simp: controller_admit_def Let_def split: if_splits option.splits sum.splits)
qed

section \<open>The arrival envelope\<close>

fun admit_ok :: "controller \<Rightarrow> service_call \<Rightarrow> nat" where
  "admit_ok s (AdmitCall now deadline backlog) = of_bool (\<not> isl (fst (controller_admit s now deadline backlog)))"
| "admit_ok s _ = 0"

fun rollback_ok :: "controller \<Rightarrow> service_call \<Rightarrow> nat" where
  "rollback_ok s (RollbackCall c) = of_bool (\<not> isl (fst (rollback s c)))"
| "rollback_ok s _ = 0"

text \<open>What one call may do to the window: keep it, with the count moved by the admissions and
  rollbacks the call made, or leave it for a later one.\<close>

definition window_step :: "controller \<Rightarrow> nat \<Rightarrow> nat \<Rightarrow> controller \<Rightarrow> bool" where
  "window_step s a r t \<longleftrightarrow> co_curve t = co_curve s \<and> co_admitted_in_window t \<le> sc_maximum_admissions_per_window (co_curve t)
     \<and> (co_window_start s < co_window_start t
        \<or> co_window_start t = co_window_start s
          \<and> unat (co_admitted_in_window s) + a \<le> unat (co_admitted_in_window t) + r)"

definition envelope_inv :: "controller \<Rightarrow> bool" where
  "envelope_inv s \<longleftrightarrow> curve_valid (co_curve s) \<and> co_admitted_in_window s \<le> sc_maximum_admissions_per_window (co_curve s)"

lemma advance_step:
  assumes "controller_advance s now = (res, t)" and "envelope_inv s"
  shows "window_step s 0 0 t"
  using advance_window[OF assms(1)] assms(2) by (auto simp: envelope_inv_def window_step_def curve_valid_def)

lemma reject_window [simp]:
  "co_curve (reject s) = co_curve s" "co_window_start (reject s) = co_window_start s"
  "co_admitted_in_window (reject s) = co_admitted_in_window s"
  by (simp_all add: reject_def)

lemma admit_step:
  assumes "envelope_inv s"
  shows "window_step s (of_bool (\<not> isl (fst (controller_admit s now deadline backlog)))) 0 (snd (controller_admit s now deadline backlog))"
proof (cases "controller_admit s now deadline backlog")
  case (Pair r s')
  show ?thesis
  proof (cases r)
    case (Inl e)
    with Pair obtain res t where "controller_advance s now = (res, t)" "s' = t \<or> s' = reject t" using controller_admit_Err by blast
    with advance_step[OF this(1) assms] Pair Inl show ?thesis by (auto simp: window_step_def)
  next
    case (Inr c)
    with Pair obtain t det unc delay where t: "controller_advance s now = (Ok (), t)" "admissible t now deadline backlog det unc delay"
      "s' = admitted_state t" by (metis controller_admit_Ok)
    then have lt: "co_admitted_in_window t < sc_maximum_admissions_per_window (co_curve t)" by (simp add: admissible_def)
    then have "unat (co_admitted_in_window t + 1) = unat (co_admitted_in_window t) + 1"
      using unat_Suc_le[of "co_admitted_in_window t"] unat_le_minus_one[of "sc_maximum_admissions_per_window (co_curve t)"]
      by (cases "co_admitted_in_window t = - 1") (simp_all add: word_less_nat_alt not_less)
    with advance_step[OF t(1) assms] t(3) lt Pair Inr show ?thesis
      by (auto simp: window_step_def admitted_state_def word_le_nat_alt word_less_nat_alt)
  qed
qed

lemma rollback_step:
  assumes "envelope_inv s"
  shows "window_step s 0 (of_bool (\<not> isl (fst (rollback s c)))) (snd (rollback s c))"
proof (cases "fst (rollback s c)")
  case (Inl e)
  then show ?thesis using assms by (auto simp: rollback_def window_step_def envelope_inv_def split: if_splits)
next
  case (Inr u)
  then have c: "co_admitted_in_window s = saturating_add (ce_admitted_before c) 1" and
    t: "snd (rollback s c) = s\<lparr>co_admitted_in_window := ce_admitted_before c, co_accepted := saturating_sub (co_accepted s) 1,
      co_virtual_backlog_q16 := saturating_sub (co_virtual_backlog_q16 s) Q16_ONE\<rparr>"
    by (auto simp: rollback_def split: if_splits)
  have "unat (ce_admitted_before c) \<le> unat (co_admitted_in_window s)" "unat (co_admitted_in_window s) \<le> unat (ce_admitted_before c) + 1"
    using unat_lt2p[of "ce_admitted_before c"] by (auto simp: c unat_saturating_add)
  with assms t Inr show ?thesis by (auto simp: window_step_def envelope_inv_def word_le_nat_alt)
qed

lemma observe_step:
  assumes "envelope_inv s"
  shows "window_step s 0 0 (snd (observe_completion s c tick))"
proof (cases "\<not> verify_certificate s c \<or> tick < ce_admitted_tick c")
  case True
  then show ?thesis using assms by (auto simp: observe_completion_def window_step_def envelope_inv_def)
next
  case False
  obtain r t where t: "controller_advance s tick = (r, t)" by (cases "controller_advance s tick")
  let ?t = "snd (observe_completion s c tick)"
  have "co_curve ?t = co_curve t" "co_window_start ?t = co_window_start t" "co_admitted_in_window ?t = co_admitted_in_window t"
    using False t by (auto simp: observe_completion_def Let_def split: sum.splits option.splits prod.splits)
  with advance_step[OF t assms] show ?thesis by (auto simp: window_step_def)
qed

lemma service_exec_step: "envelope_inv s \<Longrightarrow> window_step s (admit_ok s call) (rollback_ok s call) (service_exec s call)"
  by (cases call) (simp_all add: admit_step rollback_step observe_step)

lemma window_step_inv: "envelope_inv s \<Longrightarrow> window_step s a r t \<Longrightarrow> envelope_inv t"
  by (auto simp: envelope_inv_def window_step_def)

lemma window_step_trans:
  "window_step s a r t \<Longrightarrow> window_step t b q u \<Longrightarrow> window_step s (a + b) (r + q) u"
  by (auto simp: window_step_def)

lemma service_run_step:
  "envelope_inv s \<Longrightarrow> window_step s (tally service_exec admit_ok s cs) (tally service_exec rollback_ok s cs) (service_run s cs)"
proof (induction cs arbitrary: s)
  case Nil
  then show ?case by (simp add: window_step_def envelope_inv_def service_run_def)
next
  case (Cons x xs)
  note step = service_exec_step[OF Cons.prems, of x]
  from window_step_trans[OF step Cons.IH[OF window_step_inv[OF Cons.prems step]]] show ?case
    by (simp add: service_run_def)
qed
section \<open>The residual ring\<close>

definition calibrator_feed :: "calibrator \<Rightarrow> u64 list \<Rightarrow> calibrator" where
  "calibrator_feed c rs = foldl (\<lambda>c r. snd (calibrator_push c r)) c rs"

text \<open>The ring holds the latest residuals: a prefix while it fills, a rotation once it is full.\<close>

definition ring_holds :: "calibrator \<Rightarrow> u64 list \<Rightarrow> bool" where
  "ring_holds c bs \<longleftrightarrow> (let xs = ca_residuals c; N = length xs in
     if length bs < N then ca_length c = length bs \<and> ca_cursor c = length bs \<and> take (length bs) xs = bs
     else ca_length c = N \<and> ca_cursor c < N \<and> drop (ca_cursor c) xs @ take (ca_cursor c) xs = drop (length bs - N) bs)"

lemma rotation_push:
  assumes "k < length xs" and "drop k xs @ take k xs = ys"
  shows "drop (Suc k mod length xs) (xs[k := b]) @ take (Suc k mod length xs) (xs[k := b]) = tl ys @ [b]"
proof (cases "Suc k = length xs")
  case True
  then have "k = length xs - 1" by simp
  then have "xs[k := b] = take k xs @ [b]" "drop k xs = [xs ! k]"
    using assms(1) upd_conv_take_nth_drop[OF assms(1), of b] Cons_nth_drop_Suc[OF assms(1)] by simp_all
  then show ?thesis using True assms(2) by auto
next
  case False
  then have m: "Suc k mod length xs = Suc k" using assms(1) by simp
  have "tl ys = drop (Suc k) xs @ take k xs" using assms by (simp add: Cons_nth_drop_Suc[symmetric] flip: assms(2))
  then show ?thesis unfolding m using assms(1) by (simp add: take_Suc_update)
qed

lemma calibrator_push_ring:
  "ca_residuals (snd (calibrator_push c r)) = (ca_residuals c)[ca_cursor c := min r (ca_maximum_guard c)]"
  "ca_cursor (snd (calibrator_push c r)) = Suc (ca_cursor c) mod length (ca_residuals c)"
  "ca_length (snd (calibrator_push c r)) = min (Suc (ca_length c)) (length (ca_residuals c))"
  by (simp_all add: calibrator_push_def calibrator_seal_def Let_def)

lemma calibrator_push_holds:
  assumes "ring_holds c bs" and "0 < length (ca_residuals c)"
  shows "ring_holds (snd (calibrator_push c r)) (bs @ [min r (ca_maximum_guard c)])"
proof -
  let ?xs = "ca_residuals c" let ?N = "length ?xs" and ?b = "min r (ca_maximum_guard c)"
  consider (fill) "Suc (length bs) < ?N" | (top) "Suc (length bs) = ?N" | (full) "?N \<le> length bs" by linarith
  then show ?thesis
  proof cases
    case full
    then have h: "ca_cursor c < ?N" "drop (ca_cursor c) ?xs @ take (ca_cursor c) ?xs = drop (length bs - ?N) bs" "ca_length c = ?N"
      using assms(1) by (auto simp: ring_holds_def Let_def)
    have "Suc 0 - ?N = 0" using assms(2) by (cases ?xs) simp_all
    then have "tl (drop (length bs - ?N) bs) @ [?b] = drop (Suc (length bs) - ?N) (bs @ [?b])"
      using full by (simp add: Suc_diff_le tl_drop drop_Suc)
    with rotation_push[OF h(1,2)] h(3) full assms(2) show ?thesis by (simp add: ring_holds_def calibrator_push_ring)
  next
    case fill
    then show ?thesis using assms by (auto simp: ring_holds_def calibrator_push_ring Let_def take_Suc_update)
  next
    case top
    then have "take (length bs) ?xs = bs" "ca_cursor c = length bs" "ca_length c = length bs" using assms(1) by (simp_all add: ring_holds_def Let_def)
    then have "?xs[ca_cursor c := ?b] = bs @ [?b]" using top take_Suc_update[of "length bs" ?xs ?b] by simp
    then show ?thesis using top assms(2) \<open>ca_cursor c = length bs\<close> \<open>ca_length c = length bs\<close> by (simp add: ring_holds_def calibrator_push_ring Let_def)
  qed
qed

lemma calibrator_push_frame [simp]:
  "length (ca_residuals (snd (calibrator_push c r))) = length (ca_residuals c)"
  "ca_coverage_numerator (snd (calibrator_push c r)) = ca_coverage_numerator c"
  "ca_coverage_denominator (snd (calibrator_push c r)) = ca_coverage_denominator c"
  "ca_additive_slack (snd (calibrator_push c r)) = ca_additive_slack c"
  "ca_maximum_guard (snd (calibrator_push c r)) = ca_maximum_guard c"
  by (simp_all add: calibrator_push_def calibrator_seal_def Let_def)

lemma calibrator_feed_snoc: "calibrator_feed c (rs @ [r]) = snd (calibrator_push (calibrator_feed c rs) r)"
  by (simp add: calibrator_feed_def)

lemma calibrator_feed_frame [simp]:
  "length (ca_residuals (calibrator_feed c rs)) = length (ca_residuals c)"
  "ca_coverage_numerator (calibrator_feed c rs) = ca_coverage_numerator c"
  "ca_coverage_denominator (calibrator_feed c rs) = ca_coverage_denominator c"
  "ca_additive_slack (calibrator_feed c rs) = ca_additive_slack c"
  "ca_maximum_guard (calibrator_feed c rs) = ca_maximum_guard c"
  by (induction rs rule: rev_induct; simp add: calibrator_feed_def)+

lemma calibrator_feed_holds:
  assumes "ring_holds c []" and "0 < length (ca_residuals c)"
  shows "ring_holds (calibrator_feed c rs) (map (\<lambda>r. min r (ca_maximum_guard c)) rs)"
proof (induction rs rule: rev_induct)
  case Nil
  then show ?case using assms(1) by (simp add: calibrator_feed_def)
next
  case (snoc r rs)
  then show ?case using calibrator_push_holds[OF snoc, of r] assms(2) by (simp add: calibrator_feed_snoc)
qed

lemma ring_holds_recent:
  assumes "ring_holds c bs" and "0 < length (ca_residuals c)"
  shows "mset (take (ca_length c) (ca_residuals c)) = mset (drop (length bs - length (ca_residuals c)) bs)"
proof (cases "length bs < length (ca_residuals c)")
  case True
  then show ?thesis using assms(1) by (simp add: ring_holds_def Let_def)
next
  case False
  let ?xs = "ca_residuals c"
  have "ca_length c = length ?xs" "drop (ca_cursor c) ?xs @ take (ca_cursor c) ?xs = drop (length bs - length ?xs) bs"
    using False assms(1) by (simp_all add: ring_holds_def Let_def)
  moreover have "mset ?xs = mset (drop (ca_cursor c) ?xs @ take (ca_cursor c) ?xs)"
    by (metis append_take_drop_id mset_append union_commute)
  ultimately show ?thesis by simp
qed

lemma ring_holds_length: "ring_holds c bs \<Longrightarrow> ca_length c = min (length (ca_residuals c)) (length bs)"
  by (auto simp: ring_holds_def Let_def split: if_splits)

lemma ring_holds_cursor: "ring_holds c bs \<Longrightarrow> ca_cursor c < length (ca_residuals c)"
  by (auto simp: ring_holds_def Let_def split: if_splits)

lemma calibrator_new_holds:
  assumes "calibrator_new N numerator denominator slack maximum secret = Ok c"
  shows "ring_holds c []" and "length (ca_residuals c) = N" and "0 < N" and "ca_coverage_numerator c = numerator"
    and "ca_coverage_denominator c = denominator" and "ca_additive_slack c = slack" and "ca_maximum_guard c = maximum"
    and "0 < unat numerator" and "numerator < denominator"
  using assms by (auto simp: calibrator_new_def calibrator_seal_def ring_holds_def unat_gt_0 not_le split: if_splits)

lemma calibrator_new_ring:
  assumes "calibrator_new N numerator denominator slack maximum secret = Ok c"
  shows "ca_residuals c = replicate N 0" and "ca_cursor c = 0" and "ca_length c = 0"
  using assms by (auto simp: calibrator_new_def calibrator_seal_def split: if_splits)

section \<open>Properties\<close>

lemma advance_curve: "controller_advance s now = (r, t) \<Longrightarrow> co_curve t = co_curve s"
  by (auto simp: controller_advance_def reject_def Let_def split: if_splits option.splits)

lemma deterministic_delay_least:
  assumes "deterministic_delay c backlog = Some det"
  shows "unat det = (LEAST t. backlog < guaranteed c t)"
proof -
  have v: "curve_valid c" "backlog < unat (sc_maximum_backlog c)"
    using assms by (auto simp: deterministic_delay_def split: if_splits)
  have "unat det = exact_delay c backlog"
    using assms deterministic_delay_exact[OF v] by (auto simp: unat_of_nat split: if_splits)
  moreover have "(LEAST t. backlog < guaranteed c t) = exact_delay c backlog"
    using exact_delay_least(1)[OF v(1), of backlog] exact_delay_least(2)[OF v(1), where backlog = backlog]
    by (intro Least_equality) (simp, metis Suc_eq_plus1 Suc_leI not_less)
  ultimately show ?thesis by simp
qed

text \<open>
  C21 (bounds). An admitted request meets its deadline on paper: the service delay, the
  uncertainty guard, the drift penalty and the reported slack add up to the deadline with
  no wrap-around, and the service delay is the first time at which the curve guarantees
  the completions of the backlog and of the request itself.\<close>

theorem admission_meets_deadline:
  assumes "controller_admit s now deadline backlog = (Ok c, s')"
  shows "unat now + unat (ce_deterministic_delay_ticks c) + unat (ce_uncertainty_guard_ticks c) + unat (ce_drift_penalty_ticks c)
       + unat (ce_deadline_slack_ticks c) = unat deadline
    \<and> unat (ce_deterministic_delay_ticks c) = (LEAST t. backlog < guaranteed (co_curve s) t)"
proof -
  from assms obtain t det unc delay where t: "controller_advance s now = (Ok (), t)" "admissible t now deadline backlog det unc delay"
    "certifies t now deadline backlog det unc delay c" by (metis controller_admit_Ok)
  have le: "unat now + unat delay \<le> unat deadline" using t(2) by (simp add: admissible_def)
  then have "unat (now + delay) = unat now + unat delay" using unat_lt2p[of deadline] by (simp add: unat_add_le)
  then have "unat (deadline - (now + delay)) = unat deadline - (unat now + unat delay)" using le by (simp add: unat_sub word_le_nat_alt)
  with t(2,3) le deterministic_delay_least advance_curve[OF t(1)] show ?thesis by (auto simp: admissible_def certifies_def)
qed

definition sample_curve :: service_curve where
  "sample_curve = \<lparr>sc_minimum_completions_per_window = 2, sc_maximum_admissions_per_window = 4, sc_window_ticks = 100,
     sc_latency_ticks = 20, sc_maximum_backlog = 8\<rparr>"

definition sample_controller :: controller where
  "sample_controller = \<lparr>co_curve = sample_curve, co_secret = 7, co_window_start = 0, co_last_tick = 0,
     co_admitted_in_window = 0, co_reservation_sequence = 0, co_accepted = 0, co_rejected = 0, co_observed = 0,
     co_virtual_backlog_q16 = 0, co_curve_root = 5,
     co_calibrator = \<lparr>ca_residuals = [0, 0], ca_length = 0, ca_cursor = 0, ca_samples = 0, ca_coverage_numerator = 15,
       ca_coverage_denominator = 16, ca_additive_slack = 1, ca_maximum_guard = 800, ca_secret = 3, ca_root = 9\<rparr>\<rparr>"

definition sample_certificate :: certificate where
  "sample_certificate = \<lparr>ce_reservation_sequence = 1, ce_admitted_tick = 10, ce_window_start = 0, ce_backlog_before = 3,
     ce_admitted_before = 0, ce_deterministic_delay_ticks = 220, ce_uncertainty_guard_ticks = 1, ce_drift_penalty_ticks = 0,
     ce_delay_bound_ticks = 221, ce_deadline_slack_ticks = 769, ce_curve_root = 5, ce_calibration_root = 9, 
     ce_certificate_root = admission_certificate_root 7 \<lparr>ce_reservation_sequence = 1, ce_admitted_tick = 10, ce_window_start = 0, ce_backlog_before = 3,
     ce_admitted_before = 0, ce_deterministic_delay_ticks = 220, ce_uncertainty_guard_ticks = 1, ce_drift_penalty_ticks = 0,
     ce_delay_bound_ticks = 221, ce_deadline_slack_ticks = 769, ce_curve_root = 5, ce_calibration_root = 9, ce_certificate_root = 0\<rparr>\<rparr>"

lemma sample_admission:
  "controller_admit sample_controller 10 1000 3 = (Ok sample_certificate, (admitted_state sample_controller)\<lparr>co_last_tick := 10\<rparr>)"
  by (simp add: controller_admit_def sample_controller_def sample_curve_def sample_certificate_def controller_advance_def admitted_state_def
      deterministic_delay_def curve_valid_def guard_def drift_penalty_ticks_def checked_add_def checked_mul_def Let_def saturating_add_def)

theorem admission_meets_deadline_witness: "(LEAST t. 3 < guaranteed sample_curve t) = 220"
  using admission_meets_deadline[OF sample_admission] by (simp add: sample_certificate_def sample_controller_def)

lemma controller_new_fields:
  assumes "controller_new N curve start secret = Ok s"
  shows "co_curve s = curve" "co_window_start s = start" "co_last_tick s = start" "envelope_inv s"
  using assms by (auto simp: controller_new_def envelope_inv_def Let_def split: if_splits option.splits sum.splits)

text \<open>
  C29 (bounds). The arrival envelope: in a controller that was built on a curve, as long as
  the calls made from some point on stay in one window, they admit no more requests than
  the curve allows for a window and the rollbacks among them gave back.\<close>

theorem arrival_envelope:
  assumes "controller_new N curve start secret = Ok s" and "t = service_run s before"
    and "co_window_start (service_run t calls) = co_window_start t"
  shows "unat (co_admitted_in_window t) + tally service_exec admit_ok t calls
    \<le> unat (sc_maximum_admissions_per_window curve) + tally service_exec rollback_ok t calls"
proof -
  have s: "envelope_inv s" "co_curve s = curve"
    using controller_new_fields[OF assms(1)] by simp_all
  note st = service_run_step[OF s(1), of before, folded assms(2)]
  note t = window_step_inv[OF s(1) st]
  have "co_curve t = curve" using st s(2) by (simp add: window_step_def)
  with service_run_step[OF t, of calls] assms(3) show ?thesis by (auto simp: window_step_def word_le_nat_alt)
qed

definition sample_start :: controller where
  "sample_start = projr (controller_new 2 sample_curve 0 7)"

lemma sample_roots: "service_curve_root 7 sample_curve \<noteq> 0" "service_mix 7 0x43414c4942524154 \<noteq> 0"
  by code_simp+

lemma sample_start_new: "controller_new 2 sample_curve 0 7 = Ok sample_start"
  unfolding sample_start_def using sample_roots
  by (simp add: controller_new_def kernel_default_def calibrator_new_def curve_valid_def checked_mul_def sample_curve_def Let_def)

lemma sample_admit_stays:
  assumes "co_curve s = sample_curve" and "co_window_start s = 0" and "co_last_tick s \<le> 10"
    and t: "t = service_exec s (AdmitCall 10 deadline backlog)"
  shows "co_curve t = sample_curve" and "co_window_start t = 0" and "co_last_tick t = 10"
proof -
  have a: "controller_advance s 10 = (Ok (), s\<lparr>co_last_tick := 10\<rparr>)"
    using assms(1-3) by (simp add: controller_advance_def sample_curve_def Let_def)
  consider c s' where "controller_admit s 10 deadline backlog = (Ok c, s')" | e s' where "controller_admit s 10 deadline backlog = (Err e, s')"
    by (metis surj_pair sum.exhaust)
  then have "t = admitted_state (s\<lparr>co_last_tick := 10\<rparr>) \<or> t = s\<lparr>co_last_tick := 10\<rparr> \<or> t = reject (s\<lparr>co_last_tick := 10\<rparr>)"
    by cases (auto simp: t a elim!: controller_admit_Ok dest!: controller_admit_Err)
  then show "co_curve t = sample_curve" and "co_window_start t = 0" and "co_last_tick t = 10"
    using assms(1,2) by (auto simp: admitted_state_def reject_def)
qed

lemma sample_burst_stays:
  assumes "co_curve s = sample_curve" and "co_window_start s = 0" and "co_last_tick s \<le> 10"
  shows "co_window_start (service_run s (replicate n (AdmitCall 10 1000 3))) = 0"
  using assms by (induction n arbitrary: s) (simp_all add: service_run_def sample_admit_stays[OF _ _ _ refl] del: service_exec.simps)

lemma sample_burst_rollbacks: "tally service_exec rollback_ok s (replicate n (AdmitCall now deadline backlog)) = 0"
  by (induction n arbitrary: s) simp_all

theorem arrival_envelope_witness: "tally service_exec admit_ok sample_start (replicate 6 (AdmitCall 10 1000 3)) \<le> 4"
  using arrival_envelope[OF sample_start_new, where before = "[]" and t = sample_start and calls = "replicate 6 (AdmitCall 10 1000 3)"]
  unfolding sample_burst_rollbacks by (simp add: sample_burst_stays controller_new_fields[OF sample_start_new] service_run_def[of _ "[]"] sample_curve_def)

text \<open>
  The conformal guard covers its quota of what was observed: after any
  residuals were pushed into a new calibrator of capacity \<open>N\<close>, unless the guard is capped
  at its maximum, at least the fraction \<open>numerator / denominator\<close> of the latest \<open>N\<close>
  residuals, taken of one sample more and rounded up, lies below the guard with the
  additive slack to spare.\<close>

theorem guard_covers_recent:
  assumes "calibrator_new N numerator denominator slack maximum secret = Ok c" and "guard (calibrator_feed c rs) = Ok g"
    and "rs \<noteq> []" and "g \<noteq> maximum" and "n = min N (length rs)"
  shows "min n (((n + 1) * unat numerator + (unat denominator - 1)) div unat denominator)
    \<le> length (filter (\<lambda>r. unat (min r maximum) + unat slack \<le> unat g) (drop (length rs - N) rs))"
proof -
  note new = calibrator_new_holds[OF assms(1)]
  let ?c = "calibrator_feed c rs" let ?b = "\<lambda>r. min r maximum" let ?P = "\<lambda>r. unat r + unat slack \<le> unat g"
  have h: "ring_holds ?c (map ?b rs)" using calibrator_feed_holds[OF new(1)] new(2,3,7) by simp
  have n: "ca_length ?c = n" using ring_holds_length[OF h] new(2) assms(5) by simp
  have "calibrator_ok ?c" using ring_holds_cursor[OF h] n assms(5) new by (simp add: calibrator_ok_def)
  from guard_coverage[OF this assms(2)] have "min n (((n + 1) * unat numerator + (unat denominator - 1)) div unat denominator)
      \<le> length (filter ?P (take n (ca_residuals ?c)))" using n assms(3,4,5) new by simp
  also have "\<dots> = length (filter ?P (drop (length rs - N) (map ?b rs)))"
    using ring_holds_recent[OF h] n new(2,3) by (metis calibrator_feed_frame(1) length_map mset_filter size_mset)
  also have "\<dots> = length (filter (\<lambda>r. ?P (?b r)) (drop (length rs - N) rs))"
    by (simp add: drop_map filter_map comp_def)
  finally show ?thesis .
qed

definition sample_calibrator :: calibrator where
  "sample_calibrator = projr (calibrator_new 2 1 2 1 100 7)"

lemma sample_calibrator_new: "calibrator_new 2 1 2 1 100 7 = Ok sample_calibrator"
  by (simp add: sample_calibrator_def calibrator_new_def word_le_nat_alt)

lemma sample_ring: "replicate 2 x = [x, x]"
  by (simp add: numeral_eq_Suc)

lemma sample_guard: "guard (calibrator_feed sample_calibrator [90, 4, 9]) = Ok 10"
proof -
  let ?c = "calibrator_feed sample_calibrator [90, 4, 9]"
  note new = calibrator_new_holds(4-7)[OF sample_calibrator_new] calibrator_new_ring[OF sample_calibrator_new, unfolded sample_ring]
  have "ca_residuals ?c = [9, 4]" "ca_length ?c = 2" using new
    by (simp_all add: calibrator_feed_def calibrator_push_ring min_def)
  then show ?thesis using new by (simp add: guard_def checked_add_usize_def checked_mul_usize_def checked_add_def min_def)
qed

theorem guard_covers_recent_witness:
  "2 \<le> length (filter (\<lambda>r :: u64. unat (min r 100) + unat (1 :: u64) \<le> unat (10 :: u64)) [4, 9])"
  using guard_covers_recent[OF sample_calibrator_new sample_guard _ _ refl] by simp

text \<open>
  Rolling an admission back restores the controller to what it was after
  the clock had advanced, the reservation sequence apart, which is never handed out again.\<close>

theorem rollback_restores:
  assumes "controller_admit s now deadline backlog = (Ok c, s')" and "controller_advance s now = (Ok (), t)" and "certificate_valid c"
    and "co_accepted t \<noteq> - 1" and "unat (co_virtual_backlog_q16 t) + 65536 < 2 ^ 64"
  shows "rollback s' c = (Ok (), t\<lparr>co_reservation_sequence := co_reservation_sequence t + 1\<rparr>)"
proof -
  from assms(1,2) obtain det unc delay where c: "admissible t now deadline backlog det unc delay"
    "s' = admitted_state t" "certifies t now deadline backlog det unc delay c" by (auto elim: controller_admit_Ok)
  have a: "co_admitted_in_window t \<noteq> - 1" using c(1) unat_le_minus_one[of "sc_maximum_admissions_per_window (co_curve t)"]
    by (auto simp: admissible_def word_less_nat_alt not_less[symmetric] simp del: unat_minus_one_word)
  have "saturating_sub (saturating_add (co_accepted t) 1) 1 = co_accepted t"
    "saturating_sub (saturating_add (co_virtual_backlog_q16 t) Q16_ONE) Q16_ONE = co_virtual_backlog_q16 t"
    "saturating_add (co_admitted_in_window t) 1 = co_admitted_in_window t + 1"
    using assms(4,5) a unat_lt2p[of "co_accepted t"] unat_lt2p[of "co_admitted_in_window t"]
    by (auto simp: word_unat_eq_iff unat_saturating_add unat_Suc_le unat_minus_one_word)
  with c assms(3) show ?thesis by (simp add: rollback_def verify_certificate_def certifies_def admitted_state_def)
qed

lemma sample_certificate_valid: "certificate_valid sample_certificate"
  by code_simp

theorem rollback_restores_witness:
  "rollback ((admitted_state sample_controller)\<lparr>co_last_tick := 10\<rparr>) sample_certificate
    = (Ok (), sample_controller\<lparr>co_last_tick := 10, co_reservation_sequence := 1\<rparr>)"
  by (rule rollback_restores[OF sample_admission _ sample_certificate_valid, where t = "sample_controller\<lparr>co_last_tick := 10\<rparr>", THEN trans])
    (simp_all add: sample_controller_def controller_advance_def sample_curve_def)

end
