(* ===== verification/PolicyVm.thy ===== *)
theory PolicyVm
  imports Prelude
begin

text \<open>
  The policy virtual machine, \<^verbatim>\<open>src/core/aether/src/policy.rs\<close>: the instruction set, the
  verifier, the program slots and the interpreter. An indexing of the register array with an
  index out of range panics in the source; a panic is the value \<open>None\<close> of the interpreter, and
  the lemmas show that no loaded program panics. The host functions are arguments of the model,
  functions of the four registers they are given. The program slots and the host table are the
  contents of the spin locks, each of which is held for a whole step of the model. The
  interpreter is related to a semantics of decoded operations with absolute branch targets.
\<close>

type_synonym i32 = "32 word"

abbreviation REGISTER_COUNT :: nat where "REGISTER_COUNT \<equiv> 16"
abbreviation MAXIMUM_PROGRAMS :: nat where "MAXIMUM_PROGRAMS \<equiv> 16"
abbreviation MAXIMUM_INSTRUCTIONS :: nat where "MAXIMUM_INSTRUCTIONS \<equiv> 256"
abbreviation MAXIMUM_HOST_FUNCTIONS :: nat where "MAXIMUM_HOST_FUNCTIONS \<equiv> 32"
abbreviation DEFAULT_FUEL :: u32 where "DEFAULT_FUEL \<equiv> 100000"

section \<open>Instructions\<close>

datatype policy_opcode = Nop | MoveImmediate | Move | Add | Subtract | And | Or | Xor | ShiftLeft | ShiftRight
  | SetLessOrEqual | Jump | JumpIfZero | JumpIfNotZero | CallHost | Return

definition policy_decode :: "u8 \<Rightarrow> policy_opcode option" where
  "policy_decode value =
     (if value = 0 then Some Nop else if value = 1 then Some MoveImmediate else if value = 2 then Some Move
      else if value = 3 then Some Add else if value = 4 then Some Subtract else if value = 5 then Some And
      else if value = 6 then Some Or else if value = 7 then Some Xor else if value = 8 then Some ShiftLeft
      else if value = 9 then Some ShiftRight else if value = 10 then Some SetLessOrEqual
      else if value = 11 then Some Jump else if value = 12 then Some JumpIfZero
      else if value = 13 then Some JumpIfNotZero else if value = 14 then Some CallHost
      else if value = 15 then Some Return else None)"

fun opcode_byte :: "policy_opcode \<Rightarrow> u8" where
  "opcode_byte Nop = 0"
| "opcode_byte MoveImmediate = 1"
| "opcode_byte Move = 2"
| "opcode_byte Add = 3"
| "opcode_byte Subtract = 4"
| "opcode_byte And = 5"
| "opcode_byte Or = 6"
| "opcode_byte Xor = 7"
| "opcode_byte ShiftLeft = 8"
| "opcode_byte ShiftRight = 9"
| "opcode_byte SetLessOrEqual = 10"
| "opcode_byte Jump = 11"
| "opcode_byte JumpIfZero = 12"
| "opcode_byte JumpIfNotZero = 13"
| "opcode_byte CallHost = 14"
| "opcode_byte Return = 15"

record instruction =
  in_opcode :: u8
  in_destination :: u8
  in_source :: u8
  in_second_source :: u8
  in_immediate :: i32

definition instruction_new :: "policy_opcode \<Rightarrow> u8 \<Rightarrow> u8 \<Rightarrow> u8 \<Rightarrow> i32 \<Rightarrow> instruction" where
  "instruction_new opcode destination source second_source immediate =
     \<lparr>in_opcode = opcode_byte opcode, in_destination = destination, in_source = source,
      in_second_source = second_source, in_immediate = immediate\<rparr>"

definition RETURN_ZERO :: instruction where
  "RETURN_ZERO = instruction_new Return 0 0 0 0"

datatype policy_error = InvalidProgram | EmptyProgram | InvalidEntry | InvalidInstruction nat | InvalidRegister nat
  | InvalidBranch nat | InvalidProgramCounter | InvalidHostFunction | ProgramUnavailable | OutOfFuel

text \<open>\<open>pc + i64::from(relative)\<close> is the sum of two 64-bit signed integers.\<close>

definition branch_target :: "nat \<Rightarrow> i32 \<Rightarrow> policy_error + nat" where
  "branch_target program_counter relative =
     (if program_counter \<ge> 2 ^ 63 then Err InvalidProgramCounter
      else
        (let target = sint (of_nat program_counter + scast relative :: u64) in
         if target < 0 then Err InvalidProgramCounter else Ok (nat target)))"

section \<open>Verification\<close>

definition instruction_registers :: "instruction \<Rightarrow> policy_opcode \<Rightarrow> u8 list" where
  "instruction_registers i opcode =
     (case opcode of
        Nop \<Rightarrow> [] | Jump \<Rightarrow> [] | CallHost \<Rightarrow> []
      | MoveImmediate \<Rightarrow> [in_destination i]
      | Move \<Rightarrow> [in_destination i, in_source i]
      | JumpIfZero \<Rightarrow> [in_source i] | JumpIfNotZero \<Rightarrow> [in_source i] | Return \<Rightarrow> [in_source i]
      | _ \<Rightarrow> [in_destination i, in_source i, in_second_source i])"

definition verify_registers :: "nat \<Rightarrow> instruction \<Rightarrow> policy_opcode \<Rightarrow> policy_error + unit" where
  "verify_registers index i opcode =
     (if list_all (\<lambda>r. unat r < REGISTER_COUNT) (instruction_registers i opcode) then Ok () else Err (InvalidRegister index))"

definition host_index :: "i32 \<Rightarrow> nat option" where
  "host_index immediate = (if sint immediate < 0 then None else Some (nat (sint immediate)))"

definition verify_instruction :: "nat \<Rightarrow> nat \<Rightarrow> instruction \<Rightarrow> policy_error + policy_opcode" where
  "verify_instruction len index i =
     (case policy_decode (in_opcode i) of
        None \<Rightarrow> Err (InvalidInstruction index)
      | Some opcode \<Rightarrow>
          (case verify_registers index i opcode of
             Err e \<Rightarrow> Err e
           | Ok _ \<Rightarrow>
               if opcode \<in> {Jump, JumpIfZero, JumpIfNotZero} \<and>
                  (case branch_target index (in_immediate i) of Err _ \<Rightarrow> True | Ok target \<Rightarrow> target \<ge> len)
               then Err (InvalidBranch index)
               else if opcode = CallHost \<and>
                  (case host_index (in_immediate i) of None \<Rightarrow> True | Some host \<Rightarrow> host \<ge> MAXIMUM_HOST_FUNCTIONS)
               then Err InvalidHostFunction
               else Ok opcode))"

fun verify_from :: "nat \<Rightarrow> nat \<Rightarrow> bool \<Rightarrow> instruction list \<Rightarrow> policy_error + unit" where
  "verify_from len index has_return [] = (if has_return then Ok () else Err InvalidProgram)"
| "verify_from len index has_return (i # is) =
     (case verify_instruction len index i of
        Err e \<Rightarrow> Err e
      | Ok opcode \<Rightarrow> verify_from len (Suc index) (has_return \<or> opcode = Return) is)"

definition policy_verify :: "instruction list \<Rightarrow> nat \<Rightarrow> policy_error + unit" where
  "policy_verify instructions entry =
     (if instructions = [] then Err EmptyProgram
      else if length instructions > MAXIMUM_INSTRUCTIONS then Err InvalidProgram
      else if entry \<ge> length instructions then Err InvalidEntry
      else verify_from (length instructions) 0 False instructions)"

section \<open>The machine\<close>

record policy_program =
  pp_code :: "instruction list"
  pp_length :: nat
  pp_entry :: nat
  pp_generation :: u32
  pp_live :: bool

definition program_empty :: policy_program where
  "program_empty = \<lparr>pp_code = replicate MAXIMUM_INSTRUCTIONS RETURN_ZERO, pp_length = 0, pp_entry = 0,
     pp_generation = 0, pp_live = False\<rparr>"

type_synonym host_function = "u64 \<Rightarrow> u64 \<Rightarrow> u64 \<Rightarrow> u64 \<Rightarrow> u64"

record policy_vm =
  pv_programs :: "policy_program list"
  pv_hosts :: "host_function option list"

definition policy_vm_new :: policy_vm where
  "policy_vm_new = \<lparr>pv_programs = replicate MAXIMUM_PROGRAMS program_empty, pv_hosts = replicate MAXIMUM_HOST_FUNCTIONS None\<rparr>"

definition register_host :: "policy_vm \<Rightarrow> nat \<Rightarrow> host_function \<Rightarrow> (policy_error + unit) \<times> policy_vm" where
  "register_host vm index function =
     (if index < length (pv_hosts vm) then (Ok (), vm\<lparr>pv_hosts := (pv_hosts vm)[index := Some function]\<rparr>)
      else (Err InvalidHostFunction, vm))"

definition policy_next_generation :: "u32 \<Rightarrow> u32" where
  "policy_next_generation generation = (let n = generation + 1 in if n = 0 then 1 else n)"

definition policy_load :: "policy_vm \<Rightarrow> nat \<Rightarrow> instruction list \<Rightarrow> nat \<Rightarrow> (policy_error + u32) \<times> policy_vm" where
  "policy_load vm slot instructions entry =
     (case policy_verify instructions entry of
        Err e \<Rightarrow> (Err e, vm)
      | Ok _ \<Rightarrow>
          if slot \<ge> length (pv_programs vm) then (Err InvalidProgram, vm)
          else
            (let p = pv_programs vm ! slot;
                 g = policy_next_generation (pp_generation p);
                 p' = p\<lparr>pp_code := instructions @ drop (length instructions) (pp_code p), pp_length := length instructions,
                        pp_entry := entry, pp_generation := g, pp_live := True\<rparr>
             in (Ok g, vm\<lparr>pv_programs := (pv_programs vm)[slot := p']\<rparr>)))"

section \<open>The interpreter\<close>

text \<open>A step goes on with new registers and a new program counter, or ends the run.\<close>

datatype 'a flow = Continue "u64 list" nat | Stop 'a

definition reg :: "u64 list \<Rightarrow> u8 \<Rightarrow> u64 option" where
  "reg registers r = (if unat r < length registers then Some (registers ! unat r) else None)"

definition set_reg :: "u64 list \<Rightarrow> u8 \<Rightarrow> u64 \<Rightarrow> u64 list option" where
  "set_reg registers r v = (if unat r < length registers then Some (registers[unat r := v]) else None)"

definition policy_compute :: "u64 list \<Rightarrow> instruction \<Rightarrow> (u64 \<Rightarrow> u64 \<Rightarrow> u64) \<Rightarrow> nat \<Rightarrow> (policy_error + u64) flow option" where
  "policy_compute registers i f pc =
     (case (reg registers (in_source i), reg registers (in_second_source i)) of
        (Some a, Some b) \<Rightarrow> map_option (\<lambda>rs. Continue rs (pc + 1)) (set_reg registers (in_destination i) (f a b))
      | _ \<Rightarrow> None)"

definition policy_branch :: "u64 list \<Rightarrow> instruction \<Rightarrow> nat \<Rightarrow> (policy_error + u64) flow" where
  "policy_branch registers i pc =
     (case branch_target pc (in_immediate i) of Err e \<Rightarrow> Stop (Err e) | Ok target \<Rightarrow> Continue registers target)"

definition policy_step :: "host_function option list \<Rightarrow> policy_program \<Rightarrow> u64 list \<Rightarrow> nat \<Rightarrow> (policy_error + u64) flow option" where
  "policy_step hosts program registers pc =
     (if \<not> (pc < length (pp_code program) \<and> pc < pp_length program) then Some (Stop (Err InvalidProgramCounter))
      else
        (let i = pp_code program ! pc in
         case policy_decode (in_opcode i) of
           None \<Rightarrow> Some (Stop (Err (InvalidInstruction pc)))
         | Some opcode \<Rightarrow>
             (case opcode of
                Nop \<Rightarrow> Some (Continue registers (pc + 1))
              | MoveImmediate \<Rightarrow>
                  map_option (\<lambda>rs. Continue rs (pc + 1)) (set_reg registers (in_destination i) (scast (in_immediate i)))
              | Move \<Rightarrow>
                  Option.bind (reg registers (in_source i))
                    (\<lambda>v. map_option (\<lambda>rs. Continue rs (pc + 1)) (set_reg registers (in_destination i) v))
              | Add \<Rightarrow> policy_compute registers i (+) pc
              | Subtract \<Rightarrow> policy_compute registers i (-) pc
              | And \<Rightarrow> policy_compute registers i (AND) pc
              | Or \<Rightarrow> policy_compute registers i (OR) pc
              | Xor \<Rightarrow> policy_compute registers i (XOR) pc
              | ShiftLeft \<Rightarrow> policy_compute registers i (\<lambda>a b. push_bit (unat (b AND 63)) a) pc
              | ShiftRight \<Rightarrow> policy_compute registers i (\<lambda>a b. drop_bit (unat (b AND 63)) a) pc
              | SetLessOrEqual \<Rightarrow> policy_compute registers i (\<lambda>a b. if a \<le> b then 1 else 0) pc
              | Jump \<Rightarrow> Some (policy_branch registers i pc)
              | JumpIfZero \<Rightarrow>
                  map_option (\<lambda>v. if v = 0 then policy_branch registers i pc else Continue registers (pc + 1))
                    (reg registers (in_source i))
              | JumpIfNotZero \<Rightarrow>
                  map_option (\<lambda>v. if v \<noteq> 0 then policy_branch registers i pc else Continue registers (pc + 1))
                    (reg registers (in_source i))
              | CallHost \<Rightarrow>
                  (case Option.bind (host_index (in_immediate i)) (\<lambda>h. if h < length hosts then hosts ! h else None) of
                     None \<Rightarrow> Some (Stop (Err InvalidHostFunction))
                   | Some function \<Rightarrow>
                       (case (reg registers 0, reg registers 1, reg registers 2, reg registers 3) of
                          (Some a, Some b, Some c, Some d) \<Rightarrow>
                            map_option (\<lambda>rs. Continue rs (pc + 1)) (set_reg registers 0 (function a b c d))
                        | _ \<Rightarrow> None))
              | Return \<Rightarrow> map_option (\<lambda>v. Stop (Ok v)) (reg registers (in_source i)))))"

fun policy_loop :: "host_function option list \<Rightarrow> policy_program \<Rightarrow> nat \<Rightarrow> u64 list \<Rightarrow> nat \<Rightarrow> (policy_error + u64) option" where
  "policy_loop hosts program 0 registers pc = Some (Err OutOfFuel)"
| "policy_loop hosts program (Suc fuel) registers pc =
     (case policy_step hosts program registers pc of
        None \<Rightarrow> None
      | Some (Stop r) \<Rightarrow> Some r
      | Some (Continue rs pc') \<Rightarrow> policy_loop hosts program fuel rs pc')"

definition start_registers :: "u64 list \<Rightarrow> u64 list" where
  "start_registers arguments = arguments @ replicate (REGISTER_COUNT - 4) 0"

definition run_with_fuel :: "policy_vm \<Rightarrow> nat \<Rightarrow> u64 list \<Rightarrow> u32 \<Rightarrow> (policy_error + u64) option" where
  "run_with_fuel vm slot arguments fuel =
     (if slot \<ge> length (pv_programs vm) then Some (Err InvalidProgram)
      else
        (let program = pv_programs vm ! slot in
         if \<not> pp_live program then Some (Err ProgramUnavailable)
         else policy_loop (pv_hosts vm) program (unat fuel) (start_registers arguments) (pp_entry program)))"

definition policy_run :: "policy_vm \<Rightarrow> nat \<Rightarrow> u64 list \<Rightarrow> (policy_error + u64) option" where
  "policy_run vm slot arguments = run_with_fuel vm slot arguments DEFAULT_FUEL"

section \<open>Decoded operations\<close>

lemma sint_scast_widen: "sint (scast (x :: i32) :: u64) = sint x"
  by (simp add: signed_scast_eq signed_take_bit_int_eq_self_iff)
    (use sint_greater_eq[of x] sint_less[of x] in simp)

lemma branch_target_eq:
  assumes "pc < 2 ^ 31"
  shows "branch_target pc r = (if int pc + sint r < 0 then Err InvalidProgramCounter else Ok (nat (int pc + sint r)))"
proof -
  have pc: "sint (of_nat pc :: u64) = int pc"
    using assms by (simp add: signed_of_nat signed_take_bit_int_eq_self_iff)
  have "sint (of_nat pc + scast r :: u64) = int pc + sint r"
    using assms sint_greater_eq[of r] sint_less[of r]
    by (simp add: sint_word_ariths pc sint_scast_widen signed_take_bit_int_eq_self_iff)
  then show ?thesis using assms by (simp add: branch_target_def)
qed

datatype operation = Skip | Set nat u64 | Copy nat nat | Compute "u64 \<Rightarrow> u64 \<Rightarrow> u64" nat nat nat
  | Goto nat | Branch "u64 \<Rightarrow> bool" nat nat | Host nat | Yield nat

definition operation_at :: "nat \<Rightarrow> instruction \<Rightarrow> operation" where
  "operation_at index i =
     (let d = unat (in_destination i); s = unat (in_source i); t = unat (in_second_source i);
          target = nat (int index + sint (in_immediate i))
      in case the (policy_decode (in_opcode i)) of
        Nop \<Rightarrow> Skip
      | MoveImmediate \<Rightarrow> Set d (of_int (sint (in_immediate i)))
      | Move \<Rightarrow> Copy d s
      | Add \<Rightarrow> Compute (+) d s t
      | Subtract \<Rightarrow> Compute (-) d s t
      | And \<Rightarrow> Compute (AND) d s t
      | Or \<Rightarrow> Compute (OR) d s t
      | Xor \<Rightarrow> Compute (XOR) d s t
      | ShiftLeft \<Rightarrow> Compute (\<lambda>a b. a * 2 ^ (unat b mod 64)) d s t
      | ShiftRight \<Rightarrow> Compute (\<lambda>a b. a div 2 ^ (unat b mod 64)) d s t
      | SetLessOrEqual \<Rightarrow> Compute (\<lambda>a b. of_bool (a \<le> b)) d s t
      | Jump \<Rightarrow> Goto target
      | JumpIfZero \<Rightarrow> Branch (\<lambda>v. v = 0) s target
      | JumpIfNotZero \<Rightarrow> Branch (\<lambda>v. v \<noteq> 0) s target
      | CallHost \<Rightarrow> Host (nat (sint (in_immediate i)))
      | Return \<Rightarrow> Yield s)"

definition operations :: "instruction list \<Rightarrow> operation list" where
  "operations is = map (\<lambda>k. operation_at k (is ! k)) [0 ..< length is]"

text \<open>The semantics of decoded operations, with the host table as it is during the run.\<close>

inductive op_step :: "host_function option list \<Rightarrow> operation list \<Rightarrow> u64 list \<times> nat \<Rightarrow> u64 list \<times> nat \<Rightarrow> bool"
  for hosts ops where
  skip: "pc < length ops \<Longrightarrow> ops ! pc = Skip \<Longrightarrow> op_step hosts ops (rs, pc) (rs, pc + 1)"
| assign: "pc < length ops \<Longrightarrow> ops ! pc = Set d v \<Longrightarrow> op_step hosts ops (rs, pc) (rs[d := v], pc + 1)"
| copy: "pc < length ops \<Longrightarrow> ops ! pc = Copy d s \<Longrightarrow> op_step hosts ops (rs, pc) (rs[d := rs ! s], pc + 1)"
| compute: "pc < length ops \<Longrightarrow> ops ! pc = Compute f d s t \<Longrightarrow> op_step hosts ops (rs, pc) (rs[d := f (rs ! s) (rs ! t)], pc + 1)"
| goto: "pc < length ops \<Longrightarrow> ops ! pc = Goto target \<Longrightarrow> op_step hosts ops (rs, pc) (rs, target)"
| taken: "pc < length ops \<Longrightarrow> ops ! pc = Branch P s target \<Longrightarrow> P (rs ! s) \<Longrightarrow> op_step hosts ops (rs, pc) (rs, target)"
| passed: "pc < length ops \<Longrightarrow> ops ! pc = Branch P s target \<Longrightarrow> \<not> P (rs ! s) \<Longrightarrow> op_step hosts ops (rs, pc) (rs, pc + 1)"
| host: "pc < length ops \<Longrightarrow> ops ! pc = Host h \<Longrightarrow> h < length hosts \<Longrightarrow> hosts ! h = Some f
    \<Longrightarrow> op_step hosts ops (rs, pc) (rs[0 := f (rs ! 0) (rs ! 1) (rs ! 2) (rs ! 3)], pc + 1)"

inductive_simps op_step_iff: "op_step hosts ops (rs, pc) c"

fun op_result :: "operation list \<Rightarrow> u64 list \<times> nat \<Rightarrow> u64 \<Rightarrow> bool" where
  "op_result ops (rs, pc) v \<longleftrightarrow> pc < length ops \<and> (case ops ! pc of Yield s \<Rightarrow> v = rs ! s | _ \<Rightarrow> False)"

lemma op_step_deterministic: "op_step hosts ops c d \<Longrightarrow> op_step hosts ops c e \<Longrightarrow> d = e"
  by (cases c) (auto simp: op_step_iff)

lemma op_result_stops: "op_result ops c v \<Longrightarrow> \<not> op_step hosts ops c d"
  by (cases c) (auto simp: op_step_iff split: operation.splits)

section \<open>Verified programs\<close>

lemma verify_from_Ok:
  "verify_from len index r is = Ok () \<Longrightarrow> k < length is \<Longrightarrow> \<exists>opcode. verify_instruction len (index + k) (is ! k) = Ok opcode"
proof (induction "is" arbitrary: index r k)
  case (Cons i "is")
  then show ?case by (cases k) (fastforce split: sum.splits)+
qed simp

lemma policy_verify_Ok:
  assumes "policy_verify is entry = Ok ()"
  shows "entry < length is" and "length is \<le> MAXIMUM_INSTRUCTIONS"
    and "k < length is \<Longrightarrow> \<exists>opcode. verify_instruction (length is) k (is ! k) = Ok opcode"
  using assms verify_from_Ok[of "length is" 0 False "is" k] by (auto simp: policy_verify_def split: if_splits)

text \<open>What the verifier establishes of a single instruction.\<close>

fun operation_ok :: "nat \<Rightarrow> operation \<Rightarrow> bool" where
  "operation_ok len Skip \<longleftrightarrow> True"
| "operation_ok len (Set d v) \<longleftrightarrow> d < REGISTER_COUNT"
| "operation_ok len (Copy d s) \<longleftrightarrow> d < REGISTER_COUNT \<and> s < REGISTER_COUNT"
| "operation_ok len (Compute f d s t) \<longleftrightarrow> d < REGISTER_COUNT \<and> s < REGISTER_COUNT \<and> t < REGISTER_COUNT"
| "operation_ok len (Goto target) \<longleftrightarrow> target < len"
| "operation_ok len (Branch P s target) \<longleftrightarrow> s < REGISTER_COUNT \<and> target < len"
| "operation_ok len (Host h) \<longleftrightarrow> h < MAXIMUM_HOST_FUNCTIONS"
| "operation_ok len (Yield s) \<longleftrightarrow> s < REGISTER_COUNT"

lemma verify_instruction_ok:
  assumes "verify_instruction len index i = Ok opcode" and "index < 2 ^ 31"
  shows "operation_ok len (operation_at index i)"
  using assms by (cases opcode)
    (auto simp: verify_instruction_def verify_registers_def instruction_registers_def operation_at_def Let_def
      branch_target_eq host_index_def split: option.splits if_splits)

definition program_of :: "instruction list \<Rightarrow> policy_program \<Rightarrow> bool" where
  "program_of is p \<longleftrightarrow> pp_length p = length is \<and> take (length is) (pp_code p) = is \<and> length is \<le> length (pp_code p)"

lemma reg_defined: "unat r < length rs \<Longrightarrow> reg rs r = Some (rs ! unat r)" "unat r < length rs \<Longrightarrow> set_reg rs r v = Some (rs[unat r := v])"
  by (simp_all add: reg_def set_reg_def)

lemma shift_ops:
  "push_bit (unat (b AND 63)) a = a * 2 ^ (unat b mod 64)" "drop_bit (unat (b AND 63)) a = a div 2 ^ (unat b mod 64)" for a b :: u64
proof -
  have "b AND 63 = take_bit 6 b" by (simp add: take_bit_eq_mask mask_eq_exp_minus_1)
  then have "unat (b AND 63) = unat b mod 64" by (simp add: take_bit_eq_mod unat_mod)
  then show "push_bit (unat (b AND 63)) a = a * 2 ^ (unat b mod 64)" "drop_bit (unat (b AND 63)) a = a div 2 ^ (unat b mod 64)"
    by (simp_all add: push_bit_eq_mult drop_bit_eq_div)
qed

lemma host_call_registers:
  assumes "length rs = REGISTER_COUNT"
  shows "reg rs 0 = Some (rs ! 0)" "reg rs 1 = Some (rs ! 1)" "reg rs 2 = Some (rs ! 2)" "reg rs 3 = Some (rs ! 3)"
    "set_reg rs 0 v = Some (rs[0 := v])"
  using assms by (simp_all add: reg_def set_reg_def)

lemma verified_step:
  assumes v: "policy_verify is entry = Ok ()" and p: "program_of is p" and rs: "length rs = REGISTER_COUNT" and pc: "pc < length is"
  obtains (continue) rs' pc' where "policy_step hosts p rs pc = Some (Continue rs' pc')"
      and "op_step hosts (operations is) (rs, pc) (rs', pc')" and "length rs' = REGISTER_COUNT"
  | (return) r where "policy_step hosts p rs pc = Some (Stop (Ok r))" and "op_result (operations is) (rs, pc) r"
  | (unregistered) "policy_step hosts p rs pc = Some (Stop (Err InvalidHostFunction))"
      and "\<And>r. \<not> op_result (operations is) (rs, pc) r" and "\<And>c. \<not> op_step hosts (operations is) (rs, pc) c"
proof -
  let ?i = "is ! pc"
  obtain opcode where o: "verify_instruction (length is) pc ?i = Ok opcode" using policy_verify_Ok(3)[OF v pc] by blast
  have small: "pc < 2 ^ 31" using pc policy_verify_Ok(2)[OF v] by simp
  have ok: "operation_ok (length is) (operation_at pc ?i)" by (rule verify_instruction_ok[OF o small])
  have op: "operations is ! pc = operation_at pc ?i" "pc < length (operations is)" using pc by (simp_all add: operations_def)
  have dec: "policy_decode (in_opcode ?i) = Some opcode" using o by (auto simp: verify_instruction_def split: option.splits sum.splits if_splits)
  have code: "pp_code p ! pc = ?i" "pc < length (pp_code p)" "pc < pp_length p"
    using p pc by (auto simp: program_of_def) (metis nth_take)
  have br: "opcode \<in> {Jump, JumpIfZero, JumpIfNotZero} \<Longrightarrow> branch_target pc (in_immediate ?i) = Ok (nat (int pc + sint (in_immediate ?i)))"
    and hx: "opcode = CallHost \<Longrightarrow> host_index (in_immediate ?i) = Some (nat (sint (in_immediate ?i)))"
    using o dec small by (auto simp: verify_instruction_def branch_target_eq host_index_def split: option.splits sum.splits if_splits)
  show thesis
  proof (cases opcode)
    case CallHost
    let ?h = "nat (sint (in_immediate ?i))"
    have h: "operations is ! pc = Host ?h" using op dec CallHost by (simp add: operation_at_def)
    show ?thesis
    proof (cases "?h < length hosts \<and> hosts ! ?h \<noteq> None")
      case True
      then obtain f where f: "hosts ! ?h = Some f" "?h < length hosts" by auto
      with that(1) CallHost code dec hx h op(2) host_call_registers[OF rs] rs show ?thesis
        by (simp add: policy_step_def op_step_iff)
    next
      case False
      with that(3) CallHost code dec hx h op(2) show ?thesis by (auto simp: policy_step_def op_step_iff Let_def)
    qed
  next
    case JumpIfZero
    with ok op dec code rs br that(1) show ?thesis
      by (cases "rs ! unat (in_source ?i) = 0") (auto simp: policy_step_def policy_branch_def operation_at_def reg_defined op_step_iff)
  next
    case JumpIfNotZero
    with ok op dec code rs br that(1) show ?thesis
      by (cases "rs ! unat (in_source ?i) = 0") (auto simp: policy_step_def policy_branch_def operation_at_def reg_defined op_step_iff)
  qed (use that ok op dec code rs br in \<open>auto simp: policy_step_def policy_compute_def policy_branch_def operation_at_def Let_def
     reg_defined op_step_iff shift_ops\<close>)
qed

lemma verified_end:
  "program_of is p \<Longrightarrow> \<not> pc < length is \<Longrightarrow> policy_step hosts p rs pc = Some (Stop (Err InvalidProgramCounter))"
  by (simp add: policy_step_def program_of_def)

lemma operations_length [simp]: "length (operations is) = length is"
  by (simp add: operations_def)

definition policy_outcome :: "policy_error + u64 \<Rightarrow> bool" where
  "policy_outcome r \<longleftrightarrow> (\<exists>v. r = Ok v) \<or> r = Err OutOfFuel \<or> r = Err InvalidHostFunction \<or> r = Err InvalidProgramCounter"

lemma policy_loop_safe:
  assumes "policy_verify is entry = Ok ()" and "program_of is p" and "length rs = REGISTER_COUNT"
  shows "\<exists>r. policy_loop hosts p fuel rs pc = Some r \<and> policy_outcome r"
  using assms(3)
proof (induction fuel arbitrary: rs pc)
  case (Suc fuel)
  show ?case
  proof (cases "pc < length is")
    case True
    from assms(1,2) Suc.prems True show ?thesis
    proof (cases rule: verified_step[where hosts = hosts])
      case (continue rs' pc')
      then show ?thesis using Suc.IH[of rs' pc'] by simp
    qed (simp_all add: policy_outcome_def)
  qed (use verified_end[OF assms(2)] in \<open>simp add: policy_outcome_def\<close>)
qed (simp add: policy_outcome_def)

lemma policy_loop_sound:
  assumes "policy_verify is entry = Ok ()" and "program_of is p" and "length rs = REGISTER_COUNT"
    and "policy_loop hosts p fuel rs pc = Some (Ok v)"
  shows "\<exists>n c. n < fuel \<and> (op_step hosts (operations is) ^^ n) (rs, pc) c \<and> op_result (operations is) c v"
  using assms(3,4)
proof (induction fuel arbitrary: rs pc)
  case (Suc fuel)
  then have "pc < length is" using verified_end[OF assms(2), of pc hosts rs] by (cases "pc < length is") auto
  from assms(1,2) Suc.prems(1) this show ?case
  proof (cases rule: verified_step[where hosts = hosts])
    case (continue rs' pc')
    with Suc.prems(2) have "policy_loop hosts p fuel rs' pc' = Some (Ok v)" by simp
    from Suc.IH[OF continue(3) this] obtain n c where "n < fuel" "(op_step hosts (operations is) ^^ n) (rs', pc') c"
      "op_result (operations is) c v" by blast
    with relpowp_Suc_I2[of "op_step hosts (operations is)", OF continue(2)] show ?thesis by (intro exI[of _ "Suc n"] exI[of _ c]) blast
  next
    case (return r)
    with Suc.prems(2) show ?thesis by (intro exI[of _ 0] exI[of _ "(rs, pc)"]) simp
  qed (use Suc.prems(2) in simp)
qed simp

lemma policy_loop_complete:
  assumes "policy_verify is entry = Ok ()" and "program_of is p" and "length rs = REGISTER_COUNT"
    and "n < fuel" and "(op_step hosts (operations is) ^^ n) (rs, pc) c" and "op_result (operations is) c v"
  shows "policy_loop hosts p fuel rs pc = Some (Ok v)"
  using assms(3-5)
proof (induction n arbitrary: fuel rs pc)
  case 0
  then have c: "c = (rs, pc)" by simp
  with assms(6) have "pc < length is" by simp
  from assms(1,2) 0(1) this show ?case
    by (cases rule: verified_step[where hosts = hosts])
      (use 0(2) c assms(6) op_result_stops[OF assms(6), of hosts] in \<open>cases fuel; auto split: operation.splits\<close>)+
next
  case (Suc n)
  obtain d where d: "op_step hosts (operations is) (rs, pc) d" "(op_step hosts (operations is) ^^ n) d c"
    using relpowp_Suc_D2[OF Suc.prems(3)] by blast
  then have "pc < length is" by (auto simp: op_step_iff)
  obtain f where f: "fuel = Suc f" "n < f" using Suc.prems(2) by (cases fuel) auto
  from assms(1,2) Suc.prems(1) \<open>pc < length is\<close> show ?case
  proof (cases rule: verified_step[where hosts = hosts])
    case (continue rs' pc')
    then have "d = (rs', pc')" using op_step_deterministic d(1) by blast
    with Suc.IH[of rs' f pc'] continue f d(2) show ?thesis by simp
  qed (use d(1) op_result_stops in blast)+
qed

section \<open>Reachable machines\<close>

definition vm_inv :: "policy_vm \<Rightarrow> bool" where
  "vm_inv vm \<longleftrightarrow> length (pv_programs vm) = MAXIMUM_PROGRAMS \<and> length (pv_hosts vm) = MAXIMUM_HOST_FUNCTIONS
     \<and> (\<forall>p \<in> set (pv_programs vm). length (pp_code p) = MAXIMUM_INSTRUCTIONS
         \<and> (pp_live p \<longrightarrow> (\<exists>is. program_of is p \<and> policy_verify is (pp_entry p) = Ok ())))"

inductive vm_step :: "policy_vm \<Rightarrow> policy_vm \<Rightarrow> bool" where
  register: "register_host vm index f = (r, vm') \<Longrightarrow> vm_step vm vm'"
| load: "policy_load vm slot instructions entry = (r, vm') \<Longrightarrow> vm_step vm vm'"

lemma policy_load_Ok:
  assumes "policy_load vm slot is entry = (Ok g, vm')" and "vm_inv vm"
  obtains p where "policy_verify is entry = Ok ()" and "slot < length (pv_programs vm)" and "program_of is p"
    and "pp_entry p = entry" and "pp_live p" and "length (pp_code p) = MAXIMUM_INSTRUCTIONS"
    and "vm' = vm\<lparr>pv_programs := (pv_programs vm)[slot := p]\<rparr>"
proof -
  let ?q = "pv_programs vm ! slot"
  let ?p = "?q\<lparr>pp_code := is @ drop (length is) (pp_code ?q), pp_length := length is, pp_entry := entry,
    pp_generation := policy_next_generation (pp_generation ?q), pp_live := True\<rparr>"
  have v: "policy_verify is entry = Ok ()" "slot < length (pv_programs vm)" "vm' = vm\<lparr>pv_programs := (pv_programs vm)[slot := ?p]\<rparr>"
    using assms(1) by (auto simp: policy_load_def Let_def split: sum.splits if_splits)
  have "length (pp_code ?q) = MAXIMUM_INSTRUCTIONS" using assms(2) v(2) by (simp add: vm_inv_def)
  then have "length (pp_code ?p) = MAXIMUM_INSTRUCTIONS" using policy_verify_Ok(2)[OF v(1)] by simp
  with v show thesis by (intro that[of ?p]) (simp_all add: program_of_def)
qed

lemma vm_inv_step:
  assumes "vm_inv vm" and "vm_step vm vm'"
  shows "vm_inv vm'"
  using assms(2)
proof cases
  case (register index f r)
  then show ?thesis using assms(1) by (auto simp: register_host_def vm_inv_def split: if_splits)
next
  case (load slot instructions entry r)
  show ?thesis
  proof (cases r)
    case (Inl e)
    with load assms(1) show ?thesis by (auto simp: policy_load_def Let_def split: sum.splits if_splits)
  next
    case (Inr g)
    obtain p where "policy_verify instructions entry = Ok ()" "program_of instructions p" "pp_entry p = entry"
      "length (pp_code p) = MAXIMUM_INSTRUCTIONS" "vm' = vm\<lparr>pv_programs := (pv_programs vm)[slot := p]\<rparr>"
      using policy_load_Ok[OF load[unfolded Inr] assms(1)] by metis
    with assms(1) show ?thesis by (auto simp: vm_inv_def dest!: set_update_subset_insert[THEN subsetD])
  qed
qed

interpretation policy: invariant_system "\<lambda>vm. vm = policy_vm_new" vm_step vm_inv
proof
  fix vm assume "vm = policy_vm_new"
  then show "vm_inv vm" by (auto simp: vm_inv_def policy_vm_new_def program_empty_def)
next
  fix s t assume "vm_inv s" "vm_step s t"
  then show "vm_inv t" by (rule vm_inv_step)
qed

section \<open>Properties\<close>

lemma start_registers_length: "length arguments = 4 \<Longrightarrow> length (start_registers arguments) = REGISTER_COUNT"
  by (simp add: start_registers_def)

text \<open>
  C14 (type). Verified bytecode is well typed: in every machine that registrations and
  loads can lead to, a run neither panics on a register index nor meets an instruction it
  cannot decode, for every slot, all arguments and every amount of fuel. The errors left are
  an empty or missing slot, exhausted fuel, a host function that is not registered, and
  falling off the end of the program.\<close>

theorem policy_runs_are_safe:
  assumes "vm_step\<^sup>*\<^sup>* policy_vm_new vm" and "length arguments = 4"
  shows "\<exists>r. run_with_fuel vm slot arguments fuel = Some r \<and>
    (case r of Ok v \<Rightarrow> True
     | Err e \<Rightarrow> e \<in> {InvalidProgram, ProgramUnavailable, OutOfFuel, InvalidHostFunction, InvalidProgramCounter})"
proof -
  have inv: "vm_inv vm" by (rule policy.inv_reachable[OF refl assms(1)])
  let ?p = "pv_programs vm ! slot"
  show ?thesis
  proof (cases "slot < length (pv_programs vm) \<and> pp_live ?p")
    case True
    then obtain "is" where i: "program_of is ?p" "policy_verify is (pp_entry ?p) = Ok ()" using inv by (auto simp: vm_inv_def)
    obtain r where r: "policy_loop (pv_hosts vm) ?p (unat fuel) (start_registers arguments) (pp_entry ?p) = Some r" "policy_outcome r"
      using policy_loop_safe[OF i(2,1) start_registers_length[OF assms(2)]] by blast
    then show ?thesis using True by (intro exI[of _ r]) (auto simp: run_with_fuel_def policy_outcome_def)
  qed (auto simp: run_with_fuel_def Let_def)
qed

definition LIMIT_POLICY :: "instruction list" where
  "LIMIT_POLICY = [instruction_new MoveImmediate 1 0 0 512, instruction_new SetLessOrEqual 0 0 1 0, instruction_new Return 0 0 0 0]"

definition limit_vm :: policy_vm where
  "limit_vm = snd (policy_load policy_vm_new 0 LIMIT_POLICY 0)"

lemma limit_verified: "policy_verify LIMIT_POLICY 0 = Ok ()"
  by (simp add: policy_verify_def LIMIT_POLICY_def instruction_new_def verify_instruction_def policy_decode_def
      verify_registers_def instruction_registers_def)

lemma limit_load: "policy_load policy_vm_new 0 LIMIT_POLICY 0 = (Ok 1, limit_vm)"
  unfolding limit_vm_def by (simp add: policy_load_def limit_verified policy_vm_new_def program_empty_def policy_next_generation_def Let_def)

theorem policy_runs_are_safe_witness: "run_with_fuel limit_vm 0 [1024, 0, 0, 0] 100000 \<noteq> None"
proof -
  have "vm_step\<^sup>*\<^sup>* policy_vm_new limit_vm" using vm_step.load[OF limit_load] by blast
  from policy_runs_are_safe[OF this, where arguments = "[1024, 0, 0, 0]" and slot = 0 and fuel = 100000] show ?thesis by auto
qed

text \<open>
  C30 (refinement). The interpreter implements the semantics of the decoded operations:
  once a program is loaded, a run of its slot returns a value exactly when the operations
  lead from the arguments to a return of that value in fewer steps than the fuel. In
  particular nothing that was loaded into the slot before can show through.\<close>

theorem policy_run_refines_operations:
  assumes "vm_step\<^sup>*\<^sup>* policy_vm_new vm" and "policy_load vm slot instructions entry = (Ok g, vm')" and "length arguments = 4"
  shows "run_with_fuel vm' slot arguments fuel = Some (Ok v) \<longleftrightarrow>
    (\<exists>n c. n < unat fuel \<and> (op_step (pv_hosts vm) (operations instructions) ^^ n) (start_registers arguments, entry) c
       \<and> op_result (operations instructions) c v)"
proof -
  have inv: "vm_inv vm" by (rule policy.inv_reachable[OF refl assms(1)])
  obtain p where p: "policy_verify instructions entry = Ok ()" "slot < length (pv_programs vm)" "program_of instructions p"
    "pp_entry p = entry" "pp_live p" "vm' = vm\<lparr>pv_programs := (pv_programs vm)[slot := p]\<rparr>"
    using policy_load_Ok[OF assms(2) inv] by metis
  have "run_with_fuel vm' slot arguments fuel = policy_loop (pv_hosts vm) p (unat fuel) (start_registers arguments) entry"
    using p by (simp add: run_with_fuel_def)
  with policy_loop_sound[OF p(1,3)] policy_loop_complete[OF p(1,3)] start_registers_length[OF assms(3)] show ?thesis by metis
qed

theorem policy_run_refines_operations_witness: "run_with_fuel limit_vm 0 [128, 0, 0, 0] 3 = Some (Ok 1)"
proof -
  let ?ops = "operations LIMIT_POLICY" and ?r = "start_registers [128, 0, 0, 0]"
  have ops: "?ops = [Set 1 512, Compute (\<lambda>a b. of_bool (a \<le> b)) 0 0 1, Yield 0]"
    by (simp add: operations_def LIMIT_POLICY_def operation_at_def policy_decode_def instruction_new_def upt_rec)
  let ?c = "(?r[1 := 512, 0 := 1], 2)"
  have "op_step (pv_hosts policy_vm_new) ?ops (?r, 0) (?r[1 := 512], 1)" "op_step (pv_hosts policy_vm_new) ?ops (?r[1 := 512], 1) ?c"
    by (simp_all add: op_step_iff ops start_registers_def)
  then have "(op_step (pv_hosts policy_vm_new) ?ops ^^ 2) (?r, 0) ?c" by (auto simp: numeral_2_eq_2)
  moreover have "op_result ?ops ?c 1" by (simp add: ops start_registers_def)
  moreover have "(2 :: nat) < unat (3 :: u32)" by simp
  ultimately have "\<exists>n c. n < unat (3 :: u32) \<and> (op_step (pv_hosts policy_vm_new) ?ops ^^ n) (?r, 0) c \<and> op_result ?ops c 1" by blast
  then show ?thesis
    by (rule policy_run_refines_operations[OF rtranclp.rtrancl_refl limit_load, where arguments = "[128, 0, 0, 0]", THEN iffD2, rotated]) simp
qed

end
