(* ===== verification/LabVm.thy ===== *)
theory LabVm
  imports Prelude
begin

text \<open>
  The control laboratory's virtual machine, \<^verbatim>\<open>src/core/aether/src/blacklab_vm.rs\<close>: packed
  instructions, the verifier, which admits forward branches only, and the interpreter with
  its fuel. An \<open>i64\<close> is an \<open>int\<close> and the saturation of every operation is written out. The
  lemmas show that fuel never runs out, that a verified program which ends in a halt returns
  a control vector, what that vector may contain, and that packing an instruction loses nothing.
\<close>

abbreviation LAB_REGISTER_COUNT :: nat where "LAB_REGISTER_COUNT \<equiv> 16"
abbreviation MAX_INSTRUCTIONS :: nat where "MAX_INSTRUCTIONS \<equiv> 64"
abbreviation MAXIMUM_FUEL :: nat where "MAXIMUM_FUEL \<equiv> 128"

section \<open>Instructions\<close>

datatype lab_opcode = Nop | LoadMetric | LoadImmediate | AddSaturating | SubtractSaturating | MultiplyQ16
  | CompareGreater | JumpIfZero | SetControl | Halt

definition lab_opcode_from_raw :: "u8 \<Rightarrow> lab_opcode option" where
  "lab_opcode_from_raw raw =
     (if raw = 0 then Some Nop else if raw = 1 then Some LoadMetric else if raw = 2 then Some LoadImmediate
      else if raw = 3 then Some AddSaturating else if raw = 4 then Some SubtractSaturating
      else if raw = 5 then Some MultiplyQ16 else if raw = 6 then Some CompareGreater
      else if raw = 7 then Some JumpIfZero else if raw = 8 then Some SetControl
      else if raw = 9 then Some Halt else None)"

fun lab_opcode_raw :: "lab_opcode \<Rightarrow> u64" where
  "lab_opcode_raw Nop = 0"
| "lab_opcode_raw LoadMetric = 1"
| "lab_opcode_raw LoadImmediate = 2"
| "lab_opcode_raw AddSaturating = 3"
| "lab_opcode_raw SubtractSaturating = 4"
| "lab_opcode_raw MultiplyQ16 = 5"
| "lab_opcode_raw CompareGreater = 6"
| "lab_opcode_raw JumpIfZero = 7"
| "lab_opcode_raw SetControl = 8"
| "lab_opcode_raw Halt = 9"

datatype metric_id = Heat | QueuePressure | CollapseRate | PhaseDrift | ReplayPressure | Coherence | KernelPhase

definition metric_from_raw :: "u8 \<Rightarrow> metric_id option" where
  "metric_from_raw raw =
     (if raw = 0 then Some Heat else if raw = 1 then Some QueuePressure else if raw = 2 then Some CollapseRate
      else if raw = 3 then Some PhaseDrift else if raw = 4 then Some ReplayPressure
      else if raw = 5 then Some Coherence else if raw = 6 then Some KernelPhase else None)"

datatype control_field = PriorityMass | CollapseThreshold | TargetPhase | QuarantineTicks | Flags | HeatCeiling

definition control_from_raw :: "u8 \<Rightarrow> control_field option" where
  "control_from_raw raw =
     (if raw = 0 then Some PriorityMass else if raw = 1 then Some CollapseThreshold else if raw = 2 then Some TargetPhase
      else if raw = 3 then Some QuarantineTicks else if raw = 4 then Some Flags
      else if raw = 5 then Some HeatCeiling else None)"

fun control_index :: "control_field \<Rightarrow> nat" where
  "control_index PriorityMass = 0"
| "control_index CollapseThreshold = 1"
| "control_index TargetPhase = 2"
| "control_index QuarantineTicks = 3"
| "control_index Flags = 4"
| "control_index HeatCeiling = 5"

definition control_mask :: "control_field \<Rightarrow> u32" where
  "control_mask field = push_bit (control_index field) 1"

type_synonym lab_instruction = u64

definition lab_instruction_new :: "lab_opcode \<Rightarrow> u8 \<Rightarrow> u8 \<Rightarrow> u32 \<Rightarrow> u8 \<Rightarrow> lab_instruction" where
  "lab_instruction_new opcode destination source immediate auxiliary =
     lab_opcode_raw opcode OR push_bit 8 (ucast (destination AND 0x0f)) OR push_bit 12 (ucast (source AND 0x0f))
       OR push_bit 16 (ucast immediate) OR push_bit 48 (ucast auxiliary)"

definition instruction_opcode :: "lab_instruction \<Rightarrow> lab_opcode option" where
  "instruction_opcode i = lab_opcode_from_raw (ucast i)"

definition instruction_destination :: "lab_instruction \<Rightarrow> nat" where
  "instruction_destination i = unat (drop_bit 8 i AND 0x0f)"

definition instruction_source :: "lab_instruction \<Rightarrow> nat" where
  "instruction_source i = unat (drop_bit 12 i AND 0x0f)"

definition instruction_immediate :: "lab_instruction \<Rightarrow> u32" where
  "instruction_immediate i = ucast (drop_bit 16 i)"

definition instruction_auxiliary :: "lab_instruction \<Rightarrow> u8" where
  "instruction_auxiliary i = ucast (drop_bit 48 i)"

record lab_program =
  lp_instructions :: "lab_instruction list"
  lp_length :: u8

record lab_metrics =
  lm_heat :: int
  lm_queue_pressure :: int
  lm_collapse_rate :: int
  lm_phase_drift :: int
  lm_replay_pressure :: int
  lm_coherence :: int
  lm_kernel_phase :: int

fun metrics_read :: "lab_metrics \<Rightarrow> metric_id \<Rightarrow> int" where
  "metrics_read m Heat = lm_heat m"
| "metrics_read m QueuePressure = lm_queue_pressure m"
| "metrics_read m CollapseRate = lm_collapse_rate m"
| "metrics_read m PhaseDrift = lm_phase_drift m"
| "metrics_read m ReplayPressure = lm_replay_pressure m"
| "metrics_read m Coherence = lm_coherence m"
| "metrics_read m KernelPhase = lm_kernel_phase m"

record control_vector =
  cv_mask :: u32
  cv_priority_mass :: int
  cv_collapse_threshold :: int
  cv_target_phase :: int
  cv_quarantine_ticks :: int
  cv_flags :: int
  cv_heat_ceiling :: int

definition control_ZERO :: control_vector where
  "control_ZERO = \<lparr>cv_mask = 0, cv_priority_mass = 0, cv_collapse_threshold = 0, cv_target_phase = 0,
     cv_quarantine_ticks = 0, cv_flags = 0, cv_heat_ceiling = 0\<rparr>"

definition control_set :: "control_vector \<Rightarrow> control_field \<Rightarrow> int \<Rightarrow> control_vector" where
  "control_set c field value =
     (let c = c\<lparr>cv_mask := cv_mask c OR control_mask field\<rparr> in
      case field of
        PriorityMass \<Rightarrow> c\<lparr>cv_priority_mass := value\<rparr>
      | CollapseThreshold \<Rightarrow> c\<lparr>cv_collapse_threshold := value\<rparr>
      | TargetPhase \<Rightarrow> c\<lparr>cv_target_phase := value\<rparr>
      | QuarantineTicks \<Rightarrow> c\<lparr>cv_quarantine_ticks := value\<rparr>
      | Flags \<Rightarrow> c\<lparr>cv_flags := value\<rparr>
      | HeatCeiling \<Rightarrow> c\<lparr>cv_heat_ceiling := value\<rparr>)"

definition control_contains :: "control_vector \<Rightarrow> control_field \<Rightarrow> bool" where
  "control_contains c field \<longleftrightarrow> cv_mask c AND control_mask field \<noteq> 0"

section \<open>Verification\<close>

datatype verify_error = Empty | TooLong | BadOpcode nat | BadMetric nat | BadControl nat | InvalidBranch nat | MissingHalt

datatype execution_error = Verification verify_error | FuelExhausted | FellOffProgram

definition lab_verify_at :: "lab_instruction list \<Rightarrow> nat \<Rightarrow> nat \<Rightarrow> verify_error + lab_opcode" where
  "lab_verify_at instructions len pc =
     (let i = instructions ! pc in
      case instruction_opcode i of
        None \<Rightarrow> Err (BadOpcode pc)
      | Some opcode \<Rightarrow>
          if opcode = LoadMetric \<and> metric_from_raw (ucast (instruction_immediate i)) = None then Err (BadMetric pc)
          else if opcode = SetControl \<and> control_from_raw (instruction_auxiliary i) = None then Err (BadControl pc)
          else if opcode = JumpIfZero \<and> (unat (instruction_auxiliary i) \<le> pc \<or> unat (instruction_auxiliary i) \<ge> len)
          then Err (InvalidBranch pc)
          else Ok opcode)"

fun lab_verify_loop :: "lab_instruction list \<Rightarrow> nat \<Rightarrow> bool \<Rightarrow> nat list \<Rightarrow> verify_error + unit" where
  "lab_verify_loop instructions len has_halt [] = (if has_halt then Ok () else Err MissingHalt)"
| "lab_verify_loop instructions len has_halt (pc # pcs) =
     (case lab_verify_at instructions len pc of
        Err e \<Rightarrow> Err e
      | Ok opcode \<Rightarrow> lab_verify_loop instructions len (has_halt \<or> opcode = Halt) pcs)"

definition lab_verify :: "lab_program \<Rightarrow> verify_error + unit" where
  "lab_verify program =
     (let len = unat (lp_length program) in
      if len = 0 then Err Empty
      else if len > MAX_INSTRUCTIONS then Err TooLong
      else lab_verify_loop (lp_instructions program) len False [0 ..< len])"

section \<open>Execution\<close>

abbreviation I64_MIN :: int where "I64_MIN \<equiv> - (2 ^ 63)"
abbreviation I64_MAX :: int where "I64_MAX \<equiv> 2 ^ 63 - 1"

definition clamp_i64 :: "int \<Rightarrow> int" where
  "clamp_i64 v = max I64_MIN (min I64_MAX v)"

text \<open>One instruction: the new registers and control vector and the new program counter, or
  the end of the program. The register numbers are four bits wide, so every access is in range.\<close>

datatype lab_flow = LabContinue "int list" control_vector nat | LabStop "execution_error + control_vector"

definition lab_step :: "lab_metrics \<Rightarrow> lab_instruction \<Rightarrow> int list \<Rightarrow> control_vector \<Rightarrow> nat \<Rightarrow> lab_flow" where
  "lab_step metrics i registers control pc =
     (case instruction_opcode i of
        None \<Rightarrow> LabStop (Err FellOffProgram)
      | Some opcode \<Rightarrow>
          (let d = instruction_destination i; s = instruction_source i;
               rd = registers ! d; rs = registers ! s;
               assign = (\<lambda>v. LabContinue (registers[d := v]) control (pc + 1))
           in case opcode of
                Nop \<Rightarrow> LabContinue registers control (pc + 1)
              | LoadMetric \<Rightarrow>
                  (case metric_from_raw (ucast (instruction_immediate i)) of
                     None \<Rightarrow> LabStop (Err FellOffProgram)
                   | Some metric \<Rightarrow> assign (metrics_read metrics metric))
              | LoadImmediate \<Rightarrow> assign (sint (instruction_immediate i))
              | AddSaturating \<Rightarrow> assign (clamp_i64 (rd + rs))
              | SubtractSaturating \<Rightarrow> assign (clamp_i64 (rd - rs))
              | MultiplyQ16 \<Rightarrow> assign (clamp_i64 (drop_bit 16 (rd * rs)))
              | CompareGreater \<Rightarrow> assign (if rd > rs then 1 else 0)
              | JumpIfZero \<Rightarrow>
                  if rd = 0 then LabContinue registers control (unat (instruction_auxiliary i))
                  else LabContinue registers control (pc + 1)
              | SetControl \<Rightarrow>
                  (case control_from_raw (instruction_auxiliary i) of
                     None \<Rightarrow> LabStop (Err FellOffProgram)
                   | Some field \<Rightarrow> LabContinue registers (control_set control field rd) (pc + 1))
              | Halt \<Rightarrow> LabStop (Ok control)))"

fun lab_loop :: "lab_program \<Rightarrow> lab_metrics \<Rightarrow> nat \<Rightarrow> int list \<Rightarrow> control_vector \<Rightarrow> nat \<Rightarrow> execution_error + control_vector" where
  "lab_loop program metrics 0 registers control pc =
     (if pc < unat (lp_length program) then Err FuelExhausted else Err FellOffProgram)"
| "lab_loop program metrics (Suc fuel) registers control pc =
     (if pc < unat (lp_length program) then
        (case lab_step metrics (lp_instructions program ! pc) registers control pc of
           LabStop r \<Rightarrow> r
         | LabContinue registers control pc \<Rightarrow> lab_loop program metrics fuel registers control pc)
      else Err FellOffProgram)"

definition lab_execute :: "lab_program \<Rightarrow> lab_metrics \<Rightarrow> execution_error + control_vector" where
  "lab_execute program metrics =
     (case lab_verify program of
        Err e \<Rightarrow> Err (Verification e)
      | Ok _ \<Rightarrow> lab_loop program metrics MAXIMUM_FUEL (replicate LAB_REGISTER_COUNT 0) control_ZERO 0)"

section \<open>Packing\<close>

lemma nibble: "x AND 0x0f = take_bit 4 x" for x :: "'a::len word"
  by (simp add: take_bit_eq_mask mask_eq_exp_minus_1)

lemma opcode_raw_narrow: "bit (lab_opcode_raw opcode) n \<Longrightarrow> n < 4"
proof -
  have "take_bit 4 (lab_opcode_raw opcode) = lab_opcode_raw opcode" by (cases opcode) simp_all
  then show "bit (lab_opcode_raw opcode) n \<Longrightarrow> n < 4" by (metis bit_take_bit_iff)
qed

lemma opcode_raw_inverse: "lab_opcode_from_raw (ucast (lab_opcode_raw opcode)) = Some opcode"
  by (cases opcode) (simp_all add: lab_opcode_from_raw_def)

lemma lab_instruction_fields:
  "instruction_opcode (lab_instruction_new opcode destination source immediate auxiliary) = Some opcode" (is "instruction_opcode ?i = _")
  "instruction_destination (lab_instruction_new opcode destination source immediate auxiliary) = unat destination mod 16"
  "instruction_source (lab_instruction_new opcode destination source immediate auxiliary) = unat source mod 16"
  "instruction_immediate (lab_instruction_new opcode destination source immediate auxiliary) = immediate"
  "instruction_auxiliary (lab_instruction_new opcode destination source immediate auxiliary) = auxiliary"
proof -
  have "(ucast ?i :: u8) = ucast (lab_opcode_raw opcode)"
    by (rule bit_word_eqI) (auto simp: lab_instruction_new_def nibble bit_simps)
  then show "instruction_opcode ?i = Some opcode" by (simp add: instruction_opcode_def opcode_raw_inverse)
  have "drop_bit 8 ?i AND 0x0f = ucast (take_bit 4 destination)"
    unfolding nibble by (rule bit_word_eqI) (auto simp: lab_instruction_new_def nibble bit_simps dest: opcode_raw_narrow)
  then show "instruction_destination ?i = unat destination mod 16"
    by (simp add: instruction_destination_def unsigned_ucast_eq take_bit_eq_mod unat_mod)
  have "drop_bit 12 ?i AND 0x0f = ucast (take_bit 4 source)"
    unfolding nibble by (rule bit_word_eqI) (auto simp: lab_instruction_new_def nibble bit_simps dest: opcode_raw_narrow)
  then show "instruction_source ?i = unat source mod 16"
    by (simp add: instruction_source_def unsigned_ucast_eq take_bit_eq_mod unat_mod)
  show "instruction_immediate ?i = immediate" unfolding instruction_immediate_def
    by (rule bit_word_eqI) (auto simp: lab_instruction_new_def nibble bit_simps dest: opcode_raw_narrow)
  show "instruction_auxiliary ?i = auxiliary" unfolding instruction_auxiliary_def
    by (rule bit_word_eqI) (auto simp: lab_instruction_new_def nibble bit_simps dest: opcode_raw_narrow bit_imp_le_length)
qed

section \<open>Termination\<close>

lemma lab_verify_loop_Ok:
  "lab_verify_loop instructions len h pcs = Ok () \<Longrightarrow> pc \<in> set pcs \<Longrightarrow> \<exists>opcode. lab_verify_at instructions len pc = Ok opcode"
  by (induction pcs arbitrary: h) (auto split: sum.splits)

lemma lab_verify_Ok:
  assumes "lab_verify p = Ok ()"
  shows "0 < unat (lp_length p)" and "unat (lp_length p) \<le> MAX_INSTRUCTIONS"
    and "pc < unat (lp_length p) \<Longrightarrow> \<exists>opcode. lab_verify_at (lp_instructions p) (unat (lp_length p)) pc = Ok opcode"
  using assms lab_verify_loop_Ok[of "lp_instructions p" "unat (lp_length p)" False "[0 ..< unat (lp_length p)]" pc]
  by (auto simp: lab_verify_def Let_def split: if_splits)

text \<open>A verified instruction halts or moves the program counter forward, to the next
  instruction or to a target within the program.\<close>

lemma lab_step_forward:
  assumes "lab_verify_at instructions len pc = Ok opcode" and "pc < len"
  obtains (halt) "opcode = Halt" and "lab_step metrics (instructions ! pc) registers control pc = LabStop (Ok control)"
  | (forward) registers' control' pc' where "opcode \<noteq> Halt"
      and "lab_step metrics (instructions ! pc) registers control pc = LabContinue registers' control' pc'"
      and "pc < pc'" and "pc' = pc + 1 \<or> pc' < len"
proof -
  have "opcode = Halt \<and> lab_step metrics (instructions ! pc) registers control pc = LabStop (Ok control) \<or>
    (\<exists>registers' control' pc'. opcode \<noteq> Halt \<and> lab_step metrics (instructions ! pc) registers control pc = LabContinue registers' control' pc'
      \<and> pc < pc' \<and> (pc' = pc + 1 \<or> pc' < len))"
    using assms by (cases opcode) (auto simp: lab_verify_at_def lab_step_def Let_def split: option.splits if_splits)
  with halt forward show thesis by blast
qed

lemma lab_loop_ends:
  assumes v: "lab_verify p = Ok ()" and "unat (lp_length p) \<le> pc + fuel"
  shows "lab_loop p metrics fuel registers control pc \<noteq> Err FuelExhausted"
  using assms(2)
proof (induction fuel arbitrary: registers control pc)
  case (Suc fuel)
  show ?case
  proof (cases "pc < unat (lp_length p)")
    case True
    then obtain opcode where o: "lab_verify_at (lp_instructions p) (unat (lp_length p)) pc = Ok opcode"
      using lab_verify_Ok(3)[OF v] by blast
    from o True show ?thesis
    proof (cases rule: lab_step_forward[where metrics = metrics and registers = registers and control = control])
      case (forward registers' control' pc')
      with True Suc.IH[of pc'] Suc.prems show ?thesis by simp
    qed (use True in simp)
  qed simp
qed simp

definition ends_in_halt :: "lab_program \<Rightarrow> bool" where
  "ends_in_halt p \<longleftrightarrow> instruction_opcode (lp_instructions p ! (unat (lp_length p) - 1)) = Some Halt"

lemma lab_loop_returns:
  assumes v: "lab_verify p = Ok ()" and h: "ends_in_halt p" and "unat (lp_length p) \<le> pc + fuel" and "pc < unat (lp_length p)"
  shows "\<exists>c. lab_loop p metrics fuel registers control pc = Ok c"
  using assms(3,4)
proof (induction fuel arbitrary: registers control pc)
  case (Suc fuel)
  obtain opcode where o: "lab_verify_at (lp_instructions p) (unat (lp_length p)) pc = Ok opcode"
    using lab_verify_Ok(3)[OF v Suc.prems(2)] by blast
  from o Suc.prems(2) show ?case
  proof (cases rule: lab_step_forward[where metrics = metrics and registers = registers and control = control])
    case (forward registers' control' pc')
    have "pc \<noteq> unat (lp_length p) - 1"
      using o h forward(1) by (auto simp: ends_in_halt_def lab_verify_at_def Let_def split: if_splits)
    with forward Suc.prems Suc.IH[of pc'] show ?thesis by auto
  qed (use Suc.prems in simp)
qed simp

text \<open>
  C35 (termination). The fuel of the interpreter is never what stops a program: branches
  of a verified program go forward, so at most one step is spent on each instruction.
  A verified program that ends in a halt returns a control vector on all metrics.\<close>

theorem lab_execute_terminates:
  "lab_execute p metrics \<noteq> Err FuelExhausted \<and> (lab_verify p = Ok () \<longrightarrow> ends_in_halt p \<longrightarrow> (\<exists>c. lab_execute p metrics = Ok c))"
  using lab_loop_ends[of p 0 MAXIMUM_FUEL] lab_loop_returns[of p 0 MAXIMUM_FUEL] lab_verify_Ok(1,2)[of p]
  by (auto simp: lab_execute_def split: sum.splits)

definition sample_program :: lab_program where
  "sample_program = \<lparr>lp_instructions = [lab_instruction_new LoadMetric 1 0 0 0, lab_instruction_new JumpIfZero 1 0 0 3,
      lab_instruction_new SetControl 1 0 0 5, lab_instruction_new Halt 0 0 0 0] @ replicate 60 0, lp_length = 4\<rparr>"

lemma sample_program_verified: "lab_verify sample_program = Ok ()" "ends_in_halt sample_program"
  by (simp_all add: lab_verify_def sample_program_def lab_verify_at_def ends_in_halt_def lab_instruction_fields
      metric_from_raw_def control_from_raw_def upt_rec)

theorem lab_execute_terminates_witness: "\<not> isl (lab_execute sample_program \<lparr>lm_heat = 7, lm_queue_pressure = 0, lm_collapse_rate = 0,
    lm_phase_drift = 0, lm_replay_pressure = 0, lm_coherence = 0, lm_kernel_phase = 0\<rparr>)"
  using lab_execute_terminates[of sample_program "\<lparr>lm_heat = 7, lm_queue_pressure = 0, lm_collapse_rate = 0,
    lm_phase_drift = 0, lm_replay_pressure = 0, lm_coherence = 0, lm_kernel_phase = 0\<rparr>"] sample_program_verified by auto

text \<open>
  Packing an instruction and reading it back gives the fields it was
  packed from; the register numbers keep their low four bits.\<close>

theorem lab_instruction_roundtrip:
  "instruction_opcode (lab_instruction_new opcode destination source immediate auxiliary) = Some opcode
    \<and> instruction_destination (lab_instruction_new opcode destination source immediate auxiliary) = unat destination mod 16
    \<and> instruction_source (lab_instruction_new opcode destination source immediate auxiliary) = unat source mod 16
    \<and> instruction_immediate (lab_instruction_new opcode destination source immediate auxiliary) = immediate
    \<and> instruction_auxiliary (lab_instruction_new opcode destination source immediate auxiliary) = auxiliary"
  by (simp add: lab_instruction_fields)

end
