(* ===== verification/Paging.thy ===== *)
theory Paging
  imports Prelude
begin

text \<open>
  Physical memory description, from \<^verbatim>\<open>src/core/abyss/src\<close>: addresses and the
  \<open>FrameAllocator\<close> trait with its bootstrap implementation (\<^verbatim>\<open>paging.rs\<close>), the
  firmware memory map (\<^verbatim>\<open>memory.rs\<close>) and the typed reservation table
  (\<^verbatim>\<open>reservation.rs\<close>). The trait is the locale \<open>frame_allocator\<close>; its laws are
  discharged here for the linear allocator and in theory \<open>Frames\<close> for the bitmap
  allocator.
\<close>

type_synonym physical_address = u64

abbreviation PAGE_SIZE :: u64 where "PAGE_SIZE \<equiv> 4096"

definition is_page_aligned :: "physical_address \<Rightarrow> bool" where
  "is_page_aligned address \<longleftrightarrow> address AND (PAGE_SIZE - 1) = 0"

lemma is_power_of_two_PAGE_SIZE [simp]: "is_power_of_two PAGE_SIZE"
  unfolding is_power_of_two_def by (rule bexI[of _ 12]) simp_all

lemma is_page_aligned_iff: "is_page_aligned a \<longleftrightarrow> 4096 dvd unat a"
proof -
  have "a AND (PAGE_SIZE - 1) = take_bit 12 a"
    by (simp add: take_bit_eq_mask mask_eq_exp_minus_1)
  moreover have "take_bit 12 a = 0 \<longleftrightarrow> unat (take_bit 12 a) = 0"
    by (simp add: unat_eq_0)
  moreover have "unat (take_bit 12 a) = unat a mod 4096"
    by (simp only: unsigned_take_bit_eq) (simp add: take_bit_eq_mod)
  ultimately show ?thesis
    by (simp add: is_page_aligned_def dvd_eq_mod_eq_0)
qed

section \<open>The frame allocator interface\<close>

text \<open>A client that takes \<open>n\<close> frames in a row, stopping at the first refusal.\<close>

fun take_frames :: "('s \<Rightarrow> physical_address option \<times> 's) \<Rightarrow> nat \<Rightarrow> 's \<Rightarrow> physical_address list \<times> 's" where
  "take_frames alloc 0 s = ([], s)"
| "take_frames alloc (Suc n) s =
     (case alloc s of
        (None, t) \<Rightarrow> ([], t)
      | (Some f, t) \<Rightarrow> (let (fs, u) = take_frames alloc n t in (f # fs, u)))"

locale frame_allocator =
  fixes allocate_frame :: "'s \<Rightarrow> physical_address option \<times> 's"
    and deallocate_frame :: "'s \<Rightarrow> physical_address \<Rightarrow> 's"
    and wf :: "'s \<Rightarrow> bool"
    and free :: "'s \<Rightarrow> physical_address set"
  assumes finite_free: "wf s \<Longrightarrow> finite (free s)"
    and free_aligned: "wf s \<Longrightarrow> f \<in> free s \<Longrightarrow> is_page_aligned f"
    and allocate_Some: "wf s \<Longrightarrow> allocate_frame s = (Some f, t) \<Longrightarrow>
          wf t \<and> f \<in> free s \<and> free t = free s - {f}"
    and allocate_None: "wf s \<Longrightarrow> allocate_frame s = (None, t) \<Longrightarrow> t = s \<and> free s = {}"
    and deallocate_wf: "wf s \<Longrightarrow> wf (deallocate_frame s f)"
    and deallocate_free: "wf s \<Longrightarrow>
          free s \<subseteq> free (deallocate_frame s f) \<and> free (deallocate_frame s f) \<subseteq> insert f (free s)"
begin

lemma take_frames_sound:
  assumes "wf s" and "take_frames allocate_frame n s = (fs, t)"
  shows "wf t \<and> distinct fs \<and> set fs \<subseteq> free s \<and> free t = free s - set fs
    \<and> (\<forall>f \<in> set fs. is_page_aligned f) \<and> length fs = min n (card (free s))"
  using assms
proof (induction n arbitrary: s fs t)
  case 0
  then show ?case by simp
next
  case (Suc n)
  show ?case
  proof (cases "allocate_frame s")
    case (Pair r u)
    show ?thesis
    proof (cases r)
      case None
      with Pair Suc.prems allocate_None[of s u] show ?thesis by auto
    next
      case (Some f)
      with Pair Suc.prems obtain gs where gs: "take_frames allocate_frame n u = (gs, t)" "fs = f # gs"
        by (auto split: prod.splits)
      from Pair Some Suc.prems(1) have u: "wf u" "f \<in> free s" "free u = free s - {f}"
        using allocate_Some[of s f u] by auto
      have "Suc (card (free u)) = card (free s)"
        unfolding u(3) by (rule card_Suc_Diff1[OF finite_free[OF Suc.prems(1)] u(2)])
      with Suc.IH[OF u(1) gs(1)] u gs(2) Suc.prems(1) show ?thesis
        by (auto simp: free_aligned)
    qed
  qed
qed

end

section \<open>Linear bootstrap allocator\<close>

record linear_frame_allocator =
  lfa_next :: u64
  lfa_end :: u64

definition linear_new :: "physical_address \<Rightarrow> physical_address \<Rightarrow> linear_frame_allocator" where
  "linear_new start limit = \<lparr>lfa_next = start, lfa_end = limit\<rparr>"

definition linear_allocate_frame ::
    "linear_frame_allocator \<Rightarrow> physical_address option \<times> linear_frame_allocator" where
  "linear_allocate_frame s =
     (case checked_add (lfa_next s) PAGE_SIZE of
        None \<Rightarrow> (None, s)
      | Some next_end \<Rightarrow>
          if next_end > lfa_end s then (None, s)
          else (Some (lfa_next s), s\<lparr>lfa_next := next_end\<rparr>))"

definition linear_deallocate_frame ::
    "linear_frame_allocator \<Rightarrow> physical_address \<Rightarrow> linear_frame_allocator" where
  "linear_deallocate_frame s frame = s"

text \<open>The frames still ahead of the cursor.\<close>

definition linear_free :: "linear_frame_allocator \<Rightarrow> physical_address set" where
  "linear_free s = {f. unat (lfa_next s) \<le> unat f \<and> unat f + 4096 \<le> unat (lfa_end s)
                       \<and> is_page_aligned f}"

lemma linear_allocate_Some:
  assumes "is_page_aligned (lfa_next s)" and "linear_allocate_frame s = (Some f, t)"
  shows "is_page_aligned (lfa_next t)" and "f \<in> linear_free s" and "linear_free t = linear_free s - {f}"
proof -
  from assms(2) obtain e where e: "checked_add (lfa_next s) PAGE_SIZE = Some e"
      "\<not> e > lfa_end s" "f = lfa_next s" "t = s\<lparr>lfa_next := e\<rparr>"
    by (auto simp: linear_allocate_frame_def split: option.splits if_splits)
  have ue: "unat e = unat (lfa_next s) + 4096" using checked_add_SomeD(1)[OF e(1)] by simp
  show "is_page_aligned (lfa_next t)" using assms(1) e(4) ue by (simp add: is_page_aligned_iff)
  show "f \<in> linear_free s" using assms(1) e(2,3) ue by (auto simp: linear_free_def word_le_nat_alt not_less)
  show "linear_free t = linear_free s - {f}"
  proof (rule set_eqI)
    fix g
    have "g = f \<longleftrightarrow> unat g = unat f" by (simp add: word_unat_eq_iff)
    moreover have "is_page_aligned g \<Longrightarrow> unat (lfa_next s) < unat g \<Longrightarrow> unat (lfa_next s) + 4096 \<le> unat g"
      using assms(1) by (auto simp: is_page_aligned_iff dvd_def)
    ultimately show "g \<in> linear_free t \<longleftrightarrow> g \<in> linear_free s - {f}"
      using e(3,4) ue by (auto simp: linear_free_def)
  qed
qed

lemma linear_allocate_None:
  assumes "linear_allocate_frame s = (None, t)"
  shows "t = s" and "linear_free s = {}"
proof -
  show "t = s" using assms by (auto simp: linear_allocate_frame_def split: option.splits if_splits)
  have "unat (lfa_end s) < unat (lfa_next s) + 4096"
  proof (cases "checked_add (lfa_next s) PAGE_SIZE")
    case None
    then show ?thesis using checked_add_NoneD[OF None] unat_lt2p[of "lfa_end s"] by simp
  next
    case (Some e)
    then show ?thesis using assms checked_add_SomeD(1)[OF Some]
      by (auto simp: linear_allocate_frame_def word_less_nat_alt split: if_splits)
  qed
  then show "linear_free s = {}" by (auto simp: linear_free_def)
qed

interpretation linear: frame_allocator linear_allocate_frame linear_deallocate_frame
  "\<lambda>s. is_page_aligned (lfa_next s)" linear_free
proof unfold_locales
  fix s :: linear_frame_allocator and f t
  assume wf: "is_page_aligned (lfa_next s)"
  show "finite (linear_free s)" by simp
  show "is_page_aligned f" if "f \<in> linear_free s" using that by (simp add: linear_free_def)
  show "is_page_aligned (lfa_next t) \<and> f \<in> linear_free s \<and> linear_free t = linear_free s - {f}"
    if "linear_allocate_frame s = (Some f, t)" using linear_allocate_Some[OF wf that] by blast
  show "t = s \<and> linear_free s = {}" if "linear_allocate_frame s = (None, t)"
    using linear_allocate_None[OF that] by blast
qed (simp_all add: linear_deallocate_frame_def subset_insertI)

section \<open>Firmware memory map\<close>

datatype memory_region_kind = Usable | Reserved | AcpiReclaimable | AcpiNonVolatile | Defective

record memory_region =
  mr_start :: physical_address
  mr_end :: physical_address
  mr_kind :: memory_region_kind

definition region_length :: "memory_region \<Rightarrow> u64" where
  "region_length r = saturating_sub (mr_end r) (mr_start r)"

definition MAX_MEMORY_REGIONS :: nat where "MAX_MEMORY_REGIONS = 128"

definition region_EMPTY :: memory_region where
  "region_EMPTY = \<lparr>mr_start = 0, mr_end = 0, mr_kind = Reserved\<rparr>"

record memory_map =
  mm_regions :: "memory_region list"
  mm_length :: nat

datatype memory_map_error = InvalidRegion | CapacityExceeded

definition memory_map_new :: memory_map where
  "memory_map_new = \<lparr>mm_regions = replicate MAX_MEMORY_REGIONS region_EMPTY, mm_length = 0\<rparr>"

definition memory_map_push :: "memory_map \<Rightarrow> memory_region \<Rightarrow> (memory_map_error + unit) \<times> memory_map" where
  "memory_map_push m region =
     (if mr_start region \<ge> mr_end region then (Err InvalidRegion, m)
      else if mm_length m < length (mm_regions m) then
        (Ok (), m\<lparr>mm_regions := (mm_regions m)[mm_length m := region], mm_length := mm_length m + 1\<rparr>)
      else (Err CapacityExceeded, m))"

definition regions :: "memory_map \<Rightarrow> memory_region list" where
  "regions m = take (mm_length m) (mm_regions m)"

text \<open>\<open>Iterator::max_by_key\<close>: of several maximal elements the last is returned.\<close>

fun max_by_key :: "('a \<Rightarrow> 'k::linorder) \<Rightarrow> 'a list \<Rightarrow> 'a option" where
  "max_by_key key [] = None"
| "max_by_key key (x # xs) =
     (case max_by_key key xs of None \<Rightarrow> Some x | Some y \<Rightarrow> Some (if key x \<le> key y then y else x))"

definition clip_region :: "u64 \<Rightarrow> u64 \<Rightarrow> u64 \<Rightarrow> memory_region \<Rightarrow> memory_region option" where
  "clip_region minimum_address maximum_address minimum_size region =
     (case align_up (max (mr_start region) minimum_address) PAGE_SIZE of
        None \<Rightarrow> None
      | Some start \<Rightarrow>
          (let limit = align_down (min (mr_end region) maximum_address) PAGE_SIZE in
           if saturating_sub limit start \<ge> minimum_size
           then Some \<lparr>mr_start = start, mr_end = limit, mr_kind = Usable\<rparr> else None))"

definition usable_range :: "memory_map \<Rightarrow> u64 \<Rightarrow> u64 \<Rightarrow> u64 \<Rightarrow> memory_region option" where
  "usable_range m minimum_address maximum_address minimum_size =
     max_by_key region_length
       (List.map_filter (clip_region minimum_address maximum_address minimum_size)
          (filter (\<lambda>region. mr_kind region = Usable) (regions m)))"

section \<open>Typed reservations\<close>

datatype reservation_kind = LowMemory | KernelImage | BootInformation | BootModule
  | BootstrapHeap | AllocatorMetadata | Firmware | DeviceMemory

record reservation =
  rs_start :: physical_address
  rs_end :: physical_address
  rs_kind :: reservation_kind

definition reservation_EMPTY :: reservation where
  "reservation_EMPTY = \<lparr>rs_start = 0, rs_end = 0, rs_kind = LowMemory\<rparr>"

record reservation_table =
  rt_entries :: "reservation list"
  rt_length :: nat

datatype reservation_error = InvalidRange | ReservationCapacityExceeded

text \<open>The array length \<open>N\<close> is a const parameter of the Rust type.\<close>

definition reservation_table_new :: "nat \<Rightarrow> reservation_table" where
  "reservation_table_new N = \<lparr>rt_entries = replicate N reservation_EMPTY, rt_length = 0\<rparr>"

definition reservation_push ::
    "reservation_table \<Rightarrow> reservation \<Rightarrow> (reservation_error + unit) \<times> reservation_table" where
  "reservation_push t r =
     (if rs_start r \<ge> rs_end r then (Err InvalidRange, t)
      else if rt_length t < length (rt_entries t) then
        (Ok (), t\<lparr>rt_entries := (rt_entries t)[rt_length t := r], rt_length := rt_length t + 1\<rparr>)
      else (Err ReservationCapacityExceeded, t))"

definition reservation_entries :: "reservation_table \<Rightarrow> reservation list" where
  "reservation_entries t = take (rt_length t) (rt_entries t)"

lemma reservation_push_entries:
  assumes "reservation_push t r = (Ok (), u)" and "rt_length t \<le> length (rt_entries t)"
  shows "reservation_entries u = reservation_entries t @ [r]"
  using assms by (auto simp: reservation_push_def reservation_entries_def take_Suc_update
      split: if_splits)

lemma memory_map_push_regions:
  assumes "memory_map_push m r = (Ok (), n)" and "mm_length m \<le> length (mm_regions m)"
  shows "regions n = regions m @ [r]"
  using assms by (auto simp: memory_map_push_def regions_def take_Suc_update
      split: if_splits)

section \<open>Selection of the bootstrap range\<close>

lemma max_by_key_None [simp]: "max_by_key key xs = None \<longleftrightarrow> xs = []"
  by (cases xs) (auto split: option.splits)

lemma max_by_key_SomeD:
  "max_by_key key xs = Some y \<Longrightarrow> y \<in> set xs \<and> (\<forall>x \<in> set xs. key x \<le> key y)"
  by (induction xs arbitrary: y) (auto split: option.splits if_splits)

lemma clip_region_SomeD:
  assumes "clip_region lo hi sz r = Some c" and "0 < sz"
  shows "unat lo \<le> unat (mr_start c)" and "unat (mr_start r) \<le> unat (mr_start c)"
    and "unat (mr_end c) \<le> unat hi" and "unat (mr_end c) \<le> unat (mr_end r)"
    and "unat (mr_start c) + unat sz \<le> unat (mr_end c)"
    and "is_page_aligned (mr_start c)" and "is_page_aligned (mr_end c)" and "mr_kind c = Usable"
proof -
  from assms(1) obtain st where st: "align_up (max (mr_start r) lo) PAGE_SIZE = Some st"
    and c: "c = \<lparr>mr_start = st, mr_end = align_down (min (mr_end r) hi) PAGE_SIZE, mr_kind = Usable\<rparr>"
    and sz: "sz \<le> saturating_sub (mr_end c) st"
    by (auto simp: clip_region_def Let_def split: option.splits if_splits)
  note up = align_up_bounds[OF is_power_of_two_PAGE_SIZE st]
  have dn: "unat (mr_end c) = unat (min (mr_end r) hi) div 4096 * 4096"
    using c unat_align_down[OF is_power_of_two_PAGE_SIZE] by simp
  have mx: "unat (max (mr_start r) lo) = max (unat (mr_start r)) (unat lo)"
    by (simp add: max_def word_le_nat_alt)
  have mn: "unat (min (mr_end r) hi) = min (unat (mr_end r)) (unat hi)"
    by (simp add: min_def word_le_nat_alt)
  show "unat lo \<le> unat (mr_start c)" "unat (mr_start r) \<le> unat (mr_start c)"
    using up(1) mx c by simp_all
  have "unat (mr_end c) \<le> min (unat (mr_end r)) (unat hi)"
    using dn mn by (metis div_times_less_eq_dividend)
  then show "unat (mr_end c) \<le> unat hi" "unat (mr_end c) \<le> unat (mr_end r)" by simp_all
  show "is_page_aligned (mr_start c)" "is_page_aligned (mr_end c)" "mr_kind c = Usable"
    using up(3) dn c by (simp_all add: is_page_aligned_iff)
  have "0 < unat sz" using assms(2) by (simp add: word_less_nat_alt)
  moreover have "unat sz \<le> unat (mr_end c) - unat st"
    using sz by (simp add: word_le_nat_alt)
  ultimately show "unat (mr_start c) + unat sz \<le> unat (mr_end c)" using c by simp
qed

text \<open>
  The range the boot code picks from the firmware memory map is a
  page-aligned, sufficiently large part of one usable region, clipped to the requested
  window, and no other usable region offers a longer one; when nothing is returned no
  usable region offers a range of the requested size.
\<close>

theorem usable_range_correct:
  assumes "0 < sz"
  shows "case usable_range m lo hi sz of
           None \<Rightarrow> \<forall>r \<in> set (regions m). mr_kind r = Usable \<longrightarrow> clip_region lo hi sz r = None
         | Some c \<Rightarrow>
             (\<exists>r \<in> set (regions m). mr_kind r = Usable \<and> mr_start r \<le> mr_start c \<and> mr_end c \<le> mr_end r)
             \<and> lo \<le> mr_start c \<and> mr_end c \<le> hi
             \<and> unat (mr_start c) + unat sz \<le> unat (mr_end c)
             \<and> is_page_aligned (mr_start c) \<and> is_page_aligned (mr_end c)
             \<and> (\<forall>r \<in> set (regions m). \<forall>d. mr_kind r = Usable \<longrightarrow> clip_region lo hi sz r = Some d \<longrightarrow>
                  region_length d \<le> region_length c)"
proof (cases "usable_range m lo hi sz")
  case None
  then show ?thesis
    by (auto simp: usable_range_def List.map_filter_def filter_empty_conv)
next
  case (Some c)
  let ?cs = "List.map_filter (clip_region lo hi sz) (filter (\<lambda>r. mr_kind r = Usable) (regions m))"
  from Some have c: "c \<in> set ?cs" "\<forall>d \<in> set ?cs. region_length d \<le> region_length c"
    unfolding usable_range_def by (blast dest: max_by_key_SomeD)+
  then obtain r where r: "r \<in> set (regions m)" "mr_kind r = Usable" "clip_region lo hi sz r = Some c"
    by (force simp: List.map_filter_def)
  have "\<forall>r \<in> set (regions m). \<forall>d. mr_kind r = Usable \<longrightarrow> clip_region lo hi sz r = Some d \<longrightarrow>
          region_length d \<le> region_length c"
    using c(2) by (force simp: List.map_filter_def)
  with Some r clip_region_SomeD[OF r(3) assms] show ?thesis
    by (auto simp: word_le_nat_alt)
qed

definition sample_map :: memory_map where
  "sample_map = \<lparr>mm_regions = [\<lparr>mr_start = 0, mr_end = 0x9f000, mr_kind = Usable\<rparr>,
     \<lparr>mr_start = 0x100000, mr_end = 0x800000, mr_kind = Usable\<rparr>] @ replicate 126 region_EMPTY,
     mm_length = 2\<rparr>"

theorem usable_range_correct_witness:
  "usable_range sample_map 0x123456 0x400000 0x100000
     = Some \<lparr>mr_start = 0x124000, mr_end = 0x400000, mr_kind = Usable\<rparr>
   \<and> is_page_aligned 0x124000"
proof -
  have regs: "regions sample_map = [\<lparr>mr_start = 0, mr_end = 0x9f000, mr_kind = Usable\<rparr>,
      \<lparr>mr_start = 0x100000, mr_end = 0x800000, mr_kind = Usable\<rparr>]"
    by (simp add: sample_map_def regions_def)
  have sel: "usable_range sample_map 0x123456 0x400000 0x100000
     = Some \<lparr>mr_start = 0x124000, mr_end = 0x400000, mr_kind = Usable\<rparr>"
    by (simp add: usable_range_def regs List.map_filter_def clip_region_def align_up_def
        align_down_def checked_add_def saturating_sub_def region_length_def)
  show ?thesis
    using usable_range_correct[of "0x100000" sample_map "0x123456" "0x400000"] sel by simp
qed

end
