(* ===== verification/Frames.thy ===== *)
theory Frames
  imports Paging
begin

text \<open>
  The bitmap frame allocator of \<^verbatim>\<open>src/core/abyss/src/frame.rs\<close>. The state keeps
  the two \<open>u64\<close> bitmaps of the code; the proofs go through the set of free frames
  they describe. Frame numbers and counts are \<open>usize\<close> values, here \<open>nat\<close>, bounded
  by the invariant \<open>frame_wf\<close> (at most \<open>2 ^ 52\<close> frames), under which every bitmap
  index is in range and no counter underflows. \<open>find_contiguous\<close> is a loop whose
  exit depends on the alignment being a power of two, so it is a partial function with
  outer \<open>None\<close> for "does not return"; that it always returns is part of
  \<open>allocate_contiguous_correct\<close>.
\<close>

datatype frame_error = AddressOverflow | StorageTooSmall | InvalidFrameCount | UnalignedFrame
  | FrameOutOfRange | ReservedFrame | DoubleFree

record frame_state =
  fa_allocated :: "u64 list"
  fa_reserved :: "u64 list"
  fa_frame_count :: nat
  fa_next_search :: nat
  fa_free_frames :: nat

section \<open>Bitmaps\<close>

definition bit_is_set :: "u64 list \<Rightarrow> nat \<Rightarrow> bool" where
  "bit_is_set bitmap b \<longleftrightarrow> (bitmap ! (b div 64)) AND push_bit (b mod 64) 1 \<noteq> 0"

definition set_bitmap_bit :: "u64 list \<Rightarrow> nat \<Rightarrow> bool \<Rightarrow> u64 list" where
  "set_bitmap_bit bitmap b v =
     (let w = bitmap ! (b div 64); m = push_bit (b mod 64) 1 in
      bitmap[b div 64 := (if v then w OR m else w AND NOT m)])"

lemma bit_is_set_iff: "bit_is_set bitmap b \<longleftrightarrow> bit (bitmap ! (b div 64)) (b mod 64)"
  by (simp add: bit_is_set_def and_exp_eq_0_iff_not_bit)

lemma length_set_bitmap_bit [simp]: "length (set_bitmap_bit bitmap b v) = length bitmap"
  by (simp add: set_bitmap_bit_def Let_def)

lemma bit_is_set_set_bitmap_bit:
  assumes "b div 64 < length bitmap"
  shows "bit_is_set (set_bitmap_bit bitmap b v) c = (if c = b then v else bit_is_set bitmap c)"
proof (cases "c div 64 = b div 64")
  case True
  have "c = b \<longleftrightarrow> c mod 64 = b mod 64"
    using True by (metis div_mult_mod_eq)
  moreover have "c mod 64 < 64" by simp
  ultimately show ?thesis
    using assms True by (auto simp: bit_is_set_iff set_bitmap_bit_def Let_def bit_simps)
next
  case False
  then show ?thesis by (auto simp: bit_is_set_iff set_bitmap_bit_def Let_def)
qed

definition is_allocated :: "frame_state \<Rightarrow> nat \<Rightarrow> bool" where
  "is_allocated a frame = bit_is_set (fa_allocated a) frame"

definition is_reserved :: "frame_state \<Rightarrow> nat \<Rightarrow> bool" where
  "is_reserved a frame = bit_is_set (fa_reserved a) frame"

definition set_allocated :: "frame_state \<Rightarrow> nat \<Rightarrow> bool \<Rightarrow> frame_state" where
  "set_allocated a frame v = a\<lparr>fa_allocated := set_bitmap_bit (fa_allocated a) frame v\<rparr>"

definition set_reserved :: "frame_state \<Rightarrow> nat \<Rightarrow> bool \<Rightarrow> frame_state" where
  "set_reserved a frame v = a\<lparr>fa_reserved := set_bitmap_bit (fa_reserved a) frame v\<rparr>"

section \<open>Construction\<close>

definition words_for_frames :: "nat \<Rightarrow> nat" where
  "words_for_frames frames = (frames + 63) div 64"

definition frame_count :: "u64 \<Rightarrow> frame_error + nat" where
  "frame_count maximum_address =
     (case checked_add maximum_address (PAGE_SIZE - 1) of
        None \<Rightarrow> Err AddressOverflow
      | Some rounded \<Rightarrow> Ok (unat (rounded div PAGE_SIZE)))"

definition storage_words :: "u64 \<Rightarrow> frame_error + nat" where
  "storage_words maximum_address =
     (case frame_count maximum_address of
        Err e \<Rightarrow> Err e
      | Ok frames \<Rightarrow>
          (case checked_mul_usize (words_for_frames frames) 2 of
             None \<Rightarrow> Err AddressOverflow
           | Some w \<Rightarrow> Ok w))"

definition mark_usable_frame :: "nat \<Rightarrow> frame_state \<Rightarrow> frame_state" where
  "mark_usable_frame frame a =
     (let a = (if is_allocated a frame then a\<lparr>fa_free_frames := fa_free_frames a + 1\<rparr> else a) in
      set_reserved (set_allocated a frame False) frame False)"

definition mark_usable :: "frame_state \<Rightarrow> u64 \<Rightarrow> u64 \<Rightarrow> frame_state" where
  "mark_usable a start limit =
     (if start \<ge> limit then a
      else
        (let first = unat (start div PAGE_SIZE);
             last = min (unat (limit div PAGE_SIZE)) (fa_frame_count a) in
         fold mark_usable_frame [min first (fa_frame_count a) ..< last] a))"

definition add_region :: "u64 \<Rightarrow> memory_region \<Rightarrow> frame_state \<Rightarrow> frame_state" where
  "add_region maximum_address region a =
     (if mr_kind region \<noteq> Usable then a
      else
        (case align_up (mr_start region) PAGE_SIZE of
           None \<Rightarrow> a
         | Some start \<Rightarrow>
             mark_usable a start (align_down (min (mr_end region) maximum_address) PAGE_SIZE)))"

text \<open>The caller's storage slice matters only through its length: both halves are overwritten.\<close>

definition frame_new :: "memory_map \<Rightarrow> u64 \<Rightarrow> u64 list \<Rightarrow> frame_error + frame_state" where
  "frame_new memory_map maximum_address storage =
     (case frame_count maximum_address of
        Err e \<Rightarrow> Err e
      | Ok count \<Rightarrow>
          (let words = words_for_frames count in
           if length storage < words * 2 then Err StorageTooSmall
           else Ok (fold (add_region maximum_address) (regions memory_map)
                  \<lparr>fa_allocated = replicate words (- 1), fa_reserved = replicate words (- 1),
                    fa_frame_count = count, fa_next_search = 0, fa_free_frames = 0\<rparr>)))"

section \<open>Reservation, allocation and release\<close>

definition reserve_frame :: "nat \<Rightarrow> frame_state \<Rightarrow> frame_state" where
  "reserve_frame frame a =
     (let a = (if \<not> is_allocated a frame then a\<lparr>fa_free_frames := fa_free_frames a - 1\<rparr> else a) in
      set_reserved (set_allocated a frame True) frame True)"

definition reserve_range :: "frame_state \<Rightarrow> u64 \<Rightarrow> u64 \<Rightarrow> frame_state" where
  "reserve_range a start limit =
     (if start \<ge> limit then a
      else
        (let first = unat (start div PAGE_SIZE) in
         case align_up limit PAGE_SIZE of
           None \<Rightarrow> a
         | Some rounded_end \<Rightarrow>
             (let last = min (unat (rounded_end div PAGE_SIZE)) (fa_frame_count a) in
              fold reserve_frame [min first (fa_frame_count a) ..< last] a)))"

definition apply_reservations :: "frame_state \<Rightarrow> reservation_table \<Rightarrow> frame_state" where
  "apply_reservations a t =
     fold (\<lambda>r a. reserve_range a (rs_start r) (rs_end r)) (reservation_entries t) a"

definition frame_address :: "nat \<Rightarrow> physical_address" where
  "frame_address frame = of_nat frame * PAGE_SIZE"

definition frame_allocate :: "frame_state \<Rightarrow> physical_address option \<times> frame_state" where
  "frame_allocate a =
     (if fa_free_frames a = 0 then (None, a)
      else
        (case List.find (\<lambda>frame. \<not> is_allocated a frame)
            (map (\<lambda>offset. (fa_next_search a + offset) mod fa_frame_count a) [0..<fa_frame_count a]) of
           None \<Rightarrow> (None, a)
         | Some frame \<Rightarrow>
             (Some (frame_address frame),
              (set_allocated a frame True)
                \<lparr>fa_free_frames := fa_free_frames a - 1,
                 fa_next_search := (frame + 1) mod fa_frame_count a\<rparr>)))"

definition align_up_index :: "nat \<Rightarrow> nat \<Rightarrow> nat option" where
  "align_up_index v alignment = map_option unat (align_up (of_nat v) (of_nat alignment))"

partial_function (option) find_contiguous_loop ::
    "frame_state \<Rightarrow> nat \<Rightarrow> nat \<Rightarrow> nat \<Rightarrow> nat option option" where
  "find_contiguous_loop a count alignment candidate =
     (case checked_add_usize candidate count of
        None \<Rightarrow> Some None
      | Some limit \<Rightarrow>
          if limit \<le> fa_frame_count a then
            (case List.find (is_allocated a) [candidate ..< candidate + count] of
               None \<Rightarrow> Some (Some candidate)
             | Some occupied \<Rightarrow>
                 (case align_up_index (occupied + 1) alignment of
                    None \<Rightarrow> Some None
                  | Some c \<Rightarrow> find_contiguous_loop a count alignment c))
          else Some None)"

definition find_contiguous :: "frame_state \<Rightarrow> nat \<Rightarrow> nat \<Rightarrow> nat \<Rightarrow> nat option option" where
  "find_contiguous a search_start count alignment =
     (case align_up_index search_start alignment of
        None \<Rightarrow> Some None
      | Some candidate \<Rightarrow> find_contiguous_loop a count alignment candidate)"

definition is_power_of_two_usize :: "nat \<Rightarrow> bool" where
  "is_power_of_two_usize n \<longleftrightarrow> (\<exists>k \<in> {0..<64}. n = 2 ^ k)"

definition claim_run :: "frame_state \<Rightarrow> nat \<Rightarrow> nat \<Rightarrow> physical_address option \<times> frame_state" where
  "claim_run a first count =
     (let b = fold (\<lambda>frame a. set_allocated a frame True) [first ..< first + count] a in
      (Some (frame_address first),
       b\<lparr>fa_free_frames := fa_free_frames b - count,
         fa_next_search := (first + count) mod fa_frame_count b\<rparr>))"

definition frame_allocate_contiguous ::
    "frame_state \<Rightarrow> nat \<Rightarrow> nat \<Rightarrow> (physical_address option \<times> frame_state) option" where
  "frame_allocate_contiguous a count alignment =
     (if count = 0 \<or> alignment = 0 \<or> \<not> is_power_of_two_usize alignment \<or> count > fa_free_frames a
      then Some (None, a)
      else
        (case find_contiguous a (fa_next_search a) count alignment of
           None \<Rightarrow> None
         | Some (Some first) \<Rightarrow> Some (claim_run a first count)
         | Some None \<Rightarrow>
             (case find_contiguous a 0 count alignment of
                None \<Rightarrow> None
              | Some (Some first) \<Rightarrow> Some (claim_run a first count)
              | Some None \<Rightarrow> Some (None, a))))"

fun release_check :: "frame_state \<Rightarrow> nat list \<Rightarrow> frame_error option" where
  "release_check a [] = None"
| "release_check a (index # rest) =
     (if is_reserved a index then Some ReservedFrame
      else if \<not> is_allocated a index then Some DoubleFree
      else release_check a rest)"

definition frame_deallocate_contiguous ::
    "frame_state \<Rightarrow> physical_address \<Rightarrow> nat \<Rightarrow> (frame_error + unit) \<times> frame_state" where
  "frame_deallocate_contiguous a first_frame count =
     (if count = 0 then (Err InvalidFrameCount, a)
      else if \<not> is_page_aligned first_frame then (Err UnalignedFrame, a)
      else
        (let first = unat (first_frame div PAGE_SIZE) in
         case checked_add_usize first count of
           None \<Rightarrow> (Err FrameOutOfRange, a)
         | Some limit \<Rightarrow>
             if limit > fa_frame_count a then (Err FrameOutOfRange, a)
             else
               (case release_check a [first ..< limit] of
                  Some e \<Rightarrow> (Err e, a)
                | None \<Rightarrow>
                    (let b = fold (\<lambda>index a. set_allocated a index False) [first ..< limit] a in
                     (Ok (), b\<lparr>fa_free_frames := fa_free_frames b + count,
                               fa_next_search := first\<rparr>)))))"

definition frame_deallocate ::
    "frame_state \<Rightarrow> physical_address \<Rightarrow> (frame_error + unit) \<times> frame_state" where
  "frame_deallocate a frame = frame_deallocate_contiguous a frame 1"

definition bitmap_allocate_frame :: "frame_state \<Rightarrow> physical_address option \<times> frame_state" where
  "bitmap_allocate_frame a = frame_allocate a"

definition bitmap_deallocate_frame :: "frame_state \<Rightarrow> physical_address \<Rightarrow> frame_state" where
  "bitmap_deallocate_frame a frame = snd (frame_deallocate a frame)"

section \<open>The set of free frames\<close>

definition free_set :: "frame_state \<Rightarrow> nat set" where
  "free_set a = {f. f < fa_frame_count a \<and> \<not> is_allocated a f}"

definition frame_shape :: "frame_state \<Rightarrow> bool" where
  "frame_shape a \<longleftrightarrow> length (fa_allocated a) = words_for_frames (fa_frame_count a)
     \<and> length (fa_reserved a) = words_for_frames (fa_frame_count a)
     \<and> fa_frame_count a \<le> 2 ^ 52"

definition frame_wf :: "frame_state \<Rightarrow> bool" where
  "frame_wf a \<longleftrightarrow> frame_shape a \<and> fa_free_frames a = card (free_set a)
     \<and> (fa_next_search a < fa_frame_count a \<or> fa_next_search a = 0)
     \<and> (\<forall>f < fa_frame_count a. is_reserved a f \<longrightarrow> is_allocated a f)"

lemmas frame_wf_defs = frame_wf_def frame_shape_def

lemma finite_free_set [simp]: "finite (free_set a)"
  by (simp add: free_set_def)

lemma frame_index_in_range:
  "frame_shape a \<Longrightarrow> f < fa_frame_count a \<Longrightarrow>
     f div 64 < length (fa_allocated a) \<and> f div 64 < length (fa_reserved a)"
  by (auto simp: frame_shape_def words_for_frames_def)

lemma set_allocated_sel [simp]:
  "fa_reserved (set_allocated a f v) = fa_reserved a"
  "fa_frame_count (set_allocated a f v) = fa_frame_count a"
  "fa_next_search (set_allocated a f v) = fa_next_search a"
  "fa_free_frames (set_allocated a f v) = fa_free_frames a"
  "frame_shape (set_allocated a f v) = frame_shape a"
  "is_reserved (set_allocated a f v) g = is_reserved a g"
  by (simp_all add: set_allocated_def frame_shape_def is_reserved_def)

lemma set_reserved_sel [simp]:
  "fa_allocated (set_reserved a f v) = fa_allocated a"
  "fa_frame_count (set_reserved a f v) = fa_frame_count a"
  "fa_next_search (set_reserved a f v) = fa_next_search a"
  "fa_free_frames (set_reserved a f v) = fa_free_frames a"
  "frame_shape (set_reserved a f v) = frame_shape a"
  "is_allocated (set_reserved a f v) g = is_allocated a g"
  by (simp_all add: set_reserved_def frame_shape_def is_allocated_def)

lemma counter_update_sel [simp]:
  "is_allocated (a\<lparr>fa_free_frames := n\<rparr>) g = is_allocated a g"
  "is_reserved (a\<lparr>fa_free_frames := n\<rparr>) g = is_reserved a g"
  "frame_shape (a\<lparr>fa_free_frames := n\<rparr>) = frame_shape a"
  "is_allocated (a\<lparr>fa_next_search := m\<rparr>) g = is_allocated a g"
  "is_reserved (a\<lparr>fa_next_search := m\<rparr>) g = is_reserved a g"
  "frame_shape (a\<lparr>fa_next_search := m\<rparr>) = frame_shape a"
  by (simp_all add: is_allocated_def is_reserved_def frame_shape_def)

lemma is_allocated_set_allocated:
  "frame_shape a \<Longrightarrow> f < fa_frame_count a \<Longrightarrow>
     is_allocated (set_allocated a f v) g = (if g = f then v else is_allocated a g)"
  by (simp add: is_allocated_def set_allocated_def bit_is_set_set_bitmap_bit frame_index_in_range)

lemma is_reserved_set_reserved:
  "frame_shape a \<Longrightarrow> f < fa_frame_count a \<Longrightarrow>
     is_reserved (set_reserved a f v) g = (if g = f then v else is_reserved a g)"
  by (simp add: is_reserved_def set_reserved_def bit_is_set_set_bitmap_bit frame_index_in_range)

lemma fold_set_allocated:
  assumes "frame_shape a" and "\<forall>f \<in> set fs. f < fa_frame_count a"
  shows "let b = fold (\<lambda>f a. set_allocated a f v) fs a in
     frame_shape b \<and> fa_frame_count b = fa_frame_count a \<and> fa_next_search b = fa_next_search a
     \<and> fa_free_frames b = fa_free_frames a \<and> fa_reserved b = fa_reserved a
     \<and> (\<forall>g. is_allocated b g = (if g \<in> set fs then v else is_allocated a g))"
  using assms by (induction fs arbitrary: a) (auto simp: Let_def is_allocated_set_allocated)

lemma free_set_set_allocated_True:
  "frame_shape a \<Longrightarrow> f < fa_frame_count a \<Longrightarrow> free_set (set_allocated a f True) = free_set a - {f}"
  by (auto simp: free_set_def is_allocated_set_allocated)

section \<open>Boot: usable memory minus reservations\<close>

lemma reserve_frame_wf:
  assumes "frame_wf a" and "f < fa_frame_count a"
  shows "frame_wf (reserve_frame f a)" and "free_set (reserve_frame f a) = free_set a - {f}"
    and "fa_frame_count (reserve_frame f a) = fa_frame_count a"
    and "is_reserved (reserve_frame f a) g \<longleftrightarrow> g = f \<or> is_reserved a g"
proof -
  let ?b = "reserve_frame f a"
  have sh: "frame_shape a" using assms by (simp add: frame_wf_def)
  have al: "is_allocated ?b g = (g = f \<or> is_allocated a g)" for g
    using sh assms(2) by (simp add: reserve_frame_def Let_def is_allocated_set_allocated)
  show rs: "is_reserved ?b g \<longleftrightarrow> g = f \<or> is_reserved a g" for g
    using sh assms(2) by (simp add: reserve_frame_def Let_def is_reserved_set_reserved)
  show cnt: "fa_frame_count ?b = fa_frame_count a" by (simp add: reserve_frame_def Let_def)
  show fs: "free_set ?b = free_set a - {f}" by (auto simp: free_set_def al cnt)
  have "fa_free_frames ?b = (if f \<in> free_set a then card (free_set a) - 1 else card (free_set a))"
    using assms by (simp add: reserve_frame_def Let_def frame_wf_def free_set_def)
  then have "fa_free_frames ?b = card (free_set ?b)" by (simp add: fs)
  then show "frame_wf ?b"
    using assms sh by (auto simp: frame_wf_def cnt al rs) (simp_all add: reserve_frame_def Let_def)
qed

lemma mark_usable_frame_wf:
  assumes "frame_wf a" and "f < fa_frame_count a"
  shows "frame_wf (mark_usable_frame f a)" and "free_set (mark_usable_frame f a) = insert f (free_set a)"
    and "fa_frame_count (mark_usable_frame f a) = fa_frame_count a"
    and "is_reserved (mark_usable_frame f a) g \<longleftrightarrow> g \<noteq> f \<and> is_reserved a g"
proof -
  let ?b = "mark_usable_frame f a"
  have sh: "frame_shape a" using assms by (simp add: frame_wf_def)
  have al: "is_allocated ?b g = (g \<noteq> f \<and> is_allocated a g)" for g
    using sh assms(2) by (simp add: mark_usable_frame_def Let_def is_allocated_set_allocated)
  show rs: "is_reserved ?b g \<longleftrightarrow> g \<noteq> f \<and> is_reserved a g" for g
    using sh assms(2) by (simp add: mark_usable_frame_def Let_def is_reserved_set_reserved)
  show cnt: "fa_frame_count ?b = fa_frame_count a" by (simp add: mark_usable_frame_def Let_def)
  show fs: "free_set ?b = insert f (free_set a)" using assms(2) by (auto simp: free_set_def al cnt)
  have "fa_free_frames ?b = (if f \<in> free_set a then card (free_set a) else Suc (card (free_set a)))"
    using assms by (simp add: mark_usable_frame_def Let_def frame_wf_def free_set_def)
  then have "fa_free_frames ?b = card (free_set ?b)" by (simp add: fs insert_absorb)
  then show "frame_wf ?b"
    using assms sh by (auto simp: frame_wf_def cnt al rs) (simp_all add: mark_usable_frame_def Let_def)
qed

lemma fold_reserve_frame:
  assumes "frame_wf a" and "\<forall>f \<in> set fs. f < fa_frame_count a"
  shows "frame_wf (fold reserve_frame fs a) \<and> free_set (fold reserve_frame fs a) = free_set a - set fs
    \<and> fa_frame_count (fold reserve_frame fs a) = fa_frame_count a
    \<and> (\<forall>g. is_reserved (fold reserve_frame fs a) g \<longleftrightarrow> g \<in> set fs \<or> is_reserved a g)"
  using assms by (induction fs arbitrary: a) (auto simp: reserve_frame_wf)

lemma fold_mark_usable_frame:
  assumes "frame_wf a" and "\<forall>f \<in> set fs. f < fa_frame_count a"
  shows "frame_wf (fold mark_usable_frame fs a)
    \<and> free_set (fold mark_usable_frame fs a) = free_set a \<union> set fs
    \<and> fa_frame_count (fold mark_usable_frame fs a) = fa_frame_count a"
  using assms by (induction fs arbitrary: a) (auto simp: mark_usable_frame_wf)

text \<open>The frames a byte range covers completely, and those it touches.\<close>

definition frames_inside :: "nat \<Rightarrow> nat \<Rightarrow> nat set" where
  "frames_inside start limit = {f. start \<le> f * 4096 \<and> f * 4096 + 4096 \<le> limit}"

definition frames_touched :: "nat \<Rightarrow> nat \<Rightarrow> nat set" where
  "frames_touched start limit = {f. start < limit \<and> start < f * 4096 + 4096 \<and> f * 4096 < limit}"

lemma unat_div_PAGE_SIZE [simp]: "unat (x div PAGE_SIZE) = unat x div 4096"
  by (simp add: unat_div)

lemma div_le_iff_less: "0 < n \<Longrightarrow> m div n \<le> f \<longleftrightarrow> m < f * n + n" for m n f :: nat
  by (metis add.commute div_less_iff_less_mult less_Suc_eq_le mult_Suc)

lemma less_div_iff_le: "0 < n \<Longrightarrow> f < (m + n - 1) div n \<longleftrightarrow> f * n < m" for m n f :: nat
  using less_eq_div_iff_mult_less_eq[of n "Suc f" "m + n - 1"] by (simp add: Suc_le_eq) linarith

lemma Suc_frame_le_div: "f * 4096 + 4096 \<le> m div 4096 * 4096 \<longleftrightarrow> f * 4096 + 4096 \<le> m" for m f :: nat
proof -
  have "Suc f * 4096 \<le> m div 4096 * 4096 \<longleftrightarrow> Suc f * 4096 \<le> m"
    by (subst mult_le_cancel2) (simp only: less_eq_div_iff_mult_less_eq zero_less_numeral simp_thms)
  then show ?thesis by (simp add: add.commute)
qed

lemma mark_usable_free:
  assumes "frame_wf a" and "4096 dvd unat start" and "4096 dvd unat limit"
  shows "frame_wf (mark_usable a start limit)
    \<and> free_set (mark_usable a start limit)
        = free_set a \<union> {f. f < fa_frame_count a \<and> f \<in> frames_inside (unat start) (unat limit)}
    \<and> fa_frame_count (mark_usable a start limit) = fa_frame_count a"
proof (cases "start \<ge> limit")
  case True
  then have "frames_inside (unat start) (unat limit) = {}"
    by (auto simp: frames_inside_def word_le_nat_alt)
  with True assms(1) show ?thesis by (simp add: mark_usable_def)
next
  case False
  let ?fs = "[min (unat start div 4096) (fa_frame_count a) ..< min (unat limit div 4096) (fa_frame_count a)]"
  have "set ?fs = {f. f < fa_frame_count a \<and> f \<in> frames_inside (unat start) (unat limit)}"
    using assms(2,3) by (auto simp: frames_inside_def dvd_def)
  moreover have "mark_usable a start limit = fold mark_usable_frame ?fs a"
    using False by (simp add: mark_usable_def Let_def)
  ultimately show ?thesis using fold_mark_usable_frame[OF assms(1), of ?fs] by auto
qed

lemma reserve_range_free:
  assumes "frame_wf a" and "unat limit \<le> 2 ^ 64 - 4096"
  shows "frame_wf (reserve_range a start limit)
    \<and> free_set (reserve_range a start limit) = free_set a - frames_touched (unat start) (unat limit)
    \<and> fa_frame_count (reserve_range a start limit) = fa_frame_count a
    \<and> (\<forall>f. is_reserved (reserve_range a start limit) f \<longleftrightarrow>
         is_reserved a f \<or> (f < fa_frame_count a \<and> f \<in> frames_touched (unat start) (unat limit)))"
proof (cases "start \<ge> limit")
  case True
  then have "frames_touched (unat start) (unat limit) = {}"
    by (auto simp: frames_touched_def word_le_nat_alt)
  then show ?thesis using True assms(1) by (simp add: reserve_range_def)
next
  case False
  have "align_up limit PAGE_SIZE \<noteq> None"
    using align_up_NoneD[OF is_power_of_two_PAGE_SIZE, of limit] assms(2) by auto
  then obtain r where r: "align_up limit PAGE_SIZE = Some r" by auto
  have ur: "unat r = (unat limit + 4095) div 4096 * 4096"
    using unat_align_up[OF is_power_of_two_PAGE_SIZE r] by simp
  let ?fs = "[min (unat start div 4096) (fa_frame_count a) ..< min (unat r div 4096) (fa_frame_count a)]"
  have fs: "set ?fs = {f. f < fa_frame_count a \<and> f \<in> frames_touched (unat start) (unat limit)}"
  proof (rule set_eqI)
    fix f
    have lt: "unat start < unat limit" using False by (simp add: word_le_nat_alt)
    have mem: "f \<in> set ?fs \<longleftrightarrow> unat start div 4096 \<le> f \<and> f < unat r div 4096 \<and> f < fa_frame_count a"
      unfolding set_upt atLeastLessThan_iff by (auto simp del: unat_div)
    have "unat start div 4096 \<le> f \<longleftrightarrow> unat start < f * 4096 + 4096"
      by (rule div_le_iff_less) simp
    moreover have "f < unat r div 4096 \<longleftrightarrow> f * 4096 < unat limit"
      using less_div_iff_le[of 4096 f "unat limit"] by (simp add: ur add.commute)
    ultimately show "f \<in> set ?fs \<longleftrightarrow> f \<in> {f. f < fa_frame_count a \<and> f \<in> frames_touched (unat start) (unat limit)}"
      using lt mem unfolding frames_touched_def mem_Collect_eq by blast
  qed
  have "reserve_range a start limit = fold reserve_frame ?fs a"
    using False r by (simp add: reserve_range_def Let_def)
  moreover have "free_set a - set ?fs = free_set a - frames_touched (unat start) (unat limit)"
    unfolding fs by (auto simp: free_set_def)
  moreover note fold_reserve_frame[OF assms(1), of ?fs]
  ultimately show ?thesis unfolding fs by (simp add: disj_commute)
qed

text \<open>
  A reservation that ends in the last page of the address space is silently
  dropped: rounding its end up overflows and \<open>reserve_range\<close> returns without marking
  a single frame, however low the range starts.
\<close>

lemma reserve_range_top_page_ignored:
  assumes "2 ^ 64 - 4096 < unat limit"
  shows "reserve_range a start limit = a"
proof -
  have "align_up limit PAGE_SIZE = None"
    using assms by (simp add: align_up_def checked_add_def)
  then show ?thesis by (simp add: reserve_range_def Let_def)
qed

lemma fold_reservations_free:
  assumes "frame_wf a"
  shows "let b = fold (\<lambda>r a. reserve_range a (rs_start r) (rs_end r)) rs a in
     frame_wf b \<and> fa_frame_count b = fa_frame_count a
     \<and> free_set b = free_set a - (\<Union>r \<in> {r \<in> set rs. unat (rs_end r) \<le> 2 ^ 64 - 4096}.
          frames_touched (unat (rs_start r)) (unat (rs_end r)))"
  using assms
proof (induction rs arbitrary: a)
  case Nil
  then show ?case by simp
next
  case (Cons r rs)
  have "frame_wf (reserve_range a (rs_start r) (rs_end r))
      \<and> free_set (reserve_range a (rs_start r) (rs_end r)) = free_set a -
          (if unat (rs_end r) \<le> 2 ^ 64 - 4096 then frames_touched (unat (rs_start r)) (unat (rs_end r)) else {})
      \<and> fa_frame_count (reserve_range a (rs_start r) (rs_end r)) = fa_frame_count a"
  proof (cases "unat (rs_end r) \<le> 2 ^ 64 - 4096")
    case True
    with reserve_range_free[OF Cons.prems this, of "rs_start r"] show ?thesis by simp
  next
    case False
    with Cons.prems show ?thesis by (simp add: reserve_range_top_page_ignored)
  qed
  with Cons.IH[of "reserve_range a (rs_start r) (rs_end r)"] show ?case
    by (auto simp: Let_def split: if_splits)
qed

lemma add_region_free:
  assumes "frame_wf a"
  shows "frame_wf (add_region hi r a) \<and> fa_frame_count (add_region hi r a) = fa_frame_count a
    \<and> free_set (add_region hi r a) = free_set a \<union> {f. f < fa_frame_count a \<and> mr_kind r = Usable
         \<and> f \<in> frames_inside (unat (mr_start r)) (min (unat (mr_end r)) (unat hi))}"
proof (cases "mr_kind r = Usable")
  case False
  with assms show ?thesis by (simp add: add_region_def)
next
  case True
  let ?lim = "align_down (min (mr_end r) hi) PAGE_SIZE"
  have mn: "unat (min (mr_end r) hi) = min (unat (mr_end r)) (unat hi)"
    by (simp add: min_def word_le_nat_alt)
  have lim: "unat ?lim = min (unat (mr_end r)) (unat hi) div 4096 * 4096"
    using unat_align_down[OF is_power_of_two_PAGE_SIZE, of "min (mr_end r) hi"] mn by simp
  show ?thesis
  proof (cases "align_up (mr_start r) PAGE_SIZE")
    case None
    then have "2 ^ 64 \<le> unat (mr_start r) + 4095"
      using align_up_NoneD[OF is_power_of_two_PAGE_SIZE None] by simp
    then have "frames_inside (unat (mr_start r)) (min (unat (mr_end r)) (unat hi)) = {}"
      using unat_lt2p[of "mr_end r"] by (auto simp: frames_inside_def)
    with None True assms show ?thesis by (simp add: add_region_def)
  next
    case (Some st)
    have "frames_inside (unat st) (unat ?lim)
        = frames_inside (unat (mr_start r)) (min (unat (mr_end r)) (unat hi))"
    proof (rule set_eqI)
      fix f
      have "unat st \<le> f * 4096 \<longleftrightarrow> unat (mr_start r) \<le> f * 4096"
        using align_up_bounds(1)[OF is_power_of_two_PAGE_SIZE Some]
          align_up_least[OF is_power_of_two_PAGE_SIZE Some, of "f * 4096"] by auto
      moreover have "f * 4096 + 4096 \<le> m div 4096 * 4096 \<longleftrightarrow> f * 4096 + 4096 \<le> m" for m :: nat
        by (rule Suc_frame_le_div)
      ultimately show "f \<in> frames_inside (unat st) (unat ?lim)
          \<longleftrightarrow> f \<in> frames_inside (unat (mr_start r)) (min (unat (mr_end r)) (unat hi))"
        unfolding frames_inside_def lim by simp
    qed
    moreover have "4096 dvd unat st" using align_up_bounds(3)[OF is_power_of_two_PAGE_SIZE Some] by simp
    ultimately show ?thesis
      using mark_usable_free[OF assms, of st ?lim] True Some lim by (simp add: add_region_def)
  qed
qed

lemma fold_add_region_free:
  assumes "frame_wf a"
  shows "let b = fold (add_region hi) rs a in
     frame_wf b \<and> fa_frame_count b = fa_frame_count a
     \<and> free_set b = free_set a \<union> {f. f < fa_frame_count a \<and> (\<exists>r \<in> set rs. mr_kind r = Usable
         \<and> f \<in> frames_inside (unat (mr_start r)) (min (unat (mr_end r)) (unat hi)))}"
  using assms
proof (induction rs arbitrary: a)
  case Nil
  then show ?case by simp
next
  case (Cons r rs)
  with Cons.IH[of "add_region hi r a"] add_region_free[OF Cons.prems, of hi r] show ?case
    by (auto simp: Let_def)
qed

lemma frame_count_Ok:
  assumes "frame_count hi = Ok n"
  shows "n = (unat hi + 4095) div 4096" and "n \<le> 2 ^ 52"
proof -
  from assms obtain z where z: "checked_add hi (PAGE_SIZE - 1) = Some z" "n = unat z div 4096"
    by (auto simp: frame_count_def split: option.splits)
  have "unat z = unat hi + 4095" using checked_add_SomeD(1)[OF z(1)] by simp
  with z show "n = (unat hi + 4095) div 4096" by simp
  show "n \<le> 2 ^ 52" using z(2) unat_lt2p[of z] by simp
qed

lemma initial_frame_wf:
  assumes "n \<le> 2 ^ 52"
  defines "a \<equiv> \<lparr>fa_allocated = replicate (words_for_frames n) (- 1),
      fa_reserved = replicate (words_for_frames n) (- 1),
      fa_frame_count = n, fa_next_search = 0, fa_free_frames = 0\<rparr>"
  shows "frame_wf a" and "free_set a = {}"
proof -
  have "is_allocated a f" if "f < n" for f
  proof -
    have "f div 64 < words_for_frames n" using that by (auto simp: words_for_frames_def)
    then show ?thesis by (simp add: a_def is_allocated_def bit_is_set_iff bit_minus_1_iff possible_bit_def)
  qed
  then show "free_set a = {}" by (auto simp: free_set_def a_def)
  then show "frame_wf a"
    using assms(1) \<open>\<And>f. f < n \<Longrightarrow> is_allocated a f\<close> by (auto simp: frame_wf_defs) (simp_all add: a_def)
qed

text \<open>
  C25 (functional). Boot: after \<open>new\<close> and \<open>apply_reservations\<close> the allocator is well
  formed, and the frames it may hand out are exactly those lying completely inside some
  usable region below the managed limit and untouched by every reservation that ends at
  \<open>2 ^ 64 - 4096\<close> or below. A reservation that ends higher reserves nothing, not even the frames
  it covers further down.
\<close>

theorem boot_free_frames:
  assumes "frame_new m hi storage = Ok a"
  shows "frame_wf (apply_reservations a t) \<and> free_set (apply_reservations a t) =
       {f. \<exists>r \<in> set (regions m). mr_kind r = Usable
             \<and> unat (mr_start r) \<le> f * 4096 \<and> f * 4096 + 4096 \<le> min (unat (mr_end r)) (unat hi)}
       - {f. \<exists>r \<in> set (reservation_entries t). unat (rs_end r) \<le> 2 ^ 64 - 4096 \<and> unat (rs_start r) < unat (rs_end r)
             \<and> unat (rs_start r) < f * 4096 + 4096 \<and> f * 4096 < unat (rs_end r)}"
proof -
  from assms obtain n where n: "frame_count hi = Ok n"
    and a: "a = fold (add_region hi) (regions m)
        \<lparr>fa_allocated = replicate (words_for_frames n) (- 1),
         fa_reserved = replicate (words_for_frames n) (- 1),
         fa_frame_count = n, fa_next_search = 0, fa_free_frames = 0\<rparr>"
    by (auto simp: frame_new_def Let_def split: sum.splits if_splits)
  note count = frame_count_Ok[OF n]
  note init = initial_frame_wf[OF count(2)]
  have A: "frame_wf a" "fa_frame_count a = n" and fa: "free_set a = {f. f < n \<and> (\<exists>r \<in> set (regions m). mr_kind r = Usable
         \<and> f \<in> frames_inside (unat (mr_start r)) (min (unat (mr_end r)) (unat hi)))}"
    using fold_add_region_free[OF init(1), of hi "regions m"] init(2) unfolding a by (simp_all add: Let_def)
  have "f < n" if "f * 4096 + 4096 \<le> unat hi" for f
    using that less_div_iff_le[of 4096 f "unat hi"] by (simp add: count(1) add.commute)
  then have "free_set a = {f. \<exists>r \<in> set (regions m). mr_kind r = Usable
         \<and> unat (mr_start r) \<le> f * 4096 \<and> f * 4096 + 4096 \<le> min (unat (mr_end r)) (unat hi)}"
    unfolding fa frames_inside_def by auto
  moreover have "{f. \<exists>r \<in> set (reservation_entries t). unat (rs_end r) \<le> 2 ^ 64 - 4096 \<and> unat (rs_start r) < unat (rs_end r)
             \<and> unat (rs_start r) < f * 4096 + 4096 \<and> f * 4096 < unat (rs_end r)}
     = (\<Union>r \<in> {r \<in> set (reservation_entries t). unat (rs_end r) \<le> 2 ^ 64 - 4096}. frames_touched (unat (rs_start r)) (unat (rs_end r)))"
    unfolding frames_touched_def by blast
  moreover note fold_reservations_free[OF A(1), of "reservation_entries t"]
  ultimately show ?thesis
    unfolding apply_reservations_def Let_def by simp
qed

definition sample_reservations :: reservation_table where
  "sample_reservations =
     \<lparr>rt_entries = [\<lparr>rs_start = 0, rs_end = 0x1800, rs_kind = LowMemory\<rparr>, reservation_EMPTY],
      rt_length = 1\<rparr>"

definition sample_frames :: frame_state where
  "sample_frames = projr (frame_new sample_map 0xA0000 [0, 0, 0, 0, 0, 0])"

theorem boot_free_frames_witness:
  "frame_new sample_map 0xA0000 [0, 0, 0, 0, 0, 0] = Ok sample_frames
   \<and> frame_wf (apply_reservations sample_frames sample_reservations)
   \<and> 2 \<in> free_set (apply_reservations sample_frames sample_reservations)
   \<and> 1 \<notin> free_set (apply_reservations sample_frames sample_reservations)"
proof -
  have new: "frame_new sample_map 0xA0000 [0, 0, 0, 0, 0, 0] = Ok sample_frames"
    by (simp add: sample_frames_def frame_new_def frame_count_def checked_add_def
        words_for_frames_def Let_def)
  note boot = boot_free_frames[OF new, of sample_reservations]
  have "2 \<in> free_set (apply_reservations sample_frames sample_reservations)"
    and "1 \<notin> free_set (apply_reservations sample_frames sample_reservations)"
    unfolding boot[THEN conjunct2] by (simp_all add: sample_map_def regions_def sample_reservations_def
        reservation_entries_def)
  with new boot show ?thesis by blast
qed

section \<open>Single-frame allocation\<close>

lemma unat_frame_address [simp]: "f < 2 ^ 52 \<Longrightarrow> unat (frame_address f) = f * 4096"
  by (simp add: frame_address_def unat_word_ariths unat_of_nat)

lemma frame_address_inj: "f < 2 ^ 52 \<Longrightarrow> g < 2 ^ 52 \<Longrightarrow> frame_address f = frame_address g \<longleftrightarrow> f = g"
  by (metis unat_frame_address mult_cancel2 zero_neq_numeral)

lemma cyclic_index: "f < n \<Longrightarrow> s < n \<Longrightarrow> \<exists>k < n. (s + k) mod n = f" for f n s :: nat
  by (rule exI[of _ "(f + n - s) mod n"]) (simp add: mod_add_right_eq)

lemma frame_allocate_cases:
  assumes "frame_wf a"
  obtains "frame_allocate a = (None, a)" and "free_set a = {}"
  | f where "f \<in> free_set a"
      and "frame_allocate a = (Some (frame_address f), (set_allocated a f True)
             \<lparr>fa_free_frames := fa_free_frames a - 1, fa_next_search := (f + 1) mod fa_frame_count a\<rparr>)"
proof (cases "free_set a = {}")
  case True
  with assms that(1) show ?thesis by (simp add: frame_allocate_def frame_wf_def)
next
  case False
  let ?fs = "map (\<lambda>offset. (fa_next_search a + offset) mod fa_frame_count a) [0..<fa_frame_count a]"
  from False obtain g where g: "g < fa_frame_count a" "\<not> is_allocated a g"
    by (auto simp: free_set_def)
  then have "fa_next_search a < fa_frame_count a" using assms by (auto simp: frame_wf_def)
  with g cyclic_index[of g "fa_frame_count a" "fa_next_search a"] have "g \<in> set ?fs" by auto
  with g have "List.find (\<lambda>frame. \<not> is_allocated a frame) ?fs \<noteq> None"
    by (auto simp: find_None_iff)
  then obtain f where f: "List.find (\<lambda>frame. \<not> is_allocated a frame) ?fs = Some f" by auto
  then have "f \<in> set ?fs" "\<not> is_allocated a f" by (auto simp: find_Some_iff in_set_conv_nth)
  with g have "f \<in> free_set a" by (auto simp: free_set_def)
  moreover have "fa_free_frames a \<noteq> 0" using False assms by (simp add: frame_wf_def)
  ultimately show ?thesis using that(2) f by (simp add: frame_allocate_def)
qed

lemma claim_wf:
  assumes "frame_wf a" and "f \<in> free_set a"
    and b: "b = (set_allocated a f True)
             \<lparr>fa_free_frames := fa_free_frames a - 1, fa_next_search := (f + 1) mod fa_frame_count a\<rparr>"
  shows "frame_wf b" and "free_set b = free_set a - {f}" and "fa_frame_count b = fa_frame_count a"
    and "is_reserved b g = is_reserved a g"
proof -
  have f: "f < fa_frame_count a" and sh: "frame_shape a"
    using assms(1,2) by (auto simp: frame_wf_def free_set_def)
  show cnt: "fa_frame_count b = fa_frame_count a" and "is_reserved b g = is_reserved a g"
    by (simp_all add: b)
  have al: "is_allocated b g = (g = f \<or> is_allocated a g)" for g
    using sh f by (simp add: b is_allocated_set_allocated)
  show fs: "free_set b = free_set a - {f}"
    unfolding free_set_def cnt al by blast
  have "fa_free_frames b = card (free_set b)"
    using assms(1,2) unfolding fs by (simp add: b frame_wf_def)
  moreover have "frame_shape b" using sh by (simp add: b)
  moreover have "fa_next_search b < fa_frame_count b" using f by (simp add: b)
  moreover have "is_reserved b g \<longrightarrow> is_allocated b g" if "g < fa_frame_count b" for g
    using assms(1) that unfolding al cnt by (simp add: b frame_wf_def)
  ultimately show "frame_wf b" by (simp add: frame_wf_def)
qed

lemma free_not_reserved: "frame_wf a \<Longrightarrow> f \<in> free_set a \<Longrightarrow> \<not> is_reserved a f"
  by (auto simp: frame_wf_def free_set_def)

lemma free_set_small: "frame_wf a \<Longrightarrow> f \<in> free_set a \<Longrightarrow> f < 2 ^ 52"
  unfolding frame_wf_def frame_shape_def free_set_def by (elim conjE CollectE) (rule less_le_trans)

lemma frame_address_div:
  assumes "4096 dvd unat p"
  shows "frame_address (unat p div 4096) = p"
proof -
  have "frame_address (unat p div 4096) = of_nat (unat p div 4096 * 4096)"
    by (simp add: frame_address_def)
  with assms show ?thesis by (simp only: dvd_div_mult_self) simp
qed

section \<open>Contiguous allocation\<close>

definition aligned_run :: "frame_state \<Rightarrow> nat \<Rightarrow> nat \<Rightarrow> nat \<Rightarrow> bool" where
  "aligned_run a count alignment f \<longleftrightarrow>
     alignment dvd f \<and> f + count \<le> fa_frame_count a \<and> (\<forall>g \<in> {f ..< f + count}. \<not> is_allocated a g)"

lemma is_power_of_two_usizeE:
  assumes "is_power_of_two_usize n"
  obtains k where "k < 64" and "n = 2 ^ k"
  using assms by (auto simp: is_power_of_two_usize_def)

lemma align_up_index_pow2:
  assumes "is_power_of_two_usize n"
  shows "is_power_of_two (of_nat n :: u64)" and "unat (of_nat n :: u64) = n"
proof -
  from assms obtain k where k: "k < 64" "n = 2 ^ k" by (rule is_power_of_two_usizeE)
  then show "is_power_of_two (of_nat n :: u64)" by (auto simp: is_power_of_two_def)
  from k have "n < 2 ^ 64" unfolding k(2) by (intro power_strict_increasing) simp_all
  then show "unat (of_nat n :: u64) = n" by (simp add: unat_of_nat)
qed

lemma align_up_index_Some:
  assumes "is_power_of_two_usize n" and "v < 2 ^ 64" and "align_up_index v n = Some c"
  shows "v \<le> c" and "n dvd c" and "c < 2 ^ 64" and "v \<le> m \<Longrightarrow> n dvd m \<Longrightarrow> c \<le> m"
proof -
  note p = align_up_index_pow2[OF assms(1)]
  have v: "unat (of_nat v :: u64) = v" using assms(2) by (simp add: unat_of_nat)
  from assms(3) obtain r where r: "align_up (of_nat v :: u64) (of_nat n) = Some r" "c = unat r"
    by (auto simp: align_up_index_def)
  note b = align_up_bounds[OF p(1) r(1), unfolded v p(2)]
  show "v \<le> c" "n dvd c" "c < 2 ^ 64" using b unat_lt2p[of r] by (simp_all add: r(2))
  show "c \<le> m" if "v \<le> m" "n dvd m"
    using align_up_least[OF p(1) r(1), unfolded v p(2), OF that] by (simp add: r(2))
qed

lemma align_up_index_None:
  assumes "is_power_of_two_usize n" and "v < 2 ^ 64" and "align_up_index v n = None"
    and "v \<le> m" and "n dvd m"
  shows "2 ^ 64 \<le> m"
proof -
  note p = align_up_index_pow2[OF assms(1)]
  have v: "unat (of_nat v :: u64) = v" using assms(2) by (simp add: unat_of_nat)
  from assms(1) obtain k where k: "k < 64" "n = 2 ^ k" by (rule is_power_of_two_usizeE)
  have "align_up (of_nat v :: u64) (of_nat n) = None" using assms(3) by (simp add: align_up_index_def)
  from align_up_NoneD[OF p(1) this] have big: "2 ^ 64 \<le> v + n - 1" by (simp only: v p(2))
  have "n dvd 2 ^ 64" unfolding k(2) by (rule le_imp_power_dvd) (use k in simp)
  then obtain q where q: "2 ^ 64 = n * q" by (auto simp: dvd_def)
  from assms(5) obtain j where j: "m = n * j" by (auto simp: dvd_def)
  show ?thesis
  proof (rule ccontr)
    assume "\<not> 2 ^ 64 \<le> m"
    then have "n * j < n * q" by (simp only: q j not_le)
    then have "n * (j + 1) \<le> n * q" by (intro mult_le_mono2) simp
    then have "m + n \<le> 2 ^ 64" by (simp only: q j) (simp add: algebra_simps)
    with big assms(4) k show False by simp
  qed
qed

lemma find_contiguous_loop_correct:
  assumes "frame_shape a" and "is_power_of_two_usize alignment" and "0 < count"
    and "alignment dvd candidate"
  shows "\<exists>r. find_contiguous_loop a count alignment candidate = Some r
    \<and> (\<forall>f. r = Some f \<longrightarrow> candidate \<le> f \<and> aligned_run a count alignment f)
    \<and> (r = None \<longrightarrow> (\<forall>f \<ge> candidate. \<not> aligned_run a count alignment f))"
  using assms(4)
proof (induction "fa_frame_count a - candidate" arbitrary: candidate rule: less_induct)
  case less
  have small: "fa_frame_count a \<le> 2 ^ 52" using assms(1) by (simp add: frame_shape_def)
  note loop = find_contiguous_loop.simps[of a count alignment candidate]
  show ?case
  proof (cases "candidate + count \<le> fa_frame_count a")
    case False
    then have "find_contiguous_loop a count alignment candidate = Some None"
      by (simp add: loop checked_add_usize_def)
    moreover have "\<not> aligned_run a count alignment f" if "f \<ge> candidate" for f
      using False that by (simp add: aligned_run_def)
    ultimately show ?thesis by blast
  next
    case True
    then have chk: "checked_add_usize candidate count = Some (candidate + count)"
      using small by (simp add: checked_add_usize_def)
    show ?thesis
    proof (cases "List.find (is_allocated a) [candidate ..< candidate + count]")
      case None
      then have "aligned_run a count alignment candidate"
        using True less.prems by (auto simp: aligned_run_def find_None_iff)
      with None True show ?thesis by (simp add: loop chk)
    next
      case (Some occ)
      then have occ: "candidate \<le> occ" "occ < candidate + count" "is_allocated a occ"
        by (auto simp: find_Some_iff)
      have past: "occ + 1 \<le> f" if "aligned_run a count alignment f" "candidate \<le> f" for f
      proof (rule ccontr)
        assume "\<not> occ + 1 \<le> f"
        with that(2) occ have "occ \<in> {f ..< f + count}" by simp
        with that(1) occ(3) show False by (auto simp: aligned_run_def)
      qed
      have lt: "occ + 1 < 2 ^ 64" using occ(2) True small by simp
      show ?thesis
      proof (cases "align_up_index (occ + 1) alignment")
        case None
        have "\<not> aligned_run a count alignment f" if "candidate \<le> f" for f
        proof
          assume run: "aligned_run a count alignment f"
          from align_up_index_None[OF assms(2) lt None past[OF run that]] run small
          show False by (auto simp: aligned_run_def)
        qed
        with None Some True show ?thesis by (simp add: loop chk)
      next
        case (Some c)
        note c = align_up_index_Some[OF assms(2) lt Some]
        have "fa_frame_count a - c < fa_frame_count a - candidate"
          using c(1) occ True by simp
        from less.hyps[OF this c(2)] obtain r where r: "find_contiguous_loop a count alignment c = Some r"
            "\<forall>f. r = Some f \<longrightarrow> c \<le> f \<and> aligned_run a count alignment f"
            "r = None \<longrightarrow> (\<forall>f \<ge> c. \<not> aligned_run a count alignment f)" by blast
        have "find_contiguous_loop a count alignment candidate = Some r"
          using \<open>List.find _ _ = Some occ\<close> Some True r(1) by (simp add: loop chk)
        moreover have "\<forall>f \<ge> candidate. \<not> aligned_run a count alignment f" if "r = None"
          using r(3) that past c(4) by (meson aligned_run_def)
        moreover have "candidate \<le> c" using c(1) occ(1) by simp
        ultimately show ?thesis using r(2) by (meson le_trans)
      qed
    qed
  qed
qed

lemma find_contiguous_correct:
  assumes "frame_shape a" and "is_power_of_two_usize alignment" and "0 < count" and "s < 2 ^ 64"
  obtains f where "find_contiguous a s count alignment = Some (Some f)"
      and "aligned_run a count alignment f"
  | "find_contiguous a s count alignment = Some None"
      and "\<forall>f \<ge> s. \<not> aligned_run a count alignment f"
proof (cases "align_up_index s alignment")
  case None
  have "\<not> aligned_run a count alignment f" if "s \<le> f" for f
    using align_up_index_None[OF assms(2,4) None that] assms(1)
    by (auto simp: aligned_run_def frame_shape_def)
  with None that(2) show ?thesis by (simp add: find_contiguous_def)
next
  case (Some c)
  note c = align_up_index_Some[OF assms(2,4) Some]
  from find_contiguous_loop_correct[OF assms(1-3) c(2)] obtain r where
    r: "find_contiguous_loop a count alignment c = Some r"
      "\<forall>f. r = Some f \<longrightarrow> c \<le> f \<and> aligned_run a count alignment f"
      "r = None \<longrightarrow> (\<forall>f \<ge> c. \<not> aligned_run a count alignment f)" by blast
  show ?thesis
  proof (cases r)
    case None
    with r(3) c(4) have "\<forall>f \<ge> s. \<not> aligned_run a count alignment f" by (meson aligned_run_def)
    with None r(1) Some that(2) show ?thesis by (simp add: find_contiguous_def)
  next
    case (Some f)
    with r \<open>align_up_index s alignment = Some c\<close> that(1) show ?thesis
      by (simp add: find_contiguous_def)
  qed
qed

lemma claim_run_wf:
  assumes "frame_wf a" and "aligned_run a count alignment f" and "0 < count"
    and b: "claim_run a f count = (r, b)"
  shows "r = Some (frame_address f)" and "frame_wf b"
    and "free_set b = free_set a - {f ..< f + count}" and "fa_frame_count b = fa_frame_count a"
    and "is_reserved b g = is_reserved a g" and "is_allocated b g \<longleftrightarrow> g \<in> {f ..< f + count} \<or> is_allocated a g"
proof -
  let ?c = "fold (\<lambda>frame a. set_allocated a frame True) [f ..< f + count] a"
  have run: "f + count \<le> fa_frame_count a" "{f ..< f + count} \<subseteq> free_set a"
    using assms(2) by (auto simp: aligned_run_def free_set_def)
  have sh: "frame_shape a" using assms(1) by (simp add: frame_wf_def)
  have "\<forall>g \<in> set [f ..< f + count]. g < fa_frame_count a" using run(1) by simp
  note c = fold_set_allocated[OF sh this, of True, unfolded Let_def]
  have bc: "b = ?c\<lparr>fa_free_frames := fa_free_frames ?c - count,
        fa_next_search := (f + count) mod fa_frame_count ?c\<rparr>"
    using b by (simp add: claim_run_def Let_def)
  show "r = Some (frame_address f)" using b by (simp add: claim_run_def Let_def)
  show cnt: "fa_frame_count b = fa_frame_count a" unfolding bc using c by simp
  show res: "is_reserved b g = is_reserved a g" for g unfolding bc using c by (simp add: is_reserved_def)
  show al: "is_allocated b g \<longleftrightarrow> g \<in> {f ..< f + count} \<or> is_allocated a g" for g
    unfolding bc using c by auto
  show fs: "free_set b = free_set a - {f ..< f + count}" unfolding free_set_def al cnt by blast
  have "card (free_set b) = card (free_set a) - count"
    unfolding fs by (subst card_Diff_subset) (use run(2) in simp_all)
  then have "fa_free_frames b = card (free_set b)"
    using c assms(1) unfolding bc by (simp add: frame_wf_def)
  moreover have "frame_shape b" unfolding bc using c by simp
  moreover have "fa_next_search b < fa_frame_count b \<or> fa_next_search b = 0"
    unfolding bc using c run(1) assms(3) by simp
  ultimately show "frame_wf b" using assms(1) by (simp add: frame_wf_def al res cnt)
qed

lemma aligned_run_card:
  assumes "frame_wf a" and "aligned_run a count alignment f"
  shows "count \<le> fa_free_frames a"
proof -
  have "{f ..< f + count} \<subseteq> free_set a" using assms(2) by (auto simp: aligned_run_def free_set_def)
  from card_mono[OF finite_free_set this] assms(1) show ?thesis by (simp add: frame_wf_def)
qed

lemma frame_allocate_contiguous_cases:
  assumes "frame_wf a"
  obtains (claimed) f where "frame_allocate_contiguous a count alignment = Some (claim_run a f count)"
      and "0 < count" and "is_power_of_two_usize alignment" and "aligned_run a count alignment f"
  | (refused) "frame_allocate_contiguous a count alignment = Some (None, a)"
      and "count = 0 \<or> \<not> is_power_of_two_usize alignment \<or> (\<forall>f. \<not> aligned_run a count alignment f)"
proof (cases "count = 0 \<or> alignment = 0 \<or> \<not> is_power_of_two_usize alignment \<or> count > fa_free_frames a")
  case True
  then have "frame_allocate_contiguous a count alignment = Some (None, a)"
    by (simp add: frame_allocate_contiguous_def)
  moreover have "\<not> is_power_of_two_usize 0" by (simp add: is_power_of_two_usize_def)
  ultimately show ?thesis
    using True refused aligned_run_card[OF assms, of count alignment] by fastforce
next
  case False
  have sh: "frame_shape a" and next_lt: "fa_next_search a < 2 ^ 64"
    using assms by (auto simp: frame_wf_def frame_shape_def)
  have ok: "is_power_of_two_usize alignment" "0 < count" using False by simp_all
  have zero: "(0::nat) < 2 ^ 64" by simp
  note def = frame_allocate_contiguous_def[of a count alignment]
  from sh ok next_lt show ?thesis
  proof (cases rule: find_contiguous_correct)
    case (1 f)
    with False claimed[of f] ok show ?thesis by (simp add: def)
  next
    case 2
    from sh ok zero show ?thesis
    proof (cases rule: find_contiguous_correct)
      case (1 f)
      with 2 False claimed[of f] ok show ?thesis by (simp add: def)
    next
      case none: 2
      with 2 False refused show ?thesis by (simp add: def)
    qed
  qed
qed

text \<open>
  C20 (functional). Contiguous allocation always returns, whatever the counters and the search
  position. A success hands out an aligned run of frames that were all free and unreserved,
  inside the managed range, and removes exactly that run from the free set; it fails, with
  the state unchanged, only for a zero count, an alignment that is not a power of two, or
  when no aligned free run of that length exists anywhere, so no fragmentation pattern is
  missed by the two searches.
\<close>

theorem allocate_contiguous_correct:
  assumes "frame_wf a"
  shows "\<exists>r b. frame_allocate_contiguous a count alignment = Some (r, b) \<and> frame_wf b
    \<and> (case r of
          None \<Rightarrow> b = a \<and> (count = 0 \<or> \<not> is_power_of_two_usize alignment
                   \<or> (\<forall>f. \<not> aligned_run a count alignment f))
        | Some p \<Rightarrow> \<exists>f. unat p = f * 4096 \<and> aligned_run a count alignment f
                   \<and> (\<forall>g \<in> {f ..< f + count}. \<not> is_reserved a g)
                   \<and> free_set b = free_set a - {f ..< f + count})"
  using assms
proof (cases rule: frame_allocate_contiguous_cases[where count = count and alignment = alignment])
  case (claimed f)
  obtain r b where rb: "claim_run a f count = (r, b)" by fastforce
  note c = claim_run_wf[OF assms claimed(4,2) rb]
  have run: "{f ..< f + count} \<subseteq> free_set a" "f + count \<le> fa_frame_count a"
    using claimed(4) by (auto simp: aligned_run_def free_set_def)
  have "f < 2 ^ 52" using run(2) claimed(2) assms by (simp add: frame_wf_def frame_shape_def)
  then have "unat (frame_address f) = f * 4096" by simp
  moreover have "\<forall>g \<in> {f ..< f + count}. \<not> is_reserved a g"
    using run(1) free_not_reserved[OF assms] by blast
  ultimately show ?thesis using claimed(1,4) c(1-3) rb by auto
next
  case refused
  with assms show ?thesis by auto
qed

definition sample_allocator :: frame_state where
  "sample_allocator = \<lparr>fa_allocated = [0xFFFFFFFFFFFFFF03], fa_reserved = [0xFFFFFFFFFFFFFF01],
     fa_frame_count = 8, fa_next_search = 5, fa_free_frames = 6\<rparr>"

lemma all_less_eight: "(\<forall>g < 8. P g) \<longleftrightarrow> P 0 \<and> P 1 \<and> P 2 \<and> P 3 \<and> P 4 \<and> P 5 \<and> P 6 \<and> P (7::nat)"
  by (auto simp: eval_nat_numeral All_less_Suc)

lemma sample_allocator_bits:
  "g < 8 \<Longrightarrow> is_allocated sample_allocator g = (g < 2)"
  "g < 8 \<Longrightarrow> is_reserved sample_allocator g = (g < 1)"
proof -
  have al: "\<forall>g < 8. is_allocated sample_allocator g = (g < 2)"
    and res: "\<forall>g < 8. is_reserved sample_allocator g = (g < 1)"
    unfolding all_less_eight
    by (simp_all add: sample_allocator_def is_allocated_def is_reserved_def bit_is_set_def)
  show "g < 8 \<Longrightarrow> is_allocated sample_allocator g = (g < 2)"
    and "g < 8 \<Longrightarrow> is_reserved sample_allocator g = (g < 1)"
    using al res by simp_all
qed

lemma sample_frame_count [simp]: "fa_frame_count sample_allocator = 8"
  by (simp add: sample_allocator_def)

lemma sample_allocator_wf: "frame_wf sample_allocator"
proof -
  have "free_set sample_allocator = {2 ..< 8}"
    by (auto simp: free_set_def sample_allocator_bits)
  then have "fa_free_frames sample_allocator = card (free_set sample_allocator)"
    by (simp add: sample_allocator_def)
  then show ?thesis
    by (simp add: frame_wf_def sample_allocator_bits)
      (simp add: frame_shape_def words_for_frames_def sample_allocator_def)
qed

theorem allocate_contiguous_correct_witness:
  "\<exists>p b. frame_allocate_contiguous sample_allocator 2 4 = Some (Some p, b) \<and> frame_wf b"
proof -
  have pow: "is_power_of_two_usize 4" by (auto simp: is_power_of_two_usize_def intro!: bexI[of _ 2])
  have run: "aligned_run sample_allocator 2 4 4"
    by (auto simp: aligned_run_def sample_allocator_bits)
  from allocate_contiguous_correct[OF sample_allocator_wf, of 2 4] pow run show ?thesis
    by (auto split: option.splits)
qed

section \<open>Release\<close>

lemma release_check_None:
  "release_check a fs = None \<longleftrightarrow> (\<forall>g \<in> set fs. \<not> is_reserved a g \<and> is_allocated a g)"
  by (induction fs) auto

definition releasable :: "frame_state \<Rightarrow> physical_address \<Rightarrow> nat \<Rightarrow> bool" where
  "releasable a p count \<longleftrightarrow> count \<noteq> 0 \<and> is_page_aligned p \<and> unat p div 4096 + count \<le> fa_frame_count a
     \<and> (\<forall>g \<in> {unat p div 4096 ..< unat p div 4096 + count}. is_allocated a g \<and> \<not> is_reserved a g)"

lemma frame_deallocate_contiguous_cases:
  assumes "frame_wf a"
  obtains (released) "releasable a p count" and
      "frame_deallocate_contiguous a p count =
        (Ok (), (fold (\<lambda>index a. set_allocated a index False) [unat p div 4096 ..< unat p div 4096 + count] a)
          \<lparr>fa_free_frames := fa_free_frames a + count, fa_next_search := unat p div 4096\<rparr>)"
  | (refused) e where "\<not> releasable a p count" and "frame_deallocate_contiguous a p count = (Err e, a)"
proof (cases "count = 0 \<or> \<not> is_page_aligned p \<or> fa_frame_count a < unat p div 4096 + count")
  case True
  then have "\<not> releasable a p count" by (auto simp: releasable_def)
  moreover have "\<exists>e. frame_deallocate_contiguous a p count = (Err e, a)"
    using True by (auto simp: frame_deallocate_contiguous_def Let_def checked_add_usize_def)
  ultimately show ?thesis using refused by blast
next
  case False
  let ?f = "unat p div 4096"
  have sh: "frame_shape a" using assms by (simp add: frame_wf_def)
  have "checked_add_usize ?f count = Some (?f + count)"
    using False sh by (simp add: checked_add_usize_def frame_shape_def)
  moreover have rel: "releasable a p count \<longleftrightarrow> release_check a [?f ..< ?f + count] = None"
    using False by (auto simp: releasable_def release_check_None)
  moreover have "\<forall>g \<in> set [?f ..< ?f + count]. g < fa_frame_count a" using False by simp
  note fold_set_allocated[OF sh this, of False, unfolded Let_def]
  ultimately have step: "frame_deallocate_contiguous a p count =
      (case release_check a [?f ..< ?f + count] of Some e \<Rightarrow> (Err e, a) | None \<Rightarrow>
        (Ok (), (fold (\<lambda>index a. set_allocated a index False) [?f ..< ?f + count] a)
          \<lparr>fa_free_frames := fa_free_frames a + count, fa_next_search := ?f\<rparr>))"
    using False by (simp add: frame_deallocate_contiguous_def Let_def split: option.split)
  show ?thesis
  proof (cases "release_check a [?f ..< ?f + count]")
    case None
    with step rel released show ?thesis by simp
  next
    case (Some e)
    with step rel refused show ?thesis by simp
  qed
qed

lemma release_wf:
  assumes "frame_wf a" and "releasable a p count" and "frame_deallocate_contiguous a p count = (Ok (), b)"
  shows "frame_wf b" and "free_set b = free_set a \<union> {unat p div 4096 ..< unat p div 4096 + count}"
    and "fa_frame_count b = fa_frame_count a"
proof -
  let ?f = "unat p div 4096"
  let ?c = "fold (\<lambda>index a. set_allocated a index False) [?f ..< ?f + count] a"
  have sh: "frame_shape a" using assms(1) by (simp add: frame_wf_def)
  have rel: "count \<noteq> 0" "?f + count \<le> fa_frame_count a"
      "\<forall>g \<in> {?f ..< ?f + count}. is_allocated a g \<and> \<not> is_reserved a g"
    using assms(2) by (simp_all add: releasable_def)
  have "\<forall>g \<in> set [?f ..< ?f + count]. g < fa_frame_count a" using rel(2) by simp
  note c = fold_set_allocated[OF sh this, of False, unfolded Let_def]
  have b: "b = ?c\<lparr>fa_free_frames := fa_free_frames a + count, fa_next_search := ?f\<rparr>"
    using assms(1)
    by (cases rule: frame_deallocate_contiguous_cases[where p = p and count = count])
      (use assms(2,3) in simp_all)
  show cnt: "fa_frame_count b = fa_frame_count a" unfolding b using c by simp
  have res: "is_reserved b g = is_reserved a g" for g unfolding b using c by (simp add: is_reserved_def)
  have al: "is_allocated b g \<longleftrightarrow> g \<notin> {?f ..< ?f + count} \<and> is_allocated a g" for g
    unfolding b using c by auto
  show fs: "free_set b = free_set a \<union> {?f ..< ?f + count}"
    unfolding free_set_def al cnt using rel(2) by auto
  have "free_set a \<inter> {?f ..< ?f + count} = {}" using rel(3) by (auto simp: free_set_def)
  then have "card (free_set b) = card (free_set a) + count"
    unfolding fs by (subst card_Un_disjoint) simp_all
  then have "fa_free_frames b = card (free_set b)" using assms(1) by (simp add: b frame_wf_def)
  moreover have "frame_shape b" unfolding b using c by simp
  moreover have "fa_next_search b < fa_frame_count b" using rel(1,2) unfolding cnt by (simp add: b)
  moreover have "is_reserved b g \<longrightarrow> is_allocated b g" if "g < fa_frame_count b" for g
    using assms(1) that rel(3) unfolding al res cnt by (auto simp: frame_wf_def)
  ultimately show "frame_wf b" by (simp add: frame_wf_def)
qed

text \<open>
  C31 (error). A release succeeds exactly when the run is non-empty, page aligned, inside the
  managed range and every frame of it is allocated and unreserved. A success adds exactly
  that run to the free set; a refusal (double free, reserved frame, out of range) changes
  nothing, not even for a run whose first frames were valid.
\<close>

theorem deallocate_contiguous_correct:
  assumes "frame_wf a"
  shows "case frame_deallocate_contiguous a p count of
      (Ok _, b) \<Rightarrow> releasable a p count \<and> frame_wf b
         \<and> free_set b = free_set a \<union> {unat p div 4096 ..< unat p div 4096 + count}
    | (Err _, b) \<Rightarrow> \<not> releasable a p count \<and> b = a"
  using assms
proof (cases rule: frame_deallocate_contiguous_cases[where p = p and count = count])
  case released
  then show ?thesis using release_wf[OF assms released(1)] by simp
next
  case (refused e)
  then show ?thesis by simp
qed

theorem deallocate_contiguous_correct_witness:
  "fst (frame_deallocate_contiguous sample_allocator 0x1000 1) = Ok ()
   \<and> fst (frame_deallocate_contiguous sample_allocator 0x1000 2) \<noteq> Ok ()"
proof
  have "releasable sample_allocator 0x1000 1" and "\<not> releasable sample_allocator 0x1000 2"
    by (auto simp: releasable_def is_page_aligned_iff sample_allocator_bits)
  with deallocate_contiguous_correct[OF sample_allocator_wf, where p = 4096 and count = 1]
    deallocate_contiguous_correct[OF sample_allocator_wf, where p = 4096 and count = 2]
  show "fst (frame_deallocate_contiguous sample_allocator 0x1000 1) = Ok ()"
    and "fst (frame_deallocate_contiguous sample_allocator 0x1000 2) \<noteq> Ok ()"
    by (auto split: prod.splits sum.splits)
qed

text \<open>
  Releasing a run just allocated succeeds and restores the set of free frames
  and their count exactly, so a caller that pairs the two never leaks or duplicates memory.
\<close>

theorem allocate_release_roundtrip:
  assumes "frame_wf a" and "frame_allocate_contiguous a count alignment = Some (Some p, b)"
  shows "\<exists>c. frame_deallocate_contiguous b p count = (Ok (), c) \<and> frame_wf c
    \<and> free_set c = free_set a \<and> fa_free_frames c = fa_free_frames a"
  using assms(1)
proof (cases rule: frame_allocate_contiguous_cases[where count = count and alignment = alignment])
  case (claimed f)
  with assms(2) have rb: "claim_run a f count = (Some p, b)" by simp
  note c = claim_run_wf[OF assms(1) claimed(4,2) rb]
  have run: "{f ..< f + count} \<subseteq> free_set a" "f + count \<le> fa_frame_count a"
    using claimed(4) by (auto simp: aligned_run_def free_set_def)
  have "f < 2 ^ 52" using run(2) claimed(2) assms(1) by (simp add: frame_wf_def frame_shape_def)
  then have p: "unat p = f * 4096" using c(1) by simp
  have rel: "releasable b p count"
    using claimed(2) run c(4-6) free_not_reserved[OF assms(1)]
    by (auto simp: releasable_def p is_page_aligned_iff)
  from c(2) show ?thesis
  proof (cases rule: frame_deallocate_contiguous_cases[where p = p and count = count])
    case released
    then obtain d where d: "frame_deallocate_contiguous b p count = (Ok (), d)" by simp
    note e = release_wf[OF c(2) rel d]
    have "free_set d = free_set a" using e(2) c(3) run(1) p by auto
    moreover from this have "fa_free_frames d = fa_free_frames a"
      using e(1) assms(1) by (simp add: frame_wf_def)
    ultimately show ?thesis using d e(1) by blast
  next
    case (refused x)
    with rel show ?thesis by simp
  qed
next
  case refused
  with assms(2) show ?thesis by simp
qed

theorem allocate_release_roundtrip_witness:
  "\<exists>p b c. frame_allocate_contiguous sample_allocator 3 1 = Some (Some p, b)
     \<and> frame_deallocate_contiguous b p 3 = (Ok (), c) \<and> free_set c = free_set sample_allocator"
proof -
  have "\<exists>p b. frame_allocate_contiguous sample_allocator 3 1 = Some (Some p, b)"
    using sample_allocator_wf
  proof (cases rule: frame_allocate_contiguous_cases[where count = 3 and alignment = 1])
    case (claimed f)
    then show ?thesis by (simp add: claim_run_def Let_def)
  next
    case refused
    have "aligned_run sample_allocator 3 1 4"
      by (auto simp: aligned_run_def sample_allocator_bits)
    moreover have "is_power_of_two_usize 1" by (auto simp: is_power_of_two_usize_def intro!: bexI[of _ 0])
    ultimately show ?thesis using refused(2) by auto
  qed
  then show ?thesis using allocate_release_roundtrip[OF sample_allocator_wf, of 3 1] by blast
qed

section \<open>The trait implementation\<close>

interpretation bitmap: frame_allocator bitmap_allocate_frame bitmap_deallocate_frame frame_wf
  "\<lambda>a. frame_address ` free_set a"
proof (unfold_locales, goal_cases)
  case (1 s)
  then show ?case by simp
next
  case (2 s f)
  then obtain g where "g < 2 ^ 52" "f = frame_address g"
    using free_set_small by blast
  then show ?case by (simp add: is_page_aligned_iff)
next
  case (3 s f t)
  from 3(1) show ?case
  proof (cases rule: frame_allocate_cases)
    case 1
    with 3(2) show ?thesis by (simp add: bitmap_allocate_frame_def)
  next
    case (2 g)
    note w = claim_wf[OF 3(1) 2(1) refl]
    have "frame_address ` (free_set s - {g}) = frame_address ` free_set s - {frame_address g}"
      using free_set_small[OF 3(1)] frame_address_inj 2(1) by blast
    moreover have "f = frame_address g" using 3(2) 2 by (simp add: bitmap_allocate_frame_def)
    ultimately show ?thesis
      using 3(2) 2 w(1,2) by (auto simp: bitmap_allocate_frame_def)
  qed
next
  case (4 s t)
  from 4(1) show ?case
    by (cases rule: frame_allocate_cases) (use 4(2) in \<open>simp_all add: bitmap_allocate_frame_def\<close>)
next
  case (5 s f)
  then show ?case
    by (cases rule: frame_deallocate_contiguous_cases[where p = f and count = 1])
      (use 5 release_wf(1)[of s f 1] in \<open>simp_all add: bitmap_deallocate_frame_def frame_deallocate_def\<close>)
next
  case (6 s f)
  from 6 show ?case
  proof (cases rule: frame_deallocate_contiguous_cases[where p = f and count = 1])
    case released
    then obtain b where b: "frame_deallocate_contiguous s f 1 = (Ok (), b)" by simp
    have "frame_address (unat f div 4096) = f"
      using released(1) by (simp add: releasable_def is_page_aligned_iff frame_address_div)
    then show ?thesis using release_wf(2)[OF 6 released(1) b] b
      by (auto simp: bitmap_deallocate_frame_def frame_deallocate_def)
  next
    case (refused e)
    then show ?thesis by (auto simp: bitmap_deallocate_frame_def frame_deallocate_def)
  qed
qed

text \<open>
  Allocating \<open>n\<close> frames in a row through the \<open>FrameAllocator\<close> trait yields
  pairwise distinct, page aligned frames taken from the free set, none of them reserved, and
  exactly as many as asked for unless memory runs out first.
\<close>

theorem bitmap_take_frames:
  assumes "frame_wf a" and "take_frames bitmap_allocate_frame n a = (ps, b)"
  shows "frame_wf b \<and> distinct ps \<and> length ps = min n (fa_free_frames a)
    \<and> (\<forall>p \<in> set ps. is_page_aligned p
         \<and> \<not> is_allocated a (unat p div 4096) \<and> \<not> is_reserved a (unat p div 4096))
    \<and> fa_free_frames b = fa_free_frames a - length ps"
proof -
  note t = bitmap.take_frames_sound[OF assms]
  note small = free_set_small[OF assms(1)]
  have inj: "inj_on frame_address (free_set a)" using small frame_address_inj by (simp add: inj_on_def)
  have "\<not> is_allocated a (unat p div 4096) \<and> \<not> is_reserved a (unat p div 4096)" if "p \<in> set ps" for p
  proof -
    from t that obtain g where g: "g \<in> free_set a" "p = frame_address g" by blast
    then show ?thesis using small free_not_reserved[OF assms(1)] by (auto simp: free_set_def)
  qed
  moreover have card: "card (frame_address ` free_set a) = fa_free_frames a"
    using assms(1) card_image[OF inj] by (simp add: frame_wf_def)
  moreover have "fa_free_frames b = fa_free_frames a - length ps"
  proof -
    have "inj_on frame_address (free_set b)"
      by (rule inj_onI) (use t free_set_small[of b] in \<open>simp add: frame_address_inj\<close>)
    then have "fa_free_frames b = card (frame_address ` free_set b)"
      using t card_image by (metis frame_wf_def)
    also have "\<dots> = card (frame_address ` free_set a) - card (set ps)"
      using t by (simp add: card_Diff_subset)
    finally show ?thesis using t card by (simp add: distinct_card)
  qed
  ultimately show ?thesis using t by simp
qed

theorem bitmap_take_frames_witness:
  "distinct (fst (take_frames bitmap_allocate_frame 9 sample_allocator))
   \<and> length (fst (take_frames bitmap_allocate_frame 9 sample_allocator)) = 6"
  using bitmap_take_frames[OF sample_allocator_wf prod.collapse[symmetric], of 9]
  by (simp add: sample_allocator_def)

end
