(* ===== verification/FramePool.thy ===== *)
theory FramePool
  imports Frames
begin

text \<open>
  The frame pool \<^verbatim>\<open>src/kernel/boulder/src/memory/frame_pool.rs\<close>: the bitmap allocator of \<open>Frames\<close>
  behind a spin lock, so that every method is one atomic step. Page tables, VT-d tables and DMA
  arenas all draw from it. The lemmas say what an allocation and a release do to the set of free
  frames, which is what its clients rely on.
\<close>

section \<open>The frame pool\<close>

definition pool_allocate :: "frame_state \<Rightarrow> physical_address option \<times> frame_state" where
  "pool_allocate p = frame_allocate p"

definition pool_allocate_contiguous :: "frame_state \<Rightarrow> nat \<Rightarrow> nat \<Rightarrow> (physical_address option \<times> frame_state) option" where
  "pool_allocate_contiguous p count alignment = frame_allocate_contiguous p count alignment"

text \<open>The search for a run of frames is a loop that always returns (\<open>allocate_contiguous_correct\<close>), so
  that callers may take its answer for granted.\<close>

definition pool_run :: "frame_state \<Rightarrow> nat \<Rightarrow> nat \<Rightarrow> physical_address option \<times> frame_state" where
  "pool_run p count alignment =
     (case pool_allocate_contiguous p count alignment of Some outcome \<Rightarrow> outcome | None \<Rightarrow> (None, p))"

definition pool_release :: "frame_state \<Rightarrow> physical_address \<Rightarrow> (frame_error + unit) \<times> frame_state" where
  "pool_release p frame = frame_deallocate p frame"

definition pool_release_contiguous :: "frame_state \<Rightarrow> physical_address \<Rightarrow> nat \<Rightarrow> (frame_error + unit) \<times> frame_state" where
  "pool_release_contiguous p first count = frame_deallocate_contiguous p first count"

section \<open>What the pool may do to an allocated frame\<close>

definition frame_of :: "physical_address \<Rightarrow> nat" where
  "frame_of p = unat p div 4096"

lemma pool_allocate_None: "frame_wf p \<Longrightarrow> pool_allocate p = (None, q) \<Longrightarrow> q = p"
  by (rule frame_allocate_cases[of p]) (auto simp: pool_allocate_def)

lemma pool_allocate_Some:
  assumes "frame_wf p" and "pool_allocate p = (Some a, q)"
  shows "frame_wf q" and "frame_of a \<in> free_set p" and "free_set q = free_set p - {frame_of a}"
    and "fa_frame_count q = fa_frame_count p" and "a = frame_address (frame_of a)" and "is_reserved q g = is_reserved p g"
proof -
  from assms obtain f where f: "f \<in> free_set p" "a = frame_address f"
    and q: "q = (set_allocated p f True)\<lparr>fa_free_frames := fa_free_frames p - 1, fa_next_search := (f + 1) mod fa_frame_count p\<rparr>"
    by (auto simp: pool_allocate_def elim: frame_allocate_cases)
  have "frame_of a = f" using free_set_small[OF assms(1) f(1)] f(2) by (simp add: frame_of_def)
  with claim_wf[OF assms(1) f(1) q] f show "frame_wf q" "frame_of a \<in> free_set p"
    "free_set q = free_set p - {frame_of a}" "fa_frame_count q = fa_frame_count p" "a = frame_address (frame_of a)"
    "is_reserved q g = is_reserved p g" by auto
qed

lemma pool_allocate_contiguous_Some:
  assumes "frame_wf p" and "pool_allocate_contiguous p n alignment = Some (r, q)"
  shows "frame_wf q" and "free_set q \<subseteq> free_set p" and "fa_frame_count q = fa_frame_count p"
    and "r = Some a \<Longrightarrow> {frame_of a ..< frame_of a + n} \<subseteq> free_set p" and "r = Some a \<Longrightarrow> a = frame_address (frame_of a)"
proof -
  have "frame_wf q \<and> free_set q \<subseteq> free_set p \<and> fa_frame_count q = fa_frame_count p
    \<and> (r = Some a \<longrightarrow> {frame_of a ..< frame_of a + n} \<subseteq> free_set p \<and> a = frame_address (frame_of a))"
    using assms(1)
  proof (cases rule: frame_allocate_contiguous_cases[of p n alignment])
    case (claimed f)
    then have run: "{f ..< f + n} \<subseteq> free_set p" by (auto simp: aligned_run_def free_set_def)
    with claimed(2) have "f \<in> free_set p" by auto
    from free_set_small[OF assms(1) this] have "frame_of (frame_address f) = f" by (simp add: frame_of_def)
    with claimed run claim_run_wf[OF assms(1) claimed(4,2), of r q] assms(2) show ?thesis
      by (auto simp: pool_allocate_contiguous_def)
  qed (use assms in \<open>auto simp: pool_allocate_contiguous_def\<close>)
  then show "frame_wf q" "free_set q \<subseteq> free_set p" "fa_frame_count q = fa_frame_count p"
    "r = Some a \<Longrightarrow> {frame_of a ..< frame_of a + n} \<subseteq> free_set p" "r = Some a \<Longrightarrow> a = frame_address (frame_of a)" by auto
qed

lemma released_reserved: "fa_reserved (fold (\<lambda>index a. set_allocated a index False) is p) = fa_reserved p"
  by (induction "is" arbitrary: p) auto

lemma pool_release_contiguous_cases:
  assumes "frame_wf p" and "pool_release_contiguous p a n = (r, q)"
  shows "frame_wf q" and "fa_frame_count q = fa_frame_count p"
    and "r = Err e \<Longrightarrow> q = p" and "free_set q \<subseteq> free_set p \<union> {frame_of a ..< frame_of a + n}" and "is_reserved q = is_reserved p"
proof -
  have "frame_wf q \<and> fa_frame_count q = fa_frame_count p \<and> (r = Err e \<longrightarrow> q = p)
    \<and> free_set q \<subseteq> free_set p \<union> {frame_of a ..< frame_of a + n} \<and> is_reserved q = is_reserved p"
    using assms(1)
  proof (cases rule: frame_deallocate_contiguous_cases[of p a n])
    case released
    with assms(2) have "r = Ok ()" "is_reserved q = is_reserved p"
      by (auto simp: pool_release_contiguous_def is_reserved_def released_reserved fun_eq_iff)
    with release_wf[OF assms(1) released(1), of q] assms(2) show ?thesis
      by (simp add: pool_release_contiguous_def frame_of_def)
  qed (use assms in \<open>auto simp: pool_release_contiguous_def\<close>)
  then show "frame_wf q" "fa_frame_count q = fa_frame_count p" "r = Err e \<Longrightarrow> q = p"
    "free_set q \<subseteq> free_set p \<union> {frame_of a ..< frame_of a + n}" "is_reserved q = is_reserved p" by auto
qed

lemma pool_release_contiguous_1: "pool_release p a = pool_release_contiguous p a 1"
  by (simp add: pool_release_def pool_release_contiguous_def frame_deallocate_def)

lemma pool_run_None: "frame_wf p \<Longrightarrow> pool_run p n 1 = (None, q) \<Longrightarrow> q = p"
  by (rule frame_allocate_contiguous_cases[of p n 1]) (auto simp: pool_run_def pool_allocate_contiguous_def dest: claim_run_wf(1))

lemma pool_run_Some:
  assumes "frame_wf p" and "pool_run p n alignment = (Some a, q)"
  shows "frame_wf q" and "{frame_of a ..< frame_of a + n} \<subseteq> free_set p"
    and "free_set q = free_set p - {frame_of a ..< frame_of a + n}" and "fa_frame_count q = fa_frame_count p"
    and "is_reserved q g = is_reserved p g" and "a = frame_address (frame_of a)" and "0 < n"
    and "frame_of a + n \<le> fa_frame_count p" and "frame_of a < 2 ^ 52"
proof -
  obtain f where cl: "claim_run p f n = (Some a, q)" "0 < n" "aligned_run p n alignment f"
    using assms(2) by (cases rule: frame_allocate_contiguous_cases[OF assms(1), of n alignment, case_names claimed refused])
      (auto simp: pool_run_def pool_allocate_contiguous_def)
  note cr = claim_run_wf[OF assms(1) cl(3,2,1)]
  have run: "{f ..< f + n} \<subseteq> free_set p" "f + n \<le> fa_frame_count p" using cl(3) by (auto simp: aligned_run_def free_set_def)
  with cl(2) have "f \<in> free_set p" by auto
  from free_set_small[OF assms(1) this] cr(1) have f: "frame_of a = f" "f < 2 ^ 52" by (auto simp: frame_of_def)
  from cr cl(2) run f show "frame_wf q" "{frame_of a ..< frame_of a + n} \<subseteq> free_set p"
    "free_set q = free_set p - {frame_of a ..< frame_of a + n}" "fa_frame_count q = fa_frame_count p"
    "is_reserved q g = is_reserved p g" "a = frame_address (frame_of a)" "0 < n"
    "frame_of a + n \<le> fa_frame_count p" "frame_of a < 2 ^ 52" by auto
qed

lemma pool_run_one:
  assumes "frame_wf p" and "free_set p \<noteq> {}"
  obtains a q where "pool_run p 1 1 = (Some a, q)"
proof -
  have one: "is_power_of_two_usize 1" by (auto simp: is_power_of_two_usize_def intro!: bexI[of _ 0])
  obtain f where "f \<in> free_set p" using assms(2) by blast
  then have "aligned_run p 1 1 f" by (auto simp: aligned_run_def free_set_def)
  with one that show thesis
    by (cases rule: frame_allocate_contiguous_cases[OF assms(1), of 1 1, case_names claimed refused])
      (auto simp: pool_run_def pool_allocate_contiguous_def claim_run_def Let_def)
qed

lemma pool_release_run:
  assumes "frame_wf p" and "0 < n" and "is_page_aligned a" and "frame_of a + n \<le> fa_frame_count p"
    and "\<And>g. g \<in> {frame_of a ..< frame_of a + n} \<Longrightarrow> g \<notin> free_set p \<and> \<not> is_reserved p g"
  obtains q where "pool_release_contiguous p a n = (Ok (), q)" and "frame_wf q"
    and "free_set q = free_set p \<union> {frame_of a ..< frame_of a + n}" and "fa_frame_count q = fa_frame_count p"
    and "is_reserved q = is_reserved p"
proof -
  have rel: "releasable p a n" using assms(2-5) by (auto simp: releasable_def frame_of_def free_set_def)
  obtain q where q: "pool_release_contiguous p a n = (Ok (), q)"
    "q = (fold (\<lambda>index a. set_allocated a index False) [unat a div 4096 ..< unat a div 4096 + n] p)
          \<lparr>fa_free_frames := fa_free_frames p + n, fa_next_search := unat a div 4096\<rparr>"
    using rel by (cases rule: frame_deallocate_contiguous_cases[OF assms(1), of a n, case_names released refused]) (auto simp: pool_release_contiguous_def)
  have "is_reserved q = is_reserved p" by (simp add: q(2) is_reserved_def fun_eq_iff released_reserved)
  with that q(1) release_wf[OF assms(1) rel, of q] show thesis by (simp add: pool_release_contiguous_def frame_of_def)
qed

end
