(* ===== verification/VtdSlpt.thy ===== *)
theory VtdSlpt
  imports Prelude
begin

text \<open>
  The second-level page tables of the Intel VT-d remapper,
  \<^verbatim>\<open>src/kernel/boulder/src/hw/vtd_slpt.rs\<close>. The page memory and the invalidator are traits in
  the source: here a page memory is a record of functions on a memory state \<open>'m\<close>, and the
  invalidator a function on a state \<open>'i\<close>, and every operation passes both states along on
  all of its branches. What the source demands of a page memory is the locale \<open>slpt_page_memory\<close>,
  stated over the heap of table frames the memory makes visible. The lemmas show that, whatever
  fails along the way, a page walk by the hardware finds exactly the mappings of the ledger.
  Levels, positions and table indices are \<open>nat\<close>; an index is below 512 and fits the \<open>u16\<close> the
  source stores it in.
\<close>

abbreviation (input) SLPT_PAGE_SHIFT :: nat where "SLPT_PAGE_SHIFT \<equiv> 12"
abbreviation (input) SLPT_PAGE_SIZE :: u64 where "SLPT_PAGE_SIZE \<equiv> 0x1000"
abbreviation (input) ENTRIES_PER_TABLE :: nat where "ENTRIES_PER_TABLE \<equiv> 512"
abbreviation (input) MAXIMUM_LEVELS :: nat where "MAXIMUM_LEVELS \<equiv> 5"
abbreviation (input) PHYSICAL_PAGE_MASK :: u64 where "PHYSICAL_PAGE_MASK \<equiv> 0x000ffffffffff000"
abbreviation (input) PERMISSION_MASK :: u64 where "PERMISSION_MASK \<equiv> 3"

section \<open>Interfaces\<close>

type_synonym slpt_frame = u64

definition from_physical_address :: "u64 \<Rightarrow> slpt_frame option" where
  "from_physical_address address =
     (if address \<noteq> 0 \<and> address AND (SLPT_PAGE_SIZE - 1) = 0 \<and> address AND NOT PHYSICAL_PAGE_MASK = 0
      then Some address else None)"

record 'm page_memory =
  pm_allocate_table :: "'m \<Rightarrow> (u64 + slpt_frame) \<times> 'm"
  pm_zero_table :: "slpt_frame \<Rightarrow> 'm \<Rightarrow> (u64 + unit) \<times> 'm"
  pm_read_entry :: "'m \<Rightarrow> slpt_frame \<Rightarrow> nat \<Rightarrow> u64 + u64"
  pm_write_entry :: "slpt_frame \<Rightarrow> nat \<Rightarrow> u64 \<Rightarrow> 'm \<Rightarrow> (u64 + unit) \<times> 'm"
  pm_release_table :: "slpt_frame \<Rightarrow> 'm \<Rightarrow> (u64 + unit) \<times> 'm"

type_synonym 'i invalidator = "u64 \<Rightarrow> 'i \<Rightarrow> (u64 + unit) \<times> 'i"

section \<open>State\<close>

datatype slpt_fault = InvalidAddressWidth | UnsupportedAddressWidth | InvalidRoot | RootNotEmpty | InvalidIova
  | InvalidPhysicalAddress | InvalidPermissions | SlptCapacityExhausted | IovaOverlap | PhysicalAlias | ForeignEntry
  | MalformedEntry | FrameAlias | UnknownMapping | InvalidPhase | StaleReceipt | EntryMismatch
  | MemoryFault u64 | RollbackFailed | PoisonedFault

record slpt_config =
  cfg_supported_adjusted_guest_widths :: u8
  cfg_maximum_guest_address_width :: u8
  cfg_address_width_encoding :: u8

definition adjusted_guest_address_width :: "slpt_config \<Rightarrow> nat option" where
  "adjusted_guest_address_width c =
     (if cfg_address_width_encoding c = 0 then Some 30 else if cfg_address_width_encoding c = 1 then Some 39
      else if cfg_address_width_encoding c = 2 then Some 48 else if cfg_address_width_encoding c = 3 then Some 57
      else None)"

definition config_validate :: "slpt_config \<Rightarrow> slpt_fault + nat" where
  "config_validate c =
     (case adjusted_guest_address_width c of
        None \<Rightarrow> Err InvalidAddressWidth
      | Some width \<Rightarrow>
          if cfg_supported_adjusted_guest_widths c AND push_bit (unat (cfg_address_width_encoding c)) 1 = 0
             \<or> cfg_maximum_guest_address_width c < 30 \<or> cfg_maximum_guest_address_width c > 64
             \<or> width > unat (cfg_maximum_guest_address_width c)
          then Err UnsupportedAddressWidth
          else Ok width)"

record dma_permissions =
  dp_read :: bool
  dp_write :: bool

definition permission_bits :: "dma_permissions \<Rightarrow> slpt_fault + u64" where
  "permission_bits p =
     (let bits = (if dp_read p then 1 else 0) OR (if dp_write p then 2 else 0) in
      if bits = 0 then Err InvalidPermissions else Ok bits)"

datatype mapping_phase = AwaitingMapInvalidation | Active | AwaitingUnmapInvalidation | AwaitingCleanup

datatype slpt_status = Operational | Poisoned

record mapping_handle =
  mh_slot :: u16
  mh_generation :: u32

datatype pending_cause = Invalidation u64 | Cleanup u64

datatype map_outcome = MapActive mapping_handle | MapPending mapping_handle pending_cause

datatype unmap_outcome = UnmapComplete | UnmapPending mapping_handle pending_cause

record page_path =
  pa_frames :: "slpt_frame list"
  pa_indices :: "nat list"
  pa_depth :: nat

definition path_empty :: "nat \<Rightarrow> page_path" where
  "path_empty depth = \<lparr>pa_frames = replicate MAXIMUM_LEVELS 0, pa_indices = replicate MAXIMUM_LEVELS 0, pa_depth = depth\<rparr>"

record mapping_record =
  mr_iova :: u64
  mr_physical_address :: u64
  mr_leaf :: u64
  mr_path :: page_path
  mr_cleanup_depth :: nat
  mr_phase :: mapping_phase

record mapping_slot =
  ms_generation :: u32
  ms_record :: "mapping_record option"
  ms_retired :: bool

definition mapping_slot_EMPTY :: mapping_slot where
  "mapping_slot_EMPTY = \<lparr>ms_generation = 1, ms_record = None, ms_retired = False\<rparr>"

record new_link =
  nl_parent :: slpt_frame
  nl_index :: nat
  nl_child :: slpt_frame

record slpt =
  sl_root :: slpt_frame
  sl_adjusted_width :: nat
  sl_levels :: nat
  sl_slots :: "mapping_slot list"
  sl_state :: slpt_status

definition poison :: "slpt \<Rightarrow> slpt" where
  "poison s = s\<lparr>sl_state := Poisoned\<rparr>"

section \<open>Attaching a root\<close>

text \<open>Reads the entries \<open>is\<close> of a table in turn; the first nonzero entry or failure ends the scan.\<close>

fun entries_zero :: "'m page_memory \<Rightarrow> 'm \<Rightarrow> slpt_frame \<Rightarrow> nat list \<Rightarrow> u64 + bool" where
  "entries_zero M m frame [] = Ok True"
| "entries_zero M m frame (i # is) =
     (case pm_read_entry M m frame i of
        Err e \<Rightarrow> Err e
      | Ok entry \<Rightarrow> if entry \<noteq> 0 then Ok False else entries_zero M m frame is)"

definition table_is_empty :: "'m page_memory \<Rightarrow> 'm \<Rightarrow> slpt_frame \<Rightarrow> u64 + bool" where
  "table_is_empty M m frame = entries_zero M m frame [0 ..< ENTRIES_PER_TABLE]"

definition attach :: "nat \<Rightarrow> 'm page_memory \<Rightarrow> 'm \<Rightarrow> slpt_frame \<Rightarrow> slpt_config \<Rightarrow> slpt_fault + slpt" where
  "attach MAPPINGS M m root config =
     (if MAPPINGS = 0 \<or> MAPPINGS > 65535 \<or> root = 0 then Err InvalidRoot
      else
        (case config_validate config of
           Err e \<Rightarrow> Err e
         | Ok width \<Rightarrow>
             (case entries_zero M m root [0 ..< ENTRIES_PER_TABLE] of
                Err e \<Rightarrow> Err (MemoryFault e)
              | Ok clear \<Rightarrow>
                  if \<not> clear then Err RootNotEmpty
                  else Ok \<lparr>sl_root = root, sl_adjusted_width = width, sl_levels = (width - SLPT_PAGE_SHIFT + 8) div 9,
                           sl_slots = replicate MAPPINGS mapping_slot_EMPTY, sl_state = Operational\<rparr>)))"

section \<open>Checks\<close>

definition index_at :: "slpt \<Rightarrow> u64 \<Rightarrow> nat \<Rightarrow> nat" where
  "index_at s iova pos =
     (let remaining_levels = sl_levels s - 1 - pos in
      unat (drop_bit (SLPT_PAGE_SHIFT + remaining_levels * 9) iova AND 0x1ff))"

definition validate_iova :: "slpt \<Rightarrow> u64 \<Rightarrow> slpt_fault + unit" where
  "validate_iova s iova =
     (if iova AND (SLPT_PAGE_SIZE - 1) \<noteq> 0 then Err InvalidIova
      else
        (case checked_add iova (SLPT_PAGE_SIZE - 1) of
           None \<Rightarrow> Err InvalidIova
         | Some end \<Rightarrow>
             if sl_adjusted_width s < 64 \<and> end \<ge> push_bit (sl_adjusted_width s) 1 then Err InvalidIova else Ok ()))"

definition frame_is_known :: "slpt \<Rightarrow> slpt_frame \<Rightarrow> bool" where
  "frame_is_known s frame \<longleftrightarrow> frame = sl_root s \<or>
     list_ex (\<lambda>slot. case ms_record slot of
         None \<Rightarrow> False
       | Some r \<Rightarrow> frame \<in> set (take (pa_depth (mr_path r) - mr_cleanup_depth r) (pa_frames (mr_path r)))) (sl_slots s)"

definition record_index :: "slpt \<Rightarrow> mapping_handle \<Rightarrow> slpt_fault + nat" where
  "record_index s handle =
     (let index = unat (mh_slot handle) in
      if index \<ge> length (sl_slots s) then Err UnknownMapping
      else if ms_generation (sl_slots s ! index) \<noteq> mh_generation handle \<or> ms_record (sl_slots s ! index) = None
      then Err UnknownMapping
      else Ok index)"

definition mapping_phase_of :: "slpt \<Rightarrow> mapping_handle \<Rightarrow> slpt_fault + mapping_phase" where
  "mapping_phase_of s handle =
     (case record_index s handle of
        Err e \<Rightarrow> Err e
      | Ok index \<Rightarrow>
          (case ms_record (sl_slots s ! index) of None \<Rightarrow> Err UnknownMapping | Some r \<Rightarrow> Ok (mr_phase r)))"

definition retire_slot :: "nat \<Rightarrow> slpt \<Rightarrow> slpt" where
  "retire_slot index s =
     (let slot = (sl_slots s ! index)\<lparr>ms_record := None\<rparr>;
          slot = (if ms_generation slot = - 1 then slot\<lparr>ms_retired := True\<rparr>
                  else slot\<lparr>ms_generation := ms_generation slot + 1\<rparr>)
      in s\<lparr>sl_slots := (sl_slots s)[index := slot]\<rparr>)"

definition decode_table_pointer :: "u64 \<Rightarrow> slpt_fault + slpt_frame" where
  "decode_table_pointer entry =
     (if entry AND PERMISSION_MASK \<noteq> PERMISSION_MASK
         \<or> entry AND NOT (PHYSICAL_PAGE_MASK OR PERMISSION_MASK) \<noteq> 0
         \<or> entry AND PHYSICAL_PAGE_MASK = 0
      then Err MalformedEntry
      else (case from_physical_address (entry AND PHYSICAL_PAGE_MASK) of None \<Rightarrow> Err MalformedEntry | Some f \<Rightarrow> Ok f))"

definition validate_mapped_physical_address :: "u64 \<Rightarrow> slpt_fault + unit" where
  "validate_mapped_physical_address address =
     (if address AND (SLPT_PAGE_SIZE - 1) \<noteq> 0 \<or> address AND NOT PHYSICAL_PAGE_MASK \<noteq> 0
      then Err InvalidPhysicalAddress else Ok ())"

text \<open>Replacing the record of a slot, for \<open>record.as_mut().unwrap()\<close>.\<close>

definition update_record :: "nat \<Rightarrow> (mapping_record \<Rightarrow> mapping_record) \<Rightarrow> slpt \<Rightarrow> slpt" where
  "update_record index f s =
     s\<lparr>sl_slots := (sl_slots s)[index := (sl_slots s ! index)\<lparr>ms_record := map_option f (ms_record (sl_slots s ! index))\<rparr>]\<rparr>"

section \<open>Building a path\<close>

text \<open>A new table is cleared and linked into its parent; it is released again where that fails.\<close>

definition link_table :: "'m page_memory \<Rightarrow> slpt \<Rightarrow> slpt_frame \<Rightarrow> slpt_frame \<Rightarrow> nat \<Rightarrow> new_link list \<Rightarrow> 'm
    \<Rightarrow> (slpt_fault + slpt_frame) \<times> slpt \<times> 'm \<times> new_link list" where
  "link_table M s child parent index links m =
     (case pm_zero_table M child m of
        (Err e, m) \<Rightarrow>
          (case pm_release_table M child m of
             (Err _, m) \<Rightarrow> (Err RollbackFailed, s, m, links)
           | (Ok _, m) \<Rightarrow> (Err (MemoryFault e), s, m, links))
      | (Ok _, m) \<Rightarrow>
          (case pm_write_entry M parent index (child OR PERMISSION_MASK) m of
             (Err e, m) \<Rightarrow>
               (case pm_release_table M child m of
                  (Err _, m) \<Rightarrow> (Err RollbackFailed, s, m, links)
                | (Ok _, m) \<Rightarrow> (Err (MemoryFault e), s, m, links))
           | (Ok _, m) \<Rightarrow>
               (Ok child, s, m, links @ [\<lparr>nl_parent = parent, nl_index = index, nl_child = child\<rparr>])))"

text \<open>The table an entry points to; a zero entry is given a new table, which is recorded as a new
  link.\<close>

definition child_table :: "'m page_memory \<Rightarrow> slpt \<Rightarrow> 'm \<Rightarrow> page_path \<Rightarrow> nat \<Rightarrow> slpt_frame \<Rightarrow> nat \<Rightarrow> u64 \<Rightarrow> new_link list
    \<Rightarrow> (slpt_fault + slpt_frame) \<times> slpt \<times> 'm \<times> new_link list" where
  "child_table M s m path pos parent index entry links =
     (if entry = 0 then
        (case pm_allocate_table M m of
           (Err e, m) \<Rightarrow> (Err (MemoryFault e), s, m, links)
         | (Ok child, m) \<Rightarrow>
             if child = 0 \<or> frame_is_known s child \<or> child \<in> set (take (pos + 1) (pa_frames path))
             then (Err FrameAlias, poison s, m, links)
             else link_table M s child parent index links m)
      else
        (case decode_table_pointer entry of
           Ok child \<Rightarrow> if frame_is_known s child then (Ok child, s, m, links) else (Err ForeignEntry, poison s, m, links)
         | Err e \<Rightarrow> (Err e, poison s, m, links)))"

fun build_path :: "'m page_memory \<Rightarrow> u64 \<Rightarrow> nat list \<Rightarrow> slpt \<Rightarrow> 'm \<Rightarrow> page_path \<Rightarrow> new_link list
    \<Rightarrow> (slpt_fault + unit) \<times> slpt \<times> 'm \<times> page_path \<times> new_link list" where
  "build_path M iova [] s m path links = (Ok (), s, m, path, links)"
| "build_path M iova (pos # rest) s m path links =
     (let index = index_at s iova pos;
          path = path\<lparr>pa_indices := (pa_indices path)[pos := index]\<rparr>
      in if pos + 1 = sl_levels s then (Ok (), s, m, path, links)
         else
           (let parent = pa_frames path ! pos in
            case pm_read_entry M m parent index of
              Err e \<Rightarrow> (Err (MemoryFault e), s, m, path, links)
            | Ok entry \<Rightarrow>
                (case child_table M s m path pos parent index entry links of
                   (Err e, s, m, links) \<Rightarrow> (Err e, s, m, path, links)
                 | (Ok child, s, m, links) \<Rightarrow>
                     if child \<in> set (take (pos + 1) (pa_frames path)) then (Err MalformedEntry, poison s, m, path, links)
                     else build_path M iova rest s m (path\<lparr>pa_frames := (pa_frames path)[pos + 1 := child]\<rparr>) links)))"

text \<open>Takes the links given, newest first, out of the tables again.\<close>

fun rollback_links :: "'m page_memory \<Rightarrow> new_link list \<Rightarrow> 'm \<Rightarrow> (slpt_fault + unit) \<times> 'm" where
  "rollback_links M [] m = (Ok (), m)"
| "rollback_links M (link # links) m =
     (case pm_write_entry M (nl_parent link) (nl_index link) 0 m of
        (Err e, m) \<Rightarrow> (Err (MemoryFault e), m)
      | (Ok _, m) \<Rightarrow>
          (case pm_release_table M (nl_child link) m of
             (Err e, m) \<Rightarrow>
               (case pm_write_entry M (nl_parent link) (nl_index link) (nl_child link OR PERMISSION_MASK) m of
                  (Err _, m) \<Rightarrow> (Err RollbackFailed, m)
                | (Ok _, m) \<Rightarrow> (Err (MemoryFault e), m))
           | (Ok _, m) \<Rightarrow> rollback_links M links m))"

definition rollback_new_links :: "'m page_memory \<Rightarrow> new_link list \<Rightarrow> 'm \<Rightarrow> (slpt_fault + unit) \<times> 'm" where
  "rollback_new_links M links m = rollback_links M (rev links) m"

section \<open>Mapping\<close>

text \<open>Undoes the new links and returns the error; a failure to undo poisons the ledger.\<close>

definition abort_map :: "'m page_memory \<Rightarrow> new_link list \<Rightarrow> slpt_fault \<Rightarrow> slpt \<Rightarrow> slpt \<Rightarrow> 'm
    \<Rightarrow> (slpt_fault + map_outcome) \<times> slpt \<times> 'm" where
  "abort_map M links error s s' m =
     (case rollback_new_links M links m of
        (Err _, m) \<Rightarrow> (Err RollbackFailed, poison s, m)
      | (Ok _, m) \<Rightarrow> (Err error, s', m))"

text \<open>The part of \<open>map_page\<close> after the path has been built: the leaf is written, the record is
  entered into the slot, and the translation caches are invalidated.\<close>

definition publish_leaf :: "'m page_memory \<Rightarrow> 'i invalidator \<Rightarrow> u64 \<Rightarrow> u64 \<Rightarrow> u64 \<Rightarrow> nat \<Rightarrow> page_path \<Rightarrow> new_link list
    \<Rightarrow> slpt \<Rightarrow> 'm \<Rightarrow> 'i \<Rightarrow> (slpt_fault + map_outcome) \<times> slpt \<times> 'm \<times> 'i" where
  "publish_leaf M I iova physical_address bits slot_index path links s m i =
     (let leaf_table = pa_frames path ! (sl_levels s - 1);
          leaf_index = pa_indices path ! (sl_levels s - 1)
      in case pm_read_entry M m leaf_table leaf_index of
           Err error \<Rightarrow> (case abort_map M links (MemoryFault error) s s m of (r, s, m) \<Rightarrow> (r, s, m, i))
         | Ok existing_leaf \<Rightarrow>
             if existing_leaf \<noteq> 0 then (case abort_map M links ForeignEntry s (poison s) m of (r, s, m) \<Rightarrow> (r, s, m, i))
             else
               (let leaf = physical_address OR bits in
                case pm_write_entry M leaf_table leaf_index leaf m of
                  (Err error, m) \<Rightarrow> (case abort_map M links (MemoryFault error) s s m of (r, s, m) \<Rightarrow> (r, s, m, i))
                | (Ok _, m) \<Rightarrow>
                    (let slot = sl_slots s ! slot_index;
                         handle = \<lparr>mh_slot = of_nat slot_index, mh_generation = ms_generation slot\<rparr>;
                         r = \<lparr>mr_iova = iova, mr_physical_address = physical_address, mr_leaf = leaf, mr_path = path,
                              mr_cleanup_depth = 0, mr_phase = AwaitingMapInvalidation\<rparr>;
                         s = s\<lparr>sl_slots := (sl_slots s)[slot_index := slot\<lparr>ms_record := Some r\<rparr>]\<rparr>
                     in case I iova i of
                          (Ok _, i) \<Rightarrow>
                            (Ok (MapActive handle), update_record slot_index (\<lambda>r. r\<lparr>mr_phase := Active\<rparr>) s, m, i)
                        | (Err error, i) \<Rightarrow> (Ok (MapPending handle (Invalidation error)), s, m, i))))"

definition map_page :: "'m page_memory \<Rightarrow> 'i invalidator \<Rightarrow> u64 \<Rightarrow> u64 \<Rightarrow> dma_permissions \<Rightarrow> slpt \<Rightarrow> 'm \<Rightarrow> 'i
    \<Rightarrow> (slpt_fault + map_outcome) \<times> slpt \<times> 'm \<times> 'i" where
  "map_page M I iova physical_address permissions s m i =
     (if sl_state s \<noteq> Operational then (Err PoisonedFault, s, m, i)
      else
        (case validate_iova s iova of Err e \<Rightarrow> (Err e, s, m, i) | Ok _ \<Rightarrow>
        (case validate_mapped_physical_address physical_address of Err e \<Rightarrow> (Err e, s, m, i) | Ok _ \<Rightarrow>
        (case permission_bits permissions of Err e \<Rightarrow> (Err e, s, m, i) | Ok bits \<Rightarrow>
        (case List.find (\<lambda>r. mr_iova r = iova \<or> mr_physical_address r = physical_address)
                (List.map_filter ms_record (sl_slots s)) of
           Some r \<Rightarrow> (Err (if mr_iova r = iova then IovaOverlap else PhysicalAlias), s, m, i)
         | None \<Rightarrow>
        (case position (\<lambda>slot. ms_record slot = None \<and> \<not> ms_retired slot) (sl_slots s) of
           None \<Rightarrow> (Err SlptCapacityExhausted, s, m, i)
         | Some slot_index \<Rightarrow>
        (let path = path_empty (sl_levels s);
             path = path\<lparr>pa_frames := (pa_frames path)[0 := sl_root s]\<rparr>
         in case build_path M iova [0 ..< sl_levels s] s m path [] of
              (Err error, s, m, path, links) \<Rightarrow>
                (case abort_map M links error s (if error = RollbackFailed then poison s else s) m of
                   (r, s, m) \<Rightarrow> (r, s, m, i))
            | (Ok _, s, m, path, links) \<Rightarrow> publish_leaf M I iova physical_address bits slot_index path links s m i)))))))"

definition finish_map :: "'i invalidator \<Rightarrow> mapping_handle \<Rightarrow> slpt \<Rightarrow> 'i \<Rightarrow> (slpt_fault + map_outcome) \<times> slpt \<times> 'i" where
  "finish_map I receipt s i =
     (if sl_state s \<noteq> Operational then (Err PoisonedFault, s, i)
      else
        (case record_index s receipt of Err e \<Rightarrow> (Err e, s, i) | Ok index \<Rightarrow>
        (case ms_record (sl_slots s ! index) of None \<Rightarrow> (Err UnknownMapping, s, i) | Some r \<Rightarrow>
         if mr_phase r \<noteq> AwaitingMapInvalidation then (Err StaleReceipt, s, i)
         else
           (case I (mr_iova r) i of
              (Ok _, i) \<Rightarrow> (Ok (MapActive receipt), update_record index (\<lambda>r. r\<lparr>mr_phase := Active\<rparr>) s, i)
            | (Err error, i) \<Rightarrow> (Ok (MapPending receipt (Invalidation error)), s, i)))))"

section \<open>Unmapping\<close>

datatype reclaim_error = ReclaimMemory u64 | ReclaimInvalidation u64 | ReclaimFatal

text \<open>One round of the reclaim loop: \<open>Ok True\<close> when a table was released and the loop goes on,
  \<open>Ok False\<close> when it returns.\<close>

definition reclaim_round :: "'m page_memory \<Rightarrow> 'i invalidator \<Rightarrow> mapping_record \<Rightarrow> 'm \<Rightarrow> 'i
    \<Rightarrow> (reclaim_error + bool) \<times> 'm \<times> 'i" where
  "reclaim_round M I r m i =
     (let child_position = pa_depth (mr_path r) - 1 - mr_cleanup_depth r;
          child = pa_frames (mr_path r) ! child_position
      in case table_is_empty M m child of
           Err e \<Rightarrow> (Err (ReclaimMemory e), m, i)
         | Ok clear \<Rightarrow>
             if \<not> clear then (Ok False, m, i)
             else
               (let parent_position = child_position - 1;
                    parent = pa_frames (mr_path r) ! parent_position;
                    parent_index = pa_indices (mr_path r) ! parent_position;
                    pointer = child OR PERMISSION_MASK
                in case pm_read_entry M m parent parent_index of
                     Err e \<Rightarrow> (Err (ReclaimMemory e), m, i)
                   | Ok entry \<Rightarrow>
                       if entry \<noteq> pointer then (Err ReclaimFatal, m, i)
                       else
                         (case pm_write_entry M parent parent_index 0 m of
                            (Err e, m) \<Rightarrow> (Err (ReclaimMemory e), m, i)
                          | (Ok _, m) \<Rightarrow>
                              (case I (mr_iova r) i of
                                 (Err e, i) \<Rightarrow>
                                   (case pm_write_entry M parent parent_index pointer m of
                                      (Err _, m) \<Rightarrow> (Err ReclaimFatal, m, i)
                                    | (Ok _, m) \<Rightarrow> (Err (ReclaimInvalidation e), m, i))
                               | (Ok _, i) \<Rightarrow>
                                   (case pm_release_table M child m of
                                      (Err e, m) \<Rightarrow>
                                        (case pm_write_entry M parent parent_index pointer m of
                                           (Err _, m) \<Rightarrow> (Err ReclaimFatal, m, i)
                                         | (Ok _, m) \<Rightarrow> (Err (ReclaimMemory e), m, i))
                                    | (Ok _, m) \<Rightarrow> (Ok True, m, i))))))"

text \<open>The loop runs while \<open>released + 1 < depth\<close>; every round that goes on raises \<open>released\<close> by
  one, so the number of rounds left is the recursion argument.\<close>

fun reclaim_loop :: "'m page_memory \<Rightarrow> 'i invalidator \<Rightarrow> nat \<Rightarrow> nat \<Rightarrow> slpt \<Rightarrow> 'm \<Rightarrow> 'i
    \<Rightarrow> (reclaim_error + unit) \<times> slpt \<times> 'm \<times> 'i" where
  "reclaim_loop M I 0 slot_index s m i = (Ok (), s, m, i)"
| "reclaim_loop M I (Suc rounds) slot_index s m i =
     (case ms_record (sl_slots s ! slot_index) of
        None \<Rightarrow> (Ok (), s, m, i)
      | Some r \<Rightarrow>
          (case reclaim_round M I r m i of
             (Err e, m, i) \<Rightarrow> (Err e, s, m, i)
           | (Ok goes_on, m, i) \<Rightarrow>
               if \<not> goes_on then (Ok (), s, m, i)
               else reclaim_loop M I rounds slot_index
                      (update_record slot_index (\<lambda>r. r\<lparr>mr_cleanup_depth := mr_cleanup_depth r + 1\<rparr>) s) m i))"

definition reclaim_empty_tables :: "'m page_memory \<Rightarrow> 'i invalidator \<Rightarrow> nat \<Rightarrow> slpt \<Rightarrow> 'm \<Rightarrow> 'i
    \<Rightarrow> (reclaim_error + unit) \<times> slpt \<times> 'm \<times> 'i" where
  "reclaim_empty_tables M I slot_index s m i =
     (case ms_record (sl_slots s ! slot_index) of
        None \<Rightarrow> (Ok (), s, m, i)
      | Some r \<Rightarrow> reclaim_loop M I (pa_depth (mr_path r) - 1 - mr_cleanup_depth r) slot_index s m i)"

definition finish_cleanup :: "'m page_memory \<Rightarrow> 'i invalidator \<Rightarrow> mapping_handle \<Rightarrow> nat \<Rightarrow> slpt \<Rightarrow> 'm \<Rightarrow> 'i
    \<Rightarrow> (slpt_fault + unmap_outcome) \<times> slpt \<times> 'm \<times> 'i" where
  "finish_cleanup M I receipt index s m i =
     (case reclaim_empty_tables M I index s m i of
        (Ok _, s, m, i) \<Rightarrow> (Ok UnmapComplete, retire_slot index s, m, i)
      | (Err (ReclaimMemory error), s, m, i) \<Rightarrow> (Ok (UnmapPending receipt (Cleanup error)), s, m, i)
      | (Err (ReclaimInvalidation error), s, m, i) \<Rightarrow> (Ok (UnmapPending receipt (Invalidation error)), s, m, i)
      | (Err ReclaimFatal, s, m, i) \<Rightarrow> (Err RollbackFailed, poison s, m, i))"

definition finish_unmap :: "'m page_memory \<Rightarrow> 'i invalidator \<Rightarrow> mapping_handle \<Rightarrow> slpt \<Rightarrow> 'm \<Rightarrow> 'i
    \<Rightarrow> (slpt_fault + unmap_outcome) \<times> slpt \<times> 'm \<times> 'i" where
  "finish_unmap M I receipt s m i =
     (if sl_state s \<noteq> Operational then (Err PoisonedFault, s, m, i)
      else
        (case record_index s receipt of Err e \<Rightarrow> (Err e, s, m, i) | Ok index \<Rightarrow>
        (case ms_record (sl_slots s ! index) of None \<Rightarrow> (Err UnknownMapping, s, m, i) | Some r \<Rightarrow>
         if mr_phase r = AwaitingUnmapInvalidation then
           (case I (mr_iova r) i of
              (Err error, i) \<Rightarrow> (Ok (UnmapPending receipt (Invalidation error)), s, m, i)
            | (Ok _, i) \<Rightarrow>
                finish_cleanup M I receipt index (update_record index (\<lambda>r. r\<lparr>mr_phase := AwaitingCleanup\<rparr>) s) m i)
         else if mr_phase r \<noteq> AwaitingCleanup then (Err StaleReceipt, s, m, i)
         else finish_cleanup M I receipt index s m i)))"

text \<open>The common part of \<open>unmap_page\<close> and \<open>cancel_pending_map\<close>: the record must be in the given
  phase, else the given fault is returned.\<close>

definition withdraw_leaf :: "mapping_phase \<Rightarrow> slpt_fault \<Rightarrow> 'm page_memory \<Rightarrow> 'i invalidator \<Rightarrow> mapping_handle \<Rightarrow> slpt \<Rightarrow> 'm \<Rightarrow> 'i
    \<Rightarrow> (slpt_fault + unmap_outcome) \<times> slpt \<times> 'm \<times> 'i" where
  "withdraw_leaf phase fault M I handle s m i =
     (if sl_state s \<noteq> Operational then (Err PoisonedFault, s, m, i)
      else
        (case record_index s handle of Err e \<Rightarrow> (Err e, s, m, i) | Ok index \<Rightarrow>
        (case ms_record (sl_slots s ! index) of None \<Rightarrow> (Err UnknownMapping, s, m, i) | Some r \<Rightarrow>
         if mr_phase r \<noteq> phase then (Err fault, s, m, i)
         else
           (let leaf_position = pa_depth (mr_path r) - 1;
                leaf_table = pa_frames (mr_path r) ! leaf_position;
                leaf_index = pa_indices (mr_path r) ! leaf_position
            in case pm_read_entry M m leaf_table leaf_index of
                 Err e \<Rightarrow> (Err (MemoryFault e), s, m, i)
               | Ok entry \<Rightarrow>
                   if entry \<noteq> mr_leaf r then (Err EntryMismatch, poison s, m, i)
                   else
                     (case pm_write_entry M leaf_table leaf_index 0 m of
                        (Err e, m) \<Rightarrow> (Err (MemoryFault e), s, m, i)
                      | (Ok _, m) \<Rightarrow>
                          finish_unmap M I handle
                            (update_record index (\<lambda>r. r\<lparr>mr_phase := AwaitingUnmapInvalidation\<rparr>) s) m i)))))"

definition unmap_page :: "'m page_memory \<Rightarrow> 'i invalidator \<Rightarrow> mapping_handle \<Rightarrow> slpt \<Rightarrow> 'm \<Rightarrow> 'i
    \<Rightarrow> (slpt_fault + unmap_outcome) \<times> slpt \<times> 'm \<times> 'i" where
  "unmap_page = withdraw_leaf Active InvalidPhase"

definition cancel_pending_map :: "'m page_memory \<Rightarrow> 'i invalidator \<Rightarrow> mapping_handle \<Rightarrow> slpt \<Rightarrow> 'm \<Rightarrow> 'i
    \<Rightarrow> (slpt_fault + unmap_outcome) \<times> slpt \<times> 'm \<times> 'i" where
  "cancel_pending_map = withdraw_leaf AwaitingMapInvalidation StaleReceipt"

section \<open>Addresses and indices\<close>

definition indices :: "slpt \<Rightarrow> u64 \<Rightarrow> nat list" where
  "indices s iova = map (index_at s iova) [0 ..< sl_levels s]"

definition slpt_shape :: "slpt \<Rightarrow> bool" where
  "slpt_shape s \<longleftrightarrow> 2 \<le> sl_levels s \<and> sl_levels s \<le> MAXIMUM_LEVELS \<and> sl_adjusted_width s = SLPT_PAGE_SHIFT + 9 * sl_levels s"

lemma length_indices [simp]: "length (indices s iova) = sl_levels s"
  by (simp add: indices_def)

lemma nth_indices [simp]: "k < sl_levels s \<Longrightarrow> indices s iova ! k = index_at s iova k"
  by (simp add: indices_def)

lemma low_mask: "(0x1ff :: u64) = mask 9" "(SLPT_PAGE_SIZE - 1 :: u64) = mask 12"
  by (simp_all add: mask_eq_exp_minus_1)

lemma bit_index_at:
  "bit (index_at s iova k) n \<longleftrightarrow> n < 9 \<and> bit iova (12 + (sl_levels s - 1 - k) * 9 + n)"
  unfolding index_at_def Let_def low_mask by (auto simp: bit_simps)

lemma validate_iova_Ok:
  assumes "validate_iova s iova = Ok ()" and "slpt_shape s"
  shows "bit iova n \<Longrightarrow> 12 \<le> n \<and> n < 12 + 9 * sl_levels s"
proof -
  have w: "sl_adjusted_width s = 12 + 9 * sl_levels s" "12 + 9 * sl_levels s < 64" using assms(2) by (auto simp: slpt_shape_def)
  have a: "iova AND mask 12 = 0" and e: "unat iova + 4095 < 2 ^ 64" and l: "\<not> push_bit (sl_adjusted_width s) 1 \<le> iova + 0xfff"
    using assms(1) w by (auto simp: validate_iova_def checked_add_def low_mask[symmetric] split: if_splits)
  assume n: "bit iova n"
  have "\<not> bit (iova AND mask 12) n" using a by simp
  then have "12 \<le> n" using n bit_imp_le_length[OF n] by (simp add: bit_simps)
  have "unat (push_bit (sl_adjusted_width s) (1 :: u64)) = 2 ^ (12 + 9 * sl_levels s)"
    using w by (simp add: push_bit_eq_mult)
  then have "unat iova < 2 ^ (12 + 9 * sl_levels s)"
    using l e by (simp add: word_le_nat_alt unat_add_le)
  then have "iova = take_bit (12 + 9 * sl_levels s) iova" 
    by (metis take_bit_nat_eq_self unsigned_take_bit_eq word_unat_eq_iff)
  then have "n < 12 + 9 * sl_levels s" using n by (metis bit_take_bit_iff)
  with \<open>12 \<le> n\<close> show ?thesis by simp
qed

lemma indices_inj:
  assumes "validate_iova s a = Ok ()" and "validate_iova s b = Ok ()" and "slpt_shape s" and "indices s a = indices s b"
  shows "a = b"
proof (rule bit_word_eqI)
  fix n assume "n < LENGTH(64)"
  show "bit a n = bit b n"
  proof (cases "12 \<le> n \<and> n < 12 + 9 * sl_levels s")
    case True
    let ?k = "sl_levels s - 1 - (n - 12) div 9"
    have d: "(n - 12) div 9 < sl_levels s" using True by (intro less_mult_imp_div_less) auto
    then have "?k < sl_levels s" "sl_levels s - 1 - ?k = (n - 12) div 9" by auto
    then have "12 + (sl_levels s - 1 - ?k) * 9 + (n - 12) mod 9 = n" using True by (simp add: mult.commute)
    moreover have "index_at s a ?k = index_at s b ?k" using assms(4) \<open>?k < sl_levels s\<close> by (metis nth_indices)
    ultimately show ?thesis using bit_index_at[of s a ?k "(n - 12) mod 9"] bit_index_at[of s b ?k "(n - 12) mod 9"] by simp
  next
    case False
    then show ?thesis using validate_iova_Ok[OF assms(1,3), of n] validate_iova_Ok[OF assms(2,3), of n] by blast
  qed
qed

definition valid_frame :: "u64 \<Rightarrow> bool" where
  "valid_frame f \<longleftrightarrow> from_physical_address f = Some f"

lemma page_mask_eq: "PHYSICAL_PAGE_MASK = push_bit 12 (mask 40)"
  by (simp add: mask_eq_exp_minus_1 push_bit_eq_mult)

definition page_address :: "u64 \<Rightarrow> bool" where
  "page_address a \<longleftrightarrow> (\<forall>n. bit a n \<longrightarrow> 12 \<le> n \<and> n < 52)"

lemma page_addressI:
  assumes "a AND (SLPT_PAGE_SIZE - 1) = 0" and "a AND NOT PHYSICAL_PAGE_MASK = 0"
  shows "page_address a"
  unfolding page_address_def
proof (intro allI impI)
  fix n assume n: "bit a n"
  then have "n < 64" using bit_imp_le_length by fastforce
  have "\<not> bit (a AND NOT PHYSICAL_PAGE_MASK) n" using assms(2) by simp
  then show "12 \<le> n \<and> n < 52" using n \<open>n < 64\<close> unfolding page_mask_eq by (auto simp: bit_simps)
qed

lemma valid_frame_page: "valid_frame f \<Longrightarrow> page_address f"
  by (auto simp: valid_frame_def from_physical_address_def intro: page_addressI split: if_splits)

lemma permission_range: "b \<in> {1, 2, 3} \<Longrightarrow> bit (b :: u64) n \<Longrightarrow> n < 2"
proof -
  assume "b \<in> {1, 2, 3}" "bit b n"
  then have "take_bit 2 b = b" by auto
  with \<open>bit b n\<close> show "n < 2" by (metis bit_take_bit_iff)
qed

lemma entry_fields:
  assumes "page_address f" and "b \<in> {1, 2, 3}"
  shows "(f OR b) AND PHYSICAL_PAGE_MASK = f" and "(f OR b) AND PERMISSION_MASK = b" and "f OR b \<noteq> 0"
proof -
  have f: "bit f n \<Longrightarrow> 12 \<le> n \<and> n < 52" for n using assms(1) by (simp add: page_address_def)
  show "(f OR b) AND PHYSICAL_PAGE_MASK = f"
    unfolding page_mask_eq by (rule bit_word_eqI) (auto simp: bit_simps dest: f permission_range[OF assms(2)])
  have three: "(PERMISSION_MASK :: u64) = mask 2" by (simp add: mask_eq_exp_minus_1)
  show l: "(f OR b) AND PERMISSION_MASK = b"
    unfolding three by (rule bit_word_eqI) (auto simp: bit_simps dest: f permission_range[OF assms(2)])
  show "f OR b \<noteq> 0" using l assms(2) by auto
qed

lemma pointer_inj: "valid_frame f \<Longrightarrow> valid_frame g \<Longrightarrow> f OR PERMISSION_MASK = g OR PERMISSION_MASK \<Longrightarrow> f = g"
  by (metis entry_fields(1) insertCI valid_frame_page)

section \<open>The tree of tables\<close>

type_synonym heap = "slpt_frame \<Rightarrow> (nat \<Rightarrow> u64) option"

text \<open>The ghost map \<open>T\<close> gives every table of the tree the indices that lead to it.\<close>

definition tree :: "nat \<Rightarrow> slpt_frame \<Rightarrow> heap \<Rightarrow> (slpt_frame \<Rightarrow> nat list option) \<Rightarrow> bool" where
  "tree L root H T \<longleftrightarrow> T root = Some []
     \<and> (\<forall>f g p. T f = Some p \<longrightarrow> T g = Some p \<longrightarrow> f = g)
     \<and> (\<forall>f p. T f = Some p \<longrightarrow> length p < L \<and> valid_frame f \<and> H f \<noteq> None)
     \<and> (\<forall>f p t i. T f = Some p \<longrightarrow> H f = Some t \<longrightarrow> Suc (length p) < L \<longrightarrow> t i \<noteq> 0
           \<longrightarrow> (\<exists>g. t i = g OR PERMISSION_MASK \<and> T g = Some (p @ [i])))
     \<and> (\<forall>g p i. T g = Some (p @ [i]) \<longrightarrow> (\<exists>f t. T f = Some p \<and> H f = Some t \<and> t i = g OR PERMISSION_MASK))"

lemma treeD:
  assumes "tree L root H T"
  shows "T root = Some []"
    and "T f = Some p \<Longrightarrow> T g = Some p \<Longrightarrow> f = g"
    and "T f = Some p \<Longrightarrow> length p < L \<and> valid_frame f \<and> H f \<noteq> None"
    and "T f = Some p \<Longrightarrow> H f = Some t \<Longrightarrow> Suc (length p) < L \<Longrightarrow> t i \<noteq> 0 \<Longrightarrow> \<exists>g. t i = g OR PERMISSION_MASK \<and> T g = Some (p @ [i])"
    and "T g = Some (p @ [i]) \<Longrightarrow> \<exists>f t. T f = Some p \<and> H f = Some t \<and> t i = g OR PERMISSION_MASK"
  using assms unfolding tree_def by blast+

lemma treeI:
  assumes "T root = Some []" and "\<And>f g p. T f = Some p \<Longrightarrow> T g = Some p \<Longrightarrow> f = g"
    and "\<And>f p. T f = Some p \<Longrightarrow> length p < L \<and> valid_frame f \<and> H f \<noteq> None"
    and "\<And>f p t i. T f = Some p \<Longrightarrow> H f = Some t \<Longrightarrow> Suc (length p) < L \<Longrightarrow> t i \<noteq> 0 \<Longrightarrow> \<exists>g. t i = g OR PERMISSION_MASK \<and> T g = Some (p @ [i])"
    and "\<And>g p i. T g = Some (p @ [i]) \<Longrightarrow> \<exists>f t. T f = Some p \<and> H f = Some t \<and> t i = g OR PERMISSION_MASK"
  shows "tree L root H T"
  using assms unfolding tree_def by blast

lemma tree_link:
  assumes "tree L root H T" and "T g = Some (p @ [i])" and "T f = Some p" and "H f = Some t"
  shows "t i = g OR PERMISSION_MASK" and "t i \<noteq> 0"
proof -
  obtain f' t' where f': "T f' = Some p" "H f' = Some t'" "t' i = g OR PERMISSION_MASK" using treeD(5)[OF assms(1,2)] by blast
  have "f' = f" by (rule treeD(2)[OF assms(1) f'(1) assms(3)])
  then show i: "t i = g OR PERMISSION_MASK" using f' assms(4) by simp
  have "page_address g" using treeD(3)[OF assms(1,2)] valid_frame_page by blast
  then show "t i \<noteq> 0" unfolding i by (rule entry_fields(3)) simp
qed

lemma tree_prefix:
  assumes "tree L root H T" and "T g = Some (p @ q)"
  shows "\<exists>f. T f = Some p"
  using assms(2)
proof (induction q arbitrary: g rule: rev_induct)
  case (snoc i q)
  then obtain f where "T f = Some (p @ q)" using treeD(5)[OF assms(1), of g "p @ q" i] by auto
  then show ?case by (rule snoc.IH)
qed auto

lemma tree_cong: "(\<And>f p. T f = Some p \<Longrightarrow> H' f = H f) \<Longrightarrow> tree L root H' T = tree L root H T"
  by (simp add: tree_def cong: imp_cong conj_cong)

lemma tree_other:
  assumes "tree L root H T" and "T c = None"
  shows "tree L root (H(c := x)) T"
proof -
  have "(H(c := x)) f = H f" if "T f = Some p" for f p using that assms(2) by auto
  with tree_cong[of T "H(c := x)" H L root] assms(1) show ?thesis by blast
qed

text \<open>A new, empty table is linked into the tree, and an empty one is taken out of it.\<close>

lemma tree_attach:
  assumes tr: "tree L root H T" and f: "T f = Some p" "H f = Some t" "t i = 0" "Suc (length p) < L"
    and c: "T c = None" "H c = Some (\<lambda>_. 0)" "valid_frame c"
  shows "tree L root (H(f \<mapsto> t(i := c OR PERMISSION_MASK))) (T(c \<mapsto> p @ [i]))"
proof -
  have fc: "f \<noteq> c" using f(1) c(1) by auto
  have none: "T g \<noteq> Some (p @ [i])" for g using tree_link(2)[OF tr _ f(1,2)] f(3) by blast
  let ?H = "H(f \<mapsto> t(i := c OR PERMISSION_MASK))" and ?T = "T(c \<mapsto> p @ [i])"
  have down: "\<exists>g'. u j = g' OR PERMISSION_MASK \<and> ?T g' = Some (q @ [j])"
    if a: "?T g = Some q" "?H g = Some u" "Suc (length q) < L" "u j \<noteq> 0" for g q u j
  proof (cases "g = c \<or> g = f \<and> j = i")
    case True
    then have "g = f" "j = i" using a(2,4) fc c(2) by auto
    then have "q = p" "u j = c OR PERMISSION_MASK" using a(1,2) fc f(1) by auto
    with \<open>j = i\<close> show ?thesis by (intro exI[of _ c]) simp
  next
    case False
    then have g: "T g = Some q" using a(1) by simp
    obtain v where v: "H g = Some v" "v j = u j" using a(2) False f(2) by (cases "g = f") auto
    obtain g' where g': "u j = g' OR PERMISSION_MASK" "T g' = Some (q @ [j])"
      using treeD(4)[OF tr g v(1) a(3), of j] v(2) a(4) by auto
    then have "g' \<noteq> c" using c(1) by auto
    with g' show ?thesis by auto
  qed
  have up: "\<exists>f' u. ?T f' = Some q \<and> ?H f' = Some u \<and> u j = g OR PERMISSION_MASK" if "?T g = Some (q @ [j])" for g q j
  proof (cases "g = c")
    case True
    then show ?thesis using that f(1,2) fc by (intro exI[of _ f]) auto
  next
    case False
    then have g: "T g = Some (q @ [j])" using that by simp
    then obtain f' u where u: "T f' = Some q" "H f' = Some u" "u j = g OR PERMISSION_MASK" using treeD(5)[OF tr] by blast
    have "f' \<noteq> f \<or> j \<noteq> i" using g u(1) f(1) none by auto
    with u c(1) f(2) show ?thesis by (intro exI[of _ f']) auto
  qed
  have "c \<noteq> root" using treeD(1)[OF tr] c(1) by auto
  then have r: "?T root = Some []" using treeD(1)[OF tr] by simp
  have inj: "f' = g'" if "?T f' = Some q" "?T g' = Some q" for f' g' q
    using that none treeD(2)[OF tr] by (auto split: if_splits)
  have held: "length q < L \<and> valid_frame g \<and> ?H g \<noteq> None" if "?T g = Some q" for g q
    using that treeD(3)[OF tr, of g q] f(4) c by (auto split: if_splits)
  show ?thesis by (rule treeI) (fact r inj held down up)+
qed

lemma tree_detach:
  assumes tr: "tree L root H T" and c: "T c = Some (p @ [i])" "H c = Some u" "\<And>j. u j = 0" and f: "T f = Some p" "H f = Some t"
  shows "tree L root (H(f \<mapsto> t(i := 0))) (T(c := None))"
proof -
  let ?H = "H(f \<mapsto> t(i := 0))" and ?T = "T(c := None)"
  have fc: "f \<noteq> c" using c(1) f(1) by auto
  have root: "root \<noteq> c" using treeD(1)[OF tr] c(1) by auto
  have below: "T g \<noteq> Some (p @ [i] @ [j])" for g j using tree_link(2)[OF tr _ c(1,2), of g j] c(3) by auto
  have down: "\<exists>g'. v j = g' OR PERMISSION_MASK \<and> ?T g' = Some (q @ [j])"
    if a: "?T g = Some q" "?H g = Some v" "Suc (length q) < L" "v j \<noteq> 0" for g q v j
  proof -
    have g: "T g = Some q" "g \<noteq> c" using a(1) by (auto split: if_splits)
    have ne: "g \<noteq> f \<or> j \<noteq> i" using a(2,4) by auto
    then obtain w where w: "H g = Some w" "w j = v j" using a(2) f(2) by (cases "g = f") auto
    obtain g' where g': "v j = g' OR PERMISSION_MASK" "T g' = Some (q @ [j])"
      using treeD(4)[OF tr g(1) w(1) a(3), of j] w(2) a(4) by auto
    have "g' \<noteq> c" using g' c(1) ne g(1) f(1) treeD(2)[OF tr] by auto
    with g' show ?thesis by auto
  qed
  have up: "\<exists>f' v. ?T f' = Some q \<and> ?H f' = Some v \<and> v j = g OR PERMISSION_MASK" if "?T g = Some (q @ [j])" for g q j
  proof -
    have g: "T g = Some (q @ [j])" "g \<noteq> c" using that by (auto split: if_splits)
    then obtain f' v where v: "T f' = Some q" "H f' = Some v" "v j = g OR PERMISSION_MASK" using treeD(5)[OF tr] by blast
    have "f' \<noteq> c" using v(1) c(1) g(1) below[of g j] by auto
    moreover have "f' \<noteq> f \<or> j \<noteq> i" using g v(1) f(1) c(1) treeD(2)[OF tr] by auto
    ultimately show ?thesis using v f(2) by (intro exI[of _ f']) auto
  qed
  have r: "?T root = Some []" using treeD(1)[OF tr] root by simp
  have inj: "f' = g'" if "?T f' = Some q" "?T g' = Some q" for f' g' q
    using that treeD(2)[OF tr, of f' q g'] by (auto split: if_splits)
  have held: "length q < L \<and> valid_frame g \<and> ?H g \<noteq> None" if "?T g = Some q" for g q
    using that treeD(3)[OF tr, of g q] by (auto split: if_splits)
  show ?thesis by (rule treeI) (fact r inj held down up)+
qed

text \<open>A change within a table of the last level does not concern the tree.\<close>

lemma tree_leaf:
  assumes tr: "tree L root H T" and f: "T f = Some p" "H f = Some t" "Suc (length p) = L"
  shows "tree L root (H(f \<mapsto> t(i := v))) T"
proof -
  let ?H = "H(f \<mapsto> t(i := v))"
  have down: "\<exists>g'. u j = g' OR PERMISSION_MASK \<and> T g' = Some (q @ [j])"
    if "T g = Some q" "?H g = Some u" "Suc (length q) < L" "u j \<noteq> 0" for g q u j
    using that f treeD(4)[OF tr that(1)] by (cases "g = f") auto
  have up: "\<exists>f' u. T f' = Some q \<and> ?H f' = Some u \<and> u j = g OR PERMISSION_MASK" if g: "T g = Some (q @ [j])" for g q j
  proof -
    obtain f' u where u: "T f' = Some q" "H f' = Some u" "u j = g OR PERMISSION_MASK" using treeD(5)[OF tr g] by blast
    have "f' \<noteq> f" using u(1) f(1,3) treeD(3)[OF tr g] by auto
    with u show ?thesis by auto
  qed
  have held: "length q < L \<and> valid_frame g \<and> ?H g \<noteq> None" if "T g = Some q" for g q using treeD(3)[OF tr that] by auto
  show ?thesis by (rule treeI) (fact treeD(1,2)[OF tr] held down up)+
qed

section \<open>The ledger and the tree\<close>

definition rec_at :: "slpt \<Rightarrow> nat \<Rightarrow> mapping_record option" where
  "rec_at s j = (if j < length (sl_slots s) then ms_record (sl_slots s ! j) else None)"

definition mapped :: "mapping_record \<Rightarrow> bool" where
  "mapped r \<longleftrightarrow> mr_phase r = AwaitingMapInvalidation \<or> mr_phase r = Active"

definition record_ok :: "slpt \<Rightarrow> mapping_record \<Rightarrow> bool" where
  "record_ok s r \<longleftrightarrow> validate_iova s (mr_iova r) = Ok () \<and> page_address (mr_physical_address r)
     \<and> (\<exists>b \<in> {1, 2, 3}. mr_leaf r = mr_physical_address r OR b)
     \<and> pa_depth (mr_path r) = sl_levels s \<and> length (pa_frames (mr_path r)) = MAXIMUM_LEVELS
     \<and> take (sl_levels s) (pa_indices (mr_path r)) = indices s (mr_iova r)
     \<and> mr_cleanup_depth r < sl_levels s \<and> (mapped r \<longrightarrow> mr_cleanup_depth r = 0)"

text \<open>The tables of a mapped page are in the tree and hold its leaf. The tables a page that is
  being unmapped still lists are in the tree where they were, or no longer in it.\<close>

definition record_linked :: "slpt \<Rightarrow> heap \<Rightarrow> (slpt_frame \<Rightarrow> nat list option) \<Rightarrow> mapping_record \<Rightarrow> bool" where
  "record_linked s H T r \<longleftrightarrow>
     (\<forall>k < sl_levels s. T (pa_frames (mr_path r) ! k) = Some (take k (indices s (mr_iova r))))
     \<and> (\<exists>t. H (pa_frames (mr_path r) ! (sl_levels s - 1)) = Some t \<and> t (index_at s (mr_iova r) (sl_levels s - 1)) = mr_leaf r)"

definition record_retained :: "slpt \<Rightarrow> (slpt_frame \<Rightarrow> nat list option) \<Rightarrow> mapping_record \<Rightarrow> bool" where
  "record_retained s T r \<longleftrightarrow> (\<forall>k < sl_levels s - mr_cleanup_depth r.
     T (pa_frames (mr_path r) ! k) \<in> {None, Some (take k (indices s (mr_iova r)))})"

definition ledger :: "slpt \<Rightarrow> heap \<Rightarrow> (slpt_frame \<Rightarrow> nat list option) \<Rightarrow> bool" where
  "ledger s H T \<longleftrightarrow>
     (\<forall>j r. rec_at s j = Some r \<longrightarrow> record_ok s r \<and> record_retained s T r \<and> (mapped r \<longrightarrow> record_linked s H T r))
     \<and> (\<forall>f p t i. T f = Some p \<longrightarrow> H f = Some t \<longrightarrow> Suc (length p) = sl_levels s \<longrightarrow> t i \<noteq> 0
         \<longrightarrow> (\<exists>j r. rec_at s j = Some r \<and> mapped r \<and> indices s (mr_iova r) = p @ [i] \<and> mr_leaf r = t i))
     \<and> (\<forall>j j' r r'. rec_at s j = Some r \<longrightarrow> rec_at s j' = Some r'
         \<longrightarrow> mr_iova r = mr_iova r' \<or> mr_physical_address r = mr_physical_address r' \<longrightarrow> j = j')"

definition consistent :: "slpt \<Rightarrow> heap \<Rightarrow> (slpt_frame \<Rightarrow> nat list option) \<Rightarrow> bool" where
  "consistent s H T \<longleftrightarrow> slpt_shape s \<and> tree (sl_levels s) (sl_root s) H T \<and> ledger s H T"

text \<open>While the ledger is operational, a table that is listed but no longer in the tree has been
  given back to the memory.\<close>

definition quiet :: "slpt \<Rightarrow> heap \<Rightarrow> (slpt_frame \<Rightarrow> nat list option) \<Rightarrow> bool" where
  "quiet s H T \<longleftrightarrow> (\<forall>f. frame_is_known s f \<longrightarrow> T f = None \<longrightarrow> H f = None)"

lemma ledgerD:
  assumes "ledger s H T"
  shows "rec_at s j = Some r \<Longrightarrow> record_ok s r" and "rec_at s j = Some r \<Longrightarrow> record_retained s T r"
    and "rec_at s j = Some r \<Longrightarrow> mapped r \<Longrightarrow> record_linked s H T r"
    and "T f = Some p \<Longrightarrow> H f = Some t \<Longrightarrow> Suc (length p) = sl_levels s \<Longrightarrow> t i \<noteq> 0
      \<Longrightarrow> \<exists>j r. rec_at s j = Some r \<and> mapped r \<and> indices s (mr_iova r) = p @ [i] \<and> mr_leaf r = t i"
    and "rec_at s j = Some r \<Longrightarrow> rec_at s j' = Some r'
      \<Longrightarrow> mr_iova r = mr_iova r' \<or> mr_physical_address r = mr_physical_address r' \<Longrightarrow> j = j'"
  using assms unfolding ledger_def by blast+

lemma ledgerI:
  assumes "\<And>j r. rec_at s j = Some r \<Longrightarrow> record_ok s r" and "\<And>j r. rec_at s j = Some r \<Longrightarrow> record_retained s T r"
    and "\<And>j r. rec_at s j = Some r \<Longrightarrow> mapped r \<Longrightarrow> record_linked s H T r"
    and "\<And>f p t i. T f = Some p \<Longrightarrow> H f = Some t \<Longrightarrow> Suc (length p) = sl_levels s \<Longrightarrow> t i \<noteq> 0
      \<Longrightarrow> \<exists>j r. rec_at s j = Some r \<and> mapped r \<and> indices s (mr_iova r) = p @ [i] \<and> mr_leaf r = t i"
    and "\<And>j j' r r'. rec_at s j = Some r \<Longrightarrow> rec_at s j' = Some r'
      \<Longrightarrow> mr_iova r = mr_iova r' \<or> mr_physical_address r = mr_physical_address r' \<Longrightarrow> j = j'"
  shows "ledger s H T"
  using assms unfolding ledger_def by blast

lemma geometry:
  assumes "sl_levels t = sl_levels s" and "sl_adjusted_width t = sl_adjusted_width s"
  shows "index_at t = index_at s" and "indices t = indices s" and "validate_iova t = validate_iova s" and "slpt_shape t = slpt_shape s"
    and "record_ok t = record_ok s" and "record_linked t = record_linked s" and "record_retained t = record_retained s"
proof -
  show i: "index_at t = index_at s" using assms by (simp add: index_at_def fun_eq_iff)
  show j: "indices t = indices s" using assms i by (simp add: indices_def fun_eq_iff)
  show v: "validate_iova t = validate_iova s" using assms by (intro ext) (simp only: validate_iova_def)
  show "slpt_shape t = slpt_shape s" using assms by (simp add: slpt_shape_def)
  show "record_ok t = record_ok s" using assms j v by (simp add: record_ok_def fun_eq_iff)
  show "record_linked t = record_linked s" using assms i j by (simp add: record_linked_def fun_eq_iff)
  show "record_retained t = record_retained s" using assms j by (simp add: record_retained_def fun_eq_iff)
qed

lemmas levels_update [simp] = geometry[of "s\<lparr>sl_slots := x\<rparr>" s for s x, simplified]

lemma poison_simps [simp]:
  "rec_at (poison s) = rec_at s" "sl_root (poison s) = sl_root s"
  "sl_levels (poison s) = sl_levels s" "sl_state (poison s) = Poisoned" "sl_slots (poison s) = sl_slots s"
  "frame_is_known (poison s) = frame_is_known s" "sl_adjusted_width (poison s) = sl_adjusted_width s"
  by (simp_all add: poison_def fun_eq_iff rec_at_def frame_is_known_def)

lemmas poison_geometry [simp] = geometry[of "poison s" s for s, simplified]

lemma consistent_poison [simp]: "consistent (poison s) H T = consistent s H T"
  by (simp add: consistent_def ledger_def)

lemma rec_at_update_record [simp]: "rec_at (update_record j f s) k = (if k = j then map_option f (rec_at s j) else rec_at s k)"
  by (simp add: rec_at_def update_record_def nth_list_update)

lemma update_record_simps [simp]:
  "sl_levels (update_record j f s) = sl_levels s" "sl_root (update_record j f s) = sl_root s" "sl_state (update_record j f s) = sl_state s"
  "sl_adjusted_width (update_record j f s) = sl_adjusted_width s"
  by (simp_all add: update_record_def)

lemmas update_record_geometry [simp] = geometry[of "update_record j f s" s for j f s, simplified]

lemma frame_known_iff:
  "frame_is_known s f \<longleftrightarrow> f = sl_root s \<or>
    (\<exists>j r. rec_at s j = Some r \<and> f \<in> set (take (pa_depth (mr_path r) - mr_cleanup_depth r) (pa_frames (mr_path r))))"
proof -
  let ?P = "\<lambda>r. f \<in> set (take (pa_depth (mr_path r) - mr_cleanup_depth r) (pa_frames (mr_path r)))"
  have "list_ex (\<lambda>slot. case ms_record slot of None \<Rightarrow> False | Some r \<Rightarrow> ?P r) (sl_slots s)
      \<longleftrightarrow> (\<exists>j < length (sl_slots s). \<exists>r. ms_record (sl_slots s ! j) = Some r \<and> ?P r)"
    by (force simp: list_ex_iff in_set_conv_nth split: option.splits)
  then show ?thesis unfolding frame_is_known_def rec_at_def by (auto split: if_splits)
qed

lemma record_path:
  assumes "record_ok s r" and "slpt_shape s" and "k < sl_levels s"
  shows "pa_indices (mr_path r) ! k = index_at s (mr_iova r) k" and "k < length (pa_frames (mr_path r))"
proof -
  show "pa_indices (mr_path r) ! k = index_at s (mr_iova r) k"
    using assms(1) nth_take[OF assms(3), of "pa_indices (mr_path r)"] nth_indices[OF assms(3), of "mr_iova r"]
    by (simp add: record_ok_def del: nth_take nth_indices)
  show "k < length (pa_frames (mr_path r))" using assms by (simp add: record_ok_def slpt_shape_def)
qed

lemma listed_known:
  assumes "rec_at s j = Some r" and "record_ok s r" and "slpt_shape s" and "k < sl_levels s - mr_cleanup_depth r"
  shows "frame_is_known s (pa_frames (mr_path r) ! k)"
proof -
  have "k < length (pa_frames (mr_path r))" using assms(2-4) by (auto simp: record_ok_def slpt_shape_def)
  then have "pa_frames (mr_path r) ! k \<in> set (take (pa_depth (mr_path r) - mr_cleanup_depth r) (pa_frames (mr_path r)))"
    using assms(2,4) by (auto simp: record_ok_def in_set_conv_nth intro!: exI[of _ k])
  with assms(1) show ?thesis unfolding frame_known_iff by blast
qed

lemma consistent_other: "consistent s H T \<Longrightarrow> T c = None \<Longrightarrow> consistent s (H(c := x)) T"
proof -
  assume c: "consistent s H T" "T c = None"
  have same: "(H(c := x)) f = H f" if "T f = Some p" for f p using that c(2) by auto
  have lk: "record_linked s (H(c := x)) T r" if "record_linked s H T r" "slpt_shape s" for r
  proof -
    have "T (pa_frames (mr_path r) ! (sl_levels s - 1)) \<noteq> None" using that by (auto simp: record_linked_def slpt_shape_def)
    with that(1) c(2) show ?thesis by (auto simp: record_linked_def)
  qed
  have "ledger s H T" using c(1) by (simp add: consistent_def)
  then have "ledger s (H(c := x)) T"
    by (rule_tac ledgerI) (use c(1) same lk in \<open>auto simp: consistent_def dest: ledgerD\<close>)
  with c tree_other show ?thesis by (simp add: consistent_def)
qed

lemma consistentD:
  assumes "consistent s H T"
  shows "slpt_shape s" "tree (sl_levels s) (sl_root s) H T" "ledger s H T"
  using assms by (simp_all add: consistent_def)

lemma leaf_nonzero: "record_ok s r \<Longrightarrow> mr_leaf r \<noteq> 0"
  using entry_fields(3) by (auto simp: record_ok_def)

lemma take_indices_Suc: "k < sl_levels s \<Longrightarrow> take (Suc k) (indices s a) = take k (indices s a) @ [index_at s a k]"
  by (simp add: take_Suc_conv_app_nth)

lemma indices_split: "slpt_shape s \<Longrightarrow> indices s a = take (sl_levels s - 1) (indices s a) @ [index_at s a (sl_levels s - 1)]"
  using take_indices_Suc[of "sl_levels s - 1" s a] by (simp add: slpt_shape_def)

lemma leaf_table:
  assumes "slpt_shape s" and "record_linked s H T r"
  shows "T (pa_frames (mr_path r) ! (sl_levels s - 1)) = Some (take (sl_levels s - 1) (indices s (mr_iova r)))"
    and "length (take (sl_levels s - 1) (indices s (mr_iova r))) = sl_levels s - 1"
  using assms by (auto simp: record_linked_def slpt_shape_def)

lemma consistent_attach:
  assumes con: "consistent s H T" and f: "T f = Some p" "H f = Some t" "t i = 0" "Suc (length p) < sl_levels s"
    and c: "T c = None" "H c = Some (\<lambda>_. 0)" "valid_frame c"
    and listed: "\<And>j r k. rec_at s j = Some r \<Longrightarrow> k < sl_levels s - mr_cleanup_depth r \<Longrightarrow> pa_frames (mr_path r) ! k = c
      \<Longrightarrow> take k (indices s (mr_iova r)) = p @ [i]"
  shows "consistent s (H(f \<mapsto> t(i := c OR PERMISSION_MASK))) (T(c \<mapsto> p @ [i]))"
proof -
  note sh = consistentD(1)[OF con] and tr = consistentD(2)[OF con] and le = consistentD(3)[OF con]
  let ?H = "H(f \<mapsto> t(i := c OR PERMISSION_MASK))" and ?T = "T(c \<mapsto> p @ [i])"
  have fc: "f \<noteq> c" using f(1) c(1) by auto
  have ret: "record_retained s ?T r" if "rec_at s j = Some r" for j r
    using ledgerD(2)[OF le that] listed[OF that] by (auto simp: record_retained_def)
  have lk: "record_linked s ?H ?T r" if r: "rec_at s j = Some r" "mapped r" for j r
  proof -
    have l: "record_linked s H T r" by (rule ledgerD(3)[OF le r])
    have "pa_frames (mr_path r) ! (sl_levels s - 1) \<noteq> f" using leaf_table[OF sh l] f(1,4) by auto
    moreover have "pa_frames (mr_path r) ! k \<noteq> c" if "k < sl_levels s" for k using l that c(1) by (auto simp: record_linked_def)
    ultimately show ?thesis using l by (auto simp: record_linked_def)
  qed
  have leaf: "\<exists>j r. rec_at s j = Some r \<and> mapped r \<and> indices s (mr_iova r) = q @ [k] \<and> mr_leaf r = u k"
    if "?T g = Some q" "?H g = Some u" "Suc (length q) = sl_levels s" "u k \<noteq> 0" for g q u k
    using that ledgerD(4)[OF le, of g q u k] f(1,4) c(2) fc by (auto split: if_splits)
  have "ledger s ?H ?T"
    by (rule ledgerI) (fact ledgerD(1)[OF le] ret lk leaf ledgerD(5)[OF le])+
  with sh tree_attach[OF tr f c] show ?thesis by (simp add: consistent_def)
qed

lemma consistent_detach:
  assumes con: "consistent s H T" and c: "T c = Some (p @ [i])" "H c = Some u" "\<And>j. u j = 0" and f: "T f = Some p" "H f = Some t"
  shows "consistent s (H(f \<mapsto> t(i := 0))) (T(c := None))"
proof -
  note sh = consistentD(1)[OF con] and tr = consistentD(2)[OF con] and le = consistentD(3)[OF con]
  let ?H = "H(f \<mapsto> t(i := 0))" and ?T = "T(c := None)"
  have ret: "record_retained s ?T r" if "rec_at s j = Some r" for j r
    using ledgerD(2)[OF le that] by (auto simp: record_retained_def)
  have lk: "record_linked s ?H ?T r" if r: "rec_at s j = Some r" "mapped r" for j r
  proof -
    have l: "record_linked s H T r" by (rule ledgerD(3)[OF le r])
    have nc: "pa_frames (mr_path r) ! k \<noteq> c" if k: "k < sl_levels s" for k
    proof
      assume eq: "pa_frames (mr_path r) ! k = c"
      with l k c(1) have p: "p @ [i] = take k (indices s (mr_iova r))" by (auto simp: record_linked_def)
      show False
      proof (cases "Suc k < sl_levels s")
        case True
        then have "T (pa_frames (mr_path r) ! Suc k) = Some ((p @ [i]) @ [index_at s (mr_iova r) k])"
          using l p take_indices_Suc[OF k] by (auto simp: record_linked_def)
        from tree_link(2)[OF tr this c(1,2)] c(3) show False by simp
      next
        case False
        then have "k = sl_levels s - 1" using k by simp
        with l eq c(2,3) have "mr_leaf r = 0" by (auto simp: record_linked_def)
        with leaf_nonzero[OF ledgerD(1)[OF le r(1)]] show False by simp
      qed
    qed
    have "pa_frames (mr_path r) ! (sl_levels s - 1) \<noteq> f" using leaf_table[OF sh l] f(1) treeD(3)[OF tr c(1)] by auto
    with l nc show ?thesis by (auto simp: record_linked_def)
  qed
  have leaf: "\<exists>j r. rec_at s j = Some r \<and> mapped r \<and> indices s (mr_iova r) = q @ [k] \<and> mr_leaf r = v k"
    if a: "?T g = Some q" "?H g = Some v" "Suc (length q) = sl_levels s" "v k \<noteq> 0" for g q v k
  proof -
    have "T g = Some q" using a(1) by (auto split: if_splits)
    moreover have "g \<noteq> f" using calculation a(3) f(1) treeD(3)[OF tr c(1)] by auto
    ultimately show ?thesis using ledgerD(4)[OF le, of g q v k] a by auto
  qed
  have "ledger s ?H ?T"
    by (rule ledgerI) (fact ledgerD(1)[OF le] ret lk leaf ledgerD(5)[OF le])+
  with sh tree_detach[OF tr c f] show ?thesis by (simp add: consistent_def)
qed

lemma same_leaf_slot:
  assumes con: "consistent s H T" and r: "record_linked s H T r" "record_ok s r" and q: "record_linked s H T q" "record_ok s q"
    and "pa_frames (mr_path r) ! (sl_levels s - 1) = pa_frames (mr_path q) ! (sl_levels s - 1)"
    and "index_at s (mr_iova r) (sl_levels s - 1) = index_at s (mr_iova q) (sl_levels s - 1)"
  shows "mr_iova r = mr_iova q"
proof -
  note sh = consistentD(1)[OF con]
  have "indices s (mr_iova r) = indices s (mr_iova q)"
    using leaf_table(1)[OF sh r(1)] leaf_table(1)[OF sh q(1)] assms(6,7) indices_split[OF sh] by (metis option.inject)
  with indices_inj[OF _ _ sh] r(2) q(2) show ?thesis by (simp add: record_ok_def)
qed

lemma consistent_withdraw:
  assumes con: "consistent s H T" and r: "rec_at s j = Some r" "mapped r"
    and t: "H (pa_frames (mr_path r) ! (sl_levels s - 1)) = Some t"
  shows "consistent (update_record j (\<lambda>r. r\<lparr>mr_phase := AwaitingUnmapInvalidation\<rparr>) s)
    (H(pa_frames (mr_path r) ! (sl_levels s - 1) \<mapsto> t(index_at s (mr_iova r) (sl_levels s - 1) := 0))) T"
proof -
  note sh = consistentD(1)[OF con] and tr = consistentD(2)[OF con] and le = consistentD(3)[OF con]
  let ?f = "pa_frames (mr_path r) ! (sl_levels s - 1)" and ?i = "index_at s (mr_iova r) (sl_levels s - 1)"
  let ?H = "H(?f \<mapsto> t(?i := 0))" and ?s = "update_record j (\<lambda>r. r\<lparr>mr_phase := AwaitingUnmapInvalidation\<rparr>) s"
  have l: "record_linked s H T r" by (rule ledgerD(3)[OF le r])
  note f = leaf_table[OF sh l]
  have ok: "record_ok ?s q" if "rec_at ?s k = Some q" for k q
    using that ledgerD(1)[OF le r(1)] ledgerD(1)[OF le, of k] r(1) by (auto simp: record_ok_def mapped_def split: if_splits)
  have ret: "record_retained ?s T q" if "rec_at ?s k = Some q" for k q
    using that ledgerD(2)[OF le r(1)] ledgerD(2)[OF le, of k] r(1) by (auto simp: record_retained_def split: if_splits)
  have lk: "record_linked ?s ?H T q" if q: "rec_at ?s k = Some q" "mapped q" for k q
  proof -
    have k: "k \<noteq> j" "rec_at s k = Some q" using q r(1) by (auto simp: mapped_def split: if_splits)
    have lq: "record_linked s H T q" by (rule ledgerD(3)[OF le k(2) q(2)])
    have "\<not> (pa_frames (mr_path q) ! (sl_levels s - 1) = ?f \<and> index_at s (mr_iova q) (sl_levels s - 1) = ?i)"
      using same_leaf_slot[OF con lq ledgerD(1)[OF le k(2)] l ledgerD(1)[OF le r(1)]] ledgerD(5)[OF le k(2) r(1)] k(1) by blast
    with lq t show ?thesis by (auto simp: record_linked_def)
  qed
  have leaf: "\<exists>k q. rec_at ?s k = Some q \<and> mapped q \<and> indices ?s (mr_iova q) = p @ [n] \<and> mr_leaf q = u n"
    if a: "T g = Some p" "?H g = Some u" "Suc (length p) = sl_levels ?s" "u n \<noteq> 0" for g p u n
  proof -
    have ne: "\<not> (g = ?f \<and> n = ?i)" using a(2,4) by auto
    obtain v where "H g = Some v" "v n = u n" using a(2) ne t by (cases "g = ?f") auto
    then obtain k q where q: "rec_at s k = Some q" "mapped q" "indices s (mr_iova q) = p @ [n]" "mr_leaf q = u n"
      using ledgerD(4)[OF le a(1), of v n] a(3,4) by auto
    have "k \<noteq> j"
    proof
      assume "k = j"
      then have "p = take (sl_levels s - 1) (indices s (mr_iova r))" "n = ?i" using q(1,3) r(1) indices_split[OF sh, of "mr_iova r"] by auto
      with ne f(1) a(1) treeD(2)[OF tr] show False by auto
    qed
    with q show ?thesis by auto
  qed
  have "\<exists>q'. rec_at s k = Some q' \<and> mr_iova q' = mr_iova q \<and> mr_physical_address q' = mr_physical_address q"
    if "rec_at ?s k = Some q" for k q using that r(1) by (auto split: if_splits)
  then have dis: "k = k'" if "rec_at ?s k = Some q" "rec_at ?s k' = Some q'"
      "mr_iova q = mr_iova q' \<or> mr_physical_address q = mr_physical_address q'" for k k' q q'
    using that ledgerD(5)[OF le] by metis
  have "ledger ?s ?H T"
    by (rule ledgerI) (fact ok ret lk leaf dis)+
  with sh tree_leaf[OF tr f(1) t] f(2) show ?thesis by (simp add: consistent_def slpt_shape_def)
qed

lemma consistent_publish:
  assumes con: "consistent s H T" and j: "j < length (sl_slots s)" "rec_at s j = None" and r: "record_ok s r" "mapped r"
    and frames: "\<And>k. k < sl_levels s \<Longrightarrow> T (pa_frames (mr_path r) ! k) = Some (take k (indices s (mr_iova r)))"
    and t: "H (pa_frames (mr_path r) ! (sl_levels s - 1)) = Some t" "t (index_at s (mr_iova r) (sl_levels s - 1)) = 0"
    and new: "\<And>k q. rec_at s k = Some q \<Longrightarrow> mr_iova q \<noteq> mr_iova r \<and> mr_physical_address q \<noteq> mr_physical_address r"
  shows "consistent (s\<lparr>sl_slots := (sl_slots s)[j := (sl_slots s ! j)\<lparr>ms_record := Some r\<rparr>]\<rparr>)
    (H(pa_frames (mr_path r) ! (sl_levels s - 1) \<mapsto> t(index_at s (mr_iova r) (sl_levels s - 1) := mr_leaf r))) T"
proof -
  note sh = consistentD(1)[OF con] and tr = consistentD(2)[OF con] and le = consistentD(3)[OF con]
  let ?f = "pa_frames (mr_path r) ! (sl_levels s - 1)" and ?i = "index_at s (mr_iova r) (sl_levels s - 1)"
  let ?H = "H(?f \<mapsto> t(?i := mr_leaf r))" and ?s = "s\<lparr>sl_slots := (sl_slots s)[j := (sl_slots s ! j)\<lparr>ms_record := Some r\<rparr>]\<rparr>"
  have rec: "rec_at ?s k = (if k = j then Some r else rec_at s k)" for k using j(1) by (auto simp: rec_at_def nth_list_update)
  have f: "T ?f = Some (take (sl_levels s - 1) (indices s (mr_iova r)))" using frames sh by (simp add: slpt_shape_def)
  have ok: "record_ok ?s q" if "rec_at ?s k = Some q" for k q
    using that r(1) ledgerD(1)[OF le, of k] by (auto simp: rec split: if_splits)
  have ret: "record_retained ?s T q" if "rec_at ?s k = Some q" for k q
    using that frames ledgerD(2)[OF le, of k] by (auto simp: rec record_retained_def split: if_splits)
  have lk: "record_linked ?s ?H T q" if q: "rec_at ?s k = Some q" "mapped q" for k q
  proof (cases "k = j")
    case True
    then show ?thesis using q(1) frames by (auto simp: rec record_linked_def)
  next
    case False
    then have k: "rec_at s k = Some q" using q(1) rec by simp
    have lq: "record_linked s H T q" by (rule ledgerD(3)[OF le k q(2)])
    have "\<not> (pa_frames (mr_path q) ! (sl_levels s - 1) = ?f \<and> index_at s (mr_iova q) (sl_levels s - 1) = ?i)"
      using lq t leaf_nonzero[OF ledgerD(1)[OF le k]] by (auto simp: record_linked_def)
    with lq t show ?thesis by (auto simp: record_linked_def)
  qed
  have leaf: "\<exists>k q. rec_at ?s k = Some q \<and> mapped q \<and> indices ?s (mr_iova q) = p @ [n] \<and> mr_leaf q = u n"
    if a: "T g = Some p" "?H g = Some u" "Suc (length p) = sl_levels ?s" "u n \<noteq> 0" for g p u n
  proof (cases "g = ?f \<and> n = ?i")
    case True
    then have "indices s (mr_iova r) = p @ [n]" using f a(1) indices_split[OF sh, of "mr_iova r"] by simp
    with True a(2) r(2) rec show ?thesis by (intro exI[of _ j] exI[of _ r]) auto
  next
    case False
    obtain v where "H g = Some v" "v n = u n" using a(2) False t by (cases "g = ?f") auto
    then obtain k q where q: "rec_at s k = Some q" "mapped q" "indices s (mr_iova q) = p @ [n]" "mr_leaf q = u n"
      using ledgerD(4)[OF le a(1), of v n] a(3,4) by auto
    then have "k \<noteq> j" using j(2) by auto
    with q rec show ?thesis by (intro exI[of _ k] exI[of _ q]) simp
  qed
  have dis: "k = k'" if "rec_at ?s k = Some q" "rec_at ?s k' = Some q'"
      "mr_iova q = mr_iova q' \<or> mr_physical_address q = mr_physical_address q'" for k k' q q'
  proof (cases "k = j \<or> k' = j")
    case True
    then show ?thesis using that new[of k q] new[of k' q'] by (auto simp: rec split: if_splits)
  next
    case False
    then show ?thesis using that ledgerD(5)[OF le, of k q k' q'] by (simp add: rec)
  qed
  have "ledger ?s ?H T"
    by (rule ledgerI) (fact ok ret lk leaf dis)+
  with sh tree_leaf[OF tr f t(1)] show ?thesis by (simp add: consistent_def slpt_shape_def)
qed

text \<open>Changes of a record that concern neither the tree nor the leaves.\<close>

lemma consistent_update:
  assumes con: "consistent s H T" and r: "rec_at s j = Some r"
    and g: "mr_iova (g r) = mr_iova r" "mr_physical_address (g r) = mr_physical_address r" "mr_leaf (g r) = mr_leaf r"
      "mr_path (g r) = mr_path r" "mapped (g r) = mapped r" "mr_cleanup_depth r \<le> mr_cleanup_depth (g r)" "record_ok s (g r)"
  shows "consistent (update_record j g s) H T"
proof -
  note sh = consistentD(1)[OF con] and tr = consistentD(2)[OF con] and le = consistentD(3)[OF con]
  let ?s = "update_record j g s"
  have ok: "record_ok ?s q" if "rec_at ?s k = Some q" for k q
    using that r g(7) ledgerD(1)[OF le, of k] by (auto split: if_splits)
  have ret: "record_retained ?s T q" if "rec_at ?s k = Some q" for k q
    using that r g ledgerD(2)[OF le r] ledgerD(2)[OF le, of k] by (auto simp: record_retained_def split: if_splits)
  have lk: "record_linked ?s H T q" if "rec_at ?s k = Some q" "mapped q" for k q
    using that r g ledgerD(3)[OF le r] ledgerD(3)[OF le, of k] by (auto simp: record_linked_def split: if_splits)
  have leaf: "\<exists>k q. rec_at ?s k = Some q \<and> mapped q \<and> indices ?s (mr_iova q) = p @ [n] \<and> mr_leaf q = u n"
    if a: "T f = Some p" "H f = Some u" "Suc (length p) = sl_levels ?s" "u n \<noteq> 0" for f p u n
  proof -
    obtain k q where q: "rec_at s k = Some q" "mapped q" "indices s (mr_iova q) = p @ [n]" "mr_leaf q = u n"
      using ledgerD(4)[OF le a(1,2) _ a(4)] a(3) by auto
    then show ?thesis using r g by (intro exI[of _ k] exI[of _ "if k = j then g q else q"]) auto
  qed
  have "\<exists>q'. rec_at s k = Some q' \<and> mr_iova q' = mr_iova q \<and> mr_physical_address q' = mr_physical_address q"
    if "rec_at ?s k = Some q" for k q using that r g by (auto split: if_splits)
  then have dis: "k = k'" if "rec_at ?s k = Some q" "rec_at ?s k' = Some q'"
      "mr_iova q = mr_iova q' \<or> mr_physical_address q = mr_physical_address q'" for k k' q q'
    using that ledgerD(5)[OF le] by metis
  have "ledger ?s H T"
    by (rule ledgerI) (fact ok ret lk leaf dis)+
  with sh tr show ?thesis by (simp add: consistent_def)
qed

lemma rec_at_retire [simp]: "rec_at (retire_slot j s) k = (if k = j then None else rec_at s k)"
  by (simp add: rec_at_def retire_slot_def Let_def nth_list_update)

lemma retire_slot_simps [simp]:
  "sl_levels (retire_slot j s) = sl_levels s" "sl_root (retire_slot j s) = sl_root s" "sl_state (retire_slot j s) = sl_state s"
  "sl_adjusted_width (retire_slot j s) = sl_adjusted_width s"
  by (simp_all add: retire_slot_def Let_def)

lemmas retire_geometry [simp] = geometry[of "retire_slot j s" s for j s, simplified]

lemma consistent_retire:
  assumes con: "consistent s H T" and r: "rec_at s j = Some r" "\<not> mapped r"
  shows "consistent (retire_slot j s) H T"
proof -
  note le = consistentD(3)[OF con]
  have leaf: "\<exists>k q. rec_at (retire_slot j s) k = Some q \<and> mapped q \<and> indices (retire_slot j s) (mr_iova q) = p @ [n] \<and> mr_leaf q = u n"
    if a: "T f = Some p" "H f = Some u" "Suc (length p) = sl_levels (retire_slot j s)" "u n \<noteq> 0" for f p u n
  proof -
    obtain k q where "rec_at s k = Some q" "mapped q" "indices s (mr_iova q) = p @ [n]" "mr_leaf q = u n"
      using ledgerD(4)[OF le a(1,2) _ a(4)] a(3) by auto
    then show ?thesis using r by (intro exI[of _ k] exI[of _ q]) auto
  qed
  have "ledger (retire_slot j s) H T"
    by (rule ledgerI) (use leaf in \<open>auto split: if_splits dest: ledgerD(1-3)[OF le] ledgerD(5)[OF le]\<close>)
  with con show ?thesis by (simp add: consistent_def)
qed

section \<open>Page walks\<close>

definition heap_entry :: "heap \<Rightarrow> slpt_frame \<Rightarrow> nat \<Rightarrow> u64" where
  "heap_entry H f i = (case H f of None \<Rightarrow> 0 | Some t \<Rightarrow> t i)"

text \<open>The walk of the remapping hardware: an entry without a permission bit faults, and a
  page can be accessed as far as all entries on the way permit.\<close>

fun walk :: "heap \<Rightarrow> slpt_frame \<Rightarrow> nat list \<Rightarrow> u64 \<Rightarrow> (u64 \<times> u64) option" where
  "walk H f [] access = None"
| "walk H f (i # is) access =
     (let e = heap_entry H f i; access = access AND e AND PERMISSION_MASK in
      if access = 0 then None
      else if is = [] then Some (e AND PHYSICAL_PAGE_MASK, access)
      else walk H (e AND PHYSICAL_PAGE_MASK) is access)"

definition mapping_of :: "slpt \<Rightarrow> u64 \<Rightarrow> mapping_record option" where
  "mapping_of s iova = List.find (\<lambda>r. mapped r \<and> mr_iova r = iova) (List.map_filter ms_record (sl_slots s))"

lemma set_map_filter: "y \<in> set (List.map_filter f xs) \<longleftrightarrow> (\<exists>x \<in> set xs. f x = Some y)"
  by (induction xs) (auto simp: List.map_filter_simps split: option.splits)

lemma map_filter_records: "r \<in> set (List.map_filter ms_record (sl_slots s)) \<longleftrightarrow> (\<exists>j. rec_at s j = Some r)"
proof -
  have "(\<exists>x \<in> set (sl_slots s). ms_record x = Some r) \<longleftrightarrow> (\<exists>j < length (sl_slots s). ms_record (sl_slots s ! j) = Some r)"
    by (metis in_set_conv_nth)
  then show ?thesis unfolding set_map_filter by (auto simp: rec_at_def)
qed

lemma mapping_of_Some:
  assumes "ledger s H T" and "rec_at s j = Some r" and "mapped r" and "mr_iova r = iova"
  shows "mapping_of s iova = Some r"
proof (cases "mapping_of s iova")
  case None
  then show ?thesis using assms map_filter_records by (auto simp: mapping_of_def find_None_iff)
next
  case (Some q)
  then have "q \<in> set (List.map_filter ms_record (sl_slots s))" "mr_iova q = iova"
    by (auto simp: mapping_of_def find_Some_iff)
  then obtain k where "rec_at s k = Some q" using map_filter_records by auto
  with assms Some \<open>mr_iova q = iova\<close> ledgerD(5)[OF assms(1), of k q j r] show ?thesis by auto
qed

lemma mapping_of_None:
  assumes "\<And>j r. rec_at s j = Some r \<Longrightarrow> mapped r \<Longrightarrow> mr_iova r \<noteq> iova"
  shows "mapping_of s iova = None"
  using assms map_filter_records by (auto simp: mapping_of_def find_None_iff)

lemma path_step:
  assumes "p @ i # q = indices s iova"
  shows "length p + Suc (length q) = sl_levels s" and "i = index_at s iova (length p)" and "p = take (length p) (indices s iova)"
proof -
  show len: "length p + Suc (length q) = sl_levels s" using arg_cong[OF assms, of length] by simp
  show "i = index_at s iova (length p)" "p = take (length p) (indices s iova)"
    using assms nth_indices[of "length p" s iova] len by (auto simp: nth_append simp flip: assms)
qed

lemma walk_leaf_empty:
  assumes con: "consistent s H T" and f: "T f = Some p" "H f = Some t" and path: "p @ [i] = indices s iova" and "t i = 0"
  shows "mapping_of s iova = None"
proof (rule mapping_of_None)
  note sh = consistentD(1)[OF con] and tr = consistentD(2)[OF con] and le = consistentD(3)[OF con]
  fix j r assume r: "rec_at s j = Some r" "mapped r"
  show "mr_iova r \<noteq> iova"
  proof
    assume eq: "mr_iova r = iova"
    have lk: "record_linked s H T r" by (rule ledgerD(3)[OF le r])
    have n: "sl_levels s - 1 = length p" using path_step(1)[OF path] by simp
    with leaf_table(1)[OF sh lk] path_step(3)[OF path] eq have "T (pa_frames (mr_path r) ! (sl_levels s - 1)) = Some p" by simp
    then have "pa_frames (mr_path r) ! (sl_levels s - 1) = f" by (rule treeD(2)[OF tr _ f(1)])
    then have "t i = mr_leaf r" using lk f(2) path_step(2)[OF path] eq unfolding record_linked_def n by auto
    with assms(5) leaf_nonzero[OF ledgerD(1)[OF le r(1)]] show False by simp
  qed
qed

lemma walk_leaf:
  assumes con: "consistent s H T" and v: "validate_iova s iova = Ok ()" and f: "T f = Some p" and path: "p @ [i] = indices s iova"
  shows "walk H f [i] 3 = map_option (\<lambda>r. (mr_physical_address r, mr_leaf r AND PERMISSION_MASK)) (mapping_of s iova)"
proof -
  note sh = consistentD(1)[OF con] and le = consistentD(3)[OF con]
  obtain t where t: "H f = Some t" using treeD(3)[OF consistentD(2)[OF con] f] by blast
  show ?thesis
  proof (cases "t i = 0")
    case True
    with walk_leaf_empty[OF con f t path] t show ?thesis by (simp add: heap_entry_def)
  next
    case False
    have "Suc (length p) = sl_levels s" using path_step(1)[OF path] by simp
    from ledgerD(4)[OF le f t this] False obtain j r where r: "rec_at s j = Some r" "mapped r" "indices s (mr_iova r) = p @ [i]" "mr_leaf r = t i" by blast
    have ok: "record_ok s r" by (rule ledgerD(1)[OF le r(1)])
    then have "mr_iova r = iova" using indices_inj[OF _ v sh] r(3) path by (simp add: record_ok_def)
    then have m: "mapping_of s iova = Some r" by (rule mapping_of_Some[OF le r(1,2)])
    obtain b where b: "b \<in> {1, 2, 3}" "mr_leaf r = mr_physical_address r OR b" "page_address (mr_physical_address r)"
      using ok by (auto simp: record_ok_def)
    have "3 AND (t i AND PERMISSION_MASK) = b" "b \<noteq> 0" "t i AND PHYSICAL_PAGE_MASK = mr_physical_address r" "mr_leaf r AND PERMISSION_MASK = b"
      using entry_fields[OF b(3,1)] b r(4) by auto
    with m t show ?thesis by (simp add: heap_entry_def and.assoc)
  qed
qed

lemma walk_inner_empty:
  assumes con: "consistent s H T" and f: "T f = Some p" "H f = Some t" and path: "p @ i # q = indices s iova" "q \<noteq> []" and "t i = 0"
  shows "mapping_of s iova = None"
proof (rule mapping_of_None)
  note tr = consistentD(2)[OF con] and le = consistentD(3)[OF con]
  fix j r assume r: "rec_at s j = Some r" "mapped r"
  let ?g = "pa_frames (mr_path r) ! Suc (length p)"
  have L: "Suc (length p) < sl_levels s" using path_step(1)[OF path(1)] path(2) by (cases q) auto
  have lk: "T ?g = Some (take (Suc (length p)) (indices s (mr_iova r)))" using ledgerD(3)[OF le r] L by (simp add: record_linked_def)
  have "t i = ?g OR PERMISSION_MASK" if "mr_iova r = iova"
  proof -
    have "T ?g = Some (p @ [i])" using lk take_indices_Suc[of "length p" s iova] path_step(2,3)[OF path(1)] L that by simp
    then show ?thesis by (rule tree_link(1)[OF tr _ f])
  qed
  moreover have "valid_frame ?g" using treeD(3)[OF tr lk] by blast
  ultimately show "mr_iova r \<noteq> iova" using entry_fields(3)[OF valid_frame_page, of ?g 3] assms(6) by auto
qed

lemma walk_from:
  assumes con: "consistent s H T" and v: "validate_iova s iova = Ok ()"
    and "T f = Some p" and "p @ q = indices s iova" and "q \<noteq> []"
  shows "walk H f q 3 = map_option (\<lambda>r. (mr_physical_address r, mr_leaf r AND PERMISSION_MASK)) (mapping_of s iova)"
  using assms(3-5)
proof (induction q arbitrary: f p)
  case (Cons i q)
  note tr = consistentD(2)[OF con]
  obtain t where t: "H f = Some t" using treeD(3)[OF tr Cons.prems(1)] by blast
  show ?case
  proof (cases "q = []")
    case True
    with walk_leaf[OF con v Cons.prems(1), of i] Cons.prems(2) show ?thesis by simp
  next
    case False
    show ?thesis
    proof (cases "t i = 0")
      case True
      with walk_inner_empty[OF con Cons.prems(1) t Cons.prems(2) False] t show ?thesis by (simp add: heap_entry_def)
    next
      case nz: False
      have "Suc (length p) < sl_levels s" using path_step(1)[OF Cons.prems(2)] False by (cases q) auto
      from treeD(4)[OF tr Cons.prems(1) t this nz] obtain g where g: "t i = g OR PERMISSION_MASK" "T g = Some (p @ [i])" by blast
      have "page_address g" using treeD(3)[OF tr g(2)] valid_frame_page by blast
      then have "t i AND PHYSICAL_PAGE_MASK = g" "3 AND (t i AND PERMISSION_MASK) = 3"
        using entry_fields(1,2)[of g 3] g(1) by auto
      with Cons.IH[OF g(2) _ False] Cons.prems(2) False t show ?thesis by (simp add: heap_entry_def and.assoc)
    qed
  qed
qed simp

lemma walk_mapping:
  assumes "consistent s H T" and "validate_iova s iova = Ok ()"
  shows "walk H (sl_root s) (indices s iova) 3 = map_option (\<lambda>r. (mr_physical_address r, mr_leaf r AND PERMISSION_MASK)) (mapping_of s iova)"
proof (rule walk_from[OF assms treeD(1)[OF consistentD(2)[OF assms(1)]]])
  show "indices s iova \<noteq> []" using consistentD(1)[OF assms(1)] length_indices[of s iova] by (cases "indices s iova") (simp_all add: slpt_shape_def)
qed simp

section \<open>Links that can be undone\<close>

text \<open>The links of an unfinished path, newest first: each child is a table of the tree that no
  record lists and nothing hangs below.\<close>

fun fresh :: "slpt \<Rightarrow> (slpt_frame \<Rightarrow> nat list option) \<Rightarrow> new_link list \<Rightarrow> bool" where
  "fresh s T [] \<longleftrightarrow> True"
| "fresh s T (l # ls) \<longleftrightarrow> (\<exists>p. T (nl_parent l) = Some p \<and> T (nl_child l) = Some (p @ [nl_index l])
      \<and> (\<forall>g q. T g = Some (p @ [nl_index l] @ q) \<longrightarrow> q = []))
     \<and> \<not> frame_is_known s (nl_child l) \<and> fresh s (T(nl_child l := None)) ls"

lemma fresh_poison [simp]: "fresh (poison s) T ls = fresh s T ls"
  by (induction ls arbitrary: T) simp_all

lemma unlisted_empty:
  assumes con: "consistent s H T" and c: "T c = Some p" "H c = Some u" and "\<not> frame_is_known s c"
    and "\<And>g q. T g = Some (p @ q) \<Longrightarrow> q = []"
  shows "u j = 0"
proof (rule ccontr)
  note sh = consistentD(1)[OF con] and tr = consistentD(2)[OF con] and le = consistentD(3)[OF con]
  assume nz: "u j \<noteq> 0"
  show False
  proof (cases "Suc (length p) < sl_levels s")
    case True
    then show False using treeD(4)[OF tr c True nz] assms(5) by blast
  next
    case False
    then have "Suc (length p) = sl_levels s" using treeD(3)[OF tr c(1)] by simp
    then obtain k r where r: "rec_at s k = Some r" "mapped r" "indices s (mr_iova r) = p @ [j]"
      using ledgerD(4)[OF le c _ nz] by blast
    have "T (pa_frames (mr_path r) ! (sl_levels s - 1)) = Some p"
      using leaf_table(1)[OF sh ledgerD(3)[OF le r(1,2)]] r(3) \<open>Suc (length p) = sl_levels s\<close> by auto
    then have "pa_frames (mr_path r) ! (sl_levels s - 1) = c" by (rule treeD(2)[OF tr _ c(1)])
    moreover have "sl_levels s - 1 < sl_levels s - mr_cleanup_depth r"
      using ledgerD(1)[OF le r(1)] r(2) sh by (auto simp: record_ok_def slpt_shape_def)
    ultimately show False using listed_known[OF r(1) ledgerD(1)[OF le r(1)] sh] assms(4) by auto
  qed
qed

lemma quiet_step:
  assumes "quiet s H T" and "\<And>g. frame_is_known s g \<Longrightarrow> T' g = None \<Longrightarrow> T g = None \<and> H' g = H g \<or> H' g = None"
  shows "quiet s H' T'"
  using assms unfolding quiet_def by metis

lemma quiet_mono: "quiet s H T \<Longrightarrow> (\<And>f. frame_is_known s' f \<Longrightarrow> frame_is_known s f \<or> T f \<noteq> None) \<Longrightarrow> quiet s' H T"
  unfolding quiet_def by blast

lemma decode_pointer:
  assumes "valid_frame g"
  shows "decode_table_pointer (g OR PERMISSION_MASK) = Ok g"
proof -
  have p: "page_address g" by (rule valid_frame_page[OF assms])
  have "(g OR PERMISSION_MASK) AND NOT (PHYSICAL_PAGE_MASK OR PERMISSION_MASK) = 0"
  proof (rule bit_word_eqI)
    fix n
    have three: "(PERMISSION_MASK :: u64) = mask 2" by (simp add: mask_eq_exp_minus_1)
    show "bit ((g OR PERMISSION_MASK) AND NOT (PHYSICAL_PAGE_MASK OR PERMISSION_MASK)) n = bit (0 :: u64) n"
      using p unfolding page_mask_eq three page_address_def by (auto simp: bit_simps)
  qed
  moreover have "g \<noteq> 0" "from_physical_address g = Some g" using assms by (auto simp: valid_frame_def from_physical_address_def split: if_splits)
  ultimately show ?thesis using entry_fields(1,2)[OF p, of 3] by (simp add: decode_table_pointer_def)
qed

section \<open>The contract of a page memory\<close>

text \<open>
  What the source asks of an implementation of \<open>SlptPageMemory\<close>, over the heap of the table
  frames the memory holds: an operation that fails leaves the heap as it was, an allocated frame
  was not held before, and the others read and change the table they are given. \<open>env\<close> is what may
  happen to the memory between two calls.
\<close>

locale slpt_page_memory =
  fixes M :: "'m page_memory" and ok :: "'m \<Rightarrow> bool" and view :: "'m \<Rightarrow> heap" and env :: "'m \<Rightarrow> 'm \<Rightarrow> bool"
  assumes allocate_Ok: "ok m \<Longrightarrow> pm_allocate_table M m = (Ok f, m') \<Longrightarrow> ok m' \<and> view m f = None \<and> valid_frame f \<and> (\<exists>t. view m' = (view m)(f \<mapsto> t))"
    and allocate_Err: "ok m \<Longrightarrow> pm_allocate_table M m = (Err e, m') \<Longrightarrow> ok m' \<and> view m' = view m"
    and zero_Ok: "ok m \<Longrightarrow> pm_zero_table M f m = (Ok u, m') \<Longrightarrow> ok m' \<and> view m' = (view m)(f \<mapsto> \<lambda>_. 0)"
    and zero_Err: "ok m \<Longrightarrow> pm_zero_table M f m = (Err e, m') \<Longrightarrow> ok m' \<and> view m' = view m"
    and read_Ok: "ok m \<Longrightarrow> pm_read_entry M m f i = Ok v \<Longrightarrow> \<exists>t. view m f = Some t \<and> t i = v"
    and write_Ok: "ok m \<Longrightarrow> pm_write_entry M f i v m = (Ok u, m') \<Longrightarrow> ok m' \<and> (\<exists>t. view m f = Some t \<and> view m' = (view m)(f \<mapsto> t(i := v)))"
    and write_Err: "ok m \<Longrightarrow> pm_write_entry M f i v m = (Err e, m') \<Longrightarrow> ok m' \<and> view m' = view m"
    and release_Ok: "ok m \<Longrightarrow> pm_release_table M f m = (Ok u, m') \<Longrightarrow> ok m' \<and> view m' = (view m)(f := None)"
    and release_Err: "ok m \<Longrightarrow> pm_release_table M f m = (Err e, m') \<Longrightarrow> ok m' \<and> view m' = view m"
    and narrow: "ok m \<Longrightarrow> view m f = Some t \<Longrightarrow> ENTRIES_PER_TABLE \<le> i \<Longrightarrow> t i = 0"
    and environment: "ok m \<Longrightarrow> env m m' \<Longrightarrow> ok m' \<and> view m' = view m"
begin

lemma entries_zero_True:
  assumes "ok m" and "entries_zero M m f is = Ok True"
  shows "\<forall>i \<in> set is. \<exists>t. view m f = Some t \<and> t i = 0"
  using assms(2) by (induction "is") (auto dest: read_Ok[OF assms(1)] split: sum.splits if_splits)

lemma table_is_empty_True:
  assumes "ok m" and "table_is_empty M m f = Ok True"
  obtains t where "view m f = Some t" and "\<And>i. t i = 0"
proof -
  note z = entries_zero_True[OF assms(1) assms(2)[unfolded table_is_empty_def]]
  have "0 \<in> set [0 ..< ENTRIES_PER_TABLE]" by simp
  with z obtain t where t: "view m f = Some t" by blast
  have "t i = 0" for i
  proof (cases "i < ENTRIES_PER_TABLE")
    case True
    then have "i \<in> set [0 ..< ENTRIES_PER_TABLE]" by simp
    with z t show ?thesis by (metis option.inject)
  qed (use narrow[OF assms(1) t] in simp)
  with t that show thesis by blast
qed

lemma relink:
  assumes "ok m" and "view m = H(f \<mapsto> t(i := 0))" and "H f = Some t" and "t i = v" and "pm_write_entry M f i v m = (r, m')"
  shows "ok m' \<and> (r = Ok () \<longrightarrow> view m' = H) \<and> (r \<noteq> Ok () \<longrightarrow> view m' = view m)"
proof (cases r)
  case (Inr u)
  then have "ok m'" "view m' = H(f \<mapsto> t)" using write_Ok[OF assms(1) assms(5)[unfolded Inr]] assms(2,4) by auto
  with Inr assms(3) show ?thesis by (auto simp: fun_upd_idem)
qed (use write_Err[OF assms(1)] assms(5) in auto)

text \<open>Undoing links keeps the tables consistent even where it fails half-way.\<close>

lemma rollback_links_sound:
  assumes "ok m" and "consistent s (view m) T" and "fresh s T ls" and "rollback_links M ls m = (r, m')"
  shows "ok m' \<and> (\<exists>T'. consistent s (view m') T' \<and> (r = Ok () \<longrightarrow> quiet s (view m) T \<longrightarrow> quiet s (view m') T'))"
  using assms
proof (induction ls arbitrary: m T)
  case Nil
  then show ?case by auto
next
  case (Cons l ls)
  let ?f = "nl_parent l" and ?i = "nl_index l" and ?c = "nl_child l"
  obtain p where p: "T ?f = Some p" "T ?c = Some (p @ [?i])" "\<And>g q. T g = Some (p @ [?i] @ q) \<Longrightarrow> q = []"
    and unknown: "\<not> frame_is_known s ?c" and fr: "fresh s (T(?c := None)) ls" using Cons.prems(3) by auto
  note tr = consistentD(2)[OF Cons.prems(2)]
  have fc: "?f \<noteq> ?c" using p(1,2) by auto
  obtain u where u: "view m ?c = Some u" using treeD(3)[OF tr p(2)] by blast
  have empty: "u j = 0" for j
    by (rule unlisted_empty[OF Cons.prems(2) p(2) u unknown]) (use p(3) in simp)
  obtain r1 m1 where w: "pm_write_entry M ?f ?i 0 m = (r1, m1)" by (cases "pm_write_entry M ?f ?i 0 m")
  show ?case
  proof (cases r1)
    case (Inl e)
    with write_Err[OF Cons.prems(1)] w Cons.prems show ?thesis by auto
  next
    case (Inr u1)
    obtain t where m1: "ok m1" "view m ?f = Some t" "view m1 = (view m)(?f \<mapsto> t(?i := 0))"
      using write_Ok[OF Cons.prems(1)] w Inr by blast
    have det: "consistent s (view m1) (T(?c := None))"
      unfolding m1(3) by (rule consistent_detach[OF Cons.prems(2) p(2) u empty p(1) m1(2)])
    obtain r2 m2 where rel: "pm_release_table M ?c m1 = (r2, m2)" by (cases "pm_release_table M ?c m1")
    show ?thesis
    proof (cases r2)
      case (Inr u2)
      have m2: "ok m2" "view m2 = (view m1)(?c := None)" using release_Ok[OF m1(1)] rel Inr by auto
      have con2: "consistent s (view m2) (T(?c := None))" unfolding m2(2) by (rule consistent_other[OF det]) simp
      have q2: "quiet s (view m2) (T(?c := None))" if "quiet s (view m) T"
        by (rule quiet_step[OF that]) (use p(1) fc m1(3) m2(2) unknown in \<open>auto split: if_splits\<close>)
      have "rollback_links M ls m2 = (r, m')" using Cons.prems(4) w rel \<open>r1 = Ok u1\<close> Inr by simp
      with Cons.IH[OF m2(1) con2 fr] q2 show ?thesis by blast
    next
      case (Inl e)
      have m2: "ok m2" "view m2 = view m1" using release_Err[OF m1(1)] rel Inl by auto
      obtain r3 m3 where w3: "pm_write_entry M ?f ?i (?c OR PERMISSION_MASK) m2 = (r3, m3)"
        by (cases "pm_write_entry M ?f ?i (?c OR PERMISSION_MASK) m2")
      have eq: "m' = m3" "r \<noteq> Ok ()" using Cons.prems(4) w rel w3 \<open>r1 = Ok u1\<close> Inl by (auto split: sum.splits)
      have "t ?i = ?c OR PERMISSION_MASK" by (rule tree_link(1)[OF tr p(2,1) m1(2)])
      from relink[OF m2(1) m2(2)[unfolded m1(3)] m1(2) this w3] m2(2) det Cons.prems(2) eq show ?thesis
        by (cases "r3 = Ok ()") auto
    qed
  qed
qed

end

context slpt_page_memory
begin

lemma poison_changes: "sl_state s = Operational \<Longrightarrow> poison s \<noteq> s"
  by (metis poison_simps(4) slpt_status.distinct(1))

lemma fresh_attach:
  assumes con: "consistent s H T" and f: "T f = Some p" "H f = Some t" "t i = 0" and "T c = None" and "\<not> frame_is_known s c"
    and "fresh s T ls"
  shows "fresh s (T(c \<mapsto> p @ [i])) (\<lparr>nl_parent = f, nl_index = i, nl_child = c\<rparr> # ls)"
proof -
  note tr = consistentD(2)[OF con]
  have none: "T g \<noteq> Some (p @ [i])" for g using tree_link(2)[OF tr _ f(1,2)] f(3) by blast
  have "q = []" if "(T(c \<mapsto> p @ [i])) g = Some (p @ [i] @ q)" for g q
    using that tree_prefix[OF tr, of g "p @ [i]" q] none by (auto split: if_splits)
  moreover have "T(c := None) = T" using assms(5) by (simp add: fun_upd_idem)
  ultimately show ?thesis using assms f(1) by auto
qed

text \<open>What linking a table that has just been allocated leaves behind.\<close>

lemma link_table_sound:
  assumes m: "ok m" "view m = H(c \<mapsto> x)" and con: "consistent s H T" and qu: "quiet s H T" and fr: "fresh s T (rev links)"
    and f: "T parent = Some p" "Suc (length p) < sl_levels s" and t: "H parent = Some t" "t index = 0"
    and c: "T c = None" "valid_frame c" "\<not> frame_is_known s c"
    and call: "link_table M s c parent index links m = (r, s', m', links')"
  shows "ok m' \<and> s' = s \<and> (\<exists>T'. consistent s (view m') T' \<and> fresh s T' (rev links') \<and> T \<subseteq>\<^sub>m T' \<and> quiet s (view m') T'
    \<and> (\<forall>d. r = Ok d \<longrightarrow> T' d = Some (p @ [index])))"
proof -
  have con': "consistent s (H(c := y)) T" for y by (rule consistent_other[OF con c(1)])
  have quiet': "quiet s (H(c := y)) T" for y by (rule quiet_step[OF qu]) (use c(3) in auto)
  have pc: "parent \<noteq> c" using c(1) f(1) by auto
  have released: ?thesis if "ok m2" "view m2 = H(c \<mapsto> x)" "pm_release_table M c m2 = (r3, m3)"
      "r = Err e'" "s' = s" "m' = m3" "links' = links" for m2 x r3 m3 e'
  proof -
    have "ok m3 \<and> (\<exists>y. view m3 = H(c := y))"
      using that(2) release_Ok[OF that(1)] release_Err[OF that(1)] that(3) by (cases r3) auto
    then obtain y where "ok m3" "view m3 = H(c := y)" by blast
    with con'[of y] quiet'[of y] fr that show ?thesis by (auto intro!: exI[of _ T])
  qed
  obtain r2 m2 where z: "pm_zero_table M c m = (r2, m2)" by (cases "pm_zero_table M c m")
  obtain r3 m3 where w: "pm_write_entry M parent index (c OR PERMISSION_MASK) m2 = (r3, m3)"
    by (cases "pm_write_entry M parent index (c OR PERMISSION_MASK) m2")
  obtain r4 m4 where l2: "pm_release_table M c m2 = (r4, m4)" by (cases "pm_release_table M c m2")
  obtain r5 m5 where l3: "pm_release_table M c m3 = (r5, m5)" by (cases "pm_release_table M c m3")
  consider (zero) e where "r2 = Err e" | (unwritten) u e where "r2 = Ok u" "r3 = Err e" | (linked) u u3 where "r2 = Ok u" "r3 = Ok u3"
    by (cases r2; cases r3) auto
  then show ?thesis
  proof cases
    case zero
    then have "ok m2" "view m2 = H(c \<mapsto> x)" using zero_Err[OF m(1)] z m(2) by auto
    moreover have "\<exists>e'. r = Err e'" "s' = s" "m' = m4" "links' = links"
      using call z l2 zero by (auto simp: link_table_def split: sum.splits)
    ultimately show ?thesis using released[OF _ _ l2] by blast
  next
    case unwritten
    then have "ok m3" "view m3 = H(c \<mapsto> \<lambda>_. 0)" using zero_Ok[OF m(1)] write_Err[of m2] z w m(2) by auto
    moreover have "\<exists>e'. r = Err e'" "s' = s" "m' = m5" "links' = links"
      using call z w l3 unwritten by (auto simp: link_table_def split: sum.splits)
    ultimately show ?thesis using released[OF _ _ l3] by blast
  next
    case linked
    have m2: "ok m2" "view m2 = H(c \<mapsto> \<lambda>_. 0)" using zero_Ok[OF m(1)] z linked m(2) by auto
    have m3: "ok m3" "view m3 = (H(c \<mapsto> \<lambda>_. 0))(parent \<mapsto> t(index := c OR PERMISSION_MASK))"
      using write_Ok[OF m2(1) w[unfolded linked(2)]] m2(2) t(1) pc by auto
    have con3: "consistent s (view m3) (T(c \<mapsto> p @ [index]))"
      unfolding m3(2)
      by (rule consistent_attach[where t = t and i = index, OF con' f(1) _ t(2) f(2) c(1) _ c(2)])
        (use t(1) pc c(3) listed_known[OF _ ledgerD(1)[OF consistentD(3)[OF con]] consistentD(1)[OF con]] in auto)
    have "quiet s (view m3) (T(c \<mapsto> p @ [index]))"
      by (rule quiet_step[OF qu]) (use f(1) m3(2) in \<open>auto split: if_splits\<close>)
    moreover have "r = Ok c" "s' = s" "m' = m3" "links' = links @ [\<lparr>nl_parent = parent, nl_index = index, nl_child = c\<rparr>]"
      using call z w linked by (auto simp: link_table_def)
    moreover have "fresh s (T(c \<mapsto> p @ [index])) (rev links')" using fresh_attach[OF con f(1) t c(1,3) fr] calculation(5) by simp
    moreover have "T \<subseteq>\<^sub>m T(c \<mapsto> p @ [index])" using c(1) by (auto simp: map_le_def)
    ultimately show ?thesis using con3 m3(1) by (auto intro!: exI[of _ "T(c \<mapsto> p @ [index])"])
  qed
qed

text \<open>The child of an entry: what the call leaves behind, and where the table it returns is.\<close>

lemma child_table_sound:
  assumes m: "ok m" and con: "consistent s (view m) T" and qu: "quiet s (view m) T" and fr: "fresh s T (rev links)"
    and op: "sl_state s = Operational"
    and f: "T parent = Some p" "Suc (length p) < sl_levels s" and t: "view m parent = Some t" "t index = entry"
    and call: "child_table M s m path pos parent index entry links = (r, s', m', links')"
  shows "ok m' \<and> (s' = s \<or> s' = poison s) \<and> (\<exists>T'. consistent s (view m') T' \<and> fresh s T' (rev links') \<and> T \<subseteq>\<^sub>m T'
    \<and> (s' = s \<longrightarrow> quiet s (view m') T') \<and> (\<forall>c. r = Ok c \<longrightarrow> s' = s \<and> T' c = Some (p @ [index])))"
proof (cases "entry = 0")
  case False
  obtain g where g: "entry = g OR PERMISSION_MASK" "T g = Some (p @ [index])"
    using treeD(4)[OF consistentD(2)[OF con] f(1) t(1) f(2)] t(2) False by blast
  have "decode_table_pointer entry = Ok g" unfolding g(1) using treeD(3)[OF consistentD(2)[OF con] g(2)] decode_pointer by blast
  then have "m' = m \<and> links' = links \<and> (s' = s \<and> r = Ok g \<or> s' = poison s \<and> r = Err ForeignEntry)"
    using call False by (auto simp: child_table_def split: if_splits)
  then show ?thesis using m con qu fr g(2) by (auto intro!: exI[of _ T])
next
  case zero: True
  obtain r1 m1 where a: "pm_allocate_table M m = (r1, m1)" by (cases "pm_allocate_table M m")
  show ?thesis
  proof (cases r1)
    case (Inl e)
    then have "r = Err (MemoryFault e)" "s' = s" "m' = m1" "links' = links" using call a zero by (auto simp: child_table_def)
    with allocate_Err[OF m] a Inl con qu fr show ?thesis by (auto intro!: exI[of _ T])
  next
    case (Inr c)
    obtain t1 where m1: "ok m1" "view m c = None" "valid_frame c" "view m1 = (view m)(c \<mapsto> t1)"
      using allocate_Ok[OF m] a Inr by blast
    have Tc: "T c = None" using treeD(3)[OF consistentD(2)[OF con], of c] m1(2) by (cases "T c") auto
    show ?thesis
    proof (cases "c = 0 \<or> frame_is_known s c \<or> c \<in> set (take (pos + 1) (pa_frames path))")
      case True
      then have "r = Err FrameAlias" "s' = poison s" "m' = m1" "links' = links" using call a Inr zero by (auto simp: child_table_def)
      with m1 consistent_other[OF con Tc, of "Some t1"] fr poison_changes[OF op] show ?thesis by (auto intro!: exI[of _ T])
    next
      case False
      then have "link_table M s c parent index links m1 = (r, s', m', links')" using call a Inr zero by (simp add: child_table_def)
      from link_table_sound[OF m1(1,4) con qu fr f t(1) _ Tc m1(3) _ this] False t(2) zero show ?thesis by blast
    qed
  qed
qed

end

definition tables_ok :: "slpt \<Rightarrow> heap \<Rightarrow> bool" where
  "tables_ok s H \<longleftrightarrow> (\<exists>T. consistent s H T \<and> (sl_state s = Operational \<longrightarrow> quiet s H T))"

text \<open>A path that has been built up to the table at position \<open>n\<close>, and a complete one.\<close>

definition path_shape :: "slpt \<Rightarrow> page_path \<Rightarrow> bool" where
  "path_shape s path \<longleftrightarrow> length (pa_frames path) = MAXIMUM_LEVELS \<and> length (pa_indices path) = MAXIMUM_LEVELS \<and> pa_depth path = sl_levels s"

definition built :: "slpt \<Rightarrow> u64 \<Rightarrow> (slpt_frame \<Rightarrow> nat list option) \<Rightarrow> page_path \<Rightarrow> nat \<Rightarrow> bool" where
  "built s iova T path n \<longleftrightarrow> path_shape s path \<and> take n (pa_indices path) = take n (indices s iova)
     \<and> (\<forall>k \<le> n. T (pa_frames path ! k) = Some (take k (indices s iova)))"

definition complete :: "slpt \<Rightarrow> u64 \<Rightarrow> (slpt_frame \<Rightarrow> nat list option) \<Rightarrow> page_path \<Rightarrow> bool" where
  "complete s iova T path \<longleftrightarrow> path_shape s path \<and> take (sl_levels s) (pa_indices path) = indices s iova
     \<and> (\<forall>k < sl_levels s. T (pa_frames path ! k) = Some (take k (indices s iova)))"

lemma built_indices:
  assumes "built s iova T path n" and "n < sl_levels s" and "slpt_shape s"
  shows "take (Suc n) ((pa_indices path)[n := index_at s iova n]) = take (Suc n) (indices s iova)"
  using assms take_Suc_update[of n "pa_indices path" "index_at s iova n"] take_indices_Suc[of n s iova]
  by (simp add: built_def path_shape_def slpt_shape_def)

lemma built_complete:
  assumes "built s iova T path n" and "Suc n = sl_levels s" and "slpt_shape s"
  shows "complete s iova T (path\<lparr>pa_indices := (pa_indices path)[n := index_at s iova n]\<rparr>)"
  using built_indices[OF assms(1) _ assms(3)] assms by (auto simp: complete_def built_def path_shape_def)

lemma built_next:
  assumes b: "built s iova T path n" and "Suc n < sl_levels s" and sh: "slpt_shape s" and "T \<subseteq>\<^sub>m T'"
    and c: "T' c = Some (take n (indices s iova) @ [index_at s iova n])"
  shows "built s iova T' (path\<lparr>pa_indices := (pa_indices path)[n := index_at s iova n], pa_frames := (pa_frames path)[n + 1 := c]\<rparr>) (Suc n)"
proof -
  have "T' ((pa_frames path)[n + 1 := c] ! k) = Some (take k (indices s iova))" if "k \<le> Suc n" for k
  proof (cases "k = Suc n")
    case True
    then show ?thesis using assms take_indices_Suc[of n s iova] by (simp add: built_def path_shape_def slpt_shape_def)
  next
    case False
    then have "T (pa_frames path ! k) = Some (take k (indices s iova))" using b that by (simp add: built_def)
    with False assms(4) show ?thesis by (auto simp: map_le_def dom_def)
  qed
  moreover have "take (Suc n) ((pa_indices path)[n := index_at s iova n]) = take (Suc n) (indices s iova)"
    using built_indices[OF b _ sh] assms(2) by simp
  ultimately show ?thesis using b by (simp add: built_def path_shape_def)
qed

context slpt_page_memory
begin

lemma build_path_sound:
  assumes "ok m" and "consistent s (view m) T" and "quiet s (view m) T" and "sl_state s = Operational"
    and "fresh s T (rev links)" and "built s iova T path n" and "n < sl_levels s"
    and "build_path M iova [n ..< sl_levels s] s m path links = (r, s', m', path', links')"
  shows "ok m' \<and> (s' = s \<or> s' = poison s) \<and> (\<exists>T'. consistent s (view m') T' \<and> fresh s T' (rev links')
    \<and> (s' = s \<longrightarrow> quiet s (view m') T') \<and> (r = Ok () \<longrightarrow> s' = s \<and> complete s iova T' path'))"
  using assms(1-3,5-)
proof (induction "sl_levels s - n" arbitrary: n m T path links)
  case (Suc d)
  let ?i = "index_at s iova n" and ?parent = "pa_frames path ! n"
  let ?path = "path\<lparr>pa_indices := (pa_indices path)[n := ?i]\<rparr>"
  note con = Suc.prems(2) and sh = consistentD(1)[OF Suc.prems(2)]
  have list: "[n ..< sl_levels s] = n # [Suc n ..< sl_levels s]" using Suc.prems(6) by (simp add: upt_conv_Cons)
  show ?case
  proof (cases "Suc n = sl_levels s")
    case True
    then have "r = Ok ()" "s' = s" "m' = m" "path' = ?path" "links' = links" using Suc.prems(7) by (auto simp: list Let_def)
    with Suc.prems built_complete[OF Suc.prems(5) True sh] show ?thesis by blast
  next
    case False
    then have L: "Suc n < sl_levels s" using Suc.prems(6) by simp
    have p: "T ?parent = Some (take n (indices s iova))" "length (take n (indices s iova)) = n"
      using Suc.prems(5,6) by (auto simp: built_def)
    show ?thesis
    proof (cases "pm_read_entry M m ?parent ?i")
      case (Inl e)
      then have "r = Err (MemoryFault e)" "s' = s" "m' = m" "links' = links" using Suc.prems(7) False by (simp_all add: list Let_def)
      with Suc.prems show ?thesis by blast
    next
      case (Inr entry)
      obtain t where t: "view m ?parent = Some t" "t ?i = entry" using read_Ok[OF Suc.prems(1) Inr] by blast
      obtain r1 s1 m1 links1 where call: "child_table M s m ?path n ?parent ?i entry links = (r1, s1, m1, links1)"
        by (metis prod_cases4)
      obtain T1 where T1: "ok m1" "s1 = s \<or> s1 = poison s" "consistent s (view m1) T1" "fresh s T1 (rev links1)" "T \<subseteq>\<^sub>m T1"
        "s1 = s \<longrightarrow> quiet s (view m1) T1" "\<And>c. r1 = Ok c \<Longrightarrow> s1 = s \<and> T1 c = Some (take n (indices s iova) @ [?i])"
        using child_table_sound[OF Suc.prems(1-4) assms(4) p(1) _ t call] L p(2) by auto
      show ?thesis
      proof (cases r1)
        case (Inl e)
        then have "r = Err e" "s' = s1" "m' = m1" "links' = links1"
          using Suc.prems(7) False \<open>pm_read_entry M m ?parent ?i = Ok entry\<close> call by (simp_all add: list Let_def)
        with T1 show ?thesis by blast
      next
        case (Inr c)
        note c = T1(7)[OF Inr]
        show ?thesis
        proof (cases "c \<in> set (take (n + 1) (pa_frames path))")
          case True
          then have "r = Err MalformedEntry" "s' = poison s" "m' = m1" "links' = links1"
            using Suc.prems(7) False \<open>pm_read_entry M m ?parent ?i = Ok entry\<close> call Inr c by (simp_all add: list Let_def)
          with T1 poison_changes[OF assms(4)] show ?thesis by auto
        next
          case new: False
          let ?path1 = "?path\<lparr>pa_frames := (pa_frames ?path)[n + 1 := c]\<rparr>"
          have "build_path M iova [Suc n ..< sl_levels s] s m1 ?path1 links1 = (r, s', m', path', links')"
            using Suc.prems(7) False \<open>pm_read_entry M m ?parent ?i = Ok entry\<close> call Inr c new by (simp add: list Let_def)
          moreover have "built s iova T1 ?path1 (Suc n)" using built_next[OF Suc.prems(5) L sh T1(5)] c by simp
          ultimately show ?thesis using Suc.hyps(1)[of "Suc n" m1 T1 links1 ?path1] Suc.hyps(2) T1 c L by simp
        qed
      qed
    qed
  qed
qed simp

lemma abort_map_sound:
  assumes "ok m" and "consistent s (view m) T" and "fresh s T (rev links)" and "s' = s \<or> s' = poison s"
    and "sl_state s' = Operational \<longrightarrow> quiet s (view m) T" and "abort_map M links error s s' m = (r, s'', m')"
  shows "ok m' \<and> tables_ok s'' (view m')"
proof -
  obtain r1 where rb: "rollback_links M (rev links) m = (r1, m')"
    using assms(6) by (auto simp: abort_map_def rollback_new_links_def split: prod.splits sum.splits)
  obtain T' where T': "ok m'" "consistent s (view m') T'" "r1 = Ok () \<longrightarrow> quiet s (view m) T \<longrightarrow> quiet s (view m') T'"
    using rollback_links_sound[OF assms(1-3) rb] by blast
  have "r1 = Ok () \<and> s'' = s' \<or> s'' = poison s"
    using assms(6) rb by (auto simp: abort_map_def rollback_new_links_def split: sum.splits)
  moreover have "quiet (poison s) H T = quiet s H T" for H T by (simp add: quiet_def)
  ultimately show ?thesis using T' assms(4,5) by (auto simp: tables_ok_def)
qed

end

lemma frame_known_publish:
  assumes "frame_is_known (s\<lparr>sl_slots := (sl_slots s)[j := (sl_slots s ! j)\<lparr>ms_record := Some r\<rparr>]\<rparr>) f" and "rec_at s j = None"
  shows "frame_is_known s f \<or> f \<in> set (take (pa_depth (mr_path r)) (pa_frames (mr_path r)))"
proof -
  let ?s = "s\<lparr>sl_slots := (sl_slots s)[j := (sl_slots s ! j)\<lparr>ms_record := Some r\<rparr>]\<rparr>"
  have rec: "rec_at ?s k = (if k = j \<and> j < length (sl_slots s) then Some r else rec_at s k)" for k
    by (auto simp: rec_at_def nth_list_update)
  from assms(1) consider "f = sl_root s" | k q where "rec_at ?s k = Some q" "f \<in> set (take (pa_depth (mr_path q) - mr_cleanup_depth q) (pa_frames (mr_path q)))"
    unfolding frame_known_iff[of ?s] by auto
  then show ?thesis
  proof cases
    case 2
    show ?thesis
    proof (cases "k = j \<and> j < length (sl_slots s)")
      case True
      then have "q = r" using 2(1) rec by simp
      with 2(2) set_take_subset_set_take[of "pa_depth (mr_path r) - mr_cleanup_depth r" "pa_depth (mr_path r)"] show ?thesis by fastforce
    next
      case False
      then have "rec_at s k = Some q" using 2(1) rec[of k] by argo
      with 2(2) show ?thesis unfolding frame_known_iff[of s] by blast
    qed
  qed (simp add: frame_known_iff)
qed

text \<open>A record and its leaf are entered into the ledger and the tree.\<close>

lemma tables_ok_publish:
  assumes con: "consistent s H T" and qu: "quiet s H T" and path: "complete s iova T path"
    and j: "j < length (sl_slots s)" "rec_at s j = None"
    and v: "validate_iova s iova = Ok ()" "page_address pa" "b \<in> {1, 2, 3}"
    and new: "\<And>k q. rec_at s k = Some q \<Longrightarrow> mr_iova q \<noteq> iova \<and> mr_physical_address q \<noteq> pa"
    and t: "H (pa_frames path ! (sl_levels s - 1)) = Some t" "t (pa_indices path ! (sl_levels s - 1)) = 0"
    and r: "r = \<lparr>mr_iova = iova, mr_physical_address = pa, mr_leaf = pa OR b, mr_path = path, mr_cleanup_depth = 0, mr_phase = AwaitingMapInvalidation\<rparr>"
  shows "tables_ok (s\<lparr>sl_slots := (sl_slots s)[j := (sl_slots s ! j)\<lparr>ms_record := Some r\<rparr>]\<rparr>)
    (H(pa_frames path ! (sl_levels s - 1) \<mapsto> t(pa_indices path ! (sl_levels s - 1) := pa OR b)))"
proof -
  note sh = consistentD(1)[OF con]
  have ok: "record_ok s r" using v path sh by (auto simp: record_ok_def r complete_def path_shape_def slpt_shape_def)
  have i: "pa_indices path ! (sl_levels s - 1) = index_at s iova (sl_levels s - 1)"
    using record_path(1)[OF ok sh, of "sl_levels s - 1"] sh by (simp add: r slpt_shape_def)
  let ?s = "s\<lparr>sl_slots := (sl_slots s)[j := (sl_slots s ! j)\<lparr>ms_record := Some r\<rparr>]\<rparr>"
  let ?H = "H(pa_frames path ! (sl_levels s - 1) \<mapsto> t(pa_indices path ! (sl_levels s - 1) := pa OR b))"
  have "consistent ?s ?H T"
    using consistent_publish[OF con j ok] path new t i by (simp add: r mapped_def complete_def)
  moreover have "quiet ?s ?H T"
  proof -
    have inT: "T f \<noteq> None" if "f \<in> set (take (pa_depth path) (pa_frames path))" for f
      using that path by (auto simp: complete_def path_shape_def in_set_conv_nth)
    have "quiet ?s H T"
      by (rule quiet_mono[OF qu]) (use frame_known_publish[OF _ j(2), of r] inT in \<open>auto simp: r\<close>)
    moreover have "T (pa_frames path ! (sl_levels s - 1)) \<noteq> None" using path sh by (simp add: complete_def slpt_shape_def)
    ultimately show ?thesis by (auto simp: quiet_def)
  qed
  ultimately show ?thesis unfolding tables_ok_def by blast
qed

lemma tables_ok_phase:
  assumes "tables_ok s H" and r: "rec_at s j = Some r"
    and g: "mr_iova (g r) = mr_iova r" "mr_physical_address (g r) = mr_physical_address r" "mr_leaf (g r) = mr_leaf r"
      "mr_path (g r) = mr_path r" "mapped (g r) = mapped r" "mr_cleanup_depth r \<le> mr_cleanup_depth (g r)" "record_ok s (g r)"
  shows "tables_ok (update_record j g s) H"
proof -
  obtain T where T: "consistent s H T" "sl_state s = Operational \<longrightarrow> quiet s H T" using assms(1) by (auto simp: tables_ok_def)
  have "frame_is_known s f" if "frame_is_known (update_record j g s) f" for f
  proof -
    have sub: "set (take (pa_depth (mr_path r) - mr_cleanup_depth (g r)) (pa_frames (mr_path r)))
        \<subseteq> set (take (pa_depth (mr_path r) - mr_cleanup_depth r) (pa_frames (mr_path r)))"
      using g(6) by (intro set_take_subset_set_take) simp
    from that show ?thesis unfolding frame_known_iff using r g(4) sub by (auto split: if_splits)
  qed
  with T consistent_update[where g = g, OF T(1) r g] quiet_mono[of s H T "update_record j g s"] show ?thesis by (auto simp: tables_ok_def)
qed

lemma record_ok_phase: "record_ok s r \<Longrightarrow> mapped r \<Longrightarrow> record_ok s (r\<lparr>mr_phase := p\<rparr>)"
  by (auto simp: record_ok_def mapped_def)

lemma tables_ok_record: "tables_ok s H \<Longrightarrow> rec_at s j = Some r \<Longrightarrow> record_ok s r"
  using ledgerD(1) by (auto simp: tables_ok_def consistent_def)

lemma tables_ok_active:
  assumes "tables_ok s H" and "rec_at s j = Some r" and "mapped r"
  shows "tables_ok (update_record j (\<lambda>r. r\<lparr>mr_phase := Active\<rparr>) s) H"
  by (rule tables_ok_phase[OF assms(1,2)])
    (use record_ok_phase[OF tables_ok_record[OF assms(1,2)] assms(3)] assms(3) in \<open>simp_all add: mapped_def\<close>)

context slpt_page_memory
begin

lemma publish_leaf_sound:
  assumes m: "ok m" and con: "consistent s (view m) T" and qu: "quiet s (view m) T" and fr: "fresh s T (rev links)"
    and path: "complete s iova T path" and j: "j < length (sl_slots s)" "rec_at s j = None"
    and v: "validate_iova s iova = Ok ()" "page_address pa" "b \<in> {1, 2, 3}"
    and new: "\<And>k q. rec_at s k = Some q \<Longrightarrow> mr_iova q \<noteq> iova \<and> mr_physical_address q \<noteq> pa"
    and call: "publish_leaf M I iova pa b j path links s m i = (r, s', m', i')"
  shows "ok m' \<and> tables_ok s' (view m')"
proof -
  let ?f = "pa_frames path ! (sl_levels s - 1)" and ?n = "pa_indices path ! (sl_levels s - 1)"
  let ?r = "\<lparr>mr_iova = iova, mr_physical_address = pa, mr_leaf = pa OR b, mr_path = path, mr_cleanup_depth = 0, mr_phase = AwaitingMapInvalidation\<rparr>"
  have abort: ?thesis if "ok m1" "view m1 = view m" "abort_map M links e s s1 m1 = (r, s', m')" "s1 = s \<or> s1 = poison s" for e s1 m1
    using abort_map_sound[OF that(1) _ fr that(4) _ that(3)] con qu that(2) by simp
  show ?thesis
  proof (cases "pm_read_entry M m ?f ?n")
    case (Inl e)
    with call abort[OF m] show ?thesis by (auto simp: publish_leaf_def Let_def split: prod.splits)
  next
    case (Inr entry)
    obtain t where t: "view m ?f = Some t" "t ?n = entry" using read_Ok[OF m Inr] by blast
    show ?thesis
    proof (cases "entry = 0")
      case False
      with call Inr abort[OF m] show ?thesis by (auto simp: publish_leaf_def Let_def split: prod.splits)
    next
      case True
      obtain r1 m1 where w: "pm_write_entry M ?f ?n (pa OR b) m = (r1, m1)" by (cases "pm_write_entry M ?f ?n (pa OR b) m")
      show ?thesis
      proof (cases r1)
        case (Inl e)
        with call \<open>pm_read_entry M m ?f ?n = Ok entry\<close> True w write_Err[OF m] abort[of m1] show ?thesis
          by (auto simp: publish_leaf_def Let_def split: prod.splits)
      next
        case (Inr u)
        have m1: "ok m1" "view m1 = (view m)(?f \<mapsto> t(?n := pa OR b))" using write_Ok[OF m w[unfolded Inr]] t(1) by auto
        let ?s = "s\<lparr>sl_slots := (sl_slots s)[j := (sl_slots s ! j)\<lparr>ms_record := Some ?r\<rparr>]\<rparr>"
        have tab: "tables_ok ?s (view m1)"
          unfolding m1(2) using tables_ok_publish[OF con qu path j v new t(1)] t(2) True by simp
        have "rec_at ?s j = Some ?r" using j(1) by (simp add: rec_at_def)
        from tables_ok_active[OF tab this] have act: "tables_ok (update_record j (\<lambda>r. r\<lparr>mr_phase := Active\<rparr>) ?s) (view m1)"
          by (simp add: mapped_def)
        have "m' = m1" "s' = ?s \<or> s' = update_record j (\<lambda>r. r\<lparr>mr_phase := Active\<rparr>) ?s"
          using call \<open>pm_read_entry M m ?f ?n = Ok entry\<close> True w Inr by (auto simp: publish_leaf_def Let_def split: prod.splits sum.splits)
        with tab act m1(1) show ?thesis by auto
      qed
    qed
  qed
qed

lemma built_start:
  assumes "consistent s H T"
  shows "built s iova T ((path_empty (sl_levels s))\<lparr>pa_frames := (pa_frames (path_empty (sl_levels s)))[0 := sl_root s]\<rparr>) 0"
  using treeD(1)[OF consistentD(2)[OF assms]] by (simp add: built_def path_shape_def path_empty_def)

lemma map_page_sound:
  assumes m: "ok m" and tab: "tables_ok s (view m)" and call: "map_page M I iova pa perms s m i = (r, s', m', i')"
  shows "ok m' \<and> tables_ok s' (view m')"
proof (cases "s' = s \<and> m' = m")
  case False
  obtain b j where op: "sl_state s = Operational" and v: "validate_iova s iova = Ok ()" "validate_mapped_physical_address pa = Ok ()"
      "permission_bits perms = Ok b"
    and none: "List.find (\<lambda>r. mr_iova r = iova \<or> mr_physical_address r = pa) (List.map_filter ms_record (sl_slots s)) = None"
    and pos: "position (\<lambda>slot. ms_record slot = None \<and> \<not> ms_retired slot) (sl_slots s) = Some j"
    using call False by (auto simp: map_page_def split: if_splits sum.splits option.splits)
  let ?path = "(path_empty (sl_levels s))\<lparr>pa_frames := (pa_frames (path_empty (sl_levels s)))[0 := sl_root s]\<rparr>"
  obtain T where con: "consistent s (view m) T" and qu: "quiet s (view m) T" using tab op by (auto simp: tables_ok_def)
  obtain r1 s1 m1 path links where b: "build_path M iova [0 ..< sl_levels s] s m ?path [] = (r1, s1, m1, path, links)"
    by (metis prod_cases5)
  have "0 < sl_levels s" using consistentD(1)[OF con] by (simp add: slpt_shape_def)
  then obtain T1 where T1: "ok m1" "s1 = s \<or> s1 = poison s" "consistent s (view m1) T1" "fresh s T1 (rev links)"
    "s1 = s \<longrightarrow> quiet s (view m1) T1" "r1 = Ok () \<longrightarrow> s1 = s \<and> complete s iova T1 path"
    using build_path_sound[OF m con qu op _ built_start[OF con] _ b] by auto
  show ?thesis
  proof (cases r1)
    case (Inl e)
    then have ab: "abort_map M links e s1 (if e = RollbackFailed then poison s1 else s1) m1 = (r, s', m')"
      using call op v none pos b by (auto simp: map_page_def Let_def split: prod.splits)
    have "consistent s1 (view m1) T1" "fresh s1 T1 (rev links)" "sl_state s1 = Operational \<longrightarrow> quiet s1 (view m1) T1" using T1 by auto
    then show ?thesis by (intro abort_map_sound[OF T1(1) _ _ _ _ ab]) auto
  next
    case (Inr u)
    have j: "j < length (sl_slots s)" "rec_at s j = None" using position_SomeD[OF pos] by (auto simp: rec_at_def)
    have pa: "page_address pa" using v(2) by (auto simp: validate_mapped_physical_address_def intro: page_addressI split: if_splits)
    have bits: "b \<in> {1, 2, 3}" using v(3) by (auto simp: permission_bits_def Let_def split: if_splits)
    have new: "mr_iova q \<noteq> iova \<and> mr_physical_address q \<noteq> pa" if "rec_at s k = Some q" for k q
      using that none map_filter_records[of q s] by (auto simp: find_None_iff)
    have pub: "publish_leaf M I iova pa b j path links s m1 i = (r, s', m', i')"
      using call op v none pos b Inr T1(6) by (simp add: map_page_def Let_def)
    from T1 Inr show ?thesis by (intro publish_leaf_sound[OF T1(1,3) _ T1(4) _ j v(1) pa bits new pub]) auto
  qed
qed (use m tab in simp)

end

text \<open>The tables of a page that is being unmapped: while the ledger is operational, a table it lists
  and the memory still holds is in the tree where it was.\<close>

lemma listed_place:
  assumes con: "consistent s H T" and qu: "quiet s H T" and r: "rec_at s j = Some r" and k: "k < sl_levels s - mr_cleanup_depth r"
    and "H (pa_frames (mr_path r) ! k) \<noteq> None"
  shows "T (pa_frames (mr_path r) ! k) = Some (take k (indices s (mr_iova r)))"
proof -
  note ok = ledgerD(1)[OF consistentD(3)[OF con] r]
  have "frame_is_known s (pa_frames (mr_path r) ! k)" by (rule listed_known[OF r ok consistentD(1)[OF con] k])
  with qu assms(5) have "T (pa_frames (mr_path r) ! k) \<noteq> None" by (auto simp: quiet_def)
  with ledgerD(2)[OF consistentD(3)[OF con] r] k show ?thesis by (auto simp: record_retained_def)
qed

context slpt_page_memory
begin

lemma listed_parent:
  assumes con: "consistent s H T" and qu: "quiet s H T" and r: "rec_at s j = Some r"
    and k: "0 < k" "k < sl_levels s - mr_cleanup_depth r"
    and c: "H (pa_frames (mr_path r) ! k) \<noteq> None" and f: "H (pa_frames (mr_path r) ! (k - 1)) \<noteq> None"
  obtains p where "T (pa_frames (mr_path r) ! (k - 1)) = Some p" and "T (pa_frames (mr_path r) ! k) = Some (p @ [pa_indices (mr_path r) ! (k - 1)])"
proof
  note sh = consistentD(1)[OF con] and ok = ledgerD(1)[OF consistentD(3)[OF con] r]
  let ?p = "take (k - 1) (indices s (mr_iova r))"
  show "T (pa_frames (mr_path r) ! (k - 1)) = Some ?p" by (rule listed_place[OF con qu r _ f]) (use k in simp)
  have "T (pa_frames (mr_path r) ! k) = Some (take k (indices s (mr_iova r)))" by (rule listed_place[OF con qu r k(2) c])
  moreover have "pa_indices (mr_path r) ! (k - 1) = index_at s (mr_iova r) (k - 1)" by (rule record_path(1)[OF ok sh]) (use k in simp)
  moreover have "Suc (k - 1) = k" "k - 1 < sl_levels s" using k by simp_all
  ultimately show "T (pa_frames (mr_path r) ! k) = Some (?p @ [pa_indices (mr_path r) ! (k - 1)])"
    using take_indices_Suc[of "k - 1" s "mr_iova r"] by metis
qed

lemma reclaim_round_sound:
  assumes m: "ok m" and con: "consistent s (view m) T" and qu: "quiet s (view m) T" and r: "rec_at s j = Some r"
    and rel: "Suc (mr_cleanup_depth r) < sl_levels s" and call: "reclaim_round M I r m i = (res, m', i')"
  shows "ok m' \<and> (\<exists>T'. consistent s (view m') T' \<and> (res \<noteq> Err ReclaimFatal \<longrightarrow> quiet s (view m') T'))"
proof -
  note ok = ledgerD(1)[OF consistentD(3)[OF con] r]
  let ?k = "sl_levels s - 1 - mr_cleanup_depth r"
  let ?c = "pa_frames (mr_path r) ! ?k" and ?f = "pa_frames (mr_path r) ! (?k - 1)" and ?i = "pa_indices (mr_path r) ! (?k - 1)"
  have depth: "pa_depth (mr_path r) = sl_levels s" using ok by (simp add: record_ok_def)
  have keep: ?thesis if "m' = m" using that m con qu by blast
  show ?thesis
  proof (cases "table_is_empty M m ?c = Ok True \<and> pm_read_entry M m ?f ?i = Ok (?c OR PERMISSION_MASK)")
    case False
    then have "m' = m" using call depth by (auto simp: reclaim_round_def Let_def split: sum.splits if_splits)
    then show ?thesis by (rule keep)
  next
    case True
    obtain u where u: "view m ?c = Some u" "\<And>n. u n = 0" using table_is_empty_True[OF m] True by blast
    obtain t where t: "view m ?f = Some t" "t ?i = ?c OR PERMISSION_MASK" using read_Ok[OF m] True by blast
    obtain p where Tf: "T ?f = Some p" and Tc': "T ?c = Some (p @ [?i])"
      by (rule listed_parent[OF con qu r, of ?k]) (use rel u(1) t(1) in auto)
    have fc: "?f \<noteq> ?c" using Tf Tc' by auto
    obtain r1 m1 where w: "pm_write_entry M ?f ?i 0 m = (r1, m1)" by (cases "pm_write_entry M ?f ?i 0 m")
    show ?thesis
    proof (cases r1)
      case (Inl e)
      then have "m' = m1" "res = Err (ReclaimMemory e)" using call depth True w by (auto simp: reclaim_round_def Let_def)
      with write_Err[OF m] w Inl con qu show ?thesis by auto
    next
      case (Inr u1)
      have m1: "ok m1" "view m1 = (view m)(?f \<mapsto> t(?i := 0))" using write_Ok[OF m w[unfolded Inr]] t(1) by auto
      have det: "consistent s (view m1) (T(?c := None))"
        unfolding m1(2) by (rule consistent_detach[OF con Tc' u Tf t(1)])
      have restored: ?thesis if "ok m2" "view m2 = view m1" "pm_write_entry M ?f ?i (?c OR PERMISSION_MASK) m2 = (r3, m')"
          "\<And>e. r3 = Err e \<Longrightarrow> res = Err ReclaimFatal" for m2 r3
        using relink[where H = "view m" and t = t and i = ?i, OF that(1) _ t that(3)] that(2,4) m1(2) con qu det by (cases r3) auto
      obtain ri i1 where inv: "I (mr_iova r) i = (ri, i1)" by (cases "I (mr_iova r) i")
      obtain r2 m2 where l: "pm_release_table M ?c m1 = (r2, m2)" by (cases "pm_release_table M ?c m1")
      obtain r3 m3 where w3: "pm_write_entry M ?f ?i (?c OR PERMISSION_MASK) m1 = (r3, m3)"
        by (cases "pm_write_entry M ?f ?i (?c OR PERMISSION_MASK) m1")
      obtain r4 m4 where w4: "pm_write_entry M ?f ?i (?c OR PERMISSION_MASK) m2 = (r4, m4)"
        by (cases "pm_write_entry M ?f ?i (?c OR PERMISSION_MASK) m2")
      consider (refused) e where "ri = Err e" | (unreleased) v e where "ri = Ok v" "r2 = Err e" | (released) v v2 where "ri = Ok v" "r2 = Ok v2"
        by (cases ri; cases r2) auto
      then show ?thesis
      proof cases
        case refused
        then have "m' = m3" "\<And>e. r3 = Err e \<Longrightarrow> res = Err ReclaimFatal"
          using call depth True w Inr inv w3 by (auto simp: reclaim_round_def Let_def split: sum.splits)
        with restored[OF m1(1) refl] w3 show ?thesis by blast
      next
        case unreleased
        then have "m' = m4" "\<And>e. r4 = Err e \<Longrightarrow> res = Err ReclaimFatal"
          using call depth True w Inr inv l w4 by (auto simp: reclaim_round_def Let_def split: sum.splits)
        moreover have "ok m2" "view m2 = view m1" using release_Err[OF m1(1)] l unreleased by auto
        ultimately show ?thesis using restored[of m2 r4] w4 by blast
      next
        case released
        then have "m' = m2" "res = Ok True"
          using call depth True w Inr inv l by (auto simp: reclaim_round_def Let_def)
        moreover have m2: "ok m2" "view m2 = (view m1)(?c := None)" using release_Ok[OF m1(1)] l released by auto
        moreover have "consistent s (view m2) (T(?c := None))" unfolding m2(2) by (rule consistent_other[OF det]) simp
        moreover have "quiet s (view m2) (T(?c := None))"
          by (rule quiet_step[OF qu]) (use Tf fc m1(2) m2(2) in \<open>auto split: if_splits\<close>)
        ultimately show ?thesis by auto
      qed
    qed
  qed
qed

end

lemma tables_ok_retire:
  assumes "tables_ok s H" and "rec_at s j = Some r" and "\<not> mapped r"
  shows "tables_ok (retire_slot j s) H"
proof -
  obtain T where T: "consistent s H T" "sl_state s = Operational \<longrightarrow> quiet s H T" using assms(1) by (auto simp: tables_ok_def)
  have "frame_is_known s f" if "frame_is_known (retire_slot j s) f" for f
    using that unfolding frame_known_iff by (auto split: if_splits)
  with T consistent_retire[OF T(1) assms(2,3)] quiet_mono[of s H T "retire_slot j s"] show ?thesis by (auto simp: tables_ok_def)
qed

lemma tables_ok_poison: "consistent s H T \<Longrightarrow> tables_ok (poison s) H"
  by (auto simp: tables_ok_def)

lemma record_index_Ok: "record_index s h = Ok j \<Longrightarrow> \<exists>r. rec_at s j = Some r \<and> ms_record (sl_slots s ! j) = Some r"
  by (auto simp: record_index_def rec_at_def Let_def split: if_splits)

context slpt_page_memory
begin

lemma reclaim_loop_sound:
  assumes "ok m" and "tables_ok s (view m)" and "sl_state s = Operational" and "rec_at s j = Some r" and "\<not> mapped r"
    and "rounds = sl_levels s - 1 - mr_cleanup_depth r" and "reclaim_loop M I rounds j s m i = (res, s', m', i')"
  shows "ok m' \<and> (\<exists>T. consistent s' (view m') T) \<and> sl_state s' = Operational
    \<and> (res \<noteq> Err ReclaimFatal \<longrightarrow> tables_ok s' (view m')) \<and> (\<exists>r'. rec_at s' j = Some r' \<and> \<not> mapped r')"
  using assms
proof (induction rounds arbitrary: s m i r)
  case 0
  then show ?case by (auto simp: tables_ok_def)
next
  case (Suc rounds)
  obtain T where T: "consistent s (view m) T" "quiet s (view m) T" using Suc.prems(2,3) by (auto simp: tables_ok_def)
  have slot: "ms_record (sl_slots s ! j) = Some r" using Suc.prems(4) by (simp add: rec_at_def split: if_splits)
  have rel: "Suc (mr_cleanup_depth r) < sl_levels s" using Suc.prems(6) by simp
  obtain r1 m1 i1 where call: "reclaim_round M I r m i = (r1, m1, i1)" by (metis prod_cases3)
  obtain T1 where T1: "ok m1" "consistent s (view m1) T1" "r1 \<noteq> Err ReclaimFatal \<longrightarrow> quiet s (view m1) T1"
    using reclaim_round_sound[OF Suc.prems(1) T Suc.prems(4) rel call] by blast
  have tab: "tables_ok s (view m1)" if "r1 \<noteq> Err ReclaimFatal" using T1 that by (auto simp: tables_ok_def)
  show ?case
  proof (cases "r1 = Ok True")
    case True
    let ?g = "\<lambda>r. r\<lparr>mr_cleanup_depth := mr_cleanup_depth r + 1\<rparr>"
    let ?s = "update_record j ?g s"
    have "record_ok s (?g r)" using tables_ok_record[OF Suc.prems(2,4)] rel Suc.prems(5) by (auto simp: record_ok_def mapped_def)
    then have "tables_ok ?s (view m1)" using tab True by (intro tables_ok_phase[OF _ Suc.prems(4)]) (auto simp: mapped_def)
    moreover have "reclaim_loop M I rounds j ?s m1 i1 = (res, s', m', i')" using Suc.prems(7) slot call True by simp
    moreover have "rec_at ?s j = Some (?g r)" "\<not> mapped (?g r)" using Suc.prems(4,5) by (auto simp: mapped_def)
    moreover have "rounds = sl_levels ?s - 1 - mr_cleanup_depth (?g r)" "sl_state ?s = Operational" using Suc.prems(3,6) by simp_all
    ultimately show ?thesis using Suc.IH[OF T1(1)] by blast
  next
    case False
    then have "s' = s" "m' = m1" "res = Ok () \<and> r1 = Ok False \<or> (\<exists>e. res = Err e \<and> r1 = Err e)"
      using Suc.prems(7) slot call by (auto split: sum.splits if_splits)
    with T1 tab Suc.prems(3-5) show ?thesis by auto
  qed
qed

lemma finish_cleanup_sound:
  assumes "ok m" and "tables_ok s (view m)" and "sl_state s = Operational" and "rec_at s j = Some r" and "\<not> mapped r"
    and "finish_cleanup M I h j s m i = (res, s', m', i')"
  shows "ok m' \<and> tables_ok s' (view m')"
proof -
  have slot: "ms_record (sl_slots s ! j) = Some r" using assms(4) by (simp add: rec_at_def split: if_splits)
  have depth: "pa_depth (mr_path r) = sl_levels s" using tables_ok_record[OF assms(2,4)] by (simp add: record_ok_def)
  obtain r1 s1 m1 i1 where call: "reclaim_loop M I (sl_levels s - 1 - mr_cleanup_depth r) j s m i = (r1, s1, m1, i1)"
    by (metis prod_cases4)
  obtain r' T where s1: "ok m1" "consistent s1 (view m1) T" "r1 \<noteq> Err ReclaimFatal \<longrightarrow> tables_ok s1 (view m1)" "rec_at s1 j = Some r'" "\<not> mapped r'"
    using reclaim_loop_sound[OF assms(1-5) refl call] by blast
  have "m' = m1" "r1 = Ok () \<and> s' = retire_slot j s1 \<or> r1 = Err ReclaimFatal \<and> s' = poison s1 \<or> r1 \<noteq> Err ReclaimFatal \<and> s' = s1"
    using assms(6) slot depth call by (auto simp: finish_cleanup_def reclaim_empty_tables_def split: sum.splits reclaim_error.splits)
  with s1 tables_ok_retire[OF _ s1(4,5)] tables_ok_poison[OF s1(2)] show ?thesis by auto
qed

lemma finish_unmap_sound:
  assumes m: "ok m" and tab: "tables_ok s (view m)" and call: "finish_unmap M I h s m i = (res, s', m', i')"
  shows "ok m' \<and> tables_ok s' (view m')"
proof (cases "s' = s \<and> m' = m")
  case False
  then obtain j r where op: "sl_state s = Operational" and j: "record_index s h = Ok j" and r: "ms_record (sl_slots s ! j) = Some r"
    using call by (auto simp: finish_unmap_def split: if_splits sum.splits option.splits)
  have rec: "rec_at s j = Some r" using record_index_Ok[OF j] r by auto
  let ?g = "\<lambda>r. r\<lparr>mr_phase := AwaitingCleanup\<rparr>"
  consider (pending) i1 where "mr_phase r = AwaitingUnmapInvalidation" "finish_cleanup M I h j (update_record j ?g s) m i1 = (res, s', m', i')"
    | (cleanup) "mr_phase r = AwaitingCleanup" "finish_cleanup M I h j s m i = (res, s', m', i')"
    using call False op j r by (auto simp: finish_unmap_def split: if_splits sum.splits prod.splits)
  then show ?thesis
  proof cases
    case pending
    have "record_ok s (?g r)" using tables_ok_record[OF tab rec] by (auto simp: record_ok_def mapped_def)
    then have "tables_ok (update_record j ?g s) (view m)"
      using pending(1) by (intro tables_ok_phase[OF tab rec]) (auto simp: mapped_def)
    then show ?thesis using finish_cleanup_sound[OF m _ _ _ _ pending(2), of "?g r"] rec op by (simp add: mapped_def)
  next
    case cleanup
    then show ?thesis using finish_cleanup_sound[OF m tab op rec _ cleanup(2)] by (simp add: mapped_def)
  qed
qed (use m tab in simp)

lemma withdraw_leaf_sound:
  assumes m: "ok m" and tab: "tables_ok s (view m)" and phase: "phase = Active \<or> phase = AwaitingMapInvalidation"
    and call: "withdraw_leaf phase fault M I h s m i = (res, s', m', i')"
  shows "ok m' \<and> tables_ok s' (view m')"
proof (cases "s' = s \<and> m' = m")
  case False
  then obtain j r where op: "sl_state s = Operational" and j: "record_index s h = Ok j" and r: "ms_record (sl_slots s ! j) = Some r" and ph: "mr_phase r = phase"
    using call by (auto simp: withdraw_leaf_def split: if_splits sum.splits option.splits)
  have rec: "rec_at s j = Some r" using record_index_Ok[OF j] r by auto
  have map: "mapped r" using ph phase by (auto simp: mapped_def)
  obtain T where T: "consistent s (view m) T" "quiet s (view m) T" using tab op by (auto simp: tables_ok_def)
  note sh = consistentD(1)[OF T(1)] and ok = tables_ok_record[OF tab rec]
  let ?f = "pa_frames (mr_path r) ! (sl_levels s - 1)" and ?i = "index_at s (mr_iova r) (sl_levels s - 1)"
  have d: "pa_depth (mr_path r) = sl_levels s" "pa_indices (mr_path r) ! (sl_levels s - 1) = ?i"
    using ok record_path(1)[OF ok sh] sh by (auto simp: record_ok_def slpt_shape_def)
  let ?s = "update_record j (\<lambda>r. r\<lparr>mr_phase := AwaitingUnmapInvalidation\<rparr>) s"
  consider (mismatch) "s' = poison s" "m' = m" | (failed) e where "s' = s" "pm_write_entry M ?f ?i 0 m = (Err e, m')"
    | (written) u m1 where "pm_write_entry M ?f ?i 0 m = (Ok u, m1)" "finish_unmap M I h ?s m1 i = (res, s', m', i')"
    using call False op j r ph d by (auto simp: withdraw_leaf_def Let_def split: if_splits sum.splits prod.splits)
  then show ?thesis
  proof cases
    case mismatch
    then show ?thesis using m tables_ok_poison[OF T(1)] by simp
  next
    case failed
    then show ?thesis using write_Err[OF m failed(2)] tab by simp
  next
    case written
    obtain t where t: "ok m1" "view m ?f = Some t" "view m1 = (view m)(?f \<mapsto> t(?i := 0))" using write_Ok[OF m written(1)] by blast
    have "consistent ?s (view m1) T" unfolding t(3) by (rule consistent_withdraw[OF T(1) rec map t(2)])
    moreover have "quiet ?s (view m1) T"
    proof -
      have "T ?f \<noteq> None" using leaf_table(1)[OF sh ledgerD(3)[OF consistentD(3)[OF T(1)] rec map]] by simp
      moreover have "frame_is_known s g" if "frame_is_known ?s g" for g
        using that rec unfolding frame_known_iff by (auto split: if_splits)
      ultimately show ?thesis using T(2) t(3) by (auto simp: quiet_def)
    qed
    ultimately have "tables_ok ?s (view m1)" by (auto simp: tables_ok_def)
    then show ?thesis by (rule finish_unmap_sound[OF t(1) _ written(2)])
  qed
qed (use m tab in simp)

end

section \<open>Sequences of calls\<close>

inductive slpt_step :: "'m page_memory \<Rightarrow> 'i invalidator \<Rightarrow> ('m \<Rightarrow> 'm \<Rightarrow> bool) \<Rightarrow> slpt \<times> 'm \<times> 'i \<Rightarrow> slpt \<times> 'm \<times> 'i \<Rightarrow> bool"
  for M I env where
  mapping: "map_page M I iova pa permissions s m i = (r, s', m', i') \<Longrightarrow> slpt_step M I env (s, m, i) (s', m', i')"
| map_retry: "finish_map I receipt s i = (r, s', i') \<Longrightarrow> slpt_step M I env (s, m, i) (s', m, i')"
| unmapping: "unmap_page M I handle s m i = (r', s', m', i') \<Longrightarrow> slpt_step M I env (s, m, i) (s', m', i')"
| cancelling: "cancel_pending_map M I receipt s m i = (r', s', m', i') \<Longrightarrow> slpt_step M I env (s, m, i) (s', m', i')"
| unmap_retry: "finish_unmap M I receipt s m i = (r', s', m', i') \<Longrightarrow> slpt_step M I env (s, m, i) (s', m', i')"
| elsewhere: "env m m' \<Longrightarrow> slpt_step M I env (s, m, i) (s, m', i)"

lemma attach_geometry:
  assumes "attach N M m root config = Ok s"
  shows "slpt_shape s" and "sl_root s = root" and "rec_at s j = None" and "sl_state s = Operational"
    and "entries_zero M m root [0 ..< ENTRIES_PER_TABLE] = Ok True"
proof -
  obtain w where w: "config_validate config = Ok w" "entries_zero M m root [0 ..< ENTRIES_PER_TABLE] = Ok True"
    and s: "s = \<lparr>sl_root = root, sl_adjusted_width = w, sl_levels = (w - SLPT_PAGE_SHIFT + 8) div 9,
      sl_slots = replicate N mapping_slot_EMPTY, sl_state = Operational\<rparr>"
    using assms by (auto simp: attach_def split: if_splits sum.splits)
  have "w \<in> {30, 39, 48, 57}"
    using w(1) by (auto simp: config_validate_def adjusted_guest_address_width_def split: option.splits if_splits)
  then show "slpt_shape s" by (auto simp: slpt_shape_def s)
  show "rec_at s j = None" by (simp add: s rec_at_def mapping_slot_EMPTY_def)
qed (use assms in \<open>auto simp: attach_def split: if_splits sum.splits\<close>)

lemma finish_map_sound:
  assumes "tables_ok s H" and "finish_map I h s i = (r, s', i')"
  shows "tables_ok s' H"
proof (cases "s' = s")
  case False
  then obtain j q where "record_index s h = Ok j" "ms_record (sl_slots s ! j) = Some q" "mr_phase q = AwaitingMapInvalidation"
    "s' = update_record j (\<lambda>r. r\<lparr>mr_phase := Active\<rparr>) s"
    using assms(2) by (auto simp: finish_map_def split: if_splits sum.splits option.splits prod.splits)
  with record_index_Ok[of s h j] tables_ok_active[OF assms(1), of j q] show ?thesis by (auto simp: mapped_def)
qed (use assms(1) in simp)

context slpt_page_memory
begin

lemma attach_sound:
  assumes "ok m" and "valid_frame root" and "attach N M m root config = Ok s"
  shows "tables_ok s (view m)"
proof -
  note at = attach_geometry[OF assms(3)]
  obtain t where t: "view m root = Some t" "\<And>n. t n = 0"
    using table_is_empty_True[OF assms(1), of root] at(5) by (auto simp: table_is_empty_def)
  let ?T = "[root \<mapsto> []] :: slpt_frame \<Rightarrow> nat list option"
  have "tree (sl_levels s) (sl_root s) (view m) ?T"
    by (rule treeI) (use at(1,2) t assms(2) in \<open>auto simp: slpt_shape_def split: if_splits\<close>)
  moreover have "ledger s (view m) ?T"
    by (rule ledgerI) (use at(3) t in \<open>auto split: if_splits\<close>)
  moreover have "quiet s (view m) ?T"
    unfolding quiet_def frame_known_iff using at(2,3) by auto
  ultimately show ?thesis using at(1) by (auto simp: tables_ok_def consistent_def)
qed

lemma slpt_step_sound:
  assumes "slpt_step M I env (s, m, i) (s', m', i')" and "ok m" and "tables_ok s (view m)"
  shows "ok m' \<and> tables_ok s' (view m')"
  using assms(1)
proof cases
  case (map_retry receipt r)
  then show ?thesis using assms(2,3) finish_map_sound by auto
next
  case (unmapping handle r')
  then show ?thesis using withdraw_leaf_sound[OF assms(2,3), of Active] by (simp add: unmap_page_def)
next
  case (cancelling receipt r')
  then show ?thesis using withdraw_leaf_sound[OF assms(2,3), of AwaitingMapInvalidation] by (simp add: cancel_pending_map_def)
next
  case elsewhere
  then show ?thesis using environment[OF assms(2)] assms(3) by auto
next
  case (mapping iova pa permissions r)
  from map_page_sound[OF assms(2,3) this] show ?thesis .
next
  case (unmap_retry receipt r')
  from finish_unmap_sound[OF assms(2,3) this] show ?thesis .
qed

sublocale tables: invariant_system "\<lambda>(s, m, i). ok m \<and> (\<exists>N root config. valid_frame root \<and> attach N M m root config = Ok s)"
  "slpt_step M I env" "\<lambda>(s, m, i). ok m \<and> tables_ok s (view m)" for I :: "'i invalidator"
  by unfold_locales (auto dest: attach_sound slpt_step_sound)

end

end
