(* ===== verification/VtdMemory.thy ===== *)
theory VtdMemory
  imports FramePool VtdSlpt
begin

text \<open>
  The memory behind the VT-d tables: the adapter \<open>DirectMapSlptMemory\<close> of
  \<^verbatim>\<open>src/kernel/boulder/src/hw/vtd_memory.rs\<close>, on the frame pool of \<open>FramePool\<close>. The direct map is
  a memory of 64-bit words indexed by virtual address. The adapter satisfies the contract
  \<open>slpt_page_memory\<close>, with the rest of the kernel allocating, releasing and writing frames the
  adapter does not own in between; so the theorems of \<open>VtdSlpt\<close> hold for the tables in it.
\<close>

section \<open>The adapter\<close>

abbreviation (input) TABLE_ENTRIES :: nat where "TABLE_ENTRIES \<equiv> 512"
abbreviation (input) OUT_OF_FRAMES :: u64 where "OUT_OF_FRAMES \<equiv> 1"
abbreviation (input) PROVENANCE_CAPACITY_EXHAUSTED :: u64 where "PROVENANCE_CAPACITY_EXHAUSTED \<equiv> 2"
abbreviation (input) INVALID_FRAME :: u64 where "INVALID_FRAME \<equiv> 3"
abbreviation (input) UNKNOWN_FRAME :: u64 where "UNKNOWN_FRAME \<equiv> 4"
abbreviation (input) INVALID_ENTRY :: u64 where "INVALID_ENTRY \<equiv> 5"
abbreviation (input) ADDRESS_OVERFLOW :: u64 where "ADDRESS_OVERFLOW \<equiv> 6"
abbreviation (input) OUTSIDE_DIRECT_MAP :: u64 where "OUTSIDE_DIRECT_MAP \<equiv> 7"
abbreviation (input) ALLOCATOR_REJECTED_RELEASE :: u64 where "ALLOCATOR_REJECTED_RELEASE \<equiv> 8"

record direct_map =
  dm_pool :: frame_state
  dm_base :: u64
  dm_limit :: u64
  dm_owned :: "slpt_frame option list"
  dm_ram :: "u64 \<Rightarrow> u64"

definition direct_map_new :: "nat \<Rightarrow> frame_state \<Rightarrow> u64 \<Rightarrow> u64 \<Rightarrow> (u64 \<Rightarrow> u64) \<Rightarrow> direct_map" where
  "direct_map_new OWNED frames base limit ram =
     \<lparr>dm_pool = frames, dm_base = base, dm_limit = limit, dm_owned = replicate OWNED None, dm_ram = ram\<rparr>"

definition owned_table_count :: "direct_map \<Rightarrow> nat" where
  "owned_table_count m = length (filter (\<lambda>slot. slot \<noteq> None) (dm_owned m))"

definition owns :: "direct_map \<Rightarrow> slpt_frame \<Rightarrow> bool" where
  "owns m frame \<longleftrightarrow> list_ex (\<lambda>candidate. candidate = Some frame) (dm_owned m)"

definition pointer :: "direct_map \<Rightarrow> slpt_frame \<Rightarrow> u64 + u64" where
  "pointer m frame =
     (case checked_add frame PAGE_SIZE of
        None \<Rightarrow> Err OUTSIDE_DIRECT_MAP
      | Some limit \<Rightarrow>
          if limit > dm_limit m then Err OUTSIDE_DIRECT_MAP
          else (case checked_add (dm_base m) frame of None \<Rightarrow> Err ADDRESS_OVERFLOW | Some address \<Rightarrow> Ok address))"

definition owned_pointer :: "direct_map \<Rightarrow> slpt_frame \<Rightarrow> u64 + u64" where
  "owned_pointer m frame = (if \<not> owns m frame then Err UNKNOWN_FRAME else pointer m frame)"

definition give_back :: "physical_address \<Rightarrow> u64 \<Rightarrow> direct_map \<Rightarrow> (u64 + 'a) \<times> direct_map" where
  "give_back physical error m =
     (case pool_release (dm_pool m) physical of
        (Err _, p) \<Rightarrow> (Err ALLOCATOR_REJECTED_RELEASE, m\<lparr>dm_pool := p\<rparr>)
      | (Ok _, p) \<Rightarrow> (Err error, m\<lparr>dm_pool := p\<rparr>))"

definition allocate_table :: "direct_map \<Rightarrow> (u64 + slpt_frame) \<times> direct_map" where
  "allocate_table m =
     (case position (\<lambda>slot. slot = None) (dm_owned m) of
        None \<Rightarrow> (Err PROVENANCE_CAPACITY_EXHAUSTED, m)
      | Some slot \<Rightarrow>
          (case pool_allocate (dm_pool m) of
             (None, p) \<Rightarrow> (Err OUT_OF_FRAMES, m\<lparr>dm_pool := p\<rparr>)
           | (Some physical, p) \<Rightarrow>
               (case from_physical_address physical of
                  None \<Rightarrow> give_back physical INVALID_FRAME (m\<lparr>dm_pool := p\<rparr>)
                | Some frame \<Rightarrow>
                    (case pointer m frame of
                       Err error \<Rightarrow> give_back physical error (m\<lparr>dm_pool := p\<rparr>)
                     | Ok _ \<Rightarrow> (Ok frame, m\<lparr>dm_pool := p, dm_owned := (dm_owned m)[slot := Some frame]\<rparr>)))))"

definition zero_table :: "slpt_frame \<Rightarrow> direct_map \<Rightarrow> (u64 + unit) \<times> direct_map" where
  "zero_table frame m =
     (case owned_pointer m frame of
        Err e \<Rightarrow> (Err e, m)
      | Ok address \<Rightarrow> (Ok (), m\<lparr>dm_ram := (\<lambda>a. if a - address < PAGE_SIZE then 0 else dm_ram m a)\<rparr>))"

definition read_entry :: "direct_map \<Rightarrow> slpt_frame \<Rightarrow> nat \<Rightarrow> u64 + u64" where
  "read_entry m frame index =
     (if index \<ge> TABLE_ENTRIES then Err INVALID_ENTRY
      else
        (case owned_pointer m frame of
           Err e \<Rightarrow> Err e
         | Ok address \<Rightarrow> Ok (dm_ram m (address + 8 * of_nat index))))"

definition write_entry :: "slpt_frame \<Rightarrow> nat \<Rightarrow> u64 \<Rightarrow> direct_map \<Rightarrow> (u64 + unit) \<times> direct_map" where
  "write_entry frame index v m =
     (if index \<ge> TABLE_ENTRIES then (Err INVALID_ENTRY, m)
      else
        (case owned_pointer m frame of
           Err e \<Rightarrow> (Err e, m)
         | Ok address \<Rightarrow> (Ok (), m\<lparr>dm_ram := (dm_ram m)(address + 8 * of_nat index := v)\<rparr>)))"

definition release_table :: "slpt_frame \<Rightarrow> direct_map \<Rightarrow> (u64 + unit) \<times> direct_map" where
  "release_table frame m =
     (case position (\<lambda>candidate. candidate = Some frame) (dm_owned m) of
        None \<Rightarrow> (Err UNKNOWN_FRAME, m)
      | Some slot \<Rightarrow>
          (case pool_release (dm_pool m) frame of
             (Err _, p) \<Rightarrow> (Err ALLOCATOR_REJECTED_RELEASE, m\<lparr>dm_pool := p\<rparr>)
           | (Ok _, p) \<Rightarrow> (Ok (), m\<lparr>dm_pool := p, dm_owned := (dm_owned m)[slot := None]\<rparr>)))"

definition direct_map_memory :: "direct_map page_memory" where
  "direct_map_memory = \<lparr>pm_allocate_table = allocate_table, pm_zero_table = zero_table, pm_read_entry = read_entry,
     pm_write_entry = write_entry, pm_release_table = release_table\<rparr>"

section \<open>Ownership\<close>

definition distinct_slots :: "'a option list \<Rightarrow> bool" where
  "distinct_slots xs \<longleftrightarrow> (\<forall>i j f. i < length xs \<longrightarrow> j < length xs \<longrightarrow> xs ! i = Some f \<longrightarrow> xs ! j = Some f \<longrightarrow> i = j)"

definition held :: "direct_map \<Rightarrow> slpt_frame \<Rightarrow> bool" where
  "held m f \<longleftrightarrow> valid_frame f \<and> unat f + 4096 \<le> unat (dm_limit m)
     \<and> frame_of f < fa_frame_count (dm_pool m) \<and> frame_of f \<notin> free_set (dm_pool m)"

definition direct_map_wf :: "direct_map \<Rightarrow> bool" where
  "direct_map_wf m \<longleftrightarrow> frame_wf (dm_pool m) \<and> unat (dm_base m) + unat (dm_limit m) \<le> 2 ^ 64
     \<and> (\<forall>f. owns m f \<longrightarrow> held m f) \<and> distinct_slots (dm_owned m)"

definition direct_map_view :: "direct_map \<Rightarrow> heap" where
  "direct_map_view m f = (if owns m f
     then Some (\<lambda>i. if i < TABLE_ENTRIES then dm_ram m (dm_base m + f + 8 * of_nat i) else 0) else None)"

text \<open>The rest of the kernel: it takes frames from the pool, returns frames that are not the
  adapter's, and writes words outside the adapter's pages.\<close>

inductive elsewhere_step :: "direct_map \<Rightarrow> direct_map \<Rightarrow> bool" where
  takes: "pool_allocate (dm_pool m) = (r, p) \<Longrightarrow> elsewhere_step m (m\<lparr>dm_pool := p\<rparr>)"
| takes_run: "pool_allocate_contiguous (dm_pool m) n alignment = Some (r, p) \<Longrightarrow> elsewhere_step m (m\<lparr>dm_pool := p\<rparr>)"
| returns: "pool_release_contiguous (dm_pool m) a n = (r', p)
    \<Longrightarrow> \<forall>f. owns m f \<longrightarrow> frame_of f \<notin> {frame_of a ..< frame_of a + n} \<Longrightarrow> elsewhere_step m (m\<lparr>dm_pool := p\<rparr>)"
| writes: "\<forall>f a. owns m f \<longrightarrow> a - (dm_base m + f) < PAGE_SIZE \<longrightarrow> ram a = dm_ram m a \<Longrightarrow> elsewhere_step m (m\<lparr>dm_ram := ram\<rparr>)"

lemma owns_iff: "owns m f \<longleftrightarrow> Some f \<in> set (dm_owned m)"
  by (auto simp: owns_def list_ex_iff)

lemma direct_map_wfD:
  assumes "direct_map_wf m"
  shows "frame_wf (dm_pool m)" and "unat (dm_base m) + unat (dm_limit m) \<le> 2 ^ 64"
    and "owns m f \<Longrightarrow> held m f" and "distinct_slots (dm_owned m)"
  using assms by (auto simp: direct_map_wf_def)

lemma direct_map_wf_pool:
  assumes "direct_map_wf m" and "frame_wf p" and "fa_frame_count p = fa_frame_count (dm_pool m)"
    and "\<And>f. owns m f \<Longrightarrow> frame_of f \<notin> free_set p"
  shows "direct_map_wf (m\<lparr>dm_pool := p\<rparr>)" and "direct_map_view (m\<lparr>dm_pool := p\<rparr>) = direct_map_view m"
  using assms by (auto simp: direct_map_wf_def direct_map_view_def owns_iff held_def fun_eq_iff)

lemma elsewhere_step_sound:
  assumes "direct_map_wf m" and "elsewhere_step m m'"
  shows "direct_map_wf m' \<and> direct_map_view m' = direct_map_view m"
  using assms(2)
proof cases
  case (takes r p)
  note wf = direct_map_wfD[OF assms(1)]
  have "frame_wf p \<and> fa_frame_count p = fa_frame_count (dm_pool m) \<and> free_set p \<subseteq> free_set (dm_pool m)"
    using takes(2) pool_allocate_None[OF wf(1), of p] pool_allocate_Some[OF wf(1), of _ p] wf(1) by (cases r) auto
  with takes(1) direct_map_wf_pool[OF assms(1), of p] wf(3) show ?thesis by (auto simp: held_def)
next
  case (takes_run n alignment r p)
  with pool_allocate_contiguous_Some(1-3)[OF direct_map_wfD(1)[OF assms(1)] takes_run(2)]
    direct_map_wf_pool[OF assms(1), of p] direct_map_wfD(3)[OF assms(1)] show ?thesis by (auto simp: held_def)
next
  case (returns a n r p)
  with pool_release_contiguous_cases[OF direct_map_wfD(1)[OF assms(1)] returns(2)]
    direct_map_wf_pool[OF assms(1), of p] direct_map_wfD(3)[OF assms(1)] show ?thesis by (fastforce simp: held_def)
next
  case (writes ram)
  have "direct_map_view m' f = direct_map_view m f" for f
  proof (cases "owns m f")
    case True
    have "ram (dm_base m + f + 8 * of_nat i) = dm_ram m (dm_base m + f + 8 * of_nat i)" if "i < TABLE_ENTRIES" for i
    proof -
      have "(dm_base m + f + 8 * of_nat i) - (dm_base m + f) < PAGE_SIZE"
        using that by (simp add: word_less_nat_alt unat_word_ariths unat_of_nat)
      with writes(2) True show ?thesis by blast
    qed
    with writes(1) True show ?thesis by (auto simp: direct_map_view_def owns_iff)
  qed (use writes in \<open>simp add: direct_map_view_def owns_iff\<close>)
  with writes(1) assms(1) show ?thesis by (auto simp: direct_map_wf_def held_def owns_iff)
qed

section \<open>The operations of the adapter\<close>

lemma distinct_slots_take:
  assumes "distinct_slots xs" and "Some f \<notin> set xs"
  shows "distinct_slots (xs[slot := Some f])"
proof -
  have "i = j" if "i < length xs" "j < length xs" "xs[slot := Some f] ! i = Some g" "xs[slot := Some f] ! j = Some g" for i j g
    using assms that by (cases "i = slot"; cases "j = slot") (auto simp: distinct_slots_def in_set_conv_nth)
  then show ?thesis by (auto simp: distinct_slots_def)
qed

lemma distinct_slots_drop:
  assumes "distinct_slots xs" and "slot < length xs" and "xs ! slot = Some f"
  shows "distinct_slots (xs[slot := None])" and "Some g \<in> set (xs[slot := None]) \<longleftrightarrow> g \<noteq> f \<and> Some g \<in> set xs"
proof -
  have n: "xs[slot := None] ! i = Some h \<longleftrightarrow> i \<noteq> slot \<and> xs ! i = Some h" if "i < length xs" for i h
    using that assms(2) by (cases "i = slot") auto
  show "distinct_slots (xs[slot := None])" using assms(1) unfolding distinct_slots_def by (simp add: n)
  have "(\<exists>i < length xs. xs ! i = Some g \<and> i \<noteq> slot) \<longleftrightarrow> g \<noteq> f \<and> (\<exists>i < length xs. xs ! i = Some g)"
    using assms unfolding distinct_slots_def by (metis option.inject)
  then show "Some g \<in> set (xs[slot := None]) \<longleftrightarrow> g \<noteq> f \<and> Some g \<in> set xs"
    using n by (auto simp: in_set_conv_nth)
qed

lemma slot_take:
  assumes "slot < length xs" and "xs ! slot = None"
  shows "Some g \<in> set (xs[slot := Some f]) \<longleftrightarrow> g = f \<or> Some g \<in> set xs"
  using assms by (metis in_set_conv_nth length_list_update nth_list_update option.distinct(1) option.inject)

lemma pointer_Ok:
  assumes "unat (dm_base m) + unat (dm_limit m) \<le> 2 ^ 64" and "unat f + 4096 \<le> unat (dm_limit m)"
  shows "pointer m f = Ok (dm_base m + f)"
proof -
  have "unat f + 4096 < 2 ^ 64" using assms(2) unat_lt2p[of "dm_limit m"] by simp
  then have "checked_add f PAGE_SIZE = Some (f + PAGE_SIZE)" "unat (f + PAGE_SIZE) = unat f + 4096"
    by (simp_all add: checked_add_def unat_word_ariths)
  moreover have "checked_add (dm_base m) f = Some (dm_base m + f)" using assms by (simp add: checked_add_def)
  ultimately show ?thesis using assms(2) by (simp add: pointer_def word_less_nat_alt)
qed

lemma pointer_limit: "pointer m f = Ok a \<Longrightarrow> unat f + 4096 \<le> unat (dm_limit m)"
  by (auto simp: pointer_def word_le_nat_alt not_less checked_add_def unat_word_ariths split: option.splits if_splits)

lemma owned_pointer_Ok:
  assumes "direct_map_wf m"
  shows "owned_pointer m f = (if owns m f then Ok (dm_base m + f) else Err UNKNOWN_FRAME)"
  using pointer_Ok[OF direct_map_wfD(2)[OF assms]] direct_map_wfD(3)[OF assms] by (simp add: owned_pointer_def held_def)

lemma valid_frame_aligned: "valid_frame f \<Longrightarrow> 4096 dvd unat f"
  using is_page_aligned_iff[of f] by (auto simp: valid_frame_def from_physical_address_def is_page_aligned_def split: if_splits)

lemma held_page:
  assumes "held m f" and "held m g" and "i < TABLE_ENTRIES"
  shows "(dm_base m + f + 8 * of_nat i) - (dm_base m + g) < PAGE_SIZE \<longleftrightarrow> f = g"
proof
  let ?a = "f + 8 * of_nat i - g"
  assume "(dm_base m + f + 8 * of_nat i) - (dm_base m + g) < PAGE_SIZE"
  then have a: "unat ?a < 4096" by (simp add: word_less_nat_alt add.assoc add_diff_eq)
  have f: "unat f + 4096 < 2 ^ 64" "4096 dvd unat f" and g: "unat g + 4096 < 2 ^ 64" "4096 dvd unat g"
    using assms unat_lt2p[of "dm_limit m"] valid_frame_aligned by (auto simp: held_def)
  have "unat ?a + unat g < 2 ^ LENGTH(64)" using a g(1) by simp
  then have "unat ?a + unat g = unat (?a + g)" unfolding unat_add_lem by (rule sym)
  also have "?a + g = f + 8 * of_nat i" by simp
  also have "unat (f + 8 * of_nat i) = unat f + 8 * i"
    using f(1) assms(3) by (simp add: unat_word_ariths unat_of_nat)
  finally have "unat g + unat ?a = unat f + 8 * i" by simp
  with a assms(3) f(2) g(2) show "f = g" by (auto simp: dvd_def intro!: word_unat_eq_iff[THEN iffD2])
next
  assume "f = g"
  with assms(3) show "(dm_base m + f + 8 * of_nat i) - (dm_base m + g) < PAGE_SIZE"
    by (simp add: word_less_nat_alt unat_word_ariths unat_of_nat)
qed

lemma held_word:
  assumes "held m f" and "held m g" and "i < TABLE_ENTRIES" and "j < TABLE_ENTRIES"
  shows "dm_base m + f + 8 * of_nat i = dm_base m + g + 8 * of_nat j \<longleftrightarrow> f = g \<and> i = j"
proof
  assume eq: "dm_base m + f + 8 * of_nat i = dm_base m + g + 8 * of_nat j"
  have "(dm_base m + f + 8 * of_nat i) - (dm_base m + g) < PAGE_SIZE"
    unfolding eq using held_page[OF assms(2,2,4)] by blast
  with held_page[OF assms(1-3)] have "f = g" by simp
  with eq have "(8 * of_nat i :: u64) = 8 * of_nat j" by simp
  then have "unat (8 * of_nat i :: u64) = unat (8 * of_nat j :: u64)" by simp
  with assms(3,4) have "i = j" by (simp add: unat_word_ariths unat_of_nat)
  with \<open>f = g\<close> show "f = g \<and> i = j" by simp
qed simp

lemma direct_map_wf_ram [simp]:
  "direct_map_wf (m\<lparr>dm_ram := r\<rparr>) = direct_map_wf m" "owns (m\<lparr>dm_ram := r\<rparr>) = owns m"
  by (simp_all add: direct_map_wf_def held_def owns_iff fun_eq_iff)

lemma zero_table_sound:
  assumes "direct_map_wf m" and "zero_table f m = (Ok u, m')"
  shows "direct_map_wf m' \<and> direct_map_view m' = (direct_map_view m)(f \<mapsto> \<lambda>_. 0)"
proof -
  from assms have own: "owns m f" and m': "m' = m\<lparr>dm_ram := (\<lambda>a. if a - (dm_base m + f) < PAGE_SIZE then 0 else dm_ram m a)\<rparr>"
    by (auto simp: zero_table_def owned_pointer_Ok split: if_splits)
  note h = direct_map_wfD(3)[OF assms(1)]
  have "direct_map_view m' g = ((direct_map_view m)(f \<mapsto> \<lambda>_. 0)) g" for g
    using held_page[OF h h[OF own], of g] own by (auto simp: direct_map_view_def m' fun_eq_iff)
  with assms(1) m' show ?thesis by auto
qed

lemma write_entry_sound:
  assumes "direct_map_wf m" and "write_entry f i v m = (Ok u, m')"
  shows "direct_map_wf m' \<and> (\<exists>t. direct_map_view m f = Some t \<and> direct_map_view m' = (direct_map_view m)(f \<mapsto> t(i := v)))"
proof -
  from assms have own: "owns m f" and i: "i < TABLE_ENTRIES"
    and m': "m' = m\<lparr>dm_ram := (dm_ram m)(dm_base m + f + 8 * of_nat i := v)\<rparr>"
    by (auto simp: write_entry_def owned_pointer_Ok split: if_splits)
  note h = direct_map_wfD(3)[OF assms(1)]
  obtain t where t: "direct_map_view m f = Some t" using own by (simp add: direct_map_view_def)
  then have t_eq: "t = (\<lambda>i. if i < TABLE_ENTRIES then dm_ram m (dm_base m + f + 8 * of_nat i) else 0)"
    using own by (simp add: direct_map_view_def)
  have "direct_map_view m' g = ((direct_map_view m)(f \<mapsto> t(i := v))) g" for g
    using own i held_word[OF h h[OF own] _ i, of g] by (auto simp: direct_map_view_def m' fun_eq_iff t_eq)
  with assms(1) m' t show ?thesis by auto
qed

lemma read_entry_sound:
  assumes "direct_map_wf m" and "read_entry m f i = Ok v"
  shows "\<exists>t. direct_map_view m f = Some t \<and> t i = v"
  using assms by (auto simp: read_entry_def owned_pointer_Ok direct_map_view_def split: if_splits)

lemma give_back_sound:
  assumes "direct_map_wf m" and "pool_allocate (dm_pool m) = (Some a, p)" and "give_back a e (m\<lparr>dm_pool := p\<rparr>) = (r, m')"
  shows "direct_map_wf m' \<and> direct_map_view m' = direct_map_view m \<and> (\<exists>e. r = Err e)"
proof -
  note wf = direct_map_wfD[OF assms(1)]
  note al = pool_allocate_Some[OF wf(1) assms(2)]
  obtain r' q where q: "pool_release_contiguous p a 1 = (r', q)" by (cases "pool_release_contiguous p a 1")
  note rel = pool_release_contiguous_cases[OF al(1) q]
  have "m' = m\<lparr>dm_pool := q\<rparr>" and "\<exists>e. r = Err e"
    using assms(3) q by (auto simp: give_back_def pool_release_contiguous_1 split: sum.splits)
  moreover have "frame_of f \<notin> free_set q" if "owns m f" for f
    using wf(3)[OF that] al(2,3) rel(4) by (auto simp: held_def)
  ultimately show ?thesis using direct_map_wf_pool[OF assms(1) rel(1)] rel(2) al(4) by simp
qed

lemma allocate_table_Ok:
  assumes "direct_map_wf m" and "allocate_table m = (Ok f, m')"
  shows "direct_map_wf m' \<and> direct_map_view m f = None \<and> valid_frame f \<and> (\<exists>t. direct_map_view m' = (direct_map_view m)(f \<mapsto> t))"
proof -
  note wf = direct_map_wfD[OF assms(1)]
  obtain slot p a where pos: "position (\<lambda>slot. slot = None) (dm_owned m) = Some slot" and p: "pool_allocate (dm_pool m) = (Some f, p)"
    and f: "from_physical_address f = Some f" "pointer m f = Ok a"
    and m': "m' = m\<lparr>dm_pool := p, dm_owned := (dm_owned m)[slot := Some f]\<rparr>"
    using assms(2) by (auto simp: allocate_table_def from_physical_address_def give_back_def split: option.splits prod.splits sum.splits if_splits)
  note al = pool_allocate_Some[OF wf(1) p] and slot = position_SomeD[OF pos]
  have new: "\<not> owns m f" using al(2) wf(3)[of f] by (auto simp: held_def)
  have owns': "owns m' g \<longleftrightarrow> g = f \<or> owns m g" for g using slot_take[of slot "dm_owned m" g f] slot by (simp add: m' owns_iff)
  have "frame_of f < fa_frame_count (dm_pool m)" using al(2) by (simp add: free_set_def)
  then have "held m' g" if "owns m' g" for g
    using that wf(3)[of g] al pointer_limit[OF f(2)] f(1) unfolding owns' by (auto simp: held_def m' valid_frame_def)
  moreover have "distinct_slots (dm_owned m')" using distinct_slots_take[OF wf(4)] new by (simp add: m' owns_iff)
  ultimately have "direct_map_wf m'" using wf(2) al(1) by (simp add: direct_map_wf_def m')
  moreover have "direct_map_view m' = (direct_map_view m)(f \<mapsto> the (direct_map_view m' f))"
    by (auto simp: fun_eq_iff direct_map_view_def owns') (simp_all add: m')
  ultimately show ?thesis using new f(1) by (auto simp: direct_map_view_def valid_frame_def)
qed

lemma allocate_table_Err:
  assumes "direct_map_wf m" and "allocate_table m = (Err e, m')"
  shows "direct_map_wf m' \<and> direct_map_view m' = direct_map_view m"
proof (cases "\<exists>a p e'. pool_allocate (dm_pool m) = (Some a, p) \<and> give_back a e' (m\<lparr>dm_pool := p\<rparr>) = (Err e :: u64 + slpt_frame, m')")
  case True
  then show ?thesis using give_back_sound[OF assms(1)] by metis
next
  case False
  then have "m' = m"
    using assms(2) pool_allocate_None[OF direct_map_wfD(1)[OF assms(1)]]
    by (auto simp: allocate_table_def split: option.splits prod.splits sum.splits)
  with assms(1) show ?thesis by simp
qed

lemma release_table_Ok:
  assumes "direct_map_wf m" and "release_table f m = (Ok u, m')"
  shows "direct_map_wf m' \<and> direct_map_view m' = (direct_map_view m)(f := None)"
proof -
  note wf = direct_map_wfD[OF assms(1)]
  obtain slot p where pos: "position (\<lambda>c. c = Some f) (dm_owned m) = Some slot" and p: "pool_release_contiguous (dm_pool m) f 1 = (Ok (), p)"
    and m': "m' = m\<lparr>dm_pool := p, dm_owned := (dm_owned m)[slot := None]\<rparr>"
    using assms(2) by (auto simp: release_table_def pool_release_contiguous_1 split: option.splits prod.splits sum.splits)
  note rel = pool_release_contiguous_cases[OF wf(1) p] and slot = position_SomeD[OF pos]
  have own: "owns m f" using slot by (metis owns_iff nth_mem)
  note drop = distinct_slots_drop[OF wf(4), of slot f]
  have owns': "owns m' g \<longleftrightarrow> g \<noteq> f \<and> owns m g" for g using drop(2) slot by (simp add: m' owns_iff)
  have "frame_of g \<noteq> frame_of f" if "owns m g" "g \<noteq> f" for g
    using wf(3)[OF own] wf(3)[OF that(1)] that(2) valid_frame_aligned frame_address_div by (metis frame_of_def held_def)
  then have "held m' g" if "owns m' g" for g
    using that wf(3)[of g] rel unfolding owns' by (fastforce simp: held_def m')
  moreover have "distinct_slots (dm_owned m')" using drop(1) slot by (simp add: m')
  ultimately have "direct_map_wf m'" using wf(2) rel(1) by (simp add: direct_map_wf_def m')
  moreover have "direct_map_view m' = (direct_map_view m)(f := None)"
    by (auto simp: fun_eq_iff direct_map_view_def owns') (simp_all add: m')
  ultimately show ?thesis by blast
qed

lemma release_table_Err:
  assumes "direct_map_wf m" and "release_table f m = (Err e, m')"
  shows "m' = m"
  using assms(2) pool_release_contiguous_cases(3)[OF direct_map_wfD(1)[OF assms(1)], of f 1]
  by (auto simp: release_table_def pool_release_contiguous_1 split: option.splits prod.splits sum.splits)

lemmas table_ops_sound = allocate_table_Ok allocate_table_Err zero_table_sound read_entry_sound write_entry_sound
  release_table_Ok elsewhere_step_sound

interpretation direct: slpt_page_memory direct_map_memory direct_map_wf direct_map_view elsewhere_step
proof (unfold_locales, goal_cases)
  case (4 m f e m')
  then show ?case by (auto simp: direct_map_memory_def zero_table_def split: sum.splits)
next
  case (7 m f i v e m')
  then show ?case by (auto simp: direct_map_memory_def write_entry_def split: sum.splits if_splits)
next
  case (9 m f e m')
  then show ?case using release_table_Err[of m f e m'] by (auto simp: direct_map_memory_def)
next
  case (10 m f t i)
  then show ?case by (auto simp: direct_map_view_def split: if_splits)
qed (auto simp: direct_map_memory_def dest: table_ops_sound)

definition sample_config :: slpt_config where
  "sample_config = \<lparr>cfg_supported_adjusted_guest_widths = 1, cfg_maximum_guest_address_width = 48, cfg_address_width_encoding = 0\<rparr>"

definition sample_memory :: direct_map where
  "sample_memory = \<lparr>dm_pool = sample_allocator, dm_base = 0xFFFF800000000000, dm_limit = 0x8000,
     dm_owned = [Some 0x1000, None, None], dm_ram = \<lambda>_. 0\<rparr>"

definition sample_pool :: frame_state where
  "sample_pool = \<lparr>fa_allocated = [0xFFFFFFFFFFFFFF23], fa_reserved = [0xFFFFFFFFFFFFFF01],
     fa_frame_count = 8, fa_next_search = 6, fa_free_frames = 5\<rparr>"

definition sample_tables :: slpt where
  "sample_tables = \<lparr>sl_root = 0x1000, sl_adjusted_width = 30, sl_levels = 2, sl_slots = replicate 2 mapping_slot_EMPTY, sl_state = Operational\<rparr>"

lemma sample_memory_wf: "direct_map_wf sample_memory"
proof -
  have "distinct_slots [Some (0x1000::u64), None, None]"
    by (auto simp: distinct_slots_def nth_Cons split: nat.splits)
  moreover have "free_set sample_allocator = {2 ..< 8}"
    by (auto simp: free_set_def sample_allocator_bits)
  ultimately show ?thesis using sample_allocator_wf
    by (simp add: direct_map_wf_def sample_memory_def owns_iff held_def frame_of_def valid_frame_def from_physical_address_def)
qed

lemma entries_zeroI: "(\<And>i. i \<in> set is \<Longrightarrow> pm_read_entry M m f i = Ok 0) \<Longrightarrow> entries_zero M m f is = Ok True"
  by (induction "is") auto

lemma sample_attach: "attach 2 direct_map_memory sample_memory 0x1000 sample_config = Ok sample_tables"
proof -
  have "entries_zero direct_map_memory sample_memory 0x1000 [0 ..< ENTRIES_PER_TABLE] = Ok True"
    by (rule entries_zeroI) (simp add: direct_map_memory_def read_entry_def owned_pointer_Ok[OF sample_memory_wf], simp add: sample_memory_def owns_def)
  then show ?thesis
    by (simp add: attach_def config_validate_def adjusted_guest_address_width_def sample_config_def sample_tables_def)
qed

lemma direct_map_memory_sel [simp]:
  "pm_allocate_table direct_map_memory = allocate_table" "pm_zero_table direct_map_memory = zero_table"
  "pm_read_entry direct_map_memory = read_entry" "pm_write_entry direct_map_memory = write_entry"
  "pm_release_table direct_map_memory = release_table"
  by (simp_all add: direct_map_memory_def)

text \<open>The memory after the leaf table at \<open>0x5000\<close> is allocated, linked and filled.\<close>

definition sample_memory_with :: "(u64 \<Rightarrow> u64) \<Rightarrow> direct_map" where
  "sample_memory_with ram = sample_memory\<lparr>dm_pool := sample_pool, dm_owned := [Some 0x1000, Some 0x5000, None], dm_ram := ram\<rparr>"

lemma upt_eight: "[0..<8] = [0, 1, 2, 3, 4, 5, 6, 7 :: nat]"
  by code_simp

definition sample_fresh :: direct_map where
  "sample_fresh = \<lparr>dm_pool = sample_pool, dm_base = 0xFFFF800000000000, dm_limit = 0x8000, dm_owned = [Some 0x5000], dm_ram = \<lambda>_. 0\<rparr>"

lemma sample_pool_allocate: "pool_allocate sample_allocator = (Some 0x5000, sample_pool)"
  by (simp add: pool_allocate_def frame_allocate_def sample_allocator_def is_allocated_def bit_is_set_def frame_address_def
    set_allocated_def set_bitmap_bit_def sample_pool_def upt_eight)

lemma sample_allocate: "allocate_table sample_memory = (Ok 0x5000, sample_memory_with (\<lambda>_. 0))"
  by (simp add: allocate_table_def sample_memory_with_def sample_memory_def sample_pool_allocate from_physical_address_def
    pointer_def checked_add_def)

lemma sample_fresh_allocate:
  "allocate_table (direct_map_new 1 sample_allocator 0xFFFF800000000000 0x8000 (\<lambda>_. 0)) = (Ok 0x5000, sample_fresh)"
  by (simp add: allocate_table_def direct_map_new_def sample_fresh_def sample_pool_allocate from_physical_address_def
    pointer_def checked_add_def)

lemma sample_memory_with_wf: "direct_map_wf (sample_memory_with ram)"
proof -
  have "sample_memory_with ram = (sample_memory_with (\<lambda>_. 0))\<lparr>dm_ram := ram\<rparr>" by (simp add: sample_memory_with_def)
  with allocate_table_Ok[OF sample_memory_wf sample_allocate] show ?thesis by simp
qed

lemma sample_owns: "owns sample_memory 0x1000" "owns (sample_memory_with ram) 0x1000" "owns (sample_memory_with ram) 0x5000"
  "dm_base sample_memory = 0xFFFF800000000000" "dm_base (sample_memory_with ram) = 0xFFFF800000000000"
  "dm_ram sample_memory = (\<lambda>_. 0)" "dm_ram (sample_memory_with ram) = ram" "(sample_memory_with ram)\<lparr>dm_ram := ram'\<rparr> = sample_memory_with ram'"
  by (simp_all add: sample_memory_def sample_memory_with_def owns_def)

lemmas sample_memory_eval = read_entry_def write_entry_def zero_table_def owned_pointer_Ok[OF sample_memory_wf]
  owned_pointer_Ok[OF sample_memory_with_wf] sample_owns

definition sample_record :: mapping_record where
  "sample_record = \<lparr>mr_iova = 0x3000, mr_physical_address = 0x7000, mr_leaf = 0x7003,
     mr_path = \<lparr>pa_frames = [0x1000, 0x5000, 0, 0, 0], pa_indices = [0, 3, 0, 0, 0], pa_depth = 2\<rparr>,
     mr_cleanup_depth = 0, mr_phase = Active\<rparr>"

definition sample_mapped :: slpt where
  "sample_mapped = sample_tables\<lparr>sl_slots := [mapping_slot_EMPTY\<lparr>ms_record := Some sample_record\<rparr>, mapping_slot_EMPTY]\<rparr>"

lemma two_positions: "[0 ..< 2] = [0, 1 :: nat]"
  by code_simp

lemma sample_zero: "zero_table 0x5000 (sample_memory_with (\<lambda>_. 0)) = (Ok (), sample_memory_with (\<lambda>_. 0))"
  by (simp add: sample_memory_eval cong: if_cong)

lemma sample_child: "child_table direct_map_memory sample_tables sample_memory
     \<lparr>pa_frames = [0x1000, 0, 0, 0, 0], pa_indices = [0, 0, 0, 0, 0], pa_depth = 2\<rparr> 0 0x1000 0 0 []
   = (Ok 0x5000, sample_tables, sample_memory_with ((\<lambda>_. 0)(0xFFFF800000001000 := 0x5003)), [\<lparr>nl_parent = 0x1000, nl_index = 0, nl_child = 0x5000\<rparr>])"
  by (simp add: child_table_def sample_allocate link_table_def sample_zero, simp add: sample_memory_eval)
    (simp add: sample_tables_def frame_is_known_def mapping_slot_EMPTY_def sample_owns list_ex_iff)

lemma sample_build: "build_path direct_map_memory 0x3000 [0 ..< 2] sample_tables sample_memory
     \<lparr>pa_frames = [0x1000, 0, 0, 0, 0], pa_indices = [0, 0, 0, 0, 0], pa_depth = 2\<rparr> []
   = (Ok (), sample_tables, sample_memory_with ((\<lambda>_. 0)(0xFFFF800000001000 := 0x5003)), mr_path sample_record,
      [\<lparr>nl_parent = 0x1000, nl_index = 0, nl_child = 0x5000\<rparr>])"
proof -
  have "index_at sample_tables 0x3000 0 = 0" "index_at sample_tables 0x3000 1 = 3" "sl_levels sample_tables = 2"
    by (simp_all add: index_at_def sample_tables_def)
  then show ?thesis using sample_child by (simp add: two_positions sample_memory_eval sample_record_def Let_def)
qed

definition sample_mapped_memory :: direct_map where
  "sample_mapped_memory = sample_memory_with ((\<lambda>_. 0)(0xFFFF800000001000 := 0x5003, 0xFFFF800000005018 := 0x7003))"

lemma sample_map: "map_page direct_map_memory (\<lambda>_ i. (Ok (), i)) 0x3000 0x7000 \<lparr>dp_read = True, dp_write = True\<rparr> sample_tables sample_memory ()
   = (Ok (MapActive \<lparr>mh_slot = 0, mh_generation = 1\<rparr>), sample_mapped, sample_mapped_memory, ())"
proof -
  have "validate_iova sample_tables 0x3000 = Ok ()" "validate_mapped_physical_address 0x7000 = Ok ()"
    "permission_bits \<lparr>dp_read = True, dp_write = True\<rparr> = Ok 3"
    by (simp_all add: validate_iova_def checked_add_def validate_mapped_physical_address_def permission_bits_def sample_tables_def)
  moreover have "sl_slots sample_tables = [mapping_slot_EMPTY, mapping_slot_EMPTY]" "sl_state sample_tables = Operational"
    "sl_levels sample_tables = 2" "sl_root sample_tables = 0x1000"
    by (simp_all add: sample_tables_def numeral_2_eq_2)
  moreover have "path_empty 2 = \<lparr>pa_frames = [0, 0, 0, 0, 0], pa_indices = [0, 0, 0, 0, 0], pa_depth = 2\<rparr>"
    unfolding path_empty_def by code_simp
  ultimately show ?thesis
    by (simp add: map_page_def Let_def List.map_filter_simps mapping_slot_EMPTY_def sample_build publish_leaf_def
      sample_memory_eval update_record_def sample_mapped_def) (simp add: sample_record_def sample_mapped_memory_def sample_memory_eval)
qed

section \<open>Theorems\<close>

lemma attached_root:
  assumes "direct_map_wf m" and "attach N direct_map_memory m root config = Ok s"
  shows "valid_frame root"
proof -
  have "0 \<in> set [0 ..< ENTRIES_PER_TABLE]" by simp
  with direct.entries_zero_True[OF assms(1) attach_geometry(5)[OF assms(2)]] obtain t where "direct_map_view m root = Some t" by blast
  then have "owns m root" by (auto simp: direct_map_view_def split: if_splits)
  then show ?thesis using direct_map_wfD(3)[OF assms(1)] by (simp add: held_def)
qed

lemma slpt_reachable_sound:
  assumes "direct_map_wf m\<^sub>0" and "attach N direct_map_memory m\<^sub>0 root config = Ok s\<^sub>0"
    and "(slpt_step direct_map_memory I elsewhere_step)\<^sup>*\<^sup>* (s\<^sub>0, m\<^sub>0, i\<^sub>0) (s, m, i)"
  shows "direct_map_wf m" and "tables_ok s (direct_map_view m)"
  using direct.tables.inv_reachable[OF _ assms(3)] assms(1,2) attached_root[OF assms(1,2)] by auto

lemma sample_table_run: "(slpt_step direct_map_memory (\<lambda>_ i. (Ok (), i)) elsewhere_step)\<^sup>*\<^sup>*
    (sample_tables, sample_memory, ()) (sample_mapped, sample_mapped_memory, ())"
  by (rule r_into_rtranclp) (rule slpt_step.mapping[OF sample_map])

lemma sample_iova: "validate_iova sample_mapped 0x3000 = Ok ()" "validate_iova sample_mapped 0x4000 = Ok ()"
  by (simp_all add: validate_iova_def checked_add_def sample_mapped_def sample_tables_def)

text \<open>
  C6 (refinement). Device isolation by the VT-d tables. Take a second-level table attached to
  the direct-map memory, and any sequence of \<open>map_page\<close>, \<open>finish_map\<close>, \<open>unmap_page\<close>,
  \<open>cancel_pending_map\<close> and \<open>finish_unmap\<close>, in which any memory operation and any invalidation may
  fail, interleaved with the rest of the kernel using the same frame pool. Then the page walk
  the hardware does for an address finds exactly what the ledger of mappings says: the page
  and the permissions of the mapping of that address, and nothing where there is none.\<close>

theorem device_sees_ledger:
  assumes "direct_map_wf m\<^sub>0" and "attach N direct_map_memory m\<^sub>0 root config = Ok s\<^sub>0"
    and "(slpt_step direct_map_memory I elsewhere_step)\<^sup>*\<^sup>* (s\<^sub>0, m\<^sub>0, i\<^sub>0) (s, m, i)"
    and "validate_iova s iova = Ok ()"
  shows "walk (direct_map_view m) (sl_root s) (indices s iova) 3
    = map_option (\<lambda>r. (mr_physical_address r, mr_leaf r AND PERMISSION_MASK)) (mapping_of s iova)"
  using slpt_reachable_sound(2)[OF assms(1-3)] walk_mapping[OF _ assms(4)] by (auto simp: tables_ok_def)

theorem device_sees_ledger_witness:
  "walk (direct_map_view sample_mapped_memory) 0x1000 (indices sample_mapped 0x3000) 3 = Some (0x7000, 3)"
proof -
  have "mapping_of sample_mapped 0x3000 = Some sample_record" "sl_root sample_mapped = 0x1000"
    by (simp_all add: mapping_of_def sample_mapped_def sample_tables_def List.map_filter_simps mapping_slot_EMPTY_def sample_record_def mapped_def)
  with device_sees_ledger[OF sample_memory_wf sample_attach sample_table_run sample_iova(1)] show ?thesis by (simp add: sample_record_def)
qed

text \<open>
  No page is reachable twice: in every such state, two addresses of a device that
  translate to the same physical page are the same address.\<close>

theorem device_pages_unaliased:
  assumes "direct_map_wf m\<^sub>0" and "attach N direct_map_memory m\<^sub>0 root config = Ok s\<^sub>0"
    and "(slpt_step direct_map_memory I elsewhere_step)\<^sup>*\<^sup>* (s\<^sub>0, m\<^sub>0, i\<^sub>0) (s, m, i)"
    and "validate_iova s a = Ok ()" and "validate_iova s b = Ok ()"
    and "walk (direct_map_view m) (sl_root s) (indices s a) 3 = Some (page, pa)"
    and "walk (direct_map_view m) (sl_root s) (indices s b) 3 = Some (page, pb)"
  shows "a = b"
proof -
  obtain T where cons: "consistent s (direct_map_view m) T" using slpt_reachable_sound(2)[OF assms(1-3)] by (auto simp: tables_ok_def)
  obtain r where r: "mapping_of s a = Some r" "mr_physical_address r = page" using walk_mapping[OF cons assms(4)] assms(6) by (cases "mapping_of s a") auto
  obtain q where q: "mapping_of s b = Some q" "mr_physical_address q = page" using walk_mapping[OF cons assms(5)] assms(7) by (cases "mapping_of s b") auto
  have "mr_iova r = a" "mr_iova q = b" using r(1) q(1) by (auto simp: mapping_of_def find_Some_iff)
  moreover obtain j k where "rec_at s j = Some r" "rec_at s k = Some q"
    using r(1) q(1) map_filter_records[of _ s] by (metis mapping_of_def find_Some_iff nth_mem)
  moreover from this r(2) q(2) have "j = k" using ledgerD(5)[OF consistentD(3)[OF cons]] by blast
  ultimately show "a = b" by simp
qed

lemma sample_walk: "walk (direct_map_view sample_mapped_memory) (sl_root sample_mapped) (indices sample_mapped 0x3000) 3 = Some (0x7000, 3)"
proof -
  have "indices sample_mapped 0x3000 = [0, 3]" "sl_root sample_mapped = 0x1000"
    by (simp_all add: indices_def index_at_def sample_mapped_def sample_tables_def two_positions)
  moreover have "heap_entry (direct_map_view sample_mapped_memory) 0x1000 0 = 0x5003"
    "heap_entry (direct_map_view sample_mapped_memory) 0x5000 3 = 0x7003"
    by (simp_all add: heap_entry_def direct_map_view_def sample_mapped_memory_def sample_owns)
  ultimately show ?thesis by simp
qed

theorem device_pages_unaliased_witness:
  "walk (direct_map_view sample_mapped_memory) (sl_root sample_mapped) (indices sample_mapped 0x4000) 3 \<noteq> Some (0x7000, 3)"
  using device_pages_unaliased[OF sample_memory_wf sample_attach sample_table_run sample_iova sample_walk, of 3] by auto

section \<open>The adapter and the pool\<close>

inductive direct_map_step :: "direct_map \<Rightarrow> direct_map \<Rightarrow> bool" where
  "allocate_table m = (r, m') \<Longrightarrow> direct_map_step m m'"
| "zero_table f m = (r', m') \<Longrightarrow> direct_map_step m m'"
| "write_entry f index v m = (r', m') \<Longrightarrow> direct_map_step m m'"
| "release_table f m = (r', m') \<Longrightarrow> direct_map_step m m'"
| "elsewhere_step m m' \<Longrightarrow> direct_map_step m m'"

lemma table_ops_wf:
  assumes "direct_map_wf m"
  shows "allocate_table m = (r, m') \<Longrightarrow> direct_map_wf m'" and "zero_table f m = (r', m') \<Longrightarrow> direct_map_wf m'"
    and "write_entry f index v m = (r', m') \<Longrightarrow> direct_map_wf m'" and "release_table f m = (r', m') \<Longrightarrow> direct_map_wf m'"
proof -
  show "allocate_table m = (r, m') \<Longrightarrow> direct_map_wf m'" using allocate_table_Ok allocate_table_Err assms by (cases r) blast+
  show "release_table f m = (r', m') \<Longrightarrow> direct_map_wf m'" using release_table_Ok release_table_Err assms by (cases r') blast+
  show "zero_table f m = (r', m') \<Longrightarrow> direct_map_wf m'" using assms by (auto simp: zero_table_def split: sum.splits)
  show "write_entry f index v m = (r', m') \<Longrightarrow> direct_map_wf m'" using assms by (auto simp: write_entry_def split: sum.splits if_splits)
qed

interpretation adapter: invariant_system
  "\<lambda>m. \<exists>OWNED frames base limit ram. frame_wf frames \<and> unat base + unat limit \<le> 2 ^ 64 \<and> m = direct_map_new OWNED frames base limit ram"
  direct_map_step direct_map_wf
proof
  show "direct_map_wf m" if "\<exists>OWNED frames base limit ram. frame_wf frames \<and> unat base + unat limit \<le> 2 ^ 64
      \<and> m = direct_map_new OWNED frames base limit ram" for m
    using that by (auto simp: direct_map_new_def direct_map_wf_def owns_iff distinct_slots_def)
  show "direct_map_wf m'" if "direct_map_wf m" "direct_map_step m m'" for m m'
    using that(2) table_ops_wf[OF that(1)] elsewhere_step_sound[OF that(1)] by cases auto
qed

lemma owned_frame_kept:
  assumes "direct_map_wf m" and "frame_of f \<in> free_set (dm_pool m)"
  shows "\<not> owns m f"
  using direct_map_wfD(3)[OF assms(1), of f] assms(2) by (auto simp: held_def)

text \<open>
  A table frame has one owner. Start with any frame pool and any number of
  provenance slots, let the adapter and the rest of the kernel act in any order, the rest
  returning no frame of the adapter: then no allocation from the pool, single or contiguous,
  hands out a frame the adapter owns, and no frame stands in two provenance slots.\<close>

theorem table_frames_exclusive:
  assumes "frame_wf frames" and "unat base + unat limit \<le> 2 ^ 64"
    and "direct_map_step\<^sup>*\<^sup>* (direct_map_new OWNED frames base limit ram) m"
  shows "(pool_allocate (dm_pool m) = (Some p, q) \<longrightarrow> \<not> owns m p)
    \<and> (pool_allocate_contiguous (dm_pool m) n alignment = Some (Some p', q') \<longrightarrow> k < n \<longrightarrow> \<not> owns m (p' + of_nat k * PAGE_SIZE))
    \<and> (i < length (dm_owned m) \<longrightarrow> j < length (dm_owned m) \<longrightarrow> i \<noteq> j \<longrightarrow> dm_owned m ! i = Some f \<longrightarrow> dm_owned m ! j \<noteq> Some f)"
proof (intro conjI impI)
  have wf: "direct_map_wf m" using adapter.inv_reachable[OF _ assms(3)] assms(1,2) by blast
  note pool = direct_map_wfD(1)[OF wf]
  show "\<not> owns m p" if "pool_allocate (dm_pool m) = (Some p, q)"
    by (rule owned_frame_kept[OF wf pool_allocate_Some(2)[OF pool that]])
  show "\<not> owns m (p' + of_nat k * PAGE_SIZE)" if a: "pool_allocate_contiguous (dm_pool m) n alignment = Some (Some p', q')" and k: "k < n"
  proof (rule owned_frame_kept[OF wf])
    have run: "frame_of p' + k \<in> free_set (dm_pool m)" using pool_allocate_contiguous_Some(4)[OF pool a refl] k by auto
    have "p' + of_nat k * PAGE_SIZE = frame_address (frame_of p' + k)"
      using pool_allocate_contiguous_Some(5)[OF pool a refl] by (simp add: frame_address_def distrib_right)
    with run free_set_small[OF pool run] show "frame_of (p' + of_nat k * PAGE_SIZE) \<in> free_set (dm_pool m)" by (simp add: frame_of_def)
  qed
  show "dm_owned m ! j \<noteq> Some f" if "i < length (dm_owned m)" "j < length (dm_owned m)" "i \<noteq> j" "dm_owned m ! i = Some f"
    using direct_map_wfD(4)[OF wf] that by (auto simp: distinct_slots_def)
qed

theorem table_frames_exclusive_witness:
  "fst (pool_allocate (dm_pool sample_fresh)) = Some 0x6000 \<and> owns sample_fresh 0x5000 \<and> \<not> owns sample_fresh 0x6000"
proof -
  have step: "direct_map_step\<^sup>*\<^sup>* (direct_map_new 1 sample_allocator 0xFFFF800000000000 0x8000 (\<lambda>_. 0)) sample_fresh"
    by (rule r_into_rtranclp) (rule direct_map_step.intros(1)[OF sample_fresh_allocate])
  obtain q where q: "pool_allocate (dm_pool sample_fresh) = (Some 0x6000, q)"
    by (simp add: sample_fresh_def pool_allocate_def frame_allocate_def sample_pool_def is_allocated_def bit_is_set_def frame_address_def upt_eight)
  moreover have "owns sample_fresh 0x5000" by (simp add: sample_fresh_def owns_def)
  ultimately show ?thesis using table_frames_exclusive[OF sample_allocator_wf _ step, of "0x6000" q] by simp
qed

section \<open>A mapping whose cleanup never ends\<close>

text \<open>An unmapping that waits for its invalidation still lists its leaf table, although its
  entry in it is already zero. When the last other mapping of that table is unmapped meanwhile, its cleanup
  releases the table. From then on \<open>finish_unmap\<close> for the first mapping fails to read the table, so
  it stays pending however often it is called, and its slot is never free again.\<close>

lemma cleanup_never_ends:
  assumes "direct_map_wf m" and "sl_state s = Operational" and "record_index s receipt = Ok j"
    and "ms_record (sl_slots s ! j) = Some r" and "mr_phase r = AwaitingCleanup"
    and "mr_cleanup_depth r + 1 < pa_depth (mr_path r)"
    and "\<not> owns m (pa_frames (mr_path r) ! (pa_depth (mr_path r) - 1 - mr_cleanup_depth r))"
  shows "finish_unmap direct_map_memory I receipt s m i = (Ok (UnmapPending receipt (Cleanup UNKNOWN_FRAME)), s, m, i)"
proof -
  obtain n where n: "pa_depth (mr_path r) - 1 - mr_cleanup_depth r = Suc n" using assms(6) by (cases "pa_depth (mr_path r) - 1 - mr_cleanup_depth r") auto
  have "[0 ..< ENTRIES_PER_TABLE] = 0 # [Suc 0 ..< ENTRIES_PER_TABLE]" by (rule upt_conv_Cons) simp
  then have "table_is_empty direct_map_memory m (pa_frames (mr_path r) ! Suc n) = Err UNKNOWN_FRAME"
    using assms(7) n by (simp add: table_is_empty_def read_entry_def owned_pointer_Ok[OF assms(1)])
  then show ?thesis using assms(2-5) n
    by (simp add: finish_unmap_def finish_cleanup_def reclaim_empty_tables_def reclaim_round_def)
qed

end
