(* ===== verification/Bytes.thy ===== *)
theory Bytes
  imports Prelude
begin

text \<open>
  Bytes in memory and on the wire: the little-endian byte order of the Rust integers
  (\<open>to_le_bytes\<close>, \<open>from_le_bytes\<close>) with both round trips, and a byte-addressed memory written
  one byte after the other, as the volatile loops of the drivers do.
\<close>

section \<open>Little-endian integers\<close>

definition to_le_bytes :: "'a::len word \<Rightarrow> u8 list" where
  "to_le_bytes w = map (\<lambda>i. ucast (drop_bit (8 * i) w)) [0 ..< LENGTH('a) div 8]"

primrec from_le_bytes :: "u8 list \<Rightarrow> 'a::len word" where
  "from_le_bytes [] = 0"
| "from_le_bytes (b # bs) = ucast b OR push_bit 8 (from_le_bytes bs)"

lemma length_to_le_bytes [simp]: "length (to_le_bytes (w :: 'a::len word)) = LENGTH('a) div 8"
  by (simp add: to_le_bytes_def)

lemma bit_from_le_bytes:
  "bit (from_le_bytes bs :: 'a::len word) n \<longleftrightarrow> n < LENGTH('a) \<and> n div 8 < length bs \<and> bit (bs ! (n div 8)) (n mod 8)"
proof (induction bs arbitrary: n)
  case (Cons b bs)
  show ?case
  proof (cases "n < 8")
    case True
    then show ?thesis by (auto simp: bit_simps dest: bit_imp_le_length)
  next
    case False
    then have "n div 8 = Suc ((n - 8) div 8)" "n mod 8 = (n - 8) mod 8" by (simp_all add: le_div_geq le_mod_geq)
    moreover have "\<not> bit b n" using False bit_imp_le_length[of b n] by auto
    ultimately show ?thesis using False Cons.IH[of "n - 8"] by (auto simp: bit_or_iff bit_push_bit_iff bit_ucast_iff)
  qed
qed simp

lemma nth_to_le_bytes: "i < LENGTH('a) div 8 \<Longrightarrow> to_le_bytes (w :: 'a::len word) ! i = ucast (drop_bit (8 * i) w)"
  by (simp add: to_le_bytes_def)

lemma from_to_le_bytes [simp]:
  assumes "8 dvd LENGTH('a)"
  shows "from_le_bytes (to_le_bytes w) = (w :: 'a::len word)"
proof (rule bit_word_eqI)
  fix n assume n: "n < LENGTH('a)"
  then have "n div 8 < LENGTH('a) div 8" using assms by (auto elim!: dvdE)
  with n show "bit (from_le_bytes (to_le_bytes w) :: 'a word) n = bit w n"
    by (simp add: bit_from_le_bytes nth_to_le_bytes bit_simps)
qed

lemma to_from_le_bytes:
  assumes "8 * length bs = LENGTH('a)"
  shows "to_le_bytes (from_le_bytes bs :: 'a::len word) = bs"
proof (rule nth_equalityI)
  show "length (to_le_bytes (from_le_bytes bs :: 'a word)) = length bs" using assms by (metis length_to_le_bytes nonzero_mult_div_cancel_left zero_neq_numeral)
  fix i assume "i < length (to_le_bytes (from_le_bytes bs :: 'a word))"
  then have i: "i < LENGTH('a) div 8" "i < length bs" using assms by auto
  show "to_le_bytes (from_le_bytes bs :: 'a word) ! i = bs ! i"
  proof (rule bit_word_eqI)
    fix n assume "n < LENGTH(8)"
    then have "(8 * i + n) div 8 = i" "(8 * i + n) mod 8 = n" "8 * i + n < LENGTH('a)" using i assms by auto
    with i \<open>n < LENGTH(8)\<close> show "bit (to_le_bytes (from_le_bytes bs :: 'a word) ! i) n = bit (bs ! i) n"
      by (simp add: nth_to_le_bytes bit_simps bit_from_le_bytes)
  qed
qed

section \<open>Byte-addressed memory\<close>

type_synonym ram = "u64 \<Rightarrow> u8"

primrec store_bytes :: "u64 \<Rightarrow> u8 list \<Rightarrow> ram \<Rightarrow> ram" where
  "store_bytes a [] ram = ram"
| "store_bytes a (b # bs) ram = store_bytes (a + 1) bs (ram(a := b))"

definition load_bytes :: "u64 \<Rightarrow> nat \<Rightarrow> ram \<Rightarrow> u8 list" where
  "load_bytes a n ram = map (\<lambda>i. ram (a + of_nat i)) [0 ..< n]"

lemma length_load_bytes [simp]: "length (load_bytes a n ram) = n"
  by (simp add: load_bytes_def)

lemma store_bytes_at:
  assumes "length bs \<le> 2 ^ 64"
  shows "store_bytes a bs ram x = (if unat (x - a) < length bs then bs ! unat (x - a) else ram x)"
  using assms
proof (induction bs arbitrary: a ram)
  case (Cons b bs)
  then have IH: "store_bytes a (b # bs) ram x
      = (if unat (x - (a + 1)) < length bs then bs ! unat (x - (a + 1)) else (ram(a := b)) x)" by simp
  show ?case
  proof (cases "x = a")
    case True
    then have "unat (x - (a + 1)) = 2 ^ 64 - 1" by (simp add: unat_minus_one_word)
    with Cons.prems True show ?thesis unfolding IH by simp
  next
    case False
    then have "unat (x - a) = Suc (unat (x - (a + 1)))"
      using unatSuc[of "x - (a + 1)"] by (simp add: algebra_simps)
    with False show ?thesis unfolding IH by simp
  qed
qed simp

lemma unat_offset: "i < 2 ^ 64 \<Longrightarrow> unat ((a + of_nat i) - a :: u64) = i"
  by (simp add: unat_of_nat)

lemma load_store_bytes:
  assumes "length bs \<le> 2 ^ 64"
  shows "load_bytes a (length bs) (store_bytes a bs ram) = bs"
  using assms by (auto simp: load_bytes_def store_bytes_at unat_of_nat intro!: nth_equalityI)

definition overlay :: "'a list \<Rightarrow> nat \<Rightarrow> 'a list \<Rightarrow> 'a list" where
  "overlay xs offset ys = take offset xs @ ys @ drop (offset + length ys) xs"

lemma length_overlay [simp]: "offset + length ys \<le> length xs \<Longrightarrow> length (overlay xs offset ys) = length xs"
  by (simp add: overlay_def)

lemma nth_overlay:
  "offset + length ys \<le> length xs \<Longrightarrow> i < length xs
     \<Longrightarrow> overlay xs offset ys ! i = (if offset \<le> i \<and> i < offset + length ys then ys ! (i - offset) else xs ! i)"
  by (auto simp: overlay_def nth_append min_def)

lemma load_store_overlay:
  assumes "offset + length bs \<le> n" and "n < 2 ^ 64"
  shows "load_bytes a n (store_bytes (a + of_nat offset) bs ram) = overlay (load_bytes a n ram) offset bs"
proof (rule nth_equalityI)
  fix i assume "i < length (load_bytes a n (store_bytes (a + of_nat offset) bs ram))"
  then have i: "i < n" by simp
  have len: "length bs \<le> 2 ^ 64" using assms by simp
  have "unat ((a + of_nat i) - (a + of_nat offset) :: u64) = unat (of_nat i - of_nat offset :: u64)" by simp
  also have "\<dots> = (if offset \<le> i then i - offset else i + 2 ^ 64 - offset)"
    using i assms by (subst unat_sub_if_size) (simp add: unat_of_nat word_size word_le_nat_alt)
  finally show "load_bytes a n (store_bytes (a + of_nat offset) bs ram) ! i = overlay (load_bytes a n ram) offset bs ! i"
    using i assms by (auto simp: load_bytes_def store_bytes_at[OF len] nth_overlay)
qed (use assms in simp)

lemma load_store_other:
  assumes "\<And>k l. k < n \<Longrightarrow> l < length bs \<Longrightarrow> a + of_nat k \<noteq> c + of_nat l" and "length bs \<le> 2 ^ 64"
  shows "load_bytes a n (store_bytes c bs ram) = load_bytes a n ram"
proof (rule nth_equalityI)
  fix k assume "k < length (load_bytes a n (store_bytes c bs ram))"
  then have k: "k < n" by simp
  let ?x = "a + of_nat k"
  have "\<not> unat (?x - c) < length bs"
  proof
    assume "unat (?x - c) < length bs"
    moreover have "?x = c + of_nat (unat (?x - c))" by simp
    ultimately show False using assms(1)[OF k] by blast
  qed
  with k assms(2) show "load_bytes a n (store_bytes c bs ram) ! k = load_bytes a n ram ! k"
    by (simp add: load_bytes_def store_bytes_at)
qed simp

end
