(* ===== verification/XhciDma.thy ===== *)
theory XhciDma
  imports FramePool Bytes
begin

text \<open>
  The DMA arena of the xHCI driver, \<^verbatim>\<open>src/kernel/boulder/src/drivers/xhci_dma.rs\<close>: the proof that
  a requester may use physical addresses directly, the regions an arena takes from the frame pool
  for one controller, their release, and the bounded byte transfers into them. The state of the
  arena carries the frame pool and the memory seen through the direct map, both of which it
  shares with the rest of the kernel. \<open>usize\<close> addresses are 64-bit words, so the conversions
  from \<open>u64\<close> never fail and are left out.
\<close>

section \<open>The identity window\<close>

record pci_address =
  pci_bus :: u8
  pci_slot :: u8
  pci_function :: u8

record dma_observation =
  ob_x86_cache_coherent :: bool
  ob_requester_remapping_active :: bool

datatype identity_error = InvalidGeneration | InvalidEvidenceRoot | UnalignedPhysicalAperture
  | EmptyPhysicalAperture | PhysicalApertureOverflow | CpuApertureOverflow | DeviceLimitBelowAperture
  | X86CoherencyUnproven | ActiveRequesterRemapping

record identity_window =
  iw_device :: pci_address
  iw_physical_start :: u64
  iw_physical_end :: u64
  iw_direct_map_base :: u64
  iw_cpu_start :: u64
  iw_cpu_end :: u64
  iw_device_address_limit :: u64
  iw_generation :: u32
  iw_evidence_root :: u64
  iw_proof_root :: u64
  iw_x86_cache_coherent :: bool
  iw_requester_remapping_active :: bool

abbreviation (input) IDENTITY_ROOT_DOMAIN :: u64 where "IDENTITY_ROOT_DOMAIN \<equiv> 0x5848434949444d41"
abbreviation (input) ARENA_ROOT_DOMAIN :: u64 where "ARENA_ROOT_DOMAIN \<equiv> 0x584843494152454e"

definition dma_mix :: "u64 \<Rightarrow> u64 \<Rightarrow> u64" where
  "dma_mix state w =
     (let state = state XOR w * 0x9e3779b97f4a7c15;
          state = state XOR drop_bit 30 state;
          state = state * 0xbf58476d1ce4e5b9;
          state = state XOR drop_bit 27 state;
          state = state * 0x94d049bb133111eb
      in state XOR drop_bit 31 state)"

definition dma_canonical_root :: "u64 \<Rightarrow> u64 \<Rightarrow> u64" where
  "dma_canonical_root root domain = (if root = 0 then domain else root)"

definition window_proof_root :: "pci_address \<Rightarrow> u64 \<Rightarrow> u64 \<Rightarrow> u64 \<Rightarrow> u32 \<Rightarrow> u64 \<Rightarrow> u64" where
  "window_proof_root device physical_start physical_end device_address_limit generation evidence_root =
     (let root = dma_mix (evidence_root XOR IDENTITY_ROOT_DOMAIN) (ucast (pci_bus device));
          root = dma_mix root (ucast (pci_slot device));
          root = dma_mix root (ucast (pci_function device));
          root = dma_mix root physical_start;
          root = dma_mix root physical_end;
          root = dma_mix root device_address_limit;
          root = dma_mix root (ucast generation)
      in dma_canonical_root root IDENTITY_ROOT_DOMAIN)"

definition establish :: "pci_address \<Rightarrow> u64 \<Rightarrow> u64 \<Rightarrow> u64 \<Rightarrow> u64 \<Rightarrow> u32 \<Rightarrow> u64 \<Rightarrow> dma_observation
    \<Rightarrow> identity_error + identity_window" where
  "establish device physical_start physical_bytes direct_map_base device_address_limit generation evidence_root observation =
     (if generation = 0 then Err InvalidGeneration
      else if evidence_root = 0 then Err InvalidEvidenceRoot
      else if physical_start mod PAGE_SIZE \<noteq> 0 \<or> physical_bytes mod PAGE_SIZE \<noteq> 0 then Err UnalignedPhysicalAperture
      else if physical_bytes = 0 then Err EmptyPhysicalAperture
      else (case checked_add physical_start physical_bytes of None \<Rightarrow> Err PhysicalApertureOverflow | Some physical_end \<Rightarrow>
        if physical_end - 1 > device_address_limit then Err DeviceLimitBelowAperture
        else (case checked_add direct_map_base physical_start of None \<Rightarrow> Err CpuApertureOverflow | Some cpu_start \<Rightarrow>
             (case checked_add direct_map_base physical_end of None \<Rightarrow> Err CpuApertureOverflow | Some cpu_end \<Rightarrow>
        if cpu_start = 0 \<or> cpu_start \<ge> cpu_end then Err CpuApertureOverflow
        else if \<not> ob_x86_cache_coherent observation then Err X86CoherencyUnproven
        else if ob_requester_remapping_active observation then Err ActiveRequesterRemapping
        else Ok \<lparr>iw_device = device, iw_physical_start = physical_start, iw_physical_end = physical_end,
                iw_direct_map_base = direct_map_base, iw_cpu_start = cpu_start, iw_cpu_end = cpu_end,
                iw_device_address_limit = device_address_limit, iw_generation = generation,
                iw_evidence_root = evidence_root,
                iw_proof_root = window_proof_root device physical_start physical_end device_address_limit generation evidence_root,
                iw_x86_cache_coherent = True, iw_requester_remapping_active = False\<rparr>))))"

section \<open>Regions and the arena\<close>

datatype dma_purpose = Dcbaa | CommandRing | EventRing | EventRingSegmentTable | ScratchpadPointerArray | ScratchpadBuffers

fun purpose_code :: "dma_purpose \<Rightarrow> u64" where
  "purpose_code Dcbaa = 1"
| "purpose_code CommandRing = 2"
| "purpose_code EventRing = 3"
| "purpose_code EventRingSegmentTable = 4"
| "purpose_code ScratchpadPointerArray = 5"
| "purpose_code ScratchpadBuffers = 6"

datatype region_phase = RegionEmpty | FrameOwned | Zeroed | Ready | Releasing | ReleaseDebt | Released

record region_record =
  rr_phase :: region_phase
  rr_generation :: u32
  rr_purpose :: dma_purpose
  rr_device :: pci_address
  rr_physical_start :: u64
  rr_physical_end :: u64
  rr_device_address_start :: u64
  rr_device_address_end :: u64
  rr_cpu_start :: u64
  rr_cpu_end :: u64
  rr_page_count :: nat
  rr_region_root :: u64

definition region_record_EMPTY :: region_record where
  "region_record_EMPTY = \<lparr>rr_phase = RegionEmpty, rr_generation = 0, rr_purpose = Dcbaa,
     rr_device = \<lparr>pci_bus = 0, pci_slot = 0, pci_function = 0\<rparr>, rr_physical_start = 0, rr_physical_end = 0,
     rr_device_address_start = 0, rr_device_address_end = 0, rr_cpu_start = 0, rr_cpu_end = 0,
     rr_page_count = 0, rr_region_root = 0\<rparr>"

definition region_byte_length :: "region_record \<Rightarrow> nat" where
  "region_byte_length r = unat (rr_cpu_end r - rr_cpu_start r)"

record region_token =
  tk_generation :: u32
  tk_purpose :: dma_purpose

datatype dma_error = InvalidSecret | ScratchpadCountUnsupported u16 | FrameUnavailable dma_purpose
  | PhysicalRangeOverflow dma_purpose | OutsideIdentityAperture dma_purpose | DeviceAddressLimit dma_purpose
  | CpuAliasOverflow dma_purpose | RegionCapacity | MissingRegion dma_purpose | StaleRegionToken
  | InactiveRegion dma_purpose | EmptyTransfer | TransferOutsideRegion

datatype release_fault = QuiescenceMismatch | FrameAllocatorFault dma_purpose frame_error | AlreadyReleased

record release_receipt =
  rc_device :: pci_address
  rc_generation :: u32
  rc_released_pages :: nat
  rc_release_root :: u64

record dma_quiescence =
  qu_device :: pci_address
  qu_generation :: u32
  qu_evidence_root :: u64

record xhci_arena =
  xa_frames :: frame_state
  xa_ram :: ram
  xa_identity :: identity_window
  xa_records :: "region_record list"
  xa_record_count :: nat
  xa_scratchpad_count :: u16
  xa_supports_64_bit_addresses :: bool
  xa_effective_device_limit :: u64
  xa_secret :: u64
  xa_arena_root :: u64
  xa_released_pages :: nat

abbreviation (input) FIXED_REGION_CAPACITY :: nat where "FIXED_REGION_CAPACITY \<equiv> 6"
abbreviation (input) MAXIMUM_SCRATCHPAD_BUFFERS :: u16 where "MAXIMUM_SCRATCHPAD_BUFFERS \<equiv> 1023"

type_synonym 'a arena_result = "(dma_error + 'a) \<times> xhci_arena"

definition arena_records :: "xhci_arena \<Rightarrow> region_record list" where
  "arena_records a = take (xa_record_count a) (xa_records a)"

definition region :: "xhci_arena \<Rightarrow> dma_purpose \<Rightarrow> region_record option" where
  "region a purpose = List.find (\<lambda>r. rr_purpose r = purpose) (arena_records a)"

definition token :: "xhci_arena \<Rightarrow> dma_purpose \<Rightarrow> region_token option" where
  "token a purpose = map_option (\<lambda>r. \<lparr>tk_generation = rr_generation r, tk_purpose = purpose\<rparr>) (region a purpose)"

section \<open>Transfers\<close>

definition validate_transfer :: "region_record \<Rightarrow> nat \<Rightarrow> nat \<Rightarrow> dma_error + unit" where
  "validate_transfer r offset len =
     (case checked_add_usize offset len of
        None \<Rightarrow> Err TransferOutsideRegion
      | Some end \<Rightarrow> if end > region_byte_length r then Err TransferOutsideRegion else Ok ())"

definition volatile_write_u64 :: "region_record \<Rightarrow> nat \<Rightarrow> u64 \<Rightarrow> xhci_arena \<Rightarrow> unit arena_result" where
  "volatile_write_u64 r offset v a =
     (case validate_transfer r offset 8 of
        Err e \<Rightarrow> (Err e, a)
      | Ok _ \<Rightarrow> (Ok (), a\<lparr>xa_ram := store_bytes (rr_cpu_start r + of_nat offset) (to_le_bytes v) (xa_ram a)\<rparr>))"

definition zero_volatile :: "u64 \<Rightarrow> nat \<Rightarrow> ram \<Rightarrow> ram" where
  "zero_volatile cpu_start bytes ram = store_bytes cpu_start (replicate bytes 0) ram"

definition record_for_token :: "xhci_arena \<Rightarrow> region_token \<Rightarrow> dma_error + region_record" where
  "record_for_token a t =
     (if tk_generation t \<noteq> iw_generation (xa_identity a) then Err StaleRegionToken
      else
        (case region a (tk_purpose t) of
           None \<Rightarrow> Err (MissingRegion (tk_purpose t))
         | Some r \<Rightarrow>
             if rr_phase r = Zeroed \<or> rr_phase r = Ready then Ok r else Err (InactiveRegion (tk_purpose t))))"

definition arena_write :: "xhci_arena \<Rightarrow> region_token \<Rightarrow> nat \<Rightarrow> u8 list \<Rightarrow> unit arena_result" where
  "arena_write a t offset bytes =
     (if bytes = [] then (Err EmptyTransfer, a)
      else
        (case record_for_token a t of Err e \<Rightarrow> (Err e, a) | Ok r \<Rightarrow>
        (case validate_transfer r offset (length bytes) of Err e \<Rightarrow> (Err e, a) | Ok _ \<Rightarrow>
           (Ok (), a\<lparr>xa_ram := store_bytes (rr_cpu_start r + of_nat offset) bytes (xa_ram a)\<rparr>))))"

definition arena_read :: "xhci_arena \<Rightarrow> region_token \<Rightarrow> nat \<Rightarrow> nat \<Rightarrow> dma_error + u8 list" where
  "arena_read a t offset len =
     (if len = 0 then Err EmptyTransfer
      else
        (case record_for_token a t of Err e \<Rightarrow> Err e | Ok r \<Rightarrow>
        (case validate_transfer r offset len of Err e \<Rightarrow> Err e | Ok _ \<Rightarrow>
           Ok (load_bytes (rr_cpu_start r + of_nat offset) len (xa_ram a)))))"

section \<open>Building the arena\<close>

definition region_root :: "u64 \<Rightarrow> region_record \<Rightarrow> u64" where
  "region_root secret r =
     (let root = dma_mix (secret XOR ARENA_ROOT_DOMAIN) (purpose_code (rr_purpose r));
          root = dma_mix root (ucast (rr_generation r));
          root = dma_mix root (ucast (pci_bus (rr_device r)));
          root = dma_mix root (ucast (pci_slot (rr_device r)));
          root = dma_mix root (ucast (pci_function (rr_device r)));
          root = dma_mix root (rr_physical_start r);
          root = dma_mix root (rr_physical_end r);
          root = dma_mix root (rr_device_address_start r);
          root = dma_mix root (rr_device_address_end r);
          root = dma_mix root (of_nat (rr_page_count r))
      in dma_canonical_root root ARENA_ROOT_DOMAIN)"

definition frame_owned_record :: "identity_window \<Rightarrow> dma_purpose \<Rightarrow> u64 \<Rightarrow> nat \<Rightarrow> region_record" where
  "frame_owned_record w purpose physical page_count =
     \<lparr>rr_phase = FrameOwned, rr_generation = iw_generation w, rr_purpose = purpose, rr_device = iw_device w,
      rr_physical_start = physical, rr_physical_end = physical, rr_device_address_start = physical,
      rr_device_address_end = physical, rr_cpu_start = 0, rr_cpu_end = 0, rr_page_count = page_count, rr_region_root = 0\<rparr>"

definition region_ranges :: "identity_window \<Rightarrow> u64 \<Rightarrow> dma_purpose \<Rightarrow> u64 \<Rightarrow> nat \<Rightarrow> dma_error + u64 \<times> u64 \<times> u64" where
  "region_ranges w effective_limit purpose physical page_count =
     (case checked_mul_usize page_count 4096 of None \<Rightarrow> Err (PhysicalRangeOverflow purpose) | Some bytes \<Rightarrow>
     (case checked_add physical (of_nat bytes) of None \<Rightarrow> Err (PhysicalRangeOverflow purpose) | Some physical_end \<Rightarrow>
      if physical < iw_physical_start w \<or> physical_end > iw_physical_end w then Err (OutsideIdentityAperture purpose)
      else if physical_end - 1 > effective_limit then Err (DeviceAddressLimit purpose)
      else
     (case checked_add (iw_direct_map_base w) physical of None \<Rightarrow> Err (CpuAliasOverflow purpose) | Some cpu_start \<Rightarrow>
     (case checked_add cpu_start (of_nat bytes) of None \<Rightarrow> Err (CpuAliasOverflow purpose) | Some cpu_end \<Rightarrow>
      if cpu_start < iw_cpu_start w \<or> cpu_end > iw_cpu_end w then Err (CpuAliasOverflow purpose)
      else Ok (physical_end, cpu_start, cpu_end)))))"

definition allocate_region :: "dma_purpose \<Rightarrow> nat \<Rightarrow> xhci_arena \<Rightarrow> unit arena_result" where
  "allocate_region purpose page_count a =
     (let slot = xa_record_count a in
      if slot \<ge> FIXED_REGION_CAPACITY then (Err RegionCapacity, a)
      else
        (case pool_run (xa_frames a) page_count 1 of
           (None, p) \<Rightarrow> (Err (FrameUnavailable purpose), a\<lparr>xa_frames := p\<rparr>)
         | (Some physical, p) \<Rightarrow>
             (let owned = frame_owned_record (xa_identity a) purpose physical page_count;
                  a = a\<lparr>xa_frames := p, xa_records := (xa_records a)[slot := owned], xa_record_count := slot + 1\<rparr>
              in case region_ranges (xa_identity a) (xa_effective_device_limit a) purpose physical page_count of
                   Err e \<Rightarrow> (Err e, a)
                 | Ok (physical_end, cpu_start, cpu_end) \<Rightarrow>
                     (let zeroed = owned\<lparr>rr_physical_end := physical_end, rr_device_address_end := physical_end,
                                         rr_cpu_start := cpu_start, rr_cpu_end := cpu_end, rr_phase := Zeroed\<rparr>
                      in (Ok (), a\<lparr>xa_ram := zero_volatile cpu_start (page_count * 4096) (xa_ram a),
                                  xa_records := (xa_records a)[slot := zeroed\<lparr>rr_region_root := region_root (xa_secret a) zeroed\<rparr>]\<rparr>)))))"

text \<open>Running one operation after another, with the early return of \<open>?\<close>.\<close>

definition and_then :: "unit arena_result \<Rightarrow> (xhci_arena \<Rightarrow> unit arena_result) \<Rightarrow> unit arena_result" where
  "and_then r f = (case r of (Err e, a) \<Rightarrow> (Err e, a) | (Ok _, a) \<Rightarrow> f a)"

definition write_scratchpad_link :: "region_record \<Rightarrow> region_record \<Rightarrow> nat \<Rightarrow> xhci_arena \<Rightarrow> unit arena_result" where
  "write_scratchpad_link array buffers index a =
     (case checked_add (rr_device_address_start buffers) (of_nat index * PAGE_SIZE) of
        None \<Rightarrow> (Err (PhysicalRangeOverflow ScratchpadBuffers), a)
      | Some address \<Rightarrow> volatile_write_u64 array (index * 8) address a)"

fun write_scratchpad_links :: "region_record \<Rightarrow> region_record \<Rightarrow> nat list \<Rightarrow> xhci_arena \<Rightarrow> unit arena_result" where
  "write_scratchpad_links array buffers [] a = (Ok (), a)"
| "write_scratchpad_links array buffers (index # rest) a =
     and_then (write_scratchpad_link array buffers index a) (write_scratchpad_links array buffers rest)"

definition initialize_scratchpad_links :: "xhci_arena \<Rightarrow> unit arena_result" where
  "initialize_scratchpad_links a =
     (case region a ScratchpadPointerArray of None \<Rightarrow> (Err (MissingRegion ScratchpadPointerArray), a) | Some array \<Rightarrow>
     (case region a ScratchpadBuffers of None \<Rightarrow> (Err (MissingRegion ScratchpadBuffers), a) | Some buffers \<Rightarrow>
      and_then (write_scratchpad_links array buffers [0 ..< unat (xa_scratchpad_count a)] a) (\<lambda>a.
        case region a Dcbaa of
          None \<Rightarrow> (Err (MissingRegion Dcbaa), a)
        | Some dcbaa \<Rightarrow> volatile_write_u64 dcbaa 0 (rr_device_address_start array) a)))"

definition mark_ready :: "xhci_arena \<Rightarrow> xhci_arena" where
  "mark_ready a = a\<lparr>xa_records := map (\<lambda>r. r\<lparr>rr_phase := Ready\<rparr>) (take (xa_record_count a) (xa_records a))
      @ drop (xa_record_count a) (xa_records a)\<rparr>"

definition allocate_all_regions :: "xhci_arena \<Rightarrow> unit arena_result" where
  "allocate_all_regions a =
     and_then (allocate_region Dcbaa 1 a) (\<lambda>a.
     and_then (allocate_region CommandRing 1 a) (\<lambda>a.
     and_then (allocate_region EventRing 1 a) (\<lambda>a.
     and_then (allocate_region EventRingSegmentTable 1 a) (\<lambda>a.
     and_then
       (if xa_scratchpad_count a \<noteq> 0 then
          (case checked_mul_usize (unat (xa_scratchpad_count a)) 8 of
             None \<Rightarrow> (Err (ScratchpadCountUnsupported (xa_scratchpad_count a)), a)
           | Some pointer_bytes \<Rightarrow>
               and_then (allocate_region ScratchpadPointerArray ((pointer_bytes + 4095) div 4096) a) (\<lambda>a.
               and_then (allocate_region ScratchpadBuffers (unat (xa_scratchpad_count a)) a)
                 initialize_scratchpad_links))
        else (Ok (), a))
       (\<lambda>a. (Ok (), mark_ready a))))))"

definition finish_arena_root :: "xhci_arena \<Rightarrow> xhci_arena" where
  "finish_arena_root a =
     (let root = dma_mix (xa_secret a XOR ARENA_ROOT_DOMAIN) (iw_proof_root (xa_identity a));
          root = dma_mix root (ucast (iw_generation (xa_identity a)));
          root = dma_mix root (ucast (xa_scratchpad_count a));
          root = dma_mix root (of_bool (xa_supports_64_bit_addresses a));
          root = fold (\<lambda>r root. dma_mix root (rr_region_root r)) (arena_records a) root
      in a\<lparr>xa_arena_root := dma_canonical_root root ARENA_ROOT_DOMAIN\<rparr>)"

section \<open>Giving the frames back\<close>

fun release_from :: "nat list \<Rightarrow> xhci_arena \<Rightarrow> (release_fault + unit) \<times> xhci_arena" where
  "release_from [] a = (Ok (), a)"
| "release_from (index # rest) a =
     (let r = xa_records a ! index in
      if rr_phase r = RegionEmpty \<or> rr_phase r = Released then release_from rest a
      else
        (case pool_release_contiguous (xa_frames a) (rr_physical_start r) (rr_page_count r) of
           (Err source, p) \<Rightarrow>
             (Err (FrameAllocatorFault (rr_purpose r) source),
              a\<lparr>xa_frames := p, xa_records := (xa_records a)[index := r\<lparr>rr_phase := ReleaseDebt\<rparr>]\<rparr>)
         | (Ok _, p) \<Rightarrow>
             release_from rest
               (a\<lparr>xa_frames := p, xa_records := (xa_records a)[index := r\<lparr>rr_phase := Released\<rparr>],
                  xa_released_pages := xa_released_pages a + rr_page_count r\<rparr>)))"

definition release_records :: "xhci_arena \<Rightarrow> (release_fault + release_receipt) \<times> xhci_arena" where
  "release_records a =
     (if list_all (\<lambda>r. rr_phase r = RegionEmpty \<or> rr_phase r = Released) (arena_records a) then (Err AlreadyReleased, a)
      else
        (case release_from (rev [0 ..< xa_record_count a]) a of
           (Err e, a) \<Rightarrow> (Err e, a)
         | (Ok _, a) \<Rightarrow>
             (let root = dma_mix (xa_arena_root a XOR ARENA_ROOT_DOMAIN) (ucast (iw_generation (xa_identity a)));
                  root = dma_mix root (of_nat (xa_released_pages a));
                  root = dma_mix root (iw_proof_root (xa_identity a))
              in (Ok \<lparr>rc_device = iw_device (xa_identity a), rc_generation = iw_generation (xa_identity a),
                      rc_released_pages = xa_released_pages a, rc_release_root = dma_canonical_root root ARENA_ROOT_DOMAIN\<rparr>, a))))"

definition arena_release :: "xhci_arena \<Rightarrow> dma_quiescence \<Rightarrow> (release_fault + release_receipt) \<times> xhci_arena" where
  "arena_release a q =
     (if qu_device q \<noteq> iw_device (xa_identity a) \<or> qu_generation q \<noteq> iw_generation (xa_identity a) \<or> qu_evidence_root q = 0
      then (Err QuiescenceMismatch, a)
      else release_records a)"

text \<open>A failed build carries its cause and, where frames could not be given back, the arena as a
  debt.\<close>

record build_failure =
  bf_cause :: dma_error
  bf_debt :: "(xhci_arena \<times> release_fault) option"

definition rollback_build :: "dma_error \<Rightarrow> xhci_arena \<Rightarrow> build_failure \<times> xhci_arena" where
  "rollback_build cause a =
     (if xa_record_count a = 0 then (\<lparr>bf_cause = cause, bf_debt = None\<rparr>, a)
      else
        (case release_records a of
           (Ok _, a) \<Rightarrow> (\<lparr>bf_cause = cause, bf_debt = None\<rparr>, a)
         | (Err fault, a) \<Rightarrow> (\<lparr>bf_cause = cause, bf_debt = Some (a, fault)\<rparr>, a)))"

definition arena_start :: "frame_state \<Rightarrow> ram \<Rightarrow> identity_window \<Rightarrow> u16 \<Rightarrow> bool \<Rightarrow> u64 \<Rightarrow> xhci_arena" where
  "arena_start frames ram identity scratchpad_count supports_64_bit_addresses secret =
     \<lparr>xa_frames = frames, xa_ram = ram, xa_identity = identity,
      xa_records = replicate FIXED_REGION_CAPACITY region_record_EMPTY, xa_record_count = 0,
      xa_scratchpad_count = scratchpad_count, xa_supports_64_bit_addresses = supports_64_bit_addresses,
      xa_effective_device_limit = (if supports_64_bit_addresses then iw_device_address_limit identity
        else min (iw_device_address_limit identity) 0xffffffff),
      xa_secret = secret, xa_arena_root = 0, xa_released_pages = 0\<rparr>"

text \<open>The second component is the arena state the call leaves: after a failure without debt only its
  frame pool and its memory go on living.\<close>

definition arena_allocate :: "frame_state \<Rightarrow> ram \<Rightarrow> identity_window \<Rightarrow> u16 \<Rightarrow> bool \<Rightarrow> u64 \<Rightarrow> (build_failure + unit) \<times> xhci_arena" where
  "arena_allocate frames ram identity scratchpad_count supports_64_bit_addresses secret =
     (let a = arena_start frames ram identity scratchpad_count supports_64_bit_addresses secret in
      case (if secret = 0 then (Err InvalidSecret, a)
            else if scratchpad_count > MAXIMUM_SCRATCHPAD_BUFFERS then (Err (ScratchpadCountUnsupported scratchpad_count), a)
            else allocate_all_regions a) of
        (Err cause, a) \<Rightarrow> (case rollback_build cause a of (failure, a) \<Rightarrow> (Err failure, a))
      | (Ok _, a) \<Rightarrow> (Ok (), finish_arena_root a))"

section \<open>The frames an arena holds\<close>

definition live :: "region_record \<Rightarrow> bool" where
  "live r \<longleftrightarrow> rr_phase r \<noteq> RegionEmpty \<and> rr_phase r \<noteq> Released"

definition run_of :: "region_record \<Rightarrow> nat set" where
  "run_of r = {frame_of (rr_physical_start r) ..< frame_of (rr_physical_start r) + rr_page_count r}"

definition arena_held :: "xhci_arena \<Rightarrow> nat set" where
  "arena_held a = \<Union> (run_of ` {r \<in> set (arena_records a). live r})"

definition owned_run :: "frame_state \<Rightarrow> region_record \<Rightarrow> bool" where
  "owned_run p r \<longleftrightarrow> 0 < rr_page_count r \<and> is_page_aligned (rr_physical_start r)
     \<and> frame_of (rr_physical_start r) + rr_page_count r \<le> fa_frame_count p
     \<and> run_of r \<inter> free_set p = {} \<and> (\<forall>g \<in> run_of r. \<not> is_reserved p g)"

text \<open>A region that may be used for transfers: its physical range lies in the identity aperture and
  below the device's limit, and its CPU alias is the same range shifted by the direct map.\<close>

definition mapped_region :: "xhci_arena \<Rightarrow> region_record \<Rightarrow> bool" where
  "mapped_region a r \<longleftrightarrow>
     unat (rr_physical_start r) + rr_page_count r * 4096 = unat (rr_physical_end r)
     \<and> iw_physical_start (xa_identity a) \<le> rr_physical_start r \<and> rr_physical_end r \<le> iw_physical_end (xa_identity a)
     \<and> rr_physical_end r - 1 \<le> xa_effective_device_limit a
     \<and> rr_device_address_start r = rr_physical_start r \<and> rr_device_address_end r = rr_physical_end r
     \<and> unat (rr_cpu_start r) = unat (iw_direct_map_base (xa_identity a)) + unat (rr_physical_start r)
     \<and> unat (rr_cpu_end r) = unat (rr_cpu_start r) + rr_page_count r * 4096
     \<and> rr_generation r = iw_generation (xa_identity a) \<and> rr_device r = iw_device (xa_identity a)"

definition usable :: "region_record \<Rightarrow> bool" where
  "usable r \<longleftrightarrow> rr_phase r = Zeroed \<or> rr_phase r = Ready"

definition arena_wf :: "xhci_arena \<Rightarrow> bool" where
  "arena_wf a \<longleftrightarrow> frame_wf (xa_frames a) \<and> length (xa_records a) = FIXED_REGION_CAPACITY
     \<and> xa_record_count a \<le> FIXED_REGION_CAPACITY
     \<and> (\<forall>r \<in> set (arena_records a). (live r \<longrightarrow> owned_run (xa_frames a) r) \<and> (usable r \<longrightarrow> mapped_region a r))
     \<and> (\<forall>i < xa_record_count a. \<forall>j < xa_record_count a. i \<noteq> j \<longrightarrow> live (xa_records a ! i) \<longrightarrow> live (xa_records a ! j)
          \<longrightarrow> run_of (xa_records a ! i) \<inter> run_of (xa_records a ! j) = {})"

text \<open>All frames the pool and the arena have between them.\<close>

definition stock :: "xhci_arena \<Rightarrow> nat set" where
  "stock a = free_set (xa_frames a) \<union> arena_held a"

lemma arena_record_mem: "i < xa_record_count a \<Longrightarrow> arena_wf a \<Longrightarrow> xa_records a ! i \<in> set (arena_records a)"
  unfolding arena_wf_def arena_records_def by (auto simp: in_set_conv_nth)

lemma arena_wfD:
  assumes "arena_wf a"
  shows "frame_wf (xa_frames a)" and "length (xa_records a) = 6" and "xa_record_count a \<le> 6"
    and "i < xa_record_count a \<Longrightarrow> live (xa_records a ! i) \<Longrightarrow> owned_run (xa_frames a) (xa_records a ! i)"
    and "i < xa_record_count a \<Longrightarrow> usable (xa_records a ! i) \<Longrightarrow> mapped_region a (xa_records a ! i)"
    and "i < xa_record_count a \<Longrightarrow> j < xa_record_count a \<Longrightarrow> i \<noteq> j \<Longrightarrow> live (xa_records a ! i) \<Longrightarrow> live (xa_records a ! j)
      \<Longrightarrow> run_of (xa_records a ! i) \<inter> run_of (xa_records a ! j) = {}"
proof -
  show "i < xa_record_count a \<Longrightarrow> live (xa_records a ! i) \<Longrightarrow> owned_run (xa_frames a) (xa_records a ! i)"
    "i < xa_record_count a \<Longrightarrow> usable (xa_records a ! i) \<Longrightarrow> mapped_region a (xa_records a ! i)"
    using assms arena_record_mem[OF _ assms, of i] unfolding arena_wf_def by blast+
qed (use assms in \<open>auto simp: arena_wf_def\<close>)

lemma arena_wfI:
  assumes "frame_wf (xa_frames a)" and "length (xa_records a) = 6" and "xa_record_count a \<le> 6"
    and "\<And>i. i < xa_record_count a \<Longrightarrow> live (xa_records a ! i) \<Longrightarrow> owned_run (xa_frames a) (xa_records a ! i)"
    and "\<And>i. i < xa_record_count a \<Longrightarrow> usable (xa_records a ! i) \<Longrightarrow> mapped_region a (xa_records a ! i)"
    and "\<And>i j. i < xa_record_count a \<Longrightarrow> j < xa_record_count a \<Longrightarrow> i \<noteq> j \<Longrightarrow> live (xa_records a ! i)
      \<Longrightarrow> live (xa_records a ! j) \<Longrightarrow> run_of (xa_records a ! i) \<inter> run_of (xa_records a ! j) = {}"
  shows "arena_wf a"
  unfolding arena_wf_def arena_records_def
proof (intro conjI ballI allI impI)
  fix r assume "r \<in> set (take (xa_record_count a) (xa_records a))"
  then obtain i where "i < xa_record_count a" "r = xa_records a ! i" by (auto simp: in_set_conv_nth)
  with assms(4,5) show "live r \<Longrightarrow> owned_run (xa_frames a) r" "usable r \<Longrightarrow> mapped_region a r" by auto
qed (use assms in auto)

lemma arena_held_eq:
  assumes "length (xa_records a) = 6" and "xa_record_count a \<le> 6"
  shows "arena_held a = (\<Union>i \<in> {i. i < xa_record_count a \<and> live (xa_records a ! i)}. run_of (xa_records a ! i))"
  using assms unfolding arena_held_def arena_records_def by (auto simp: in_set_conv_nth)

text \<open>What taking one more region does, whether or not it turns out usable.\<close>

lemma arena_take:
  assumes wf: "arena_wf a" and c: "xa_record_count a < 6" and p: "pool_run (xa_frames a) n 1 = (Some ps, p)"
    and r: "live r" "rr_physical_start r = ps" "rr_page_count r = n"
    and a': "xa_frames a' = p" "xa_records a' = (xa_records a)[xa_record_count a := r]" "xa_record_count a' = xa_record_count a + 1"
      "xa_identity a' = xa_identity a" "xa_effective_device_limit a' = xa_effective_device_limit a"
    and m: "usable r \<Longrightarrow> mapped_region a r"
  shows "arena_wf a'" and "stock a' = stock a" and "arena_held a' = arena_held a \<union> run_of r"
proof -
  note w = arena_wfD[OF wf] and pr = pool_run_Some[OF w(1) p]
  have run: "run_of r = {frame_of ps ..< frame_of ps + n}" using r by (simp add: run_of_def)
  have at: "xa_records a' ! i = (if i = xa_record_count a then r else xa_records a ! i)" for i
    using c w(2) by (simp add: a')
  have old: "run_of (xa_records a ! i) \<inter> run_of r = {}" if "i < xa_record_count a" "live (xa_records a ! i)" for i
    using w(4)[OF that] pr(2) run by (auto simp: owned_run_def)
  have al: "is_page_aligned ps" using pr(6,9) by (metis dvd_triv_right is_page_aligned_iff unat_frame_address)
  have new: "owned_run p r" using pr r run al free_not_reserved[OF w(1)] by (auto simp: owned_run_def)
  have kept: "owned_run p (xa_records a ! i)" if "i < xa_record_count a" "live (xa_records a ! i)" for i
    using w(4)[OF that] pr(3,4,5) by (auto simp: owned_run_def)
  have mr: "mapped_region a' q = mapped_region a q" for q by (simp add: mapped_region_def a')
  show "arena_wf a'"
  proof (rule arena_wfI, goal_cases)
    case (6 i j)
    then show ?case using w(6)[of i j] old[of i] old[of j] unfolding at a'(3) by (auto split: if_splits)
  qed (use w c pr(1) kept new m mr in \<open>auto simp: at a'(1,3) a'(2)[THEN arg_cong[where f = length]] split: if_splits\<close>)
  show held: "arena_held a' = arena_held a \<union> run_of r"
    using w c r(1) a'(2) by (subst (1 2) arena_held_eq) (auto simp: at a'(3) less_Suc_eq)
  show "stock a' = stock a" unfolding stock_def held a'(1) pr(3) using run pr(2) by auto
qed

lemma arena_ram_simps [simp]:
  "arena_records (a\<lparr>xa_ram := ram\<rparr>) = arena_records a" "arena_wf (a\<lparr>xa_ram := ram\<rparr>) = arena_wf a"
  "stock (a\<lparr>xa_ram := ram\<rparr>) = stock a" "region (a\<lparr>xa_ram := ram\<rparr>) = region a"
  "arena_held (a\<lparr>xa_ram := ram\<rparr>) = arena_held a"
  by (simp_all add: arena_records_def arena_wf_def stock_def arena_held_def region_def fun_eq_iff mapped_region_def)

lemma and_then_Ok: "and_then r f = (Ok u, c) \<Longrightarrow> \<exists>b. r = (Ok (), b) \<and> f b = (Ok u, c)"
  by (cases r) (auto simp: and_then_def split: sum.splits)

section \<open>What a transfer does\<close>

definition region_bytes :: "xhci_arena \<Rightarrow> region_record \<Rightarrow> u8 list" where
  "region_bytes a r = load_bytes (rr_cpu_start r) (rr_page_count r * 4096) (xa_ram a)"

lemma usable_live: "usable r \<Longrightarrow> live r"
  by (auto simp: usable_def live_def)

lemma mapped_region_length:
  assumes "mapped_region a r"
  shows "region_byte_length r = rr_page_count r * 4096" and "rr_page_count r * 4096 < 2 ^ 64"
proof -
  have le: "unat (rr_cpu_start r) \<le> unat (rr_cpu_end r)" and d: "unat (rr_cpu_end r) = unat (rr_cpu_start r) + rr_page_count r * 4096"
    using assms by (auto simp: mapped_region_def)
  from le have "unat (rr_cpu_end r - rr_cpu_start r) = unat (rr_cpu_end r) - unat (rr_cpu_start r)"
    by (simp add: unat_sub word_le_nat_alt)
  with d show "region_byte_length r = rr_page_count r * 4096" by (simp add: region_byte_length_def)
  show "rr_page_count r * 4096 < 2 ^ 64" using d unat_lt2p[of "rr_cpu_end r"] by simp
qed

lemma region_index:
  assumes "arena_wf a" and "r \<in> set (arena_records a)"
  obtains i where "i < xa_record_count a" and "r = xa_records a ! i"
  using assms(2) by (auto simp: arena_records_def in_set_conv_nth)

text \<open>The CPU addresses of two regions never meet: they would be the same byte of one frame.\<close>

lemma cpu_byte:
  assumes "mapped_region a r" and "k < rr_page_count r * 4096"
  shows "unat (rr_cpu_start r + of_nat k) = unat (iw_direct_map_base (xa_identity a)) + (unat (rr_physical_start r) + k)"
proof -
  have d: "unat (rr_cpu_end r) = unat (rr_cpu_start r) + rr_page_count r * 4096"
    and s: "unat (rr_cpu_start r) = unat (iw_direct_map_base (xa_identity a)) + unat (rr_physical_start r)"
    using assms(1) by (auto simp: mapped_region_def)
  have "unat (rr_cpu_start r) + k < 2 ^ 64" using d assms(2) unat_lt2p[of "rr_cpu_end r"] by simp
  then have "unat (rr_cpu_start r + of_nat k) = unat (rr_cpu_start r) + k"
    by (simp add: unat_word_ariths unat_of_nat)
  with s show ?thesis by simp
qed

lemma physical_byte_run:
  assumes "is_page_aligned (rr_physical_start r)" and "k < rr_page_count r * 4096"
  shows "(unat (rr_physical_start r) + k) div 4096 \<in> run_of r"
proof -
  obtain q where "unat (rr_physical_start r) = 4096 * q" using assms(1) by (auto simp: is_page_aligned_iff dvd_def)
  with assms(2) show ?thesis by (auto simp: run_of_def frame_of_def div_less_iff_less_mult)
qed

lemma regions_apart:
  assumes wf: "arena_wf a" and r: "r \<in> set (arena_records a)" "usable r" and q: "q \<in> set (arena_records a)" "usable q"
    and p: "rr_purpose r \<noteq> rr_purpose q" and k: "k < rr_page_count r * 4096" and l: "l < rr_page_count q * 4096"
  shows "rr_cpu_start r + of_nat k \<noteq> rr_cpu_start q + of_nat l"
proof
  note w = arena_wfD[OF wf]
  obtain i where i: "i < xa_record_count a" "r = xa_records a ! i" by (rule region_index[OF wf r(1)])
  obtain j where j: "j < xa_record_count a" "q = xa_records a ! j" by (rule region_index[OF wf q(1)])
  assume eq: "rr_cpu_start r + of_nat k = rr_cpu_start q + of_nat l"
  have m: "mapped_region a r" "mapped_region a q" using w(5) i j r(2) q(2) by auto
  have al: "is_page_aligned (rr_physical_start r)" "is_page_aligned (rr_physical_start q)"
    using w(4) i j usable_live r(2) q(2) by (auto simp: owned_run_def)
  have "unat (rr_physical_start r) + k = unat (rr_physical_start q) + l"
    using arg_cong[OF eq, of unat] cpu_byte[OF m(1) k] cpu_byte[OF m(2) l] by simp
  with physical_byte_run[OF al(1) k] physical_byte_run[OF al(2) l] have "run_of r \<inter> run_of q \<noteq> {}" by auto
  moreover have "i \<noteq> j" using p i j by auto
  ultimately show False using w(6)[OF i(1) j(1)] i j r(2) q(2) usable_live by auto
qed

definition purposes_distinct :: "xhci_arena \<Rightarrow> bool" where
  "purposes_distinct a \<longleftrightarrow> distinct (map rr_purpose (arena_records a))"

lemma region_Some_iff:
  assumes "purposes_distinct a"
  shows "region a purpose = Some r \<longleftrightarrow> r \<in> set (arena_records a) \<and> rr_purpose r = purpose"
proof -
  have "distinct (map rr_purpose rs) \<Longrightarrow> List.find (\<lambda>r. rr_purpose r = purpose) rs = Some r \<longleftrightarrow> r \<in> set rs \<and> rr_purpose r = purpose" for rs
    by (induction rs) auto
  with assms show ?thesis by (simp add: region_def purposes_distinct_def)
qed

lemma store_in_region:
  assumes wf: "arena_wf a" "purposes_distinct a" and r: "region a purpose = Some r" "usable r"
    and fits: "offset + length bs \<le> rr_page_count r * 4096"
    and b: "b = a\<lparr>xa_ram := store_bytes (rr_cpu_start r + of_nat offset) bs (xa_ram a)\<rparr>"
  shows "region_bytes b r = overlay (region_bytes a r) offset bs"
    and "region a purpose' = Some q \<Longrightarrow> purpose' \<noteq> purpose \<Longrightarrow> usable q \<Longrightarrow> region_bytes b q = region_bytes a q"
proof -
  note mem = r(1)[unfolded region_Some_iff[OF wf(2)]]
  obtain i where "i < xa_record_count a" "r = xa_records a ! i" using region_index[OF wf(1)] mem by metis
  then have len: "rr_page_count r * 4096 < 2 ^ 64" using arena_wfD(5)[OF wf(1)] r(2) mapped_region_length(2) by blast
  show "region_bytes b r = overlay (region_bytes a r) offset bs"
    unfolding region_bytes_def b using load_store_overlay[OF fits len] by simp
  assume q: "region a purpose' = Some q" "purpose' \<noteq> purpose" "usable q"
  note memq = q(1)[unfolded region_Some_iff[OF wf(2)]]
  have "rr_cpu_start q + of_nat k \<noteq> (rr_cpu_start r + of_nat offset) + of_nat l"
    if "k < rr_page_count q * 4096" "l < length bs" for k l
    using regions_apart[OF wf(1), of q r k "offset + l"] memq mem q(2,3) r(2) that fits by (auto simp: add.assoc)
  then show "region_bytes b q = region_bytes a q"
    unfolding region_bytes_def b using len fits by (simp add: load_store_other)
qed

definition word_at :: "u8 list \<Rightarrow> nat \<Rightarrow> u64" where
  "word_at bytes offset = from_le_bytes (take 8 (drop offset bytes))"

lemma word_at_overlay:
  assumes "offset + 8 \<le> length xs" and "offset' + 8 \<le> length xs"
  shows "word_at (overlay xs offset (to_le_bytes v)) offset = v"
    and "offset + 8 \<le> offset' \<or> offset' + 8 \<le> offset \<Longrightarrow> word_at (overlay xs offset (to_le_bytes (v :: u64))) offset' = word_at xs offset'"
proof -
  have "take 8 (drop offset (overlay xs offset (to_le_bytes v))) = to_le_bytes v"
    using assms by (simp add: overlay_def)
  then show "word_at (overlay xs offset (to_le_bytes v)) offset = v" by (simp add: word_at_def)
  assume apart: "offset + 8 \<le> offset' \<or> offset' + 8 \<le> offset"
  have "take 8 (drop offset' (overlay xs offset (to_le_bytes v))) = take 8 (drop offset' xs)"
    using assms apart by (intro nth_equalityI) (auto simp: nth_overlay)
  then show "word_at (overlay xs offset (to_le_bytes (v :: u64))) offset' = word_at xs offset'" by (simp add: word_at_def)
qed

lemma length_region_bytes [simp]: "length (region_bytes a r) = rr_page_count r * 4096"
  by (simp add: region_bytes_def)

lemma usable_mapped:
  assumes "arena_wf a" and "purposes_distinct a" and "region a purpose = Some r" and "usable r"
  shows "mapped_region a r" and "region_byte_length r = rr_page_count r * 4096"
  using assms region_index[OF assms(1), of r] arena_wfD(5)[OF assms(1)] mapped_region_length(1)
  by (metis region_Some_iff)+

lemma validate_transfer_Ok:
  assumes "arena_wf a" and "purposes_distinct a" and "region a purpose = Some r" and "usable r"
  shows "validate_transfer r offset n = Ok () \<longleftrightarrow> offset + n \<le> rr_page_count r * 4096"
  using usable_mapped[OF assms] mapped_region_length(2)[of a r]
  by (auto simp: validate_transfer_def checked_add_usize_def)

lemma arena_ram_more [simp]: "purposes_distinct (a\<lparr>xa_ram := ram\<rparr>) = purposes_distinct a"
  by (simp add: purposes_distinct_def arena_records_def)

lemma volatile_write_u64_Ok:
  assumes "arena_wf a" and "purposes_distinct a" and "region a purpose = Some r" and "usable r"
    and "volatile_write_u64 r offset v a = (Ok u, b)"
  obtains ram where "b = a\<lparr>xa_ram := ram\<rparr>" and "region_bytes b r = overlay (region_bytes a r) offset (to_le_bytes v)"
    and "offset + 8 \<le> rr_page_count r * 4096"
    and "\<And>purpose' q. region a purpose' = Some q \<Longrightarrow> purpose' \<noteq> purpose \<Longrightarrow> usable q \<Longrightarrow> region_bytes b q = region_bytes a q"
proof -
  have fits: "offset + 8 \<le> rr_page_count r * 4096" and b: "b = a\<lparr>xa_ram := store_bytes (rr_cpu_start r + of_nat offset) (to_le_bytes v) (xa_ram a)\<rparr>"
    using assms(5) validate_transfer_Ok[OF assms(1-4), of offset 8] by (auto simp: volatile_write_u64_def split: sum.splits)
  show thesis
    using that[OF b] store_in_region[OF assms(1-4), where bs = "to_le_bytes v", OF _ b] fits by auto
qed

lemma write_scratchpad_links_Ok:
  assumes "arena_wf a" and "purposes_distinct a" and "region a ScratchpadPointerArray = Some array" and "usable array"
    and "write_scratchpad_links array buffers is a = (Ok u, b)" and "distinct is"
  shows "(\<exists>ram. b = a\<lparr>xa_ram := ram\<rparr>)
    \<and> (\<forall>i. 8 * i + 8 \<le> rr_page_count array * 4096 \<longrightarrow> word_at (region_bytes b array) (8 * i) =
        (if i \<in> set is then rr_device_address_start buffers + of_nat i * PAGE_SIZE else word_at (region_bytes a array) (8 * i)))
    \<and> (\<forall>i \<in> set is. 8 * i + 8 \<le> rr_page_count array * 4096)"
  using assms
proof (induction "is" arbitrary: a)
  case Nil
  then show ?case by (auto intro: exI[of _ "xa_ram b"])
next
  case (Cons i "is")
  obtain m where first: "write_scratchpad_link array buffers i a = (Ok (), m)" and rest: "write_scratchpad_links array buffers is m = (Ok u, b)"
    using Cons.prems(5) by (auto dest: and_then_Ok)
  from first have vw: "volatile_write_u64 array (i * 8) (rr_device_address_start buffers + of_nat i * PAGE_SIZE) a = (Ok (), m)"
    by (auto simp: write_scratchpad_link_def dest: checked_add_SomeD(2) split: option.splits)
  obtain ram where m: "m = a\<lparr>xa_ram := ram\<rparr>"
    "region_bytes m array = overlay (region_bytes a array) (i * 8) (to_le_bytes (rr_device_address_start buffers + of_nat i * PAGE_SIZE))"
    "i * 8 + 8 \<le> rr_page_count array * 4096"
    by (rule volatile_write_u64_Ok[OF Cons.prems(1-4) vw]) blast
  have IH: "(\<exists>ram. b = m\<lparr>xa_ram := ram\<rparr>)
    \<and> (\<forall>i. 8 * i + 8 \<le> rr_page_count array * 4096 \<longrightarrow> word_at (region_bytes b array) (8 * i) =
        (if i \<in> set is then rr_device_address_start buffers + of_nat i * PAGE_SIZE else word_at (region_bytes m array) (8 * i)))
    \<and> (\<forall>i \<in> set is. 8 * i + 8 \<le> rr_page_count array * 4096)"
    using Cons.IH[OF _ _ _ _ rest] Cons.prems m(1) by auto
  have "word_at (region_bytes m array) (8 * j) = (if j = i then rr_device_address_start buffers + of_nat i * PAGE_SIZE
      else word_at (region_bytes a array) (8 * j))" if "8 * j + 8 \<le> rr_page_count array * 4096" for j
  proof (cases "j = i")
    case False
    then have "i * 8 + 8 \<le> 8 * j \<or> 8 * j + 8 \<le> i * 8" by arith
    with word_at_overlay(2)[of "i * 8" "region_bytes a array" "8 * j"] m(3) that False show ?thesis unfolding m(2) by simp
  next
    case True
    with word_at_overlay(1)[of "i * 8" "region_bytes a array" "8 * j"] m(3) show ?thesis unfolding m(2) by (simp add: mult.commute)
  qed
  with IH m Cons.prems(6) show ?case by (auto simp: mult.commute)
qed

definition scratchpad_linked :: "xhci_arena \<Rightarrow> bool" where
  "scratchpad_linked a \<longleftrightarrow> (xa_scratchpad_count a \<noteq> 0 \<longrightarrow> (\<exists>array buffers dcbaa.
     region a ScratchpadPointerArray = Some array \<and> region a ScratchpadBuffers = Some buffers \<and> region a Dcbaa = Some dcbaa
     \<and> word_at (region_bytes a dcbaa) 0 = rr_device_address_start array
     \<and> (\<forall>i < unat (xa_scratchpad_count a).
          word_at (region_bytes a array) (8 * i) = rr_device_address_start buffers + of_nat i * PAGE_SIZE)))"

lemma initialize_scratchpad_links_Ok:
  assumes wf: "arena_wf a" "purposes_distinct a" and u: "\<forall>r \<in> set (arena_records a). usable r"
    and call: "initialize_scratchpad_links a = (Ok u, b)"
  shows "scratchpad_linked b" and "\<exists>ram. b = a\<lparr>xa_ram := ram\<rparr>"
proof -
  obtain array buffers c where r: "region a ScratchpadPointerArray = Some array" "region a ScratchpadBuffers = Some buffers"
    and links: "write_scratchpad_links array buffers [0 ..< unat (xa_scratchpad_count a)] a = (Ok (), c)"
    and rest: "(case region c Dcbaa of None \<Rightarrow> (Err (MissingRegion Dcbaa), c)
      | Some dcbaa \<Rightarrow> volatile_write_u64 dcbaa 0 (rr_device_address_start array) c) = (Ok u, b)"
    using call by (auto simp: initialize_scratchpad_links_def dest!: and_then_Ok split: option.splits)
  have usable: "usable q" if "region a purpose = Some q" for purpose q using that u region_Some_iff[OF wf(2)] by blast
  obtain ram where c: "c = a\<lparr>xa_ram := ram\<rparr>" and
    words: "\<And>i. i < unat (xa_scratchpad_count a) \<Longrightarrow> word_at (region_bytes c array) (8 * i) = rr_device_address_start buffers + of_nat i * PAGE_SIZE"
    using write_scratchpad_links_Ok[OF wf r(1) usable[OF r(1)] links] by auto
  have wfc: "arena_wf c" "purposes_distinct c" using wf by (simp_all add: c)
  from rest obtain dcbaa where d: "region a Dcbaa = Some dcbaa" and vw: "volatile_write_u64 dcbaa 0 (rr_device_address_start array) c = (Ok u, b)"
    by (auto simp: c split: option.splits)
  have dc: "region c Dcbaa = Some dcbaa" "region c ScratchpadPointerArray = Some array" using d r by (simp_all add: c)
  obtain ram' where b: "b = c\<lparr>xa_ram := ram'\<rparr>" "region_bytes b dcbaa = overlay (region_bytes c dcbaa) 0 (to_le_bytes (rr_device_address_start array))"
    "0 + 8 \<le> rr_page_count dcbaa * 4096" "region_bytes b array = region_bytes c array"
    by (rule volatile_write_u64_Ok[OF wfc dc(1) usable[OF d] vw]) (use dc(2) usable[OF r(1)] in blast)
  show "\<exists>ram. b = a\<lparr>xa_ram := ram\<rparr>" unfolding b(1) c by auto
  have "word_at (region_bytes b dcbaa) 0 = rr_device_address_start array"
    using word_at_overlay(1)[of 0 "region_bytes c dcbaa" 0] b(2,3) by simp
  with words b(4) r d show "scratchpad_linked b" unfolding scratchpad_linked_def by (simp add: b(1) c)
qed

section \<open>What a build does\<close>

lemma region_ranges_Ok:
  assumes "region_ranges w limit purpose ps n = Ok (pe, cs, ce)"
  shows "unat ps + n * 4096 = unat pe" and "iw_physical_start w \<le> ps" and "pe \<le> iw_physical_end w" and "pe - 1 \<le> limit"
    and "unat cs = unat (iw_direct_map_base w) + unat ps" and "unat ce = unat cs + n * 4096" and "n * 4096 < 2 ^ 64"
proof -
  have n: "n * 4096 < 2 ^ 64" and pe: "checked_add ps (of_nat (n * 4096)) = Some pe" and cs: "checked_add (iw_direct_map_base w) ps = Some cs"
    and ce: "checked_add cs (of_nat (n * 4096)) = Some ce" and "\<not> ps < iw_physical_start w" "\<not> iw_physical_end w < pe" "\<not> limit < pe - 1"
    using assms by (auto simp: region_ranges_def checked_mul_usize_def split: option.splits if_splits)
  moreover have "unat (of_nat (n * 4096) :: u64) = n * 4096" using n by (simp only: unat_of_nat) simp
  ultimately show "unat ps + n * 4096 = unat pe" "iw_physical_start w \<le> ps" "pe \<le> iw_physical_end w" "pe - 1 \<le> limit"
    "unat cs = unat (iw_direct_map_base w) + unat ps" "unat ce = unat cs + n * 4096" "n * 4096 < 2 ^ 64"
    using checked_add_SomeD(1)[OF pe] checked_add_SomeD(1)[OF cs] checked_add_SomeD(1)[OF ce] by auto
qed

definition same_build :: "xhci_arena \<Rightarrow> xhci_arena \<Rightarrow> bool" where
  "same_build a b \<longleftrightarrow> arena_wf b \<and> stock b = stock a \<and> xa_identity b = xa_identity a
     \<and> xa_effective_device_limit b = xa_effective_device_limit a \<and> xa_scratchpad_count b = xa_scratchpad_count a
     \<and> xa_secret b = xa_secret a \<and> xa_released_pages b = xa_released_pages a
     \<and> (\<forall>r \<in> set (arena_records b). live r)"

definition took :: "dma_purpose \<Rightarrow> nat \<Rightarrow> xhci_arena \<Rightarrow> xhci_arena \<Rightarrow> bool" where
  "took purpose n a b \<longleftrightarrow> (\<exists>z. xa_records b = (xa_records a)[xa_record_count a := z] \<and> xa_record_count b = xa_record_count a + 1
     \<and> xa_record_count a < 6 \<and> usable z \<and> rr_purpose z = purpose \<and> rr_page_count z = n
     \<and> xa_ram b = zero_volatile (rr_cpu_start z) (n * 4096) (xa_ram a))"

lemma allocate_region_cases:
  assumes wf: "arena_wf a" and live: "\<forall>r \<in> set (arena_records a). live r" and call: "allocate_region purpose n a = (res, b)"
  shows "same_build a b"
    and "res = Ok () \<Longrightarrow> took purpose n a b"
proof -
  note w = arena_wfD[OF wf]
  have "same_build a b \<and> (res = Ok () \<longrightarrow> took purpose n a b)"
  proof (cases "xa_record_count a < 6 \<and> fst (pool_run (xa_frames a) n 1) \<noteq> None")
    case False
    then have "b = a" "res \<noteq> Ok ()" using call pool_run_None[OF w(1)] by (auto simp: allocate_region_def Let_def split: prod.splits if_splits option.splits)
    with wf live show ?thesis by (simp add: same_build_def)
  next
    case True
    then obtain ps p where p: "pool_run (xa_frames a) n 1 = (Some ps, p)" and c: "xa_record_count a < 6"
      by (cases "pool_run (xa_frames a) n 1") auto
    let ?owned = "frame_owned_record (xa_identity a) purpose ps n"
    let ?a = "a\<lparr>xa_frames := p, xa_records := (xa_records a)[xa_record_count a := ?owned], xa_record_count := xa_record_count a + 1\<rparr>"
    have recs: "\<forall>r \<in> set (take (Suc (xa_record_count a)) ((xa_records a)[xa_record_count a := z])). live r" if "live z" for z
      using that live c w(2) by (simp add: take_Suc_update arena_records_def)
    show ?thesis
    proof (cases "region_ranges (xa_identity a) (xa_effective_device_limit a) purpose ps n")
      case (Inl e)
      then have "b = ?a" "res \<noteq> Ok ()" using call c p by (auto simp: allocate_region_def Let_def)
      moreover have "live ?owned" by (simp add: live_def frame_owned_record_def)
      moreover have "arena_wf ?a" "stock ?a = stock a"
        by (rule arena_take[OF wf c p \<open>live ?owned\<close>]; simp add: frame_owned_record_def usable_def)+
      ultimately show ?thesis using recs by (simp add: same_build_def arena_records_def)
    next
      case (Inr q)
      then obtain pe cs ce where q: "region_ranges (xa_identity a) (xa_effective_device_limit a) purpose ps n = Ok (pe, cs, ce)" by (cases q) auto
      note g = region_ranges_Ok[OF q]
      let ?z0 = "?owned\<lparr>rr_physical_end := pe, rr_device_address_end := pe, rr_cpu_start := cs, rr_cpu_end := ce, rr_phase := Zeroed\<rparr>"
      let ?z = "?z0\<lparr>rr_region_root := region_root (xa_secret a) ?z0\<rparr>"
      have b: "b = ?a\<lparr>xa_ram := zero_volatile cs (n * 4096) (xa_ram a), xa_records := (xa_records a)[xa_record_count a := ?z]\<rparr>"
        and "res = Ok ()" using call c p q by (auto simp: allocate_region_def Let_def)
      have z: "live ?z" "rr_physical_start ?z = ps" "rr_page_count ?z = n" "usable ?z" "rr_purpose ?z = purpose" "rr_cpu_start ?z = cs"
        by (simp_all add: live_def usable_def frame_owned_record_def)
      have "mapped_region a ?z" using g by (simp add: mapped_region_def frame_owned_record_def)
      then have "arena_wf b" "stock b = stock a" using arena_take[OF wf c p z(1-3), of b] by (simp_all add: b)
      with recs[OF z(1)] z(3-6) b c show ?thesis by (auto simp: same_build_def took_def arena_records_def)
    qed
  qed
  then show "same_build a b"
    and "res = Ok () \<Longrightarrow> took purpose n a b" by auto
qed
lemma same_buildD:
  assumes "same_build a b"
  shows "arena_wf b" and "stock b = stock a" and "xa_identity b = xa_identity a"
    and "xa_effective_device_limit b = xa_effective_device_limit a" and "xa_scratchpad_count b = xa_scratchpad_count a"
    and "xa_secret b = xa_secret a" and "xa_released_pages b = xa_released_pages a" and "\<forall>r \<in> set (arena_records b). live r"
  using assms by (simp_all add: same_build_def)

lemma same_build_trans: "same_build a b \<Longrightarrow> same_build b c \<Longrightarrow> same_build a c"
  by (simp add: same_build_def)

lemma same_build_ram [simp]: "same_build b (a\<lparr>xa_ram := ram\<rparr>) = same_build b a"
  by (simp add: same_build_def)

definition built :: "(dma_purpose \<times> nat) list \<Rightarrow> xhci_arena \<Rightarrow> bool" where
  "built ps a \<longleftrightarrow> map (\<lambda>r. (rr_purpose r, rr_page_count r)) (arena_records a) = ps \<and> (\<forall>r \<in> set (arena_records a). usable r)"

lemma built_took:
  assumes "arena_wf a" and "built ps a" and "took purpose n a b"
  shows "built (ps @ [(purpose, n)]) b"
  using assms arena_wfD(2)[OF assms(1)] by (auto simp: built_def took_def arena_records_def take_Suc_update)

lemma allocate_region_built:
  assumes "same_build a b" and "allocate_region purpose n b = (res, c)"
  shows "same_build a c" and "res = Ok () \<Longrightarrow> built ps b \<Longrightarrow> built (ps @ [(purpose, n)]) c"
  using allocate_region_cases[OF same_buildD(1,8)[OF assms(1)] assms(2)] same_build_trans[OF assms(1)]
    built_took[OF same_buildD(1)[OF assms(1)]] by blast+

text \<open>Running \<open>and_then\<close> keeps what both halves keep.\<close>

lemma and_then_same_build:
  assumes "and_then r f = (res, c)" and "\<And>res' b. r = (res', b) \<Longrightarrow> same_build a b"
    and "\<And>b. r = (Ok (), b) \<Longrightarrow> same_build a b \<Longrightarrow> f b = (res, c) \<Longrightarrow> same_build a c"
  shows "same_build a c"
  using assms by (cases r) (auto simp: and_then_def split: sum.splits)

lemma volatile_write_u64_ram: "volatile_write_u64 r offset v a = (res, b) \<Longrightarrow> \<exists>ram. b = a\<lparr>xa_ram := ram\<rparr>"
  by (auto simp: volatile_write_u64_def split: sum.splits) (metis xhci_arena.surjective xhci_arena.update_convs(2))+

lemma write_scratchpad_links_ram: "write_scratchpad_links array buffers is a = (res, b) \<Longrightarrow> \<exists>ram. b = a\<lparr>xa_ram := ram\<rparr>"
proof (induction "is" arbitrary: a)
  case Nil
  then show ?case by (auto intro: exI[of _ "xa_ram a"])
next
  case (Cons i "is")
  obtain r m where first: "write_scratchpad_link array buffers i a = (r, m)" by (cases "write_scratchpad_link array buffers i a")
  then obtain ram where m: "m = a\<lparr>xa_ram := ram\<rparr>"
    by (auto simp: write_scratchpad_link_def dest: volatile_write_u64_ram split: option.splits) (metis xhci_arena.surjective xhci_arena.update_convs(2))
  show ?case
  proof (cases r)
    case (Inl e)
    with Cons.prems first m show ?thesis by (auto simp: and_then_def)
  next
    case (Inr u)
    with Cons.prems first have "write_scratchpad_links array buffers is m = (res, b)" by (simp add: and_then_def)
    from Cons.IH[OF this] m show ?thesis by auto
  qed
qed
lemma initialize_scratchpad_links_ram: "initialize_scratchpad_links a = (res, b) \<Longrightarrow> \<exists>ram. b = a\<lparr>xa_ram := ram\<rparr>"
proof -
  have keep: "\<exists>ram. a = a\<lparr>xa_ram := ram\<rparr>" for a :: xhci_arena by (rule exI[of _ "xa_ram a"]) simp
  assume call: "initialize_scratchpad_links a = (res, b)"
  show ?thesis
  proof (cases "region a ScratchpadPointerArray = None \<or> region a ScratchpadBuffers = None")
    case True
    with call keep show ?thesis by (auto simp: initialize_scratchpad_links_def split: option.splits)
  next
    case False
    then obtain array buffers where "region a ScratchpadPointerArray = Some array" "region a ScratchpadBuffers = Some buffers" by auto
    with call show ?thesis
      by (cases "write_scratchpad_links array buffers [0 ..< unat (xa_scratchpad_count a)] a")
        (auto simp: initialize_scratchpad_links_def and_then_def split: sum.splits option.splits
          dest!: write_scratchpad_links_ram volatile_write_u64_ram)
  qed
qed

lemma built_ram [simp]: "built ps (a\<lparr>xa_ram := ram\<rparr>) = built ps a"
  by (simp add: built_def)

lemma mark_ready_records:
  assumes "xa_record_count a \<le> length (xa_records a)"
  shows "arena_records (mark_ready a) = map (\<lambda>r. r\<lparr>rr_phase := Ready\<rparr>) (arena_records a)"
  using assms by (simp add: mark_ready_def arena_records_def)

lemma mark_ready_same_build:
  assumes "same_build a b" and "built ps b"
  shows "same_build a (mark_ready b)" and "built ps (mark_ready b)"
proof -
  note w = arena_wfD[OF same_buildD(1)[OF assms(1)]]
  have len: "xa_record_count b \<le> length (xa_records b)" using w by simp
  have at: "xa_records (mark_ready b) ! i = (xa_records b ! i)\<lparr>rr_phase := Ready\<rparr>" if "i < xa_record_count b" for i
    using that len by (simp add: mark_ready_def nth_append)
  have u: "usable (xa_records b ! i)" "live (xa_records b ! i)" if "i < xa_record_count b" for i
    using assms(2) same_buildD(8)[OF assms(1)] arena_record_mem[OF that same_buildD(1)[OF assms(1)]] by (auto simp: built_def)
  have rs: "run_of (r\<lparr>rr_phase := Ready\<rparr>) = run_of r" "owned_run p (r\<lparr>rr_phase := Ready\<rparr>) = owned_run p r"
    "mapped_region (mark_ready b) (r\<lparr>rr_phase := Ready\<rparr>) = mapped_region b r" for r p
    by (simp_all add: run_of_def owned_run_def mapped_region_def mark_ready_def)
  have sel: "xa_frames (mark_ready b) = xa_frames b" "length (xa_records (mark_ready b)) = length (xa_records b)"
    "xa_record_count (mark_ready b) = xa_record_count b"
    using len by (simp_all add: mark_ready_def)
  have "arena_wf (mark_ready b)"
    by (rule arena_wfI) (use w u in \<open>auto simp: sel at rs\<close>)
  moreover have "arena_held (mark_ready b) = arena_held b"
    using w u by (subst (1 2) arena_held_eq) (auto simp: sel at rs live_def)
  ultimately show "same_build a (mark_ready b)"
    using assms(1) mark_ready_records[OF len] by (simp add: same_build_def stock_def sel) (simp add: mark_ready_def live_def)
  show "built ps (mark_ready b)" using assms(2) mark_ready_records[OF len] by (auto simp: built_def usable_def)
qed

definition region_plan :: "u16 \<Rightarrow> (dma_purpose \<times> nat) list" where
  "region_plan c = [(Dcbaa, 1), (CommandRing, 1), (EventRing, 1), (EventRingSegmentTable, 1)]
     @ (if c = 0 then [] else [(ScratchpadPointerArray, (unat c * 8 + 4095) div 4096), (ScratchpadBuffers, unat c)])"

lemma scratchpad_bytes: "checked_mul_usize (unat (c :: u16)) 8 = Some (unat c * 8)"
  using unat_lt2p[of c] by (simp add: checked_mul_usize_def)

text \<open>Every step keeps the build sound, and one that succeeds leads from \<open>P\<close> to \<open>Q\<close>.\<close>

definition build_step :: "xhci_arena \<Rightarrow> (xhci_arena \<Rightarrow> bool) \<Rightarrow> (xhci_arena \<Rightarrow> unit arena_result) \<Rightarrow> (xhci_arena \<Rightarrow> bool) \<Rightarrow> bool" where
  "build_step a P f Q \<longleftrightarrow> (\<forall>b res c. same_build a b \<longrightarrow> P b \<longrightarrow> f b = (res, c) \<longrightarrow> same_build a c \<and> (res = Ok () \<longrightarrow> Q c))"

lemma build_step_and_then:
  assumes "build_step a P f Q" and "build_step a Q g R"
  shows "build_step a P (\<lambda>b. and_then (f b) g) R"
  unfolding build_step_def
proof (intro allI impI)
  fix b res d assume b: "same_build a b" "P b" "and_then (f b) g = (res, d)"
  obtain r c where c: "f b = (r, c)" by (cases "f b")
  with assms(1) b(1,2) have "same_build a c" "r = Ok () \<Longrightarrow> Q c" unfolding build_step_def by blast+
  with assms(2) b(3) c show "same_build a d \<and> (res = Ok () \<longrightarrow> R d)"
    unfolding build_step_def by (cases r) (auto simp: and_then_def)
qed

lemma build_step_region: "build_step a (built ps) (allocate_region purpose n) (built (ps @ [(purpose, n)]))"
  unfolding build_step_def using allocate_region_built by blast

lemma built_distinct: "built ps a \<Longrightarrow> distinct (map fst ps) \<Longrightarrow> purposes_distinct a"
  by (auto simp: built_def purposes_distinct_def comp_def)

lemma build_step_links:
  assumes "distinct (map fst ps)"
  shows "build_step a (built ps) initialize_scratchpad_links (\<lambda>b. built ps b \<and> scratchpad_linked b)"
  unfolding build_step_def
proof (intro allI impI)
  fix b res c assume b: "same_build a b" "built ps b" "initialize_scratchpad_links b = (res, c)"
  have "scratchpad_linked c" if "res = Ok ()"
    using initialize_scratchpad_links_Ok(1)[OF same_buildD(1)[OF b(1)] built_distinct[OF b(2) assms]] b(2,3) that by (auto simp: built_def)
  with b initialize_scratchpad_links_ram[OF b(3)] show "same_build a c \<and> (res = Ok () \<longrightarrow> built ps c \<and> scratchpad_linked c)" by auto
qed

lemma scratchpad_linked_ready:
  assumes "xa_record_count b \<le> length (xa_records b)" and "scratchpad_linked b"
  shows "scratchpad_linked (mark_ready b)"
proof -
  have find: "List.find (\<lambda>r. rr_purpose r = purpose) (map (\<lambda>r. r\<lparr>rr_phase := Ready\<rparr>) rs)
      = map_option (\<lambda>r. r\<lparr>rr_phase := Ready\<rparr>) (List.find (\<lambda>r. rr_purpose r = purpose) rs)" for purpose and rs :: "region_record list"
    by (induction rs) auto
  have "region (mark_ready b) purpose = map_option (\<lambda>r. r\<lparr>rr_phase := Ready\<rparr>) (region b purpose)" for purpose
    using find by (simp add: region_def mark_ready_records[OF assms(1)])
  moreover have "region_bytes (mark_ready b) (r\<lparr>rr_phase := Ready\<rparr>) = region_bytes b r" "xa_scratchpad_count (mark_ready b) = xa_scratchpad_count b" for r
    by (simp_all add: region_bytes_def mark_ready_def)
  ultimately show ?thesis using assms(2) by (auto simp: scratchpad_linked_def)
qed

lemma build_step_ready: "build_step a (\<lambda>b. built ps b \<and> scratchpad_linked b) (\<lambda>b. (Ok (), mark_ready b))
    (\<lambda>b. built ps b \<and> (\<forall>r \<in> set (arena_records b). rr_phase r = Ready) \<and> scratchpad_linked b)"
  unfolding build_step_def
proof (intro allI impI)
  fix b res c assume b: "same_build a b" "built ps b \<and> scratchpad_linked b" "(Ok () :: dma_error + unit, mark_ready b) = (res, c)"
  have len: "xa_record_count b \<le> length (xa_records b)" using arena_wfD(2,3)[OF same_buildD(1)[OF b(1)]] by simp
  show "same_build a c \<and> (res = Ok () \<longrightarrow> built ps c \<and> (\<forall>r \<in> set (arena_records c). rr_phase r = Ready) \<and> scratchpad_linked c)"
    using mark_ready_same_build[OF b(1) conjunct1[OF b(2)]] b(2,3) mark_ready_records[OF len] scratchpad_linked_ready[OF len] by auto
qed

lemma build_step_cong: "(\<And>b. same_build a b \<Longrightarrow> f b = g b) \<Longrightarrow> build_step a P g Q \<Longrightarrow> build_step a P f Q"
  by (simp add: build_step_def)

lemmas build_step_regions = build_step_and_then[OF build_step_region]

lemma build_step_scratchpads:
  assumes "distinct (map fst (ps @ drop 4 (region_plan (xa_scratchpad_count a))))"
  shows "build_step a (built ps)
     (\<lambda>b. if xa_scratchpad_count b \<noteq> 0 then
        (case checked_mul_usize (unat (xa_scratchpad_count b)) 8 of
           None \<Rightarrow> (Err (ScratchpadCountUnsupported (xa_scratchpad_count b)), b)
         | Some pointer_bytes \<Rightarrow>
             and_then (allocate_region ScratchpadPointerArray ((pointer_bytes + 4095) div 4096) b) (\<lambda>a.
             and_then (allocate_region ScratchpadBuffers (unat (xa_scratchpad_count a)) a) initialize_scratchpad_links))
      else (Ok (), b))
     (\<lambda>b. built (ps @ drop 4 (region_plan (xa_scratchpad_count a))) b \<and> scratchpad_linked b)" (is "build_step _ _ ?f _")
proof (cases "xa_scratchpad_count a = 0")
  case True
  then show ?thesis by (auto simp: build_step_def region_plan_def same_build_def scratchpad_linked_def)
next
  case False
  let ?c = "xa_scratchpad_count a"
  let ?array = "(ScratchpadPointerArray, (unat ?c * 8 + 4095) div 4096)" and ?buffers = "(ScratchpadBuffers, unat ?c)"
  have plan: "drop 4 (region_plan ?c) = [?array, ?buffers]" using False by (simp add: region_plan_def)
  have "build_step a (built (ps @ [?array]))
      (\<lambda>b. and_then (allocate_region ScratchpadBuffers (unat (xa_scratchpad_count b)) b) initialize_scratchpad_links)
      (\<lambda>b. built ((ps @ [?array]) @ [?buffers]) b \<and> scratchpad_linked b)"
    by (rule build_step_cong[OF _ build_step_regions[OF build_step_links]]) (use assms in \<open>simp_all add: same_buildD(5) plan\<close>)
  note both = build_step_regions[OF this]
  have "?f b = and_then (allocate_region ScratchpadPointerArray ((unat ?c * 8 + 4095) div 4096) b)
      (\<lambda>b. and_then (allocate_region ScratchpadBuffers (unat (xa_scratchpad_count b)) b) initialize_scratchpad_links)"
    if "same_build a b" for b
    using False same_buildD(5)[OF that] by (simp add: scratchpad_bytes)
  then show ?thesis using build_step_cong[OF _ both, of ?f] by (simp add: plan)
qed

lemma allocate_all_regions_sound:
  "build_step a (built []) allocate_all_regions
     (\<lambda>b. built (region_plan (xa_scratchpad_count a)) b \<and> (\<forall>r \<in> set (arena_records b). rr_phase r = Ready) \<and> scratchpad_linked b)"
proof -
  have "build_step a (built []) allocate_all_regions (\<lambda>b. built ((((([] @ [(Dcbaa, 1)]) @ [(CommandRing, 1)]) @ [(EventRing, 1)])
      @ [(EventRingSegmentTable, 1)]) @ drop 4 (region_plan (xa_scratchpad_count a))) b \<and> (\<forall>r \<in> set (arena_records b). rr_phase r = Ready) \<and> scratchpad_linked b)"
    unfolding allocate_all_regions_def[abs_def]
    by (intro build_step_regions build_step_and_then[OF build_step_scratchpads] build_step_ready) (simp add: region_plan_def)
  then show ?thesis by (simp add: region_plan_def)
qed

section \<open>What a release does\<close>

lemma arena_drop:
  assumes wf: "arena_wf a" and i: "i < xa_record_count a" "live (xa_records a ! i)"
  obtains p where "pool_release_contiguous (xa_frames a) (rr_physical_start (xa_records a ! i)) (rr_page_count (xa_records a ! i)) = (Ok (), p)"
    and "\<And>b. xa_frames b = p \<Longrightarrow> xa_records b = (xa_records a)[i := (xa_records a ! i)\<lparr>rr_phase := Released\<rparr>]
      \<Longrightarrow> xa_record_count b = xa_record_count a \<Longrightarrow> xa_identity b = xa_identity a
      \<Longrightarrow> xa_effective_device_limit b = xa_effective_device_limit a \<Longrightarrow> arena_wf b \<and> stock b = stock a"
proof -
  note w = arena_wfD[OF wf]
  let ?r = "xa_records a ! i"
  have own: "owned_run (xa_frames a) ?r" by (rule w(4)[OF i])
  then have o: "0 < rr_page_count ?r" "is_page_aligned (rr_physical_start ?r)"
    "frame_of (rr_physical_start ?r) + rr_page_count ?r \<le> fa_frame_count (xa_frames a)"
    "\<And>g. g \<in> {frame_of (rr_physical_start ?r) ..< frame_of (rr_physical_start ?r) + rr_page_count ?r}
      \<Longrightarrow> g \<notin> free_set (xa_frames a) \<and> \<not> is_reserved (xa_frames a) g"
    by (auto simp: owned_run_def run_of_def)
  obtain p where p: "pool_release_contiguous (xa_frames a) (rr_physical_start ?r) (rr_page_count ?r) = (Ok (), p)" "frame_wf p"
    "free_set p = free_set (xa_frames a) \<union> run_of ?r" "fa_frame_count p = fa_frame_count (xa_frames a)"
    "is_reserved p = is_reserved (xa_frames a)"
    unfolding run_of_def by (rule pool_release_run[OF w(1) o]) blast
  have "arena_wf b \<and> stock b = stock a" if b: "xa_frames b = p" "xa_records b = (xa_records a)[i := ?r\<lparr>rr_phase := Released\<rparr>]"
    "xa_record_count b = xa_record_count a" "xa_identity b = xa_identity a" "xa_effective_device_limit b = xa_effective_device_limit a" for b
  proof
    have at: "live (xa_records b ! j) \<longleftrightarrow> j \<noteq> i \<and> live (xa_records a ! j)" "usable (xa_records b ! j) \<longleftrightarrow> j \<noteq> i \<and> usable (xa_records a ! j)"
      "j \<noteq> i \<Longrightarrow> xa_records b ! j = xa_records a ! j" if "j < xa_record_count a" for j
      using that w(2,3) i(1) by (auto simp: b(2) nth_list_update live_def usable_def)
    have mr: "mapped_region b q = mapped_region a q" for q by (simp add: mapped_region_def b)
    have own': "owned_run p (xa_records a ! j)" if "j < xa_record_count a" "live (xa_records a ! j)" "j \<noteq> i" for j
      using w(4)[OF that(1,2)] w(6)[OF that(1) i(1) that(3,2) i(2)] p by (auto simp: owned_run_def)
    show wfb: "arena_wf b"
      by (rule arena_wfI) (use w own' p(2) in \<open>auto simp: at mr b(1,3) b(2)[THEN arg_cong[where f = length]]\<close>)
    have "arena_held b = (\<Union>j \<in> {j. j < xa_record_count a \<and> j \<noteq> i \<and> live (xa_records a ! j)}. run_of (xa_records a ! j))"
      unfolding arena_held_eq[OF arena_wfD(2,3)[OF wfb]] b(3) by (rule SUP_cong) (auto simp: at)
    with i have "arena_held b \<union> run_of ?r = arena_held a" unfolding arena_held_eq[OF w(2,3)] by blast
    then show "stock b = stock a" by (auto simp: stock_def b(1) p(3))
  qed
  with p(1) that show thesis by blast
qed

lemma release_from_sound:
  assumes "arena_wf a" and "\<forall>i \<in> set is. i < xa_record_count a" and "distinct is"
  shows "\<exists>b. release_from is a = (Ok (), b) \<and> arena_wf b \<and> stock b = stock a \<and> xa_identity b = xa_identity a
    \<and> xa_record_count b = xa_record_count a \<and> xa_ram b = xa_ram a
    \<and> (\<forall>j < xa_record_count a. live (xa_records b ! j) \<longleftrightarrow> j \<notin> set is \<and> live (xa_records a ! j))
    \<and> xa_released_pages b = xa_released_pages a
        + sum_list (map (\<lambda>j. if live (xa_records a ! j) then rr_page_count (xa_records a ! j) else 0) is)"
  using assms
proof (induction "is" arbitrary: a)
  case (Cons i "is")
  show ?case
  proof (cases "live (xa_records a ! i)")
    case False
    then have "release_from (i # is) a = release_from is a" by (auto simp: live_def Let_def)
    moreover obtain b where b: "release_from is a = (Ok (), b)" "arena_wf b" "stock b = stock a" "xa_identity b = xa_identity a"
      "xa_record_count b = xa_record_count a" "xa_ram b = xa_ram a"
      "\<forall>j < xa_record_count a. live (xa_records b ! j) \<longleftrightarrow> j \<notin> set is \<and> live (xa_records a ! j)"
      "xa_released_pages b = xa_released_pages a
        + sum_list (map (\<lambda>j. if live (xa_records a ! j) then rr_page_count (xa_records a ! j) else 0) is)"
      using Cons.IH[of a] Cons.prems by auto
    ultimately show ?thesis using False by (intro exI[of _ b]) auto
  next
    case True
    let ?r = "xa_records a ! i"
    have i: "i < xa_record_count a" using Cons.prems by simp
    obtain p where p: "pool_release_contiguous (xa_frames a) (rr_physical_start ?r) (rr_page_count ?r) = (Ok (), p)"
      and wf: "\<And>b. xa_frames b = p \<Longrightarrow> xa_records b = (xa_records a)[i := ?r\<lparr>rr_phase := Released\<rparr>]
        \<Longrightarrow> xa_record_count b = xa_record_count a \<Longrightarrow> xa_identity b = xa_identity a
        \<Longrightarrow> xa_effective_device_limit b = xa_effective_device_limit a \<Longrightarrow> arena_wf b \<and> stock b = stock a"
      by (rule arena_drop[OF Cons.prems(1) i True]) blast
    define c where "c = a\<lparr>xa_frames := p, xa_records := (xa_records a)[i := ?r\<lparr>rr_phase := Released\<rparr>],
      xa_released_pages := xa_released_pages a + rr_page_count ?r\<rparr>"
    have c: "arena_wf c" "stock c = stock a" using wf[of c] by (simp_all add: c_def)
    have step: "release_from (i # is) a = release_from is c" using True p by (auto simp: live_def Let_def c_def)
    have at: "xa_records c ! j = (if j = i then ?r\<lparr>rr_phase := Released\<rparr> else xa_records a ! j)" if "j < xa_record_count a" for j
      using i arena_wfD(2,3)[OF Cons.prems(1)] by (simp add: c_def)
    have lv: "live (xa_records c ! j) \<longleftrightarrow> j \<noteq> i \<and> live (xa_records a ! j)" if "j < xa_record_count a" for j
      by (simp add: at[OF that] live_def)
    have sel: "xa_identity c = xa_identity a" "xa_record_count c = xa_record_count a" "xa_ram c = xa_ram a"
      "xa_released_pages c = xa_released_pages a + rr_page_count ?r" by (simp_all add: c_def)
    have old: "map (\<lambda>j. if live (xa_records c ! j) then rr_page_count (xa_records c ! j) else 0) is
        = map (\<lambda>j. if live (xa_records a ! j) then rr_page_count (xa_records a ! j) else 0) is"
      using Cons.prems by (auto simp: at)
    obtain b where b: "release_from is c = (Ok (), b)" "arena_wf b" "stock b = stock c" "xa_identity b = xa_identity c"
      "xa_record_count b = xa_record_count c" "xa_ram b = xa_ram c"
      "\<forall>j < xa_record_count c. live (xa_records b ! j) \<longleftrightarrow> j \<notin> set is \<and> live (xa_records c ! j)"
      "xa_released_pages b = xa_released_pages c
        + sum_list (map (\<lambda>j. if live (xa_records c ! j) then rr_page_count (xa_records c ! j) else 0) is)"
      using Cons.IH[of c] Cons.prems c sel by auto
    show ?thesis unfolding step by (rule exI[of _ b]) (use b c(2) True in \<open>auto simp: sel lv old\<close>)
  qed
qed auto
lemma release_records_sound:
  assumes "arena_wf a" and "\<exists>r \<in> set (arena_records a). live r"
  obtains receipt b where "release_records a = (Ok receipt, b)" and "arena_wf b" and "free_set (xa_frames b) = stock a"
    and "\<And>r. r \<in> set (arena_records b) \<Longrightarrow> \<not> live r" and "xa_identity b = xa_identity a" and "xa_ram b = xa_ram a"
    and "rc_released_pages receipt = xa_released_pages a + sum_list (map rr_page_count (filter live (arena_records a)))"
proof -
  note w = arena_wfD[OF assms(1)]
  let ?is = "rev [0 ..< xa_record_count a]"
  obtain b where b: "release_from ?is a = (Ok (), b)" "arena_wf b" "stock b = stock a" "xa_identity b = xa_identity a"
    "xa_record_count b = xa_record_count a" "xa_ram b = xa_ram a"
    "\<forall>j < xa_record_count a. live (xa_records b ! j) \<longleftrightarrow> j \<notin> set ?is \<and> live (xa_records a ! j)"
    "xa_released_pages b = xa_released_pages a
      + sum_list (map (\<lambda>j. if live (xa_records a ! j) then rr_page_count (xa_records a ! j) else 0) ?is)"
    using release_from_sound[OF assms(1), of ?is] by auto
  have dead: "\<not> live r" if "r \<in> set (arena_records b)" for r
    using that b(5,7) by (auto simp: arena_records_def in_set_conv_nth)
  then have "arena_held b = {}" by (auto simp: arena_held_def)
  with b(3) have stock: "free_set (xa_frames b) = stock a" by (simp add: stock_def)
  have "map (\<lambda>j. if live (xa_records a ! j) then rr_page_count (xa_records a ! j) else 0) [0 ..< xa_record_count a]
      = map (\<lambda>r. if live r then rr_page_count r else 0) (arena_records a)"
    using w by (auto simp: arena_records_def intro!: nth_equalityI)
  then have pages: "xa_released_pages b = xa_released_pages a + sum_list (map rr_page_count (filter live (arena_records a)))"
    unfolding b(8) by (simp add: rev_map[symmetric] sum_list_rev sum_list_map_filter')
  have "\<not> list_all (\<lambda>r. rr_phase r = RegionEmpty \<or> rr_phase r = Released) (arena_records a)"
    using assms(2) by (auto simp: list_all_iff live_def)
  then obtain receipt where "release_records a = (Ok receipt, b)" "rc_released_pages receipt = xa_released_pages b"
    using b(1) by (auto simp: release_records_def Let_def)
  with that b dead stock pages show thesis by auto
qed

lemma arena_start_wf:
  assumes "frame_wf frames"
  shows "arena_wf (arena_start frames ram w c s secret)" and "built [] (arena_start frames ram w c s secret)"
    and "arena_records (arena_start frames ram w c s secret) = []" and "stock (arena_start frames ram w c s secret) = free_set frames"
    and "xa_scratchpad_count (arena_start frames ram w c s secret) = c" and "xa_identity (arena_start frames ram w c s secret) = w"
    and "xa_frames (arena_start frames ram w c s secret) = frames" and "xa_released_pages (arena_start frames ram w c s secret) = 0"
  using assms by (auto simp: arena_start_def arena_wf_def arena_records_def built_def stock_def arena_held_def)

lemma rollback_build_sound:
  assumes "arena_wf a" and "\<forall>r \<in> set (arena_records a). live r" and "rollback_build cause a = (f, b)"
  shows "bf_cause f = cause" and "bf_debt f = None" and "frame_wf (xa_frames b)" and "free_set (xa_frames b) = stock a"
proof -
  have "bf_cause f = cause \<and> bf_debt f = None \<and> frame_wf (xa_frames b) \<and> free_set (xa_frames b) = stock a"
  proof (cases "xa_record_count a = 0")
    case True
    with assms show ?thesis by (auto simp: rollback_build_def stock_def arena_held_def arena_records_def dest: arena_wfD(1))
  next
    case False
    then have "xa_records a ! 0 \<in> set (arena_records a)" using arena_record_mem[OF _ assms(1), of 0] by simp
    with assms(2) have "\<exists>r \<in> set (arena_records a). live r" by blast
    then obtain receipt c where "release_records a = (Ok receipt, c)" "arena_wf c" "free_set (xa_frames c) = stock a"
      using release_records_sound[OF assms(1)] by metis
    with False assms(3) arena_wfD(1) show ?thesis by (auto simp: rollback_build_def)
  qed
  then show "bf_cause f = cause" "bf_debt f = None" "frame_wf (xa_frames b)" "free_set (xa_frames b) = stock a" by auto
qed

lemma finish_arena_root_simps [simp]:
  "arena_wf (finish_arena_root a) = arena_wf a" "arena_records (finish_arena_root a) = arena_records a"
  "xa_frames (finish_arena_root a) = xa_frames a" "arena_held (finish_arena_root a) = arena_held a"
  "xa_identity (finish_arena_root a) = xa_identity a" "xa_ram (finish_arena_root a) = xa_ram a"
  "scratchpad_linked (finish_arena_root a) = scratchpad_linked a"
  "xa_released_pages (finish_arena_root a) = xa_released_pages a" "xa_effective_device_limit (finish_arena_root a) = xa_effective_device_limit a"
  by (simp_all add: finish_arena_root_def Let_def arena_wf_def arena_records_def arena_held_def mapped_region_def
    scratchpad_linked_def region_def region_bytes_def)

lemma arena_allocate_sound:
  assumes "frame_wf frames" and "arena_allocate frames ram w c s secret = (res, a)"
  shows "res = Err f \<Longrightarrow> bf_debt f = None \<and> frame_wf (xa_frames a) \<and> free_set (xa_frames a) = free_set frames"
    and "res = Ok u \<Longrightarrow> arena_wf a \<and> stock a = free_set frames \<and> xa_identity a = w \<and> xa_released_pages a = 0
      \<and> map (\<lambda>r. (rr_purpose r, rr_page_count r)) (arena_records a) = region_plan c
      \<and> (\<forall>r \<in> set (arena_records a). rr_phase r = Ready) \<and> scratchpad_linked a"
proof -
  let ?s = "arena_start frames ram w c s secret"
  note st = arena_start_wf[OF assms(1), of ram w c s secret]
  have start: "same_build ?s ?s" using st by (simp add: same_build_def)
  define attempt where "attempt = (if secret = 0 then (Err InvalidSecret, ?s)
      else if c > MAXIMUM_SCRATCHPAD_BUFFERS then (Err (ScratchpadCountUnsupported c), ?s) else allocate_all_regions ?s)"
  obtain r b where rb: "attempt = (r, b)" by (cases attempt)
  have sb: "same_build ?s b" "r = Ok () \<Longrightarrow> built (region_plan c) b \<and> (\<forall>r \<in> set (arena_records b). rr_phase r = Ready) \<and> scratchpad_linked b"
    using rb start st allocate_all_regions_sound[of ?s] unfolding attempt_def build_step_def by (auto split: if_splits)
  note d = same_buildD[OF sb(1)]
  have call: "arena_allocate frames ram w c s secret = (case r of Err cause \<Rightarrow> (case rollback_build cause b of (f, b) \<Rightarrow> (Err f, b))
      | Ok _ \<Rightarrow> (Ok (), finish_arena_root b))"
    using rb by (simp add: arena_allocate_def attempt_def Let_def)
  show "res = Err f \<Longrightarrow> bf_debt f = None \<and> frame_wf (xa_frames a) \<and> free_set (xa_frames a) = free_set frames"
    using assms(2) rollback_build_sound[OF d(1,8)] d(2) st(4) unfolding call by (auto split: sum.splits prod.splits)
  show "res = Ok u \<Longrightarrow> arena_wf a \<and> stock a = free_set frames \<and> xa_identity a = w \<and> xa_released_pages a = 0
      \<and> map (\<lambda>r. (rr_purpose r, rr_page_count r)) (arena_records a) = region_plan c
      \<and> (\<forall>r \<in> set (arena_records a). rr_phase r = Ready) \<and> scratchpad_linked a"
    using assms(2) sb(2) d st unfolding call by (auto simp: stock_def built_def split: sum.splits prod.splits)
qed

section \<open>The arena among other clients of the pool\<close>

inductive arena_step :: "xhci_arena \<Rightarrow> xhci_arena \<Rightarrow> bool" where
  transfers: "arena_write a t offset bytes = (r, b) \<Longrightarrow> arena_step a b"
| takes: "pool_allocate (xa_frames a) = (r', p) \<Longrightarrow> arena_step a (a\<lparr>xa_frames := p\<rparr>)"
| takes_run: "pool_run (xa_frames a) n alignment = (r', p) \<Longrightarrow> arena_step a (a\<lparr>xa_frames := p\<rparr>)"
| returns: "pool_release_contiguous (xa_frames a) first n = (r'', p)
    \<Longrightarrow> {frame_of first ..< frame_of first + n} \<inter> arena_held a = {} \<Longrightarrow> arena_step a (a\<lparr>xa_frames := p\<rparr>)"
| writes: "arena_step a (a\<lparr>xa_ram := ram\<rparr>)"

lemma arena_pool_step:
  assumes "arena_wf a" and "frame_wf p" and "fa_frame_count p = fa_frame_count (xa_frames a)"
    and "free_set p \<inter> arena_held a = {}" and "\<And>g. is_reserved p g = is_reserved (xa_frames a) g"
  shows "arena_wf (a\<lparr>xa_frames := p\<rparr>)"
proof (rule arena_wfI, goal_cases)
  case (4 i)
  then have i: "i < xa_record_count a" "live (xa_records a ! i)" by auto
  then have "run_of (xa_records a ! i) \<subseteq> arena_held a" using arena_record_mem[OF i(1) assms(1)] by (auto simp: arena_held_def)
  with arena_wfD(4)[OF assms(1) i] assms show ?case by (auto simp: owned_run_def)
next
  case (5 i)
  then show ?case using arena_wfD(5)[OF assms(1), of i] by (simp add: mapped_region_def)
qed (use assms arena_wfD[OF assms(1)] in auto)

lemma arena_held_free: "arena_wf a \<Longrightarrow> free_set (xa_frames a) \<inter> arena_held a = {}"
  unfolding arena_held_def arena_wf_def by (auto simp: owned_run_def)

lemma arena_write_ram: "arena_write a t offset bytes = (r, b) \<Longrightarrow> \<exists>ram. b = a\<lparr>xa_ram := ram\<rparr>"
  by (auto simp: arena_write_def split: if_splits sum.splits) (metis xhci_arena.surjective xhci_arena.update_convs(2))+

lemma arena_step_sound:
  assumes "arena_wf a" and "arena_step a b"
  shows "arena_wf b \<and> xa_records b = xa_records a \<and> xa_record_count b = xa_record_count a \<and> xa_identity b = xa_identity a
    \<and> xa_released_pages b = xa_released_pages a"
  using assms(2)
proof cases
  note w = arena_wfD(1)[OF assms(1)] and free = arena_held_free[OF assms(1)]
  case (takes r' p)
  have "arena_wf (a\<lparr>xa_frames := p\<rparr>)"
  proof (cases r')
    case None
    with takes pool_allocate_None[OF w] assms(1) show ?thesis by auto
  next
    case (Some x)
    with takes have "pool_allocate (xa_frames a) = (Some x, p)" by simp
    note s = pool_allocate_Some[OF w this]
    show ?thesis by (rule arena_pool_step[OF assms(1)]) (use s free in auto)
  qed
  with takes show ?thesis by simp
next
  note w = arena_wfD(1)[OF assms(1)] and free = arena_held_free[OF assms(1)]
  case (takes_run n alignment r' p)
  have "arena_wf (a\<lparr>xa_frames := p\<rparr>)"
  proof (cases r')
    case None
    with takes_run frame_allocate_contiguous_cases[OF w, of n alignment] have "p = xa_frames a"
      by (auto simp: pool_run_def pool_allocate_contiguous_def claim_run_def Let_def split: option.splits)
    with assms(1) show ?thesis by simp
  next
    case (Some x)
    with takes_run have "pool_run (xa_frames a) n alignment = (Some x, p)" by simp
    note s = pool_run_Some[OF w this]
    show ?thesis by (rule arena_pool_step[OF assms(1)]) (use s free in auto)
  qed
  with takes_run show ?thesis by simp
next
  case (returns first n r'' p)
  note s = pool_release_contiguous_cases[OF arena_wfD(1)[OF assms(1)] returns(2)]
  have "arena_wf (a\<lparr>xa_frames := p\<rparr>)"
    by (rule arena_pool_step[OF assms(1)]) (use s returns(3) arena_held_free[OF assms(1)] in auto)
  with returns(1) show ?thesis by simp
qed (use assms(1) in \<open>auto dest!: arena_write_ram\<close>)

interpretation arena: invariant_system
  "\<lambda>a. \<exists>frames ram w c s secret. frame_wf frames \<and> arena_allocate frames ram w c s secret = (Ok (), a)" arena_step arena_wf
  by unfold_locales (auto dest: arena_allocate_sound(2) arena_step_sound)

lemma arena_steps_records:
  assumes "arena_step\<^sup>*\<^sup>* a b" and "arena_wf a"
  shows "arena_wf b \<and> xa_records b = xa_records a \<and> xa_record_count b = xa_record_count a \<and> xa_identity b = xa_identity a
    \<and> xa_released_pages b = xa_released_pages a"
  using assms by (induction rule: rtranclp_induct) (use arena_step_sound in force)+

section \<open>Release against a refusing pool\<close>

text \<open>Where the pool refuses a run, the region keeps a debt; those already returned are marked, the
  others are as before.\<close>

lemma pool_release_refused: "pool_release_contiguous p first n = (Err e, q) \<Longrightarrow> q = p"
  by (auto simp: pool_release_contiguous_def frame_deallocate_contiguous_def Let_def split: if_splits option.splits)

lemma release_from_debt:
  assumes "release_from (rev [0 ..< n]) a = (Err fault, b)" and "n \<le> length (xa_records a)" and "\<forall>j < n. live (xa_records a ! j)"
  shows "\<exists>i source. i < n \<and> fault = FrameAllocatorFault (rr_purpose (xa_records a ! i)) source
    \<and> pool_release_contiguous (xa_frames b) (rr_physical_start (xa_records a ! i)) (rr_page_count (xa_records a ! i)) = (Err source, xa_frames b)
    \<and> (\<forall>j < n. xa_records b ! j = (if j < i then xa_records a ! j
         else (xa_records a ! j)\<lparr>rr_phase := (if j = i then ReleaseDebt else Released)\<rparr>))
    \<and> (\<forall>j \<ge> n. xa_records b ! j = xa_records a ! j)"
  using assms
proof (induction n arbitrary: a)
  case (Suc n)
  let ?r = "xa_records a ! n"
  have live: "live ?r" using Suc.prems(3) by simp
  obtain res p where pool: "pool_release_contiguous (xa_frames a) (rr_physical_start ?r) (rr_page_count ?r) = (res, p)" by fastforce
  show ?case
  proof (cases res)
    case (Inl source)
    then have "p = xa_frames a" using pool pool_release_refused by blast
    moreover have "fault = FrameAllocatorFault (rr_purpose ?r) source"
      "b = a\<lparr>xa_frames := p, xa_records := (xa_records a)[n := ?r\<lparr>rr_phase := ReleaseDebt\<rparr>]\<rparr>"
      using Suc.prems(1) live pool Inl by (auto simp: live_def Let_def)
    ultimately show ?thesis using pool Inl Suc.prems(2) by (intro exI[of _ n] exI[of _ source]) (auto simp: less_Suc_eq)
  next
    case (Inr u)
    let ?c = "a\<lparr>xa_frames := p, xa_records := (xa_records a)[n := ?r\<lparr>rr_phase := Released\<rparr>],
      xa_released_pages := xa_released_pages a + rr_page_count ?r\<rparr>"
    have "release_from (rev [0 ..< n]) ?c = (Err fault, b)"
      using Suc.prems(1) live pool Inr by (auto simp: live_def Let_def)
    from Suc.IH[OF this] Suc.prems(2,3) obtain i source where
      i: "i < n" "fault = FrameAllocatorFault (rr_purpose (xa_records a ! i)) source"
        "pool_release_contiguous (xa_frames b) (rr_physical_start (xa_records a ! i)) (rr_page_count (xa_records a ! i)) = (Err source, xa_frames b)"
      and old: "\<forall>j < n. xa_records b ! j = (if j < i then xa_records a ! j
         else (xa_records a ! j)\<lparr>rr_phase := (if j = i then ReleaseDebt else Released)\<rparr>)"
      and rest: "\<forall>j \<ge> n. xa_records b ! j = xa_records ?c ! j" by (auto simp del: upt_Suc)
    have "xa_records b ! n = ?r\<lparr>rr_phase := Released\<rparr>" using rest Suc.prems(2) by simp
    moreover have "\<forall>j \<ge> Suc n. xa_records b ! j = xa_records a ! j" using rest by auto
    ultimately show ?thesis using i old by (intro exI[of _ i] exI[of _ source]) (auto simp: less_Suc_eq)
  qed
qed simp

lemma not_all_returned:
  assumes "\<forall>r \<in> set (arena_records a). live r" and "arena_records a \<noteq> []"
  shows "\<not> list_all (\<lambda>r. rr_phase r = RegionEmpty \<or> rr_phase r = Released) (arena_records (a\<lparr>xa_frames := p\<rparr>))"
  using assms by (cases "arena_records a") (auto simp: arena_records_def live_def)

lemma arena_release_debt:
  assumes run: "arena_release (a\<lparr>xa_frames := p\<rparr>) q = (Err fault, b)" and q: "qu_device q = iw_device (xa_identity a)"
    "qu_generation q = iw_generation (xa_identity a)" "qu_evidence_root q \<noteq> 0"
    and wf: "arena_wf a" and live: "\<forall>r \<in> set (arena_records a). live r" and some: "arena_records a \<noteq> []"
  shows "\<exists>i source. i < xa_record_count a \<and> fault = FrameAllocatorFault (rr_purpose (xa_records a ! i)) source
    \<and> pool_release_contiguous (xa_frames b) (rr_physical_start (xa_records a ! i)) (rr_page_count (xa_records a ! i)) = (Err source, xa_frames b)
    \<and> (\<forall>j < xa_record_count a. xa_records b ! j = (if j < i then xa_records a ! j
         else (xa_records a ! j)\<lparr>rr_phase := (if j = i then ReleaseDebt else Released)\<rparr>))"
proof -
  have len: "xa_record_count a \<le> length (xa_records a)" using arena_wfD(2,3)[OF wf] by simp
  have lv: "\<forall>j < xa_record_count a. live (xa_records a ! j)" using live arena_record_mem[OF _ wf] by blast
  have "release_from (rev [0 ..< xa_record_count a]) (a\<lparr>xa_frames := p\<rparr>) = (Err fault, b)"
    using run q not_all_returned[OF live some, of p] by (auto simp: arena_release_def release_records_def Let_def split: sum.splits prod.splits)
  from release_from_debt[OF this] len lv show ?thesis by auto
qed

text \<open>A pool that manages no frame refuses every run.\<close>

lemma empty_pool_refuses:
  "\<exists>e. pool_release_contiguous (p\<lparr>fa_frame_count := 0\<rparr>) first n = (Err e, p\<lparr>fa_frame_count := 0\<rparr>)"
  by (auto simp: pool_release_contiguous_def frame_deallocate_contiguous_def Let_def checked_add_usize_def split: option.splits)

lemma empty_pool_debt:
  assumes wf: "arena_wf a" and live: "\<forall>r \<in> set (arena_records a). live r" and some: "arena_records a \<noteq> []"
    and q: "qu_device q = iw_device (xa_identity a)" "qu_generation q = iw_generation (xa_identity a)" "qu_evidence_root q \<noteq> 0"
  shows "\<exists>fault b. arena_release (a\<lparr>xa_frames := p\<lparr>fa_frame_count := 0\<rparr>\<rparr>) q = (Err fault, b)"
proof -
  obtain n where n: "xa_record_count a = Suc n" using some by (cases "xa_record_count a") (auto simp: arena_records_def)
  then have "live (xa_records a ! n)" using live arena_record_mem[OF _ wf, of n] by simp
  moreover note not_all_returned[OF live some, of "p\<lparr>fa_frame_count := 0\<rparr>"]
  moreover obtain e where "pool_release_contiguous (p\<lparr>fa_frame_count := 0\<rparr>) (rr_physical_start (xa_records a ! n)) (rr_page_count (xa_records a ! n))
      = (Err e, p\<lparr>fa_frame_count := 0\<rparr>)" using empty_pool_refuses by blast
  ultimately show ?thesis using n q by (simp add: arena_release_def release_records_def live_def Let_def)
qed

section \<open>Theorems\<close>

text \<open>
  C16 (safety). Building an arena is all or nothing. When it fails, for whatever reason and after
  whatever allocations, every frame is back in the pool and no debt remains; when it succeeds,
  the regions are the planned ones and ready, the frames taken are exactly those the pool has
  lost, every region lies in the identity aperture below the device's limit, no two regions share a
  frame, and the scratchpad pointers lead from the DCBAA to every buffer.\<close>

theorem arena_build_all_or_nothing:
  assumes "frame_wf frames"
  shows "case arena_allocate frames ram w c s secret of
      (Err f, a) \<Rightarrow> bf_debt f = None \<and> free_set (xa_frames a) = free_set frames
    | (Ok _, a) \<Rightarrow> map (\<lambda>r. (rr_purpose r, rr_page_count r)) (arena_records a) = region_plan c
        \<and> (\<forall>r \<in> set (arena_records a). rr_phase r = Ready \<and> mapped_region a r)
        \<and> free_set (xa_frames a) = free_set frames - arena_held a \<and> arena_held a \<subseteq> free_set frames
        \<and> (\<forall>i < xa_record_count a. \<forall>j < i. run_of (xa_records a ! i) \<inter> run_of (xa_records a ! j) = {})
        \<and> scratchpad_linked a"
proof -
  obtain res a where call: "arena_allocate frames ram w c s secret = (res, a)" by (cases "arena_allocate frames ram w c s secret")
  show ?thesis
  proof (cases res)
    case (Inl f)
    with arena_allocate_sound(1)[OF assms call] show ?thesis by (simp add: call)
  next
    case (Inr u)
    note ok = arena_allocate_sound(2)[OF assms call Inr]
    have wf: "arena_wf a" and ready: "\<forall>r \<in> set (arena_records a). rr_phase r = Ready" using ok by auto
    have mapped: "\<forall>r \<in> set (arena_records a). mapped_region a r"
      using wf ready unfolding arena_wf_def by (auto simp: usable_def)
    have live: "live (xa_records a ! i)" if "i < xa_record_count a" for i
      using ready arena_record_mem[OF that wf] by (auto simp: live_def)
    have "free_set (xa_frames a) \<union> arena_held a = free_set frames" using ok by (simp add: stock_def)
    with arena_held_free[OF wf] have "free_set (xa_frames a) = free_set frames - arena_held a" "arena_held a \<subseteq> free_set frames" by auto
    moreover have "\<forall>i < xa_record_count a. \<forall>j < i. run_of (xa_records a ! i) \<inter> run_of (xa_records a ! j) = {}"
      using arena_wfD(6)[OF wf] live by auto
    ultimately show ?thesis using ok ready mapped Inr by (simp add: call)
  qed
qed

text \<open>
  C34 (roundtrip). Releasing gives back exactly what was taken. After a build, any transfers, and
  any use of the pool and of the memory by others that leaves the arena's frames alone, a release
  with a matching quiescence proof succeeds, returns every frame of the arena to the pool and
  no other, counts the pages, and leaves no region that accepts a transfer. If others have not left the frames
  alone, whatever the pool is by then, a release that fails stops at one region that the pool
  refuses to take back: that region is marked as a debt, the regions after it are released, and those before it
  are untouched.\<close>

theorem arena_release_returns_frames:
  assumes "frame_wf frames" and "arena_allocate frames ram w c s secret = (Ok (), a\<^sub>0)" and "arena_step\<^sup>*\<^sup>* a\<^sub>0 a"
    and "qu_device q = iw_device w" and "qu_generation q = iw_generation w" and "qu_evidence_root q \<noteq> 0"
  shows "(\<exists>receipt b. arena_release a q = (Ok receipt, b)
    \<and> free_set (xa_frames b) = free_set (xa_frames a) \<union> arena_held a\<^sub>0 \<and> free_set (xa_frames a) \<inter> arena_held a\<^sub>0 = {}
    \<and> rc_released_pages receipt = sum_list (map snd (region_plan c))
    \<and> (\<forall>t offset bytes. fst (arena_write b t offset bytes) \<noteq> Ok ()))
    \<and> (\<forall>p fault b. arena_release (a\<lparr>xa_frames := p\<rparr>) q = (Err fault, b) \<longrightarrow>
      (\<exists>i source. i < xa_record_count a \<and> fault = FrameAllocatorFault (rr_purpose (xa_records a ! i)) source
        \<and> pool_release_contiguous (xa_frames b) (rr_physical_start (xa_records a ! i)) (rr_page_count (xa_records a ! i)) = (Err source, xa_frames b)
        \<and> (\<forall>j < xa_record_count a. xa_records b ! j = (if j < i then xa_records a ! j
             else (xa_records a ! j)\<lparr>rr_phase := (if j = i then ReleaseDebt else Released)\<rparr>))))"
proof -
  note ok = arena_allocate_sound(2)[OF assms(1,2) refl]
  have a: "arena_wf a" "xa_records a = xa_records a\<^sub>0" "xa_record_count a = xa_record_count a\<^sub>0" "xa_identity a = w" "xa_released_pages a = 0"
    using arena_steps_records[OF assms(3)] ok by auto
  have recs: "arena_records a = arena_records a\<^sub>0" "arena_held a = arena_held a\<^sub>0" using a by (simp_all add: arena_records_def arena_held_def)
  have live: "\<forall>r \<in> set (arena_records a). live r" using ok by (auto simp: recs live_def)
  have some: "arena_records a \<noteq> []" using ok by (auto simp: recs region_plan_def)
  have q: "qu_device q = iw_device (xa_identity a)" "qu_generation q = iw_generation (xa_identity a)" using assms(4,5) a(4) by simp_all
  note debt = arena_release_debt[OF _ q assms(6) a(1) live some]
  from live some have "\<exists>r \<in> set (arena_records a). live r" by (cases "arena_records a") auto
  then obtain receipt b where rel: "release_records a = (Ok receipt, b)" "free_set (xa_frames b) = stock a"
    "\<And>r. r \<in> set (arena_records b) \<Longrightarrow> \<not> live r"
    "rc_released_pages receipt = xa_released_pages a + sum_list (map rr_page_count (filter live (arena_records a)))"
    using release_records_sound[OF a(1)] by metis
  have plan: "map (\<lambda>r. (rr_purpose r, rr_page_count r)) (arena_records a\<^sub>0) = region_plan c" using ok by blast
  have "map rr_page_count (arena_records a\<^sub>0) = map snd (region_plan c)" unfolding plan[symmetric] by simp
  moreover have "filter live (arena_records a) = arena_records a" using live by simp
  ultimately have "rc_released_pages receipt = sum_list (map snd (region_plan c))" using rel(4) a(5) by (simp add: recs)
  moreover have "fst (arena_write b t offset bytes) \<noteq> Ok ()" for t offset bytes
  proof -
    have "\<not> usable r" if "region b (tk_purpose t) = Some r" for r
      using that rel(3)[of r] usable_live nth_mem by (fastforce simp: region_def find_Some_iff)
    then show ?thesis by (auto simp: arena_write_def record_for_token_def usable_def split: sum.splits if_splits option.splits)
  qed
  ultimately have "\<exists>receipt b. arena_release a q = (Ok receipt, b)
    \<and> free_set (xa_frames b) = free_set (xa_frames a) \<union> arena_held a\<^sub>0 \<and> free_set (xa_frames a) \<inter> arena_held a\<^sub>0 = {}
    \<and> rc_released_pages receipt = sum_list (map snd (region_plan c))
    \<and> (\<forall>t offset bytes. fst (arena_write b t offset bytes) \<noteq> Ok ())"
    using rel(1,2) a(4) assms(4-6) arena_held_free[OF a(1)] recs(2) by (auto simp: arena_release_def stock_def)
  with debt show ?thesis by blast
qed

text \<open>With four frames to spare in a window that covers all managed memory, a build without
  scratchpads succeeds.\<close>

lemma window_covers:
  assumes "establish device 0 bytes base limit generation root observation = Ok w" and "fa_frame_count p * 4096 \<le> unat bytes"
    and "f + 1 \<le> fa_frame_count p" and "f < 2 ^ 52"
  shows "\<exists>q. region_ranges w limit purpose (frame_address f) 1 = Ok q"
proof -
  have e: "checked_add 0 bytes = Some (iw_physical_end w)" "iw_physical_start w = 0" "iw_direct_map_base w = base"
    "\<not> iw_physical_end w - 1 > limit" "checked_add base 0 = Some (iw_cpu_start w)" "checked_add base (iw_physical_end w) = Some (iw_cpu_end w)"
    "bytes \<noteq> 0"
    using assms(1) by (auto simp: establish_def split: if_splits option.splits)
  have pe: "iw_physical_end w = bytes" "iw_cpu_start w = base" "iw_cpu_end w = base + bytes" "unat base + unat bytes < 2 ^ 64"
    using e(1,5,6) by (auto simp: checked_add_def split: if_splits)
  have f: "unat (frame_address f) = f * 4096" "f * 4096 + 4096 \<le> unat bytes" using assms(2-4) by simp_all
  have s: "unat (frame_address f + 0x1000) = f * 4096 + 4096" "frame_address f + 0x1000 \<le> bytes"
    using f unat_lt2p[of bytes] by (simp_all add: unat_word_ariths word_le_nat_alt)
  have "frame_address f + 0x1000 - 1 \<le> limit"
  proof -
    have "unat (frame_address f + 0x1000 - 1) = f * 4096 + 4095" using f unat_lt2p[of bytes] by (simp add: unat_word_ariths)
    moreover have "unat (bytes - 1) = unat bytes - 1" using e(7) by (simp add: unat_minus_one)
    moreover have "bytes - 1 \<le> limit" using e(4) pe(1) by simp
    ultimately show ?thesis using s(2) f(2) by (simp add: word_le_nat_alt)
  qed
  moreover have "unat (base + frame_address f) = unat base + f * 4096" using f pe(4) by (simp add: unat_word_ariths)
  ultimately show ?thesis using f s pe e(2,3)
    by (simp add: region_ranges_def checked_mul_usize_def checked_add_def word_le_nat_alt word_less_nat_alt not_less unat_word_ariths)
qed

lemma allocate_page_succeeds:
  assumes "establish device 0 bytes base limit generation root observation = Ok w" and "fa_frame_count (xa_frames a) * 4096 \<le> unat bytes"
    and "arena_wf a" and "xa_record_count a < 6" and "xa_identity a = w" and "xa_effective_device_limit a = limit"
    and "free_set (xa_frames a) \<noteq> {}"
  obtains b where "allocate_region purpose 1 a = (Ok (), b)" and "arena_wf b" and "xa_record_count b = xa_record_count a + 1"
    and "xa_identity b = w" and "xa_effective_device_limit b = limit" and "xa_scratchpad_count b = xa_scratchpad_count a"
    and "fa_frame_count (xa_frames b) = fa_frame_count (xa_frames a)" and "card (free_set (xa_frames b)) = card (free_set (xa_frames a)) - 1"
proof -
  note w = arena_wfD[OF assms(3)]
  obtain ps p where p: "pool_run (xa_frames a) 1 1 = (Some ps, p)" by (rule pool_run_one[OF w(1) assms(7)])
  note pr = pool_run_Some[OF w(1) p]
  obtain pe cs ce where q: "region_ranges w limit purpose ps 1 = Ok (pe, cs, ce)"
    using window_covers[OF assms(1,2) pr(8,9)] pr(6) by (metis prod_cases3)
  define b where "b = snd (allocate_region purpose 1 a)"
  have call: "allocate_region purpose 1 a = (Ok (), b)" and f: "xa_frames b = p" "xa_record_count b = xa_record_count a + 1"
    "xa_identity b = w" "xa_effective_device_limit b = limit" "xa_scratchpad_count b = xa_scratchpad_count a"
    using p q assms(4-6) by (simp_all add: b_def allocate_region_def Let_def)
  have "arena_wf b"
  proof -
    obtain z where z: "xa_records b = (xa_records a)[xa_record_count a := z]" "live z" "rr_physical_start z = ps" "rr_page_count z = 1" "mapped_region a z"
      using p q assms(4-6) region_ranges_Ok[OF q]
      by (auto simp: b_def allocate_region_def Let_def live_def frame_owned_record_def mapped_region_def)
    from arena_take(1)[OF assms(3,4) p z(2-4) f(1) z(1) f(2)] z(5) f assms(5,6) show ?thesis by simp
  qed
  moreover have "card (free_set p) = card (free_set (xa_frames a)) - 1"
    using pr(2,3) by (simp add: card_Diff_subset)
  ultimately show thesis using that call f pr(4) by simp
qed

lemma arena_build_succeeds:
  assumes "establish device 0 bytes base limit generation root observation = Ok w" and "frame_wf frames"
    and "fa_frame_count frames * 4096 \<le> unat bytes" and "4 \<le> fa_free_frames frames" and "secret \<noteq> 0"
  shows "\<exists>a. arena_allocate frames ram w 0 True secret = (Ok (), a)"
proof -
  let ?s = "arena_start frames ram w 0 True secret"
  have lim: "iw_device_address_limit w = limit" using assms(1) by (auto simp: establish_def split: if_splits option.splits)
  have wf: "arena_wf ?s" by (rule arena_start_wf[OF assms(2)])
  have s: "xa_record_count ?s = 0" "xa_identity ?s = w" "xa_effective_device_limit ?s = limit" "xa_scratchpad_count ?s = 0"
    "xa_frames ?s = frames" using lim by (simp_all add: arena_start_def)
  have c: "4 \<le> card (free_set frames)" using assms(2,4) by (simp add: frame_wf_def)
  have ne: "free_set p \<noteq> {}" if "0 < card (free_set p)" for p using that by force
  obtain b1 where b1: "allocate_region Dcbaa 1 ?s = (Ok (), b1)" "arena_wf b1" "xa_record_count b1 = 1" "xa_identity b1 = w"
    "xa_effective_device_limit b1 = limit" "xa_scratchpad_count b1 = 0" "fa_frame_count (xa_frames b1) = fa_frame_count frames"
    "3 \<le> card (free_set (xa_frames b1))"
    by (rule allocate_page_succeeds[OF assms(1), of ?s Dcbaa]) (use s wf c assms(3) ne in auto)
  obtain b2 where b2: "allocate_region CommandRing 1 b1 = (Ok (), b2)" "arena_wf b2" "xa_record_count b2 = 2" "xa_identity b2 = w"
    "xa_effective_device_limit b2 = limit" "xa_scratchpad_count b2 = 0" "fa_frame_count (xa_frames b2) = fa_frame_count frames"
    "2 \<le> card (free_set (xa_frames b2))"
    by (rule allocate_page_succeeds[OF assms(1), of b1 CommandRing]) (use b1 assms(3) ne in auto)
  obtain b3 where b3: "allocate_region EventRing 1 b2 = (Ok (), b3)" "arena_wf b3" "xa_record_count b3 = 3" "xa_identity b3 = w"
    "xa_effective_device_limit b3 = limit" "xa_scratchpad_count b3 = 0" "fa_frame_count (xa_frames b3) = fa_frame_count frames"
    "1 \<le> card (free_set (xa_frames b3))"
    by (rule allocate_page_succeeds[OF assms(1), of b2 EventRing]) (use b2 assms(3) ne in auto)
  obtain b4 where b4: "allocate_region EventRingSegmentTable 1 b3 = (Ok (), b4)" "xa_scratchpad_count b4 = 0"
    by (rule allocate_page_succeeds[OF assms(1), of b3 EventRingSegmentTable]) (use b3 assms(3) ne in auto)
  have "allocate_all_regions ?s = (Ok (), mark_ready b4)"
    using b1(1) b2(1) b3(1) b4 by (simp add: allocate_all_regions_def and_then_def)
  with assms(5) show ?thesis by (simp add: arena_allocate_def)
qed

definition sample_window :: identity_window where
  "sample_window = projr (establish \<lparr>pci_bus = 0, pci_slot = 20, pci_function = 0\<rparr> 0 0x8000 0xFFFF800000000000 0xFFFFFFFF 1 7
     \<lparr>ob_x86_cache_coherent = True, ob_requester_remapping_active = False\<rparr>)"

lemma sample_window_Ok: "establish \<lparr>pci_bus = 0, pci_slot = 20, pci_function = 0\<rparr> 0 0x8000 0xFFFF800000000000 0xFFFFFFFF 1 7
     \<lparr>ob_x86_cache_coherent = True, ob_requester_remapping_active = False\<rparr> = Ok sample_window"
  by (simp add: sample_window_def establish_def checked_add_def)

definition sample_arena :: xhci_arena where
  "sample_arena = snd (arena_allocate sample_allocator (\<lambda>_. 0) sample_window 0 True 9)"

lemma sample_arena_Ok: "arena_allocate sample_allocator (\<lambda>_. 0) sample_window 0 True 9 = (Ok (), sample_arena)"
  using arena_build_succeeds[OF sample_window_Ok sample_allocator_wf, of 9 "\<lambda>_. 0"]
  by (auto simp: sample_arena_def) (auto simp: sample_allocator_def)

theorem arena_build_all_or_nothing_witness:
  "map (\<lambda>r. (rr_purpose r, rr_page_count r)) (arena_records sample_arena) = region_plan 0
   \<and> free_set (xa_frames sample_arena) = free_set sample_allocator - arena_held sample_arena"
  using arena_build_all_or_nothing[OF sample_allocator_wf, where ram = "\<lambda>_. 0" and w = sample_window and c = 0 and s = True and secret = 9] by (simp add: sample_arena_Ok)

definition sample_quiescence :: dma_quiescence where
  "sample_quiescence = \<lparr>qu_device = \<lparr>pci_bus = 0, pci_slot = 20, pci_function = 0\<rparr>, qu_generation = 1, qu_evidence_root = 3\<rparr>"

theorem arena_release_returns_frames_witness:
  "(\<exists>receipt b. arena_release sample_arena sample_quiescence = (Ok receipt, b) \<and> rc_released_pages receipt = 4)
     \<and> (\<exists>p fault b i. arena_release (sample_arena\<lparr>xa_frames := p\<rparr>) sample_quiescence = (Err fault, b) \<and> rr_phase (xa_records b ! i) = ReleaseDebt)"
proof -
  have q: "qu_device sample_quiescence = iw_device sample_window" "qu_generation sample_quiescence = iw_generation sample_window"
    "qu_evidence_root sample_quiescence \<noteq> 0"
    by (simp_all add: sample_quiescence_def sample_window_def establish_def checked_add_def)
  note release = arena_release_returns_frames[OF sample_allocator_wf sample_arena_Ok rtranclp.rtrancl_refl q]
  have plan: "sum_list (map snd (region_plan 0)) = 4" by (simp add: region_plan_def)
  obtain receipt c where ok: "arena_release sample_arena sample_quiescence = (Ok receipt, c)" "rc_released_pages receipt = 4"
    using release[THEN conjunct1, unfolded plan] by blast
  note s = arena_allocate_sound(2)[OF sample_allocator_wf sample_arena_Ok refl]
  have live: "\<forall>r \<in> set (arena_records sample_arena). live r" using s by (auto simp: live_def)
  have some: "arena_records sample_arena \<noteq> []" using s by (auto simp: region_plan_def)
  have id: "xa_identity sample_arena = sample_window" and wf: "arena_wf sample_arena" using s by blast+
  from empty_pool_debt[OF wf live some q[folded id], of sample_allocator] obtain fault b where
    err: "arena_release (sample_arena\<lparr>xa_frames := sample_allocator\<lparr>fa_frame_count := 0\<rparr>\<rparr>) sample_quiescence = (Err fault, b)" by blast
  from release[THEN conjunct2, THEN spec, THEN spec, THEN spec, THEN mp, OF err] obtain i where i: "i < xa_record_count sample_arena"
    and at: "\<forall>j < xa_record_count sample_arena. xa_records b ! j = (if j < i then xa_records sample_arena ! j
      else (xa_records sample_arena ! j)\<lparr>rr_phase := (if j = i then ReleaseDebt else Released)\<rparr>)" by (elim exE conjE)
  from at[THEN spec, THEN mp, OF i] have "rr_phase (xa_records b ! i) = ReleaseDebt" by simp
  with err have "\<exists>p fault b i. arena_release (sample_arena\<lparr>xa_frames := p\<rparr>) sample_quiescence = (Err fault, b) \<and> rr_phase (xa_records b ! i) = ReleaseDebt"
    by (intro exI conjI)
  moreover from ok have "\<exists>receipt b. arena_release sample_arena sample_quiescence = (Ok receipt, b) \<and> rc_released_pages receipt = 4" by (intro exI conjI)
  ultimately show ?thesis by (rule conjI[rotated])
qed

end
