(* ===== verification/FrameSharing.thy ===== *)
theory FrameSharing
  imports VtdMemory XhciDma
begin

text \<open>
  The clients of the frame pool together: the VT-d table memory of \<open>VtdMemory\<close> and the DMA arenas of
  \<open>XhciDma\<close> on one pool, in any order. The lemmas say that no operation loses a frame or hands it to
  two owners; the property is stated in \<open>Spec2Isabelle\<close>.
\<close>

section \<open>What every client leaves alone\<close>

definition extent :: "frame_state \<Rightarrow> nat \<times> u64 list" where
  "extent p = (fa_frame_count p, fa_reserved p)"

lemma extent_set [simp]: "extent (set_allocated p f v) = extent p" "extent (p\<lparr>fa_free_frames := x, fa_next_search := y\<rparr>) = extent p"
  by (simp_all add: extent_def)

lemma extent_fold [simp]: "extent (fold (\<lambda>f p. set_allocated p f v) fs p) = extent p"
  by (induction fs arbitrary: p) simp_all

lemma extent_allocate: "pool_allocate p = (r, q) \<Longrightarrow> extent q = extent p"
  by (auto simp: pool_allocate_def frame_allocate_def split: if_splits option.splits)

lemma extent_run: "pool_run p n alignment = (r, q) \<Longrightarrow> extent q = extent p"
  by (auto simp: pool_run_def pool_allocate_contiguous_def frame_allocate_contiguous_def claim_run_def Let_def split: if_splits option.splits)

lemma extent_release: "pool_release_contiguous p a n = (r, q) \<Longrightarrow> extent q = extent p"
  by (auto simp: pool_release_contiguous_def frame_deallocate_contiguous_def Let_def split: if_splits option.splits)

text \<open>No operation of an arena changes the size of the pool or what it reserves.\<close>

lemma extent_region [simp]: "extent (xa_frames (snd (allocate_region purpose n a))) = extent (xa_frames a)"
  by (auto simp: allocate_region_def Let_def dest: extent_run split: if_splits option.splits prod.splits sum.splits)

lemma extent_and_then [simp]:
  assumes "\<And>b. extent (xa_frames (snd (f b))) = extent (xa_frames b)"
  shows "extent (xa_frames (snd (and_then r f))) = extent (xa_frames (snd r))"
  using assms by (cases r) (auto simp: and_then_def split: sum.splits)

lemma extent_links [simp]: "extent (xa_frames (snd (initialize_scratchpad_links a))) = extent (xa_frames a)"
  using initialize_scratchpad_links_ram[OF prod.collapse[symmetric], of a] by auto

lemma extent_regions [simp]: "extent (xa_frames (snd (allocate_all_regions a))) = extent (xa_frames a)"
  by (simp add: allocate_all_regions_def mark_ready_def split: option.split)

lemma extent_release_from [simp]: "extent (xa_frames (snd (release_from is a))) = extent (xa_frames a)"
proof (induction "is" a rule: release_from.induct)
  case (2 index rest a)
  then show ?case by (auto simp: Let_def split: prod.splits sum.splits dest: extent_release)
qed simp

lemma extent_records [simp]: "extent (xa_frames (snd (release_records a))) = extent (xa_frames a)"
  using extent_release_from[of "rev [0 ..< xa_record_count a]" a]
  by (auto simp: release_records_def Let_def simp del: extent_release_from split: prod.splits sum.splits)

lemma extent_rollback [simp]: "extent (xa_frames (snd (rollback_build cause a))) = extent (xa_frames a)"
  using extent_records[of a] by (auto simp: rollback_build_def simp del: extent_records split: prod.splits sum.splits)

lemma extent_build: "extent (xa_frames (snd (arena_allocate frames ram w c s secret))) = extent frames"
proof -
  let ?a = "arena_start frames ram w c s secret"
  have start: "extent (xa_frames ?a) = extent frames" by (simp add: arena_start_def)
  have attempt: "extent (xa_frames (snd (case x of (Err cause, a) \<Rightarrow> (case rollback_build cause a of (failure, a) \<Rightarrow> (Err failure, a))
      | (Ok _, a) \<Rightarrow> (Ok (), finish_arena_root a)))) = extent (xa_frames (snd x))" for x
    using extent_rollback by (auto split: prod.splits sum.splits simp del: extent_rollback) (metis snd_conv)
  show ?thesis unfolding arena_allocate_def Let_def attempt using start by (simp only: if_distrib[of snd] if_distrib[of xa_frames] if_distrib[of extent] snd_conv extent_regions if_cancel)
qed

section \<open>One frame pool\<close>

text \<open>
  The VT-d table memory and the DMA arenas draw from one frame pool. The platform keeps the table memory, whose
  pool is the shared one, and the arenas that were built and not released; an arena's operations run on the
  pool as it is when they are called.
\<close>

record platform =
  pf_tables :: direct_map
  pf_arenas :: "xhci_arena list"

abbreviation (input) shared_pool :: "platform \<Rightarrow> frame_state" where
  "shared_pool s \<equiv> dm_pool (pf_tables s)"

definition with_pool :: "platform \<Rightarrow> frame_state \<Rightarrow> xhci_arena list \<Rightarrow> platform" where
  "with_pool s p as = \<lparr>pf_tables = (pf_tables s)\<lparr>dm_pool := p\<rparr>, pf_arenas = as\<rparr>"

inductive platform_step :: "platform \<Rightarrow> platform \<Rightarrow> bool" where
  takes_table: "allocate_table (pf_tables s) = (r, m) \<Longrightarrow> platform_step s (s\<lparr>pf_tables := m\<rparr>)"
| zeroes_table: "zero_table f (pf_tables s) = (r', m) \<Longrightarrow> platform_step s (s\<lparr>pf_tables := m\<rparr>)"
| writes_entry: "write_entry f index v (pf_tables s) = (r', m) \<Longrightarrow> platform_step s (s\<lparr>pf_tables := m\<rparr>)"
| returns_table: "release_table f (pf_tables s) = (r', m) \<Longrightarrow> platform_step s (s\<lparr>pf_tables := m\<rparr>)"
| builds: "arena_allocate (shared_pool s) ram w c b secret = (r'', a)
    \<Longrightarrow> platform_step s (with_pool s (xa_frames a) (if isl r'' then pf_arenas s else a # pf_arenas s))"
| transfers: "i < length (pf_arenas s) \<Longrightarrow> arena_write (pf_arenas s ! i) t offset bytes = (r''', a)
    \<Longrightarrow> platform_step s (s\<lparr>pf_arenas := (pf_arenas s)[i := a]\<rparr>)"
| releases: "pf_arenas s = before @ a # after \<Longrightarrow> arena_release (a\<lparr>xa_frames := shared_pool s\<rparr>) q = (r4, a')
    \<Longrightarrow> platform_step s (with_pool s (xa_frames a') (if isl r4 then before @ a' # after else before @ after))"

definition table_frames :: "direct_map \<Rightarrow> nat set" where
  "table_frames m = frame_of ` {f. owns m f}"

definition same_pool :: "frame_state \<Rightarrow> frame_state \<Rightarrow> bool" where
  "same_pool p q \<longleftrightarrow> frame_wf q \<and> fa_frame_count q = fa_frame_count p \<and> is_reserved q = is_reserved p"

lemma extent_same_pool: "extent q = extent p \<Longrightarrow> frame_wf q \<Longrightarrow> same_pool p q"
  by (simp add: extent_def same_pool_def is_reserved_def fun_eq_iff)

lemma pool_release_Ok:
  assumes "frame_wf p" and "pool_release_contiguous p a n = (Ok u, q)"
  shows "same_pool p q" and "free_set q = free_set p \<union> {frame_of a ..< frame_of a + n}"
proof -
  show "same_pool p q" using pool_release_contiguous_cases[OF assms] by (simp add: same_pool_def)
  show "free_set q = free_set p \<union> {frame_of a ..< frame_of a + n}" using assms(1)
    by (cases rule: frame_deallocate_contiguous_cases[of p a n])
      (use assms release_wf(2)[OF assms(1), of a n q] in \<open>auto simp: pool_release_contiguous_def frame_of_def\<close>)
qed

lemma give_back_effect:
  assumes "direct_map_wf m" and "pool_allocate (dm_pool m) = (Some a, p)" and "give_back a e (m\<lparr>dm_pool := p\<rparr>) = (r, m')"
  shows "same_pool (dm_pool m) (dm_pool m')" and "free_set (dm_pool m') = free_set (dm_pool m)" and "dm_owned m' = dm_owned m"
proof -
  note al = pool_allocate_Some[OF direct_map_wfD(1)[OF assms(1)] assms(2)]
  have f: "frame_of a < fa_frame_count (dm_pool m)" "\<not> is_reserved (dm_pool m) (frame_of a)"
    using al(2) direct_map_wfD(1)[OF assms(1)] by (auto simp: free_set_def frame_wf_def)
  have "frame_of a < 2 ^ 52" by (rule free_set_small[OF direct_map_wfD(1)[OF assms(1)] al(2)])
  then have al_a: "is_page_aligned a" using al(5) by (metis dvd_triv_right is_page_aligned_iff unat_frame_address)
  obtain q where q: "pool_release_contiguous p a 1 = (Ok (), q)"
    by (rule pool_release_run[OF al(1), of 1 a]) (use f al(3,4,6) al_a in auto)
  with assms(3) have m': "m' = m\<lparr>dm_pool := q\<rparr>" by (auto simp: give_back_def pool_release_contiguous_1)
  from pool_release_Ok[OF al(1) q] al m' show "same_pool (dm_pool m) (dm_pool m')" "free_set (dm_pool m') = free_set (dm_pool m)" "dm_owned m' = dm_owned m"
    by (auto simp: same_pool_def fun_eq_iff)
qed

lemma allocate_table_effect:
  assumes wf: "direct_map_wf m" and "allocate_table m = (r, m')"
  shows "same_pool (dm_pool m) (dm_pool m') \<and> table_frames m' \<union> free_set (dm_pool m') = table_frames m \<union> free_set (dm_pool m)"
proof (cases "\<exists>a p e. pool_allocate (dm_pool m) = (Some a, p) \<and> give_back a e (m\<lparr>dm_pool := p\<rparr>) = (r, m')")
  case True
  then obtain a p e where "pool_allocate (dm_pool m) = (Some a, p)" "give_back a e (m\<lparr>dm_pool := p\<rparr>) = (r, m')" by blast
  from give_back_effect[OF wf this] show ?thesis by (simp add: table_frames_def owns_def)
next
  case False
  show ?thesis
  proof (cases r)
    case (Inl e)
    with False assms(2) pool_allocate_None[OF direct_map_wfD(1)[OF wf]] have "m' = m"
      by (auto simp: allocate_table_def split: option.splits prod.splits sum.splits)
    with direct_map_wfD(1)[OF wf] show ?thesis by (simp add: same_pool_def)
  next
    case (Inr f)
    then obtain slot p where pos: "position (\<lambda>slot. slot = None) (dm_owned m) = Some slot" and p: "pool_allocate (dm_pool m) = (Some f, p)"
      and m': "m' = m\<lparr>dm_pool := p, dm_owned := (dm_owned m)[slot := Some f]\<rparr>"
      using assms(2) by (auto simp: allocate_table_def from_physical_address_def give_back_def split: option.splits prod.splits sum.splits if_splits)
    note al = pool_allocate_Some[OF direct_map_wfD(1)[OF wf] p]
    have "owns m' g \<longleftrightarrow> g = f \<or> owns m g" for g using slot_take[of slot "dm_owned m" g f] position_SomeD[OF pos] by (simp add: m' owns_iff)
    then have "table_frames m' = insert (frame_of f) (table_frames m)" by (auto simp: table_frames_def)
    with al show ?thesis by (auto simp: same_pool_def m' fun_eq_iff)
  qed
qed

lemma release_table_effect:
  assumes wf: "direct_map_wf m" and "release_table f m = (r, m')"
  shows "same_pool (dm_pool m) (dm_pool m') \<and> table_frames m' \<union> free_set (dm_pool m') = table_frames m \<union> free_set (dm_pool m)"
proof (cases r)
  case (Inl e)
  with release_table_Err[OF wf] assms(2) direct_map_wfD(1)[OF wf] show ?thesis by (auto simp: same_pool_def)
next
  case (Inr u)
  with assms(2) obtain slot p where pos: "position (\<lambda>c. c = Some f) (dm_owned m) = Some slot" and p: "pool_release_contiguous (dm_pool m) f 1 = (Ok (), p)"
    and m': "m' = m\<lparr>dm_pool := p, dm_owned := (dm_owned m)[slot := None]\<rparr>"
    by (auto simp: release_table_def pool_release_contiguous_1 split: option.splits prod.splits sum.splits)
  note slot = position_SomeD[OF pos]
  have own: "owns m f" using slot by (metis owns_iff nth_mem)
  have "owns m' g \<longleftrightarrow> g \<noteq> f \<and> owns m g" for g
    using distinct_slots_drop(2)[OF direct_map_wfD(4)[OF wf], of slot f g] slot by (simp add: m' owns_iff)
  then have "table_frames m = insert (frame_of f) (table_frames m')" using own by (auto simp: table_frames_def)
  with pool_release_Ok[OF direct_map_wfD(1)[OF wf] p] show ?thesis by (auto simp: m' same_pool_def)
qed

lemma entry_effect:
  shows "zero_table f m = (r, m') \<Longrightarrow> dm_pool m' = dm_pool m \<and> dm_owned m' = dm_owned m"
    and "write_entry f index v m = (r, m') \<Longrightarrow> dm_pool m' = dm_pool m \<and> dm_owned m' = dm_owned m"
  by (auto simp: zero_table_def write_entry_def split: sum.splits if_splits)

section \<open>Frames are conserved\<close>

definition arena_live :: "xhci_arena \<Rightarrow> bool" where
  "arena_live a \<longleftrightarrow> (\<exists>r \<in> set (arena_records a). live r)"

definition platform_frames :: "platform \<Rightarrow> nat set" where
  "platform_frames s = (table_frames (pf_tables s) \<union> free_set (shared_pool s)) \<union> \<Union> (arena_held ` set (pf_arenas s))"

definition platform_wf :: "nat set \<Rightarrow> platform \<Rightarrow> bool" where
  "platform_wf F s \<longleftrightarrow> direct_map_wf (pf_tables s)
     \<and> (\<forall>a \<in> set (pf_arenas s). arena_wf (a\<lparr>xa_frames := shared_pool s\<rparr>) \<and> arena_live a
          \<and> arena_held a \<inter> (table_frames (pf_tables s) \<union> free_set (shared_pool s)) = {})
     \<and> sorted_wrt disjnt (map arena_held (pf_arenas s)) \<and> platform_frames s = F"

lemma arena_held_pool [simp]: "arena_held (a\<lparr>xa_frames := p\<rparr>) = arena_held a" "arena_held (a\<lparr>xa_ram := ram\<rparr>) = arena_held a"
  "arena_live (a\<lparr>xa_frames := p\<rparr>) = arena_live a" "arena_live (a\<lparr>xa_ram := ram\<rparr>) = arena_live a"
  by (simp_all add: arena_held_def arena_records_def arena_live_def)

lemma arena_other_pool:
  assumes "arena_wf (a\<lparr>xa_frames := p\<rparr>)" and "same_pool p q" and "free_set q \<inter> arena_held a = {}"
  shows "arena_wf (a\<lparr>xa_frames := q\<rparr>)"
  using arena_pool_step[OF assms(1), of q] assms(2,3) by (auto simp: same_pool_def)

lemma table_frames_pool [simp]: "table_frames (m\<lparr>dm_pool := p\<rparr>) = table_frames m"
  by (simp add: table_frames_def owns_def)

lemma table_frames_free: "direct_map_wf m \<Longrightarrow> table_frames m \<inter> free_set (dm_pool m) = {}"
  by (auto simp: table_frames_def dest: direct_map_wfD(3) simp: held_def)

lemma other_arena:
  assumes "platform_wf F s" and "x \<in> set (pf_arenas s)" and "same_pool (shared_pool s) p" and "free_set p \<inter> arena_held x = {}"
  shows "arena_wf (x\<lparr>xa_frames := p\<rparr>)"
  using assms by (intro arena_other_pool[OF _ assms(3,4)]) (simp add: platform_wf_def)

lemma arena_apart:
  assumes "platform_wf F s" and "x \<in> set (pf_arenas s)"
  shows "arena_held x \<inter> (table_frames (pf_tables s) \<union> free_set (shared_pool s)) = {}" and "arena_live x"
  using assms by (simp_all add: platform_wf_def)

lemma platform_table_step:
  assumes ok: "platform_wf F s" and "direct_map_wf m" and "same_pool (shared_pool s) (dm_pool m)"
    and u: "table_frames m \<union> free_set (dm_pool m) = table_frames (pf_tables s) \<union> free_set (shared_pool s)"
  shows "platform_wf F (s\<lparr>pf_tables := m\<rparr>)"
proof -
  have "arena_wf (a\<lparr>xa_frames := dm_pool m\<rparr>)" if "a \<in> set (pf_arenas s)" for a
    by (rule other_arena[OF ok that assms(3)]) (use arena_apart(1)[OF ok that] u in blast)
  with ok assms(2) show ?thesis by (simp add: platform_wf_def platform_frames_def u)
qed

lemma platform_pool_step:
  assumes ok: "platform_wf F s" and "same_pool (shared_pool s) p"
    and tables: "table_frames (pf_tables s) \<inter> free_set p = {}"
    and arenas: "\<forall>a \<in> set as. arena_wf (a\<lparr>xa_frames := p\<rparr>) \<and> arena_live a
      \<and> arena_held a \<inter> (table_frames (pf_tables s) \<union> free_set p) = {}"
    and "sorted_wrt disjnt (map arena_held as)"
    and "free_set p \<union> \<Union> (arena_held ` set as) = free_set (shared_pool s) \<union> \<Union> (arena_held ` set (pf_arenas s))"
  shows "platform_wf F (with_pool s p as)"
proof -
  have "direct_map_wf ((pf_tables s)\<lparr>dm_pool := p\<rparr>)"
    using ok assms(2) tables by (intro direct_map_wf_pool(1)) (auto simp: platform_wf_def same_pool_def table_frames_def)
  with ok assms(4-6) show ?thesis by (auto simp: platform_wf_def platform_frames_def with_pool_def)
qed

lemma platform_step_wf:
  assumes ok: "platform_wf F s" and "platform_step s s'"
  shows "platform_wf F s'"
  using assms(2)
proof cases
  case (takes_table r m)
  have "direct_map_wf (pf_tables s)" using ok by (simp add: platform_wf_def)
  with table_ops_wf(1)[OF this takes_table(2)] allocate_table_effect[OF this takes_table(2)] platform_table_step[OF ok] takes_table(1) show ?thesis by simp
next
  case (zeroes_table f r m)
  have "direct_map_wf (pf_tables s)" using ok by (simp add: platform_wf_def)
  with table_ops_wf(2)[OF this zeroes_table(2)] entry_effect(1)[OF zeroes_table(2)] platform_table_step[OF ok] zeroes_table(1) show ?thesis
    by (simp add: same_pool_def table_frames_def owns_def direct_map_wfD)
next
  case (writes_entry f index v r m)
  have "direct_map_wf (pf_tables s)" using ok by (simp add: platform_wf_def)
  with table_ops_wf(3)[OF this writes_entry(2)] entry_effect(2)[OF writes_entry(2)] platform_table_step[OF ok] writes_entry(1) show ?thesis
    by (simp add: same_pool_def table_frames_def owns_def direct_map_wfD)
next
  case (returns_table f r m)
  have "direct_map_wf (pf_tables s)" using ok by (simp add: platform_wf_def)
  with table_ops_wf(4)[OF this returns_table(2)] release_table_effect[OF this returns_table(2)] platform_table_step[OF ok] returns_table(1) show ?thesis by simp
next
  case (builds ram w c b secret r a)
  then have call: "arena_allocate (shared_pool s) ram w c b secret = (r, a)" by simp
  have pool: "frame_wf (shared_pool s)" and tables: "table_frames (pf_tables s) \<inter> free_set (shared_pool s) = {}"
    using ok table_frames_free by (auto simp: platform_wf_def dest: direct_map_wfD(1))
  note sound = arena_allocate_sound[OF pool call]
  show ?thesis
  proof (cases r)
    case (Inl f)
    have "frame_wf (xa_frames a)" "free_set (xa_frames a) = free_set (shared_pool s)" using sound(1)[OF Inl] by auto
    moreover from this have same: "same_pool (shared_pool s) (xa_frames a)"
      using extent_build[of "shared_pool s" ram w c b secret] call by (simp add: extent_same_pool)
    moreover have "arena_wf (x\<lparr>xa_frames := xa_frames a\<rparr>)" if "x \<in> set (pf_arenas s)" for x
      by (rule other_arena[OF ok that same]) (use arena_apart(1)[OF ok that] calculation(2) in blast)
    ultimately show ?thesis unfolding builds(1) using Inl ok tables arena_apart[OF ok]
      by (intro platform_pool_step[OF ok]) (auto simp: platform_wf_def)
  next
    case (Inr u)
    have wf: "arena_wf a" "free_set (shared_pool s) = free_set (xa_frames a) \<union> arena_held a" "arena_live a"
      using sound(2)[OF Inr] by (auto simp: arena_live_def stock_def live_def region_plan_def)
    note apart = arena_held_free[OF wf(1)]
    have same: "same_pool (shared_pool s) (xa_frames a)"
      using extent_build[of "shared_pool s" ram w c b secret] call arena_wfD(1)[OF wf(1)] by (simp add: extent_same_pool)
    have others: "arena_wf (x\<lparr>xa_frames := xa_frames a\<rparr>)" "disjnt (arena_held a) (arena_held x)" "arena_live x"
      "arena_held x \<inter> (table_frames (pf_tables s) \<union> free_set (xa_frames a)) = {}" if "x \<in> set (pf_arenas s)" for x
      using arena_apart[OF ok that] wf(2) by (auto simp: disjnt_def intro!: other_arena[OF ok that same])
    have new: "arena_held a \<inter> (table_frames (pf_tables s) \<union> free_set (xa_frames a)) = {}" "table_frames (pf_tables s) \<inter> free_set (xa_frames a) = {}"
      using tables wf(2) apart by auto
    have "platform_wf F (with_pool s (xa_frames a) (a # pf_arenas s))"
      by (rule platform_pool_step[OF ok same]) (use ok wf new others in \<open>auto simp: platform_wf_def\<close>)
    with Inr show ?thesis unfolding builds(1) by simp
  qed
next
  case (transfers i t offset bytes r a)
  then obtain ram where a: "a = (pf_arenas s ! i)\<lparr>xa_ram := ram\<rparr>" using arena_write_ram by blast
  have "a\<lparr>xa_frames := shared_pool s\<rparr> = (pf_arenas s ! i)\<lparr>xa_frames := shared_pool s, xa_ram := ram\<rparr>" by (simp add: a)
  moreover have "arena_wf ((pf_arenas s ! i)\<lparr>xa_frames := shared_pool s\<rparr>)" using ok transfers(2) by (simp add: platform_wf_def)
  ultimately have "arena_wf (a\<lparr>xa_frames := shared_pool s\<rparr>)" using arena_step_sound[OF _ arena_step.writes] by metis
  moreover have live: "arena_live a" "arena_held a = arena_held (pf_arenas s ! i)" using arena_apart(2)[OF ok nth_mem[OF transfers(2)]] by (simp_all add: a)
  moreover have "x \<in> set (pf_arenas s) \<or> x = a" if "x \<in> set ((pf_arenas s)[i := a])" for x
    using that set_update_subset_insert by fastforce
  ultimately have "\<forall>x \<in> set ((pf_arenas s)[i := a]). arena_wf (x\<lparr>xa_frames := shared_pool s\<rparr>) \<and> arena_live x
      \<and> arena_held x \<inter> (table_frames (pf_tables s) \<union> free_set (shared_pool s)) = {}"
    using ok arena_apart[OF ok nth_mem[OF transfers(2)]] unfolding platform_wf_def by metis
  moreover have held: "map arena_held ((pf_arenas s)[i := a]) = map arena_held (pf_arenas s)"
    using transfers(2) live(2) by (simp add: map_update) (metis list_update_id nth_map)
  moreover have "\<Union> (arena_held ` set ((pf_arenas s)[i := a])) = \<Union> (arena_held ` set (pf_arenas s))" using arg_cong[OF held, of set] by simp
  ultimately show ?thesis unfolding transfers(1) using ok by (simp add: platform_wf_def platform_frames_def)
next
  case (releases before a after q r a')
  let ?a = "a\<lparr>xa_frames := shared_pool s\<rparr>"
  have a: "arena_wf ?a" "\<exists>r \<in> set (arena_records ?a). live r"
    using ok releases(2) by (auto simp: platform_wf_def arena_live_def arena_records_def)
  show ?thesis
  proof (cases "qu_device q \<noteq> iw_device (xa_identity a) \<or> qu_generation q \<noteq> iw_generation (xa_identity a) \<or> qu_evidence_root q = 0")
    case True
    then have r: "isl r" "a' = ?a" using releases(3) by (auto simp: arena_release_def split: if_splits)
    then show ?thesis unfolding releases(1) using ok table_frames_free releases(2)
      by (intro platform_pool_step[OF ok]) (auto simp: platform_wf_def same_pool_def disjnt_def sorted_wrt_append dest: direct_map_wfD(1))
  next
    case False
    obtain receipt b where "release_records ?a = (Ok receipt, b)" "arena_wf b" "free_set (xa_frames b) = stock ?a"
      using release_records_sound[OF a] by metis
    with False releases(3) extent_records[of ?a] have r: "\<not> isl r" "frame_wf (xa_frames a')" "free_set (xa_frames a') = free_set (shared_pool s) \<union> arena_held a"
        "same_pool (shared_pool s) (xa_frames a')"
      by (auto simp: arena_release_def stock_def extent_same_pool dest: arena_wfD(1))
    have disj: "arena_held x \<inter> arena_held a = {}" if "x \<in> set before \<union> set after" for x
      using ok that releases(2) by (auto simp: platform_wf_def sorted_wrt_append disjnt_def)
    have mem: "x \<in> set (pf_arenas s)" if "x \<in> set before \<union> set after" for x using that releases(2) by auto
    have others: "arena_wf (x\<lparr>xa_frames := xa_frames a'\<rparr>)" "arena_live x"
      "arena_held x \<inter> (table_frames (pf_tables s) \<union> free_set (xa_frames a')) = {}" if "x \<in> set before \<union> set after" for x
      using arena_apart[OF ok mem[OF that]] r(3) disj[OF that] by (auto intro!: other_arena[OF ok mem[OF that] r(4)])
    have "table_frames (pf_tables s) \<inter> free_set (xa_frames a') = {}"
      using arena_apart(1)[OF ok, of a] releases(2) r(3) table_frames_free[of "pf_tables s"] ok by (auto simp: platform_wf_def)
    then have "platform_wf F (with_pool s (xa_frames a') (before @ after))"
      by (rule platform_pool_step[OF ok r(4)]) (use ok releases(2) r(3) others in \<open>auto simp: platform_wf_def sorted_wrt_append\<close>)
    with r(1) show ?thesis unfolding releases(1) by simp
  qed
qed

interpretation platform: invariant_system
  "\<lambda>s. direct_map_wf (pf_tables s) \<and> pf_arenas s = [] \<and> table_frames (pf_tables s) \<union> free_set (shared_pool s) = F" platform_step "platform_wf F" for F
proof
  fix s assume "direct_map_wf (pf_tables s) \<and> pf_arenas s = [] \<and> table_frames (pf_tables s) \<union> free_set (shared_pool s) = F"
  then show "platform_wf F s" by (simp add: platform_wf_def platform_frames_def)
qed (rule platform_step_wf)

end
