(* ===== verification/XhciRing.thy ===== *)
theory XhciRing
  imports XhciDma
begin

text \<open>
  The command and event rings of the xHCI driver, \<^verbatim>\<open>src/kernel/boulder/src/drivers/xhci_ring.rs\<close>.
  The storage is a trait in the source and here a record of functions on a state \<open>'m\<close> with errors
  \<open>'e\<close>. The controller is the hardware: its half of the protocol (consume a command whose cycle
  bit is its own, follow the link, post a completion event) is written out from the cycle-bit
  rules the driver programs it for; that model serves the round trip of a command. What the driver
  accepts as a completion is stated for a device that may do anything (\<open>untrusted_step\<close>). Ring indices are \<open>nat\<close>; they stay below 256, so the \<open>u16\<close>
  of the source never wraps.
\<close>

abbreviation (input) TRB_BYTES :: nat where "TRB_BYTES \<equiv> 16"
abbreviation (input) TRBS_PER_PAGE :: nat where "TRBS_PER_PAGE \<equiv> 256"
abbreviation (input) COMMAND_LINK_INDEX :: nat where "COMMAND_LINK_INDEX \<equiv> 255"
abbreviation (input) COMMAND_CAPACITY :: nat where "COMMAND_CAPACITY \<equiv> 255"
abbreviation (input) EVENT_CAPACITY :: nat where "EVENT_CAPACITY \<equiv> 256"
abbreviation (input) TRB_CYCLE :: u32 where "TRB_CYCLE \<equiv> 1"
abbreviation (input) LINK_TOGGLE_CYCLE :: u32 where "LINK_TOGGLE_CYCLE \<equiv> 2"
abbreviation (input) TRB_TYPE_SHIFT :: nat where "TRB_TYPE_SHIFT \<equiv> 10"
abbreviation (input) TRB_TYPE_MASK :: u32 where "TRB_TYPE_MASK \<equiv> 0xfc00"
abbreviation (input) TRB_TYPE_LINK :: u8 where "TRB_TYPE_LINK \<equiv> 6"
abbreviation (input) TRB_TYPE_NO_OP_COMMAND :: u8 where "TRB_TYPE_NO_OP_COMMAND \<equiv> 23"
abbreviation (input) TRB_TYPE_COMMAND_COMPLETION_EVENT :: u8 where "TRB_TYPE_COMMAND_COMPLETION_EVENT \<equiv> 33"
abbreviation (input) COMPLETION_CODE_SUCCESS :: u8 where "COMPLETION_CODE_SUCCESS \<equiv> 1"
abbreviation (input) RING_ROOT_DOMAIN :: u64 where "RING_ROOT_DOMAIN \<equiv> 0x5848434952494e47"
abbreviation (input) RECEIPT_ROOT_DOMAIN :: u64 where "RECEIPT_ROOT_DOMAIN \<equiv> 0x58484349434d4452"
abbreviation (input) COMPLETION_ROOT_DOMAIN :: u64 where "COMPLETION_ROOT_DOMAIN \<equiv> 0x5848434945564e54"

section \<open>Storage and errors\<close>

record ('m, 'e) ring_storage =
  rs_region :: "'m \<Rightarrow> dma_purpose \<Rightarrow> region_record option"
  rs_write :: "dma_purpose \<Rightarrow> nat \<Rightarrow> u8 list \<Rightarrow> 'm \<Rightarrow> ('e + unit) \<times> 'm"
  rs_read :: "'m \<Rightarrow> dma_purpose \<Rightarrow> nat \<Rightarrow> nat \<Rightarrow> 'e + u8 list"

definition arena_storage :: "(xhci_arena, dma_error) ring_storage" where
  "arena_storage =
     \<lparr>rs_region = region,
      rs_write = (\<lambda>purpose offset bytes a.
        case token a purpose of None \<Rightarrow> (Err (MissingRegion purpose), a) | Some t \<Rightarrow> arena_write a t offset bytes),
      rs_read = (\<lambda>a purpose offset len.
        case token a purpose of None \<Rightarrow> Err (MissingRegion purpose) | Some t \<Rightarrow> arena_read a t offset len)\<rparr>"

datatype geometry_error = GeoMissingRegion dma_purpose | RegionNotReady dma_purpose | RegionGenerationMismatch dma_purpose
  | RegionMustBeOnePage dma_purpose | RegionAddressUnaligned dma_purpose | RegionAddressOverflow dma_purpose | RegionsOverlap

datatype 'e ring_error = InvalidRingSecret | GenerationMismatch u32 u32 | Geometry geometry_error | StorageFault 'e
  | CommandBusy | CommandSequenceExhausted | NoOutstandingCommand | ReceiptMismatch | EventPointerReservedBits u8
  | UnexpectedEventType u8 | CompletionPointerMismatch u64 u64 | CompletionVirtualFunctionMismatch u8 | CompletionSlotMismatch u8

section \<open>Transfer request blocks\<close>

record raw_trb =
  trb_parameter :: u64
  trb_status :: u32
  trb_control :: u32

definition trb_ZERO :: raw_trb where
  "trb_ZERO = \<lparr>trb_parameter = 0, trb_status = 0, trb_control = 0\<rparr>"

definition trb_type :: "raw_trb \<Rightarrow> u8" where
  "trb_type t = ucast (drop_bit TRB_TYPE_SHIFT (trb_control t AND TRB_TYPE_MASK))"

definition trb_cycle :: "raw_trb \<Rightarrow> bool" where
  "trb_cycle t \<longleftrightarrow> trb_control t AND TRB_CYCLE \<noteq> 0"

definition trb_encode :: "raw_trb \<Rightarrow> u8 list" where
  "trb_encode t = to_le_bytes (trb_parameter t) @ to_le_bytes (trb_status t) @ to_le_bytes (trb_control t)"

definition trb_decode :: "u8 list \<Rightarrow> raw_trb" where
  "trb_decode bytes =
     \<lparr>trb_parameter = from_le_bytes (take 8 bytes), trb_status = from_le_bytes (take 4 (drop 8 bytes)),
      trb_control = from_le_bytes (take 4 (drop 12 bytes))\<rparr>"

section \<open>Ring memory\<close>

definition publish_trb :: "('m, 'e) ring_storage \<Rightarrow> dma_purpose \<Rightarrow> nat \<Rightarrow> raw_trb \<Rightarrow> bool \<Rightarrow> 'm \<Rightarrow> ('e ring_error + unit) \<times> 'm" where
  "publish_trb S purpose offset t publish_cycle m =
     (let bytes = trb_encode t;
          invisible_control = (if publish_cycle then trb_control t AND NOT TRB_CYCLE else trb_control t OR TRB_CYCLE)
      in case rs_write S purpose (offset + 12) (to_le_bytes invisible_control) m of
           (Err e, m) \<Rightarrow> (Err (StorageFault e), m)
         | (Ok _, m) \<Rightarrow>
             (case rs_write S purpose offset (take 12 bytes) m of
                (Err e, m) \<Rightarrow> (Err (StorageFault e), m)
              | (Ok _, m) \<Rightarrow>
                  (case rs_write S purpose (offset + 12) (to_le_bytes (trb_control t)) m of
                     (Err e, m) \<Rightarrow> (Err (StorageFault e), m)
                   | (Ok _, m) \<Rightarrow> (Ok (), m))))"

definition link_trb :: "u64 \<Rightarrow> bool \<Rightarrow> raw_trb" where
  "link_trb command_device_base cycle =
     \<lparr>trb_parameter = command_device_base, trb_status = 0,
      trb_control = of_bool cycle OR LINK_TOGGLE_CYCLE OR push_bit TRB_TYPE_SHIFT (ucast TRB_TYPE_LINK)\<rparr>"

definition write_link :: "('m, 'e) ring_storage \<Rightarrow> u64 \<Rightarrow> bool \<Rightarrow> 'm \<Rightarrow> ('e ring_error + unit) \<times> 'm" where
  "write_link S command_device_base cycle m =
     publish_trb S CommandRing (COMMAND_LINK_INDEX * TRB_BYTES) (link_trb command_device_base cycle) cycle m"

fun zero_ring_from :: "('m, 'e) ring_storage \<Rightarrow> dma_purpose \<Rightarrow> nat list \<Rightarrow> 'm \<Rightarrow> ('e ring_error + unit) \<times> 'm" where
  "zero_ring_from S purpose [] m = (Ok (), m)"
| "zero_ring_from S purpose (index # rest) m =
     (case rs_write S purpose (index * TRB_BYTES) (trb_encode trb_ZERO) m of
        (Err e, m) \<Rightarrow> (Err (StorageFault e), m)
      | (Ok _, m) \<Rightarrow> zero_ring_from S purpose rest m)"

definition zero_ring :: "('m, 'e) ring_storage \<Rightarrow> dma_purpose \<Rightarrow> 'm \<Rightarrow> ('e ring_error + unit) \<times> 'm" where
  "zero_ring S purpose m = zero_ring_from S purpose [0 ..< TRBS_PER_PAGE] m"

definition write_erst :: "('m, 'e) ring_storage \<Rightarrow> u64 \<Rightarrow> 'm \<Rightarrow> ('e ring_error + unit) \<times> 'm" where
  "write_erst S event_device_base m =
     (let entry = to_le_bytes event_device_base @ to_le_bytes (of_nat EVENT_CAPACITY :: u32) @ replicate 4 0 in
      case rs_write S EventRingSegmentTable 0 entry m of
        (Err e, m) \<Rightarrow> (Err (StorageFault e), m)
      | (Ok _, m) \<Rightarrow> (Ok (), m))"

definition read_trb :: "('m, 'e) ring_storage \<Rightarrow> dma_purpose \<Rightarrow> nat \<Rightarrow> 'm \<Rightarrow> 'e ring_error + raw_trb" where
  "read_trb S purpose offset m =
     (case rs_read S m purpose offset TRB_BYTES of Err e \<Rightarrow> Err (StorageFault e) | Ok bytes \<Rightarrow> Ok (trb_decode bytes))"

section \<open>The machine\<close>

record outstanding_command =
  oc_generation :: u32
  oc_sequence :: u32
  oc_command_index :: nat
  oc_producer_cycle :: bool
  oc_command_device_address :: u64
  oc_receipt_root :: u64

type_synonym command_receipt = outstanding_command

record completion_evidence =
  ce_generation :: u32
  ce_sequence :: u32
  ce_completion_code :: u8
  ce_completion_parameter :: u32
  ce_consumed_event_index :: nat
  ce_consumed_event_cycle :: bool
  ce_next_event_dequeue_pointer :: u64
  ce_completion_root :: u64

definition evidence_successful :: "completion_evidence \<Rightarrow> bool" where
  "evidence_successful e \<longleftrightarrow> ce_completion_code e = COMPLETION_CODE_SUCCESS"

record ring_machine =
  rm_generation :: u32
  rm_command_device_base :: u64
  rm_event_device_base :: u64
  rm_erst_device_base :: u64
  rm_producer_index :: nat
  rm_producer_cycle :: bool
  rm_event_index :: nat
  rm_event_cycle :: bool
  rm_next_sequence :: u32
  rm_outstanding :: "outstanding_command option"
  rm_ring_root :: u64

record ring_register_program =
  rp_command_ring_control :: u64
  rp_event_ring_segment_table_size :: u16
  rp_event_ring_segment_table_base :: u64
  rp_event_ring_dequeue_pointer :: u64

definition register_program :: "ring_machine \<Rightarrow> ring_register_program" where
  "register_program s =
     \<lparr>rp_command_ring_control = rm_command_device_base s OR ucast TRB_CYCLE, rp_event_ring_segment_table_size = 1,
      rp_event_ring_segment_table_base = rm_erst_device_base s, rp_event_ring_dequeue_pointer = rm_event_device_base s\<rparr>"

definition ring_mix :: "u64 \<Rightarrow> u64 \<Rightarrow> u64" where
  "ring_mix state w =
     (let state = state XOR w * 0x9e3779b97f4a7c15;
          state = state XOR drop_bit 30 state;
          state = state * 0xbf58476d1ce4e5b9;
          state = state XOR drop_bit 27 state;
          state = state * 0x94d049bb133111eb
      in state XOR drop_bit 31 state)"

definition ring_canonical_root :: "u64 \<Rightarrow> u64 \<Rightarrow> u64" where
  "ring_canonical_root root domain = (if root = 0 then domain else root)"

definition receipt_root :: "u64 \<Rightarrow> u32 \<Rightarrow> u32 \<Rightarrow> nat \<Rightarrow> bool \<Rightarrow> u64 \<Rightarrow> u64" where
  "receipt_root ring_root generation sequence index cycle address =
     (let root = ring_mix (ring_root XOR RECEIPT_ROOT_DOMAIN) (ucast generation);
          root = ring_mix root (ucast sequence);
          root = ring_mix root (of_nat index);
          root = ring_mix root (of_bool cycle);
          root = ring_mix root address
      in ring_canonical_root root RECEIPT_ROOT_DOMAIN)"

definition receipt_matches :: "outstanding_command \<Rightarrow> command_receipt \<Rightarrow> bool" where
  "receipt_matches expected receipt \<longleftrightarrow> oc_generation expected = oc_generation receipt
     \<and> oc_sequence expected = oc_sequence receipt \<and> oc_command_index expected = oc_command_index receipt
     \<and> oc_producer_cycle expected = oc_producer_cycle receipt
     \<and> oc_command_device_address expected = oc_command_device_address receipt
     \<and> oc_receipt_root expected = oc_receipt_root receipt"

section \<open>Initialization\<close>

definition validated_region :: "('m, 'e) ring_storage \<Rightarrow> dma_purpose \<Rightarrow> u32 option \<Rightarrow> 'm \<Rightarrow> 'e ring_error + region_record" where
  "validated_region S purpose expected_generation m =
     (case rs_region S m purpose of None \<Rightarrow> Err (Geometry (GeoMissingRegion purpose)) | Some r \<Rightarrow>
      if rr_phase r \<noteq> Ready then Err (Geometry (RegionNotReady purpose))
      else if rr_purpose r \<noteq> purpose \<or> (case expected_generation of None \<Rightarrow> False | Some v \<Rightarrow> v \<noteq> rr_generation r)
      then Err (Geometry (RegionGenerationMismatch purpose))
      else if rr_page_count r \<noteq> 1 \<or> region_byte_length r \<noteq> 4096 then Err (Geometry (RegionMustBeOnePage purpose))
      else if rr_device_address_start r mod PAGE_SIZE \<noteq> 0 then Err (Geometry (RegionAddressUnaligned purpose))
      else
        (case checked_add (rr_device_address_start r) PAGE_SIZE of
           None \<Rightarrow> Err (Geometry (RegionAddressOverflow purpose))
         | Some expected_end \<Rightarrow>
             if expected_end \<noteq> rr_device_address_end r then Err (Geometry (RegionMustBeOnePage purpose)) else Ok r))"

definition overlaps :: "region_record \<Rightarrow> region_record \<Rightarrow> bool" where
  "overlaps left right \<longleftrightarrow> rr_device_address_start left < rr_device_address_end right
     \<and> rr_device_address_start right < rr_device_address_end left"

definition ring_root :: "u64 \<Rightarrow> u32 \<Rightarrow> region_record \<Rightarrow> region_record \<Rightarrow> region_record \<Rightarrow> u64" where
  "ring_root secret generation command event erst =
     (let root = ring_mix (secret XOR RING_ROOT_DOMAIN) (ucast generation);
          root = ring_mix root (rr_region_root command);
          root = ring_mix root (rr_region_root event);
          root = ring_mix root (rr_region_root erst);
          root = ring_mix root (rr_device_address_start command);
          root = ring_mix root (rr_device_address_start event);
          root = ring_mix root (rr_device_address_start erst);
          root = ring_mix root (of_nat COMMAND_CAPACITY);
          root = ring_mix root (of_nat EVENT_CAPACITY)
      in ring_canonical_root root RING_ROOT_DOMAIN)"

definition initialize_regions :: "('m, 'e) ring_storage \<Rightarrow> region_record \<Rightarrow> region_record \<Rightarrow> 'm \<Rightarrow> ('e ring_error + unit) \<times> 'm" where
  "initialize_regions S command event m =
     (case zero_ring S CommandRing m of (Err e, m) \<Rightarrow> (Err e, m) | (Ok _, m) \<Rightarrow>
     (case zero_ring S EventRing m of (Err e, m) \<Rightarrow> (Err e, m) | (Ok _, m) \<Rightarrow>
     (case write_link S (rr_device_address_start command) True m of (Err e, m) \<Rightarrow> (Err e, m) | (Ok _, m) \<Rightarrow>
      write_erst S (rr_device_address_start event) m)))"

definition initialize_inner :: "('m, 'e) ring_storage \<Rightarrow> u64 \<Rightarrow> u32 option \<Rightarrow> 'm \<Rightarrow> ('e ring_error + ring_machine) \<times> 'm" where
  "initialize_inner S secret expected_generation m =
     (if secret = 0 then (Err InvalidRingSecret, m)
      else
        (case validated_region S CommandRing None m of Err e \<Rightarrow> (Err e, m) | Ok command \<Rightarrow>
         let generation = rr_generation command in
         case (case expected_generation of None \<Rightarrow> None | Some expected \<Rightarrow> if expected \<noteq> generation then Some expected else None) of
           Some expected \<Rightarrow> (Err (GenerationMismatch expected generation), m)
         | None \<Rightarrow>
        (case validated_region S EventRing (Some generation) m of Err e \<Rightarrow> (Err e, m) | Ok event \<Rightarrow>
        (case validated_region S EventRingSegmentTable (Some generation) m of Err e \<Rightarrow> (Err e, m) | Ok erst \<Rightarrow>
         if overlaps command event \<or> overlaps command erst \<or> overlaps event erst then (Err (Geometry RegionsOverlap), m)
         else
           (case initialize_regions S command event m of
              (Err e, m) \<Rightarrow> (Err e, m)
            | (Ok _, m) \<Rightarrow>
                (Ok \<lparr>rm_generation = generation, rm_command_device_base = rr_device_address_start command,
                     rm_event_device_base = rr_device_address_start event, rm_erst_device_base = rr_device_address_start erst,
                     rm_producer_index = 0, rm_producer_cycle = True, rm_event_index = 0, rm_event_cycle = True,
                     rm_next_sequence = 1, rm_outstanding = None,
                     rm_ring_root = ring_root secret generation command event erst\<rparr>, m))))))"

definition initialize_for_generation :: "('m, 'e) ring_storage \<Rightarrow> u32 \<Rightarrow> u64 \<Rightarrow> 'm \<Rightarrow> ('e ring_error + ring_machine) \<times> 'm" where
  "initialize_for_generation S expected_generation secret m = initialize_inner S secret (Some expected_generation) m"

definition initialize :: "('m, 'e) ring_storage \<Rightarrow> u64 \<Rightarrow> 'm \<Rightarrow> ('e ring_error + ring_machine) \<times> 'm" where
  "initialize S secret m = initialize_inner S secret None m"

section \<open>Commands\<close>

definition no_op_trb :: "bool \<Rightarrow> raw_trb" where
  "no_op_trb cycle = \<lparr>trb_parameter = 0, trb_status = 0,
     trb_control = of_bool cycle OR push_bit TRB_TYPE_SHIFT (ucast TRB_TYPE_NO_OP_COMMAND)\<rparr>"

definition record_submission :: "u64 \<Rightarrow> ring_machine \<Rightarrow> command_receipt \<times> ring_machine" where
  "record_submission command_device_address s =
     (let index = rm_producer_index s;
          outstanding = \<lparr>oc_generation = rm_generation s, oc_sequence = rm_next_sequence s, oc_command_index = index,
            oc_producer_cycle = rm_producer_cycle s, oc_command_device_address = command_device_address,
            oc_receipt_root = receipt_root (rm_ring_root s) (rm_generation s) (rm_next_sequence s) index
              (rm_producer_cycle s) command_device_address\<rparr>;
          s = s\<lparr>rm_outstanding := Some outstanding, rm_next_sequence := rm_next_sequence s + 1, rm_producer_index := index + 1\<rparr>;
          s = (if rm_producer_index s = COMMAND_LINK_INDEX
               then s\<lparr>rm_producer_index := 0, rm_producer_cycle := \<not> rm_producer_cycle s\<rparr> else s)
      in (outstanding, s))"

definition submit_no_op :: "('m, 'e) ring_storage \<Rightarrow> ring_machine \<Rightarrow> 'm
    \<Rightarrow> ('e ring_error + command_receipt) \<times> ring_machine \<times> 'm" where
  "submit_no_op S s m =
     (if rm_outstanding s \<noteq> None then (Err CommandBusy, s, m)
      else if rm_next_sequence s = - 1 then (Err CommandSequenceExhausted, s, m)
      else
        (let index = rm_producer_index s in
         case (if index + 1 = COMMAND_LINK_INDEX then write_link S (rm_command_device_base s) (rm_producer_cycle s) m else (Ok (), m)) of
           (Err e, m) \<Rightarrow> (Err e, s, m)
         | (Ok _, m) \<Rightarrow>
        (case publish_trb S CommandRing (index * TRB_BYTES) (no_op_trb (rm_producer_cycle s)) (rm_producer_cycle s) m of
           (Err e, m) \<Rightarrow> (Err e, s, m)
         | (Ok _, m) \<Rightarrow>
        (case checked_add (rm_command_device_base s) (of_nat (index * TRB_BYTES)) of
           None \<Rightarrow> (Err (Geometry (RegionAddressOverflow CommandRing)), s, m)
         | Some command_device_address \<Rightarrow>
             (case record_submission command_device_address s of (receipt, s) \<Rightarrow> (Ok receipt, s, m))))))"

definition check_completion :: "outstanding_command \<Rightarrow> raw_trb \<Rightarrow> 'e ring_error + unit" where
  "check_completion expected event =
     (if trb_type event \<noteq> TRB_TYPE_COMMAND_COMPLETION_EVENT then Err (UnexpectedEventType (trb_type event))
      else if trb_parameter event AND 0xf \<noteq> 0 then Err (EventPointerReservedBits (ucast (trb_parameter event AND 0xf)))
      else if trb_parameter event \<noteq> oc_command_device_address expected
      then Err (CompletionPointerMismatch (oc_command_device_address expected) (trb_parameter event))
      else
        (let virtual_function = ucast (drop_bit 16 (trb_control event) AND 0xff) in
         if virtual_function \<noteq> 0 then Err (CompletionVirtualFunctionMismatch virtual_function)
         else
           (let slot = ucast (drop_bit 24 (trb_control event)) in
            if slot \<noteq> 0 then Err (CompletionSlotMismatch slot) else Ok ())))"

definition advance_event :: "ring_machine \<Rightarrow> ring_machine" where
  "advance_event s =
     (let s = s\<lparr>rm_event_index := rm_event_index s + 1\<rparr> in
      if rm_event_index s = EVENT_CAPACITY then s\<lparr>rm_event_index := 0, rm_event_cycle := \<not> rm_event_cycle s\<rparr> else s)"

definition completion_root :: "ring_machine \<Rightarrow> outstanding_command \<Rightarrow> raw_trb \<Rightarrow> u64 \<Rightarrow> u64" where
  "completion_root s expected event next_pointer =
     (let root = ring_mix (rm_ring_root s XOR COMPLETION_ROOT_DOMAIN) (oc_receipt_root expected);
          root = ring_mix root (trb_parameter event);
          root = ring_mix root (ucast (trb_status event));
          root = ring_mix root (ucast (trb_control event));
          root = ring_mix root (of_nat (rm_event_index s));
          root = ring_mix root (of_bool (rm_event_cycle s));
          root = ring_mix root next_pointer
      in ring_canonical_root root COMPLETION_ROOT_DOMAIN)"

definition consume_completion :: "outstanding_command \<Rightarrow> raw_trb \<Rightarrow> ring_machine \<Rightarrow> completion_evidence \<times> ring_machine" where
  "consume_completion expected event s =
     (let s' = (advance_event s)\<lparr>rm_outstanding := None\<rparr>;
          next_pointer = rm_event_device_base s + of_nat (rm_event_index s') * of_nat TRB_BYTES
      in (\<lparr>ce_generation = rm_generation s, ce_sequence = oc_sequence expected,
           ce_completion_code = ucast (drop_bit 24 (trb_status event)),
           ce_completion_parameter = trb_status event AND 0x00ffffff,
           ce_consumed_event_index = rm_event_index s, ce_consumed_event_cycle = rm_event_cycle s,
           ce_next_event_dequeue_pointer = next_pointer,
           ce_completion_root = completion_root s expected event next_pointer\<rparr>, s'))"

definition poll_no_op_completion :: "('m, 'e) ring_storage \<Rightarrow> command_receipt \<Rightarrow> ring_machine \<Rightarrow> 'm
    \<Rightarrow> ('e ring_error + completion_evidence option) \<times> ring_machine" where
  "poll_no_op_completion S receipt s m =
     (case rm_outstanding s of None \<Rightarrow> (Err NoOutstandingCommand, s) | Some expected \<Rightarrow>
      if \<not> receipt_matches expected receipt then (Err ReceiptMismatch, s)
      else
        (case read_trb S EventRing (rm_event_index s * TRB_BYTES) m of Err e \<Rightarrow> (Err e, s) | Ok event \<Rightarrow>
         if trb_cycle event \<noteq> rm_event_cycle s then (Ok None, s)
         else
           (case check_completion expected event of
              Err e \<Rightarrow> (Err e, s)
            | Ok _ \<Rightarrow> (case consume_completion expected event s of (evidence, s) \<Rightarrow> (Ok (Some evidence), s)))))"

section \<open>The controller\<close>

text \<open>The hardware's side of the rings: a dequeue position with its consumer cycle on the command ring, an
  enqueue position with its producer cycle on the event ring, and the addresses of the commands it
  has executed.\<close>

record ring_controller =
  ct_dequeue :: nat
  ct_cycle :: bool
  ct_enqueue :: nat
  ct_event_cycle :: bool
  ct_executed :: "u64 list"

definition trb_at :: "u8 list \<Rightarrow> nat \<Rightarrow> raw_trb" where
  "trb_at bytes index = trb_decode (take TRB_BYTES (drop (index * TRB_BYTES) bytes))"

definition controller_start :: ring_controller where
  "controller_start = \<lparr>ct_dequeue = 0, ct_cycle = True, ct_enqueue = 0, ct_event_cycle = True, ct_executed = []\<rparr>"

definition completion_trb :: "u64 \<Rightarrow> u8 \<Rightarrow> bool \<Rightarrow> raw_trb" where
  "completion_trb address code cycle = \<lparr>trb_parameter = address, trb_status = push_bit 24 (ucast code),
     trb_control = of_bool cycle OR push_bit TRB_TYPE_SHIFT (ucast TRB_TYPE_COMMAND_COMPLETION_EVENT)\<rparr>"

text \<open>Given the bytes of the command ring: nothing to do, following the link, or executing the command
  at the dequeue position, which yields the event to post.\<close>

datatype controller_action = Idle | FollowLink ring_controller | Execute raw_trb ring_controller

definition controller_next :: "u64 \<Rightarrow> u8 \<Rightarrow> u8 list \<Rightarrow> ring_controller \<Rightarrow> controller_action" where
  "controller_next base code ring c =
     (let t = trb_at ring (ct_dequeue c) in
      if trb_cycle t \<noteq> ct_cycle c then Idle
      else if trb_type t = TRB_TYPE_LINK then
        FollowLink (c\<lparr>ct_dequeue := unat (trb_parameter t - base) div TRB_BYTES,
                      ct_cycle := (if trb_control t AND LINK_TOGGLE_CYCLE \<noteq> 0 then \<not> ct_cycle c else ct_cycle c)\<rparr>)
      else
        (let address = base + of_nat (ct_dequeue c * TRB_BYTES);
             wraps = ct_enqueue c + 1 = EVENT_CAPACITY
         in Execute (completion_trb address code (ct_event_cycle c))
              (c\<lparr>ct_dequeue := ct_dequeue c + 1, ct_executed := ct_executed c @ [address],
                 ct_enqueue := (if wraps then 0 else ct_enqueue c + 1),
                 ct_event_cycle := (if wraps then \<not> ct_event_cycle c else ct_event_cycle c)\<rparr>)))"

section \<open>Blocks in ring memory\<close>

lemma trb_decode_encode [simp]: "trb_decode (trb_encode t) = t"
  by (simp add: trb_decode_def trb_encode_def)

lemma length_trb_encode [simp]: "length (trb_encode t) = 16"
  by (simp add: trb_encode_def)

lemma take_drop_overlay:
  assumes "offset + length bs \<le> length xs"
  shows "j + n \<le> offset \<or> offset + length bs \<le> j \<Longrightarrow> take n (drop j (overlay xs offset bs)) = take n (drop j xs)"
    and "j \<le> offset \<Longrightarrow> offset + length bs \<le> j + n \<Longrightarrow> take n (drop j (overlay xs offset bs)) = overlay (take n (drop j xs)) (offset - j) bs"
proof -
  show "j + n \<le> offset \<or> offset + length bs \<le> j \<Longrightarrow> take n (drop j (overlay xs offset bs)) = take n (drop j xs)"
    using assms by (intro nth_equalityI) (auto simp: nth_overlay)
  assume j: "j \<le> offset" "offset + length bs \<le> j + n"
  show "take n (drop j (overlay xs offset bs)) = overlay (take n (drop j xs)) (offset - j) bs"
  proof -
    obtain d where d: "offset = j + d" using j(1) le_Suc_ex by blast
    have fits: "d + length bs \<le> length (take n (drop j xs))" using assms j by (simp add: d)
    show ?thesis
    proof (rule nth_equalityI)
      show "length (take n (drop j (overlay xs offset bs))) = length (overlay (take n (drop j xs)) (offset - j) bs)"
        using assms fits by (simp add: d)
      show "take n (drop j (overlay xs offset bs)) ! i = overlay (take n (drop j xs)) (offset - j) bs ! i"
        if "i < length (take n (drop j (overlay xs offset bs)))" for i
        using that assms fits by (auto simp: nth_overlay d)
    qed
  qed
qed

lemma trb_at_other:
  assumes "length ring = 4096" and "i < 256" and "j \<noteq> i" and "offset + length bs \<le> 16"
  shows "trb_at (overlay ring (i * 16 + offset) bs) j = trb_at ring j"
proof -
  have "j * 16 + 16 \<le> i * 16 + offset \<or> i * 16 + offset + length bs \<le> j * 16" using assms(3,4) by arith
  moreover have "i * 16 + offset + length bs \<le> length ring" using assms by simp
  ultimately show ?thesis unfolding trb_at_def by (subst take_drop_overlay(1)) auto
qed

lemma trb_at_same:
  assumes "length ring = 4096" and "i < 256" and "offset + length bs \<le> 16"
  shows "trb_at (overlay ring (i * 16 + offset) bs) i = trb_decode (overlay (take 16 (drop (i * 16) ring)) offset bs)"
  using assms unfolding trb_at_def by (subst take_drop_overlay(2)) auto

lemma trb_at_control:
  assumes "length ring = 4096" and "i < 256"
  shows "trb_at (overlay ring (i * 16 + 12) (to_le_bytes control)) j
    = (if j = i then (trb_at ring i)\<lparr>trb_control := control\<rparr> else trb_at ring j)"
proof (cases "j = i")
  case True
  have len: "length (take 16 (drop (i * 16) ring)) = 16" using assms by simp
  have "trb_decode (overlay bytes 12 (to_le_bytes control)) = (trb_decode bytes)\<lparr>trb_control := control\<rparr>" if "length bytes = 16" for bytes
    using that by (simp add: trb_decode_def overlay_def take_drop)
  with True trb_at_same[OF assms, of 12 "to_le_bytes control"] len show ?thesis by (simp add: trb_at_def)
qed (use trb_at_other[OF assms, of j 12 "to_le_bytes control"] in simp)

lemma trb_at_payload:
  assumes "length ring = 4096" and "i < 256"
  shows "trb_at (overlay ring (i * 16) (take 12 (trb_encode t))) j
    = (if j = i then t\<lparr>trb_control := trb_control (trb_at ring i)\<rparr> else trb_at ring j)"
proof (cases "j = i")
  case True
  have len: "length (take 16 (drop (i * 16) ring)) = 16" using assms by simp
  have "trb_decode (overlay bytes 0 (take 12 (trb_encode t))) = t\<lparr>trb_control := trb_control (trb_decode bytes)\<rparr>" if "length bytes = 16" for bytes
    using that by (simp add: trb_decode_def overlay_def trb_encode_def)
  with True trb_at_same[OF assms, of 0 "take 12 (trb_encode t)"] len show ?thesis by (simp add: trb_at_def)
qed (use trb_at_other[OF assms, of j 0 "take 12 (trb_encode t)"] in simp)

lemma trb_at_block:
  assumes "length ring = 4096" and "i < 256"
  shows "trb_at (overlay ring (i * 16) (trb_encode t)) j = (if j = i then t else trb_at ring j)"
proof (cases "j = i")
  case True
  have "overlay bytes 0 (trb_encode t) = trb_encode t" if "length bytes = 16" for bytes using that by (simp add: overlay_def)
  with True trb_at_same[OF assms, of 0 "trb_encode t"] assms show ?thesis by simp
qed (use trb_at_other[OF assms, of j 0 "trb_encode t"] in simp)

definition invisible :: "raw_trb \<Rightarrow> bool \<Rightarrow> u32" where
  "invisible t cycle = (if cycle then trb_control t AND NOT TRB_CYCLE else trb_control t OR TRB_CYCLE)"

lemma invisible_control:
  "trb_cycle (u\<lparr>trb_control := invisible t cycle\<rparr>) = (\<not> cycle)"
  "trb_type (u\<lparr>trb_control := invisible t cycle\<rparr>) = trb_type t"
  "invisible t cycle AND LINK_TOGGLE_CYCLE = trb_control t AND LINK_TOGGLE_CYCLE"
proof -
  have one: "(1 :: u32) = mask 1" "(0xfc00 :: u32) = push_bit 10 (mask 6)" "(2 :: u32) = push_bit 1 1"
    by (simp_all add: mask_eq_exp_minus_1 push_bit_eq_mult)
  show "trb_cycle (u\<lparr>trb_control := invisible t cycle\<rparr>) = (\<not> cycle)"
    unfolding trb_cycle_def invisible_def by (simp add: and_one_eq odd_iff_mod_2_eq_one[symmetric] even_or_iff even_and_iff)
  show "trb_type (u\<lparr>trb_control := invisible t cycle\<rparr>) = trb_type t"
    unfolding trb_type_def invisible_def one by (rule bit_word_eqI) (auto simp: bit_simps)
  show "invisible t cycle AND LINK_TOGGLE_CYCLE = trb_control t AND LINK_TOGGLE_CYCLE"
    unfolding invisible_def one by (rule bit_word_eqI) (auto simp: bit_simps)
qed

lemma trb_fields:
  "trb_cycle (no_op_trb c) = c" "trb_type (no_op_trb c) = TRB_TYPE_NO_OP_COMMAND"
  "trb_cycle (link_trb b c) = c" "trb_type (link_trb b c) = TRB_TYPE_LINK" "trb_control (link_trb b c) AND LINK_TOGGLE_CYCLE \<noteq> 0"
  "trb_parameter (link_trb b c) = b" "trb_cycle (completion_trb a code c) = c"
  "trb_type (completion_trb a code c) = TRB_TYPE_COMMAND_COMPLETION_EVENT"
  by (cases c; simp add: trb_cycle_def trb_type_def no_op_trb_def link_trb_def completion_trb_def)+

section \<open>Laps around a ring\<close>

text \<open>The cycle bit of slot \<open>i\<close> of a ring of \<open>C\<close> slots after \<open>n\<close> blocks have been produced into it.\<close>

definition lap :: "nat \<Rightarrow> nat \<Rightarrow> nat \<Rightarrow> bool" where
  "lap C n i = (if i < n mod C then even (n div C) else odd (n div C))"

lemma Suc_mod_div:
  fixes n :: nat
  assumes "0 < C"
  shows "Suc n mod C = (if Suc (n mod C) = C then 0 else Suc (n mod C))"
    and "Suc n div C = (if Suc (n mod C) = C then Suc (n div C) else n div C)"
  using assms by (simp_all add: mod_Suc div_Suc)

lemma lap_Suc:
  assumes "i < C"
  shows "lap C (Suc n) i = (if i = n mod C then even (n div C) else lap C n i)"
proof -
  have C: "0 < C" using assms by simp
  show ?thesis
  proof (cases "Suc (n mod C) = C")
    case True
    then have "i \<noteq> n mod C \<Longrightarrow> i < n mod C" using assms by linarith
    with True show ?thesis by (auto simp: lap_def Suc_mod_div[OF C])
  next
    case False
    then show ?thesis by (auto simp: lap_def Suc_mod_div[OF C])
  qed
qed

lemma lap_here: "lap C n (n mod C) = odd (n div C)"
  by (simp add: lap_def)

lemma lap_behind: "0 < C \<Longrightarrow> lap C (Suc n) (n mod C) = even (n div C)"
  by (subst lap_Suc) simp_all

section \<open>Storage contract\<close>

definition ring_purposes :: "dma_purpose set" where
  "ring_purposes = {CommandRing, EventRing, EventRingSegmentTable}"

text \<open>What the rings rely on: every access that fits a ring page succeeds, a write changes just the bytes
  it names, a failing write changes nothing, a read returns the bytes of the page, and the
  controller's writes to the event ring land there.  \<open>view\<close> is the contents of a region's page as
  the device sees it.\<close>

locale ring_memory =
  fixes S :: "('m, 'e) ring_storage" and ok :: "'m \<Rightarrow> bool" and view :: "'m \<Rightarrow> dma_purpose \<Rightarrow> u8 list"
    and post :: "nat \<Rightarrow> u8 list \<Rightarrow> 'm \<Rightarrow> 'm"
  assumes view_length: "ok m \<Longrightarrow> p \<in> ring_purposes \<Longrightarrow> length (view m p) = 4096"
    and write_Ok: "ok m \<Longrightarrow> p \<in> ring_purposes \<Longrightarrow> rs_write S p offset bytes m = (Ok u, m')
      \<Longrightarrow> ok m' \<and> rs_region S m' = rs_region S m \<and> offset + length bytes \<le> 4096
        \<and> (\<forall>q \<in> ring_purposes. view m' q = (if q = p then overlay (view m p) offset bytes else view m q))"
    and write_Err: "ok m \<Longrightarrow> p \<in> ring_purposes \<Longrightarrow> rs_write S p offset bytes m = (Err e, m') \<Longrightarrow> m' = m"
    and write_total: "ok m \<Longrightarrow> p \<in> ring_purposes \<Longrightarrow> bytes \<noteq> [] \<Longrightarrow> offset + length bytes \<le> 4096
      \<Longrightarrow> fst (rs_write S p offset bytes m) = Ok ()"
    and read_view: "ok m \<Longrightarrow> p \<in> ring_purposes \<Longrightarrow> 0 < n \<Longrightarrow> offset + n \<le> 4096
      \<Longrightarrow> rs_read S m p offset n = Ok (take n (drop offset (view m p)))"
    and post_view: "ok m \<Longrightarrow> offset + length bytes \<le> 4096
      \<Longrightarrow> ok (post offset bytes m) \<and> rs_region S (post offset bytes m) = rs_region S m
        \<and> (\<forall>q \<in> ring_purposes. view (post offset bytes m) q = (if q = EventRing then overlay (view m EventRing) offset bytes else view m q))"
begin

definition effect :: "'m \<Rightarrow> 'm \<Rightarrow> dma_purpose \<Rightarrow> nat \<Rightarrow> raw_trb \<Rightarrow> bool" where
  "effect m m' p i t \<longleftrightarrow> ok m' \<and> rs_region S m' = rs_region S m
     \<and> (\<forall>q \<in> ring_purposes. q \<noteq> p \<longrightarrow> view m' q = view m q)
     \<and> (\<forall>j. trb_at (view m' p) j = (if j = i then t else trb_at (view m p) j))"

lemma effect_refl: "ok m \<Longrightarrow> effect m m p i (trb_at (view m p) i)"
  by (simp add: effect_def)

lemma effect_trans: "effect m m' p i t \<Longrightarrow> effect m' m'' p i u \<Longrightarrow> effect m m'' p i u"
  by (auto simp: effect_def)

lemma effect_here: "effect m m' p i t \<Longrightarrow> trb_at (view m' p) i = t"
  by (simp add: effect_def)

lemma effect_ok: "effect m m' p i t \<Longrightarrow> ok m'"
  by (simp add: effect_def)

lemma write_control:
  assumes "ok m" and "p \<in> ring_purposes" and "i < 256" and "rs_write S p (i * 16 + 12) (to_le_bytes c) m = (Ok u, m')"
  shows "effect m m' p i ((trb_at (view m p) i)\<lparr>trb_control := c\<rparr>)"
  using write_Ok[OF assms(1,2,4)] trb_at_control[OF view_length[OF assms(1,2)] assms(3)] assms(2) by (simp add: effect_def)

lemma write_payload:
  assumes "ok m" and "p \<in> ring_purposes" and "i < 256" and "rs_write S p (i * 16) (take 12 (trb_encode t)) m = (Ok u, m')"
  shows "effect m m' p i (t\<lparr>trb_control := trb_control (trb_at (view m p) i)\<rparr>)"
  using write_Ok[OF assms(1,2,4)] trb_at_payload[OF view_length[OF assms(1,2)] assms(3)] assms(2) by (simp add: effect_def)

lemma write_block:
  assumes "ok m" and "p \<in> ring_purposes" and "i < 256" and "rs_write S p (i * 16) (trb_encode t) m = (Ok u, m')"
  shows "effect m m' p i t"
  using write_Ok[OF assms(1,2,4)] trb_at_block[OF view_length[OF assms(1,2)] assms(3)] assms(2) by (simp add: effect_def)

lemma write_succeeds:
  assumes "ok m" and "p \<in> ring_purposes" and "bytes \<noteq> []" and "offset + length bytes \<le> 4096"
  obtains m' where "rs_write S p offset bytes m = (Ok (), m')"
  using write_total[OF assms] by (cases "rs_write S p offset bytes m") auto

text \<open>Publication of a block: complete on success, and otherwise the slot keeps the old block or
  shows one whose cycle bit hides it.\<close>

lemma publish_cases:
  assumes "ok m" and "p \<in> ring_purposes" and "i < 256" and "publish_trb S p (i * 16) t cycle m = (r, m')"
  obtains (complete) "r = Ok ()" and "effect m m' p i t"
  | (hidden) e u where "r = Err e" and "effect m m' p i u"
      and "u \<in> {trb_at (view m p) i, (trb_at (view m p) i)\<lparr>trb_control := invisible t cycle\<rparr>, t\<lparr>trb_control := invisible t cycle\<rparr>}"
proof -
  let ?c = "to_le_bytes (invisible t cycle)"
  obtain r1 m1 where w1: "rs_write S p (i * 16 + 12) ?c m = (r1, m1)" by fastforce
  show thesis
  proof (cases r1)
    case (Inl e)
    with assms w1 write_Err[OF assms(1,2) w1[unfolded Inl]] show thesis
      by (intro hidden[of "StorageFault e" "trb_at (view m p) i"]) (auto simp: publish_trb_def invisible_def Let_def intro: effect_refl)
  next
    case (Inr u1)
    note e1 = write_control[OF assms(1-3) w1[unfolded Inr]]
    obtain r2 m2 where w2: "rs_write S p (i * 16) (take 12 (trb_encode t)) m1 = (r2, m2)" by fastforce
    show thesis
    proof (cases r2)
      case (Inl e)
      with assms(4) w1 w2 \<open>r1 = Inr u1\<close> e1 write_Err[OF effect_ok[OF e1] assms(2) w2[unfolded Inl]] show thesis
        by (intro hidden[of "StorageFault e" "(trb_at (view m p) i)\<lparr>trb_control := invisible t cycle\<rparr>"])
          (auto simp: publish_trb_def invisible_def Let_def)
    next
      case (Inr u2)
      have e2: "effect m1 m2 p i (t\<lparr>trb_control := invisible t cycle\<rparr>)"
        using write_payload[OF effect_ok[OF e1] assms(2,3) w2[unfolded Inr]] effect_here[OF e1] by simp
      obtain r3 m3 where w3: "rs_write S p (i * 16 + 12) (to_le_bytes (trb_control t)) m2 = (r3, m3)" by fastforce
      have run: "r = (case r3 of Err e \<Rightarrow> Err (StorageFault e) | Ok _ \<Rightarrow> Ok ())" "m' = m3"
        using assms(4) w1 w2 w3 \<open>r1 = Inr u1\<close> Inr by (auto simp: publish_trb_def invisible_def Let_def split: sum.splits)
      show thesis
      proof (cases r3)
        case (Inl e)
        with run effect_trans[OF e1 e2] write_Err[OF effect_ok[OF e2] assms(2) w3[unfolded Inl]] show thesis
          by (intro hidden[of "StorageFault e" "t\<lparr>trb_control := invisible t cycle\<rparr>"]) auto
      next
        case (Inr u3)
        from run Inr effect_trans[OF effect_trans[OF e1 e2] write_control[OF effect_ok[OF e2] assms(2,3) w3[unfolded Inr]]] show thesis
          by (intro complete) (auto simp: effect_here[OF e2])
      qed
    qed
  qed
qed

lemma publish_succeeds:
  assumes "ok m" and "p \<in> ring_purposes" and "i < 256"
  shows "fst (publish_trb S p (i * 16) t cycle m) = Ok ()"
proof -
  obtain m1 where w1: "rs_write S p (i * 16 + 12) (to_le_bytes (invisible t cycle)) m = (Ok (), m1)"
    using write_succeeds[OF assms(1,2), of "to_le_bytes (invisible t cycle)" "i * 16 + 12"] assms(3)
    by (auto simp flip: length_greater_0_conv)
  note m1 = effect_ok[OF write_control[OF assms w1]]
  obtain m2 where w2: "rs_write S p (i * 16) (take 12 (trb_encode t)) m1 = (Ok (), m2)"
    using write_succeeds[OF m1 assms(2), of "take 12 (trb_encode t)" "i * 16"] assms(3) by (auto simp flip: length_greater_0_conv)
  note m2 = effect_ok[OF write_payload[OF m1 assms(2,3) w2]]
  obtain m3 where w3: "rs_write S p (i * 16 + 12) (to_le_bytes (trb_control t)) m2 = (Ok (), m3)"
    using write_succeeds[OF m2 assms(2), of "to_le_bytes (trb_control t)" "i * 16 + 12"] assms(3)
    by (auto simp flip: length_greater_0_conv)
  from w1 w2 w3 show ?thesis by (simp add: publish_trb_def invisible_def Let_def)
qed

end

section \<open>Driver and controller together\<close>

inductive ring_step for S :: "('m, 'e) ring_storage" and view :: "'m \<Rightarrow> dma_purpose \<Rightarrow> u8 list" and post :: "nat \<Rightarrow> u8 list \<Rightarrow> 'm \<Rightarrow> 'm" where
  submit: "submit_no_op S s m = (r, s', m') \<Longrightarrow> ring_step S view post (s, m, c) (s', m', c)"
| poll: "poll_no_op_completion S receipt s m = (r, s') \<Longrightarrow> ring_step S view post (s, m, c) (s', m, c)"
| follow: "controller_next (rm_command_device_base s) code (view m CommandRing) c = FollowLink c'
    \<Longrightarrow> ring_step S view post (s, m, c) (s, m, c')"
| execute: "controller_next (rm_command_device_base s) code (view m CommandRing) c = Execute event c'
    \<Longrightarrow> ring_step S view post (s, m, c) (s, post (ct_enqueue c * TRB_BYTES) (trb_encode event) m, c')"

definition command_address :: "u64 \<Rightarrow> nat \<Rightarrow> u64" where
  "command_address base j = base + of_nat (j mod COMMAND_CAPACITY * TRB_BYTES)"

text \<open>The state after \<open>n\<close> submissions, \<open>x\<close> executions and \<open>k\<close> consumed completions.\<close>

definition driver_at :: "nat \<Rightarrow> nat \<Rightarrow> ring_machine \<Rightarrow> bool" where
  "driver_at n k s \<longleftrightarrow> unat (rm_next_sequence s) = Suc n
     \<and> rm_producer_index s = n mod COMMAND_CAPACITY \<and> rm_producer_cycle s = even (n div COMMAND_CAPACITY)
     \<and> rm_event_index s = k mod EVENT_CAPACITY \<and> rm_event_cycle s = even (k div EVENT_CAPACITY)
     \<and> rm_command_device_base s mod PAGE_SIZE = 0 \<and> unat (rm_command_device_base s) + 4096 < 2 ^ 64
     \<and> (rm_outstanding s = None \<longleftrightarrow> n = k)
     \<and> (\<forall>out. rm_outstanding s = Some out \<longrightarrow> unat (oc_sequence out) = n
          \<and> oc_command_device_address out = command_address (rm_command_device_base s) (n - 1))"

definition commands_at :: "u64 \<Rightarrow> nat \<Rightarrow> nat \<Rightarrow> u8 list \<Rightarrow> bool" where
  "commands_at base n x ring \<longleftrightarrow>
     (\<forall>i < COMMAND_CAPACITY. trb_cycle (trb_at ring i) = lap COMMAND_CAPACITY n i \<and> trb_type (trb_at ring i) \<noteq> TRB_TYPE_LINK)
     \<and> trb_type (trb_at ring COMMAND_LINK_INDEX) = TRB_TYPE_LINK \<and> trb_parameter (trb_at ring COMMAND_LINK_INDEX) = base
     \<and> trb_control (trb_at ring COMMAND_LINK_INDEX) AND LINK_TOGGLE_CYCLE \<noteq> 0
     \<and> (\<forall>y \<in> {n, x}. y mod COMMAND_CAPACITY = 0 \<longrightarrow> 0 < y
          \<longrightarrow> trb_cycle (trb_at ring COMMAND_LINK_INDEX) = odd (y div COMMAND_CAPACITY))"

definition events_at :: "u64 \<Rightarrow> nat \<Rightarrow> nat \<Rightarrow> u8 list \<Rightarrow> bool" where
  "events_at base x k ring \<longleftrightarrow> (\<forall>i < EVENT_CAPACITY. trb_cycle (trb_at ring i) = lap EVENT_CAPACITY x i)
     \<and> (x = Suc k \<longrightarrow> (\<exists>code. trb_at ring (k mod EVENT_CAPACITY)
          = completion_trb (command_address base k) code (even (k div EVENT_CAPACITY))))"

definition controller_at :: "u64 \<Rightarrow> nat \<Rightarrow> ring_controller \<Rightarrow> bool" where
  "controller_at base x c \<longleftrightarrow> ct_enqueue c = x mod EVENT_CAPACITY \<and> ct_event_cycle c = even (x div EVENT_CAPACITY)
     \<and> ct_executed c = map (command_address base) [0 ..< x]
     \<and> (ct_dequeue c = x mod COMMAND_CAPACITY \<and> ct_cycle c = even (x div COMMAND_CAPACITY)
        \<or> ct_dequeue c = COMMAND_LINK_INDEX \<and> ct_cycle c = odd (x div COMMAND_CAPACITY) \<and> x mod COMMAND_CAPACITY = 0 \<and> 0 < x)"

definition rings_at :: "('m \<Rightarrow> dma_purpose \<Rightarrow> u8 list) \<Rightarrow> nat \<Rightarrow> nat \<Rightarrow> nat \<Rightarrow> ring_machine \<times> 'm \<times> ring_controller \<Rightarrow> bool" where
  "rings_at view n x k = (\<lambda>(s, m, c). k \<le> x \<and> x \<le> n \<and> n \<le> Suc k \<and> driver_at n k s
     \<and> commands_at (rm_command_device_base s) n x (view m CommandRing)
     \<and> events_at (rm_command_device_base s) x k (view m EventRing) \<and> controller_at (rm_command_device_base s) x c)"

lemma command_purposes [simp]: "CommandRing \<in> ring_purposes" "EventRing \<in> ring_purposes" "EventRingSegmentTable \<in> ring_purposes"
  by (simp_all add: ring_purposes_def)

lemma controller_next_at:
  assumes ctl: "controller_at base x c" and cmd: "commands_at base n x ring" and bounds: "x \<le> n" "n \<le> Suc x"
  shows "controller_next base code ring c =
    (if ct_dequeue c = COMMAND_LINK_INDEX then FollowLink (c\<lparr>ct_dequeue := 0, ct_cycle := \<not> ct_cycle c\<rparr>)
     else if n = x then Idle
     else Execute (completion_trb (command_address base x) code (ct_event_cycle c))
       (c\<lparr>ct_dequeue := ct_dequeue c + 1, ct_executed := ct_executed c @ [command_address base x],
          ct_enqueue := Suc x mod EVENT_CAPACITY, ct_event_cycle := even (Suc x div EVENT_CAPACITY)\<rparr>))"
proof (cases "ct_dequeue c = COMMAND_LINK_INDEX")
  case True
  with ctl cmd show ?thesis by (auto simp: controller_at_def commands_at_def controller_next_def Let_def)
next
  case False
  then have c: "ct_dequeue c = x mod COMMAND_CAPACITY" "ct_cycle c = even (x div COMMAND_CAPACITY)"
    and e: "ct_enqueue c = x mod EVENT_CAPACITY" "ct_event_cycle c = even (x div EVENT_CAPACITY)"
    using ctl by (auto simp: controller_at_def)
  have slot: "trb_cycle (trb_at ring (x mod 255)) = lap 255 n (x mod 255)" "trb_type (trb_at ring (x mod 255)) \<noteq> TRB_TYPE_LINK"
    using cmd by (simp_all add: commands_at_def)
  show ?thesis
  proof (cases "n = x")
    case True
    then show ?thesis using False c slot by (simp add: controller_next_def lap_here)
  next
    case ahead: False
    then have "n = Suc x" using bounds by simp
    moreover have "Suc (x mod 256) = 256 \<Longrightarrow> Suc x mod 256 = 0" "Suc (x mod 256) = 256 \<Longrightarrow> Suc x div 256 = Suc (x div 256)"
      "Suc (x mod 256) \<noteq> 256 \<Longrightarrow> Suc x mod 256 = Suc (x mod 256)" "Suc (x mod 256) \<noteq> 256 \<Longrightarrow> Suc x div 256 = x div 256"
      by (simp_all add: Suc_mod_div)
    ultimately show ?thesis using False ahead c e slot lap_behind[of 255 x]
      by (simp add: controller_next_def Let_def command_address_def)
  qed
qed

lemma controller_follows:
  assumes "controller_at base x c" and "ct_dequeue c = COMMAND_LINK_INDEX"
  shows "controller_at base x (c\<lparr>ct_dequeue := 0, ct_cycle := \<not> ct_cycle c\<rparr>)"
proof -
  have "x mod 255 < 255" by simp
  with assms show ?thesis by (auto simp: controller_at_def)
qed

lemma controller_executes:
  assumes "controller_at base x c" and "ct_dequeue c \<noteq> COMMAND_LINK_INDEX"
  shows "controller_at base (Suc x) (c\<lparr>ct_dequeue := ct_dequeue c + 1, ct_executed := ct_executed c @ [command_address base x],
    ct_enqueue := Suc x mod EVENT_CAPACITY, ct_event_cycle := even (Suc x div EVENT_CAPACITY)\<rparr>)"
proof (cases "Suc (x mod 255) = 255")
  case True
  with assms show ?thesis by (auto simp: controller_at_def Suc_mod_div)
next
  case False
  with assms show ?thesis by (auto simp: controller_at_def Suc_mod_div)
qed

lemma commands_at_other:
  assumes "commands_at base n x ring" and "x \<le> n" and "n \<le> Suc x" and "n \<noteq> x"
  shows "commands_at base n (Suc x) ring"
proof -
  have "n = Suc x" using assms by simp
  with assms(1) show ?thesis by (simp add: commands_at_def)
qed

lemma commands_at_Suc:
  assumes at: "commands_at base n n ring"
    and slots: "\<And>i. i < 255 \<Longrightarrow> trb_at ring' i = (if i = n mod 255 then no_op_trb (even (n div 255)) else trb_at ring i)"
    and link: "trb_at ring' 255 = (if Suc (n mod 255) = 255 then link_trb base (even (n div 255)) else trb_at ring 255)"
  shows "commands_at base (Suc n) n ring'"
proof -
  have "trb_cycle (trb_at ring' i) = lap 255 (Suc n) i \<and> trb_type (trb_at ring' i) \<noteq> 6" if "i < 255" for i
    using at slots[OF that] that by (auto simp: commands_at_def lap_Suc trb_fields)
  moreover have "trb_type (trb_at ring' 255) = 6 \<and> trb_parameter (trb_at ring' 255) = base \<and> trb_control (trb_at ring' 255) AND 2 \<noteq> 0"
    using at link by (auto simp: commands_at_def trb_fields)
  moreover have "trb_cycle (trb_at ring' 255) = odd (Suc n div 255)" if "Suc n mod 255 = 0"
    using that link by (auto simp: Suc_mod_div trb_fields split: if_splits)
  moreover have "trb_cycle (trb_at ring' 255) = odd (n div 255)" if "n mod 255 = 0" "0 < n"
    using that link at by (auto simp: commands_at_def)
  ultimately show ?thesis by (simp add: commands_at_def)
qed

text \<open>A slot that still hides its block leaves the ring as it was for the controller.\<close>

lemma commands_at_hidden:
  assumes at: "commands_at base n n ring"
    and slots: "\<And>i. i < 255 \<Longrightarrow> trb_at ring' i = (if i = n mod 255 then u else trb_at ring i)"
    and hidden: "u \<in> {trb_at ring (n mod 255), (trb_at ring (n mod 255))\<lparr>trb_control := invisible t cycle\<rparr>, t\<lparr>trb_control := invisible t cycle\<rparr>}"
    and t: "trb_type t \<noteq> TRB_TYPE_LINK" and cycle: "cycle = even (n div 255)"
    and link: "trb_type (trb_at ring' 255) = TRB_TYPE_LINK" "trb_parameter (trb_at ring' 255) = base"
      "trb_control (trb_at ring' 255) AND LINK_TOGGLE_CYCLE \<noteq> 0"
      "n mod 255 = 0 \<Longrightarrow> trb_at ring' 255 = trb_at ring 255"
  shows "commands_at base n n ring'"
proof -
  have u: "trb_cycle u = odd (n div 255)" "trb_type u \<noteq> 6"
    using hidden at t cycle lap_here[of 255 n] by (auto simp: commands_at_def invisible_control)
  have "trb_cycle (trb_at ring' i) = lap 255 n i \<and> trb_type (trb_at ring' i) \<noteq> 6" if "i < 255" for i
    using at slots[OF that] that u lap_here[of 255 n] by (auto simp: commands_at_def)
  with link at show ?thesis by (auto simp: commands_at_def)
qed

lemma invisible_link:
  assumes "u \<in> {old, old\<lparr>trb_control := invisible (link_trb base cycle) cycle\<rparr>, (link_trb base cycle)\<lparr>trb_control := invisible (link_trb base cycle) cycle\<rparr>}"
    and "trb_type old = TRB_TYPE_LINK" and "trb_parameter old = base" and "trb_control old AND LINK_TOGGLE_CYCLE \<noteq> 0"
  shows "trb_type u = TRB_TYPE_LINK" and "trb_parameter u = base" and "trb_control u AND LINK_TOGGLE_CYCLE \<noteq> 0"
  using assms by (auto simp: invisible_control trb_fields)

lemma command_slot_address:
  assumes "driver_at n k s"
  shows "checked_add (rm_command_device_base s) (of_nat (n mod 255 * 16)) = Some (command_address (rm_command_device_base s) n)"
proof -
  have i: "n mod 255 < 255" by simp
  then have "n mod 255 * 16 < 2 ^ 64" by simp
  then have "unat (of_nat (n mod 255 * 16) :: u64) = n mod 255 * 16"
    by (simp add: unat_of_nat del: of_nat_mult of_nat_numeral of_nat_mod)
  moreover have "unat (rm_command_device_base s) + 4096 < 2 ^ 64" using assms by (simp add: driver_at_def)
  ultimately show ?thesis using i by (simp add: checked_add_def command_address_def)
qed

lemma record_submission_fields:
  assumes "record_submission address s = (receipt, s')"
  shows "rm_outstanding s' = Some receipt" and "rm_next_sequence s' = rm_next_sequence s + 1"
    and "rm_producer_index s' = (if Suc (rm_producer_index s) = 255 then 0 else Suc (rm_producer_index s))"
    and "rm_producer_cycle s' = (if Suc (rm_producer_index s) = 255 then \<not> rm_producer_cycle s else rm_producer_cycle s)"
    and "rm_event_index s' = rm_event_index s" and "rm_event_cycle s' = rm_event_cycle s"
    and "rm_command_device_base s' = rm_command_device_base s" and "rm_generation s' = rm_generation s"
    and "oc_sequence receipt = rm_next_sequence s" and "oc_command_device_address receipt = address"
    and "oc_generation receipt = rm_generation s"
  using assms by (cases "Suc (rm_producer_index s) = 255"; auto simp: record_submission_def Let_def)+

lemma record_submission_at:
  assumes at: "driver_at n n s" and top: "rm_next_sequence s \<noteq> - 1"
    and run: "record_submission (command_address (rm_command_device_base s) n) s = (receipt, s')"
  shows "driver_at (Suc n) n s' \<and> rm_outstanding s' = Some receipt \<and> rm_command_device_base s' = rm_command_device_base s
    \<and> unat (oc_sequence receipt) = Suc n \<and> oc_command_device_address receipt = command_address (rm_command_device_base s) n
    \<and> rm_generation s' = rm_generation s"
proof -
  have "unat (rm_next_sequence s) = Suc n" using at by (simp add: driver_at_def)
  moreover have "unat (rm_next_sequence s + 1) = Suc (unat (rm_next_sequence s))"
    using top by (metis unatSuc add.commute add_eq_0_iff)
  ultimately have next_seq: "unat (rm_next_sequence s + 1) = Suc (Suc n)" by simp
  show ?thesis
    using at next_seq by (simp add: driver_at_def record_submission_fields[OF run] Suc_mod_div)
qed

context ring_memory
begin

lemma link_prepared:
  assumes "ok m" and at: "commands_at base n n (view m CommandRing)"
    and run: "(if n mod 255 + 1 = COMMAND_LINK_INDEX then write_link S base (even (n div 255)) m else (Ok (), m)) = (r, m')"
  obtains u where "effect m m' CommandRing 255 u" and "trb_type u = TRB_TYPE_LINK" and "trb_parameter u = base"
    and "trb_control u AND LINK_TOGGLE_CYCLE \<noteq> 0" and "n mod 255 = 0 \<longrightarrow> u = trb_at (view m CommandRing) 255"
    and "r = Ok () \<longrightarrow> u = (if Suc (n mod 255) = 255 then link_trb base (even (n div 255)) else trb_at (view m CommandRing) 255)"
proof (cases "n mod 255 + 1 = COMMAND_LINK_INDEX")
  case False
  with run at \<open>ok m\<close> show thesis
    by (intro that[of "trb_at (view m CommandRing) 255"]) (auto simp: commands_at_def intro: effect_refl)
next
  case True
  let ?old = "trb_at (view m CommandRing) 255"
  have old: "trb_type ?old = TRB_TYPE_LINK" "trb_parameter ?old = base" "trb_control ?old AND LINK_TOGGLE_CYCLE \<noteq> 0"
    using at by (auto simp: commands_at_def)
  have pub: "publish_trb S CommandRing (255 * 16) (link_trb base (even (n div 255))) (even (n div 255)) m = (r, m')"
    using run True by (simp add: write_link_def)
  show thesis
  proof (cases rule: publish_cases[OF \<open>ok m\<close> _ _ pub, case_names purpose slot complete hidden])
    case complete
    with True show thesis by (intro that[of "link_trb base (even (n div 255))"]) (auto simp: trb_fields)
  next
    case (hidden e u)
    with True invisible_link[OF hidden(3) old] show thesis by (intro that[of u]) auto
  qed simp_all
qed

lemma submit_at:
  assumes "ok m" and at: "rings_at view n x k (s, m, c)" and run: "submit_no_op S s m = (r, s', m')"
  obtains (accepted) receipt where "r = Ok receipt" and "ok m'" and "n = k" and "x = k" and "rings_at view (Suc n) x k (s', m', c)"
      and "rm_outstanding s' = Some receipt" and "unat (oc_sequence receipt) = Suc n" and "oc_generation receipt = rm_generation s"
      and "oc_command_device_address receipt = command_address (rm_command_device_base s) n"
      and "rm_command_device_base s' = rm_command_device_base s" and "rs_region S m' = rs_region S m"
  | (refused) e where "r = Err e" and "ok m'" and "s' = s" and "rings_at view n x k (s, m', c)" and "rs_region S m' = rs_region S m"
proof (cases "rm_outstanding s \<noteq> None \<or> rm_next_sequence s = - 1")
  case True
  then obtain e where "r = Err e" "s' = s" "m' = m" using run by (auto simp: submit_no_op_def split: if_splits)
  with at \<open>ok m\<close> show thesis by (intro refused) auto
next
  case False
  let ?base = "rm_command_device_base s" and ?cyc = "even (n div 255)"
  have driver: "driver_at n k s" and idle: "n = k" "x = k" and cmd: "commands_at ?base n n (view m CommandRing)"
    and ev: "events_at ?base k k (view m EventRing)" and ctl: "controller_at ?base k c"
    using at False by (auto simp: rings_at_def driver_at_def)
  have s: "rm_producer_index s = n mod 255" "rm_producer_cycle s = ?cyc" using driver by (auto simp: driver_at_def)
  obtain r1 m1 where link: "(if n mod 255 + 1 = COMMAND_LINK_INDEX then write_link S ?base ?cyc m else (Ok (), m)) = (r1, m1)" by fastforce
  have run': "(case r1 of Err e \<Rightarrow> (Err e, s, m1) | Ok _ \<Rightarrow>
      (case publish_trb S CommandRing (n mod 255 * 16) (no_op_trb ?cyc) ?cyc m1 of (Err e, m) \<Rightarrow> (Err e, s, m) | (Ok _, m) \<Rightarrow>
      (case record_submission (command_address ?base n) s of (receipt, s) \<Rightarrow> (Ok receipt, s, m)))) = (r, s', m')"
    using run False unfolding submit_no_op_def s Let_def link command_slot_address[OF driver] option.case by simp
  obtain u where u: "effect m m1 CommandRing 255 u" "trb_type u = TRB_TYPE_LINK" "trb_parameter u = ?base"
    "trb_control u AND LINK_TOGGLE_CYCLE \<noteq> 0" "n mod 255 = 0 \<longrightarrow> u = trb_at (view m CommandRing) 255"
    "r1 = Ok () \<longrightarrow> u = (if Suc (n mod 255) = 255 then link_trb ?base ?cyc else trb_at (view m CommandRing) 255)"
    using link_prepared[OF \<open>ok m\<close> cmd link] by metis
  have m1: "ok m1" "view m1 EventRing = view m EventRing" "rs_region S m1 = rs_region S m" using u(1) by (auto simp: effect_def)
  show thesis
  proof (cases r1)
    case (Inl e)
    have "commands_at ?base n n (view m1 CommandRing)"
      using u by (intro commands_at_hidden[OF cmd, where u = "trb_at (view m CommandRing) (n mod 255)" and cycle = ?cyc and t = "no_op_trb True"])
        (auto simp: effect_def trb_fields)
    with Inl run' m1 driver ev ctl idle show thesis by (intro refused) (auto simp: rings_at_def)
  next
    case (Inr u1)
    obtain r2 m2 where pub: "publish_trb S CommandRing (n mod 255 * 16) (no_op_trb ?cyc) ?cyc m1 = (r2, m2)" by fastforce
    have slot: "n mod 255 < 255" by simp
    show thesis
    proof (cases rule: publish_cases[OF m1(1) _ _ pub, case_names purpose slot complete hidden])
      case complete
      have "commands_at ?base (Suc n) n (view m2 CommandRing)"
        using u complete(2) Inr slot by (intro commands_at_Suc[OF cmd]) (auto simp: effect_def)
      moreover obtain receipt s2 where rec: "record_submission (command_address ?base n) s = (receipt, s2)" by fastforce
      moreover have "r = Ok receipt" "s' = s2" "m' = m2"
        using run' Inr pub complete(1) rec by auto
      ultimately show thesis
        using record_submission_at[OF driver[folded idle(1)] _ rec] complete(2) m1 ev ctl idle False record_submission_fields[OF rec]
        by (intro accepted) (auto simp: rings_at_def effect_def)
    next
      case (hidden e v)
      have same: "trb_at (view m1 CommandRing) (n mod 255) = trb_at (view m CommandRing) (n mod 255)"
        using u(1) slot by (auto simp: effect_def)
      have "commands_at ?base n n (view m2 CommandRing)"
        using u hidden(2) slot
        by (intro commands_at_hidden[OF cmd _ hidden(3)[unfolded same]]) (auto simp: effect_def trb_fields)
      moreover have "r = Err e" "s' = s" "m' = m2"
        using run' Inr pub hidden(1) by auto
      ultimately show thesis
        using hidden(2) m1 driver ev ctl idle by (intro refused) (auto simp: rings_at_def effect_def)
    qed simp_all
  qed
qed

end

lemma completion_fields:
  "ucast (drop_bit 24 (trb_status (completion_trb a code c))) = code"
  "ucast (drop_bit 16 (trb_control (completion_trb a code c)) AND 0xff) = (0 :: u8)"
  "ucast (drop_bit 24 (trb_control (completion_trb a code c))) = (0 :: u8)"
  "trb_parameter (completion_trb a code c) = a"
proof -
  show "ucast (drop_bit 24 (trb_status (completion_trb a code c))) = code"
    by (rule bit_word_eqI) (auto simp: completion_trb_def bit_simps)
qed (cases c; simp add: completion_trb_def)+

lemma command_address_aligned:
  assumes "driver_at n k s"
  shows "command_address (rm_command_device_base s) j AND 0xf = 0"
proof -
  let ?b = "rm_command_device_base s" and ?i = "j mod 255"
  have b: "?b mod PAGE_SIZE = 0" and room: "unat ?b + 4096 < 2 ^ 64" using assms by (auto simp: driver_at_def)
  have i: "?i < 255" by simp
  then have small: "unat (of_nat (?i * 16) :: u64) = ?i * 16"
    by (simp add: unat_of_nat del: of_nat_mult of_nat_numeral of_nat_mod)
  have "unat (command_address ?b j) = unat ?b + ?i * 16"
    unfolding command_address_def using i room by (subst unat_add_lem[THEN iffD1]) (simp_all add: small del: of_nat_mult of_nat_numeral)
  moreover have "unat ?b mod 4096 = 0" using arg_cong[OF b, of unat] by (simp add: unat_mod)
  then have "unat ?b mod 16 = 0" using mod_mod_cancel[of 16 4096 "unat ?b"] by simp
  ultimately have "unat (command_address ?b j) mod 16 = 0" by (simp add: mod_add_left_eq[symmetric])
  then have "unat (command_address ?b j mod 16) = 0" by (simp add: unat_mod)
  moreover have "command_address ?b j AND 0xf = take_bit 4 (command_address ?b j)"
    by (simp add: take_bit_eq_mask mask_eq_exp_minus_1)
  ultimately show ?thesis by (simp add: take_bit_eq_mod unat_eq_zero)
qed

lemma check_completion_Ok:
  assumes "driver_at n k s" and "oc_command_device_address out = command_address (rm_command_device_base s) j"
  shows "check_completion out (completion_trb (command_address (rm_command_device_base s) j) code cycle) = Ok ()"
  using command_address_aligned[OF assms(1), of j] by (simp add: check_completion_def trb_fields completion_fields assms(2) Let_def)

lemma receipt_matches_eq: "receipt_matches expected receipt \<longleftrightarrow> expected = receipt"
  by (cases expected; cases receipt) (auto simp: receipt_matches_def)

lemma consume_completion_at:
  assumes at: "driver_at (Suc k) k s" and run: "consume_completion out event s = (e, s')"
  shows "driver_at (Suc k) (Suc k) s' \<and> rm_outstanding s' = None \<and> rm_command_device_base s' = rm_command_device_base s
    \<and> ce_sequence e = oc_sequence out \<and> ce_completion_code e = ucast (drop_bit 24 (trb_status event))
    \<and> ce_generation e = rm_generation s
    \<and> ce_next_event_dequeue_pointer e = rm_event_device_base s + of_nat (Suc k mod 256) * 16"
proof -
  have "s' = (advance_event s)\<lparr>rm_outstanding := None\<rparr>" using run by (simp add: consume_completion_def Let_def)
  moreover have "rm_event_index (advance_event s) = Suc k mod 256" "rm_event_cycle (advance_event s) = even (Suc k div 256)"
    using at by (auto simp: advance_event_def driver_at_def Suc_mod_div Let_def)
  moreover have "rm_next_sequence (advance_event s) = rm_next_sequence s" "rm_producer_index (advance_event s) = rm_producer_index s"
    "rm_producer_cycle (advance_event s) = rm_producer_cycle s" "rm_command_device_base (advance_event s) = rm_command_device_base s"
    by (simp_all add: advance_event_def Let_def)
  moreover have "ce_sequence e = oc_sequence out \<and> ce_completion_code e = ucast (drop_bit 24 (trb_status event)) \<and> ce_generation e = rm_generation s
      \<and> ce_next_event_dequeue_pointer e = rm_event_device_base s + of_nat (rm_event_index (advance_event s)) * 16"
    using run by (auto simp: consume_completion_def Let_def)
  ultimately show ?thesis using at by (simp add: driver_at_def)
qed

context ring_memory
begin

lemma read_trb_view:
  assumes "ok m" and "p \<in> ring_purposes" and "i < 256"
  shows "read_trb S p (i * 16) m = Ok (trb_at (view m p) i)"
  using assms read_view[OF assms(1,2), of 16 "i * 16"] by (simp add: read_trb_def trb_at_def)

lemma poll_at:
  assumes "ok m" and at: "rings_at view n x k (s, m, c)" and run: "poll_no_op_completion S receipt s m = (r, s')"
  obtains (evidence) e where "r = Ok (Some e)" and "n = Suc k" and "x = Suc k" and "rings_at view n x (Suc k) (s', m, c)"
      and "rm_outstanding s = Some receipt" and "rm_outstanding s' = None" and "ce_sequence e = oc_sequence receipt"
      and "unat (oc_sequence receipt) = Suc k" and "oc_command_device_address receipt = command_address (rm_command_device_base s) k"
      and "ce_completion_code e = ucast (drop_bit 24 (trb_status (trb_at (view m EventRing) (k mod 256))))"
      and "rm_command_device_base s' = rm_command_device_base s"
  | (pending) "r = Ok None" and "s' = s" and "x = k"
  | (refused) e where "r = Err e" and "s' = s" and "rm_outstanding s \<noteq> Some receipt"
proof (cases "rm_outstanding s = Some receipt")
  case False
  then obtain e where "r = Err e" "s' = s" using run by (auto simp: poll_no_op_completion_def receipt_matches_eq split: option.splits)
  with False show thesis by (intro refused)
next
  case True
  let ?base = "rm_command_device_base s" and ?event = "trb_at (view m EventRing) (k mod 256)"
  have driver: "driver_at n k s" and n: "n = Suc k" and ev: "events_at ?base x k (view m EventRing)" and x: "k \<le> x" "x \<le> Suc k"
    using at True by (auto simp: rings_at_def driver_at_def)
  have s: "rm_event_index s = k mod 256" "rm_event_cycle s = even (k div 256)"
    and out: "unat (oc_sequence receipt) = Suc k" "oc_command_device_address receipt = command_address ?base k"
    using driver True n by (auto simp: driver_at_def)
  have read: "read_trb S EventRing (k mod 256 * 16) m = Ok ?event" using \<open>ok m\<close> by (intro read_trb_view) simp_all
  have cyc: "trb_cycle ?event = lap 256 x (k mod 256)" using ev by (simp add: events_at_def)
  show thesis
  proof (cases "x = k")
    case True
    with cyc have "trb_cycle ?event \<noteq> even (k div 256)" by (simp add: lap_here)
    with True run read \<open>rm_outstanding s = Some receipt\<close> show thesis
      by (intro pending) (auto simp: poll_no_op_completion_def receipt_matches_eq s)
  next
    case False
    with x have x: "x = Suc k" by simp
    with ev obtain code where code: "?event = completion_trb (command_address ?base k) code (even (k div 256))" by (auto simp: events_at_def)
    obtain e s2 where con: "consume_completion receipt ?event s = (e, s2)" by fastforce
    have check: "(check_completion receipt ?event :: 'e ring_error + unit) = Ok ()"
      unfolding code by (rule check_completion_Ok[OF driver out(2)])
    have "trb_cycle ?event = even (k div 256)" using cyc x lap_behind[of 256 k] by simp
    then have res: "r = Ok (Some e)" "s' = s2"
      using run read True con check by (auto simp: poll_no_op_completion_def receipt_matches_eq s)
    show thesis
      using at res n x out True con consume_completion_at[OF driver[unfolded n] con]
      by (intro evidence) (auto simp: rings_at_def events_at_def)
  qed
qed

lemma follow_at:
  assumes "rings_at view n x k (s, m, c)" and "controller_next (rm_command_device_base s) code (view m CommandRing) c = FollowLink c'"
  shows "rings_at view n x k (s, m, c')"
  using assms controller_next_at[of "rm_command_device_base s" x c n "view m CommandRing" code]
    controller_follows[of "rm_command_device_base s" x c] by (auto simp: rings_at_def split: if_splits)

lemma execute_at:
  assumes "ok m" and at: "rings_at view n x k (s, m, c)"
    and run: "controller_next (rm_command_device_base s) code (view m CommandRing) c = Execute event c'"
  shows "n = Suc x \<and> x = k \<and> ok (post (ct_enqueue c * 16) (trb_encode event) m)
    \<and> trb_at (view (post (ct_enqueue c * 16) (trb_encode event) m) EventRing) (k mod 256)
        = completion_trb (command_address (rm_command_device_base s) k) code (even (k div 256))
    \<and> rings_at view n (Suc x) k (s, post (ct_enqueue c * 16) (trb_encode event) m, c')"
proof -
  let ?base = "rm_command_device_base s" and ?m = "post (ct_enqueue c * 16) (trb_encode event) m"
  have ctl: "controller_at ?base x c" and cmd: "commands_at ?base n x (view m CommandRing)" and ev: "events_at ?base x k (view m EventRing)"
    and bounds: "k \<le> x" "x \<le> n" "n \<le> Suc k" and driver: "driver_at n k s" using at by (auto simp: rings_at_def)
  have n: "n \<noteq> x" "ct_dequeue c \<noteq> 255" and event: "event = completion_trb (command_address ?base x) code (ct_event_cycle c)"
    and c': "c' = c\<lparr>ct_dequeue := ct_dequeue c + 1, ct_executed := ct_executed c @ [command_address ?base x],
      ct_enqueue := Suc x mod 256, ct_event_cycle := even (Suc x div 256)\<rparr>"
    using run controller_next_at[OF ctl cmd bounds(2)] bounds by (auto split: if_splits)
  have x: "n = Suc x" "x = k" using n bounds by auto
  have c: "ct_enqueue c = k mod 256" "ct_event_cycle c = even (k div 256)" using ctl x by (auto simp: controller_at_def)
  have fits: "ct_enqueue c * 16 + length (trb_encode event) \<le> 4096" using c by (simp add: mod_less_divisor)
  note posted = post_view[OF \<open>ok m\<close> fits]
  have evs: "trb_at (view ?m EventRing) j = (if j = k mod 256 then event else trb_at (view m EventRing) j)" for j
    using posted trb_at_block[OF view_length[OF \<open>ok m\<close>], of EventRing "k mod 256" event j] c by simp
  have "events_at ?base (Suc x) k (view ?m EventRing)"
    using ev evs x c by (auto simp: events_at_def lap_Suc event trb_fields)
  moreover have "controller_at ?base (Suc x) c'" using controller_executes[OF ctl n(2)] by (simp add: c')
  moreover have "commands_at ?base n (Suc x) (view ?m CommandRing)" using posted commands_at_other[OF cmd] x by simp
  ultimately show ?thesis using posted evs driver x c event by (simp add: rings_at_def)
qed

end

section \<open>A fresh ring\<close>

lemma trb_zero_fields: "trb_cycle trb_ZERO = False" "trb_type trb_ZERO = 0"
  by (simp_all add: trb_ZERO_def trb_cycle_def trb_type_def)

lemma initialize_inner_Ok:
  assumes "initialize_inner S secret expected m = (Ok s, m')"
  obtains command event erst where "validated_region S CommandRing None m = Ok command"
    and "initialize_regions S command event m = (Ok (), m')" and "rr_device_address_start event = rm_event_device_base s"
    and "s = \<lparr>rm_generation = rr_generation command, rm_command_device_base = rr_device_address_start command,
      rm_event_device_base = rr_device_address_start event, rm_erst_device_base = rr_device_address_start erst,
      rm_producer_index = 0, rm_producer_cycle = True, rm_event_index = 0, rm_event_cycle = True,
      rm_next_sequence = 1, rm_outstanding = None, rm_ring_root = ring_root secret (rr_generation command) command event erst\<rparr>"
    and "validated_region S EventRing (Some (rr_generation command)) m = Ok event"
    and "validated_region S EventRingSegmentTable (Some (rr_generation command)) m = Ok erst"
  using assms unfolding initialize_inner_def Let_def
  by (auto split: if_splits sum.splits option.splits prod.splits)

lemma validated_region_base:
  assumes "validated_region S p g m = Ok r"
  shows "rr_device_address_start r mod PAGE_SIZE = 0" and "unat (rr_device_address_start r) + 4096 < 2 ^ 64"
  using assms by (auto simp: validated_region_def checked_add_def split: option.splits if_splits)

lemma fresh_rings:
  assumes driver: "driver_at 0 0 s" and cmd: "\<And>i. i < 255 \<Longrightarrow> trb_at (view m CommandRing) i = trb_ZERO"
    and link: "trb_at (view m CommandRing) 255 = link_trb (rm_command_device_base s) True"
    and ev: "\<And>i. i < 256 \<Longrightarrow> trb_at (view m EventRing) i = trb_ZERO"
  shows "rings_at view 0 0 0 (s, m, controller_start)"
  using assms by (simp add: rings_at_def commands_at_def events_at_def controller_at_def controller_start_def lap_def trb_zero_fields trb_fields)

context ring_memory
begin

definition only :: "'m \<Rightarrow> 'm \<Rightarrow> dma_purpose \<Rightarrow> bool" where
  "only m m' p \<longleftrightarrow> ok m' \<and> rs_region S m' = rs_region S m \<and> (\<forall>q \<in> ring_purposes. q \<noteq> p \<longrightarrow> view m' q = view m q)"

lemma effect_only: "effect m m' p i t \<Longrightarrow> only m m' p"
  by (simp add: effect_def only_def)

lemma zero_ring_from_view:
  assumes "ok m" and "p \<in> ring_purposes" and "\<forall>i \<in> set idx. i < 256" and "zero_ring_from S p idx m = (Ok u, m')"
  shows "only m m' p \<and> (\<forall>j. trb_at (view m' p) j = (if j \<in> set idx then trb_ZERO else trb_at (view m p) j))"
  using assms(1,3,4)
proof (induction idx arbitrary: m)
  case (Cons i idx)
  then obtain m1 where w: "rs_write S p (i * 16) (trb_encode trb_ZERO) m = (Ok (), m1)" and rest: "zero_ring_from S p idx m1 = (Ok u, m')"
    by (auto split: prod.splits sum.splits)
  have e: "effect m m1 p i trb_ZERO" using write_block[OF Cons.prems(1) assms(2) _ w] Cons.prems(2) by simp
  from Cons.IH[OF effect_ok[OF e] _ rest] Cons.prems(2) e show ?case by (auto simp: effect_def only_def)
qed (simp add: only_def)

lemma zero_ring_from_succeeds:
  assumes "ok m" and "p \<in> ring_purposes" and "\<forall>i \<in> set idx. i < 256"
  shows "fst (zero_ring_from S p idx m) = Ok ()"
  using assms(1,3)
proof (induction idx arbitrary: m)
  case (Cons i idx)
  obtain m1 where w: "rs_write S p (i * 16) (trb_encode trb_ZERO) m = (Ok (), m1)"
    using write_succeeds[OF Cons.prems(1) assms(2), of "trb_encode trb_ZERO" "i * 16"] Cons.prems(2) by (auto simp flip: length_greater_0_conv)
  have "ok m1" using write_Ok[OF Cons.prems(1) assms(2) w] by simp
  with Cons.IH[of m1] Cons.prems(2) w show ?case by simp
qed simp

lemmas zero_ring_view = zero_ring_from_view[where idx = "[0 ..< 256]", folded zero_ring_def]
lemmas zero_ring_succeeds = zero_ring_from_succeeds[where idx = "[0 ..< 256]", folded zero_ring_def]

lemma initialize_regions_view:
  assumes "ok m" and run: "initialize_regions S command event m = (Ok (), m')"
  shows "ok m'" and "rs_region S m' = rs_region S m"
    and "i < 255 \<Longrightarrow> trb_at (view m' CommandRing) i = trb_ZERO"
    and "trb_at (view m' CommandRing) 255 = link_trb (rr_device_address_start command) True"
    and "i < 256 \<Longrightarrow> trb_at (view m' EventRing) i = trb_ZERO"
    and "take 16 (view m' EventRingSegmentTable) = to_le_bytes (rr_device_address_start event) @ to_le_bytes (256 :: u32) @ [0, 0, 0, 0]"
proof -
  obtain m1 m2 m3 where z1: "zero_ring S CommandRing m = (Ok (), m1)" and z2: "zero_ring S EventRing m1 = (Ok (), m2)"
    and l: "write_link S (rr_device_address_start command) True m2 = (Ok (), m3)" and e: "write_erst S (rr_device_address_start event) m3 = (Ok (), m')"
    using run by (auto simp: initialize_regions_def split: prod.splits sum.splits)
  note v1 = zero_ring_view[OF \<open>ok m\<close> _ _ z1]
  have ok1: "ok m1" using v1 by (simp add: only_def)
  note v2 = zero_ring_view[OF ok1 _ _ z2]
  have ok2: "ok m2" using v2 by (simp add: only_def)
  have v3: "effect m2 m3 CommandRing 255 (link_trb (rr_device_address_start command) True)"
    by (cases rule: publish_cases[OF ok2 _ _ l[unfolded write_link_def], case_names purpose slot complete hidden]) simp_all
  let ?entry = "to_le_bytes (rr_device_address_start event) @ to_le_bytes (256 :: u32) @ [0, 0, 0, 0]"
  have w: "rs_write S EventRingSegmentTable 0 ?entry m3 = (Ok (), m')"
    using e by (auto simp: write_erst_def Let_def numeral_eq_Suc split: prod.splits sum.splits)
  note v4 = write_Ok[OF effect_ok[OF v3] _ w]
  show "ok m'" using v4 by simp
  show "rs_region S m' = rs_region S m" using v1 v2 v3 v4 by (simp add: only_def effect_def)
  show "i < 255 \<Longrightarrow> trb_at (view m' CommandRing) i = trb_ZERO"
    "trb_at (view m' CommandRing) 255 = link_trb (rr_device_address_start command) True"
    "i < 256 \<Longrightarrow> trb_at (view m' EventRing) i = trb_ZERO"
    using v1 v2 v3 v4 by (simp_all add: only_def effect_def)
  show "take 16 (view m' EventRingSegmentTable) = ?entry" using v4 by (simp add: overlay_def)
qed

lemma initialize_at:
  assumes "ok m" and run: "initialize_inner S secret expected m = (Ok s, m')"
  shows "ok m'" and "rs_region S m' = rs_region S m" and "rings_at view 0 0 0 (s, m', controller_start)"
    and "take 16 (view m' EventRingSegmentTable) = to_le_bytes (rm_event_device_base s) @ to_le_bytes (256 :: u32) @ [0, 0, 0, 0]"
proof -
  obtain command event erst where c: "validated_region S CommandRing None m = Ok command" "initialize_regions S command event m = (Ok (), m')"
    "rr_device_address_start event = rm_event_device_base s"
    "s = \<lparr>rm_generation = rr_generation command, rm_command_device_base = rr_device_address_start command,
      rm_event_device_base = rr_device_address_start event, rm_erst_device_base = rr_device_address_start erst,
      rm_producer_index = 0, rm_producer_cycle = True, rm_event_index = 0, rm_event_cycle = True,
      rm_next_sequence = 1, rm_outstanding = None, rm_ring_root = ring_root secret (rr_generation command) command event erst\<rparr>"
    by (rule initialize_inner_Ok[OF run])
  note v = initialize_regions_view[OF \<open>ok m\<close> c(2)]
  show "ok m'" "rs_region S m' = rs_region S m" by (rule v(1), rule v(2))
  have "driver_at 0 0 s" using validated_region_base[OF c(1)] by (simp add: driver_at_def c(4))
  then show "rings_at view 0 0 0 (s, m', controller_start)"
    using v by (intro fresh_rings) (simp_all add: c(4))
  show "take 16 (view m' EventRingSegmentTable) = to_le_bytes (rm_event_device_base s) @ to_le_bytes (256 :: u32) @ [0, 0, 0, 0]"
    using v(6) c(3) by simp
qed

lemma initialize_regions_succeeds:
  assumes "ok m"
  shows "\<exists>m'. initialize_regions S command event m = (Ok (), m')"
proof -
  obtain m1 where z1: "zero_ring S CommandRing m = (Ok (), m1)"
    using zero_ring_succeeds[OF assms, of CommandRing] by (cases "zero_ring S CommandRing m") auto
  have ok1: "ok m1" using zero_ring_view[OF assms _ _ z1] by (simp add: only_def)
  obtain m2 where z2: "zero_ring S EventRing m1 = (Ok (), m2)"
    using zero_ring_succeeds[OF ok1, of EventRing] by (cases "zero_ring S EventRing m1") auto
  have ok2: "ok m2" using zero_ring_view[OF ok1 _ _ z2] by (simp add: only_def)
  let ?l = "link_trb (rr_device_address_start command) True"
  obtain m3 where l: "publish_trb S CommandRing (255 * 16) ?l True m2 = (Ok (), m3)"
    using publish_succeeds[OF ok2, of CommandRing 255 ?l True] by (cases "publish_trb S CommandRing (255 * 16) ?l True m2") auto
  have "ok m3" by (cases rule: publish_cases[OF ok2 _ _ l, case_names purpose slot complete hidden]) (simp_all add: effect_def)
  then obtain m' where "rs_write S EventRingSegmentTable 0
      (to_le_bytes (rr_device_address_start event) @ to_le_bytes (of_nat EVENT_CAPACITY :: u32) @ replicate 4 0) m3 = (Ok (), m')"
    using write_succeeds[of m3 EventRingSegmentTable "to_le_bytes (rr_device_address_start event) @ to_le_bytes (of_nat EVENT_CAPACITY :: u32) @ replicate 4 0" 0] by auto
  with z1 z2 l show ?thesis by (simp add: initialize_regions_def write_link_def write_erst_def Let_def)
qed

end

section \<open>Reachable states\<close>

text \<open>The controller's next execution, behind a link if it stands at one.\<close>

definition controller_run :: "u64 \<Rightarrow> u8 \<Rightarrow> u8 list \<Rightarrow> ring_controller \<Rightarrow> controller_action" where
  "controller_run base code ring c =
     (case controller_next base code ring c of FollowLink c' \<Rightarrow> controller_next base code ring c' | action \<Rightarrow> action)"

context ring_memory
begin

lemma step_at:
  assumes "ring_step S view post st st'" and "case st of (s, m, c) \<Rightarrow> ok m \<and> (\<exists>n x k. rings_at view n x k (s, m, c))"
  shows "case st' of (s, m, c) \<Rightarrow> ok m \<and> (\<exists>n x k. rings_at view n x k (s, m, c))"
  using assms
proof cases
  case (submit s m r s' m' c)
  with assms(2) obtain n x k where "ok m" "rings_at view n x k (s, m, c)" by auto
  then show ?thesis by (cases rule: submit_at[OF _ _ submit(3), case_names good at accepted refused]) (auto simp: submit(2))
next
  case (poll receipt s m r s' c)
  with assms(2) obtain n x k where "ok m" "rings_at view n x k (s, m, c)" by auto
  then show ?thesis by (cases rule: poll_at[OF _ _ poll(3), case_names good at evidence pending refused]) (auto simp: poll(2))
next
  case (follow s code m c c')
  with assms(2) show ?thesis by (auto dest: follow_at)
next
  case (execute s code m c event c')
  with assms(2) obtain n x k where "ok m" "rings_at view n x k (s, m, c)" by auto
  from execute_at[OF this execute(3)] show ?thesis by (auto simp: execute(2))
qed

sublocale driven: invariant_system
  "\<lambda>(s, m, c). c = controller_start \<and> (\<exists>secret expected m\<^sub>0. ok m\<^sub>0 \<and> initialize_inner S secret expected m\<^sub>0 = (Ok s, m))"
  "ring_step S view post" "\<lambda>(s, m, c). ok m \<and> (\<exists>n x k. rings_at view n x k (s, m, c))"
proof unfold_locales
  show "\<And>st. (case st of (s, m, c) \<Rightarrow> c = controller_start \<and> (\<exists>secret expected m\<^sub>0. ok m\<^sub>0 \<and> initialize_inner S secret expected m\<^sub>0 = (Ok s, m)))
      \<Longrightarrow> (case st of (s, m, c) \<Rightarrow> ok m \<and> (\<exists>n x k. rings_at view n x k (s, m, c)))"
    using initialize_at(1,3) by (auto; blast)
qed (rule step_at)

lemma submit_succeeds:
  assumes "ok m" and at: "rings_at view n x k (s, m, c)" and idle: "rm_outstanding s = None" and top: "rm_next_sequence s \<noteq> - 1"
  shows "\<exists>receipt s' m'. submit_no_op S s m = (Ok receipt, s', m')"
proof -
  let ?base = "rm_command_device_base s" and ?i = "n mod 255" and ?cyc = "even (n div 255)"
  have driver: "driver_at n k s" and cmd: "commands_at ?base n n (view m CommandRing)"
    using at idle by (auto simp: rings_at_def driver_at_def)
  have s: "rm_producer_index s = ?i" "rm_producer_cycle s = ?cyc" using driver by (auto simp: driver_at_def)
  obtain m1 where link: "(if ?i + 1 = COMMAND_LINK_INDEX then write_link S ?base ?cyc m else (Ok (), m)) = (Ok (), m1)"
    using publish_succeeds[OF \<open>ok m\<close>, of CommandRing 255 "link_trb ?base ?cyc" ?cyc]
    by (cases "publish_trb S CommandRing (255 * 16) (link_trb ?base ?cyc) ?cyc m"; cases "?i = 254") (auto simp: write_link_def)
  obtain u where "effect m m1 CommandRing 255 u" by (rule link_prepared[OF \<open>ok m\<close> cmd link])
  then have "ok m1" by (rule effect_ok)
  then obtain m2 where pub: "publish_trb S CommandRing (?i * 16) (no_op_trb ?cyc) ?cyc m1 = (Ok (), m2)"
    using publish_succeeds[of m1 CommandRing ?i "no_op_trb ?cyc" ?cyc]
    by (cases "publish_trb S CommandRing (?i * 16) (no_op_trb ?cyc) ?cyc m1") (auto simp: less_le_trans[OF mod_less_divisor])
  have "submit_no_op S s m = (case record_submission (command_address ?base n) s of (receipt, s) \<Rightarrow> (Ok receipt, s, m2))"
    unfolding submit_no_op_def s Let_def link using idle top by (simp add: pub command_slot_address[OF driver] del: of_nat_mult)
  then show ?thesis by (cases "record_submission (command_address ?base n) s") simp
qed

lemma controller_run_at:
  assumes "rings_at view n x k (s, m, c)" and "n = Suc x"
  obtains event c' where "controller_run (rm_command_device_base s) code (view m CommandRing) c = Execute event c'"
    and "\<exists>c\<^sub>1. rings_at view n x k (s, m, c\<^sub>1) \<and> controller_next (rm_command_device_base s) code (view m CommandRing) c\<^sub>1 = Execute event c'
      \<and> ct_enqueue c\<^sub>1 = ct_enqueue c \<and> ct_executed c\<^sub>1 = ct_executed c"
    and "ct_executed c' = ct_executed c @ [command_address (rm_command_device_base s) x]"
proof -
  let ?base = "rm_command_device_base s" and ?ring = "view m CommandRing"
  have cmd: "commands_at ?base n x ?ring" and ctl: "controller_at ?base x c" using assms by (auto simp: rings_at_def)
  note step = controller_next_at[OF _ cmd, of _ code] assms(2)
  show thesis
  proof (cases "ct_dequeue c = 255")
    case True
    let ?c = "c\<lparr>ct_dequeue := 0, ct_cycle := \<not> ct_cycle c\<rparr>"
    have ctl': "controller_at ?base x ?c" by (rule controller_follows[OF ctl True])
    then have "rings_at view n x k (s, m, ?c)" using assms(1) by (simp add: rings_at_def)
    with step(1)[OF ctl] step(1)[OF ctl'] assms(2) True show thesis by (intro that) (auto simp: controller_run_def)
  next
    case False
    with step(1)[OF ctl] assms show thesis by (intro that) (auto simp: controller_run_def)
  qed
qed

text \<open>A command's whole way: submitted, executed by the controller, and its completion consumed.\<close>

lemma command_round:
  assumes "ok m" and at: "rings_at view n x k (s, m, c)" and idle: "rm_outstanding s = None" and top: "rm_next_sequence s \<noteq> - 1"
  shows "\<exists>receipt s\<^sub>1 m\<^sub>1 event c\<^sub>2 e s\<^sub>2. submit_no_op S s m = (Ok receipt, s\<^sub>1, m\<^sub>1)
    \<and> poll_no_op_completion S receipt s\<^sub>1 m\<^sub>1 = (Ok None, s\<^sub>1)
    \<and> controller_run (rm_command_device_base s) code (view m\<^sub>1 CommandRing) c = Execute event c\<^sub>2
    \<and> ct_executed c\<^sub>2 = ct_executed c @ [oc_command_device_address receipt]
    \<and> poll_no_op_completion S receipt s\<^sub>1 (post (ct_enqueue c * 16) (trb_encode event) m\<^sub>1) = (Ok (Some e), s\<^sub>2)
    \<and> ce_sequence e = rm_next_sequence s \<and> ce_completion_code e = code \<and> rm_outstanding s\<^sub>2 = None
    \<and> rm_next_sequence s\<^sub>2 = rm_next_sequence s + 1"
proof -
  let ?base = "rm_command_device_base s"
  obtain receipt s1 m1 where sub: "submit_no_op S s m = (Ok receipt, s1, m1)" using submit_succeeds[OF assms] by blast
  then have a: "n = k" "x = k" "ok m1" "rings_at view (Suc k) k k (s1, m1, c)" "rm_outstanding s1 = Some receipt"
    "unat (oc_sequence receipt) = Suc k" "oc_command_device_address receipt = command_address ?base k" "rm_command_device_base s1 = ?base"
    using submit_at[OF \<open>ok m\<close> at sub] by auto
  have pend: "poll_no_op_completion S receipt s1 m1 = (Ok None, s1)"
  proof -
    obtain r s2 where p: "poll_no_op_completion S receipt s1 m1 = (r, s2)" by fastforce
    show ?thesis by (cases rule: poll_at[OF a(3,4) p, case_names evidence pending refused]) (use p a(5) in auto)
  qed
  obtain event c2 where run: "controller_run ?base code (view m1 CommandRing) c = Execute event c2"
    and next_c: "\<exists>c1. rings_at view (Suc k) k k (s1, m1, c1) \<and> controller_next ?base code (view m1 CommandRing) c1 = Execute event c2
      \<and> ct_enqueue c1 = ct_enqueue c \<and> ct_executed c1 = ct_executed c"
    and exec: "ct_executed c2 = ct_executed c @ [command_address ?base k]"
    by (rule controller_run_at[OF a(4) refl, of code, unfolded a(8)])
  let ?m = "post (ct_enqueue c * 16) (trb_encode event) m1"
  have m2: "ok ?m" "trb_at (view ?m EventRing) (k mod 256) = completion_trb (command_address ?base k) code (even (k div 256))"
    "rings_at view (Suc k) (Suc k) k (s1, ?m, c2)"
  proof -
    obtain c1 where c1: "rings_at view (Suc k) k k (s1, m1, c1)" "ct_enqueue c1 = ct_enqueue c"
      "controller_next (rm_command_device_base s1) code (view m1 CommandRing) c1 = Execute event c2" using next_c a(8) by auto
    from execute_at[OF a(3) c1(1,3)] c1(2) a(8) show "ok ?m" "rings_at view (Suc k) (Suc k) k (s1, ?m, c2)"
      "trb_at (view ?m EventRing) (k mod 256) = completion_trb (command_address ?base k) code (even (k div 256))" by auto
  qed
  obtain r s2 where poll: "poll_no_op_completion S receipt s1 ?m = (r, s2)" by fastforce
  show ?thesis
  proof (cases rule: poll_at[OF m2(1,3) poll, case_names evidence pending refused])
    case (evidence e)
    have "oc_sequence receipt = rm_next_sequence s"
      using a(1,6) at by (auto simp: rings_at_def driver_at_def word_unat_eq_iff)
    moreover have "unat (rm_next_sequence s2) = Suc (unat (rm_next_sequence s))"
      using evidence(4) at a(1,2) by (auto simp: rings_at_def driver_at_def)
    moreover have "unat (rm_next_sequence s + 1) = Suc (unat (rm_next_sequence s))"
      using top by (metis unatSuc add.commute add_eq_0_iff)
    ultimately have "oc_sequence receipt = rm_next_sequence s" "rm_next_sequence s2 = rm_next_sequence s + 1"
      by (simp_all add: word_unat_eq_iff)
    moreover have "ce_completion_code e = code" using evidence m2(2) by (simp add: completion_fields)
    ultimately show ?thesis using sub pend run exec poll evidence a(7) by auto
  qed (use a(5) in auto)
qed

end

section \<open>The rings in an arena\<close>

definition ring_region :: "xhci_arena \<Rightarrow> dma_purpose \<Rightarrow> region_record \<Rightarrow> bool" where
  "ring_region a p r \<longleftrightarrow> region a p = Some r \<and> rr_phase r = Ready \<and> rr_page_count r = 1"

definition ring_ready :: "xhci_arena \<Rightarrow> bool" where
  "ring_ready a \<longleftrightarrow> arena_wf a \<and> purposes_distinct a \<and> (\<forall>p \<in> ring_purposes. \<exists>r. ring_region a p r)"

text \<open>What the device reads and writes: device addresses are physical addresses, which the CPU sees
  through the direct map.\<close>

definition device_view :: "xhci_arena \<Rightarrow> dma_purpose \<Rightarrow> u8 list" where
  "device_view a p = (case region a p of None \<Rightarrow> []
     | Some r \<Rightarrow> load_bytes (iw_direct_map_base (xa_identity a) + rr_device_address_start r) 4096 (xa_ram a))"

definition device_post :: "nat \<Rightarrow> u8 list \<Rightarrow> xhci_arena \<Rightarrow> xhci_arena" where
  "device_post offset bytes a = (case region a EventRing of None \<Rightarrow> a
     | Some r \<Rightarrow> a\<lparr>xa_ram := store_bytes (iw_direct_map_base (xa_identity a) + rr_device_address_start r + of_nat offset) bytes (xa_ram a)\<rparr>)"

lemma ring_readyE:
  assumes "ring_ready a" and "p \<in> ring_purposes"
  obtains r where "region a p = Some r" and "rr_phase r = Ready" and "rr_page_count r = 1" and "usable r" and "mapped_region a r"
    and "iw_direct_map_base (xa_identity a) + rr_device_address_start r = rr_cpu_start r" and "device_view a p = region_bytes a r"
    and "\<And>offset n. validate_transfer r offset n = Ok () \<longleftrightarrow> offset + n \<le> 4096"
    and "record_for_token a \<lparr>tk_generation = rr_generation r, tk_purpose = p\<rparr> = Ok r"
proof -
  obtain r where r: "region a p = Some r" "rr_phase r = Ready" "rr_page_count r = 1" and wf: "arena_wf a" "purposes_distinct a"
    using assms by (auto simp: ring_ready_def ring_region_def)
  have u: "usable r" using r by (simp add: usable_def)
  note m = usable_mapped(1)[OF wf r(1) u]
  have "unat (iw_direct_map_base (xa_identity a) + rr_device_address_start r) = unat (rr_cpu_start r)"
    using m unat_lt2p[of "rr_cpu_start r"] by (simp add: mapped_region_def unat_word_ariths)
  then have cpu: "iw_direct_map_base (xa_identity a) + rr_device_address_start r = rr_cpu_start r" by (simp add: word_unat_eq_iff)
  show thesis
  proof (rule that[OF r u m cpu])
    show "device_view a p = region_bytes a r" by (simp add: device_view_def region_bytes_def r cpu)
    show "validate_transfer r offset n = Ok () \<longleftrightarrow> offset + n \<le> 4096" for offset n
      using validate_transfer_Ok[OF wf r(1) u] r(3) by simp
    show "record_for_token a \<lparr>tk_generation = rr_generation r, tk_purpose = p\<rparr> = Ok r"
      using r m by (simp add: record_for_token_def mapped_region_def)
  qed
qed

lemma region_ram [simp]: "region (a\<lparr>xa_ram := ram\<rparr>) = region a"
  by (simp add: region_def arena_records_def fun_eq_iff)

lemma ring_ready_ram [simp]: "ring_ready (a\<lparr>xa_ram := ram\<rparr>) = ring_ready a"
  by (simp add: ring_ready_def ring_region_def)

text \<open>A store inside one ring's page, by the CPU or by the device.\<close>

lemma ring_store:
  assumes ready: "ring_ready a" and p: "p \<in> ring_purposes" and r: "region a p = Some r" and fits: "offset + length bs \<le> 4096"
    and b: "b = a\<lparr>xa_ram := store_bytes (rr_cpu_start r + of_nat offset) bs (xa_ram a)\<rparr>"
  shows "ring_ready b \<and> region b = region a
    \<and> (\<forall>q \<in> ring_purposes. device_view b q = (if q = p then overlay (device_view a p) offset bs else device_view a q))"
proof -
  have wf: "arena_wf a" "purposes_distinct a" using ready by (auto simp: ring_ready_def)
  have ready': "ring_ready b" "region b = region a" using ready by (simp_all add: b)
  have "device_view b q = (if q = p then overlay (device_view a p) offset bs else device_view a q)" if q: "q \<in> ring_purposes" for q
  proof -
    obtain rp where rp: "region a p = Some rp" "rr_page_count rp = 1" "usable rp" "device_view a p = region_bytes a rp"
      using ring_readyE[OF ready p] by metis
    obtain rq where rq: "region a q = Some rq" "usable rq" "device_view a q = region_bytes a rq" using ring_readyE[OF ready q] by metis
    obtain rb where "region b q = Some rb" "device_view b q = region_bytes b rb" using ring_readyE[OF ready'(1) q] by metis
    then have vb: "device_view b q = region_bytes b rq" using ready'(2) rq(1) by simp
    have "rp = r" using rp(1) r by simp
    with rp rq vb fits store_in_region[OF wf r _ _ b] show ?thesis by auto
  qed
  with ready' show ?thesis by blast
qed

lemma arena_write_ring:
  assumes ready: "ring_ready a" and p: "p \<in> ring_purposes"
  shows "rs_write arena_storage p offset bytes a = (if bytes = [] then (Err EmptyTransfer, a)
      else case region a p of None \<Rightarrow> (Err (MissingRegion p), a)
        | Some r \<Rightarrow> if offset + length bytes \<le> 4096
            then (Ok (), a\<lparr>xa_ram := store_bytes (rr_cpu_start r + of_nat offset) bytes (xa_ram a)\<rparr>)
            else (Err TransferOutsideRegion, a))"
proof -
  obtain r where r: "region a p = Some r" "\<And>offset n. validate_transfer r offset n = Ok () \<longleftrightarrow> offset + n \<le> 4096"
    "record_for_token a \<lparr>tk_generation = rr_generation r, tk_purpose = p\<rparr> = Ok r"
    by (rule ring_readyE[OF assms]) auto
  have v: "validate_transfer r offset n = (if offset + n \<le> 4096 then Ok () else Err TransferOutsideRegion)" for n
    using r(2)[of offset n] by (auto simp: validate_transfer_def split: option.splits if_splits)
  show ?thesis using r(1) r(3) v[of "length bytes"]
    by (auto simp: arena_storage_def token_def arena_write_def)
qed

lemma arena_read_ring:
  assumes "ring_ready a" and "p \<in> ring_purposes" and "0 < n" and "offset + n \<le> 4096"
  shows "rs_read arena_storage a p offset n = Ok (take n (drop offset (device_view a p)))"
proof -
  obtain r where r: "region a p = Some r" "rr_page_count r = 1" "device_view a p = region_bytes a r"
    "\<And>offset n. validate_transfer r offset n = Ok () \<longleftrightarrow> offset + n \<le> 4096"
    "record_for_token a \<lparr>tk_generation = rr_generation r, tk_purpose = p\<rparr> = Ok r"
    by (rule ring_readyE[OF assms(1,2)]) auto
  have "load_bytes (rr_cpu_start r + of_nat offset) n (xa_ram a) = take n (drop offset (region_bytes a r))"
    using assms(4) r(2) by (intro nth_equalityI) (auto simp: region_bytes_def load_bytes_def add.assoc)
  moreover have "validate_transfer r offset n = Ok ()" using r(4) assms(4) by simp
  ultimately show ?thesis using r(1-3,5) assms(3) by (simp add: arena_storage_def token_def arena_read_def)
qed

interpretation rings: ring_memory arena_storage ring_ready device_view device_post
proof (unfold_locales, goal_cases)
  case (1 a p)
  then obtain r where "device_view a p = region_bytes a r" "rr_page_count r = 1" using ring_readyE[of a p] by metis
  then show ?case by simp
next
  case (2 a p offset bytes u b)
  then obtain r where r: "region a p = Some r" "offset + length bytes \<le> 4096"
    "b = a\<lparr>xa_ram := store_bytes (rr_cpu_start r + of_nat offset) bytes (xa_ram a)\<rparr>"
    by (auto simp: arena_write_ring split: if_splits option.splits)
  from ring_store[OF 2(1,2) r] r(2) show ?case by (simp add: arena_storage_def)
next
  case (3 a p offset bytes e b)
  then show ?case by (auto simp: arena_write_ring split: if_splits option.splits)
next
  case (4 a p bytes offset)
  then obtain r where "region a p = Some r" using ring_readyE[of a p] by metis
  with 4 show ?case by (simp add: arena_write_ring)
next
  case (5 a p n offset)
  then show ?case by (rule arena_read_ring)
next
  case (6 a offset bytes)
  then obtain r where r: "region a EventRing = Some r" "iw_direct_map_base (xa_identity a) + rr_device_address_start r = rr_cpu_start r"
    using ring_readyE[of a EventRing] by (metis command_purposes(2))
  from ring_store[OF 6(1) _ r(1) 6(2) refl] r show ?case by (simp add: device_post_def arena_storage_def)
qed

text \<open>Every built arena carries the rings, and initialization succeeds on it.\<close>

lemma built_ring_ready:
  assumes "frame_wf frames" and "arena_allocate frames ram w c s secret = (Ok (), a)"
  shows "ring_ready a"
proof -
  note ok = arena_allocate_sound(2)[OF assms refl]
  then have plan: "map (\<lambda>r. (rr_purpose r, rr_page_count r)) (arena_records a) = region_plan c" and wf: "arena_wf a" by auto
  have "map rr_purpose (arena_records a) = map fst (region_plan c)" unfolding plan[symmetric] by simp
  then have d: "purposes_distinct a" by (simp add: purposes_distinct_def region_plan_def)
  have "\<exists>r. ring_region a p r" if "p \<in> ring_purposes" for p
  proof -
    have "(p, 1) \<in> set (map (\<lambda>r. (rr_purpose r, rr_page_count r)) (arena_records a))"
      unfolding plan using that by (auto simp: ring_purposes_def region_plan_def)
    then obtain r where "r \<in> set (arena_records a)" "rr_purpose r = p" "rr_page_count r = 1" by auto
    with ok show ?thesis by (auto simp: ring_region_def region_Some_iff[OF d])
  qed
  with wf d show ?thesis by (simp add: ring_ready_def)
qed

lemma ring_regions_apart:
  assumes ready: "ring_ready a" and r: "region a p = Some r" "rr_phase r = Ready" "rr_page_count r = 1"
    and q: "region a p' = Some q" "rr_phase q = Ready" "rr_page_count q = 1" and "p \<noteq> p'"
  shows "\<not> overlaps r q"
proof
  have wf: "arena_wf a" "purposes_distinct a" using ready by (auto simp: ring_ready_def)
  have u: "usable r" "usable q" using r q by (auto simp: usable_def)
  have m: "mapped_region a r" "mapped_region a q" using usable_mapped(1)[OF wf] r(1) q(1) u by auto
  have mem: "r \<in> set (arena_records a)" "rr_purpose r = p" "q \<in> set (arena_records a)" "rr_purpose q = p'"
    using r(1) q(1) by (auto simp: region_Some_iff[OF wf(2)])
  let ?s = "unat (rr_physical_start r)" and ?t = "unat (rr_physical_start q)"
  assume "overlaps r q"
  then have meet: "?s < ?t + 4096" "?t < ?s + 4096" using m r(3) q(3) by (auto simp: overlaps_def mapped_region_def word_less_nat_alt)
  let ?k = "max ?s ?t - ?s" and ?l = "max ?s ?t - ?t"
  have kl: "?k < rr_page_count r * 4096" "?l < rr_page_count q * 4096" using meet r(3) q(3) by (auto simp: max_def)
  have "unat (rr_cpu_start r + of_nat ?k) = unat (rr_cpu_start q + of_nat ?l)"
    unfolding cpu_byte[OF m(1) kl(1)] cpu_byte[OF m(2) kl(2)] by simp
  then show False using regions_apart[OF wf(1) mem(1) u(1) mem(3) u(2) _ kl] mem(2,4) \<open>p \<noteq> p'\<close> by (simp add: word_unat_eq_iff)
qed

lemma ring_validated:
  assumes "ring_ready a" and "p \<in> ring_purposes" and "g = None \<or> g = Some (iw_generation (xa_identity a))"
  shows "\<exists>r. validated_region arena_storage p g a = Ok r \<and> region a p = Some r \<and> rr_phase r = Ready \<and> rr_page_count r = 1
    \<and> rr_generation r = iw_generation (xa_identity a)"
proof -
  obtain r where r: "region a p = Some r" "rr_phase r = Ready" "rr_page_count r = 1" "usable r" "mapped_region a r"
    by (rule ring_readyE[OF assms(1,2)])
  have wf: "arena_wf a" "purposes_distinct a" using assms(1) by (auto simp: ring_ready_def)
  obtain i where "i < xa_record_count a" "r = xa_records a ! i" using region_index[OF wf(1)] r(1) by (metis region_Some_iff[OF wf(2)])
  then have "is_page_aligned (rr_physical_start r)" using arena_wfD(4)[OF wf(1)] usable_live[OF r(4)] by (auto simp: owned_run_def)
  then have "unat (rr_physical_start r mod 4096) = 0" by (simp add: is_page_aligned_iff unat_mod mod_eq_0_iff_dvd)
  then have al: "rr_device_address_start r mod 4096 = 0" using r(5) by (simp add: mapped_region_def unat_eq_zero)
  have len: "region_byte_length r = 4096" using mapped_region_length(1)[OF r(5)] r(3) by simp
  have e: "unat (rr_device_address_start r) + 4096 = unat (rr_device_address_end r)" using r(3,5) by (simp add: mapped_region_def)
  then have "checked_add (rr_device_address_start r) 4096 = Some (rr_device_address_end r)"
    using unat_lt2p[of "rr_device_address_end r"] by (auto simp: checked_add_def word_unat_eq_iff unat_word_ariths)
  moreover have "rr_purpose r = p" "rr_generation r = iw_generation (xa_identity a)"
    using r(1,5) by (auto simp: region_Some_iff[OF wf(2)] mapped_region_def)
  ultimately show ?thesis using r al len assms(3) by (auto simp: validated_region_def arena_storage_def)
qed

lemma initialize_succeeds:
  assumes "ring_ready a" and "secret \<noteq> 0"
  shows "\<exists>s b. initialize arena_storage secret a = (Ok s, b) \<and> rm_generation s = iw_generation (xa_identity a)"
proof -
  note v = ring_validated[OF assms(1)]
  let ?g = "iw_generation (xa_identity a)"
  obtain command event erst where c: "validated_region arena_storage CommandRing None a = Ok command" "region a CommandRing = Some command"
      "rr_phase command = Ready" "rr_page_count command = 1" "rr_generation command = ?g"
    and ev: "validated_region arena_storage EventRing (Some ?g) a = Ok event" "region a EventRing = Some event"
      "rr_phase event = Ready" "rr_page_count event = 1"
    and er: "validated_region arena_storage EventRingSegmentTable (Some ?g) a = Ok erst" "region a EventRingSegmentTable = Some erst"
      "rr_phase erst = Ready" "rr_page_count erst = 1"
    using v[of CommandRing None] v[of EventRing "Some ?g"] v[of EventRingSegmentTable "Some ?g"] by auto
  have "\<not> overlaps command event" "\<not> overlaps command erst" "\<not> overlaps event erst"
    using ring_regions_apart[OF assms(1)] c ev er by auto
  moreover obtain b where "initialize_regions arena_storage command event a = (Ok (), b)"
    using rings.initialize_regions_succeeds[OF assms(1)] by blast
  ultimately show ?thesis using c ev er assms(2) by (simp add: initialize_def initialize_inner_def Let_def)
qed

lemma reachable_rings:
  assumes "frame_wf frames" and "arena_allocate frames ram w n wide secret = (Ok (), a\<^sub>0)"
    and "initialize arena_storage ring_secret a\<^sub>0 = (Ok s\<^sub>0, a\<^sub>1)"
    and "(ring_step arena_storage device_view device_post)\<^sup>*\<^sup>* (s\<^sub>0, a\<^sub>1, controller_start) (s, a, c)"
  shows "ring_ready a \<and> (\<exists>n x k. rings_at device_view n x k (s, a, c))"
  using rings.driven.inv_reachable[OF _ assms(4)] built_ring_ready[OF assms(1,2)] assms(3) by (auto simp: initialize_def)

section \<open>An untrusted controller\<close>

text \<open>
  The event ring is memory the device writes. Here nothing is assumed about the device: between two
  calls of the driver it may change the storage in any way. The step relation records the receipts of the
  accepted commands and the evidence of the delivered completions, in order.\<close>

definition accepted :: "'e ring_error + command_receipt \<Rightarrow> command_receipt list" where
  "accepted r = (case r of Err _ \<Rightarrow> [] | Ok c \<Rightarrow> [c])"

definition delivered :: "'e ring_error + completion_evidence option \<Rightarrow> completion_evidence list" where
  "delivered r = (case r of Ok (Some e) \<Rightarrow> [e] | _ \<Rightarrow> [])"

inductive untrusted_step for S :: "('m, 'e) ring_storage" where
  submit: "submit_no_op S s m = (r, s', m') \<Longrightarrow> untrusted_step S (s, m, cs, es) (s', m', cs @ accepted r, es)"
| poll: "poll_no_op_completion S receipt s m = (r, s') \<Longrightarrow> untrusted_step S (s, m, cs, es) (s', m, cs, es @ delivered r)"
| device: "untrusted_step S (s, m, cs, es) (s, m', cs, es)"

text \<open>What an event must say to complete a command: its type, the exact address of the command, and zero
  in the upper half of the control word, which holds the virtual function and the slot.\<close>

definition answers :: "raw_trb \<Rightarrow> command_receipt \<Rightarrow> bool" where
  "answers event c \<longleftrightarrow> trb_type event = TRB_TYPE_COMMAND_COMPLETION_EVENT
     \<and> trb_parameter event = oc_command_device_address c \<and> drop_bit 16 (trb_control event) = 0"

definition conversation :: "ring_machine \<Rightarrow> command_receipt list \<Rightarrow> completion_evidence list \<Rightarrow> bool" where
  "conversation s cs es \<longleftrightarrow> driver_at (length cs) (length es) s \<and> length es \<le> length cs \<and> length cs \<le> Suc (length es)
     \<and> (length cs = Suc (length es) \<longrightarrow> rm_outstanding s = Some (List.last cs))
     \<and> (\<forall>k < length cs. unat (oc_sequence (cs ! k)) = Suc k \<and> oc_generation (cs ! k) = rm_generation s)
     \<and> (\<forall>k < length es. ce_sequence (es ! k) = oc_sequence (cs ! k) \<and> ce_generation (es ! k) = rm_generation s)"

lemma control_upper_half:
  "drop_bit 16 w = 0 \<longleftrightarrow> ucast (drop_bit 16 w AND 0xff) = (0 :: u8) \<and> ucast (drop_bit 24 w) = (0 :: u8)" for w :: u32
proof -
  have "drop_bit 16 w = 0" if low: "ucast (drop_bit 16 w AND 0xff) = (0 :: u8)" and high: "ucast (drop_bit 24 w) = (0 :: u8)"
  proof (rule bit_word_eqI)
    fix n assume n: "n < LENGTH(32)"
    have lo: "\<not> bit w (16 + i)" if "i < 8" for i
    proof -
      have "\<not> bit (ucast (drop_bit 16 w AND 0xff) :: u8) i" unfolding low by simp
      moreover have "(0xff :: u32) = mask 8" by (simp add: mask_eq_exp_minus_1)
      ultimately show ?thesis using that by (simp add: bit_simps)
    qed
    have hi: "\<not> bit w (24 + i)" if "i < 8" for i
    proof -
      have "\<not> bit (ucast (drop_bit 24 w) :: u8) i" unfolding high by simp
      then show ?thesis using that by (simp add: bit_simps)
    qed
    have "\<not> bit w (16 + n)" using lo[of n] hi[of "n - 8"] n bit_imp_le_length[of w "16 + n"] by (cases "n < 8"; cases "n < 16") auto
    then show "bit (drop_bit 16 w) n \<longleftrightarrow> bit (0 :: u32) n" by (simp add: bit_simps)
  qed
  moreover have "drop_bit 24 w = 0" if "drop_bit 16 w = 0"
    using arg_cong[OF that, of "drop_bit 8"] by simp
  ultimately show ?thesis by (metis and_zero_eq ucast_0 and.commute)
qed

lemma check_completion_iff:
  assumes "oc_command_device_address c AND 0xf = 0"
  shows "check_completion c event = Ok () \<longleftrightarrow> answers event c"
  using assms by (auto simp: check_completion_def answers_def control_upper_half Let_def)

lemma initialize_conversation:
  assumes "initialize_inner S secret expected m = (Ok s, m')"
  shows "conversation s [] []"
proof (rule initialize_inner_Ok[OF assms])
  fix command event erst
  assume "validated_region S CommandRing None m = Ok command"
  note base = validated_region_base[OF this]
  assume s: "s = \<lparr>rm_generation = rr_generation command, rm_command_device_base = rr_device_address_start command,
      rm_event_device_base = rr_device_address_start event, rm_erst_device_base = rr_device_address_start erst,
      rm_producer_index = 0, rm_producer_cycle = True, rm_event_index = 0, rm_event_cycle = True,
      rm_next_sequence = 1, rm_outstanding = None, rm_ring_root = ring_root secret (rr_generation command) command event erst\<rparr>"
  show ?thesis unfolding s using base by (simp add: driver_at_def conversation_def)
qed

lemma conversation_outstanding:
  assumes "conversation s cs es"
  shows "rm_outstanding s = (if length cs = length es then None else Some (List.last cs))"
  using assms by (auto simp: conversation_def driver_at_def)

lemma submit_conversation:
  assumes con: "conversation s cs es" and run: "submit_no_op S s m = (r, s', m')"
  shows "conversation s' (cs @ accepted r) es"
proof (cases r)
  case (Inl e)
  then have "s' = s" using run by (auto simp: submit_no_op_def Let_def split: if_splits option.splits sum.splits prod.splits)
  with con Inl show ?thesis by (simp add: accepted_def)
next
  case (Inr c)
  have driver: "driver_at (length cs) (length es) s" using con by (simp add: conversation_def)
  have idle: "rm_outstanding s = None" "rm_next_sequence s \<noteq> - 1" using run Inr by (auto simp: submit_no_op_def split: if_splits)
  then have eq: "length es = length cs" using driver by (simp add: driver_at_def)
  have "rm_producer_index s = length cs mod 255" using driver by (simp add: driver_at_def)
  then have rec: "record_submission (command_address (rm_command_device_base s) (length cs)) s = (c, s')"
    using run Inr idle command_slot_address[OF driver]
    by (auto simp: submit_no_op_def Let_def simp del: of_nat_mult split: if_splits option.splits sum.splits prod.splits)
  from record_submission_at[OF _ idle(2) rec] driver eq con record_submission_fields(11)[OF rec] show ?thesis
    by (auto simp: conversation_def accepted_def Inr nth_append less_Suc_eq)
qed

lemma conversation_pending:
  assumes con: "conversation s cs es" and n: "length cs = Suc (length es)"
  shows "rm_outstanding s = Some (List.last cs)" and "driver_at (Suc (length es)) (length es) s"
    and "rm_event_index s = length es mod 256" and "rm_event_cycle s = even (length es div 256)" and "cs ! length es = List.last cs"
    and "check_completion (List.last cs) event = Ok () \<longleftrightarrow> answers event (List.last cs)"
proof -
  show out: "rm_outstanding s = Some (List.last cs)" using conversation_outstanding[OF con] n by simp
  show driver: "driver_at (Suc (length es)) (length es) s" using con n by (simp add: conversation_def)
  show "rm_event_index s = length es mod 256" "rm_event_cycle s = even (length es div 256)" using driver by (auto simp: driver_at_def)
  show "cs ! length es = List.last cs" using n by (metis last_conv_nth diff_Suc_1 list.size(3) nat.simps(3))
  have "oc_command_device_address (List.last cs) = command_address (rm_command_device_base s) (length es)"
    using driver out by (auto simp: driver_at_def)
  then show "check_completion (List.last cs) event = Ok () \<longleftrightarrow> answers event (List.last cs)"
    by (intro check_completion_iff) (simp add: command_address_aligned[OF driver])
qed

lemma poll_conversation:
  fixes S :: "('m, 'e) ring_storage"
  assumes con: "conversation s cs es" and run: "poll_no_op_completion S receipt s m = (r, s')"
  obtains (evidence) e event where "r = Ok (Some e)" and "length cs = Suc (length es)" and "receipt = List.last cs"
      and "read_trb S EventRing (length es mod 256 * 16) m = Ok event" and "trb_cycle event = even (length es div 256)"
      and "answers event receipt" and "ce_sequence e = oc_sequence receipt" and "ce_completion_code e = ucast (drop_bit 24 (trb_status event))"
      and "conversation s' cs (es @ [e])"
  | (pending) event where "r = Ok None" and "s' = s" and "length cs = Suc (length es)" and "receipt = List.last cs"
      and "read_trb S EventRing (length es mod 256 * 16) m = Ok event" and "trb_cycle event \<noteq> even (length es div 256)"
  | (unread) e x where "r = Err x" and "s' = s" and "read_trb S EventRing (length es mod 256 * 16) m = Err e"
  | (foreign) x event where "r = Err x" and "s' = s" and "read_trb S EventRing (length es mod 256 * 16) m = Ok event"
      and "trb_cycle event = even (length es div 256)" and "\<not> answers event receipt"
  | (refused) x where "r = Err x" and "s' = s" and "length cs = Suc (length es) \<longrightarrow> receipt \<noteq> List.last cs"
proof (cases "length cs = Suc (length es) \<and> receipt = List.last cs")
  case False
  with conversation_outstanding[OF con] con obtain x where "r = Err x" "s' = s"
    using run by (auto simp: poll_no_op_completion_def conversation_def receipt_matches_eq split: if_splits)
  with False show thesis by (intro refused) auto
next
  case True
  then have n: "length cs = Suc (length es)" and last: "receipt = List.last cs" by auto
  note out = conversation_pending(1)[OF con n, folded last] and driver = conversation_pending(2)[OF con n]
    and at = conversation_pending(3,4)[OF con n]
  have check: "(check_completion receipt event :: 'e ring_error + unit) = Ok () \<longleftrightarrow> answers event receipt" for event
    unfolding last by (rule conversation_pending(6)[OF con n])
  show thesis
  proof (cases "read_trb S EventRing (length es mod 256 * 16) m")
    case (Inl e)
    with run out at show thesis by (intro unread) (auto simp: poll_no_op_completion_def receipt_matches_eq)
  next
    case (Inr event)
    consider "trb_cycle event \<noteq> even (length es div 256)"
      | "trb_cycle event = even (length es div 256)" "\<not> answers event receipt"
      | "trb_cycle event = even (length es div 256)" "answers event receipt" by blast
    then show thesis
    proof cases
      case 1
      with run out at Inr n last show thesis by (intro pending) (auto simp: poll_no_op_completion_def receipt_matches_eq)
    next
      case 2
      then obtain x where "(check_completion receipt event :: 'e ring_error + unit) = Err x"
        using check[of event] by (cases "check_completion receipt event :: 'e ring_error + unit") auto
      with run out at Inr 2 show thesis by (intro foreign) (auto simp: poll_no_op_completion_def receipt_matches_eq)
    next
      case 3
      obtain e s2 where c: "consume_completion receipt event s = (e, s2)" by fastforce
      then have r: "r = Ok (Some e)" "s' = s2"
        using run out at Inr 3 check[of event] by (auto simp: poll_no_op_completion_def receipt_matches_eq)
      note d = consume_completion_at[OF driver c]
      have g: "rm_generation s2 = rm_generation s" using c by (auto simp: consume_completion_def advance_event_def Let_def)
      have "conversation s' cs (es @ [e])"
        using con d n r g conversation_pending(5)[OF con n, folded last] by (auto simp: conversation_def nth_append less_Suc_eq)
      with r n last Inr 3 d show thesis by (intro evidence) auto
    qed
  qed
qed

interpretation guarded: invariant_system
  "\<lambda>(s, m, cs, es). cs = [] \<and> es = [] \<and> (\<exists>secret expected m\<^sub>0. initialize_inner S secret expected m\<^sub>0 = (Ok s, m))"
  "untrusted_step S" "\<lambda>(s, m, cs, es). conversation s cs es" for S :: "('m, 'e) ring_storage"
proof unfold_locales
  fix st st' assume inv: "case st of (s, m, cs, es) \<Rightarrow> conversation s cs es" and "untrusted_step S st st'"
  from this(2) show "case st' of (s, m, cs, es) \<Rightarrow> conversation s cs es"
  proof cases
    case (submit s m r s' m' cs es)
    with inv submit_conversation[OF _ submit(3)] show ?thesis by simp
  next
    case (poll receipt s m r s' cs es)
    with inv have "conversation s cs es" by simp
    then show ?thesis
      by (cases rule: poll_conversation[OF _ poll(3), case_names con evidence pending unread foreign refused])
        (auto simp: poll(2) delivered_def)
  qed (use inv in auto)
qed (auto dest: initialize_conversation)

text \<open>The cooperating controller above is one of the devices allowed here.\<close>

lemma genuine_is_untrusted:
  assumes "(ring_step S view post)\<^sup>*\<^sup>* (s\<^sub>0, m\<^sub>0, c\<^sub>0) (s, m, c)"
  shows "\<exists>cs es. (untrusted_step S)\<^sup>*\<^sup>* (s\<^sub>0, m\<^sub>0, [], []) (s, m, cs, es)"
  using assms
proof (induction "(s, m, c)" arbitrary: s m c rule: rtranclp_induct)
  case (step y)
  obtain s' m' c' where y: "y = (s', m', c')" by (cases y)
  from step(3)[OF y] obtain cs es where "(untrusted_step S)\<^sup>*\<^sup>* (s\<^sub>0, m\<^sub>0, [], []) (s', m', cs, es)" by blast
  moreover from step(2)[unfolded y] have "\<exists>cs' es'. untrusted_step S (s', m', cs, es) (s, m, cs', es')"
    by (cases rule: ring_step.cases) (auto intro: untrusted_step.intros)
  ultimately show ?case by (meson rtranclp.rtrancl_into_rtrancl)
qed auto

text \<open>A receipt whose evidence has been delivered is refused.\<close>

lemma delivered_refused:
  assumes con: "conversation s cs es" and k: "k < length es"
  shows "\<exists>x. poll_no_op_completion S (cs ! k) s m = (Err x, s)"
proof -
  have "cs ! k \<noteq> List.last cs" if n: "length cs = Suc (length es)"
  proof
    assume "cs ! k = List.last cs"
    moreover have "unat (oc_sequence (cs ! k)) = Suc k" "unat (oc_sequence (cs ! length es)) = Suc (length es)"
      using con k n by (simp_all add: conversation_def)
    ultimately show False using conversation_pending(5)[OF con n] k by simp
  qed
  with conversation_outstanding[OF con] con show ?thesis
    by (auto simp: poll_no_op_completion_def receipt_matches_eq conversation_def)
qed

section \<open>The bytes of a publication\<close>

text \<open>A storage that records the bytes written, in order: what an observer of the memory sees happen.\<close>

definition byte_stores :: "nat \<Rightarrow> u8 list \<Rightarrow> (nat \<times> u8) list" where
  "byte_stores offset bytes = zip [offset ..< offset + length bytes] bytes"

definition recorder :: "((nat \<times> u8) list, unit) ring_storage" where
  "recorder = \<lparr>rs_region = (\<lambda>_ _. None),
     rs_write = (\<lambda>purpose offset bytes log. (Ok (), log @ byte_stores offset bytes)),
     rs_read = (\<lambda>_ _ _ _. Err ())\<rparr>"

definition publication_bytes :: "raw_trb \<Rightarrow> bool \<Rightarrow> (nat \<times> u8) list" where
  "publication_bytes t cycle = snd (publish_trb recorder CommandRing 0 t cycle [])"

definition pokes :: "(nat \<times> u8) list \<Rightarrow> u8 list \<Rightarrow> u8 list" where
  "pokes log slot = fold (\<lambda>(i, b) xs. xs[i := b]) log slot"

lemma pokes_append [simp]: "pokes (log @ log') slot = pokes log' (pokes log slot)"
  by (simp add: pokes_def)

lemma length_pokes [simp]: "length (pokes log slot) = length slot"
  by (induction log arbitrary: slot) (auto simp: pokes_def split: prod.splits)

lemma length_byte_stores [simp]: "length (byte_stores offset bs) = length bs"
  by (simp add: byte_stores_def)

lemma byte_stores_Cons [simp]: "byte_stores offset (b # bs) = (offset, b) # byte_stores (Suc offset) bs"
  by (simp add: byte_stores_def upt_conv_Cons del: upt_Suc)

lemma pokes_byte_stores:
  assumes "offset + length bs \<le> length slot"
  shows "pokes (byte_stores offset bs) slot = overlay slot offset bs"
  using assms
proof (induction bs arbitrary: offset slot)
  case (Cons b bs)
  have "pokes (byte_stores offset (b # bs)) slot = overlay (slot[offset := b]) (Suc offset) bs"
    using Cons.IH[of "Suc offset" "slot[offset := b]"] Cons.prems by (simp add: pokes_def)
  also have "\<dots> = overlay slot offset (b # bs)"
    using Cons.prems by (intro nth_equalityI) (auto simp: nth_overlay nth_list_update nth_Cons')
  finally show ?case .
qed (simp add: pokes_def overlay_def byte_stores_def)

lemma publication_bytes_eq:
  "publication_bytes t cycle = byte_stores 12 (to_le_bytes (invisible t cycle)) @ byte_stores 0 (take 12 (trb_encode t))
     @ byte_stores 12 (to_le_bytes (trb_control t))"
  by (simp add: publication_bytes_def publish_trb_def recorder_def invisible_def Let_def)

text \<open>The cycle bit is the lowest bit of byte 12, and the hidden control word agrees with the final
  one everywhere else.\<close>

lemma cycle_byte:
  assumes "length slot = 16"
  shows "trb_cycle (trb_decode slot) = bit (slot ! 12) 0"
proof -
  have "trb_cycle (trb_decode slot) = bit (from_le_bytes (take 4 (drop 12 slot)) :: u32) 0"
    by (simp add: trb_cycle_def trb_decode_def and_one_eq bit_0 odd_iff_mod_2_eq_one)
  then show ?thesis using assms by (simp add: bit_from_le_bytes)
qed

lemma invisible_bytes:
  assumes "i < 4" and "i \<noteq> 0"
  shows "to_le_bytes (invisible t cycle) ! i = to_le_bytes (trb_control t) ! i"
proof (rule bit_word_eqI)
  fix n assume n: "n < LENGTH(8)"
  have "(1 :: u32) = mask 1" by (simp add: mask_eq_exp_minus_1)
  then show "bit (to_le_bytes (invisible t cycle) ! i) n = bit (to_le_bytes (trb_control t) ! i) n"
    using assms n by (auto simp: nth_to_le_bytes bit_simps invisible_def)
qed

lemma invisible_byte: "bit (to_le_bytes (invisible t cycle) ! 0) 0 = (\<not> cycle)"
proof -
  have "bit (to_le_bytes (invisible t cycle) ! 0) 0 = bit (invisible t cycle) 0"
    by (simp add: nth_to_le_bytes bit_simps del: bit_0)
  also have "\<dots> = trb_cycle (t\<lparr>trb_control := invisible t cycle\<rparr>)"
    by (simp add: trb_cycle_def and_one_eq bit_0 odd_iff_mod_2_eq_one)
  finally show ?thesis by (simp add: invisible_control)
qed

text \<open>The slot after the first \<open>j\<close> stores of a publication: first hidden, then the payload, then
  revealed by byte 12.\<close>

lemma pokes_take_byte_stores:
  assumes "offset + length bs \<le> length slot"
  shows "pokes (take j (byte_stores offset bs)) slot = overlay slot offset (take j bs)"
proof -
  have "take j (byte_stores offset bs) = byte_stores offset (take j bs)" by (induction bs arbitrary: j offset) (auto simp: byte_stores_def[of _ "[]"] take_Cons split: nat.splits)
  then show ?thesis using pokes_byte_stores[of offset "take j bs" slot] assms by simp
qed

lemma hidden_prefix:
  assumes "length slot = 16" and "trb_cycle (trb_decode slot) \<noteq> cycle" and "j \<le> 16"
  shows "trb_cycle (trb_decode (pokes (take j (publication_bytes t cycle)) slot)) \<noteq> cycle"
proof -
  let ?first = "overlay slot 12 (take j (to_le_bytes (invisible t cycle)))"
  have split: "pokes (take j (publication_bytes t cycle)) slot = overlay ?first 0 (take (j - 4) (take 12 (trb_encode t)))"
    unfolding publication_bytes_eq
    using pokes_take_byte_stores[of 12 "to_le_bytes (invisible t cycle)" slot j]
      pokes_take_byte_stores[of 0 "take 12 (trb_encode t)" ?first "j - 4"] assms by simp
  have "pokes (take j (publication_bytes t cycle)) slot ! 12 = ?first ! 12"
    unfolding split using assms by (subst nth_overlay) auto
  moreover have "bit (?first ! 12) 0 \<noteq> cycle"
    using assms cycle_byte[OF assms(1)] invisible_byte[of t cycle] by (cases "j = 0") (auto simp: nth_overlay)
  ultimately show ?thesis using assms(1) by (simp add: cycle_byte)
qed

lemma revealed_prefix:
  assumes "length slot = 16" and "16 < j"
  shows "pokes (take j (publication_bytes t cycle)) slot = trb_encode t"
proof -
  let ?hidden = "overlay (overlay slot 12 (to_le_bytes (invisible t cycle))) 0 (take 12 (trb_encode t))"
  have "pokes (take j (publication_bytes t cycle)) slot = overlay ?hidden 12 (take (j - 16) (to_le_bytes (trb_control t)))"
    unfolding publication_bytes_eq
    using pokes_take_byte_stores[of 12 "to_le_bytes (invisible t cycle)" slot j]
      pokes_take_byte_stores[of 0 "take 12 (trb_encode t)" "overlay slot 12 (to_le_bytes (invisible t cycle))" "j - 4"]
      pokes_take_byte_stores[of 12 "to_le_bytes (trb_control t)" ?hidden "j - 16"] assms by simp
  also have "\<dots> = trb_encode t"
  proof (rule nth_equalityI)
    fix i assume i: "i < length (overlay ?hidden 12 (take (j - 16) (to_le_bytes (trb_control t))))"
    then have i: "i < 16" using assms by simp
    show "overlay ?hidden 12 (take (j - 16) (to_le_bytes (trb_control t))) ! i = trb_encode t ! i"
      using i assms invisible_bytes[of "i - 12" t cycle] by (auto simp: nth_overlay trb_encode_def nth_append)
  qed (use assms in simp)
  finally show ?thesis .
qed

section \<open>Theorems\<close>

text \<open>
  On every arena that was built, ring initialization succeeds. The register
  values point the controller at the three ring pages, the segment table names the event ring
  and its 256 entries, all command and event slots are empty for a controller that starts with
  cycle one, and the last command slot links back to the first.\<close>

theorem rings_initialize:
  assumes "frame_wf frames" and "arena_allocate frames ram w n wide secret = (Ok (), a)" and "ring_secret \<noteq> 0"
  shows "\<exists>s b command event erst. initialize arena_storage ring_secret a = (Ok s, b)
    \<and> region a CommandRing = Some command \<and> region a EventRing = Some event \<and> region a EventRingSegmentTable = Some erst
    \<and> register_program s = \<lparr>rp_command_ring_control = rr_device_address_start command OR 1, rp_event_ring_segment_table_size = 1,
        rp_event_ring_segment_table_base = rr_device_address_start erst, rp_event_ring_dequeue_pointer = rr_device_address_start event\<rparr>
    \<and> take 16 (device_view b EventRingSegmentTable) = to_le_bytes (rr_device_address_start event) @ to_le_bytes (256 :: u32) @ [0, 0, 0, 0]
    \<and> (\<forall>i < 255. trb_at (device_view b CommandRing) i = trb_ZERO) \<and> (\<forall>i < 256. trb_at (device_view b EventRing) i = trb_ZERO)
    \<and> trb_at (device_view b CommandRing) 255 = link_trb (rr_device_address_start command) True"
proof -
  note ready = built_ring_ready[OF assms(1,2)]
  obtain s b where run: "initialize arena_storage ring_secret a = (Ok s, b)" using initialize_succeeds[OF ready assms(3)] by blast
  obtain command event erst where c: "validated_region arena_storage CommandRing None a = Ok command"
    "initialize_regions arena_storage command event a = (Ok (), b)"
    "s = \<lparr>rm_generation = rr_generation command, rm_command_device_base = rr_device_address_start command,
      rm_event_device_base = rr_device_address_start event, rm_erst_device_base = rr_device_address_start erst,
      rm_producer_index = 0, rm_producer_cycle = True, rm_event_index = 0, rm_event_cycle = True,
      rm_next_sequence = 1, rm_outstanding = None, rm_ring_root = ring_root ring_secret (rr_generation command) command event erst\<rparr>"
    "validated_region arena_storage EventRing (Some (rr_generation command)) a = Ok event"
    "validated_region arena_storage EventRingSegmentTable (Some (rr_generation command)) a = Ok erst"
    by (rule initialize_inner_Ok[OF run[unfolded initialize_def]])
  have reg: "region a p = Some r" if "validated_region arena_storage p g a = Ok r" for p g r
    using that by (auto simp: validated_region_def arena_storage_def split: option.splits if_splits)
  note v = rings.initialize_regions_view[OF ready c(2)]
  have "register_program s = \<lparr>rp_command_ring_control = rr_device_address_start command OR 1, rp_event_ring_segment_table_size = 1,
        rp_event_ring_segment_table_base = rr_device_address_start erst, rp_event_ring_dequeue_pointer = rr_device_address_start event\<rparr>"
    by (simp add: c(3) register_program_def)
  with run reg[OF c(1)] reg[OF c(4)] reg[OF c(5)] v(3-6) show ?thesis by blast
qed

text \<open>
  C9 (liveness). A command always comes back. In every state that driver and controller can
  reach, around the end of either ring as well, if no command is outstanding and the sequence
  numbers are not used up, a submission succeeds; the controller's next execution, following the
  link where it stands at one, is of that command; and polling with the receipt, which reports nothing before, then
  returns its completion with the command's sequence number and the controller's code, and leaves
  the driver ready for the next.\<close>

theorem command_comes_back:
  assumes "frame_wf frames" and "arena_allocate frames ram w n wide secret = (Ok (), a\<^sub>0)"
    and "initialize arena_storage ring_secret a\<^sub>0 = (Ok s\<^sub>0, a\<^sub>1)"
    and "(ring_step arena_storage device_view device_post)\<^sup>*\<^sup>* (s\<^sub>0, a\<^sub>1, controller_start) (s, a, c)"
    and "rm_outstanding s = None" and "rm_next_sequence s \<noteq> - 1"
  shows "\<exists>receipt s\<^sub>1 b event c\<^sub>2 e s\<^sub>2. submit_no_op arena_storage s a = (Ok receipt, s\<^sub>1, b)
    \<and> poll_no_op_completion arena_storage receipt s\<^sub>1 b = (Ok None, s\<^sub>1)
    \<and> controller_run (rm_command_device_base s) code (device_view b CommandRing) c = Execute event c\<^sub>2
    \<and> ct_executed c\<^sub>2 = ct_executed c @ [oc_command_device_address receipt]
    \<and> poll_no_op_completion arena_storage receipt s\<^sub>1 (device_post (ct_enqueue c * 16) (trb_encode event) b) = (Ok (Some e), s\<^sub>2)
    \<and> ce_sequence e = rm_next_sequence s \<and> ce_completion_code e = code \<and> rm_outstanding s\<^sub>2 = None
    \<and> rm_next_sequence s\<^sub>2 = rm_next_sequence s + 1"
proof -
  obtain n x k where "ring_ready a" "rings_at device_view n x k (s, a, c)" using reachable_rings[OF assms(1-4)] by blast
  then show ?thesis by (rule rings.command_round[OF _ _ assms(5,6)])
qed

text \<open>With the cooperating controller more is known: evidence arrives only after the controller has executed
  exactly the command it is for, and no poll with the outstanding receipt fails.\<close>

theorem completions_follow_execution:
  assumes "frame_wf frames" and "arena_allocate frames ram w n wide secret = (Ok (), a\<^sub>0)"
    and "initialize arena_storage ring_secret a\<^sub>0 = (Ok s\<^sub>0, a\<^sub>1)"
    and "(ring_step arena_storage device_view device_post)\<^sup>*\<^sup>* (s\<^sub>0, a\<^sub>1, controller_start) (s, a, c)"
  shows "case poll_no_op_completion arena_storage receipt s a of
      (Ok (Some e), s') \<Rightarrow> rm_outstanding s = Some receipt \<and> rm_outstanding s' = None \<and> ce_sequence e = oc_sequence receipt
        \<and> length (ct_executed c) = unat (ce_sequence e) \<and> List.last (ct_executed c) = oc_command_device_address receipt
        \<and> fst (poll_no_op_completion arena_storage receipt s' a) = Err NoOutstandingCommand
    | (Ok None, s') \<Rightarrow> s' = s \<and> rm_outstanding s = Some receipt \<and> Suc (length (ct_executed c)) = unat (oc_sequence receipt)
    | (Err e, s') \<Rightarrow> s' = s \<and> rm_outstanding s \<noteq> Some receipt"
proof -
  obtain n x k where ready: "ring_ready a" and at: "rings_at device_view n x k (s, a, c)" using reachable_rings[OF assms(1-4)] by blast
  have exec: "ct_executed c = map (command_address (rm_command_device_base s)) [0 ..< x]" using at by (simp add: rings_at_def controller_at_def)
  obtain r s' where run: "poll_no_op_completion arena_storage receipt s a = (r, s')" by fastforce
  show ?thesis
  proof (cases rule: rings.poll_at[OF ready at run, case_names evidence pending refused])
    case (evidence e)
    then have "ct_executed c = map (command_address (rm_command_device_base s)) [0 ..< k] @ [command_address (rm_command_device_base s) k]"
      using exec by simp
    moreover have "fst (poll_no_op_completion arena_storage receipt s' a) = Err NoOutstandingCommand"
      using evidence(6) by (simp add: poll_no_op_completion_def)
    ultimately show ?thesis using evidence by (simp add: run)
  next
    case pending
    have out: "rm_outstanding s = Some receipt"
      using run pending by (auto simp: poll_no_op_completion_def receipt_matches_eq split: option.splits if_splits)
    then have "unat (oc_sequence receipt) = n" "n = Suc k" using at by (auto simp: rings_at_def driver_at_def)
    with pending out exec show ?thesis by (simp add: run)
  next
    case (refused e)
    then show ?thesis by (simp add: run)
  qed
qed

text \<open>
  C24 (safety). A completion is taken only from an event that answers the command, whatever the
  device does to memory between the driver's calls. Commands and evidence alternate: the \<open>k\<close>-th evidence
  ever delivered is for the \<open>k\<close>-th accepted command, and its receipt is refused from then on. Polling
  yields evidence only for the outstanding receipt and only if the next event slot holds a block of the current cycle
  whose type is a command completion, whose pointer is exactly the address of that command and whose
  virtual function and slot are zero; then the event index advances by one. Nothing is consumed
  otherwise: the poll says that nothing has come only if the block has the other cycle, and an error for the outstanding
  receipt means that the block could not be read or does not answer the command.\<close>

theorem completions_are_genuine:
  assumes "initialize S secret m\<^sub>0 = (Ok s\<^sub>0, m\<^sub>1)" and "(untrusted_step S)\<^sup>*\<^sup>* (s\<^sub>0, m\<^sub>1, [], []) (s, m, cs, es)"
  shows "length es \<le> length cs \<and> length cs \<le> Suc (length es)
    \<and> (\<forall>k < length es. ce_sequence (es ! k) = oc_sequence (cs ! k) \<and> ce_generation (es ! k) = oc_generation (cs ! k)
         \<and> (\<exists>x. poll_no_op_completion S (cs ! k) s m = (Err x, s)))
    \<and> (case poll_no_op_completion S receipt s m of
        (Ok (Some e), s') \<Rightarrow> length cs = Suc (length es) \<and> receipt = List.last cs \<and> ce_sequence e = oc_sequence receipt
          \<and> (\<exists>event. read_trb S EventRing (length es mod 256 * 16) m = Ok event \<and> trb_cycle event = even (length es div 256)
               \<and> answers event receipt \<and> ce_completion_code e = ucast (drop_bit 24 (trb_status event)))
          \<and> rm_outstanding s' = None \<and> rm_event_index s' = Suc (length es) mod 256 \<and> rm_event_cycle s' = even (Suc (length es) div 256)
      | (Ok None, s') \<Rightarrow> s' = s \<and> length cs = Suc (length es) \<and> receipt = List.last cs
          \<and> (\<exists>event. read_trb S EventRing (length es mod 256 * 16) m = Ok event \<and> trb_cycle event \<noteq> even (length es div 256))
      | (Err x, s') \<Rightarrow> s' = s \<and> (length cs = Suc (length es) \<and> receipt = List.last cs \<longrightarrow>
          (\<forall>event. read_trb S EventRing (length es mod 256 * 16) m = Ok event \<longrightarrow>
             trb_cycle event = even (length es div 256) \<and> \<not> answers event receipt)))"
proof -
  have con: "conversation s cs es" using guarded.inv_reachable[OF _ assms(2)] assms(1) by (auto simp: initialize_def)
  have old: "\<exists>x. poll_no_op_completion S (cs ! k) s m = (Err x, s)" if "k < length es" for k
    by (rule delivered_refused[OF con that])
  obtain r s' where run: "poll_no_op_completion S receipt s m = (r, s')" by fastforce
  have "case (r, s') of
        (Ok (Some e), s') \<Rightarrow> length cs = Suc (length es) \<and> receipt = List.last cs \<and> ce_sequence e = oc_sequence receipt
          \<and> (\<exists>event. read_trb S EventRing (length es mod 256 * 16) m = Ok event \<and> trb_cycle event = even (length es div 256)
               \<and> answers event receipt \<and> ce_completion_code e = ucast (drop_bit 24 (trb_status event)))
          \<and> rm_outstanding s' = None \<and> rm_event_index s' = Suc (length es) mod 256 \<and> rm_event_cycle s' = even (Suc (length es) div 256)
      | (Ok None, s') \<Rightarrow> s' = s \<and> length cs = Suc (length es) \<and> receipt = List.last cs
          \<and> (\<exists>event. read_trb S EventRing (length es mod 256 * 16) m = Ok event \<and> trb_cycle event \<noteq> even (length es div 256))
      | (Err x, s') \<Rightarrow> s' = s \<and> (length cs = Suc (length es) \<and> receipt = List.last cs \<longrightarrow>
          (\<forall>event. read_trb S EventRing (length es mod 256 * 16) m = Ok event \<longrightarrow>
             trb_cycle event = even (length es div 256) \<and> \<not> answers event receipt))"
    by (cases rule: poll_conversation[OF con run, case_names evidence pending unread foreign refused])
      (auto simp: conversation_def driver_at_def)
  with con old show ?thesis unfolding run by (auto simp: conversation_def)
qed

text \<open>
  C37 (safety). A block becomes visible all at once. Whatever prefix of the byte stores of a
  publication has happened, a slot that was hidden from the controller either still is, or holds the
  whole new block; after the last store it does.\<close>

theorem publication_is_atomic:
  assumes "length slot = 16" and "trb_cycle (trb_decode slot) \<noteq> cycle" and "trb_cycle t = cycle"
  shows "(trb_cycle (trb_decode (pokes (take j (publication_bytes t cycle)) slot)) \<noteq> cycle
      \<or> trb_decode (pokes (take j (publication_bytes t cycle)) slot) = t)
    \<and> trb_decode (pokes (publication_bytes t cycle) slot) = t"
proof -
  have "trb_cycle (trb_decode (pokes (take j (publication_bytes t cycle)) slot)) \<noteq> cycle
      \<or> trb_decode (pokes (take j (publication_bytes t cycle)) slot) = t"
    using hidden_prefix[OF assms(1,2), of j t] revealed_prefix[OF assms(1), of j t cycle] by (cases "j \<le> 16") auto
  moreover have "take 20 (publication_bytes t cycle) = publication_bytes t cycle" by (simp add: publication_bytes_eq)
  with revealed_prefix[OF assms(1), of 20 t cycle] have "trb_decode (pokes (publication_bytes t cycle) slot) = t" by simp
  ultimately show ?thesis ..
qed

section \<open>Instances\<close>

lemma sample_rings_Ok: "\<exists>s b. initialize arena_storage 5 sample_arena = (Ok s, b)"
  using initialize_succeeds[OF built_ring_ready[OF sample_allocator_wf sample_arena_Ok], of 5] by auto

definition sample_rings :: "ring_machine \<times> xhci_arena" where
  "sample_rings = (case initialize arena_storage 5 sample_arena of (r, b) \<Rightarrow> (projr r, b))"

lemma sample_rings_eq: "initialize arena_storage 5 sample_arena = (Ok (fst sample_rings), snd sample_rings)"
  using sample_rings_Ok by (auto simp: sample_rings_def)

lemma sample_rings_idle: "rm_outstanding (fst sample_rings) = None" "rm_next_sequence (fst sample_rings) = 1"
  by (rule initialize_inner_Ok[OF sample_rings_eq[unfolded initialize_def]]; simp)+

theorem rings_initialize_witness:
  "\<exists>s b. initialize arena_storage 5 sample_arena = (Ok s, b) \<and> (trb_at (device_view b CommandRing) 0 = trb_ZERO)"
  using rings_initialize[OF sample_allocator_wf sample_arena_Ok, of 5] by auto

theorem command_comes_back_witness:
  "\<exists>receipt s b. submit_no_op arena_storage (fst sample_rings) (snd sample_rings) = (Ok receipt, s, b)
     \<and> (\<exists>event c e s'. controller_run (rm_command_device_base (fst sample_rings)) 1 (device_view b CommandRing) controller_start = Execute event c
     \<and> poll_no_op_completion arena_storage receipt s (device_post 0 (trb_encode event) b) = (Ok (Some e), s')
     \<and> ce_sequence e = 1 \<and> evidence_successful e)"
  using command_comes_back[OF sample_allocator_wf sample_arena_Ok sample_rings_eq rtranclp.rtrancl_refl, of 1] sample_rings_idle
  by (auto simp: evidence_successful_def controller_start_def)

lemma sample_completion:
  "\<exists>receipt s a c e s'. (ring_step arena_storage device_view device_post)\<^sup>*\<^sup>* (fst sample_rings, snd sample_rings, controller_start) (s, a, c)
     \<and> poll_no_op_completion arena_storage receipt s a = (Ok (Some e), s') \<and> ce_sequence e = 1"
proof -
  let ?st = "(fst sample_rings, snd sample_rings, controller_start)" and ?step = "ring_step arena_storage device_view device_post"
  have "ring_ready (snd sample_rings) \<and> (\<exists>n x k. rings_at device_view n x k ?st)"
    by (rule reachable_rings[OF sample_allocator_wf sample_arena_Ok sample_rings_eq rtranclp.rtrancl_refl])
  then obtain n x k where at: "ring_ready (snd sample_rings)" "rings_at device_view n x k ?st" by blast
  obtain receipt s b event c e s' where sub: "submit_no_op arena_storage (fst sample_rings) (snd sample_rings) = (Ok receipt, s, b)"
    and run: "controller_run (rm_command_device_base (fst sample_rings)) 1 (device_view b CommandRing) controller_start = Execute event c"
    and poll: "poll_no_op_completion arena_storage receipt s (device_post (ct_enqueue controller_start * 16) (trb_encode event) b) = (Ok (Some e), s')"
    and seq: "ce_sequence e = 1"
    using rings.command_round[OF at, of 1] sample_rings_idle by auto
  have base: "rm_command_device_base s = rm_command_device_base (fst sample_rings)"
    using sub by (auto simp: submit_no_op_def Let_def record_submission_def split: if_splits sum.splits prod.splits option.splits)
  have follow: "controller_next base code ring d = FollowLink c' \<Longrightarrow> ct_enqueue c' = ct_enqueue d" for base code ring d c'
    by (auto simp: controller_next_def Let_def split: if_splits)
  have "controller_next (rm_command_device_base s) 1 (device_view b CommandRing) controller_start = Execute event c
      \<or> (\<exists>c'. controller_next (rm_command_device_base s) 1 (device_view b CommandRing) controller_start = FollowLink c'
           \<and> controller_next (rm_command_device_base s) 1 (device_view b CommandRing) c' = Execute event c \<and> ct_enqueue c' = ct_enqueue controller_start)"
    using run follow unfolding base by (cases "controller_next (rm_command_device_base (fst sample_rings)) 1 (device_view b CommandRing) controller_start")
      (auto simp: controller_run_def)
  then have "?step\<^sup>*\<^sup>* (s, b, controller_start) (s, device_post (ct_enqueue controller_start * 16) (trb_encode event) b, c)"
  proof (elim disjE exE conjE)
    assume "controller_next (rm_command_device_base s) 1 (device_view b CommandRing) controller_start = Execute event c"
    then show ?thesis by (intro r_into_rtranclp ring_step.execute)
  next
    fix c' assume c': "ct_enqueue c' = ct_enqueue controller_start"
      "controller_next (rm_command_device_base s) 1 (device_view b CommandRing) controller_start = FollowLink c'"
      "controller_next (rm_command_device_base s) 1 (device_view b CommandRing) c' = Execute event c"
    show ?thesis
      using converse_rtranclp_into_rtranclp[of ?step, OF ring_step.follow[where view = device_view, OF c'(2)]
        r_into_rtranclp[of ?step, OF ring_step.execute[where view = device_view, OF c'(3)]]] c'(1) by simp
  qed
  then have "?step\<^sup>*\<^sup>* ?st (s, device_post (ct_enqueue controller_start * 16) (trb_encode event) b, c)"
    using ring_step.submit[OF sub] by (metis converse_rtranclp_into_rtranclp)
  with poll seq show ?thesis by blast
qed

theorem completions_are_genuine_witness:
  "\<exists>receipt s a e s' event. poll_no_op_completion arena_storage receipt s a = (Ok (Some e), s') \<and> ce_sequence e = 1
     \<and> read_trb arena_storage EventRing 0 a = Ok event \<and> answers event receipt \<and> rm_event_index s' = 1"
proof -
  obtain receipt s a c e s' where st: "(ring_step arena_storage device_view device_post)\<^sup>*\<^sup>* (fst sample_rings, snd sample_rings, controller_start) (s, a, c)"
    and poll: "poll_no_op_completion arena_storage receipt s a = (Ok (Some e), s')" and seq: "ce_sequence e = 1"
    using sample_completion by blast
  obtain cs es where un: "(untrusted_step arena_storage)\<^sup>*\<^sup>* (fst sample_rings, snd sample_rings, [], []) (s, a, cs, es)"
    using genuine_is_untrusted[OF st] by blast
  have "conversation s cs es" using guarded.inv_reachable[OF _ un] sample_rings_eq by (auto simp: initialize_def)
  moreover from completions_are_genuine[OF sample_rings_eq un, of receipt] poll
  have genuine: "length cs = Suc (length es)" "receipt = List.last cs" "ce_sequence e = oc_sequence receipt"
    "\<exists>event. read_trb arena_storage EventRing (length es mod 256 * 16) a = Ok event \<and> answers event receipt"
    "rm_event_index s' = Suc (length es) mod 256" by auto
  ultimately have "unat (oc_sequence receipt) = Suc (length es)" by (auto simp: conversation_def driver_at_def)
  then have "length es = 0" using seq genuine(3) by simp
  with genuine(4,5) have "\<exists>event. read_trb arena_storage EventRing 0 a = Ok event \<and> answers event receipt" "rm_event_index s' = 1"
    by simp_all
  with poll seq show ?thesis by blast
qed

theorem publication_is_atomic_witness:
  "trb_decode (pokes (publication_bytes (no_op_trb True) True) (replicate 16 0)) = no_op_trb True"
  using publication_is_atomic[of "replicate 16 0" True "no_op_trb True" 0] by (simp add: cycle_byte trb_fields)

end
