(* ===== verification/ExactNtt.thy ===== *)
theory ExactNtt
  imports Prelude "HOL-Library.Numeral_Type"
begin

text \<open>
  The exact spectral convolution of the kernel's control loops
  (\<open>src/kernel/boulder/src/certified_math/exact_ntt.rs\<close>): number-theoretic transforms of length 64
  over two prime fields, the Chinese remainder combination of the two results, and the fair queue
  that smooths its deficits with it. Arrays of 64 words are lists of that length; a loop over
  array positions is a recursion or a fold over the values its counter takes.

  The theorems show that the fast convolution is the integer convolution, on every input
  whose checked bound admits it, and that the queue picks a class of largest smoothed
  deficit, the first of them from its cursor on.
\<close>

type_synonym u128 = "128 word"

abbreviation (input) NTT_LENGTH :: nat where "NTT_LENGTH \<equiv> 64"
abbreviation (input) MODULUS_0 :: u64 where "MODULUS_0 \<equiv> 998244353"
abbreviation (input) MODULUS_1 :: u64 where "MODULUS_1 \<equiv> 1004535809"
abbreviation (input) PRIMITIVE_ROOT_0 :: u64 where "PRIMITIVE_ROOT_0 \<equiv> 3"
abbreviation (input) PRIMITIVE_ROOT_1 :: u64 where "PRIMITIVE_ROOT_1 \<equiv> 3"
abbreviation (input) CRT_MODULUS :: u128 where "CRT_MODULUS \<equiv> 998244353 * 1004535809"

datatype ntt_error = CoefficientBound | Arithmetic | InvalidClassCount | ZeroSecret

record modulus =
  md_value :: u64
  md_primitive_root :: u64

definition MOD_0 :: modulus where
  "MOD_0 = \<lparr>md_value = MODULUS_0, md_primitive_root = PRIMITIVE_ROOT_0\<rparr>"

definition MOD_1 :: modulus where
  "MOD_1 = \<lparr>md_value = MODULUS_1, md_primitive_root = PRIMITIVE_ROOT_1\<rparr>"

section \<open>Modular arithmetic\<close>

definition add_mod :: "u64 \<Rightarrow> u64 \<Rightarrow> u64 \<Rightarrow> u64" where
  "add_mod left right m = (let sum = left + right in if sum \<ge> m then sum - m else sum)"

definition sub_mod :: "u64 \<Rightarrow> u64 \<Rightarrow> u64 \<Rightarrow> u64" where
  "sub_mod left right m = (if left \<ge> right then left - right else left + m - right)"

definition mul_mod :: "u64 \<Rightarrow> u64 \<Rightarrow> u64 \<Rightarrow> u64" where
  "mul_mod left right m = ucast ((ucast left * ucast right :: u128) mod ucast m)"

function pow_mod_loop :: "u64 \<Rightarrow> u64 \<Rightarrow> u64 \<Rightarrow> u64 \<Rightarrow> u64" where
  "pow_mod_loop base exponent m result =
     (if exponent \<noteq> 0
      then pow_mod_loop (mul_mod base base m) (drop_bit 1 exponent) m
             (if exponent AND 1 \<noteq> 0 then mul_mod result base m else result)
      else result)"
  by pat_completeness auto
termination
proof (relation "measure (\<lambda>(_, exponent, _, _). unat exponent)")
  fix base exponent m result :: u64
  assume "exponent \<noteq> 0"
  then have "0 < unat exponent" by (simp add: unat_gt_0)
  then show "((mul_mod base base m, drop_bit 1 exponent, m, if exponent AND 1 \<noteq> 0 then mul_mod result base m else result),
      base, exponent, m, result) \<in> measure (\<lambda>(_, exponent, _, _). unat exponent)"
    by (simp add: drop_bit_Suc unat_div)
qed simp

definition pow_mod :: "u64 \<Rightarrow> u64 \<Rightarrow> u64 \<Rightarrow> u64" where
  "pow_mod base exponent m = pow_mod_loop (base mod m) exponent m 1"

definition inverse_mod :: "u64 \<Rightarrow> u64 \<Rightarrow> u64" where
  "inverse_mod v m = pow_mod v (m - 2) m"

section \<open>The transform\<close>

function reverse_carry :: "nat \<Rightarrow> nat \<Rightarrow> nat" where
  "reverse_carry reverse place =
     (if reverse AND place \<noteq> 0 then reverse_carry (reverse XOR place) (place div 2) else reverse XOR place)"
  by pat_completeness auto
termination
proof (relation "measure snd")
  fix reverse place :: nat
  assume "reverse AND place \<noteq> 0"
  then have "place \<noteq> 0" by (rule contrapos_nn) simp
  then show "((reverse XOR place, place div 2), reverse, place) \<in> measure snd" by simp
qed simp

definition swap_at :: "nat \<Rightarrow> nat \<Rightarrow> 'a list \<Rightarrow> 'a list" where
  "swap_at i j xs = xs[i := xs ! j, j := xs ! i]"

function bit_reverse_loop :: "nat \<Rightarrow> nat \<Rightarrow> 'a list \<Rightarrow> 'a list" where
  "bit_reverse_loop index reverse values =
     (if index < NTT_LENGTH
      then let reverse = reverse_carry reverse (NTT_LENGTH div 2) in
        bit_reverse_loop (index + 1) reverse (if index < reverse then swap_at index reverse values else values)
      else values)"
  by pat_completeness auto
termination
  by (relation "measure (\<lambda>(index, _, _). NTT_LENGTH - index)") auto

definition bit_reverse :: "'a list \<Rightarrow> 'a list" where
  "bit_reverse values = bit_reverse_loop 1 0 values"

function butterfly :: "u64 \<Rightarrow> u64 \<Rightarrow> nat \<Rightarrow> nat \<Rightarrow> nat \<Rightarrow> u64 \<Rightarrow> u64 list \<Rightarrow> u64 list" where
  "butterfly m stage_root half block offset twiddle values =
     (if offset < half
      then let even_term = values ! (block + offset);
               odd_term = mul_mod (values ! (block + offset + half)) twiddle m
           in butterfly m stage_root half block (offset + 1) (mul_mod twiddle stage_root m)
                (values[block + offset := add_mod even_term odd_term m, block + offset + half := sub_mod even_term odd_term m])
      else values)"
  by pat_completeness auto
termination
  by (relation "measure (\<lambda>(_, _, half, _, offset, _, _). half - offset)") auto

definition ntt_stage :: "modulus \<Rightarrow> u64 \<Rightarrow> nat \<Rightarrow> u64 list \<Rightarrow> u64 list" where
  "ntt_stage p direction_root len values =
     (let stage_root = pow_mod direction_root (of_nat (NTT_LENGTH div len)) (md_value p);
          half = len div 2
      in fold (\<lambda>block. butterfly (md_value p) stage_root half block 0 1)
           (map (\<lambda>i. i * len) [0 ..< NTT_LENGTH div len]) values)"

definition transform_root :: "modulus \<Rightarrow> bool \<Rightarrow> u64" where
  "transform_root p backward =
     (let root = pow_mod (md_primitive_root p) ((md_value p - 1) div of_nat NTT_LENGTH) (md_value p)
      in if backward then inverse_mod root (md_value p) else root)"

definition transform :: "u64 list \<Rightarrow> modulus \<Rightarrow> bool \<Rightarrow> u64 list" where
  "transform values p backward =
     (let values = bit_reverse values;
          values = fold (ntt_stage p (transform_root p backward)) [2, 4, 8, 16, 32, 64] values
      in if backward
         then (let length_inverse = inverse_mod (of_nat NTT_LENGTH) (md_value p)
               in map (\<lambda>v. mul_mod v length_inverse (md_value p)) values)
         else values)"

section \<open>Convolution\<close>

definition convolution_mod :: "u64 list \<Rightarrow> u64 list \<Rightarrow> modulus \<Rightarrow> u64 list" where
  "convolution_mod left right p =
     (let left_hat = transform (map (\<lambda>v. v mod md_value p) left) p False;
          right_hat = transform (map (\<lambda>v. v mod md_value p) right) p False
      in transform (map2 (\<lambda>a b. mul_mod a b (md_value p)) left_hat right_hat) p True)"

fun sum_and_max :: "u64 list \<Rightarrow> u128 \<Rightarrow> u64 \<Rightarrow> ntt_error + u128 \<times> u64" where
  "sum_and_max [] acc greatest = Ok (acc, greatest)"
| "sum_and_max (v # rest) acc greatest =
     (case checked_add acc (ucast v) of
        None \<Rightarrow> Err Arithmetic
      | Some acc \<Rightarrow> sum_and_max rest acc (max greatest v))"

definition coefficient_upper_bound :: "u64 list \<Rightarrow> u64 list \<Rightarrow> ntt_error + u128" where
  "coefficient_upper_bound left right =
     (case sum_and_max left 0 0 of Err e \<Rightarrow> Err e | Ok (left_sum, left_max) \<Rightarrow>
     (case sum_and_max right 0 0 of Err e \<Rightarrow> Err e | Ok (right_sum, right_max) \<Rightarrow>
     (case checked_mul left_sum (ucast right_max) of None \<Rightarrow> Err Arithmetic | Some bound_a \<Rightarrow>
     (case checked_mul right_sum (ucast left_max) of None \<Rightarrow> Err Arithmetic | Some bound_b \<Rightarrow>
      Ok (min bound_a bound_b)))))"

definition crt_pair :: "u64 \<Rightarrow> u64 \<Rightarrow> u128" where
  "crt_pair residue_0 residue_1 =
     (let p0_mod_p1 = MODULUS_0 mod MODULUS_1;
          p0_inverse = inverse_mod p0_mod_p1 MODULUS_1;
          delta = (if residue_1 \<ge> residue_0 mod MODULUS_1 then residue_1 - residue_0 mod MODULUS_1
                   else residue_1 + MODULUS_1 - residue_0 mod MODULUS_1);
          multiplier = mul_mod delta p0_inverse MODULUS_1
      in ucast residue_0 + ucast MODULUS_0 * ucast multiplier)"

fun combine_residues :: "u128 \<Rightarrow> u64 list \<Rightarrow> u64 list \<Rightarrow> ntt_error + u64 list" where
  "combine_residues bound (r # rs) (t # ts) =
     (let v = crt_pair r t in
      if v > bound \<or> v > ucast (- 1 :: u64) then Err Arithmetic
      else (case combine_residues bound rs ts of Err e \<Rightarrow> Err e | Ok out \<Rightarrow> Ok (ucast v # out)))"
| "combine_residues bound _ _ = Ok []"

definition circular_convolution_exact :: "u64 list \<Rightarrow> u64 list \<Rightarrow> ntt_error + u64 list" where
  "circular_convolution_exact left right =
     (case coefficient_upper_bound left right of
        Err e \<Rightarrow> Err e
      | Ok bound \<Rightarrow>
          if bound \<ge> CRT_MODULUS \<or> bound > ucast (- 1 :: u64) then Err CoefficientBound
          else combine_residues bound (convolution_mod left right MOD_0) (convolution_mod left right MOD_1))"

section \<open>The fair queue\<close>

record spectral_decision =
  sd_class :: u8
  sd_raw_deficit :: u64
  sd_smoothed_deficit :: u64
  sd_epoch :: u64
  sd_root :: u64

definition ntt_mix :: "u64 \<Rightarrow> u64 \<Rightarrow> u64" where
  "ntt_mix state w =
     (let state = state XOR w * 0x9e3779b97f4a7c15;
          state = state XOR drop_bit 30 state;
          state = state * 0xbf58476d1ce4e5b9;
          state = state XOR drop_bit 27 state;
          state = state * 0x94d049bb133111eb
      in state XOR drop_bit 31 state)"

definition decision_root :: "u64 \<Rightarrow> spectral_decision \<Rightarrow> u64" where
  "decision_root secret d =
     (let state = ntt_mix secret (ucast (sd_class d));
          state = ntt_mix state (sd_raw_deficit d);
          state = ntt_mix state (sd_smoothed_deficit d)
      in ntt_mix state (sd_epoch d))"

definition decision_verify :: "spectral_decision \<Rightarrow> u64 \<Rightarrow> bool" where
  "decision_verify d secret \<longleftrightarrow> sd_root d = decision_root secret d"

record spectral_queue =
  sq_deficits :: "u64 list"
  sq_kernel :: "u64 list"
  sq_classes :: u8
  sq_cursor :: u8
  sq_epoch :: u64
  sq_secret :: u64

definition spectral_queue_new :: "u8 \<Rightarrow> u64 \<Rightarrow> ntt_error + spectral_queue" where
  "spectral_queue_new classes secret =
     (if classes = 0 \<or> unat classes > NTT_LENGTH then Err InvalidClassCount
      else if secret = 0 then Err ZeroSecret
      else Ok \<lparr>sq_deficits = replicate NTT_LENGTH 0,
               sq_kernel = (replicate NTT_LENGTH 0)[0 := 8, 1 := 4, 2 := 2, 3 := 1,
                 NTT_LENGTH - 1 := 4, NTT_LENGTH - 2 := 2, NTT_LENGTH - 3 := 1],
               sq_classes = classes, sq_cursor = 0, sq_epoch = 1, sq_secret = secret\<rparr>)"

definition next_epoch :: "u64 \<Rightarrow> u64" where
  "next_epoch e = max (e + 1) 1"

definition charge :: "nat \<Rightarrow> u64 \<Rightarrow> spectral_queue \<Rightarrow> (ntt_error + unit) \<times> spectral_queue" where
  "charge class amount q =
     (if class \<ge> unat (sq_classes q) then (Err InvalidClassCount, q)
      else
        (case checked_add (sq_deficits q ! class) amount of
           None \<Rightarrow> (Err Arithmetic, q)
         | Some v \<Rightarrow> (Ok (), q\<lparr>sq_deficits := (sq_deficits q)[class := v], sq_epoch := next_epoch (sq_epoch q)\<rparr>)))"

definition credit :: "nat \<Rightarrow> u64 \<Rightarrow> spectral_queue \<Rightarrow> (ntt_error + unit) \<times> spectral_queue" where
  "credit class amount q =
     (if class \<ge> unat (sq_classes q) then (Err InvalidClassCount, q)
      else (Ok (), q\<lparr>sq_deficits := (sq_deficits q)[class := saturating_sub (sq_deficits q ! class) amount],
                     sq_epoch := next_epoch (sq_epoch q)\<rparr>))"

definition smoothed :: "spectral_queue \<Rightarrow> ntt_error + u64 list" where
  "smoothed q = circular_convolution_exact (sq_deficits q) (sq_kernel q)"

definition select_class :: "u64 list \<Rightarrow> nat \<Rightarrow> nat \<Rightarrow> nat \<times> u64" where
  "select_class values classes start =
     fold (\<lambda>distance (selected, selected_value).
         let candidate = (start + distance) mod classes; v = values ! candidate
         in if v > selected_value then (candidate, v) else (selected, selected_value))
       [1 ..< classes] (start, values ! start)"

definition select :: "spectral_queue \<Rightarrow> (ntt_error + spectral_decision) \<times> spectral_queue" where
  "select q =
     (case smoothed q of
        Err e \<Rightarrow> (Err e, q)
      | Ok values \<Rightarrow>
          let classes = unat (sq_classes q);
              start = unat (sq_cursor q) mod classes;
              (selected, selected_value) = select_class values classes start;
              q = q\<lparr>sq_cursor := of_nat ((selected + 1) mod classes), sq_epoch := next_epoch (sq_epoch q)\<rparr>;
              decision = \<lparr>sd_class = of_nat selected, sd_raw_deficit = sq_deficits q ! selected,
                sd_smoothed_deficit = selected_value, sd_epoch = sq_epoch q, sd_root = 0\<rparr>
          in (Ok (decision\<lparr>sd_root := decision_root (sq_secret q) decision\<rparr>), q))"

definition serve :: "u64 \<Rightarrow> spectral_queue \<Rightarrow> (ntt_error + spectral_decision) \<times> spectral_queue" where
  "serve amount q =
     (case select q of
        (Err e, q) \<Rightarrow> (Err e, q)
      | (Ok decision, q) \<Rightarrow>
          (case credit (unat (sd_class decision)) amount q of
             (Err e, q) \<Rightarrow> (Err e, q)
           | (Ok _, q) \<Rightarrow> (Ok decision, q)))"

declare pow_mod_loop.simps [simp del] reverse_carry.simps [simp del] bit_reverse_loop.simps [simp del] butterfly.simps [simp del]

section \<open>Residues as elements of a ring\<close>

text \<open>A word stands for an element of any commutative ring whose characteristic is the modulus.\<close>

definition residue :: "u64 \<Rightarrow> 'a::comm_ring_1" where
  "residue x = of_nat (unat x)"

lemma of_nat_mod_char: "of_nat (n mod CHAR('a)) = (of_nat n :: 'a::comm_ring_1)"
proof -
  have "(of_nat n :: 'a) = of_nat (CHAR('a) * (n div CHAR('a)) + n mod CHAR('a))" by simp
  also have "\<dots> = of_nat (n mod CHAR('a))" unfolding of_nat_add of_nat_mult by simp
  finally show ?thesis by simp
qed

lemma residue_simps [simp]: "residue 0 = 0" "residue 1 = 1"
  by (simp_all add: residue_def)

lemma residue_inject:
  assumes "CHAR('a::comm_ring_1) = n" and "x < n" and "y < n" and "(of_nat x :: 'a) = of_nat y"
  shows "x = y"
proof -
  have "\<not> u < v" if "u < n" "v < n" "(of_nat u :: 'a) = of_nat v" for u v
  proof
    assume "u < v"
    then have "(of_nat (v - u) :: 'a) = 0" using that(3) by (simp add: of_nat_diff)
    then have "n dvd v - u" using assms(1) by (simp add: of_nat_eq_0_iff_char_dvd)
    with \<open>u < v\<close> that(2) show False using dvd_imp_le[of n "v - u"] by simp
  qed
  from this[of x y] this[of y x] assms(2-4) show ?thesis by (simp add: nat_neq_iff)
qed

lemma unat_ucast_128: "unat (ucast (x :: u64) :: u128) = unat x"
proof -
  have "unat x < 2 ^ 128" using unat_lt2p[of x] by simp
  then show ?thesis by (simp add: unsigned_ucast_eq take_bit_nat_eq_self)
qed

lemma unat_mul_mod:
  assumes "m \<noteq> 0"
  shows "unat (mul_mod a b m) = unat a * unat b mod unat m"
proof -
  have "unat a * unat b < 2 ^ 64 * 2 ^ 64" using unat_lt2p[of a] unat_lt2p[of b] by (intro mult_strict_mono) auto
  then have "unat (ucast a * ucast b :: u128) = unat a * unat b" by (simp add: unat_word_ariths unat_ucast_128)
  then have v: "unat ((ucast a * ucast b :: u128) mod ucast m) = unat a * unat b mod unat m" by (simp add: unat_mod unat_ucast_128)
  moreover have "unat a * unat b mod unat m < unat m" using assms by (simp add: unat_gt_0)
  then have "unat a * unat b mod unat m < 2 ^ 64" using unat_lt2p[of m] by simp
  ultimately show ?thesis by (simp add: mul_mod_def unsigned_ucast_eq take_bit_nat_eq_self)
qed

lemma mul_mod_less: "m \<noteq> 0 \<Longrightarrow> mul_mod a b m < m"
  by (simp add: word_less_nat_alt unat_mul_mod unat_gt_0)

lemma unat_add_mod:
  assumes "a < m" and "b < m" and "unat m < 2 ^ 63"
  shows "unat (add_mod a b m) = (unat a + unat b) mod unat m"
proof -
  have "unat a < unat m" "unat b < unat m" using assms by (simp_all add: word_less_nat_alt)
  moreover from this have s: "unat (a + b) = unat a + unat b" using assms(3) by (simp add: unat_word_ariths)
  ultimately show ?thesis by (auto simp: add_mod_def Let_def word_le_nat_alt unat_sub mod_if)
qed

lemma unat_sub_mod:
  assumes "a < m" and "b < m" and "unat m < 2 ^ 63"
  shows "unat (sub_mod a b m) = (unat a + unat m - unat b) mod unat m"
proof -
  have l: "unat a < unat m" "unat b < unat m" using assms by (simp_all add: word_less_nat_alt)
  then have s: "unat (a + m) = unat a + unat m" using assms(3) by (simp add: unat_word_ariths)
  then have "b \<le> a + m" using l by (simp add: word_le_nat_alt)
  with s l show ?thesis by (auto simp: sub_mod_def word_le_nat_alt unat_sub mod_if)
qed

lemma residue_mod_ops:
  assumes "CHAR('a::comm_ring_1) = unat m" and "unat m < 2 ^ 63" and "m \<noteq> 0"
  shows "(residue (mul_mod a b m) :: 'a) = residue a * residue b"
    and "a < m \<Longrightarrow> b < m \<Longrightarrow> (residue (add_mod a b m) :: 'a) = residue a + residue b"
    and "a < m \<Longrightarrow> b < m \<Longrightarrow> (residue (sub_mod a b m) :: 'a) = residue a - residue b"
    and "(residue (a mod m) :: 'a) = residue a"
proof -
  show "(residue (mul_mod a b m) :: 'a) = residue a * residue b"
    unfolding residue_def unat_mul_mod[OF assms(3)] assms(1)[symmetric] of_nat_mod_char by simp
  show "(residue (a mod m) :: 'a) = residue a"
    unfolding residue_def unat_mod assms(1)[symmetric] of_nat_mod_char ..
  assume l: "a < m" "b < m"
  show "(residue (add_mod a b m) :: 'a) = residue a + residue b"
    unfolding residue_def unat_add_mod[OF l assms(2)] assms(1)[symmetric] of_nat_mod_char by simp
  have "unat b \<le> unat a + unat m" using l by (simp add: word_less_nat_alt)
  moreover have "(of_nat (unat m) :: 'a) = 0" unfolding assms(1)[symmetric] by simp
  ultimately show "(residue (sub_mod a b m) :: 'a) = residue a - residue b"
    unfolding residue_def unat_sub_mod[OF l assms(2)] assms(1)[symmetric] of_nat_mod_char by (simp add: of_nat_diff assms(1))
qed

lemma add_mod_less: "a < m \<Longrightarrow> b < m \<Longrightarrow> unat m < 2 ^ 63 \<Longrightarrow> add_mod a b m < m"
  by (simp add: word_less_nat_alt unat_add_mod)

lemma sub_mod_less: "a < m \<Longrightarrow> b < m \<Longrightarrow> unat m < 2 ^ 63 \<Longrightarrow> sub_mod a b m < m"
  by (simp add: word_less_nat_alt unat_sub_mod)

lemma pow_mod_loop_residue:
  assumes "CHAR('a::comm_ring_1) = unat m" and "unat m < 2 ^ 63" and "m \<noteq> 0"
  shows "(residue (pow_mod_loop base exponent m acc) :: 'a) = residue acc * residue base ^ unat exponent"
  using assms
proof (induction base exponent m acc rule: pow_mod_loop.induct)
  case (1 base exponent m acc)
  note ops = residue_mod_ops[OF 1(2-4)]
  show ?case
  proof (cases "exponent = 0")
    case True
    then show ?thesis by (simp add: pow_mod_loop.simps[of _ 0])
  next
    case False
    let ?acc = "if exponent AND 1 \<noteq> 0 then mul_mod acc base m else acc"
    have half: "unat (drop_bit 1 exponent) = unat exponent div 2" by (simp add: drop_bit_Suc unat_div)
    have "odd (unat exponent) \<longleftrightarrow> bit (unat exponent) 0" by (simp add: bit_0)
    also have "\<dots> \<longleftrightarrow> odd exponent" unfolding bit_unsigned_iff by (simp add: bit_0)
    finally have odd: "exponent AND 1 \<noteq> 0 \<longleftrightarrow> odd (unat exponent)" by (simp add: and_one_eq odd_iff_mod_2_eq_one)
    have "residue (pow_mod_loop base exponent m acc) = (residue ?acc :: 'a) * residue (mul_mod base base m) ^ (unat exponent div 2)"
      unfolding pow_mod_loop.simps[of base exponent] half[symmetric] using 1(1)[OF False 1(2-4)] False by simp
    also have "\<dots> = residue ?acc * residue base ^ (2 * (unat exponent div 2))"
      by (simp add: ops(1) power_mult power2_eq_square)
    also have "\<dots> = residue acc * residue base ^ unat exponent"
    proof (cases "odd (unat exponent)")
      case True
      then have e: "residue base ^ unat exponent = (residue base * residue base ^ (2 * (unat exponent div 2)) :: 'a)"
        by (metis odd_two_times_div_two_succ power_Suc add.commute plus_1_eq_Suc)
      have "residue ?acc = (residue acc * residue base :: 'a)" using True odd by (simp add: ops(1))
      then show ?thesis unfolding e by simp
    next
      case False
      then show ?thesis using odd by simp
    qed
    finally show ?thesis .
  qed
qed

lemma pow_mod_loop_less: "m \<noteq> 0 \<Longrightarrow> acc < m \<Longrightarrow> pow_mod_loop base exponent m acc < m"
proof (induction base exponent m acc rule: pow_mod_loop.induct)
  case (1 base exponent m acc)
  then show ?case by (subst pow_mod_loop.simps) (simp add: mul_mod_less)
qed

lemma pow_mod_residue:
  assumes "CHAR('a::comm_ring_1) = unat m" and "unat m < 2 ^ 63" and "1 < m"
  shows "(residue (pow_mod base exponent m) :: 'a) = residue base ^ unat exponent" and "pow_mod base exponent m < m"
proof -
  have m: "m \<noteq> 0" using assms(3) by auto
  show "(residue (pow_mod base exponent m) :: 'a) = residue base ^ unat exponent"
    by (simp add: pow_mod_def pow_mod_loop_residue[OF assms(1,2) m] residue_mod_ops(4)[OF assms(1,2) m])
  show "pow_mod base exponent m < m" unfolding pow_mod_def by (rule pow_mod_loop_less[OF m assms(3)])
qed

section \<open>Fourier sums in a commutative ring\<close>

definition dft :: "nat \<Rightarrow> 'a::comm_ring_1 \<Rightarrow> (nat \<Rightarrow> 'a) \<Rightarrow> nat \<Rightarrow> 'a" where
  "dft n w f k = (\<Sum>j < n. f j * w ^ (j * k))"

lemma sum_even_odd: "(\<Sum>j < 2 * (n :: nat). g j) = (\<Sum>j < n. g (2 * j)) + (\<Sum>j < n. g (2 * j + 1) :: 'a::comm_monoid_add)"
  by (induction n) (simp_all add: algebra_simps)

lemma dft_split: "dft (2 * n) w f k = dft n (w ^ 2) (\<lambda>j. f (2 * j)) k + w ^ k * dft n (w ^ 2) (\<lambda>j. f (2 * j + 1)) k"
  unfolding dft_def sum_even_odd
  by (simp add: sum_distrib_left power_mult[symmetric] power_add algebra_simps mult.assoc)

lemma dft_period:
  assumes "w ^ n = 1"
  shows "dft n w f (k + n) = dft n w f k"
proof -
  have "w ^ (j * (k + n)) = w ^ (j * k)" for j
  proof -
    have "w ^ (j * (k + n)) = w ^ (j * k) * (w ^ n) ^ j" by (simp add: algebra_simps power_add power_mult[symmetric])
    with assms show ?thesis by simp
  qed
  then show ?thesis by (simp add: dft_def)
qed

lemma dft_split_upper:
  assumes "w ^ n = - 1"
  shows "dft (2 * n) w f (k + n) = dft n (w ^ 2) (\<lambda>j. f (2 * j)) k - w ^ k * dft n (w ^ 2) (\<lambda>j. f (2 * j + 1)) k"
proof -
  have "(w ^ 2) ^ n = 1" using assms by (simp add: power2_eq_square power_mult_distrib)
  then show ?thesis by (simp add: dft_split dft_period power_add assms)
qed

lemma geometric_zero:
  fixes z :: "'a::comm_ring_1"
  assumes "z ^ (2 ^ t) = - 1" and "t < n"
  shows "(\<Sum>k < 2 ^ n. z ^ k) = 0"
  using assms
proof (induction n arbitrary: z t)
  case (Suc n)
  have "(\<Sum>k < 2 ^ Suc n. z ^ k) = (\<Sum>k < 2 ^ n. (z ^ 2) ^ k) * (1 + z)"
    unfolding power_Suc[of 2] sum_even_odd by (simp add: power_mult[symmetric] sum_distrib_right sum_distrib_left algebra_simps sum.distrib)
  moreover have "(\<Sum>k < 2 ^ n. (z ^ 2) ^ k) = 0 \<or> 1 + z = 0"
  proof (cases t)
    case 0
    with Suc.prems(1) show ?thesis by simp
  next
    case (Suc t')
    then have "(z ^ 2) ^ (2 ^ t') = - 1" using Suc.prems(1) by (simp flip: power_mult)
    with Suc.IH[of "z ^ 2" t'] Suc.prems(2) Suc show ?thesis by simp
  qed
  ultimately show ?case by auto
qed simp

lemma power_reaches_minus_one:
  fixes w :: "'a::comm_ring_1"
  assumes "w ^ (2 ^ n) = - 1" and "m mod 2 ^ Suc n \<noteq> 0"
  shows "\<exists>t \<le> n. (w ^ m) ^ (2 ^ t) = - 1"
  using assms
proof (induction n arbitrary: w m)
  case 0
  then have "odd m" by (simp add: odd_iff_mod_2_eq_one)
  with 0 show ?case by simp
next
  case (Suc n)
  show ?case
  proof (cases "even m")
    case True
    then obtain m' where m: "m = 2 * m'" by (rule evenE)
    have "(w ^ 2) ^ (2 ^ n) = - 1" using Suc.prems(1) by (simp flip: power_mult)
    moreover have "m' mod 2 ^ Suc n \<noteq> 0" using Suc.prems(2) mult_mod_right[of 2 m' "2 ^ Suc n"] by (auto simp: m)
    ultimately obtain t where "t \<le> n" "((w ^ 2) ^ m') ^ (2 ^ t) = - 1" using Suc.IH by blast
    then show ?thesis by (intro exI[of _ t]) (simp add: m power_mult)
  next
    case False
    have "(w ^ m) ^ (2 ^ Suc n) = (w ^ (2 ^ Suc n)) ^ m" by (simp add: mult.commute flip: power_mult)
    with False Suc.prems(1) show ?thesis by (intro exI[of _ "Suc n"]) simp
  qed
qed

lemma root_sum:
  fixes w :: "'a::comm_ring_1"
  assumes w: "w ^ 32 = - 1"
  shows "(\<Sum>k < 64. (w ^ m) ^ k) = (if m mod 64 = 0 then 64 else 0)"
proof (cases "m mod 64 = 0")
  case True
  have "w ^ 64 = (w ^ 32) ^ 2" by (simp flip: power_mult)
  then have "w ^ 64 = 1" using w by simp
  moreover obtain q where "m = 64 * q" using True by auto
  ultimately have "w ^ m = 1" by (simp add: power_mult)
  with True show ?thesis by simp
next
  case False
  then obtain t where "t \<le> 5" "(w ^ m) ^ (2 ^ t) = - 1" using power_reaches_minus_one[of w 5 m] w by auto
  with geometric_zero[of "w ^ m" t 6] False show ?thesis by simp
qed

text \<open>The cyclic convolution theorem: transforming back the product of two transforms.\<close>

definition cyclic :: "nat \<Rightarrow> (nat \<Rightarrow> 'a::comm_semiring_1) \<Rightarrow> (nat \<Rightarrow> 'a) \<Rightarrow> nat \<Rightarrow> 'a" where
  "cyclic n f g k = (\<Sum>i < n. \<Sum>j < n. if (i + j) mod n = k then f i * g j else 0)"

lemma sum_rotate: "(\<Sum>m \<in> A. \<Sum>i \<in> B. \<Sum>j \<in> C. h i j m) = (\<Sum>i \<in> B. \<Sum>j \<in> C. \<Sum>m \<in> A. h i j m)"
proof -
  have "(\<Sum>m \<in> A. \<Sum>i \<in> B. \<Sum>j \<in> C. h i j m) = (\<Sum>i \<in> B. \<Sum>m \<in> A. \<Sum>j \<in> C. h i j m)" by (rule sum.swap)
  also have "\<dots> = (\<Sum>i \<in> B. \<Sum>j \<in> C. \<Sum>m \<in> A. h i j m)" by (intro sum.cong refl sum.swap)
  finally show ?thesis .
qed

lemma cyclic_transform:
  fixes w u c :: "'a::comm_ring_1"
  assumes w: "w ^ 32 = - 1" and u: "u * w = 1" and c: "64 * c = 1" and k: "k < 64"
  shows "c * dft 64 u (\<lambda>m. dft 64 w f m * dft 64 w g m) k = cyclic 64 f g k"
proof -
  have "w ^ 64 = (w ^ 32) ^ 2" by (simp flip: power_mult)
  then have one: "w ^ 64 = 1" using w by simp
  have inv_power: "u ^ (m * k) = w ^ (m * (64 - k))" for m
  proof -
    have "m * k + m * (64 - k) = 64 * m" using k by (simp add: add_mult_distrib2[symmetric])
    then have "w ^ (m * k) * w ^ (m * (64 - k)) = (w ^ 64) ^ m" by (simp flip: power_add power_mult)
    then have "u ^ (m * k) = u ^ (m * k) * (w ^ (m * k) * w ^ (m * (64 - k)))" by (simp add: one)
    also have "\<dots> = (u * w) ^ (m * k) * w ^ (m * (64 - k))" by (simp add: power_mult_distrib mult.assoc)
    finally show ?thesis by (simp add: u)
  qed
  have "dft 64 u (\<lambda>m. dft 64 w f m * dft 64 w g m) k
      = (\<Sum>m < 64. \<Sum>i < 64. \<Sum>j < 64. f i * g j * (w ^ (i + j + (64 - k))) ^ m)"
  proof -
    have "f i * w ^ (i * m) * (g j * w ^ (j * m)) * w ^ (m * (64 - k)) = f i * g j * (w ^ (i + j + (64 - k))) ^ m" for i j m
    proof -
      have "(w ^ (i + j + (64 - k))) ^ m = w ^ (i * m) * w ^ (j * m) * w ^ (m * (64 - k))"
        by (simp add: power_mult[symmetric] power_add[symmetric] add_mult_distrib mult.commute[of m])
      then show ?thesis by (simp add: mult.commute mult.left_commute)
    qed
    then show ?thesis unfolding dft_def inv_power sum_product by (simp only: sum_distrib_right)
  qed
  also have "\<dots> = (\<Sum>i < 64. \<Sum>j < 64. f i * g j * (\<Sum>m < 64. (w ^ (i + j + (64 - k))) ^ m))"
    unfolding sum_distrib_left by (rule sum_rotate)
  also have "\<dots> = (\<Sum>i < 64. \<Sum>j < 64. if (i + j) mod 64 = k then f i * g j * 64 else 0)"
  proof -
    have "(s + (64 - k)) mod 64 = 0 \<longleftrightarrow> s mod 64 = k" for s
    proof -
      have "(s + (64 - k)) mod 64 = (s mod 64 + (64 - k)) mod 64" by (simp only: mod_add_left_eq)
      moreover have "(r + (64 - k)) mod 64 = 0 \<longleftrightarrow> r = k" if "r < 64" for r
      proof (cases "r < k")
        case True
        with k that show ?thesis by simp
      next
        case False
        then have "(r + (64 - k)) mod 64 = r - k" using k that by (simp add: mod_if)
        with False that show ?thesis by auto
      qed
      ultimately show ?thesis by (metis mod_less_divisor zero_less_numeral)
    qed
    then show ?thesis unfolding root_sum[OF w] by (simp add: if_distrib cong: if_cong)
  qed
  finally have "c * dft 64 u (\<lambda>m. dft 64 w f m * dft 64 w g m) k = (\<Sum>i < 64. \<Sum>j < 64. if (i + j) mod 64 = k then f i * g j * (64 * c) else 0)"
    by (simp add: sum_distrib_left if_distrib algebra_simps cong: if_cong)
  then show ?thesis unfolding c mult_1_right cyclic_def .
qed

section \<open>Bit reversal\<close>

fun reversed :: "nat \<Rightarrow> nat \<Rightarrow> nat" where
  "reversed 0 b = 0"
| "reversed (Suc n) b = reversed n (b div 2) + b mod 2 * 2 ^ n"

lemma reversed_less: "reversed n b < 2 ^ n"
proof (induction n arbitrary: b)
  case (Suc n)
  have "b mod 2 * 2 ^ n \<le> 2 ^ n" by (cases "even b") (simp_all add: even_iff_mod_2_eq_zero odd_iff_mod_2_eq_one)
  with Suc[of "b div 2"] show ?case unfolding reversed.simps power_Suc by linarith
qed simp

lemma reverse_carry_less: "r < 64 \<Longrightarrow> reverse_carry r 32 < 64"
proof -
  have "\<forall>r \<in> set [0 ..< 64]. reverse_carry r 32 < 64" by code_simp
  then show "r < 64 \<Longrightarrow> reverse_carry r 32 < 64" by simp
qed

lemma swap_at_map: "i < length xs \<Longrightarrow> j < length xs \<Longrightarrow> swap_at i j (map f xs) = map f (swap_at i j xs)"
  by (simp add: swap_at_def map_update)

lemma bit_reverse_loop_map:
  assumes "length xs = 64" and "r < 64"
  shows "bit_reverse_loop i r (map f xs) = map f (bit_reverse_loop i r xs)"
  using assms
proof (induction i r xs rule: bit_reverse_loop.induct)
  case (1 i r xs)
  show ?case
  proof (cases "i < 64")
    case True
    let ?r = "reverse_carry r 32"
    have r: "?r < 64" using reverse_carry_less[OF 1(3)] .
    have swap: "(if i < ?r then swap_at i ?r (map f xs) else map f xs) = map f (if i < ?r then swap_at i ?r xs else xs)"
      using True r 1(2) by (simp add: swap_at_map)
    have len: "length (if i < ?r then swap_at i ?r xs else xs) = 64" using 1(2) by (simp add: swap_at_def)
    from 1(1)[OF True _ len r] show ?thesis
      using True by (subst (1 2) bit_reverse_loop.simps) (simp add: Let_def swap)
  qed (simp add: bit_reverse_loop.simps)
qed

lemma bit_reverse_nth:
  assumes "length xs = 64" and "i < 64"
  shows "bit_reverse xs ! i = xs ! reversed 6 i"
proof -
  have "bit_reverse [0 ..< 64] = map (reversed 6) [0 ..< 64]" by code_simp
  moreover have "bit_reverse (map ((!) xs) [0 ..< 64]) = map ((!) xs) (bit_reverse [0 ..< 64])"
    unfolding bit_reverse_def by (rule bit_reverse_loop_map) simp_all
  moreover have "map ((!) xs) [0 ..< 64] = xs" using assms(1) map_nth[of xs] by simp
  ultimately show ?thesis using assms(2) by simp
qed

lemma length_bit_reverse:
  assumes "length xs = 64"
  shows "length (bit_reverse xs) = 64"
proof -
  have "bit_reverse (map ((!) xs) [0 ..< 64]) = map ((!) xs) (bit_reverse [0 ..< 64])"
    unfolding bit_reverse_def by (rule bit_reverse_loop_map) simp_all
  moreover have "map ((!) xs) [0 ..< 64] = xs" using assms map_nth[of xs] by simp
  moreover have "length (bit_reverse [0 ..< 64]) = 64" by code_simp
  ultimately show ?thesis by (metis length_map)
qed

section \<open>The stages\<close>

text \<open>Words below \<open>m\<close> as elements of a ring of that characteristic.\<close>

locale residue_ring =
  fixes m :: u64 and ring :: "'a::comm_ring_1 itself"
  assumes char: "CHAR('a) = unat m" and small: "unat m < 2 ^ 63" and big: "1 < m"
begin

lemma nonzero: "m \<noteq> 0"
  using big by auto

lemmas ops = residue_mod_ops[OF char small nonzero]
lemmas pow = pow_mod_residue[OF char small big]

definition reduced :: "u64 list \<Rightarrow> bool" where
  "reduced xs \<longleftrightarrow> length xs = 64 \<and> (\<forall>x \<in> set xs. x < m)"

lemma reduced_nth: "reduced xs \<Longrightarrow> i < 64 \<Longrightarrow> xs ! i < m"
  by (simp add: reduced_def)

lemma reduced_update: "reduced xs \<Longrightarrow> v < m \<Longrightarrow> reduced (xs[i := v])"
  using set_update_subset_insert[of xs i v] by (auto simp: reduced_def)

definition butterflies :: "'a \<Rightarrow> nat \<Rightarrow> (nat \<Rightarrow> 'a) \<Rightarrow> nat \<Rightarrow> 'a" where
  "butterflies w half v r = (if r < half then v r + w ^ r * v (r + half) else v (r - half) - w ^ (r - half) * v r)"

lemma butterfly_loop:
  assumes "reduced xs" and "block + 2 * half \<le> 64"
  shows "reduced (butterfly m w half block offset t xs) \<and> (\<forall>i < 64. residue (butterfly m w half block offset t xs ! i) =
    (if block + offset \<le> i \<and> i < block + half
     then residue (xs ! i) + (residue t * residue w ^ (i - block - offset)) * residue (xs ! (i + half))
     else if block + half + offset \<le> i \<and> i < block + 2 * half
     then residue (xs ! (i - half)) - (residue t * residue w ^ (i - half - block - offset)) * residue (xs ! i)
     else (residue (xs ! i) :: 'a)))"
  using assms
proof (induction "half - offset" arbitrary: offset t xs)
  case 0
  then show ?case by (subst (1 2) butterfly.simps) auto
next
  case (Suc n)
  have off: "offset < half" using Suc.hyps(2) by simp
  let ?e = "xs ! (block + offset)" and ?o = "mul_mod (xs ! (block + offset + half)) t m"
  let ?ys = "xs[block + offset := add_mod ?e ?o m, block + offset + half := sub_mod ?e ?o m]"
  have lt: "?e < m" "?o < m" using Suc.prems off reduced_nth mul_mod_less[OF nonzero] by auto
  have ys: "reduced ?ys" using Suc.prems(1) lt small by (intro reduced_update) (simp_all add: add_mod_less sub_mod_less)
  have step: "butterfly m w half block offset t xs = butterfly m w half block (offset + 1) (mul_mod t w m) ?ys"
    using off by (subst butterfly.simps) (simp add: Let_def)
  have IH: "reduced (butterfly m w half block (offset + 1) (mul_mod t w m) ?ys)"
    "\<And>i. i < 64 \<Longrightarrow> residue (butterfly m w half block (offset + 1) (mul_mod t w m) ?ys ! i) =
    (if block + (offset + 1) \<le> i \<and> i < block + half
     then residue (?ys ! i) + (residue (mul_mod t w m) * residue w ^ (i - block - (offset + 1))) * residue (?ys ! (i + half))
     else if block + half + (offset + 1) \<le> i \<and> i < block + 2 * half
     then residue (?ys ! (i - half)) - (residue (mul_mod t w m) * residue w ^ (i - half - block - (offset + 1))) * residue (?ys ! i)
     else (residue (?ys ! i) :: 'a))"
    using Suc.hyps(1)[of "offset + 1" ?ys "mul_mod t w m"] Suc.hyps(2) Suc.prems(2) ys by auto
  have len: "length xs = 64" using Suc.prems(1) by (simp add: reduced_def)
  show ?case
  proof (intro conjI allI impI)
    show "reduced (butterfly m w half block offset t xs)" unfolding step by (rule IH(1))
    fix i :: nat assume i: "i < 64"
    have pw: "residue (mul_mod t w m) * residue w ^ (k - (offset + 1)) = (residue t * residue w ^ (k - offset) :: 'a)" if "offset < k" for k
    proof -
      have "k - offset = Suc (k - (offset + 1))" using that by simp
      then show ?thesis by (simp add: ops(1) mult.assoc)
    qed
    show "residue (butterfly m w half block offset t xs ! i) =
      (if block + offset \<le> i \<and> i < block + half
       then residue (xs ! i) + (residue t * residue w ^ (i - block - offset)) * residue (xs ! (i + half))
       else if block + half + offset \<le> i \<and> i < block + 2 * half
       then residue (xs ! (i - half)) - (residue t * residue w ^ (i - half - block - offset)) * residue (xs ! i)
       else (residue (xs ! i) :: 'a))"
    proof -
      consider "i = block + offset" | "i = block + offset + half" | "i \<noteq> block + offset" "i \<noteq> block + offset + half" by blast
      then show ?thesis
      proof cases
        case 1
        then show ?thesis unfolding step IH(2)[OF i] using off len i lt Suc.prems(2)
          by (simp add: ops)
      next
        case 2
        then show ?thesis unfolding step IH(2)[OF i] using off len i lt Suc.prems(2)
          by (simp add: ops)
      next
        case 3
        then have same: "?ys ! i = xs ! i" by simp
        show ?thesis unfolding step IH(2)[OF i] same
          using 3 off len pw[of "i - block"] pw[of "i - half - block"] by (auto simp: nth_list_update)
      qed
    qed
  qed
qed

end

lemma reversed_double: "reversed (Suc n) (2 * b) = reversed n b" "reversed (Suc n) (2 * b + 1) = reversed n b + 2 ^ n"
proof -
  have "(2 * b + 1) mod 2 = 1" "(2 * b + 1) div 2 = b" by simp_all
  then show "reversed (Suc n) (2 * b + 1) = reversed n b + 2 ^ n" by (simp only: reversed.simps mult_1)
qed simp

context residue_ring
begin

lemma butterfly_block:
  assumes "reduced xs" and "(b + 1) * (2 * half) \<le> 64"
  shows "reduced (butterfly m w half (b * (2 * half)) 0 1 xs)"
    and "c * (2 * half) + r < 64 \<Longrightarrow> r < 2 * half \<Longrightarrow> residue (butterfly m w half (b * (2 * half)) 0 1 xs ! (c * (2 * half) + r)) =
      (if c = b then butterflies (residue w) half (\<lambda>r. residue (xs ! (b * (2 * half) + r))) r else (residue (xs ! (c * (2 * half) + r)) :: 'a))"
proof -
  let ?B = "b * (2 * half)"
  have room: "?B + 2 * half \<le> 64" using assms(2) by (simp add: algebra_simps)
  note loop = butterfly_loop[OF assms(1) room, of w 0 1]
  show "reduced (butterfly m w half ?B 0 1 xs)" using loop by blast
  assume r: "c * (2 * half) + r < 64" "r < 2 * half"
  show "residue (butterfly m w half ?B 0 1 xs ! (c * (2 * half) + r)) =
      (if c = b then butterflies (residue w) half (\<lambda>r. residue (xs ! (?B + r))) r else (residue (xs ! (c * (2 * half) + r)) :: 'a))"
  proof (cases "c = b")
    case True
    then show ?thesis using loop r by (auto simp: butterflies_def add.assoc)
  next
    case False
    have "c * (2 * half) + r < ?B \<or> ?B + 2 * half \<le> c * (2 * half) + r"
    proof (cases "c < b")
      case True
      then have "(c + 1) * (2 * half) \<le> ?B" by (intro mult_le_mono1) simp
      with r show ?thesis by (simp add: algebra_simps)
    next
      case False
      with \<open>c \<noteq> b\<close> have "(b + 1) * (2 * half) \<le> c * (2 * half)" by (intro mult_le_mono1) simp
      then show ?thesis by (simp add: algebra_simps)
    qed
    with loop r False show ?thesis by auto
  qed
qed

lemma blocks_residue:
  assumes "reduced xs" and "n * (2 * half) \<le> 64"
  shows "reduced (fold (\<lambda>block. butterfly m w half block 0 1) (map (\<lambda>i. i * (2 * half)) [0 ..< n]) xs)
    \<and> (\<forall>c r. c * (2 * half) + r < 64 \<longrightarrow> r < 2 * half \<longrightarrow>
      residue (fold (\<lambda>block. butterfly m w half block 0 1) (map (\<lambda>i. i * (2 * half)) [0 ..< n]) xs ! (c * (2 * half) + r)) =
      (if c < n then butterflies (residue w) half (\<lambda>r. residue (xs ! (c * (2 * half) + r))) r else (residue (xs ! (c * (2 * half) + r)) :: 'a)))"
  using assms(2)
proof (induction n)
  case (Suc n)
  let ?ys = "fold (\<lambda>block. butterfly m w half block 0 1) (map (\<lambda>i. i * (2 * half)) [0 ..< n]) xs"
  have "Suc n * (2 * half) \<le> 64" by (rule Suc.prems)
  then have le: "n * (2 * half) \<le> 64" "(n + 1) * (2 * half) \<le> 64" unfolding mult_Suc Suc_eq_plus1[symmetric] by linarith+
  note IH = Suc.IH[OF le(1)]
  have ys: "reduced ?ys" using IH by blast
  have val: "residue (?ys ! (c * (2 * half) + r)) =
      (if c < n then butterflies (residue w) half (\<lambda>r. residue (xs ! (c * (2 * half) + r))) r else (residue (xs ! (c * (2 * half) + r)) :: 'a))"
    if "c * (2 * half) + r < 64" "r < 2 * half" for c r using IH that by blast
  have cong: "butterflies (residue w) half (\<lambda>r. residue (?ys ! (n * (2 * half) + r))) r
      = (butterflies (residue w) half (\<lambda>r. residue (xs ! (n * (2 * half) + r))) r :: 'a)" if "r < 2 * half" for r
  proof -
    have room: "n * (2 * half) + 2 * half \<le> 64" using le(2) by (simp add: algebra_simps)
    have "residue (?ys ! (n * (2 * half) + q)) = (residue (xs ! (n * (2 * half) + q)) :: 'a)" if "q < 2 * half" for q
      using val[of n q] that room by simp
    from this[of r] this[of "r + half"] this[of "r - half"] that show ?thesis by (cases "r < half") (simp_all add: butterflies_def less_imp_diff_less)
  qed
  show ?case
    using butterfly_block[OF ys le(2), where w = w] val cong by (auto simp: less_Suc_eq simp del: mult_Suc)
qed (use assms(1) in simp)

text \<open>One stage turns transforms of length \<open>half\<close> into transforms of twice that length.\<close>

definition partial :: "'a \<Rightarrow> nat \<Rightarrow> (nat \<Rightarrow> 'a) \<Rightarrow> u64 list \<Rightarrow> bool" where
  "partial w s x vs \<longleftrightarrow> reduced vs \<and> (\<forall>b < 2 ^ (6 - s). \<forall>k < 2 ^ s.
     residue (vs ! (b * 2 ^ s + k)) = dft (2 ^ s) (w ^ 2 ^ (6 - s)) (\<lambda>j. x (reversed (6 - s) b + j * 2 ^ (6 - s))) k)"

lemma stage_partial:
  assumes p: "md_value p = m" and at: "partial (residue d) s x vs" and s: "s < 6" and root: "(residue d :: 'a) ^ 32 = - 1"
  shows "partial (residue d) (Suc s) x (ntt_stage p d (2 ^ Suc s) vs)"
proof -
  let ?h = "2 ^ s :: nat" and ?n = "2 ^ (5 - s) :: nat"
  let ?w = "pow_mod d (of_nat ?n) m" and ?z = "residue d ^ ?n :: 'a"
  have "s = 0 \<or> s = 1 \<or> s = 2 \<or> s = 3 \<or> s = 4 \<or> s = 5" using s by linarith
  then have pows: "(2 :: nat) ^ (6 - s) = 2 * ?n" "?n * (2 * ?h) = 64" "64 div (2 * ?h) = ?n" "unat (of_nat ?n :: u64) = ?n" "?n * ?h = 32"
    "6 - s = Suc (5 - s)" by (elim disjE; simp)+
  have z: "residue ?w = ?z" using pow(1)[of d "of_nat ?n"] pows(4) by simp
  have z2: "?z ^ 2 = residue d ^ (2 * ?n)" by (simp add: mult.commute flip: power_mult)
  have zh: "?z ^ ?h = - 1" using root pows(5) by (simp flip: power_mult)
  have st: "ntt_stage p d (2 ^ Suc s) vs = fold (\<lambda>block. butterfly m ?w ?h block 0 1) (map (\<lambda>i. i * (2 * ?h)) [0 ..< ?n]) vs"
    by (simp add: ntt_stage_def p pows(3) Let_def)
  have red: "reduced vs" using at by (simp add: partial_def)
  note blk = blocks_residue[OF red eq_refl[OF pows(2)], of ?w]
  have "residue (ntt_stage p d (2 ^ Suc s) vs ! (b * 2 ^ Suc s + k))
      = dft (2 ^ Suc s) ?z (\<lambda>j. x (reversed (5 - s) b + j * ?n)) k" if b: "b < ?n" and k: "k < 2 ^ Suc s" for b k
  proof -
    let ?X = "\<lambda>j. x (reversed (5 - s) b + j * ?n)"
    have low: "residue (vs ! (b * (2 * ?h) + r)) = dft ?h (?z ^ 2) (\<lambda>j. ?X (2 * j)) r"
      and high: "residue (vs ! (b * (2 * ?h) + (r + ?h))) = dft ?h (?z ^ 2) (\<lambda>j. ?X (2 * j + 1)) r" if "r < ?h" for r
    proof -
      have b2: "2 * b < 2 ^ (6 - s)" "2 * b + 1 < 2 ^ (6 - s)" using b pows(1) by auto
      have vals: "residue (vs ! (c * ?h + r)) = dft ?h (residue d ^ 2 ^ (6 - s)) (\<lambda>j. x (reversed (6 - s) c + j * 2 ^ (6 - s))) r"
        if "c < 2 ^ (6 - s)" for c using at \<open>r < ?h\<close> that unfolding partial_def by blast
      have X: "x (reversed (6 - s) (2 * b) + j * 2 ^ (6 - s)) = ?X (2 * j)" "x (reversed (6 - s) (2 * b + 1) + j * 2 ^ (6 - s)) = ?X (2 * j + 1)" for j
        unfolding pows(6) reversed_double by (simp_all add: algebra_simps)
      have i: "b * (2 * ?h) + r = 2 * b * ?h + r" "b * (2 * ?h) + (r + ?h) = (2 * b + 1) * ?h + r" by (simp_all add: algebra_simps)
      show "residue (vs ! (b * (2 * ?h) + r)) = dft ?h (?z ^ 2) (\<lambda>j. ?X (2 * j)) r"
        unfolding i vals[OF b2(1)] X z2 by (simp only: pows(1))
      show "residue (vs ! (b * (2 * ?h) + (r + ?h))) = dft ?h (?z ^ 2) (\<lambda>j. ?X (2 * j + 1)) r"
        unfolding i vals[OF b2(2)] X z2 by (simp only: pows(1))
    qed
    have "(b + 1) * (2 * ?h) \<le> ?n * (2 * ?h)" using b by (intro mult_le_mono1) simp
    then have "b * (2 * ?h) + k < 64" using k pows(2) by simp
    then have "residue (ntt_stage p d (2 ^ Suc s) vs ! (b * (2 * ?h) + k)) = butterflies ?z ?h (\<lambda>r. residue (vs ! (b * (2 * ?h) + r))) k"
      using blk b k unfolding st z by simp
    also have "\<dots> = dft (2 * ?h) ?z ?X k"
    proof (cases "k < ?h")
      case True
      then show ?thesis by (simp add: butterflies_def low high dft_split)
    next
      case False
      then have "k - ?h < ?h" "k = k - ?h + ?h" using k by auto
      then show ?thesis using dft_split_upper[OF zh, of ?X "k - ?h"] low[of "k - ?h"] high[of "k - ?h"] False
        by (simp add: butterflies_def)
    qed
    finally show ?thesis by simp
  qed
  moreover have "6 - Suc s = 5 - s" by simp
  ultimately show ?thesis using blk unfolding partial_def st by simp
qed

end

section \<open>The transform is a Fourier sum\<close>

context residue_ring
begin

lemma stages_partial:
  assumes "length vs = 64" and "\<forall>v \<in> set vs. v < m" and p: "md_value p = m" and root: "(residue d :: 'a) ^ 32 = - 1" and "n \<le> 6"
  shows "partial (residue d) n (\<lambda>i. residue (vs ! i)) (fold (ntt_stage p d) (map (\<lambda>t. 2 ^ Suc t) [0 ..< n]) (bit_reverse vs))"
  using assms(5)
proof (induction n)
  case 0
  have len: "length (bit_reverse vs) = 64" by (rule length_bit_reverse[OF assms(1)])
  have nth: "bit_reverse vs ! i = vs ! reversed 6 i" if "i < 64" for i using bit_reverse_nth[OF assms(1) that] .
  have "x < m" if x: "x \<in> set (bit_reverse vs)" for x
  proof -
    obtain i where i: "i < 64" "x = bit_reverse vs ! i" using x len by (auto simp: in_set_conv_nth)
    have "reversed 6 i < 64" using reversed_less[of 6 i] by simp
    with i nth assms(1,2) show ?thesis by simp
  qed
  with len nth show ?case by (simp add: partial_def reduced_def dft_def del: reversed.simps)
next
  case (Suc n)
  then have "n < 6" by simp
  with stage_partial[OF p Suc.IH[OF less_imp_le] _ root] show ?case by simp
qed

lemma transform_forward:
  assumes "length vs = 64" and "\<forall>v \<in> set vs. v < m" and p: "md_value p = m" and root: "(residue (transform_root p False) :: 'a) ^ 32 = - 1"
  shows "reduced (transform vs p False)"
    and "k < 64 \<Longrightarrow> residue (transform vs p False ! k) = dft 64 (residue (transform_root p False) :: 'a) (\<lambda>i. residue (vs ! i)) k"
proof -
  have "[2, 4, 8, 16, 32, 64 :: nat] = map (\<lambda>t. 2 ^ Suc t) [0 ..< 6]" by code_simp
  then have "transform vs p False = fold (ntt_stage p (transform_root p False)) (map (\<lambda>t. 2 ^ Suc t) [0 ..< 6]) (bit_reverse vs)"
    by (simp add: transform_def)
  with stages_partial[OF assms(1-3) root order.refl]
  show "reduced (transform vs p False)"
    "k < 64 \<Longrightarrow> residue (transform vs p False ! k) = dft 64 (residue (transform_root p False) :: 'a) (\<lambda>i. residue (vs ! i)) k"
    by (simp_all add: partial_def)
qed

lemma transform_backward:
  assumes "length vs = 64" and "\<forall>v \<in> set vs. v < m" and p: "md_value p = m" and root: "(residue (transform_root p True) :: 'a) ^ 32 = - 1"
  shows "reduced (transform vs p True)"
    and "k < 64 \<Longrightarrow> residue (transform vs p True ! k)
      = residue (inverse_mod 64 m) * dft 64 (residue (transform_root p True) :: 'a) (\<lambda>i. residue (vs ! i)) k"
proof -
  have "[2, 4, 8, 16, 32, 64 :: nat] = map (\<lambda>t. 2 ^ Suc t) [0 ..< 6]" by code_simp
  then have t: "transform vs p True = map (\<lambda>v. mul_mod v (inverse_mod 64 m) m)
      (fold (ntt_stage p (transform_root p True)) (map (\<lambda>t. 2 ^ Suc t) [0 ..< 6]) (bit_reverse vs))"
    by (simp add: transform_def p Let_def)
  note at = stages_partial[OF assms(1-3) root order.refl]
  show "reduced (transform vs p True)" using at mul_mod_less[OF nonzero] unfolding t by (auto simp: partial_def reduced_def)
  assume "k < 64"
  with at show "residue (transform vs p True ! k)
      = residue (inverse_mod 64 m) * dft 64 (residue (transform_root p True) :: 'a) (\<lambda>i. residue (vs ! i)) k"
    unfolding t by (simp add: partial_def reduced_def ops(1) mult.commute)
qed

end

section \<open>Convolution modulo a prime\<close>

text \<open>A modulus with a root of unity of order 64, its inverse, and an inverse of 64.\<close>

locale ntt_modulus = residue_ring m ring for m :: u64 and ring :: "'a::comm_ring_1 itself" +
  fixes p :: modulus
  assumes value_m: "md_value p = m" and root: "(residue (transform_root p False) :: 'a) ^ 32 = - 1"
    and inverse_root: "residue (transform_root p True) * residue (transform_root p False) = (1 :: 'a)"
    and inverse_length: "64 * residue (inverse_mod 64 m) = (1 :: 'a)"
begin

lemma backward_root: "(residue (transform_root p True) :: 'a) ^ 32 = - 1"
proof -
  have "(residue (transform_root p True) * residue (transform_root p False) :: 'a) ^ 32 = 1" by (simp add: inverse_root)
  then have "(residue (transform_root p True) :: 'a) ^ 32 * - 1 = 1" by (simp only: power_mult_distrib root)
  then show ?thesis by (simp add: minus_equation_iff)
qed

lemma convolution_mod_residue:
  assumes "length left = 64" and "length right = 64" and "k < 64"
  shows "reduced (convolution_mod left right p)"
    and "residue (convolution_mod left right p ! k) = cyclic 64 (\<lambda>i. residue (left ! i)) (\<lambda>i. residue (right ! i) :: 'a) k"
proof -
  let ?l = "transform (map (\<lambda>v. v mod m) left) p False" and ?r = "transform (map (\<lambda>v. v mod m) right) p False"
  let ?w = "residue (transform_root p False) :: 'a"
  have red: "\<forall>v \<in> set (map (\<lambda>v. v mod m) vs). v < m" for vs using nonzero by (auto simp: word_less_nat_alt unat_mod unat_gt_0)
  have fw: "reduced (transform (map (\<lambda>v. v mod m) vs) p False)"
    "i < 64 \<Longrightarrow> residue (transform (map (\<lambda>v. v mod m) vs) p False ! i) = dft 64 ?w (\<lambda>i. residue (vs ! i)) i"
    if "length vs = 64" for vs i
    using transform_forward[OF _ red value_m root, of vs] that ops(4) by (auto simp: dft_def intro!: sum.cong)
  have len: "length ?l = 64" "length ?r = 64" using fw(1) assms by (auto simp: reduced_def)
  have prod: "\<forall>v \<in> set (map2 (\<lambda>a b. mul_mod a b m) ?l ?r). v < m" using mul_mod_less[OF nonzero] by auto
  have nth: "residue (map2 (\<lambda>a b. mul_mod a b m) ?l ?r ! i) = dft 64 ?w (\<lambda>i. residue (left ! i)) i * dft 64 ?w (\<lambda>i. residue (right ! i)) i"
    if "i < 64" for i using that len fw(2) assms ops(1) by simp
  have c: "convolution_mod left right p = transform (map2 (\<lambda>a b. mul_mod a b m) ?l ?r) p True"
    by (simp add: convolution_mod_def value_m Let_def)
  have l: "length (map2 (\<lambda>a b. mul_mod a b m) ?l ?r) = 64" using len by simp
  note bw = transform_backward[OF l prod value_m backward_root]
  show "reduced (convolution_mod left right p)" unfolding c by (rule bw(1))
  have "residue (convolution_mod left right p ! k) = residue (inverse_mod 64 m)
      * dft 64 (residue (transform_root p True)) (\<lambda>i. dft 64 ?w (\<lambda>i. residue (left ! i)) i * dft 64 ?w (\<lambda>i. residue (right ! i)) i) k"
    unfolding c bw(2)[OF assms(3)] using nth by (simp add: dft_def)
  also have "\<dots> = cyclic 64 (\<lambda>i. residue (left ! i)) (\<lambda>i. residue (right ! i)) k"
    by (rule cyclic_transform[OF root inverse_root inverse_length assms(3)])
  finally show "residue (convolution_mod left right p ! k) = cyclic 64 (\<lambda>i. residue (left ! i)) (\<lambda>i. residue (right ! i) :: 'a) k" .
qed

lemma of_nat_cyclic: "of_nat (cyclic n f g k) = cyclic n (\<lambda>i. of_nat (f i)) (\<lambda>i. of_nat (g i) :: 'a) k"
  by (simp add: cyclic_def if_distrib cong: if_cong)

lemma convolution_mod_unat:
  assumes "length left = 64" and "length right = 64" and "k < 64"
  shows "unat (convolution_mod left right p ! k) = cyclic 64 (\<lambda>i. unat (left ! i)) (\<lambda>i. unat (right ! i)) k mod unat m"
proof (rule residue_inject[OF char])
  show "unat (convolution_mod left right p ! k) < unat m"
    using reduced_nth[OF convolution_mod_residue(1)[OF assms] assms(3)] by (simp add: word_less_nat_alt)
  show "cyclic 64 (\<lambda>i. unat (left ! i)) (\<lambda>i. unat (right ! i)) k mod unat m < unat m" using nonzero by (simp add: unat_gt_0)
  show "(of_nat (unat (convolution_mod left right p ! k)) :: 'a) = of_nat (cyclic 64 (\<lambda>i. unat (left ! i)) (\<lambda>i. unat (right ! i)) k mod unat m)"
    using convolution_mod_residue(2)[OF assms] unfolding char[symmetric] of_nat_mod_char of_nat_cyclic by (simp add: residue_def)
qed

end

section \<open>The two moduli\<close>

interpretation first_ring: residue_ring 998244353 "TYPE(998244353)"
  by unfold_locales simp_all

interpretation second_ring: residue_ring 1004535809 "TYPE(1004535809)"
  by unfold_locales simp_all

lemma first_root: "pow_mod 3 15597568 998244353 = 922799308"
  by code_simp

lemma first_inverse: "inverse_mod 922799308 998244353 = 609441965"
  by code_simp

lemma first_length: "inverse_mod 64 998244353 = 982646785"
  by code_simp

lemma first_order: "pow_mod 922799308 32 998244353 = 998244352"
  by code_simp

lemma second_root: "pow_mod 3 15695872 1004535809 = 89059135"
  by code_simp

lemma second_inverse: "inverse_mod 89059135 1004535809 = 412852222"
  by code_simp

lemma second_length: "inverse_mod 64 1004535809 = 988839937"
  by code_simp

lemma second_order: "pow_mod 89059135 32 1004535809 = 1004535808"
  by code_simp

lemma moduli_inverse: "inverse_mod 998244353 1004535809 = 669690699"
  by code_simp

lemma transform_roots:
  "transform_root MOD_0 False = 922799308" "transform_root MOD_0 True = 609441965"
  "transform_root MOD_1 False = 89059135" "transform_root MOD_1 True = 412852222"
  by (simp_all add: transform_root_def MOD_0_def MOD_1_def first_root first_inverse second_root second_inverse)

lemma ntt_modulusI:
  assumes "residue_ring TYPE('a::comm_ring_1) m" and p: "md_value p = m" and "pow_mod (transform_root p False) 32 m = m - 1"
    and "mul_mod (transform_root p True) (transform_root p False) m = 1" and "mul_mod 64 (inverse_mod 64 m) m = 1"
  shows "ntt_modulus TYPE('a) m p"
proof -
  note char = residue_ring.char[OF assms(1)] and nonzero = residue_ring.nonzero[OF assms(1)]
  note ops = residue_ring.ops[OF assms(1)] and pow = residue_ring.pow[OF assms(1)]
  have "unat (m - 1) = unat m - 1" using nonzero by (simp add: unat_minus_one)
  moreover have "of_nat (unat m) = (0 :: 'a)" unfolding char[symmetric] by simp
  ultimately have minus: "residue (m - 1) = (- 1 :: 'a)" using nonzero by (simp add: residue_def of_nat_diff unat_gt_0 Suc_leI)
  have "(residue (transform_root p False) :: 'a) ^ unat (32 :: u64) = residue (m - 1)" using pow(1)[of "transform_root p False" 32] assms(3) by simp
  then have "(residue (transform_root p False) :: 'a) ^ 32 = - 1" by (simp add: minus)
  moreover have "residue (transform_root p True) * residue (transform_root p False) = (1 :: 'a)" by (simp add: assms(4) flip: ops(1))
  moreover have "residue 64 * residue (inverse_mod 64 m) = (1 :: 'a)" by (simp add: assms(5) flip: ops(1))
  then have "64 * residue (inverse_mod 64 m) = (1 :: 'a)" by (simp add: residue_def[of 64])
  ultimately show ?thesis using assms(1) p by (simp add: ntt_modulus_def ntt_modulus_axioms_def)
qed

interpretation first: ntt_modulus 998244353 "TYPE(998244353)" MOD_0
  using first_ring.residue_ring_axioms by (rule ntt_modulusI)
    (simp_all add: transform_roots first_order first_length mul_mod_def, simp_all add: MOD_0_def)

interpretation second: ntt_modulus 1004535809 "TYPE(1004535809)" MOD_1
  using second_ring.residue_ring_axioms by (rule ntt_modulusI)
    (simp_all add: transform_roots second_order second_length mul_mod_def, simp_all add: MOD_1_def)

section \<open>Coefficients and their bound\<close>

lemma opposite_index:
  assumes "i < 64" and "j < 64" and "k < 64"
  shows "(i + j) mod 64 = k \<longleftrightarrow> j = (k + 64 - i) mod (64 :: nat)"
proof -
  have "(i + j) mod 64 = (if i + j < 64 then i + j else i + j - 64)" using assms by (simp add: mod_if)
  moreover have "(k + 64 - i) mod 64 = (if i \<le> k then k - i else k + 64 - i)" using assms by (auto simp: mod_if)
  ultimately show ?thesis using assms by auto
qed

lemma cyclic_eq:
  assumes "k < 64"
  shows "cyclic 64 f g k = (\<Sum>i < 64. f i * g ((k + 64 - i) mod 64))"
proof -
  have "(\<Sum>j < 64. if (i + j) mod 64 = k then f i * g j else 0) = f i * g ((k + 64 - i) mod 64)" if "i < 64" for i
  proof -
    have "(\<Sum>j < 64. if (i + j) mod 64 = k then f i * g j else 0) = (\<Sum>j < 64. if j = (k + 64 - i) mod 64 then f i * g j else 0)"
      using opposite_index[OF that _ assms] by (intro sum.cong) auto
    then show ?thesis by (simp add: sum.delta)
  qed
  then show ?thesis by (simp add: cyclic_def)
qed

lemma cyclic_commute: "cyclic n f g k = cyclic n g f k"
proof -
  have "(if (i + j) mod n = k then f i * g j else 0) = (if (j + i) mod n = k then g j * f i else 0)" for i j
    by (simp add: add.commute mult.commute)
  then show ?thesis unfolding cyclic_def by (subst sum.swap) simp
qed

lemma cyclic_bound:
  fixes f g :: "nat \<Rightarrow> nat"
  assumes "k < 64" and "\<And>j. j < 64 \<Longrightarrow> g j \<le> M"
  shows "cyclic 64 f g k \<le> (\<Sum>i < 64. f i) * M"
  unfolding cyclic_eq[OF assms(1)] sum_distrib_right using assms(2) by (intro sum_mono mult_le_mono2) simp

definition total_of :: "u64 list \<Rightarrow> nat" where
  "total_of xs = sum_list (map unat xs)"

definition greatest_of :: "u64 list \<Rightarrow> nat" where
  "greatest_of xs = fold (\<lambda>x a. max a (unat x)) xs 0"

lemma greatest_fold: "unat x \<le> fold (\<lambda>x a. max a (unat x)) xs a" if "x \<in> set xs" for x :: u64
  using that
proof (induction xs arbitrary: a)
  case (Cons y ys)
  have mono: "b \<le> fold (\<lambda>x a. max a (unat x)) zs b" for zs :: "u64 list" and b
  proof (induction zs arbitrary: b)
    case (Cons z zs)
    from Cons[of "max b (unat z)"] show ?case by simp
  qed simp
  show ?case
  proof (cases "x = y")
    case True
    then show ?thesis using mono[of "max a (unat x)" ys] by simp
  next
    case False
    with Cons show ?thesis by simp
  qed
qed simp

lemma sum_and_max_Ok:
  assumes "unat acc + total_of xs < 2 ^ 128"
  shows "\<exists>s g'. sum_and_max xs acc g = Ok (s, g') \<and> unat s = unat acc + total_of xs \<and> unat g' = fold (\<lambda>x a. max a (unat x)) xs (unat g)"
  using assms
proof (induction xs arbitrary: acc g)
  case (Cons x xs)
  have "unat acc + unat x < 2 ^ 128" using Cons.prems by (simp add: total_of_def)
  then have add: "checked_add acc (ucast x) = Some (acc + ucast x)" "unat (acc + ucast x) = unat acc + unat x"
    by (simp_all add: checked_add_def unat_ucast_128 unat_word_ariths)
  moreover have "unat (acc + ucast x) + total_of xs < 2 ^ 128" using Cons.prems add(2) by (simp add: total_of_def)
  moreover have "unat (max g x) = max (unat g) (unat x)" by (simp add: max_def word_le_nat_alt)
  ultimately show ?case using Cons.IH[of "acc + ucast x" "max g x"] by (auto simp: total_of_def)
qed (simp add: total_of_def)

lemma total_of_bound:
  assumes "length xs = 64"
  shows "total_of xs < 2 ^ 128"
proof -
  have "total_of xs \<le> length xs * 2 ^ 64" for xs
  proof (induction xs)
    case (Cons x xs)
    then show ?case using unat_lt2p[of x] by (simp add: total_of_def)
  qed (simp add: total_of_def)
  from this[of xs] assms show ?thesis by simp
qed

definition exact_bounds :: "u64 list \<Rightarrow> u64 list \<Rightarrow> nat \<times> nat" where
  "exact_bounds left right = (total_of left * greatest_of right, total_of right * greatest_of left)"

lemma coefficient_upper_bound_eq:
  assumes "length left = 64" and "length right = 64" and "exact_bounds left right = (a, b)"
  shows "if a < 2 ^ 128 \<and> b < 2 ^ 128 then \<exists>bound. coefficient_upper_bound left right = Ok bound \<and> unat bound = min a b
    else coefficient_upper_bound left right = Err Arithmetic"
proof -
  have ab: "a = total_of left * greatest_of right" "b = total_of right * greatest_of left" using assms(3) by (auto simp: exact_bounds_def)
  obtain ls lm where l: "sum_and_max left 0 0 = Ok (ls, lm)" "unat ls = total_of left" "unat lm = greatest_of left"
    using sum_and_max_Ok[of 0 left 0] total_of_bound[OF assms(1)] by (auto simp: greatest_of_def)
  obtain rs rm where r: "sum_and_max right 0 0 = Ok (rs, rm)" "unat rs = total_of right" "unat rm = greatest_of right"
    using sum_and_max_Ok[of 0 right 0] total_of_bound[OF assms(2)] by (auto simp: greatest_of_def)
  have m: "checked_mul ls (ucast rm) = (if a < 2 ^ 128 then Some (ls * ucast rm) else None)"
    "checked_mul rs (ucast lm) = (if b < 2 ^ 128 then Some (rs * ucast lm) else None)"
    by (simp_all add: checked_mul_def unat_ucast_128 l r ab)
  have v: "a < 2 ^ 128 \<Longrightarrow> unat (ls * ucast rm) = a" "b < 2 ^ 128 \<Longrightarrow> unat (rs * ucast lm) = b"
    by (simp_all add: unat_word_ariths unat_ucast_128 l r ab)
  have call: "coefficient_upper_bound left right = (case checked_mul ls (ucast rm) of None \<Rightarrow> Err Arithmetic | Some x \<Rightarrow>
      (case checked_mul rs (ucast lm) of None \<Rightarrow> Err Arithmetic | Some y \<Rightarrow> Ok (min x y)))"
    by (simp add: coefficient_upper_bound_def l r)
  show ?thesis
  proof (cases "a < 2 ^ 128 \<and> b < 2 ^ 128")
    case True
    then have "coefficient_upper_bound left right = Ok (min (ls * ucast rm) (rs * ucast lm))" unfolding call m by simp
    moreover have "unat (min (ls * ucast rm) (rs * ucast lm)) = min a b" using v True by (auto simp: min_def word_le_nat_alt)
    ultimately show ?thesis using True by auto
  next
    case False
    then show ?thesis unfolding call m by auto
  qed
qed

lemma cyclic_exact_bounds:
  assumes "length left = 64" and "length right = 64" and "exact_bounds left right = (a, b)" and "k < 64"
  shows "cyclic 64 (\<lambda>i. unat (left ! i)) (\<lambda>i. unat (right ! i)) k \<le> min a b"
proof -
  have tot: "(\<Sum>i < 64. unat (xs ! i)) = total_of xs" if "length xs = 64" for xs
    using that by (simp add: total_of_def sum_list_sum_nth lessThan_atLeast0)
  have "unat (xs ! j) \<le> greatest_of xs" if "length xs = 64" "j < 64" for xs j
    using that greatest_fold[of "xs ! j" xs 0] by (simp add: greatest_of_def)
  then have "cyclic 64 (\<lambda>i. unat (left ! i)) (\<lambda>i. unat (right ! i)) k \<le> total_of left * greatest_of right"
    "cyclic 64 (\<lambda>i. unat (right ! i)) (\<lambda>i. unat (left ! i)) k \<le> total_of right * greatest_of left"
    using cyclic_bound[OF assms(4)] assms(1,2) tot by metis+
  then show ?thesis using assms(3) by (simp add: exact_bounds_def cyclic_commute[of 64 "\<lambda>i. unat (right ! i)"])
qed

section \<open>Chinese remainders\<close>

lemma inverse_cancels:
  fixes p q x d r i :: nat
  assumes "(d + r) mod q = (p * x + r) mod q" and "p * i mod q = 1" and "x < q"
  shows "d * i mod q = x"
proof -
  have "(int d + int r) mod int q = (int (p * x) + int r) mod int q" using assms(1) by (metis of_nat_add zmod_int)
  then have "int q dvd int d - int (p * x)" by (simp add: mod_eq_dvd_iff)
  then have "int q dvd (int d - int (p * x)) * int i" by (rule dvd_mult2)
  then have "int (d * i) mod int q = int (p * x * i) mod int q" by (simp add: mod_eq_dvd_iff algebra_simps)
  then have "int (d * i mod q) = int (p * x * i mod q)" by (simp only: zmod_int)
  then have "d * i mod q = x * (p * i) mod q" by (simp only: of_nat_eq_iff mult.commute mult.left_commute)
  also have "\<dots> = x * (p * i mod q) mod q" by (simp only: mod_mult_right_eq)
  finally show ?thesis using assms(2,3) by simp
qed

lemma crt_pair_exact:
  assumes "n < 998244353 * 1004535809" and "unat r = n mod 998244353" and "unat s = n mod 1004535809"
  shows "unat (crt_pair r s) = n"
proof -
  let ?p = "998244353 :: nat" and ?q = "1004535809 :: nat" and ?x = "n div 998244353"
  have rl: "unat r < ?p" and sl: "unat s < ?q" using assms(2,3) by simp_all
  then have rm: "r mod 1004535809 = r" by (simp add: word_unat_eq_iff unat_mod)
  define delta where "delta = (if s \<ge> r then s - r else s + 1004535809 - r)"
  have d: "(unat delta + unat r) mod ?q = unat s mod ?q"
  proof (cases "r \<le> s")
    case True
    then show ?thesis by (simp add: delta_def unat_sub word_le_nat_alt)
  next
    case False
    have "unat (s + 1004535809) = unat s + ?q" using sl by (simp add: unat_word_ariths)
    moreover have "r \<le> s + 1004535809" using rl calculation by (simp add: word_le_nat_alt)
    ultimately have "unat delta = unat s + ?q - unat r" using False by (simp add: delta_def unat_sub)
    then show ?thesis using rl by simp
  qed
  have n: "n = unat r + ?p * ?x" using assms(2) by simp
  have "?x < ?q" using assms(1) by (simp add: less_mult_imp_div_less mult.commute)
  have "(unat delta + unat r) mod ?q = (?p * ?x + unat r) mod ?q" using d assms(3) n by (simp add: add.commute)
  then have "unat delta * 669690699 mod ?q = ?x" by (rule inverse_cancels) (use \<open>?x < ?q\<close> in simp_all)
  then have mul: "unat (mul_mod delta 669690699 1004535809) = ?x" by (simp add: unat_mul_mod)
  have "crt_pair r s = ucast r + 998244353 * ucast (mul_mod delta 669690699 1004535809)"
    by (simp add: crt_pair_def moduli_inverse rm delta_def Let_def)
  moreover have "unat (998244353 * ucast (mul_mod delta 669690699 1004535809) :: u128) = ?p * ?x"
    using \<open>?x < ?q\<close> by (simp add: unat_word_ariths unat_ucast_128 mul)
  ultimately show ?thesis using n assms(1) by (simp add: unat_word_ariths unat_ucast_128)
qed

lemma combine_residues_Ok:
  assumes "length rs = length ts" and "\<And>i. i < length rs \<Longrightarrow> unat (crt_pair (rs ! i) (ts ! i)) = f i"
    and "\<And>i. i < length rs \<Longrightarrow> f i \<le> unat bound" and "unat bound < 2 ^ 64"
  shows "\<exists>out. combine_residues bound rs ts = Ok out \<and> map unat out = map f [0 ..< length rs]"
  using assms(1-3)
proof (induction rs ts arbitrary: f rule: list_induct2)
  case (Cons r rs t ts)
  let ?v = "crt_pair r t"
  have v: "unat ?v = f 0" "f 0 \<le> unat bound" using Cons.prems(1)[of 0] Cons.prems(2)[of 0] by simp_all
  have max64: "unat (ucast (- 1 :: u64) :: u128) = 2 ^ 64 - 1" by (simp add: unat_ucast_128 unat_minus_one_word)
  have fits: "\<not> ?v > bound" "\<not> ?v > ucast (- 1 :: u64)"
    using v assms(4) unfolding word_less_nat_alt max64 by simp_all
  have low: "unat (ucast ?v :: u64) = f 0" using v assms(4) by (simp add: unsigned_ucast_eq take_bit_nat_eq_self)
  have "\<exists>out. combine_residues bound rs ts = Ok out \<and> map unat out = map (\<lambda>i. f (Suc i)) [0 ..< length rs]"
    using Cons.prems(1)[of "Suc _"] Cons.prems(2)[of "Suc _"] by (intro Cons.IH) simp_all
  then obtain out where out: "combine_residues bound rs ts = Ok out" "map unat out = map (\<lambda>i. f (Suc i)) [0 ..< length rs]" by blast
  have "map f [0 ..< length (r # rs)] = f 0 # map (\<lambda>i. f (Suc i)) [0 ..< length rs]"
    by (simp add: upt_conv_Cons map_Suc_upt[symmetric] del: upt_Suc)
  with out fits low show ?case by (simp add: Let_def)
qed simp

section \<open>The convolution is exact\<close>

definition convolution :: "u64 list \<Rightarrow> u64 list \<Rightarrow> nat list" where
  "convolution left right = map (cyclic NTT_LENGTH (\<lambda>i. unat (left ! i)) (\<lambda>i. unat (right ! i))) [0 ..< NTT_LENGTH]"

lemma convolution_exact:
  assumes "length left = 64" and "length right = 64" and "exact_bounds left right = (a, b)"
  shows "if a < 2 ^ 128 \<and> b < 2 ^ 128 \<and> min a b < 998244353 * 1004535809
    then \<exists>out. circular_convolution_exact left right = Ok out \<and> map unat out = convolution left right
    else circular_convolution_exact left right = Err (if a < 2 ^ 128 \<and> b < 2 ^ 128 then CoefficientBound else Arithmetic)"
proof (cases "a < 2 ^ 128 \<and> b < 2 ^ 128")
  case False
  with coefficient_upper_bound_eq[OF assms] have "coefficient_upper_bound left right = Err Arithmetic" by (simp split: if_splits)
  with False show ?thesis by (auto simp: circular_convolution_exact_def)
next
  case True
  with coefficient_upper_bound_eq[OF assms] obtain bound where bound: "coefficient_upper_bound left right = Ok bound" "unat bound = min a b"
    by (auto split: if_splits)
  have crt: "unat (998244353 * 1004535809 :: u128) = 998244353 * 1004535809" by simp
  show ?thesis
  proof (cases "min a b < 998244353 * 1004535809")
    case False
    then have "bound \<ge> 998244353 * 1004535809" unfolding word_le_nat_alt crt bound(2) by linarith
    with False True bound(1) show ?thesis by (simp add: circular_convolution_exact_def)
  next
    case small: True
    let ?c = "cyclic 64 (\<lambda>i. unat (left ! i)) (\<lambda>i. unat (right ! i))"
    let ?r = "convolution_mod left right MOD_0" and ?s = "convolution_mod left right MOD_1"
    have le: "?c k \<le> min a b" if "k < 64" for k by (rule cyclic_exact_bounds[OF assms that])
    have len: "length ?r = 64" "length ?s = 64"
      using first.convolution_mod_residue(1)[OF assms(1,2), of 0] second.convolution_mod_residue(1)[OF assms(1,2), of 0]
      by (simp_all add: first_ring.reduced_def second_ring.reduced_def)
    have crt_k: "unat (crt_pair (?r ! k) (?s ! k)) = ?c k" if "k < length ?r" for k
    proof (rule crt_pair_exact)
      have k: "k < 64" using that len by simp
      show "?c k < 998244353 * 1004535809" using le[OF k] small by linarith
      show "unat (?r ! k) = ?c k mod 998244353" using first.convolution_mod_unat[OF assms(1,2) k] by simp
      show "unat (?s ! k) = ?c k mod 1004535809" using second.convolution_mod_unat[OF assms(1,2) k] by simp
    qed
    have "\<exists>out. combine_residues bound ?r ?s = Ok out \<and> map unat out = map ?c [0 ..< length ?r]"
    proof (rule combine_residues_Ok[OF _ crt_k])
      show "unat bound < 2 ^ 64" using small bound(2) by simp
    qed (use len le bound(2) in simp_all)
    moreover have "\<not> (bound \<ge> 998244353 * 1004535809 \<or> bound > ucast (- 1 :: u64))"
    proof -
      have max64: "unat (ucast (- 1 :: u64) :: u128) = 2 ^ 64 - 1" by (simp add: unat_ucast_128 unat_minus_one_word)
      have "min a b < 2 ^ 64" using small by simp
      with small show ?thesis unfolding word_le_nat_alt word_less_nat_alt crt max64 bound(2) by linarith
    qed
    ultimately show ?thesis using True small bound(1) len by (auto simp: circular_convolution_exact_def convolution_def)
  qed
qed

section \<open>The fair queue\<close>

definition spectral_kernel :: "u64 list" where
  "spectral_kernel = [8, 4, 2, 1] @ replicate 57 0 @ [1, 2, 4]"

definition spectral_wf :: "spectral_queue \<Rightarrow> bool" where
  "spectral_wf q \<longleftrightarrow> length (sq_deficits q) = NTT_LENGTH \<and> sq_kernel q = spectral_kernel
     \<and> 0 < unat (sq_classes q) \<and> unat (sq_classes q) \<le> NTT_LENGTH \<and> sq_epoch q \<noteq> 0
     \<and> (\<forall>i < NTT_LENGTH. unat (sq_classes q) \<le> i \<longrightarrow> sq_deficits q ! i = 0)"

lemma next_epoch_nonzero: "next_epoch e \<noteq> 0"
  by (auto simp: next_epoch_def max_def word_le_nat_alt split: if_splits)

lemma kernel_new: "(replicate 64 0)[0 := 8, 1 := 4, 2 := 2, 3 := 1, 63 := 4, 62 := 2, 61 := 1] = spectral_kernel"
  by code_simp

inductive spectral_step :: "spectral_queue \<Rightarrow> spectral_queue \<Rightarrow> bool" where
  charges: "charge class amount q = (r, q') \<Longrightarrow> spectral_step q q'"
| credits: "credit class amount q = (r, q') \<Longrightarrow> spectral_step q q'"
| selects: "select q = (d, q') \<Longrightarrow> spectral_step q q'"
| serves: "serve amount q = (d, q') \<Longrightarrow> spectral_step q q'"

lemma charge_wf: "spectral_wf q \<Longrightarrow> charge class amount q = (r, q') \<Longrightarrow> spectral_wf q'"
  by (auto simp: charge_def spectral_wf_def nth_list_update next_epoch_nonzero split: if_splits option.splits)

lemma credit_wf: "spectral_wf q \<Longrightarrow> credit class amount q = (r, q') \<Longrightarrow> spectral_wf q'"
  by (auto simp: credit_def spectral_wf_def nth_list_update next_epoch_nonzero split: if_splits)

lemma select_wf: "spectral_wf q \<Longrightarrow> select q = (d, q') \<Longrightarrow> spectral_wf q'"
  by (auto simp: select_def spectral_wf_def next_epoch_nonzero Let_def split: sum.splits prod.splits)

lemma serve_wf:
  assumes "spectral_wf q" and "serve amount q = (d, q')"
  shows "spectral_wf q'"
  using assms(2) unfolding serve_def
  by (auto split: sum.splits prod.splits dest: select_wf[OF assms(1)] credit_wf[OF select_wf[OF assms(1)]])

interpretation spectral: invariant_system "\<lambda>q. \<exists>classes secret. spectral_queue_new classes secret = Ok q" spectral_step spectral_wf
proof
  show "\<And>q. \<exists>classes secret. spectral_queue_new classes secret = Ok q \<Longrightarrow> spectral_wf q"
    by (auto simp: spectral_queue_new_def spectral_wf_def kernel_new[simplified] unat_gt_0 split: if_splits)
qed (auto elim!: spectral_step.cases intro: charge_wf credit_wf select_wf serve_wf)

text \<open>The first class of largest value, counted from the cursor.\<close>

lemma select_class_first:
  assumes "0 < classes" and "start < classes" and "select_class values classes start = (c, v)"
  shows "\<exists>d < classes. c = (start + d) mod classes \<and> v = values ! c
    \<and> (\<forall>e < classes. values ! ((start + e) mod classes) \<le> v) \<and> (\<forall>e < d. values ! ((start + e) mod classes) < v)"
proof -
  let ?at = "\<lambda>e. values ! ((start + e) mod classes)"
  define body where "body = (\<lambda>distance (selected :: nat, selected_value). let candidate = (start + distance) mod classes; v = values ! candidate
         in if v > selected_value then (candidate, v) else (selected, selected_value))"
  have "\<exists>d < n. fold body [1 ..< n] (start, values ! start) = ((start + d) mod classes, ?at d) \<and> (\<forall>e < n. ?at e \<le> ?at d) \<and> (\<forall>e < d. ?at e < ?at d)"
    if "0 < n" "n \<le> classes" for n
    using that
  proof (induction n)
    case (Suc n)
    show ?case
    proof (cases "n = 0")
      case True
      then show ?thesis using assms(2) by simp
    next
      case False
      with Suc obtain d where d: "d < n" "fold body [1 ..< n] (start, values ! start) = ((start + d) mod classes, ?at d)"
        "\<forall>e < n. ?at e \<le> ?at d" "\<forall>e < d. ?at e < ?at d" by auto
      have step: "fold body [1 ..< Suc n] (start, values ! start) = body n ((start + d) mod classes, ?at d)" using False d(2) by simp
      show ?thesis
      proof (cases "?at n > ?at d")
        case True
        then have "\<forall>e < n. ?at e < ?at n" using d(3) by (meson le_less_trans)
        with True step show ?thesis by (intro exI[of _ n]) (auto simp: body_def Let_def less_Suc_eq)
      next
        case nle: False
        with d step show ?thesis by (intro exI[of _ d]) (auto simp: body_def Let_def less_Suc_eq)
      qed
    qed
  qed simp
  from this[of classes] assms show ?thesis by (auto simp: select_class_def body_def)
qed

lemma smoothed_eq:
  assumes "spectral_wf q" and "total_of (sq_deficits q) * 8 < 998244353 * 1004535809"
  shows "\<exists>vs. smoothed q = Ok vs \<and> map unat vs = convolution (sq_deficits q) spectral_kernel"
proof -
  obtain a b where ab: "exact_bounds (sq_deficits q) spectral_kernel = (a, b)" by fastforce
  have k: "length spectral_kernel = 64" "greatest_of spectral_kernel = 8" "total_of spectral_kernel = 22" by code_simp+
  have a: "a = total_of (sq_deficits q) * 8" "b = 22 * greatest_of (sq_deficits q)" using ab by (auto simp: exact_bounds_def k)
  have "greatest_of xs \<le> total_of xs" for xs :: "u64 list"
  proof -
    have "fold (\<lambda>x a. max a (unat x)) xs c \<le> c + total_of xs" for c
    proof (induction xs arbitrary: c)
      case (Cons x xs)
      from Cons[of "max c (unat x)"] show ?case by (simp add: total_of_def max_def split: if_splits)
    qed (simp add: total_of_def)
    from this[of 0] show ?thesis by (simp add: greatest_of_def)
  qed
  then have "b \<le> 22 * total_of (sq_deficits q)" using a by simp
  with a assms(2) have "a < 2 ^ 128 \<and> b < 2 ^ 128 \<and> min a b < 998244353 * 1004535809" by (auto simp: min_def)
  moreover have "length (sq_deficits q) = 64" "sq_kernel q = spectral_kernel" using assms(1) by (auto simp: spectral_wf_def)
  ultimately show ?thesis using convolution_exact[OF _ k(1) ab] by (auto simp: smoothed_def)
qed

definition smoothed_at :: "(nat \<Rightarrow> nat) \<Rightarrow> nat \<Rightarrow> nat" where
  "smoothed_at d k = 8 * d k + 4 * (d ((k + 63) mod 64) + d ((k + 1) mod 64))
     + 2 * (d ((k + 62) mod 64) + d ((k + 2) mod 64)) + (d ((k + 61) mod 64) + d ((k + 3) mod 64))"

lemma kernel_convolution:
  assumes "k < 64"
  shows "cyclic 64 d (\<lambda>i. unat (spectral_kernel ! i)) k = smoothed_at d k"
proof -
  let ?K = "{0, 1, 2, 3, 61, 62, 63 :: nat}"
  have zero: "spectral_kernel ! i = 0" if "i < 64" "i \<notin> ?K" for i
    using that by (auto simp: spectral_kernel_def nth_append nth_Cons' nth_replicate)
  have "map ((!) spectral_kernel) [0, 1, 2, 3, 61, 62, 63] = [8, 4, 2, 1, 1, 2, 4]" by code_simp
  then have vals: "spectral_kernel ! 0 = 8" "spectral_kernel ! 1 = 4" "spectral_kernel ! 2 = 2" "spectral_kernel ! 3 = 1"
    "spectral_kernel ! 61 = 1" "spectral_kernel ! 62 = 2" "spectral_kernel ! 63 = 4" by simp_all
  have "cyclic 64 d (\<lambda>i. unat (spectral_kernel ! i)) k = (\<Sum>i < 64. unat (spectral_kernel ! i) * d ((k + 64 - i) mod 64))"
    unfolding cyclic_commute[of 64 d] by (rule cyclic_eq[OF assms])
  also have "\<dots> = (\<Sum>i \<in> ?K. unat (spectral_kernel ! i) * d ((k + 64 - i) mod 64))"
    using zero by (intro sum.mono_neutral_right) auto
  also have "\<dots> = smoothed_at d k" using assms vals by (simp add: smoothed_at_def add.commute[of k])
  finally show ?thesis .
qed

section \<open>Theorems\<close>

text \<open>
  C3 (equivalence). The fast convolution is the integer convolution. On two arrays of 64 words, the
  routine that transforms over two prime fields, multiplies pointwise, transforms back and combines the
  residues returns exactly the cyclic convolution over the natural numbers, whenever the coefficient bound
  is below the product of the moduli; otherwise it returns the error that says which check
  failed.\<close>

theorem fast_convolution_exact:
  assumes "length left = 64" and "length right = 64" and "exact_bounds left right = (a, b)"
  shows "if a < 2 ^ 128 \<and> b < 2 ^ 128 \<and> min a b < 998244353 * 1004535809
    then \<exists>out. circular_convolution_exact left right = Ok out \<and> map unat out = convolution left right
    else circular_convolution_exact left right = Err (if a < 2 ^ 128 \<and> b < 2 ^ 128 then CoefficientBound else Arithmetic)"
  by (rule convolution_exact[OF assms])

text \<open>
  C27 (functional). The queue selects the class most in need. In every state reachable by charging,
  crediting, selecting and serving, as long as eight times the deficits sum below the product of
  the moduli, a selection succeeds; it returns a class whose smoothed deficit, the weighted sum of the deficits
  around it, is the largest of all classes, the first such class from the cursor on, moves the cursor past
  it, and seals the decision with a root that verifies.\<close>

theorem select_serves_neediest:
  assumes "spectral_queue_new classes secret = Ok q\<^sub>0" and "spectral_step\<^sup>*\<^sup>* q\<^sub>0 q"
    and "total_of (sq_deficits q) * 8 < 998244353 * 1004535809"
  shows "\<exists>decision q' d. select q = (Ok decision, q') \<and> d < unat (sq_classes q)
    \<and> unat (sd_class decision) = (unat (sq_cursor q) + d) mod unat (sq_classes q)
    \<and> unat (sd_smoothed_deficit decision) = smoothed_at (\<lambda>i. unat (sq_deficits q ! i)) (unat (sd_class decision))
    \<and> (\<forall>c < unat (sq_classes q). smoothed_at (\<lambda>i. unat (sq_deficits q ! i)) c \<le> unat (sd_smoothed_deficit decision))
    \<and> (\<forall>e < d. smoothed_at (\<lambda>i. unat (sq_deficits q ! i)) ((unat (sq_cursor q) + e) mod unat (sq_classes q)) < unat (sd_smoothed_deficit decision))
    \<and> unat (sq_cursor q') = (unat (sd_class decision) + 1) mod unat (sq_classes q) \<and> decision_verify decision (sq_secret q)"
proof -
  let ?n = "unat (sq_classes q)" and ?s = "\<lambda>k. smoothed_at (\<lambda>i. unat (sq_deficits q ! i)) k"
  have wf: "spectral_wf q" using spectral.inv_reachable[OF _ assms(2)] assms(1) by auto
  then have n: "0 < ?n" "?n \<le> 64" by (auto simp: spectral_wf_def)
  obtain vs where vs: "smoothed q = Ok vs" "map unat vs = convolution (sq_deficits q) spectral_kernel"
    using smoothed_eq[OF wf assms(3)] by blast
  have "length vs = 64" using arg_cong[OF vs(2), of length] by (simp add: convolution_def)
  have val: "unat (vs ! k) = ?s k" if "k < 64" for k
  proof -
    have "unat (vs ! k) = map unat vs ! k" using that \<open>length vs = 64\<close> by simp
    with that show ?thesis unfolding vs(2) by (simp add: convolution_def kernel_convolution)
  qed
  let ?start = "unat (sq_cursor q) mod ?n"
  obtain c v where cv: "select_class vs ?n ?start = (c, v)" by fastforce
  obtain d where d: "d < ?n" "c = (?start + d) mod ?n" "v = vs ! c" "\<forall>e < ?n. vs ! ((?start + e) mod ?n) \<le> v" "\<forall>e < d. vs ! ((?start + e) mod ?n) < v"
    using select_class_first[OF n(1) _ cv] n(1) by auto
  have c: "c < ?n" using d(2) n(1) by simp
  then have "c < 64" using n(2) by simp
  have small: "unat (of_nat x :: u8) = x" if "x < ?n" for x using that n(2) by (simp add: unat_of_nat)
  have ix: "(?start + e) mod ?n = (unat (sq_cursor q) + e) mod ?n" for e by (simp add: mod_add_left_eq)
  have below: "x mod ?n < 64" for x using n by (simp add: less_le_trans[OF mod_less_divisor])
  have max_v: "?s k \<le> unat v" if k: "k < ?n" for k
  proof -
    have "(?start + (k + ?n - ?start) mod ?n) mod ?n = k" using k n(1) by (simp add: mod_add_right_eq less_imp_le_nat trans_le_add2)
    moreover have "(k + ?n - ?start) mod ?n < ?n" using n(1) by simp
    ultimately have "vs ! k \<le> v" using d(4) by metis
    with val[of k] k n(2) show ?thesis by (simp add: word_le_nat_alt)
  qed
  have first_v: "?s ((unat (sq_cursor q) + e) mod ?n) < unat v" if "e < d" for e
    using d(5) that val[OF below[of "unat (sq_cursor q) + e"]] by (auto simp: ix word_less_nat_alt)
  define q' where "q' = q\<lparr>sq_cursor := of_nat ((c + 1) mod ?n), sq_epoch := next_epoch (sq_epoch q)\<rparr>"
  define dec where "dec = \<lparr>sd_class = of_nat c, sd_raw_deficit = sq_deficits q ! c, sd_smoothed_deficit = v, sd_epoch = sq_epoch q', sd_root = 0\<rparr>"
  have "select q = (Ok (dec\<lparr>sd_root := decision_root (sq_secret q) dec\<rparr>), q')"
    by (simp add: select_def vs(1) cv Let_def dec_def q'_def)
  moreover have "decision_verify (dec\<lparr>sd_root := decision_root (sq_secret q) dec\<rparr>) (sq_secret q)"
    by (simp add: decision_verify_def decision_root_def)
  moreover have "unat (sq_cursor q') = (c + 1) mod ?n" using small n(1) by (simp add: q'_def)
  ultimately show ?thesis
    using d(1) c small[OF c] val[OF \<open>c < 64\<close>] d(2,3) max_v first_v ix[of d] by (intro exI conjI) (auto simp: dec_def)
qed

section \<open>Instances\<close>

lemma greatest_replicate: "greatest_of (x # replicate (Suc n) y) = max (unat x) (unat y)"
proof -
  have "fold (\<lambda>x a. max a (unat x)) (replicate n y) (max a (unat y)) = max a (unat y)" for a
    by (induction n arbitrary: a) (simp_all add: max.assoc)
  then show ?thesis by (simp add: greatest_of_def)
qed

theorem fast_convolution_exact_witness:
  "\<exists>out. circular_convolution_exact (1000000 # replicate 63 19) (11 # replicate 63 3) = Ok out
     \<and> map unat out = convolution (1000000 # replicate 63 19) (11 # replicate 63 3)"
proof -
  let ?l = "1000000 # replicate 63 19 :: u64 list" and ?r = "11 # replicate 63 3 :: u64 list"
  have "exact_bounds ?l ?r = (11013167, 200000000)"
    by (simp add: exact_bounds_def total_of_def sum_list_replicate greatest_replicate[of _ 62, simplified])
  from fast_convolution_exact[OF _ _ this] show ?thesis by simp
qed

definition sample_spectral :: spectral_queue where
  "sample_spectral = \<lparr>sq_deficits = replicate 64 0, sq_kernel = spectral_kernel, sq_classes = 8, sq_cursor = 0, sq_epoch = 1, sq_secret = 7\<rparr>"

lemma sample_spectral_new: "spectral_queue_new 8 7 = Ok sample_spectral"
  by (simp add: spectral_queue_new_def sample_spectral_def kernel_new[simplified])

theorem select_serves_neediest_witness:
  "\<exists>decision q'. select (snd (charge 5 1000000 sample_spectral)) = (Ok decision, q') \<and> unat (sd_class decision) = 5"
proof -
  let ?q = "snd (charge 5 1000000 sample_spectral)"
  let ?d = "\<lambda>i. unat (sq_deficits ?q ! i)"
  have q: "sq_deficits ?q = (replicate 64 0)[5 := 1000000]" "sq_classes ?q = 8"
    by (simp_all add: charge_def sample_spectral_def checked_add_def)
  have "spectral_step\<^sup>*\<^sup>* sample_spectral ?q" by (intro r_into_rtranclp spectral_step.charges[of 5 1000000 _ "fst (charge 5 1000000 sample_spectral)"]) simp
  moreover have "total_of (sq_deficits ?q) * 8 < 998244353 * 1004535809"
    unfolding q(1) by (simp add: total_of_def map_update sum_list_update sum_list_replicate)
  ultimately obtain dec q' d where dec: "select ?q = (Ok dec, q')" "unat (sd_class dec) = (unat (sq_cursor ?q) + d) mod unat (sq_classes ?q)"
      "unat (sd_smoothed_deficit dec) = smoothed_at ?d (unat (sd_class dec))" "\<forall>c < unat (sq_classes ?q). smoothed_at ?d c \<le> unat (sd_smoothed_deficit dec)"
    using select_serves_neediest[OF sample_spectral_new] by blast
  have c: "unat (sd_class dec) < 8" using dec(2) by (simp add: q(2))
  have d: "?d i = (if i = 5 then 1000000 else 0)" if "i < 64" for i using that by (simp add: q(1) nth_list_update)
  let ?e = "\<lambda>i :: nat. if i = 5 then 1000000 else 0 :: nat"
  have e: "smoothed_at ?d k = smoothed_at ?e k" if "k < 64" for k
    using that by (simp only: smoothed_at_def d mod_less_divisor zero_less_numeral)
  have "smoothed_at ?d 5 = 8000000" using e[of 5] by (simp add: smoothed_at_def)
  then have "8000000 \<le> smoothed_at ?d (unat (sd_class dec))" using dec(3) dec(4)[rule_format, of 5] by (simp add: q(2))
  moreover have "\<forall>k \<in> {0, 1, 2, 3, 4, 6, 7}. smoothed_at ?e k < 8000000" by (simp add: smoothed_at_def)
  then have "smoothed_at ?d k < 8000000" if "k < 8" "k \<noteq> 5" for k
  proof -
    have "k \<in> {0, 1, 2, 3, 4, 6, 7}" using that(1,2) by auto
    with \<open>\<forall>k \<in> {0, 1, 2, 3, 4, 6, 7}. smoothed_at ?e k < 8000000\<close> have "smoothed_at ?e k < 8000000" by (rule bspec)
    with that(1) show ?thesis by (simp add: e)
  qed
  ultimately have "unat (sd_class dec) = 5" using c by (meson not_le)
  with dec(1) show ?thesis by blast
qed

end
