(* ===== verification/Mpmc.thy ===== *)
theory Mpmc
  imports Prelude
begin

text \<open>
  The bounded queue that cores share without locks (\<open>src/core/aether/src/lockfree.rs\<close>). Every
  operation is a machine whose program counter stops before each access to shared memory: one step does one atomic
  access, or one access to a slot's value, and the branch that follows it. The threads interleave
  arbitrarily, and a weak compare-exchange may fail without cause. Memory is sequentially
  consistent: the orderings in the source (a release store of the slot's sequence after the
  value, an acquire load of it before) are what makes this view sound for the slot values.

  The theorems show that no two threads are ever inside the same slot, that the queue
  implements an atomic first-in first-out queue, and that an operation that runs alone on an undisturbed
  queue completes with the sequential result; they also show what a capacity of one does.
  Positions are 64-bit counters; the theorems assume that fewer than \<open>2 ^ 63\<close>
  values have been enqueued, capacity included.
\<close>

section \<open>State\<close>

abbreviation (input) STATE_UNINITIALIZED :: u8 where "STATE_UNINITIALIZED \<equiv> 0"
abbreviation (input) STATE_INITIALIZING :: u8 where "STATE_INITIALIZING \<equiv> 1"
abbreviation (input) STATE_READY :: u8 where "STATE_READY \<equiv> 2"

datatype queue_init_error = ZeroCapacity | Initializing | AlreadyInitialized

datatype queue_error = Uninitialized | Full | Empty

record 'a queue_slot =
  qs_sequence :: u64
  qs_value :: "'a option"

definition queue_slot_empty :: "'a queue_slot" where
  "queue_slot_empty = \<lparr>qs_sequence = 0, qs_value = None\<rparr>"

record 'a mpmc =
  mq_state :: u8
  mq_enqueue_position :: u64
  mq_dequeue_position :: u64
  mq_slots :: "'a queue_slot list"

definition mpmc_new :: "nat \<Rightarrow> 'a mpmc" where
  "mpmc_new n = \<lparr>mq_state = STATE_UNINITIALIZED, mq_enqueue_position = 0, mq_dequeue_position = 0,
     mq_slots = replicate n queue_slot_empty\<rparr>"

text \<open>The capacity is the length of the slot array.\<close>

abbreviation capacity :: "'a mpmc \<Rightarrow> nat" where
  "capacity m \<equiv> length (mq_slots m)"

definition slot_index :: "'a mpmc \<Rightarrow> u64 \<Rightarrow> nat" where
  "slot_index m p = unat p mod capacity m"

definition load_sequence :: "'a mpmc \<Rightarrow> u64 \<Rightarrow> u64" where
  "load_sequence m p = qs_sequence (mq_slots m ! slot_index m p)"

definition update_slot :: "'a mpmc \<Rightarrow> nat \<Rightarrow> ('a queue_slot \<Rightarrow> 'a queue_slot) \<Rightarrow> 'a mpmc" where
  "update_slot m i f = m\<lparr>mq_slots := (mq_slots m)[i := f (mq_slots m ! i)]\<rparr>"

section \<open>Operations\<close>

text \<open>
  Where a thread stands: before the access its name says, or returned. A push carries its
  value and the position it last read; \<open>Undefined\<close> is the read of an uninitialized value.
\<close>

datatype 'a mpmc_pc =
    Resting
  | InitCas | InitEnqueue | InitDequeue | InitSlot nat | InitReady
  | PushReady 'a | PushLoad 'a | PushCheck 'a u64 | PushClaim 'a u64 | PushWrite 'a u64 | PushPublish u64
  | PopReady | PopLoad | PopCheck u64 | PopClaim u64 | PopRead u64 | PopRelease u64 'a
  | LengthEnqueue | LengthDequeue u64
  | Initialized "queue_init_error + unit" | Pushed "queue_error + unit" | Popped "queue_error + 'a" | Measured nat
  | Undefined

fun initialize_step :: "'a mpmc \<Rightarrow> 'a mpmc_pc \<Rightarrow> 'a mpmc \<times> 'a mpmc_pc" where
  "initialize_step m InitCas =
     (if capacity m = 0 then (m, Initialized (Err ZeroCapacity))
      else if mq_state m = STATE_UNINITIALIZED then (m\<lparr>mq_state := STATE_INITIALIZING\<rparr>, InitEnqueue)
      else if mq_state m = STATE_INITIALIZING then (m, Initialized (Err Initializing))
      else (m, Initialized (Err AlreadyInitialized)))"
| "initialize_step m InitEnqueue = (m\<lparr>mq_enqueue_position := 0\<rparr>, InitDequeue)"
| "initialize_step m InitDequeue = (m\<lparr>mq_dequeue_position := 0\<rparr>, InitSlot 0)"
| "initialize_step m (InitSlot index) =
     (if index < capacity m
      then (update_slot m index (\<lambda>slot. slot\<lparr>qs_sequence := of_nat index\<rparr>), InitSlot (index + 1))
      else (m, InitReady))"
| "initialize_step m InitReady = (m\<lparr>mq_state := STATE_READY\<rparr>, Initialized (Ok ()))"
| "initialize_step m pc = (m, pc)"

definition is_ready :: "'a mpmc \<Rightarrow> bool" where
  "is_ready m \<longleftrightarrow> mq_state m = STATE_READY"

fun push_step :: "bool \<Rightarrow> 'a mpmc \<Rightarrow> 'a mpmc_pc \<Rightarrow> 'a mpmc \<times> 'a mpmc_pc" where
  "push_step spurious m (PushReady v) = (m, if \<not> is_ready m then Pushed (Err Uninitialized) else PushLoad v)"
| "push_step spurious m (PushLoad v) = (m, PushCheck v (mq_enqueue_position m))"
| "push_step spurious m (PushCheck v place) =
     (let difference = sint (load_sequence m place - place) in
      if difference = 0 then (m, PushClaim v place)
      else if difference < 0 then (m, Pushed (Err Full))
      else (m, PushLoad v))"
| "push_step spurious m (PushClaim v place) =
     (if mq_enqueue_position m = place \<and> \<not> spurious
      then (m\<lparr>mq_enqueue_position := place + 1\<rparr>, PushWrite v place)
      else (m, PushCheck v (mq_enqueue_position m)))"
| "push_step spurious m (PushWrite v place) =
     (update_slot m (slot_index m place) (\<lambda>slot. slot\<lparr>qs_value := Some v\<rparr>), PushPublish place)"
| "push_step spurious m (PushPublish place) =
     (update_slot m (slot_index m place) (\<lambda>slot. slot\<lparr>qs_sequence := place + 1\<rparr>), Pushed (Ok ()))"
| "push_step spurious m pc = (m, pc)"

fun pop_step :: "bool \<Rightarrow> 'a mpmc \<Rightarrow> 'a mpmc_pc \<Rightarrow> 'a mpmc \<times> 'a mpmc_pc" where
  "pop_step spurious m PopReady = (m, if \<not> is_ready m then Popped (Err Uninitialized) else PopLoad)"
| "pop_step spurious m PopLoad = (m, PopCheck (mq_dequeue_position m))"
| "pop_step spurious m (PopCheck place) =
     (let expected = place + 1;
          difference = sint (load_sequence m place - expected) in
      if difference = 0 then (m, PopClaim place)
      else if difference < 0 then (m, Popped (Err Empty))
      else (m, PopLoad))"
| "pop_step spurious m (PopClaim place) =
     (if mq_dequeue_position m = place \<and> \<not> spurious
      then (m\<lparr>mq_dequeue_position := place + 1\<rparr>, PopRead place)
      else (m, PopCheck (mq_dequeue_position m)))"
| "pop_step spurious m (PopRead place) =
     (m, case qs_value (mq_slots m ! slot_index m place) of None \<Rightarrow> Undefined | Some v \<Rightarrow> PopRelease place v)"
| "pop_step spurious m (PopRelease place v) =
     (update_slot m (slot_index m place) (\<lambda>slot. slot\<lparr>qs_sequence := place + of_nat (capacity m)\<rparr>), Popped (Ok v))"
| "pop_step spurious m pc = (m, pc)"

fun length_approximate_step :: "'a mpmc \<Rightarrow> 'a mpmc_pc \<Rightarrow> 'a mpmc \<times> 'a mpmc_pc" where
  "length_approximate_step m LengthEnqueue = (m, LengthDequeue (mq_enqueue_position m))"
| "length_approximate_step m (LengthDequeue enqueue) =
     (m, Measured (unat (min (enqueue - mq_dequeue_position m) (of_nat (capacity m)))))"
| "length_approximate_step m pc = (m, pc)"

section \<open>Threads\<close>

record 'a mpmc_system =
  ms_memory :: "'a mpmc"
  ms_threads :: "nat \<Rightarrow> 'a mpmc_pc"

definition mpmc_start :: "nat \<Rightarrow> 'a mpmc_system" where
  "mpmc_start n = \<lparr>ms_memory = mpmc_new n, ms_threads = (\<lambda>_. Resting)\<rparr>"

text \<open>What a step shows to the outside: the claims and the delivery of a popped value.\<close>

datatype 'a mpmc_event = Enqueue nat 'a | Dequeue nat | Deliver nat 'a | Silent

definition step_event :: "nat \<Rightarrow> 'a mpmc_pc \<Rightarrow> 'a mpmc_pc \<Rightarrow> 'a mpmc_event" where
  "step_event t pc pc' =
     (case pc of
        PushClaim v p \<Rightarrow> (case pc' of PushWrite w q \<Rightarrow> Enqueue t v | _ \<Rightarrow> Silent)
      | PopClaim p \<Rightarrow> (case pc' of PopRead q \<Rightarrow> Dequeue t | _ \<Rightarrow> Silent)
      | PopRelease p v \<Rightarrow> (case pc' of Popped (Ok w) \<Rightarrow> Deliver t w | _ \<Rightarrow> Silent)
      | _ \<Rightarrow> Silent)"

fun enqueued :: "'a mpmc_event list \<Rightarrow> 'a list" where
  "enqueued [] = []"
| "enqueued (Enqueue t v # es) = v # enqueued es"
| "enqueued (_ # es) = enqueued es"

lemma enqueued_append [simp]: "enqueued (es @ fs) = enqueued es @ enqueued fs"
  by (induction es rule: enqueued.induct) simp_all

text \<open>A thread that has returned may call again.\<close>

fun may_call :: "'a mpmc_pc \<Rightarrow> bool" where
  "may_call Resting = True"
| "may_call (Initialized r) = True"
| "may_call (Pushed r) = True"
| "may_call (Popped r) = True"
| "may_call (Measured n) = True"
| "may_call _ = False"

fun call_entry :: "'a mpmc_pc \<Rightarrow> bool" where
  "call_entry InitCas = True"
| "call_entry (PushReady v) = True"
| "call_entry PopReady = True"
| "call_entry LengthEnqueue = True"
| "call_entry _ = False"

definition thread_steps :: "'a mpmc \<Rightarrow> 'a mpmc_pc \<Rightarrow> ('a mpmc \<times> 'a mpmc_pc) list" where
  "thread_steps m pc =
     [initialize_step m pc, push_step False m pc, push_step True m pc, pop_step False m pc, pop_step True m pc, length_approximate_step m pc]"

inductive mpmc_step :: "'a mpmc_event list \<times> 'a mpmc_system \<Rightarrow> 'a mpmc_event list \<times> 'a mpmc_system \<Rightarrow> bool" where
  calls: "may_call (ms_threads s t) \<Longrightarrow> call_entry pc \<Longrightarrow> mpmc_step (es, s) (es, s\<lparr>ms_threads := (ms_threads s)(t := pc)\<rparr>)"
| moves: "(m', pc') \<in> set (thread_steps (ms_memory s) (ms_threads s t))
    \<Longrightarrow> mpmc_step (es, s) (es @ [step_event t (ms_threads s t) pc'], \<lparr>ms_memory = m', ms_threads = (ms_threads s)(t := pc')\<rparr>)"

section \<open>The invariant\<close>

abbreviation "enq m \<equiv> unat (mq_enqueue_position m)"
abbreviation "deq m \<equiv> unat (mq_dequeue_position m)"

definition seq_at :: "'a mpmc \<Rightarrow> nat \<Rightarrow> nat" where
  "seq_at m p = unat (qs_sequence (mq_slots m ! (p mod capacity m)))"

definition val_at :: "'a mpmc \<Rightarrow> nat \<Rightarrow> 'a option" where
  "val_at m p = qs_value (mq_slots m ! (p mod capacity m))"

text \<open>The role that gives a thread a slot, or the whole queue, for itself.\<close>

datatype slot_role = Initializes | Fills nat | Drains nat

fun role :: "'a mpmc_pc \<Rightarrow> slot_role option" where
  "role InitEnqueue = Some Initializes"
| "role InitDequeue = Some Initializes"
| "role (InitSlot k) = Some Initializes"
| "role InitReady = Some Initializes"
| "role (PushWrite v p) = Some (Fills (unat p))"
| "role (PushPublish p) = Some (Fills (unat p))"
| "role (PopRead p) = Some (Drains (unat p))"
| "role (PopRelease p v) = Some (Drains (unat p))"
| "role _ = None"

fun pc_ok :: "'a list \<Rightarrow> 'a mpmc \<Rightarrow> 'a mpmc_pc \<Rightarrow> bool" where
  "pc_ok log m InitEnqueue \<longleftrightarrow> mq_state m = 1"
| "pc_ok log m InitDequeue \<longleftrightarrow> mq_state m = 1"
| "pc_ok log m (InitSlot k) \<longleftrightarrow> mq_state m = 1 \<and> k \<le> capacity m \<and> (\<forall>i < k. seq_at m i = i)"
| "pc_ok log m InitReady \<longleftrightarrow> mq_state m = 1 \<and> (\<forall>i < capacity m. seq_at m i = i)"
| "pc_ok log m (PushLoad v) \<longleftrightarrow> mq_state m = 2"
| "pc_ok log m (PushCheck v p) \<longleftrightarrow> mq_state m = 2 \<and> unat p \<le> enq m"
| "pc_ok log m (PushClaim v p) \<longleftrightarrow> mq_state m = 2 \<and> unat p \<le> enq m \<and> (unat p = enq m \<longrightarrow> seq_at m (unat p) = unat p)"
| "pc_ok log m (PushWrite v p) \<longleftrightarrow> mq_state m = 2 \<and> unat p < enq m \<and> seq_at m (unat p) = unat p \<and> v = log ! unat p"
| "pc_ok log m (PushPublish p) \<longleftrightarrow> mq_state m = 2 \<and> unat p < enq m \<and> seq_at m (unat p) = unat p \<and> val_at m (unat p) = Some (log ! unat p)"
| "pc_ok log m PopLoad \<longleftrightarrow> mq_state m = 2"
| "pc_ok log m (PopCheck p) \<longleftrightarrow> mq_state m = 2 \<and> unat p \<le> deq m"
| "pc_ok log m (PopClaim p) \<longleftrightarrow> mq_state m = 2 \<and> unat p \<le> deq m \<and> (unat p = deq m \<longrightarrow> seq_at m (unat p) = unat p + 1)"
| "pc_ok log m (PopRead p) \<longleftrightarrow> mq_state m = 2 \<and> unat p < deq m \<and> seq_at m (unat p) = unat p + 1"
| "pc_ok log m (PopRelease p v) \<longleftrightarrow> mq_state m = 2 \<and> unat p < deq m \<and> seq_at m (unat p) = unat p + 1 \<and> v = log ! unat p"
| "pc_ok log m Undefined \<longleftrightarrow> False"
| "pc_ok log m _ \<longleftrightarrow> True"

text \<open>A slot waits for the position its sequence names, or holds the value of the position before it.\<close>

definition slot_free :: "'a mpmc \<Rightarrow> nat \<Rightarrow> bool" where
  "slot_free m p \<longleftrightarrow> seq_at m p = p \<and> deq m \<le> p \<and> p < deq m + capacity m"

definition slot_full :: "'a list \<Rightarrow> 'a mpmc \<Rightarrow> nat \<Rightarrow> bool" where
  "slot_full log m p \<longleftrightarrow> seq_at m p = p + 1 \<and> p < enq m \<and> enq m \<le> p + capacity m \<and> val_at m p = Some (log ! p)"

definition slots_ok :: "'a list \<Rightarrow> 'a mpmc \<Rightarrow> bool" where
  "slots_ok log m \<longleftrightarrow> (\<forall>i < capacity m. \<exists>p. p mod capacity m = i \<and> (slot_free m p \<or> slot_full log m p))"

definition memory_ok :: "nat \<Rightarrow> 'a list \<Rightarrow> 'a mpmc \<Rightarrow> bool" where
  "memory_ok n log m \<longleftrightarrow> capacity m = n \<and> mq_state m \<in> {0, 1, 2} \<and> enq m = length log \<and> deq m \<le> enq m \<and> enq m \<le> deq m + n
     \<and> (mq_state m \<noteq> 2 \<longrightarrow> log = []) \<and> (mq_state m = 2 \<longrightarrow> slots_ok log m)"

text \<open>Every claimed position is still in the hands of the thread that claimed it, or done.\<close>

definition claims_held :: "'a mpmc_system \<Rightarrow> bool" where
  "claims_held s \<longleftrightarrow> (\<forall>p. (slot_free (ms_memory s) p \<longrightarrow> p < enq (ms_memory s) \<longrightarrow> (\<exists>t. role (ms_threads s t) = Some (Fills p)))
     \<and> (seq_at (ms_memory s) p = p + 1 \<longrightarrow> p < deq (ms_memory s) \<longrightarrow> (\<exists>t. role (ms_threads s t) = Some (Drains p))))"

definition mpmc_inv :: "nat \<Rightarrow> 'a list \<Rightarrow> 'a mpmc_system \<Rightarrow> bool" where
  "mpmc_inv n log s \<longleftrightarrow> memory_ok n log (ms_memory s) \<and> (\<forall>t. pc_ok log (ms_memory s) (ms_threads s t))
     \<and> (\<forall>t t'. role (ms_threads s t) \<noteq> None \<longrightarrow> role (ms_threads s t) = role (ms_threads s t') \<longrightarrow> t = t')
     \<and> (mq_state (ms_memory s) = 2 \<longrightarrow> claims_held s)"

section \<open>Slots\<close>

lemma next_position_elsewhere:
  fixes n :: nat
  assumes "2 \<le> n"
  shows "(p + 1) mod n \<noteq> p mod n"
  using assms by (simp add: mod_Suc)

lemma capacity_update [simp]: "capacity (update_slot m i f) = capacity m"
  by (simp add: update_slot_def)

lemma memory_update [simp]:
  "mq_state (update_slot m i f) = mq_state m"
  "mq_enqueue_position (update_slot m i f) = mq_enqueue_position m"
  "mq_dequeue_position (update_slot m i f) = mq_dequeue_position m"
  by (simp_all add: update_slot_def)

lemma seq_at_update:
  assumes "i < capacity m"
  shows "seq_at (update_slot m i f) p = (if p mod capacity m = i then unat (qs_sequence (f (mq_slots m ! i))) else seq_at m p)"
    and "val_at (update_slot m i f) p = (if p mod capacity m = i then qs_value (f (mq_slots m ! i)) else val_at m p)"
  using assms by (auto simp: seq_at_def val_at_def update_slot_def)

lemma seq_at_counters [simp]:
  "seq_at (m\<lparr>mq_enqueue_position := a\<rparr>) p = seq_at m p" "val_at (m\<lparr>mq_enqueue_position := a\<rparr>) p = val_at m p"
  "seq_at (m\<lparr>mq_dequeue_position := a\<rparr>) p = seq_at m p" "val_at (m\<lparr>mq_dequeue_position := a\<rparr>) p = val_at m p"
  "seq_at (m\<lparr>mq_state := b\<rparr>) p = seq_at m p" "val_at (m\<lparr>mq_state := b\<rparr>) p = val_at m p"
  by (simp_all add: seq_at_def val_at_def)

lemma seq_at_cong: "p mod capacity m = q mod capacity m \<Longrightarrow> seq_at m p = seq_at m q \<and> val_at m p = val_at m q"
  by (simp add: seq_at_def val_at_def)

lemma memory_slot:
  assumes "memory_ok n log m" and "mq_state m = 2" and "0 < n"
  obtains q where "q mod n = p mod n" and "seq_at m p = seq_at m q" and "slot_free m q \<or> slot_full log m q"
proof -
  have "capacity m = n" "slots_ok log m" using assms by (simp_all add: memory_ok_def)
  then obtain q where "q mod n = p mod n" "slot_free m q \<or> slot_full log m q"
    using assms(3) mod_less_divisor[OF assms(3), of p] unfolding slots_ok_def by metis
  with that seq_at_cong[of p m q] \<open>capacity m = n\<close> show thesis by simp
qed

lemma free_of_seq:
  assumes "memory_ok n log m" and "mq_state m = 2" and "2 \<le> n" and "seq_at m p = p"
  shows "slot_free m p"
proof -
  obtain q where q: "q mod n = p mod n" "seq_at m p = seq_at m q" "slot_free m q \<or> slot_full log m q"
    using memory_slot[OF assms(1,2), of p] assms(3) by auto
  show ?thesis
  proof (cases "slot_free m q")
    case True
    with q(2) assms(4) show ?thesis by (simp add: slot_free_def)
  next
    case False
    with q assms(4) have "p = q + 1" by (simp add: slot_full_def)
    with q(1) next_position_elsewhere[OF assms(3), of q] show ?thesis by simp
  qed
qed

lemma full_of_seq:
  assumes "memory_ok n log m" and "mq_state m = 2" and "2 \<le> n" and "seq_at m p = p + 1"
  shows "slot_full log m p"
proof -
  obtain q where q: "q mod n = p mod n" "seq_at m p = seq_at m q" "slot_free m q \<or> slot_full log m q"
    using memory_slot[OF assms(1,2), of p] assms(3) by auto
  show ?thesis
  proof (cases "slot_full log m q")
    case True
    with q(2) assms(4) show ?thesis by (simp add: slot_full_def)
  next
    case False
    with q assms(4) have "q = p + 1" by (simp add: slot_free_def)
    with q(1) next_position_elsewhere[OF assms(3), of p] show ?thesis by simp
  qed
qed

section \<open>Preservation\<close>

definition moved :: "'a mpmc_system \<Rightarrow> nat \<Rightarrow> 'a mpmc \<Rightarrow> 'a mpmc_pc \<Rightarrow> 'a mpmc_system" where
  "moved s t m pc = \<lparr>ms_memory = m, ms_threads = (ms_threads s)(t := pc)\<rparr>"

lemma moved_simps [simp]:
  "ms_memory (moved s t m pc) = m" "ms_threads (moved s t m pc) t' = (if t' = t then pc else ms_threads s t')"
  by (simp_all add: moved_def)

lemma inv_move:
  assumes "mpmc_inv n log s" and "memory_ok n log' m'" and "pc_ok log' m' pc'"
    and others: "\<And>t'. t' \<noteq> t \<Longrightarrow> pc_ok log' m' (ms_threads s t')"
    and fresh: "\<And>t'. t' \<noteq> t \<Longrightarrow> role pc' \<noteq> None \<Longrightarrow> role (ms_threads s t') \<noteq> role pc'"
    and held: "mq_state m' = 2 \<Longrightarrow> claims_held (moved s t m' pc')"
  shows "mpmc_inv n log' (moved s t m' pc')"
  unfolding mpmc_inv_def
proof (intro conjI allI impI)
  show "pc_ok log' (ms_memory (moved s t m' pc')) (ms_threads (moved s t m' pc') t')" for t'
    using assms(3) others by simp
next
  fix t1 t2 assume "role (ms_threads (moved s t m' pc') t1) \<noteq> None" "role (ms_threads (moved s t m' pc') t1) = role (ms_threads (moved s t m' pc') t2)"
  then show "t1 = t2" using assms(1) fresh[of t1] fresh[of t2] unfolding mpmc_inv_def by (auto split: if_splits)
qed (use assms(2) held in simp_all)

lemma inv_role_unique: "mpmc_inv n log s \<Longrightarrow> role (ms_threads s t) \<noteq> None \<Longrightarrow> t' \<noteq> t \<Longrightarrow> role (ms_threads s t') \<noteq> role (ms_threads s t)"
  by (metis mpmc_inv_def)

lemma inv_local:
  assumes inv: "mpmc_inv n log s" and "pc_ok log (ms_memory s) pc'" and r: "role pc' = role (ms_threads s t)"
  shows "mpmc_inv n log (moved s t (ms_memory s) pc')"
proof (rule inv_move[OF inv])
  show "claims_held (moved s t (ms_memory s) pc')" if "mq_state (ms_memory s) = 2"
  proof -
    have "(\<exists>t'. role (ms_threads (moved s t (ms_memory s) pc') t') = x) = (\<exists>t'. role (ms_threads s t') = x)" for x
      using r by (metis moved_simps(2))
    with inv that show ?thesis by (simp add: mpmc_inv_def claims_held_def)
  qed
qed (use assms inv_role_unique[OF inv, of t] in \<open>auto simp: mpmc_inv_def\<close>)

lemma pc_ok_idle:
  assumes "pc_ok log m pc" and "mq_state m \<noteq> 2" and "mq_state m = 1 \<Longrightarrow> role pc \<noteq> Some Initializes"
  shows "pc_ok log' m' pc"
  using assms by (cases pc) auto

lemmas inv_parts = mpmc_inv_def memory_ok_def

lemma inv_memory: "mpmc_inv n log s \<Longrightarrow> memory_ok n log (ms_memory s)"
  by (simp add: mpmc_inv_def)

lemma inv_pc: "mpmc_inv n log s \<Longrightarrow> pc_ok log (ms_memory s) (ms_threads s t)"
  by (simp add: mpmc_inv_def)

lemma inv_held: "mpmc_inv n log s \<Longrightarrow> mq_state (ms_memory s) = 2 \<Longrightarrow> claims_held s"
  by (simp add: mpmc_inv_def)

lemma role_none_other:
  assumes "mpmc_inv n log s" and "ms_threads s t = pc" and "t' \<noteq> t" and "role pc \<noteq> None"
  shows "role (ms_threads s t') \<noteq> role pc"
  using inv_role_unique[OF assms(1), of t t'] assms by simp

lemma held_move:
  assumes "claims_held s"
    and fills: "\<And>q. slot_free m' q \<Longrightarrow> q < enq m' \<Longrightarrow>
      role pc' = Some (Fills q) \<or> slot_free (ms_memory s) q \<and> q < enq (ms_memory s) \<and> role (ms_threads s t) \<noteq> Some (Fills q)"
    and drains: "\<And>q. seq_at m' q = q + 1 \<Longrightarrow> q < deq m' \<Longrightarrow>
      role pc' = Some (Drains q) \<or> seq_at (ms_memory s) q = q + 1 \<and> q < deq (ms_memory s) \<and> role (ms_threads s t) \<noteq> Some (Drains q)"
  shows "claims_held (moved s t m' pc')"
proof -
  have kept: "\<exists>t'. role (ms_threads (moved s t m' pc') t') = x" if "role pc' = x \<or> role (ms_threads s t) \<noteq> x \<and> (\<exists>t'. role (ms_threads s t') = x)" for x
    using that by (metis moved_simps(2))
  show ?thesis unfolding claims_held_def moved_simps(1)
  proof (intro allI conjI impI)
    show "\<exists>t'. role (ms_threads (moved s t m' pc') t') = Some (Fills q)" if "slot_free m' q" "q < enq m'" for q
      using fills[OF that] assms(1) by (intro kept) (auto simp: claims_held_def)
    show "\<exists>t'. role (ms_threads (moved s t m' pc') t') = Some (Drains q)" if "seq_at m' q = q + 1" "q < deq m'" for q
      using drains[OF that] assms(1) by (intro kept) (auto simp: claims_held_def)
  qed
qed

lemma slots_move:
  assumes "memory_ok n log m" and "mq_state m = 2" and "capacity m' = n"
    and "\<And>q. slot_free m q \<Longrightarrow> \<exists>q'. q' mod n = q mod n \<and> (slot_free m' q' \<or> slot_full log' m' q')"
    and "\<And>q. slot_full log m q \<Longrightarrow> \<exists>q'. q' mod n = q mod n \<and> (slot_free m' q' \<or> slot_full log' m' q')"
  shows "slots_ok log' m'"
  unfolding slots_ok_def
proof (intro allI impI)
  fix i assume "i < capacity m'"
  then obtain q where "q mod n = i" "slot_free m q \<or> slot_full log m q"
    using assms(1,2,3) by (auto simp: memory_ok_def slots_ok_def)
  with assms(3,4,5) show "\<exists>q. q mod capacity m' = i \<and> (slot_free m' q \<or> slot_full log' m' q)" by metis
qed

subsection \<open>Initialization\<close>

lemma inv_init_cas:
  assumes inv: "mpmc_inv n log s" and "mq_state (ms_memory s) = 0"
  shows "mpmc_inv n log (moved s t ((ms_memory s)\<lparr>mq_state := 1\<rparr>) InitEnqueue)"
proof (rule inv_move[OF inv])
  show "role (ms_threads s t') \<noteq> role InitEnqueue" for t'
    using inv_pc[OF inv, of t'] assms(2) by (cases "ms_threads s t'") auto
qed (use inv assms(2) pc_ok_idle[OF inv_pc[OF inv]] in \<open>auto simp: inv_parts\<close>)

lemma inv_init_slot:
  assumes inv: "mpmc_inv n log s" and "n < 2 ^ 63" and pc: "ms_threads s t = InitSlot k" and "k < n"
  shows "mpmc_inv n log (moved s t (update_slot (ms_memory s) k (\<lambda>slot. slot\<lparr>qs_sequence := of_nat k\<rparr>)) (InitSlot (k + 1)))"
proof (rule inv_move[OF inv])
  let ?m = "ms_memory s" and ?m' = "update_slot (ms_memory s) k (\<lambda>slot. slot\<lparr>qs_sequence := of_nat k\<rparr>)"
  have ok: "mq_state ?m = 1" "capacity ?m = n" "\<forall>i < k. seq_at ?m i = i" using inv_pc[OF inv, of t] inv pc by (auto simp: inv_parts)
  have "unat (of_nat k :: u64) = k" using assms(2,4) by (simp add: unat_of_nat)
  with ok assms(4) show "pc_ok log ?m' (InitSlot (k + 1))" by (auto simp: seq_at_update less_Suc_eq)
  show "role (ms_threads s t') \<noteq> role (InitSlot (k + 1))" if "t' \<noteq> t" for t'
    using inv_role_unique[OF inv, of t t'] that pc by simp
  then show "pc_ok log ?m' (ms_threads s t')" if "t' \<noteq> t" for t'
    using that ok(1) by (intro pc_ok_idle[OF inv_pc[OF inv]]) auto
qed (use inv inv_pc[OF inv, of t] pc in \<open>auto simp: inv_parts\<close>)

lemma inv_init_ready:
  assumes inv: "mpmc_inv n log s" and pc: "ms_threads s t = InitReady"
  shows "mpmc_inv n log (moved s t ((ms_memory s)\<lparr>mq_state := 2\<rparr>) (Initialized (Ok ())))"
proof (rule inv_move[OF inv])
  let ?m = "ms_memory s" and ?m' = "(ms_memory s)\<lparr>mq_state := 2\<rparr>"
  have ok: "mq_state ?m = 1" "capacity ?m = n" "\<forall>i < n. seq_at ?m i = i" using inv_pc[OF inv, of t] inv pc by (auto simp: inv_parts)
  with inv have e: "enq ?m = 0" "deq ?m = 0" "log = []" by (auto simp: inv_parts)
  have "slots_ok log ?m'" unfolding slots_ok_def
  proof (intro allI impI exI conjI disjI1)
    fix i assume "i < capacity ?m'"
    with ok e show "i mod capacity ?m' = i" "slot_free ?m' i" by (simp_all add: slot_free_def)
  qed
  with inv e ok show "memory_ok n log ?m'" by (auto simp: inv_parts)
  show "pc_ok log ?m' (ms_threads s t')" if "t' \<noteq> t" for t'
    using that ok(1) inv_role_unique[OF inv, of t t'] pc by (intro pc_ok_idle[OF inv_pc[OF inv]]) auto
  show "claims_held (moved s t ?m' (Initialized (Ok ())))" by (simp add: claims_held_def e[simplified])
qed simp_all

subsection \<open>Push\<close>

lemma inv_push_claim:
  assumes inv: "mpmc_inv n log s" and n: "2 \<le> n" "length log + n < 2 ^ 63" and pc: "ms_threads s t = PushClaim v p"
    and at: "mq_enqueue_position (ms_memory s) = p"
  shows "mpmc_inv n (log @ [v]) (moved s t ((ms_memory s)\<lparr>mq_enqueue_position := p + 1\<rparr>) (PushWrite v p))"
proof (rule inv_move[OF inv])
  let ?m = "ms_memory s" and ?m' = "(ms_memory s)\<lparr>mq_enqueue_position := p + 1\<rparr>"
  have st: "mq_state ?m = 2" "seq_at ?m (unat p) = unat p" using inv_pc[OF inv, of t] pc at by auto
  have cap: "capacity ?m = n" "unat p = length log" using inv at by (simp_all add: inv_parts)
  have free: "slot_free ?m (unat p)" by (rule free_of_seq[OF inv_memory[OF inv] st(1) n(1) st(2)])
  have e': "enq ?m' = unat p + 1" using cap n(2) by (simp add: unat_word_ariths)
  have full: "slot_full (log @ [v]) ?m' q" if "slot_full log ?m q" for q
  proof -
    have "unat p \<noteq> q + n"
    proof
      assume "unat p = q + n"
      then have "seq_at ?m (unat p) = seq_at ?m q" using cap(1) seq_at_cong[of "unat p" ?m q] by simp
      with st(2) that \<open>unat p = q + n\<close> n(1) show False by (simp add: slot_full_def)
    qed
    with that cap e' at show ?thesis by (auto simp: slot_full_def nth_append)
  qed
  have "slot_free ?m' q" if "slot_free ?m q" for q using that by (simp add: slot_free_def)
  with full cap have "slots_ok (log @ [v]) ?m'" by (intro slots_move[OF inv_memory[OF inv] st(1)]) auto
  with inv e' free cap st(1) show "memory_ok n (log @ [v]) ?m'" by (auto simp: inv_parts slot_free_def)
  show "pc_ok (log @ [v]) ?m' (PushWrite v p)" using st cap e' by simp
  show "pc_ok (log @ [v]) ?m' (ms_threads s t')" for t'
    using inv_pc[OF inv, of t'] inv cap at e' by (cases "ms_threads s t'") (auto simp: nth_append inv_parts)
  show "role (ms_threads s t') \<noteq> role (PushWrite v p)" for t'
    using inv_pc[OF inv, of t'] at by (cases "ms_threads s t'") auto
  show "claims_held (moved s t ?m' (PushWrite v p))"
    using pc at e' by (intro held_move[OF inv_held[OF inv st(1)]]) (auto simp: slot_free_def)
qed

lemma inv_push_write:
  assumes inv: "mpmc_inv n log s" and n: "2 \<le> n" and pc: "ms_threads s t = PushWrite v p"
  shows "mpmc_inv n log (moved s t (update_slot (ms_memory s) (slot_index (ms_memory s) p) (\<lambda>slot. slot\<lparr>qs_value := Some v\<rparr>)) (PushPublish p))"
proof (rule inv_move[OF inv])
  let ?m = "ms_memory s" and ?m' = "update_slot (ms_memory s) (slot_index (ms_memory s) p) (\<lambda>slot. slot\<lparr>qs_value := Some v\<rparr>)"
  have st: "mq_state ?m = 2" "seq_at ?m (unat p) = unat p" "unat p < enq ?m" "v = log ! unat p" using inv_pc[OF inv, of t] pc by auto
  have cap: "capacity ?m = n" using inv by (simp add: inv_parts)
  have "slot_index ?m p < capacity ?m" using cap n by (simp add: slot_index_def)
  note upd = seq_at_update[OF this]
  have seq: "seq_at ?m' q = seq_at ?m q" for q by (simp add: upd(1)) (simp add: seq_at_def)
  have val: "val_at ?m' q = (if q mod n = unat p mod n then Some v else val_at ?m q)" for q by (simp only: upd(2)) (simp add: slot_index_def cap)
  have same: "seq_at ?m q = unat p" if "q mod n = unat p mod n" for q using seq_at_cong[of q ?m "unat p"] that cap st(2) by simp
  have full: "slot_full log ?m' q" if "slot_full log ?m q" for q
    using that same[of q] next_position_elsewhere[OF n, of q] cap by (auto simp: slot_full_def seq val)
  have "slot_free ?m' q" if "slot_free ?m q" for q using that by (simp add: slot_free_def seq)
  with full cap have "slots_ok log ?m'" by (intro slots_move[OF inv_memory[OF inv] st(1)]) auto
  with inv st(1) show "memory_ok n log ?m'" by (auto simp: inv_parts)
  show "pc_ok log ?m' (PushPublish p)" using st(1-3) by (simp add: seq val st(4)[symmetric])
  show other: "role (ms_threads s t') \<noteq> role (PushPublish p)" if "t' \<noteq> t" for t'
    using role_none_other[OF inv pc that] by simp
  show "pc_ok log ?m' (ms_threads s t')" if "t' \<noteq> t" for t'
    using inv_pc[OF inv, of t'] other[OF that] same by (cases "ms_threads s t'") (auto simp: seq val)
  show "claims_held (moved s t ?m' (PushPublish p))"
    using pc by (intro held_move[OF inv_held[OF inv st(1)]]) (auto simp: slot_free_def seq)
qed

lemma inv_push_publish:
  assumes inv: "mpmc_inv n log s" and n: "2 \<le> n" "length log + n < 2 ^ 63" and pc: "ms_threads s t = PushPublish p"
  shows "mpmc_inv n log (moved s t (update_slot (ms_memory s) (slot_index (ms_memory s) p) (\<lambda>slot. slot\<lparr>qs_sequence := p + 1\<rparr>)) (Pushed (Ok ())))"
proof (rule inv_move[OF inv])
  let ?m = "ms_memory s" and ?m' = "update_slot (ms_memory s) (slot_index (ms_memory s) p) (\<lambda>slot. slot\<lparr>qs_sequence := p + 1\<rparr>)"
  have st: "mq_state ?m = 2" "seq_at ?m (unat p) = unat p" "unat p < enq ?m" "val_at ?m (unat p) = Some (log ! unat p)"
    using inv_pc[OF inv, of t] pc by auto
  have cap: "capacity ?m = n" "enq ?m = length log" using inv by (simp_all add: inv_parts)
  have "slot_index ?m p < capacity ?m" using cap n by (simp add: slot_index_def)
  note upd = seq_at_update[OF this]
  have "unat (p + 1) = unat p + 1" using st(3) cap n(2) by (simp add: unat_word_ariths)
  then have seq: "seq_at ?m' q = (if q mod n = unat p mod n then unat p + 1 else seq_at ?m q)" for q by (simp only: upd(1)) (simp add: slot_index_def cap)
  have val: "val_at ?m' q = val_at ?m q" for q by (simp add: upd(2)) (simp add: val_at_def)
  have same: "seq_at ?m q = unat p" if "q mod n = unat p mod n" for q using seq_at_cong[of q ?m "unat p"] that cap st(2) by simp
  note apart = next_position_elsewhere[OF n(1)]
  have free: "slot_free ?m (unat p)" by (rule free_of_seq[OF inv_memory[OF inv] st(1) n(1) st(2)])
  have filled: "slot_full log ?m' (unat p)" using free st cap inv by (auto simp: slot_full_def slot_free_def seq val inv_parts)
  have kept_free: "seq_at ?m' q = q" if "seq_at ?m q = q" "q \<noteq> unat p" for q
    using that same[of q] by (auto simp: seq)
  have kept_full: "seq_at ?m' q = q + 1" if "seq_at ?m q = q + 1" for q
    using that same[of q] apart[of q] by (auto simp: seq)
  have kept: "slot_free ?m' q = slot_free ?m q" "slot_full log ?m' q = slot_full log ?m q" if "q mod n \<noteq> unat p mod n" for q
    using that by (simp_all add: slot_free_def slot_full_def seq val)
  have "slots_ok log ?m'"
    by (rule slots_move[OF inv_memory[OF inv] st(1)]) (use cap filled kept in \<open>metis capacity_update\<close>)+
  with inv st(1) show "memory_ok n log ?m'" by (auto simp: inv_parts)
  have other: "role (ms_threads s t') \<noteq> Some (Fills (unat p))" if "t' \<noteq> t" for t'
    using role_none_other[OF inv pc that] by simp
  show "pc_ok log ?m' (ms_threads s t')" if "t' \<noteq> t" for t'
    using inv_pc[OF inv, of t'] other[OF that] st(1,3) by (cases "ms_threads s t'") (auto simp: kept_free kept_full[simplified] val)
  show "claims_held (moved s t ?m' (Pushed (Ok ())))"
    using pc free apart by (intro held_move[OF inv_held[OF inv st(1)]]) (force simp: slot_free_def seq split: if_splits)+
qed simp_all

subsection \<open>Pop\<close>

lemma inv_pop_claim:
  assumes inv: "mpmc_inv n log s" and n: "2 \<le> n" "length log + n < 2 ^ 63" and pc: "ms_threads s t = PopClaim p"
    and at: "mq_dequeue_position (ms_memory s) = p"
  shows "mpmc_inv n log (moved s t ((ms_memory s)\<lparr>mq_dequeue_position := p + 1\<rparr>) (PopRead p))"
proof (rule inv_move[OF inv])
  let ?m = "ms_memory s" and ?m' = "(ms_memory s)\<lparr>mq_dequeue_position := p + 1\<rparr>"
  have st: "mq_state ?m = 2" "seq_at ?m (unat p) = unat p + 1" using inv_pc[OF inv, of t] pc at by auto
  have cap: "capacity ?m = n" "enq ?m = length log" "deq ?m = unat p" using inv at by (simp_all add: inv_parts)
  have full: "slot_full log ?m (unat p)" by (rule full_of_seq[OF inv_memory[OF inv] st(1) n(1) st(2)])
  then have e': "deq ?m' = unat p + 1" using cap n(2) by (simp add: unat_word_ariths slot_full_def)
  have free: "slot_free ?m' q" if "slot_free ?m q" for q
    using that st(2) cap e' by (cases "q = unat p") (auto simp: slot_free_def)
  have "slot_full log ?m' q" if "slot_full log ?m q" for q using that by (simp add: slot_full_def)
  with free cap have "slots_ok log ?m'" by (intro slots_move[OF inv_memory[OF inv] st(1)]) auto
  with inv e' full cap st(1) show "memory_ok n log ?m'" by (auto simp: inv_parts slot_full_def)
  show "pc_ok log ?m' (PopRead p)" using st e' by simp
  show "pc_ok log ?m' (ms_threads s t')" for t'
    using inv_pc[OF inv, of t'] cap e' by (cases "ms_threads s t'") auto
  show "role (ms_threads s t') \<noteq> role (PopRead p)" for t'
    using inv_pc[OF inv, of t'] at by (cases "ms_threads s t'") auto
  have older: "slot_free ?m q" if "slot_free ?m' q" for q
    using that free_of_seq[OF inv_memory[OF inv] st(1) n(1), of q] by (simp add: slot_free_def)
  show "claims_held (moved s t ?m' (PopRead p))"
  proof (rule held_move[OF inv_held[OF inv st(1)]])
    show "role (PopRead p) = Some (Drains q) \<or> seq_at ?m q = q + 1 \<and> q < deq ?m \<and> role (ms_threads s t) \<noteq> Some (Drains q)"
      if "seq_at ?m' q = q + 1" "q < deq ?m'" for q using that pc cap e' by auto
  qed (use older pc in auto)
qed

lemma inv_pop_release:
  assumes inv: "mpmc_inv n log s" and n: "2 \<le> n" "length log + n < 2 ^ 63" and pc: "ms_threads s t = PopRelease p v"
  shows "mpmc_inv n log (moved s t (update_slot (ms_memory s) (slot_index (ms_memory s) p)
    (\<lambda>slot. slot\<lparr>qs_sequence := p + of_nat (capacity (ms_memory s))\<rparr>)) (Popped (Ok v)))"
proof (rule inv_move[OF inv])
  let ?m = "ms_memory s"
  let ?m' = "update_slot ?m (slot_index ?m p) (\<lambda>slot. slot\<lparr>qs_sequence := p + of_nat (capacity ?m)\<rparr>)"
  have st: "mq_state ?m = 2" "seq_at ?m (unat p) = unat p + 1" "unat p < deq ?m" using inv_pc[OF inv, of t] pc by auto
  have cap: "capacity ?m = n" "enq ?m = length log" "deq ?m \<le> length log" using inv by (simp_all add: inv_parts)
  have "slot_index ?m p < capacity ?m" using cap n by (simp add: slot_index_def)
  note upd = seq_at_update[OF this]
  have "unat (p + of_nat n) = unat p + n" using st(3) cap n(2) by (simp add: unat_word_ariths unat_of_nat)
  then have seq: "seq_at ?m' q = (if q mod n = unat p mod n then unat p + n else seq_at ?m q)" for q by (simp only: upd(1)) (simp add: slot_index_def cap)
  have val: "val_at ?m' q = val_at ?m q" for q by (simp add: upd(2)) (simp add: val_at_def)
  have same: "seq_at ?m q = unat p + 1" if "q mod n = unat p mod n" for q using seq_at_cong[of q ?m "unat p"] that cap st(2) by simp
  note apart = next_position_elsewhere[OF n(1)]
  have full: "slot_full log ?m (unat p)" by (rule full_of_seq[OF inv_memory[OF inv] st(1) n(1) st(2)])
  have freed: "slot_free ?m' (unat p + n)" using full st cap by (auto simp: slot_full_def slot_free_def seq)
  have kept_full: "seq_at ?m' q = q + 1" if "seq_at ?m q = q + 1" "q \<noteq> unat p" for q
    using that same[of q] by (auto simp: seq)
  have kept_free: "seq_at ?m' q = q" if "seq_at ?m q = q" for q
    using that same[of q] apart[of "unat p"] by (auto simp: seq)
  have kept: "slot_free ?m' q = slot_free ?m q" "slot_full log ?m' q = slot_full log ?m q" if "q mod n \<noteq> unat p mod n" for q
    using that by (simp_all add: slot_free_def slot_full_def seq val)
  have "slots_ok log ?m'"
    by (rule slots_move[OF inv_memory[OF inv] st(1)]) (use cap freed kept in \<open>metis capacity_update mod_add_self2\<close>)+
  with inv st(1) show "memory_ok n log ?m'" by (auto simp: inv_parts)
  have other: "role (ms_threads s t') \<noteq> Some (Drains (unat p))" if "t' \<noteq> t" for t'
    using role_none_other[OF inv pc that] by simp
  show "pc_ok log ?m' (ms_threads s t')" if "t' \<noteq> t" for t'
    using inv_pc[OF inv, of t'] other[OF that] st(1,3) by (cases "ms_threads s t'") (auto simp: kept_free kept_full[simplified] val)
  show "claims_held (moved s t ?m' (Popped (Ok v)))"
  proof (rule held_move[OF inv_held[OF inv st(1)]])
    show "role (Popped (Ok v)) = Some (Fills q) \<or> slot_free ?m q \<and> q < enq ?m \<and> role (ms_threads s t) \<noteq> Some (Fills q)"
      if "slot_free ?m' q" "q < enq ?m'" for q
    proof -
      have "q mod n \<noteq> unat p mod n" using that full cap by (auto simp: slot_free_def slot_full_def seq)
      with kept that pc show ?thesis by simp
    qed
    show "role (Popped (Ok v)) = Some (Drains q) \<or> seq_at ?m q = q + 1 \<and> q < deq ?m \<and> role (ms_threads s t) \<noteq> Some (Drains q)"
      if "seq_at ?m' q = q + 1" "q < deq ?m'" for q
    proof -
      have "q mod n \<noteq> unat p mod n"
      proof
        assume "q mod n = unat p mod n"
        with that(1) have "q + 1 = unat p + n" by (simp add: seq)
        then have "(q + 1) mod n = unat p mod n" by simp
        with \<open>q mod n = unat p mod n\<close> apart[of q] show False by simp
      qed
      with that pc show ?thesis by (auto simp: seq)
    qed
  qed
qed simp_all

subsection \<open>Every step\<close>

lemma sint_difference:
  fixes a b :: u64
  assumes "unat a < 2 ^ 63" and "unat b < 2 ^ 63"
  shows "sint (a - b) = int (unat a) - int (unat b)"
proof -
  have k: "sint (word_of_int k :: u64) = signed_take_bit 63 k" for k by (simp add: signed_of_int)
  have "a - b = word_of_int (int (unat a) - int (unat b))" by (simp add: uint_nat[symmetric])
  then have "sint (a - b) = signed_take_bit 63 (int (unat a) - int (unat b))" by (simp only: k)
  also have "\<dots> = int (unat a) - int (unat b)"
  proof -
    have "int (unat a) < 2 ^ 63" "int (unat b) < 2 ^ 63" using assms by (simp_all only: of_nat_less_numeral_power_cancel_iff)
    then have "- (2 ^ 63) \<le> int (unat a) - int (unat b)" "int (unat a) - int (unat b) < 2 ^ 63" by linarith+
    then show ?thesis by (rule signed_take_bit_int_eq_self)
  qed
  finally show ?thesis .
qed

lemma load_sequence_eq: "unat (load_sequence m p) = seq_at m (unat p)"
  by (simp add: load_sequence_def slot_index_def seq_at_def)

lemma seq_bound:
  assumes "memory_ok n log m" and "mq_state m = 2" and "0 < n" and "length log + n < 2 ^ 63"
  shows "seq_at m p < 2 ^ 63"
proof -
  obtain q where q: "seq_at m p = seq_at m q" "slot_free m q \<or> slot_full log m q" using memory_slot[OF assms(1,2,3)] .
  from assms(1) have "deq m \<le> length log" "enq m = length log" "capacity m = n" by (simp_all add: memory_ok_def)
  with q assms(4) show ?thesis by (auto simp: slot_free_def slot_full_def)
qed

lemma check_difference:
  assumes ok: "memory_ok n log m" "mq_state m = 2" and n: "2 \<le> n" "length log + n < 2 ^ 63" and "unat p \<le> length log"
  shows "sint (load_sequence m p - p) = int (seq_at m (unat p)) - int (unat p)"
    and "sint (load_sequence m p - (p + 1)) = int (seq_at m (unat p)) - int (unat p + 1)"
proof -
  have "unat (p + 1) = unat p + 1" using assms(5) n by (simp add: unat_word_ariths)
  with assms(5) n seq_bound[OF ok _ n(2), of "unat p"]
  show "sint (load_sequence m p - p) = int (seq_at m (unat p)) - int (unat p)"
    "sint (load_sequence m p - (p + 1)) = int (seq_at m (unat p)) - int (unat p + 1)"
    by (subst sint_difference; auto simp: load_sequence_eq)+
qed

lemma push_check_difference:
  assumes inv: "mpmc_inv n log s" and n: "2 \<le> n" "length log + n < 2 ^ 63" and pc: "ms_threads s t = PushCheck v p"
  shows "sint (load_sequence (ms_memory s) p - p) = 0 \<longleftrightarrow> seq_at (ms_memory s) (unat p) = unat p"
    and "sint (load_sequence (ms_memory s) p - p) < 0 \<longleftrightarrow> seq_at (ms_memory s) (unat p) < unat p"
proof -
  have "mq_state (ms_memory s) = 2" "unat p \<le> length log" using inv_pc[OF inv, of t] pc inv by (auto simp: inv_parts)
  note check_difference(1)[OF inv_memory[OF inv] this(1) n this(2)]
  then show "sint (load_sequence (ms_memory s) p - p) = 0 \<longleftrightarrow> seq_at (ms_memory s) (unat p) = unat p"
    "sint (load_sequence (ms_memory s) p - p) < 0 \<longleftrightarrow> seq_at (ms_memory s) (unat p) < unat p" by linarith+
qed

lemma pop_check_difference:
  assumes inv: "mpmc_inv n log s" and n: "2 \<le> n" "length log + n < 2 ^ 63" and pc: "ms_threads s t = PopCheck p"
  shows "sint (load_sequence (ms_memory s) p - (p + 1)) = 0 \<longleftrightarrow> seq_at (ms_memory s) (unat p) = unat p + 1"
    and "sint (load_sequence (ms_memory s) p - (p + 1)) < 0 \<longleftrightarrow> seq_at (ms_memory s) (unat p) < unat p + 1"
proof -
  have "mq_state (ms_memory s) = 2" "unat p \<le> length log" using inv_pc[OF inv, of t] pc inv by (auto simp: inv_parts)
  note check_difference(2)[OF inv_memory[OF inv] this(1) n this(2)]
  then show "sint (load_sequence (ms_memory s) p - (p + 1)) = 0 \<longleftrightarrow> seq_at (ms_memory s) (unat p) = unat p + 1"
    "sint (load_sequence (ms_memory s) p - (p + 1)) < 0 \<longleftrightarrow> seq_at (ms_memory s) (unat p) < unat p + 1" by linarith+
qed

lemma enqueued_silent [simp]:
  "enqueued [Silent] = []" "enqueued [Dequeue t] = []" "enqueued [Deliver t v] = []" "enqueued [Enqueue t v] = [v]"
  by simp_all

lemma inv_stutter:
  assumes "mpmc_inv n log s"
  shows "mpmc_inv n (log @ enqueued [step_event t (ms_threads s t) (ms_threads s t)]) (moved s t (ms_memory s) (ms_threads s t))"
  using inv_local[OF assms inv_pc[OF assms] refl, of t] by (cases "ms_threads s t") (simp_all add: step_event_def)

lemma push_inv:
  assumes inv: "mpmc_inv n log s" and n: "2 \<le> n" "length log + n < 2 ^ 63"
    and st: "push_step spurious (ms_memory s) (ms_threads s t) = (m', pc')"
  shows "mpmc_inv n (log @ enqueued [step_event t (ms_threads s t) pc']) (moved s t m' pc')"
proof (cases "ms_threads s t")
  case (PushReady v)
  with st inv_local[OF inv, of pc' t] show ?thesis by (auto simp: step_event_def is_ready_def split: if_splits)
next
  case (PushLoad v)
  with st inv_local[OF inv, of pc' t] inv_pc[OF inv, of t] show ?thesis by (auto simp: step_event_def)
next
  case (PushCheck v p)
  with st inv_pc[OF inv, of t] push_check_difference[OF inv n PushCheck] have "pc_ok log (ms_memory s) pc'"
    by (auto simp: Let_def split: if_splits)
  with PushCheck st inv_local[OF inv, of pc' t] show ?thesis by (auto simp: step_event_def Let_def split: if_splits)
next
  case (PushClaim v p)
  show ?thesis
  proof (cases "mq_enqueue_position (ms_memory s) = p \<and> \<not> spurious")
    case True
    with st PushClaim inv_push_claim[OF inv n PushClaim] show ?thesis by (auto simp: step_event_def)
  next
    case False
    with st PushClaim inv_local[OF inv, of pc' t] inv_pc[OF inv, of t] show ?thesis by (auto simp: step_event_def)
  qed
next
  case (PushWrite v p)
  with st inv_push_write[OF inv n(1) PushWrite] show ?thesis by (auto simp: step_event_def)
next
  case (PushPublish p)
  with st inv_push_publish[OF inv n PushPublish] show ?thesis by (auto simp: step_event_def)
qed (use st inv_stutter[OF inv, of t] in auto)

lemma pop_inv:
  assumes inv: "mpmc_inv n log s" and n: "2 \<le> n" "length log + n < 2 ^ 63"
    and st: "pop_step spurious (ms_memory s) (ms_threads s t) = (m', pc')"
  shows "mpmc_inv n (log @ enqueued [step_event t (ms_threads s t) pc']) (moved s t m' pc')"
proof (cases "ms_threads s t")
  case PopReady
  with st inv_local[OF inv, of pc' t] show ?thesis by (auto simp: step_event_def is_ready_def split: if_splits)
next
  case PopLoad
  with st inv_local[OF inv, of pc' t] inv_pc[OF inv, of t] show ?thesis by (auto simp: step_event_def)
next
  case (PopCheck p)
  with st inv_pc[OF inv, of t] pop_check_difference[OF inv n PopCheck] have "pc_ok log (ms_memory s) pc'"
    by (auto simp: Let_def split: if_splits)
  with PopCheck st inv_local[OF inv, of pc' t] show ?thesis by (auto simp: step_event_def Let_def split: if_splits)
next
  case (PopClaim p)
  show ?thesis
  proof (cases "mq_dequeue_position (ms_memory s) = p \<and> \<not> spurious")
    case True
    with st PopClaim inv_pop_claim[OF inv n PopClaim] show ?thesis by (auto simp: step_event_def)
  next
    case False
    with st PopClaim inv_local[OF inv, of pc' t] inv_pc[OF inv, of t] show ?thesis by (auto simp: step_event_def)
  qed
next
  case (PopRead p)
  have ok: "mq_state (ms_memory s) = 2" "unat p < deq (ms_memory s)" "seq_at (ms_memory s) (unat p) = unat p + 1"
    using inv_pc[OF inv, of t] PopRead by auto
  with full_of_seq[OF inv_memory[OF inv] ok(1) n(1) ok(3)] have "val_at (ms_memory s) (unat p) = Some (log ! unat p)" by (simp add: slot_full_def)
  then have "qs_value (mq_slots (ms_memory s) ! slot_index (ms_memory s) p) = Some (log ! unat p)" by (simp add: val_at_def slot_index_def)
  with st PopRead ok inv_local[OF inv, of pc' t] show ?thesis by (auto simp: step_event_def)
next
  case (PopRelease p v)
  with st inv_pop_release[OF inv n PopRelease] show ?thesis by (auto simp: step_event_def)
qed (use st inv_stutter[OF inv, of t] in auto)

lemma initialize_inv:
  assumes inv: "mpmc_inv n log s" and n: "2 \<le> n" "length log + n < 2 ^ 63"
    and st: "initialize_step (ms_memory s) (ms_threads s t) = (m', pc')"
  shows "mpmc_inv n (log @ enqueued [step_event t (ms_threads s t) pc']) (moved s t m' pc')"
proof -
  have cap: "capacity (ms_memory s) = n" using inv by (simp add: inv_parts)
  have zero: "mq_enqueue_position (ms_memory s) = 0" "mq_dequeue_position (ms_memory s) = 0" if "mq_state (ms_memory s) = 1"
    using inv that by (auto simp: inv_parts unat_eq_0)
  note loc = inv_local[OF inv, of pc' t] and ok = inv_pc[OF inv, of t]
  show ?thesis
  proof (cases "ms_threads s t")
    case InitCas
    with st loc inv_init_cas[OF inv, of t] cap n show ?thesis by (auto simp: step_event_def split: if_splits)
  next
    case InitEnqueue
    with zero ok have "(ms_memory s)\<lparr>mq_enqueue_position := 0\<rparr> = ms_memory s" by (cases "ms_memory s") simp
    with InitEnqueue st loc ok show ?thesis by (auto simp: step_event_def)
  next
    case InitDequeue
    with zero ok have "(ms_memory s)\<lparr>mq_dequeue_position := 0\<rparr> = ms_memory s" by (cases "ms_memory s") simp
    with InitDequeue st loc ok show ?thesis by (auto simp: step_event_def)
  next
    case (InitSlot k)
    show ?thesis
    proof (cases "k < n")
      case True
      with InitSlot st inv_init_slot[OF inv _ InitSlot True] cap n show ?thesis by (auto simp: step_event_def)
    next
      case False
      with InitSlot st loc ok cap show ?thesis by (auto simp: step_event_def)
    qed
  next
    case InitReady
    with st inv_init_ready[OF inv InitReady] show ?thesis by (auto simp: step_event_def)
  qed (use st inv_stutter[OF inv, of t] in auto)
qed

lemma length_inv:
  assumes inv: "mpmc_inv n log s" and st: "length_approximate_step (ms_memory s) (ms_threads s t) = (m', pc')"
  shows "mpmc_inv n (log @ enqueued [step_event t (ms_threads s t) pc']) (moved s t m' pc')"
proof (cases "ms_threads s t")
  case LengthEnqueue
  with st inv_local[OF inv, of pc' t] show ?thesis by (auto simp: step_event_def)
next
  case (LengthDequeue e)
  with st inv_local[OF inv, of pc' t] show ?thesis by (auto simp: step_event_def)
qed (use st inv_stutter[OF inv, of t] in auto)

lemma thread_inv:
  assumes inv: "mpmc_inv n log s" and n: "2 \<le> n" "length log + n < 2 ^ 63"
    and st: "(m', pc') \<in> set (thread_steps (ms_memory s) (ms_threads s t))"
  shows "mpmc_inv n (log @ enqueued [step_event t (ms_threads s t) pc']) (moved s t m' pc')"
  using st[symmetric, unfolded thread_steps_def] initialize_inv[OF inv n] push_inv[OF inv n] pop_inv[OF inv n] length_inv[OF inv]
  by (auto simp: thread_steps_def eq_commute[of "(m', pc')"] simp del: enqueued_silent)

lemma call_inv:
  assumes inv: "mpmc_inv n log s" and "may_call (ms_threads s t)" and "call_entry pc"
  shows "mpmc_inv n log (s\<lparr>ms_threads := (ms_threads s)(t := pc)\<rparr>)"
proof -
  have "pc_ok log (ms_memory s) pc" "role pc = None" using assms(3) by (cases pc; simp)+
  moreover have "role (ms_threads s t) = None" using assms(2) by (cases "ms_threads s t") auto
  moreover have "moved s t (ms_memory s) pc = s\<lparr>ms_threads := (ms_threads s)(t := pc)\<rparr>" by (simp add: moved_def)
  ultimately show ?thesis using inv_local[OF inv, of pc t] by simp
qed

definition mpmc_wf :: "nat \<Rightarrow> 'a mpmc_event list \<times> 'a mpmc_system \<Rightarrow> bool" where
  "mpmc_wf n x \<longleftrightarrow> 2 \<le> n \<and> (length (enqueued (fst x)) + n < 2 ^ 63 \<longrightarrow> mpmc_inv n (enqueued (fst x)) (snd x))"

lemma start_inv: "mpmc_inv n [] (mpmc_start n)"
  by (simp add: inv_parts mpmc_start_def mpmc_new_def)

interpretation queue: invariant_system "\<lambda>x. 2 \<le> n \<and> x = ([], mpmc_start n)" mpmc_step "mpmc_wf n" for n
proof
  fix x y :: "'a mpmc_event list \<times> 'a mpmc_system"
  assume wf: "mpmc_wf n x" and "mpmc_step x y"
  from this(2) show "mpmc_wf n y"
  proof cases
    case (calls s t pc es)
    with wf call_inv[of n "enqueued es" s t pc] show ?thesis by (auto simp: mpmc_wf_def)
  next
    case (moves m' pc' s t es)
    with wf thread_inv[of n "enqueued es" s m' pc' t] show ?thesis by (auto simp: mpmc_wf_def moved_def simp del: enqueued_silent)
  qed
qed (auto simp: mpmc_wf_def start_inv)

section \<open>The specification\<close>

text \<open>
  An atomic bounded first-in first-out queue. A dequeue takes the oldest item for the thread that
  asks, and the thread delivers exactly that item later.
\<close>

record 'a fifo =
  ff_items :: "'a list"
  ff_held :: "nat \<Rightarrow> 'a option"

definition fifo_empty :: "'a fifo" where
  "fifo_empty = \<lparr>ff_items = [], ff_held = (\<lambda>_. None)\<rparr>"

fun fifo_apply :: "nat \<Rightarrow> 'a mpmc_event \<Rightarrow> 'a fifo \<Rightarrow> 'a fifo option" where
  "fifo_apply n (Enqueue t v) f = (if length (ff_items f) < n then Some (f\<lparr>ff_items := ff_items f @ [v]\<rparr>) else None)"
| "fifo_apply n (Dequeue t) f =
     (case ff_items f of
        [] \<Rightarrow> None
      | v # rest \<Rightarrow> if ff_held f t = None then Some \<lparr>ff_items = rest, ff_held = (ff_held f)(t \<mapsto> v)\<rparr> else None)"
| "fifo_apply n (Deliver t v) f = (if ff_held f t = Some v then Some (f\<lparr>ff_held := (ff_held f)(t := None)\<rparr>) else None)"
| "fifo_apply n Silent f = Some f"

fun fifo_run :: "nat \<Rightarrow> 'a mpmc_event list \<Rightarrow> 'a fifo \<Rightarrow> 'a fifo option" where
  "fifo_run n [] f = Some f"
| "fifo_run n (e # es) f = (case fifo_apply n e f of None \<Rightarrow> None | Some g \<Rightarrow> fifo_run n es g)"

lemma fifo_run_append: "fifo_run n (es @ [e]) f = (case fifo_run n es f of None \<Rightarrow> None | Some g \<Rightarrow> fifo_apply n e g)"
  by (induction es arbitrary: f) (simp_all split: option.splits)

fun held_value :: "'a list \<Rightarrow> 'a mpmc_pc \<Rightarrow> 'a option" where
  "held_value log (PopRead p) = Some (log ! unat p)"
| "held_value log (PopRelease p v) = Some v"
| "held_value log _ = None"

definition fifo_of :: "'a list \<Rightarrow> 'a mpmc_system \<Rightarrow> 'a fifo" where
  "fifo_of log s = \<lparr>ff_items = drop (deq (ms_memory s)) log, ff_held = (\<lambda>t. held_value log (ms_threads s t))\<rparr>"

lemma fifo_of_moved:
  assumes "deq m' = deq (ms_memory s)" and "held_value log pc' = held_value log (ms_threads s t)"
  shows "fifo_of log (moved s t m' pc') = fifo_of log s"
  using assms by (auto simp: fifo_of_def)

lemma fifo_of_update:
  "fifo_of log (moved s t m' pc') = \<lparr>ff_items = drop (deq m') log, ff_held = (\<lambda>t. held_value log (ms_threads s t))(t := held_value log pc')\<rparr>"
  by (auto simp: fifo_of_def)

lemma step_event_same [simp]: "step_event t pc pc = Silent"
  by (cases pc) (simp_all add: step_event_def)

lemma held_value_append:
  assumes "mpmc_inv n log s"
  shows "held_value (log @ vs) (ms_threads s t) = held_value log (ms_threads s t)"
  using inv_pc[OF assms, of t] assms by (cases "ms_threads s t") (auto simp: inv_parts nth_append)

lemma push_refines:
  assumes inv: "mpmc_inv n log s" and n: "2 \<le> n" and st: "push_step spurious (ms_memory s) (ms_threads s t) = (m', pc')"
  shows "fifo_apply n (step_event t (ms_threads s t) pc') (fifo_of log s) = Some (fifo_of (log @ enqueued [step_event t (ms_threads s t) pc']) (moved s t m' pc'))"
proof (cases "ms_threads s t")
  case (PushClaim v p)
  show ?thesis
  proof (cases "mq_enqueue_position (ms_memory s) = p \<and> \<not> spurious")
    case True
    have ok: "mq_state (ms_memory s) = 2" "seq_at (ms_memory s) (unat p) = unat p" using inv_pc[OF inv, of t] PushClaim True by auto
    from free_of_seq[OF inv_memory[OF inv] ok(1) n ok(2)] have "length log - deq (ms_memory s) < n" "deq (ms_memory s) \<le> length log"
      using True inv n by (auto simp: slot_free_def inv_parts)
    moreover have "(\<lambda>t'. held_value (log @ [v]) (if t' = t then PushWrite v p else ms_threads s t')) = (\<lambda>t'. held_value log (ms_threads s t'))"
      using held_value_append[OF inv] PushClaim by auto
    ultimately show ?thesis using st PushClaim True by (auto simp: step_event_def fifo_of_def)
  next
    case False
    with st PushClaim show ?thesis by (auto simp: step_event_def fifo_of_moved)
  qed
qed (use st in \<open>auto simp: step_event_def fifo_of_moved Let_def split: if_splits\<close>)

lemma pop_refines:
  assumes inv: "mpmc_inv n log s" and n: "2 \<le> n" "length log + n < 2 ^ 63" and st: "pop_step spurious (ms_memory s) (ms_threads s t) = (m', pc')"
  shows "fifo_apply n (step_event t (ms_threads s t) pc') (fifo_of log s) = Some (fifo_of (log @ enqueued [step_event t (ms_threads s t) pc']) (moved s t m' pc'))"
proof (cases "ms_threads s t")
  case (PopClaim p)
  show ?thesis
  proof (cases "mq_dequeue_position (ms_memory s) = p \<and> \<not> spurious")
    case True
    have ok: "mq_state (ms_memory s) = 2" "seq_at (ms_memory s) (unat p) = unat p + 1" using inv_pc[OF inv, of t] PopClaim True by auto
    from full_of_seq[OF inv_memory[OF inv] ok(1) n(1) ok(2)] have p: "unat p < length log" using inv by (simp add: slot_full_def inv_parts)
    then have "unat (p + 1) = unat p + 1" "drop (unat p) log = log ! unat p # drop (unat p + 1) log"
      using n by (simp_all add: unat_word_ariths Cons_nth_drop_Suc)
    with True PopClaim st show ?thesis by (auto simp: step_event_def fifo_of_update) (auto simp: fifo_of_def)
  next
    case False
    with st PopClaim show ?thesis by (auto simp: step_event_def fifo_of_moved)
  qed
next
  case (PopRead p)
  have ok: "mq_state (ms_memory s) = 2" "seq_at (ms_memory s) (unat p) = unat p + 1" using inv_pc[OF inv, of t] PopRead by auto
  from full_of_seq[OF inv_memory[OF inv] ok(1) n(1) ok(2)]
  have "qs_value (mq_slots (ms_memory s) ! slot_index (ms_memory s) p) = Some (log ! unat p)" by (simp add: slot_full_def val_at_def slot_index_def)
  with st PopRead show ?thesis by (auto simp: step_event_def fifo_of_moved)
next
  case (PopRelease p v)
  with st show ?thesis by (auto simp: step_event_def fifo_of_update) (auto simp: fifo_of_def)
qed (use st in \<open>auto simp: step_event_def fifo_of_moved Let_def split: if_splits\<close>)

lemma initialize_refines:
  assumes inv: "mpmc_inv n log s" and st: "initialize_step (ms_memory s) (ms_threads s t) = (m', pc')"
  shows "fifo_apply n (step_event t (ms_threads s t) pc') (fifo_of log s) = Some (fifo_of (log @ enqueued [step_event t (ms_threads s t) pc']) (moved s t m' pc'))"
proof (cases "ms_threads s t")
  case InitDequeue
  then have "deq (ms_memory s) = 0" using inv_pc[OF inv, of t] inv by (auto simp: inv_parts)
  with st InitDequeue show ?thesis by (auto simp: step_event_def fifo_of_moved)
qed (use st in \<open>auto simp: step_event_def fifo_of_moved Let_def split: if_splits\<close>)

lemma length_refines:
  assumes "length_approximate_step (ms_memory s) (ms_threads s t) = (m', pc')"
  shows "fifo_apply n (step_event t (ms_threads s t) pc') (fifo_of log s) = Some (fifo_of (log @ enqueued [step_event t (ms_threads s t) pc']) (moved s t m' pc'))"
proof (cases "ms_threads s t")
  case LengthEnqueue
  with assms show ?thesis by (auto simp: step_event_def fifo_of_moved)
next
  case (LengthDequeue e)
  with assms show ?thesis by (auto simp: step_event_def fifo_of_moved)
qed (use assms in \<open>auto simp: fifo_of_moved\<close>)

lemma thread_refines:
  assumes inv: "mpmc_inv n log s" and n: "2 \<le> n" "length log + n < 2 ^ 63"
    and st: "(m', pc') \<in> set (thread_steps (ms_memory s) (ms_threads s t))"
  shows "fifo_apply n (step_event t (ms_threads s t) pc') (fifo_of log s) = Some (fifo_of (log @ enqueued [step_event t (ms_threads s t) pc']) (moved s t m' pc'))"
  using st initialize_refines[OF inv] push_refines[OF inv n(1)] pop_refines[OF inv n] length_refines[of s t _ _ n log]
  by (auto simp: thread_steps_def eq_commute[of "(m', pc')"] simp del: enqueued_silent)

lemma call_refines:
  assumes "may_call (ms_threads s t)" and "call_entry pc"
  shows "fifo_of log (s\<lparr>ms_threads := (ms_threads s)(t := pc)\<rparr>) = fifo_of log s"
proof -
  have "held_value log pc = None" using assms(2) by (cases pc) auto
  moreover have "held_value log (ms_threads s t) = None" using assms(1) by (cases "ms_threads s t") auto
  ultimately show ?thesis by (auto simp: fifo_of_def)
qed

lemma reachable_refines:
  assumes "mpmc_step\<^sup>*\<^sup>* ([], mpmc_start n) (es, s)" and n: "2 \<le> n" and "length (enqueued es) + n < 2 ^ 63"
  shows "mpmc_inv n (enqueued es) s \<and> fifo_run n es fifo_empty = Some (fifo_of (enqueued es) s)"
  using assms(1,3)
proof (induction x \<equiv> "(es, s)" arbitrary: es s rule: rtranclp_induct)
  case base
  then show ?case using start_inv[of n] by (simp add: fifo_of_def fifo_empty_def mpmc_start_def)
next
  case (step y)
  have "mpmc_wf n (es, s)" using queue.inv_reachable[of n _ "(es, s)"] rtranclp.rtrancl_into_rtrancl[OF step.hyps(1,2)] n step.hyps by auto
  then have "mpmc_inv n (enqueued es) s" using step.prems by (simp add: mpmc_wf_def)
  moreover from step.hyps(2) have "fifo_run n es fifo_empty = Some (fifo_of (enqueued es) s)"
  proof cases
    case (calls s0 t pc)
    then show ?thesis using step.hyps(3)[of es s0] step.prems call_refines[of s0 t pc] by simp
  next
    case (moves m' pc' s0 t es0)
    then have *: "mpmc_inv n (enqueued es0) s0" "length (enqueued es0) + n < 2 ^ 63" "fifo_run n es0 fifo_empty = Some (fifo_of (enqueued es0) s0)"
      using step.hyps(3)[of es0 s0] step.prems by auto
    from thread_refines[OF *(1) n *(2), of m' pc' t] moves *(3) show ?thesis by (simp add: fifo_run_append moved_def)
  qed
  ultimately show ?case ..
qed

section \<open>Running alone\<close>

lemma slot_window:
  fixes p q n :: nat
  assumes "q mod n = p mod n" and "p \<le> q" and "q < p + n"
  shows "q = p"
proof -
  have "n dvd q - p" using assms(1,2) by (simp add: mod_eq_dvd_iff_nat)
  with assms(2,3) show ?thesis by (cases "q = p") (auto dest!: dvd_imp_le)
qed

fun slot_access :: "nat \<Rightarrow> 'a mpmc_pc \<Rightarrow> nat option" where
  "slot_access n (PushWrite v p) = Some (unat p mod n)"
| "slot_access n (PushPublish p) = Some (unat p mod n)"
| "slot_access n (PopRead p) = Some (unat p mod n)"
| "slot_access n (PopRelease p v) = Some (unat p mod n)"
| "slot_access n _ = None"

lemma slot_access_role:
  "slot_access n pc = Some i \<longleftrightarrow> (\<exists>p. (role pc = Some (Fills p) \<or> role pc = Some (Drains p)) \<and> i = p mod n)"
  by (cases pc) auto

definition undisturbed :: "'a mpmc \<Rightarrow> bool" where
  "undisturbed m \<longleftrightarrow> (\<forall>p. (slot_free m p \<longrightarrow> enq m \<le> p) \<and> (seq_at m p = p + 1 \<longrightarrow> deq m \<le> p))"

lemma undisturbed_memory:
  assumes "mpmc_inv n log s" and "mq_state (ms_memory s) = 2" and "\<And>t. slot_access n (ms_threads s t) = None"
  shows "undisturbed (ms_memory s)"
proof -
  have "role (ms_threads s t) \<noteq> Some (Fills p)" "role (ms_threads s t) \<noteq> Some (Drains p)" for t p
    using assms(3)[of t] slot_access_role[of n "ms_threads s t"] by auto
  with inv_held[OF assms(1,2)] show ?thesis unfolding undisturbed_def claims_held_def by (meson not_le)
qed

lemma next_to_fill:
  assumes ok: "memory_ok n log m" "mq_state m = 2" and n: "2 \<le> n" and "undisturbed m"
  shows "if enq m < deq m + n then seq_at m (enq m) = enq m else seq_at m (enq m) < enq m"
proof -
  have cap: "capacity m = n" "deq m \<le> enq m" "enq m \<le> deq m + n" using ok by (simp_all add: memory_ok_def)
  obtain q where q: "q mod n = enq m mod n" "seq_at m (enq m) = seq_at m q" "slot_free m q \<or> slot_full log m q"
    by (rule memory_slot[OF ok]) (use n in auto)
  show ?thesis
  proof (cases "slot_free m q")
    case True
    then have "q = enq m" using assms(4) cap slot_window[OF q(1)] by (auto simp: undisturbed_def slot_free_def)
    with True cap show ?thesis by (simp add: slot_free_def)
  next
    case False
    with q have full: "seq_at m q = q + 1" "q < enq m" "enq m \<le> q + n" using cap by (simp_all add: slot_full_def)
    have "enq m = q + n"
    proof (rule ccontr)
      assume "enq m \<noteq> q + n"
      with full slot_window[OF q(1)[symmetric]] show False by simp
    qed
    with full assms(4) cap n q(2) show ?thesis by (auto simp: undisturbed_def)
  qed
qed

lemma next_to_drain:
  assumes ok: "memory_ok n log m" "mq_state m = 2" and n: "2 \<le> n" and "undisturbed m"
  shows "if deq m < enq m then slot_full log m (deq m) else seq_at m (deq m) = deq m"
proof -
  have cap: "capacity m = n" "deq m \<le> enq m" "enq m \<le> deq m + n" using ok by (simp_all add: memory_ok_def)
  obtain q where q: "q mod n = deq m mod n" "seq_at m (deq m) = seq_at m q" "slot_free m q \<or> slot_full log m q"
    by (rule memory_slot[OF ok]) (use n in auto)
  show ?thesis
  proof (cases "slot_free m q")
    case True
    then have "q = deq m" "enq m \<le> q" using assms(4) cap slot_window[OF q(1)] by (auto simp: undisturbed_def slot_free_def)
    with True show ?thesis by (simp add: slot_free_def)
  next
    case False
    with q have full: "slot_full log m q" by simp
    then have "deq m \<le> q" "q < deq m + n" using assms(4) cap by (auto simp: undisturbed_def slot_full_def)
    with slot_window[OF q(1)] full show ?thesis by (auto simp: slot_full_def)
  qed
qed

lemma push_alone:
  assumes ok: "memory_ok n log m" "mq_state m = 2" and n: "2 \<le> n" "length log + n < 2 ^ 63" and "undisturbed m"
  shows "snd (((\<lambda>(m, pc). push_step False m pc) ^^ 6) (m, PushReady v)) = Pushed (if enq m < deq m + n then Ok () else Err Full)"
proof -
  let ?p = "mq_enqueue_position m"
  have "enq m = length log" using ok by (simp add: memory_ok_def)
  with check_difference(1)[OF ok n, of ?p] next_to_fill[OF ok n(1) assms(5)]
  have "if enq m < deq m + n then sint (load_sequence m ?p - ?p) = 0 else sint (load_sequence m ?p - ?p) < 0" by (auto split: if_splits)
  then show ?thesis using ok(2) by (auto simp: numeral_eq_Suc is_ready_def Let_def split: if_splits)
qed

lemma pop_alone:
  assumes ok: "memory_ok n log m" "mq_state m = 2" and n: "2 \<le> n" "length log + n < 2 ^ 63" and "undisturbed m"
  shows "snd (((\<lambda>(m, pc). pop_step False m pc) ^^ 6) (m, PopReady)) = Popped (if deq m < enq m then Ok (log ! deq m) else Err Empty)"
proof -
  let ?p = "mq_dequeue_position m"
  have "deq m \<le> length log" using ok by (simp add: memory_ok_def)
  with check_difference(2)[OF ok n, of ?p] next_to_drain[OF ok n(1) assms(5)]
  have "if deq m < enq m then sint (load_sequence m ?p - (?p + 1)) = 0 else sint (load_sequence m ?p - (?p + 1)) < 0"
    by (simp add: slot_full_def split: if_splits)
  moreover have "deq m < enq m \<Longrightarrow> qs_value (mq_slots m ! slot_index m ?p) = Some (log ! deq m)"
    using next_to_drain[OF ok n(1) assms(5)] by (simp add: slot_full_def val_at_def slot_index_def)
  ultimately show ?thesis using ok(2) by (auto simp: numeral_eq_Suc is_ready_def Let_def slot_index_def split: if_splits)
qed

section \<open>Giving up\<close>

lemma earlier_lap:
  fixes p q n :: nat
  assumes "q mod n = p mod n" and "q < p"
  shows "q + n \<le> p"
  using slot_window[OF assms(1)[symmetric]] assms(2) by (cases "p < q + n") auto

lemma full_reason:
  assumes inv: "mpmc_inv n log s" and n: "2 \<le> n" and pc: "ms_threads s t = PushCheck v p" and "seq_at (ms_memory s) (unat p) < unat p"
  shows "enq (ms_memory s) = deq (ms_memory s) + n \<or> (\<exists>t' q. role (ms_threads s t') = Some (Drains q) \<and> q mod n = unat p mod n)"
proof -
  let ?m = "ms_memory s"
  have st: "mq_state ?m = 2" "unat p \<le> enq ?m" using inv_pc[OF inv, of t] pc by auto
  have cap: "capacity ?m = n" "enq ?m \<le> deq ?m + n" using inv by (simp_all add: inv_parts)
  obtain q where q: "q mod n = unat p mod n" "seq_at ?m (unat p) = seq_at ?m q" "slot_free ?m q \<or> slot_full log ?m q"
    by (rule memory_slot[OF inv_memory[OF inv] st(1)]) (use n in auto)
  then have "q < unat p" using assms(4) by (auto simp: slot_free_def slot_full_def)
  then have lap: "q + n \<le> enq ?m" using earlier_lap[OF q(1)] st(2) by simp
  show ?thesis
  proof (cases "deq ?m \<le> q")
    case True
    with lap cap show ?thesis by simp
  next
    case False
    with q(3) have "seq_at ?m q = q + 1" "q < deq ?m" by (auto simp: slot_free_def slot_full_def)
    then show ?thesis using inv_held[OF inv st(1)] q(1) by (auto simp: claims_held_def)
  qed
qed

lemma empty_reason:
  assumes inv: "mpmc_inv n log s" and n: "2 \<le> n" and pc: "ms_threads s t = PopCheck p" and "seq_at (ms_memory s) (unat p) < unat p + 1"
  shows "enq (ms_memory s) = deq (ms_memory s) \<or> (\<exists>t'. role (ms_threads s t') = Some (Fills (unat p)))"
proof -
  let ?m = "ms_memory s"
  have st: "mq_state ?m = 2" "unat p \<le> deq ?m" using inv_pc[OF inv, of t] pc by auto
  have cap: "capacity ?m = n" "deq ?m \<le> enq ?m" using inv by (simp_all add: inv_parts)
  obtain q where q: "q mod n = unat p mod n" "seq_at ?m (unat p) = seq_at ?m q" "slot_free ?m q \<or> slot_full log ?m q"
    by (rule memory_slot[OF inv_memory[OF inv] st(1)]) (use n in auto)
  show ?thesis
  proof (cases "slot_free ?m q")
    case True
    then have "q = unat p" "q = deq ?m" using q assms(4) st(2) by (auto simp: slot_free_def)
    then show ?thesis using inv_held[OF inv st(1)] True cap(2) by (cases "q < enq ?m") (auto simp: claims_held_def)
  next
    case False
    with q assms(4) have "q < unat p" "enq ?m \<le> q + n" using cap by (auto simp: slot_full_def)
    with earlier_lap[OF q(1)] st(2) cap(2) show ?thesis by simp
  qed
qed

section \<open>Theorems\<close>

text \<open>
  C4 (refinement). The queue is a first-in first-out queue. However the threads interleave and
  whichever weak compare-exchanges fail without cause, the claims and deliveries of a run are a run of the
  atomic bounded queue: every enqueue found room, every dequeue took the oldest item, and every pop returned
  exactly the item its dequeue took. The two counters differ by the number of items.\<close>

theorem mpmc_refines_fifo:
  assumes "2 \<le> n" and "mpmc_step\<^sup>*\<^sup>* ([], mpmc_start n) (es, s)" and "length (enqueued es) + n < 2 ^ 63"
  shows "\<exists>f. fifo_run n es fifo_empty = Some f \<and> length (ff_items f) \<le> n
    \<and> unat (mq_enqueue_position (ms_memory s)) = unat (mq_dequeue_position (ms_memory s)) + length (ff_items f)"
  using reachable_refines[OF assms(2,1,3)] by (auto simp: fifo_of_def inv_parts)

text \<open>
  C12 (safety). No two threads are inside a slot at the same time. A thread that has claimed a position and
  not yet published or released it is alone in that position's slot; a thread that initializes the queue is
  alone with it; and no thread ever reads an uninitialized value.\<close>

theorem mpmc_slots_exclusive:
  assumes "2 \<le> n" and "mpmc_step\<^sup>*\<^sup>* ([], mpmc_start n) (es, s)" and "length (enqueued es) + n < 2 ^ 63" and "t \<noteq> t'"
  shows "(slot_access n (ms_threads s t) = None \<or> slot_access n (ms_threads s t) \<noteq> slot_access n (ms_threads s t'))
    \<and> (role (ms_threads s t) = Some Initializes \<longrightarrow> role (ms_threads s t') = None) \<and> ms_threads s t \<noteq> Undefined"
proof -
  have inv: "mpmc_inv n (enqueued es) s" using reachable_refines[OF assms(2,1,3)] by simp
  then have cap: "capacity (ms_memory s) = n" by (simp add: inv_parts)
  have uniq: "role (ms_threads s t) = None \<or> role (ms_threads s t') \<noteq> role (ms_threads s t)"
    using inv_role_unique[OF inv] assms(4) by metis
  have seq: "seq_at (ms_memory s) p = p" if "role (ms_threads s x) = Some (Fills p)" for x p
    using that inv_pc[OF inv, of x] by (cases "ms_threads s x") auto
  have seq': "seq_at (ms_memory s) p = p + 1" if "role (ms_threads s x) = Some (Drains p)" for x p
    using that inv_pc[OF inv, of x] by (cases "ms_threads s x") auto
  have same: "seq_at (ms_memory s) p = seq_at (ms_memory s) q" if "p mod n = q mod n" for p q
    using seq_at_cong[of p "ms_memory s" q] that cap by simp
  have "False" if slots: "slot_access n (ms_threads s t) = Some i" "slot_access n (ms_threads s t') = Some i" for i
  proof -
    obtain p where p: "role (ms_threads s t) = Some (Fills p) \<or> role (ms_threads s t) = Some (Drains p)" "i = p mod n"
      using slots(1) unfolding slot_access_role by blast
    obtain q where q: "role (ms_threads s t') = Some (Fills q) \<or> role (ms_threads s t') = Some (Drains q)" "i = q mod n"
      using slots(2) unfolding slot_access_role by blast
    have "seq_at (ms_memory s) p = seq_at (ms_memory s) q" by (rule same) (use p(2) q(2) in simp)
    moreover have "role (ms_threads s t) = Some (Fills p) \<and> seq_at (ms_memory s) p = p \<or> role (ms_threads s t) = Some (Drains p) \<and> seq_at (ms_memory s) p = p + 1"
      using p(1) seq seq' by blast
    moreover have "role (ms_threads s t') = Some (Fills q) \<and> seq_at (ms_memory s) q = q \<or> role (ms_threads s t') = Some (Drains q) \<and> seq_at (ms_memory s) q = q + 1"
      using q(1) seq seq' by blast
    ultimately have "p = q + 1 \<or> q = p + 1" using uniq by (elim disjE conjE) simp_all
    then show False using next_position_elsewhere[OF assms(1), of p] next_position_elsewhere[OF assms(1), of q] p(2) q(2) by auto
  qed
  moreover have "role (ms_threads s t') = None" if "role (ms_threads s t) = Some Initializes"
  proof -
    have "mq_state (ms_memory s) = 1" using that inv_pc[OF inv, of t] by (cases "ms_threads s t") auto
    with that uniq inv_pc[OF inv, of t'] show ?thesis by (cases "ms_threads s t'") auto
  qed
  moreover have "ms_threads s t \<noteq> Undefined" using inv_pc[OF inv, of t] by auto
  ultimately show ?thesis by (cases "slot_access n (ms_threads s t)") auto
qed

text \<open>
  C22 (liveness). An operation that runs alone completes, with the sequential result. When the queue is ready and no
  thread is inside a slot, a push returns within six steps, with success exactly when there is room, and a pop
  returns within six steps with the oldest item, or reports the queue empty exactly when it is.\<close>

theorem mpmc_alone_completes:
  assumes "2 \<le> n" and "mpmc_step\<^sup>*\<^sup>* ([], mpmc_start n) (es, s)" and "length (enqueued es) + n < 2 ^ 63"
    and "is_ready (ms_memory s)" and "\<And>t. slot_access n (ms_threads s t) = None" and "fifo_run n es fifo_empty = Some f"
  shows "snd (((\<lambda>(m, pc). push_step False m pc) ^^ 6) (ms_memory s, PushReady v))
      = Pushed (if length (ff_items f) < n then Ok () else Err Full)
    \<and> snd (((\<lambda>(m, pc). pop_step False m pc) ^^ 6) (ms_memory s, PopReady))
      = Popped (case ff_items f of [] \<Rightarrow> Err Empty | x # _ \<Rightarrow> Ok x)"
proof -
  let ?m = "ms_memory s" and ?log = "enqueued es"
  have inv: "mpmc_inv n ?log s" and f: "f = fifo_of ?log s" using reachable_refines[OF assms(2,1,3)] assms(6) by simp_all
  note ok = inv_memory[OF inv] assms(4)[unfolded is_ready_def]
  have und: "undisturbed ?m" by (rule undisturbed_memory[OF inv ok(2) assms(5)])
  have e: "enq ?m = length ?log" "deq ?m \<le> length ?log" using ok by (simp_all add: memory_ok_def)
  have items: "ff_items f = drop (deq ?m) ?log" by (simp add: f fifo_of_def)
  have "enq ?m < deq ?m + n \<longleftrightarrow> length (ff_items f) < n" using e by (auto simp: items)
  moreover have "(if deq ?m < enq ?m then Ok (?log ! deq ?m) else Err Empty) = (case ff_items f of [] \<Rightarrow> Err Empty | x # _ \<Rightarrow> Ok x)"
    using e by (simp add: items Cons_nth_drop_Suc[symmetric])
  ultimately show ?thesis using push_alone[OF ok assms(1,3) und] pop_alone[OF ok assms(1,3) und] by simp
qed

text \<open>
  C36 (functional). Full and empty are reported with reason. When a push gives up, the queue holds as many items as it
  has slots, or the slot it needs is still being drained by a pop; when a pop gives up, the queue is empty, or
  the oldest item is still being written by a push.\<close>

theorem mpmc_failures_genuine:
  assumes "2 \<le> n" and "mpmc_step\<^sup>*\<^sup>* ([], mpmc_start n) (es, s)" and "length (enqueued es) + n < 2 ^ 63"
    and "fifo_run n es fifo_empty = Some f"
  shows "(ms_threads s t = PushCheck v p \<longrightarrow> snd (push_step b (ms_memory s) (PushCheck v p)) = Pushed (Err Full)
      \<longrightarrow> length (ff_items f) = n \<or> (\<exists>t' q. role (ms_threads s t') = Some (Drains q) \<and> q mod n = unat p mod n))
    \<and> (ms_threads s t = PopCheck p \<longrightarrow> snd (pop_step b (ms_memory s) (PopCheck p)) = Popped (Err Empty)
      \<longrightarrow> ff_items f = [] \<or> (\<exists>t'. role (ms_threads s t') = Some (Fills (unat p))))"
proof -
  let ?m = "ms_memory s" and ?log = "enqueued es"
  have inv: "mpmc_inv n ?log s" and f: "f = fifo_of ?log s" using reachable_refines[OF assms(2,1,3)] assms(4) by simp_all
  have e: "enq ?m = length ?log" "ff_items f = drop (deq ?m) ?log" using inv by (simp_all add: inv_parts f fifo_of_def)
  have "length (ff_items f) = n \<or> (\<exists>t' q. role (ms_threads s t') = Some (Drains q) \<and> q mod n = unat p mod n)"
    if "ms_threads s t = PushCheck v p" "snd (push_step b ?m (PushCheck v p)) = Pushed (Err Full)"
  proof -
    have "seq_at ?m (unat p) < unat p"
      using that push_check_difference[OF inv assms(1,3) that(1)] by (auto simp: Let_def split: if_splits)
    with full_reason[OF inv assms(1) that(1)] e show ?thesis by auto
  qed
  moreover have "ff_items f = [] \<or> (\<exists>t'. role (ms_threads s t') = Some (Fills (unat p)))"
    if "ms_threads s t = PopCheck p" "snd (pop_step b ?m (PopCheck p)) = Popped (Err Empty)"
  proof -
    have "seq_at ?m (unat p) < unat p + 1"
      using that pop_check_difference[OF inv assms(1,3) that(1)] by (auto simp: Let_def split: if_splits)
    with empty_reason[OF inv assms(1) that(1)] e show ?thesis by auto
  qed
  ultimately show ?thesis by blast
qed

text \<open>
  C40 (error). With a capacity of one the queue loses an element and a pop can run forever. After an initialization that
  reports success, two pushes succeed although there is one slot; the first value is overwritten, and a pop that
  runs alone never returns, however many steps it takes.\<close>

theorem mpmc_capacity_one_spins:
  fixes v w :: 'a
  shows
  "let ready = ((\<lambda>(m, pc). initialize_step m pc) ^^ 6) (mpmc_new 1, InitCas);
       once = ((\<lambda>(m, pc). push_step False m pc) ^^ 6) (fst ready, PushReady v);
       twice = ((\<lambda>(m, pc). push_step False m pc) ^^ 6) (fst once, PushReady w)
   in snd ready = Initialized (Ok ()) \<and> snd once = Pushed (Ok ()) \<and> snd twice = Pushed (Ok ())
     \<and> map qs_value (mq_slots (fst twice)) = [Some w]
     \<and> snd (((\<lambda>(m, pc). pop_step False m pc) ^^ k) (fst twice, PopReady)) \<in> {PopReady, PopLoad, PopCheck 0}"
proof -
  let ?m = "\<lparr>mq_state = 2, mq_enqueue_position = 2, mq_dequeue_position = 0, mq_slots = [\<lparr>qs_sequence = 2, qs_value = Some w\<rparr>]\<rparr>"
  define ready once twice where "ready = ((\<lambda>(m, pc). initialize_step m pc) ^^ 6) (mpmc_new 1 :: 'a mpmc, InitCas)"
    and "once = ((\<lambda>(m, pc). push_step False m pc) ^^ 6) (fst ready, PushReady v)"
    and "twice = ((\<lambda>(m, pc). push_step False m pc) ^^ 6) (fst once, PushReady w)"
  note defs = ready_def once_def twice_def
  have ready: "ready = (\<lparr>mq_state = 2, mq_enqueue_position = 0, mq_dequeue_position = 0, mq_slots = [\<lparr>qs_sequence = 0, qs_value = None\<rparr>]\<rparr>, Initialized (Ok ()))"
    by (simp add: ready_def numeral_eq_Suc mpmc_new_def queue_slot_empty_def update_slot_def)
  have once: "once = (\<lparr>mq_state = 2, mq_enqueue_position = 1, mq_dequeue_position = 0, mq_slots = [\<lparr>qs_sequence = 1, qs_value = Some v\<rparr>]\<rparr>, Pushed (Ok ()))"
    by (simp add: once_def ready eval_nat_numeral is_ready_def load_sequence_def slot_index_def update_slot_def)
  have twice: "twice = (?m, Pushed (Ok ()))"
    by (simp add: twice_def once eval_nat_numeral is_ready_def load_sequence_def slot_index_def update_slot_def)
  have "fst (((\<lambda>(m, pc). pop_step False m pc) ^^ k) (?m, PopReady)) = ?m \<and> snd (((\<lambda>(m, pc). pop_step False m pc) ^^ k) (?m, PopReady)) \<in> {PopReady, PopLoad, PopCheck 0}"
    by (induction k) (auto simp: is_ready_def load_sequence_def slot_index_def split: prod.splits)
  with ready once twice show ?thesis unfolding Let_def defs[symmetric] by simp
qed

section \<open>Instances\<close>

fun play :: "('a mpmc \<Rightarrow> 'a mpmc_pc \<Rightarrow> 'a mpmc \<times> 'a mpmc_pc) \<Rightarrow> nat \<Rightarrow> nat \<Rightarrow> 'a mpmc_event list \<times> 'a mpmc_system \<Rightarrow> 'a mpmc_event list \<times> 'a mpmc_system" where
  "play f t 0 x = x"
| "play f t (Suc k) (es, s) =
     (case f (ms_memory s) (ms_threads s t) of
        (m', pc') \<Rightarrow> play f t k (es @ [step_event t (ms_threads s t) pc'], \<lparr>ms_memory = m', ms_threads = (ms_threads s)(t := pc')\<rparr>))"

definition call :: "nat \<Rightarrow> 'a mpmc_pc \<Rightarrow> 'a mpmc_event list \<times> 'a mpmc_system \<Rightarrow> 'a mpmc_event list \<times> 'a mpmc_system" where
  "call t pc x = (fst x, (snd x)\<lparr>ms_threads := (ms_threads (snd x))(t := pc)\<rparr>)"

lemma play_reach:
  assumes "\<And>m pc. f m pc \<in> set (thread_steps m pc)" and "mpmc_step\<^sup>*\<^sup>* x y"
  shows "mpmc_step\<^sup>*\<^sup>* x (play f t k y)"
  using assms(2)
proof (induction k arbitrary: y)
  case (Suc k)
  obtain es s m' pc' where y: "y = (es, s)" "f (ms_memory s) (ms_threads s t) = (m', pc')" by (metis surj_pair)
  with assms(1)[of "ms_memory s" "ms_threads s t"] have "mpmc_step y (es @ [step_event t (ms_threads s t) pc'], \<lparr>ms_memory = m', ms_threads = (ms_threads s)(t := pc')\<rparr>)"
    by (auto intro: mpmc_step.moves)
  with Suc.prems have "mpmc_step\<^sup>*\<^sup>* x (es @ [step_event t (ms_threads s t) pc'], \<lparr>ms_memory = m', ms_threads = (ms_threads s)(t := pc')\<rparr>)" by simp
  from Suc.IH[OF this] show ?case by (simp add: y)
qed simp

lemma call_reach:
  assumes "mpmc_step\<^sup>*\<^sup>* x y" and "may_call (ms_threads (snd y) t)" and "call_entry pc"
  shows "mpmc_step\<^sup>*\<^sup>* x (call t pc y)"
  using assms mpmc_step.calls[of "snd y" t pc "fst y"] by (auto simp: call_def intro: rtranclp.rtrancl_into_rtrancl)

lemma play_steps:
  "initialize_step m pc \<in> set (thread_steps m pc)" "push_step b m pc \<in> set (thread_steps m pc)"
  "pop_step b m pc \<in> set (thread_steps m pc)"
  by (cases b; simp add: thread_steps_def)+

text \<open>A queue of two slots after initialization and a push, and then with two threads inside their slots and a third about to
  look for an item.\<close>

definition mpmc_sample :: "nat mpmc_event list \<times> nat mpmc_system" where
  "mpmc_sample = play (push_step False) 0 6 (call 0 (PushReady 7) (play initialize_step 0 7 (call 0 InitCas ([], mpmc_start 2))))"

definition mpmc_sample_busy :: "nat mpmc_event list \<times> nat mpmc_system" where
  "mpmc_sample_busy =
     (let x = play (push_step False) 0 4 (call 0 (PushReady 8) mpmc_sample);
          x = play (pop_step False) 1 4 (call 1 PopReady x)
      in play (pop_step False) 2 2 (call 2 PopReady x))"

definition mpmc_ready :: "nat mpmc_event list \<times> nat mpmc_system" where
  "mpmc_ready = (replicate 7 Silent, \<lparr>ms_memory = \<lparr>mq_state = 2, mq_enqueue_position = 0, mq_dequeue_position = 0,
     mq_slots = [\<lparr>qs_sequence = 0, qs_value = None\<rparr>, \<lparr>qs_sequence = 1, qs_value = None\<rparr>]\<rparr>, ms_threads = (\<lambda>_. Resting)(0 := Initialized (Ok ()))\<rparr>)"

lemma mpmc_ready_eq: "play initialize_step 0 7 (call 0 InitCas ([], mpmc_start 2)) = mpmc_ready"
  by (simp add: mpmc_ready_def numeral_eq_Suc call_def mpmc_start_def mpmc_new_def queue_slot_empty_def update_slot_def step_event_def)

lemma mpmc_ready_reach: "mpmc_step\<^sup>*\<^sup>* ([], mpmc_start 2) mpmc_ready"
  unfolding mpmc_ready_eq[symmetric] by (intro play_reach play_steps call_reach) (simp_all add: mpmc_start_def)

lemma mpmc_sample_eq:
  "mpmc_sample = (replicate 10 Silent @ [Enqueue 0 7, Silent, Silent], \<lparr>ms_memory = \<lparr>mq_state = 2, mq_enqueue_position = 1, mq_dequeue_position = 0,
     mq_slots = [\<lparr>qs_sequence = 1, qs_value = Some 7\<rparr>, \<lparr>qs_sequence = 1, qs_value = None\<rparr>]\<rparr>, ms_threads = (\<lambda>_. Resting)(0 := Pushed (Ok ()))\<rparr>)"
  unfolding mpmc_sample_def mpmc_ready_eq
  by (simp add: mpmc_ready_def eval_nat_numeral call_def is_ready_def load_sequence_def slot_index_def update_slot_def step_event_def)

lemma mpmc_sample_busy_eq:
  "mpmc_sample_busy = (replicate 10 Silent @ [Enqueue 0 7, Silent, Silent] @ replicate 3 Silent @ [Enqueue 0 8] @ replicate 3 Silent @ [Dequeue 1, Silent, Silent],
     \<lparr>ms_memory = \<lparr>mq_state = 2, mq_enqueue_position = 2, mq_dequeue_position = 1,
     mq_slots = [\<lparr>qs_sequence = 1, qs_value = Some 7\<rparr>, \<lparr>qs_sequence = 1, qs_value = None\<rparr>]\<rparr>,
     ms_threads = (\<lambda>_. Resting)(0 := PushWrite 8 1, 1 := PopRead 0, 2 := PopCheck 1)\<rparr>)"
  unfolding mpmc_sample_busy_def mpmc_sample_eq
  by (simp add: eval_nat_numeral call_def is_ready_def load_sequence_def slot_index_def update_slot_def step_event_def)

lemma mpmc_sample_events:
  "enqueued (fst mpmc_sample) = [7]" "enqueued (fst mpmc_sample_busy) = [7, 8]"
  "fifo_run 2 (fst mpmc_sample) fifo_empty = Some \<lparr>ff_items = [7], ff_held = (\<lambda>_. None)\<rparr>"
  "fifo_run 2 (fst mpmc_sample_busy) fifo_empty = Some \<lparr>ff_items = [8], ff_held = [1 \<mapsto> 7]\<rparr>"
  by (simp_all add: mpmc_sample_eq mpmc_sample_busy_eq numeral_eq_Suc fifo_empty_def)

lemma mpmc_sample_reach: "mpmc_step\<^sup>*\<^sup>* ([], mpmc_start 2) mpmc_sample"
  unfolding mpmc_sample_def mpmc_ready_eq
  by (intro play_reach play_steps call_reach mpmc_ready_reach) (simp_all add: mpmc_ready_def)

lemma mpmc_sample_busy_reach: "mpmc_step\<^sup>*\<^sup>* ([], mpmc_start 2) (fst mpmc_sample_busy, snd mpmc_sample_busy)"
proof -
  let ?x = "play (push_step False) 0 4 (call 0 (PushReady 8) mpmc_sample)"
  let ?y = "play (pop_step False) 1 4 (call 1 PopReady ?x)"
  have x: "mpmc_step\<^sup>*\<^sup>* ([], mpmc_start 2) ?x"
    by (intro play_reach play_steps call_reach mpmc_sample_reach) (simp_all add: mpmc_sample_eq)
  have rest: "ms_threads (snd ?x) 1 = Resting" "ms_threads (snd ?y) 2 = Resting"
    by (simp_all add: mpmc_sample_eq eval_nat_numeral call_def is_ready_def load_sequence_def slot_index_def step_event_def)
  have "mpmc_step\<^sup>*\<^sup>* ([], mpmc_start 2) ?y" by (rule play_reach[OF play_steps(3) call_reach[OF x]]) (simp_all only: rest may_call.simps call_entry.simps)
  then have "mpmc_step\<^sup>*\<^sup>* ([], mpmc_start 2) (play (pop_step False) 2 2 (call 2 PopReady ?y))"
    by (rule play_reach[OF play_steps(3) call_reach]) (simp_all only: rest may_call.simps call_entry.simps)
  then show ?thesis by (simp add: mpmc_sample_busy_def Let_def)
qed

theorem mpmc_refines_fifo_witness:
  "\<exists>f. fifo_run 2 (fst mpmc_sample_busy) fifo_empty = Some f \<and> length (ff_items f) = 1"
  using mpmc_refines_fifo[OF _ mpmc_sample_busy_reach] by (simp add: mpmc_sample_events)

theorem mpmc_slots_exclusive_witness:
  "slot_access 2 (ms_threads (snd mpmc_sample_busy) 0) = Some 1 \<and> slot_access 2 (ms_threads (snd mpmc_sample_busy) 1) \<noteq> Some 1"
  using mpmc_slots_exclusive[OF _ mpmc_sample_busy_reach, of 0 1] by (simp add: mpmc_sample_events) (simp add: mpmc_sample_busy_eq)

theorem mpmc_alone_completes_witness:
  "snd (((\<lambda>(m, pc). push_step False m pc) ^^ 6) (ms_memory (snd mpmc_sample), PushReady 8)) = Pushed (Ok ())
   \<and> snd (((\<lambda>(m, pc). pop_step False m pc) ^^ 6) (ms_memory (snd mpmc_sample), PopReady)) = Popped (Ok 7)"
proof -
  have r: "mpmc_step\<^sup>*\<^sup>* ([], mpmc_start 2) (fst mpmc_sample, snd mpmc_sample)" using mpmc_sample_reach by simp
  have "is_ready (ms_memory (snd mpmc_sample))" "slot_access 2 (ms_threads (snd mpmc_sample) t) = None" for t
    by (simp_all add: mpmc_sample_eq is_ready_def)
  from mpmc_alone_completes[OF _ r _ this mpmc_sample_events(3), of 8] show ?thesis by (simp add: mpmc_sample_events(1))
qed

theorem mpmc_failures_genuine_witness:
  "snd (pop_step False (ms_memory (snd mpmc_sample_busy)) (PopCheck 1)) = Popped (Err Empty)
   \<and> (\<exists>t'. role (ms_threads (snd mpmc_sample_busy) t') = Some (Fills 1))"
proof -
  have "snd (pop_step False (ms_memory (snd mpmc_sample_busy)) (PopCheck 1)) = Popped (Err Empty)"
    "ms_threads (snd mpmc_sample_busy) 2 = PopCheck 1"
    by (simp_all add: mpmc_sample_busy_eq load_sequence_def slot_index_def)
  with mpmc_failures_genuine[OF _ mpmc_sample_busy_reach _ mpmc_sample_events(4), of 2 0 1 False] show ?thesis
    by (simp add: mpmc_sample_events(2))
qed

end
