(* ===== verification/Causal.thy ===== *)
theory Causal
  imports Prelude "HOL-Library.Product_Lexorder"
begin

text \<open>
  The causal clock and the replay shield of the kernel's message plane
  (\<open>src/kernel/boulder/src/causal_lattice.rs\<close>). A stamp orders events by physical tick, logical
  tick and node, the order the source derives, given here as an instance of the library's linear orders.
  A clock's operations run under its lock, so each is one step.

  The theorems show that in a system of clocks that exchange stamps an event carries a larger stamp than
  every event that happened before it, that stamps are unique and never run ahead of the wall clocks, and
  that the replay shield refuses exactly the most recent nonces it accepted.
\<close>

section \<open>Stamps\<close>

datatype causal_stamp =
  CausalStamp (cs_physical_tick: u64) (cs_logical_tick: u32) (cs_node: u16) (cs_reserved: u16)

definition stamp_key :: "causal_stamp \<Rightarrow> u64 \<times> u32 \<times> u16 \<times> u16" where
  "stamp_key s = (cs_physical_tick s, cs_logical_tick s, cs_node s, cs_reserved s)"

lemma stamp_key_inject: "stamp_key s = stamp_key t \<longleftrightarrow> s = t"
  by (auto simp: stamp_key_def causal_stamp.expand)

instantiation causal_stamp :: linorder
begin

definition less_eq_causal_stamp :: "causal_stamp \<Rightarrow> causal_stamp \<Rightarrow> bool" where
  "s \<le> t \<longleftrightarrow> stamp_key s \<le> stamp_key t"

definition less_causal_stamp :: "causal_stamp \<Rightarrow> causal_stamp \<Rightarrow> bool" where
  "s < t \<longleftrightarrow> stamp_key s < stamp_key t"

instance
  by standard (auto simp: less_eq_causal_stamp_def less_causal_stamp_def stamp_key_inject order.strict_iff_order)

end

section \<open>Clocks\<close>

record clock_state =
  cl_physical_tick :: u64
  cl_logical_tick :: u32

record causal_clock =
  cc_node :: u16
  cc_state :: clock_state

definition causal_clock_new :: "u16 \<Rightarrow> causal_clock" where
  "causal_clock_new node = \<lparr>cc_node = node, cc_state = \<lparr>cl_physical_tick = 0, cl_logical_tick = 0\<rparr>\<rparr>"

definition clock_stamp :: "u64 \<Rightarrow> causal_clock \<Rightarrow> causal_stamp \<times> causal_clock" where
  "clock_stamp wall_tick c =
     (let state = cc_state c;
          state = (if wall_tick > cl_physical_tick state
                   then \<lparr>cl_physical_tick = wall_tick, cl_logical_tick = 0\<rparr>
                   else state\<lparr>cl_logical_tick := saturating_add (cl_logical_tick state) 1\<rparr>)
      in (CausalStamp (cl_physical_tick state) (cl_logical_tick state) (cc_node c) 0, c\<lparr>cc_state := state\<rparr>))"

definition merged_logical :: "clock_state \<Rightarrow> causal_stamp \<Rightarrow> u64 \<Rightarrow> u32" where
  "merged_logical state remote merged_physical =
     (if merged_physical = cl_physical_tick state \<and> merged_physical = cs_physical_tick remote
      then saturating_add (max (cl_logical_tick state) (cs_logical_tick remote)) 1
      else if merged_physical = cl_physical_tick state then saturating_add (cl_logical_tick state) 1
      else if merged_physical = cs_physical_tick remote then saturating_add (cs_logical_tick remote) 1
      else 0)"

definition clock_observe :: "causal_stamp \<Rightarrow> u64 \<Rightarrow> causal_clock \<Rightarrow> causal_stamp \<times> causal_clock" where
  "clock_observe remote wall_tick c =
     (let state = cc_state c;
          merged_physical = max (max wall_tick (cl_physical_tick state)) (cs_physical_tick remote);
          logical = merged_logical state remote merged_physical;
          state = \<lparr>cl_physical_tick = merged_physical, cl_logical_tick = logical\<rparr>
      in (CausalStamp merged_physical logical (cc_node c) 0, c\<lparr>cc_state := state\<rparr>))"

section \<open>Envelopes and the replay shield\<close>

abbreviation (input) CAUSAL_PAYLOAD_BYTES :: nat where "CAUSAL_PAYLOAD_BYTES \<equiv> 32"

record causal_envelope =
  ce_stamp :: causal_stamp
  ce_nonce :: u64
  ce_route :: u32
  ce_length :: u16
  ce_flags :: u16
  ce_payload :: "u8 list"

definition causal_envelope_new :: "causal_stamp \<Rightarrow> u64 \<Rightarrow> u32 \<Rightarrow> u16 \<Rightarrow> u8 list \<Rightarrow> causal_envelope" where
  "causal_envelope_new stamp nonce route flags payload =
     (let len = min (length payload) CAUSAL_PAYLOAD_BYTES
      in \<lparr>ce_stamp = stamp, ce_nonce = nonce, ce_route = route, ce_length = of_nat len, ce_flags = flags,
          ce_payload = take len payload @ replicate (CAUSAL_PAYLOAD_BYTES - len) 0\<rparr>)"

definition envelope_bytes :: "causal_envelope \<Rightarrow> u8 list" where
  "envelope_bytes e = take (min (unat (ce_length e)) CAUSAL_PAYLOAD_BYTES) (ce_payload e)"

record replay_slot =
  rp_active :: bool
  rp_nonce :: u64

datatype replay_error = Duplicate | TooOld | TooFarAhead | InvalidLength | NoCapacity

record replay_shield =
  sh_slots :: "replay_slot list"
  sh_cursor :: nat
  sh_accepted :: u64
  sh_rejected :: u64

definition replay_shield_new :: "nat \<Rightarrow> replay_shield" where
  "replay_shield_new n = \<lparr>sh_slots = replicate n \<lparr>rp_active = False, rp_nonce = 0\<rparr>, sh_cursor = 0, sh_accepted = 0, sh_rejected = 0\<rparr>"

definition shield_reject :: "replay_error \<Rightarrow> replay_shield \<Rightarrow> (replay_error + unit) \<times> replay_shield" where
  "shield_reject e sh = (Err e, sh\<lparr>sh_rejected := saturating_add (sh_rejected sh) 1\<rparr>)"

definition shield_accept :: "causal_envelope \<Rightarrow> u64 \<Rightarrow> u64 \<Rightarrow> u64 \<Rightarrow> replay_shield \<Rightarrow> (replay_error + unit) \<times> replay_shield" where
  "shield_accept e now_tick maximum_past maximum_future sh =
     (if length (sh_slots sh) = 0 then shield_reject NoCapacity sh
      else if unat (ce_length e) > CAUSAL_PAYLOAD_BYTES then shield_reject InvalidLength sh
      else if saturating_add (cs_physical_tick (ce_stamp e)) maximum_past < now_tick then shield_reject TooOld sh
      else if cs_physical_tick (ce_stamp e) > saturating_add now_tick maximum_future then shield_reject TooFarAhead sh
      else if list_ex (\<lambda>slot. rp_active slot \<and> rp_nonce slot = ce_nonce e) (sh_slots sh) then shield_reject Duplicate sh
      else (Ok (), sh\<lparr>sh_slots := (sh_slots sh)[sh_cursor sh := \<lparr>rp_active = True, rp_nonce = ce_nonce e\<rparr>],
                      sh_cursor := (sh_cursor sh + 1) mod length (sh_slots sh),
                      sh_accepted := saturating_add (sh_accepted sh) 1\<rparr>))"

section \<open>A system of clocks\<close>

text \<open>
  Events in the order in which the clocks produced them: the clock, by its node, the wall tick it was given, the event
  whose stamp it observed, if any, and the stamp it returned.
\<close>

record causal_event =
  ev_clock :: u16
  ev_wall :: u64
  ev_source :: "nat option"
  ev_stamp :: causal_stamp

inductive causal_step :: "(u16 \<Rightarrow> causal_clock) \<times> causal_event list \<Rightarrow> (u16 \<Rightarrow> causal_clock) \<times> causal_event list \<Rightarrow> bool" where
  local_event: "clock_stamp w (cs i) = (st, c')
    \<Longrightarrow> causal_step (cs, es) (cs(i := c'), es @ [\<lparr>ev_clock = i, ev_wall = w, ev_source = None, ev_stamp = st\<rparr>])"
| receive_event: "j < length es \<Longrightarrow> clock_observe (ev_stamp (es ! j)) w (cs i) = (st, c')
    \<Longrightarrow> causal_step (cs, es) (cs(i := c'), es @ [\<lparr>ev_clock = i, ev_wall = w, ev_source = Some j, ev_stamp = st\<rparr>])"

inductive happened_before :: "causal_event list \<Rightarrow> nat \<Rightarrow> nat \<Rightarrow> bool" for es where
  same_clock: "a < b \<Longrightarrow> b < length es \<Longrightarrow> ev_clock (es ! a) = ev_clock (es ! b) \<Longrightarrow> happened_before es a b"
| message: "b < length es \<Longrightarrow> ev_source (es ! b) = Some a \<Longrightarrow> happened_before es a b"
| later: "happened_before es a b \<Longrightarrow> happened_before es b c \<Longrightarrow> happened_before es a c"

section \<open>Clocks advance\<close>

definition ticks :: "causal_stamp \<Rightarrow> u64 \<times> u32" where
  "ticks s = (cs_physical_tick s, cs_logical_tick s)"

definition clock_ticks :: "causal_clock \<Rightarrow> u64 \<times> u32" where
  "clock_ticks c = (cl_physical_tick (cc_state c), cl_logical_tick (cc_state c))"

lemma ticks_less: "ticks s < ticks t \<Longrightarrow> s < t"
  by (auto simp: ticks_def less_causal_stamp_def stamp_key_def less_prod_def)

lemma saturating_tick:
  fixes l :: u32
  assumes "saturating_add l 1 \<noteq> - 1"
  shows "l < saturating_add l 1"
  using assms by (auto simp: saturating_add_def checked_add_def word_less_nat_alt unat_word_ariths split: if_splits)

lemma stamp_advances:
  assumes "clock_stamp w c = (st, c')" and "cs_logical_tick st \<noteq> - 1"
  shows "ticks st = clock_ticks c'" and "clock_ticks c < clock_ticks c'" and "cs_node st = cc_node c" and "cs_reserved st = 0"
    and "cc_node c' = cc_node c" and "cs_physical_tick st = max w (cl_physical_tick (cc_state c))"
  using assms saturating_tick[of "cl_logical_tick (cc_state c)"]
  by (auto simp: clock_stamp_def Let_def ticks_def clock_ticks_def less_prod_def max_def split: if_splits)

lemma observe_advances:
  assumes "clock_observe remote w c = (st, c')" and "cs_logical_tick st \<noteq> - 1"
  shows "ticks st = clock_ticks c'" and "clock_ticks c < clock_ticks c'" and "ticks remote < clock_ticks c'" and "cs_node st = cc_node c"
    and "cs_reserved st = 0" and "cc_node c' = cc_node c"
    and "cs_physical_tick st = max (max w (cl_physical_tick (cc_state c))) (cs_physical_tick remote)"
proof -
  let ?s = "cc_state c"
  let ?p = "max (max w (cl_physical_tick ?s)) (cs_physical_tick remote)"
  have st: "st = CausalStamp ?p (merged_logical ?s remote ?p) (cc_node c) 0"
    "cc_state c' = \<lparr>cl_physical_tick = ?p, cl_logical_tick = merged_logical ?s remote ?p\<rparr>" "cc_node c' = cc_node c"
    using assms(1) by (auto simp: clock_observe_def Let_def)
  have ge: "cl_physical_tick ?s \<le> ?p" "cs_physical_tick remote \<le> ?p" by (simp_all add: le_max_iff_disj)
  have max_less: "max a b < (x :: u32) \<Longrightarrow> a < x \<and> b < x" for a b x by simp
  have ml: "(cl_physical_tick ?s = ?p \<longrightarrow> cl_logical_tick ?s < merged_logical ?s remote ?p)
    \<and> (cs_physical_tick remote = ?p \<longrightarrow> cs_logical_tick remote < merged_logical ?s remote ?p)"
    using assms(2) saturating_tick[of "max (cl_logical_tick ?s) (cs_logical_tick remote)", THEN max_less]
      saturating_tick[of "cl_logical_tick ?s"] saturating_tick[of "cs_logical_tick remote"]
    unfolding st(1) causal_stamp.sel merged_logical_def by (auto split: if_splits)
  with ge show "clock_ticks c < clock_ticks c'" "ticks remote < clock_ticks c'"
    unfolding clock_ticks_def ticks_def st(2) by (auto simp: less_prod_def le_less simp del: max_less_iff_conj less_max_iff_disj)
qed (use assms(1) in \<open>auto simp: clock_observe_def Let_def ticks_def clock_ticks_def\<close>)

definition unsaturated :: "causal_event list \<Rightarrow> bool" where
  "unsaturated es \<longleftrightarrow> (\<forall>e \<in> set es. cs_logical_tick (ev_stamp e) \<noteq> - 1)"

definition event_ok :: "causal_event list \<Rightarrow> nat \<Rightarrow> bool" where
  "event_ok es a \<longleftrightarrow> (\<exists>b \<le> a. cs_physical_tick (ev_stamp (es ! a)) \<le> ev_wall (es ! b))
     \<and> (\<forall>b < a. ev_clock (es ! b) = ev_clock (es ! a) \<longrightarrow> ticks (ev_stamp (es ! b)) < ticks (ev_stamp (es ! a)))
     \<and> (\<forall>b. ev_source (es ! a) = Some b \<longrightarrow> b < a \<and> ticks (ev_stamp (es ! b)) < ticks (ev_stamp (es ! a)))"

definition clocks_ok :: "(u16 \<Rightarrow> causal_clock) \<Rightarrow> causal_event list \<Rightarrow> bool" where
  "clocks_ok cs es \<longleftrightarrow> (\<forall>i. cc_node (cs i) = i
       \<and> (cl_physical_tick (cc_state (cs i)) = 0 \<or> (\<exists>e \<in> set es. cl_physical_tick (cc_state (cs i)) \<le> ev_wall e)))
     \<and> (\<forall>e \<in> set es. ticks (ev_stamp e) \<le> clock_ticks (cs (ev_clock e)) \<and> cs_node (ev_stamp e) = ev_clock e)"

definition history_ok :: "(u16 \<Rightarrow> causal_clock) \<times> causal_event list \<Rightarrow> bool" where
  "history_ok x \<longleftrightarrow> clocks_ok (fst x) (snd x) \<and> (\<forall>a < length (snd x). event_ok (snd x) a)"

lemma event_ok_append: "a < length es \<Longrightarrow> event_ok (es @ [e]) a \<longleftrightarrow> event_ok es a"
  by (auto simp: event_ok_def nth_append) 

lemma history_extend:
  assumes ok: "history_ok (cs, es)" and "cc_node c' = i" and st: "ticks st = clock_ticks c'" and less: "clock_ticks (cs i) < clock_ticks c'"
    and "cs_node st = i"
    and src: "\<And>j. source = Some j \<Longrightarrow> j < length es \<and> ticks (ev_stamp (es ! j)) < clock_ticks c'"
    and phys: "cs_physical_tick st = w \<or> cs_physical_tick st = cl_physical_tick (cc_state (cs i)) \<or> (\<exists>j < length es. cs_physical_tick st = cs_physical_tick (ev_stamp (es ! j)))"
  shows "history_ok (cs(i := c'), es @ [\<lparr>ev_clock = i, ev_wall = w, ev_source = source, ev_stamp = st\<rparr>])"
proof -
  let ?e = "\<lparr>ev_clock = i, ev_wall = w, ev_source = source, ev_stamp = st\<rparr>"
  let ?es = "es @ [?e]"
  have cl: "clocks_ok cs es" and ev: "\<And>a. a < length es \<Longrightarrow> event_ok es a" using ok by (auto simp: history_ok_def)
  have walls: "\<exists>e \<in> set es. cs_physical_tick (ev_stamp (es ! j)) \<le> ev_wall e" if "j < length es" for j
    using ev[OF that] that unfolding event_ok_def by (meson le_less_trans nth_mem)
  have wall: "\<exists>e \<in> set ?es. cs_physical_tick st \<le> ev_wall e"
  proof -
    have "cl_physical_tick (cc_state (cs i)) = 0 \<or> (\<exists>e \<in> set es. cl_physical_tick (cc_state (cs i)) \<le> ev_wall e)"
      using cl by (simp add: clocks_ok_def)
    with phys walls show ?thesis by auto
  qed
  have old: "ticks (ev_stamp e) < clock_ticks c'" if "e \<in> set es" "ev_clock e = i" for e
    using cl that less unfolding clocks_ok_def by (meson le_less_trans)
  have "event_ok ?es (length es)" unfolding event_ok_def
  proof (intro conjI allI impI)
    show "\<exists>b \<le> length es. cs_physical_tick (ev_stamp (?es ! length es)) \<le> ev_wall (?es ! b)"
    proof -
      from wall obtain b where "b < length ?es" "cs_physical_tick st \<le> ev_wall (?es ! b)" by (metis in_set_conv_nth)
      then show ?thesis by (intro exI[of _ b]) simp
    qed
    show "ticks (ev_stamp (?es ! b)) < ticks (ev_stamp (?es ! length es))" if "b < length es" "ev_clock (?es ! b) = ev_clock (?es ! length es)" for b
      using that old[of "es ! b"] st by (simp add: nth_append)
  qed (use src st in \<open>auto simp: nth_append\<close>)
  then have "\<forall>a < length ?es. event_ok ?es a" using ev by (auto simp: less_Suc_eq event_ok_append)
  moreover have "cl_physical_tick (cc_state c') = cs_physical_tick st" using st by (simp add: ticks_def clock_ticks_def)
  then have "clocks_ok (cs(i := c')) ?es"
    using cl wall assms(2,5) st old by (auto simp: clocks_ok_def less_imp_le)
  ultimately show ?thesis by (simp add: history_ok_def)
qed

lemma history_step:
  assumes "unsaturated (snd x) \<Longrightarrow> history_ok x" and "causal_step x y" and "unsaturated (snd y)"
  shows "history_ok y"
  using assms(2)
proof cases
  case (local_event w cs i st c' es)
  then have ok: "history_ok (cs, es)" and un: "cs_logical_tick st \<noteq> - 1" using assms(1,3) by (auto simp: unsaturated_def)
  then have "cc_node (cs i) = i" by (simp add: history_ok_def clocks_ok_def)
  with stamp_advances[OF local_event(3) un] show ?thesis
    unfolding local_event by (intro history_extend[OF ok]) (auto simp: max_def)
next
  case (receive_event j es w cs i st c')
  then have ok: "history_ok (cs, es)" and un: "cs_logical_tick st \<noteq> - 1" using assms(1,3) by (auto simp: unsaturated_def)
  then have "cc_node (cs i) = i" by (simp add: history_ok_def clocks_ok_def)
  with observe_advances[OF receive_event(4) un] receive_event(3) show ?thesis
    unfolding receive_event by (intro history_extend[OF ok]) (auto simp: max_def)
qed

interpretation causal: invariant_system "\<lambda>x. x = (\<lambda>i. causal_clock_new i, [])" causal_step "\<lambda>x. unsaturated (snd x) \<longrightarrow> history_ok x"
proof
  show "\<And>x. x = (\<lambda>i. causal_clock_new i, []) \<Longrightarrow> unsaturated (snd x) \<longrightarrow> history_ok x"
    by (simp add: history_ok_def clocks_ok_def causal_clock_new_def)
qed (use history_step in blast)

lemma happened_before_ticks:
  assumes "happened_before es a b" and "\<And>a. a < length es \<Longrightarrow> event_ok es a"
  shows "a < b \<and> b < length es \<and> ticks (ev_stamp (es ! a)) < ticks (ev_stamp (es ! b))"
  using assms(1)
proof induction
  case (same_clock a b)
  with assms(2)[of b] show ?case by (auto simp: event_ok_def)
next
  case (message b a)
  with assms(2)[of b] show ?case by (auto simp: event_ok_def)
qed (auto intro: less_trans)

section \<open>The replay window\<close>

text \<open>
  The specification of the shield: the nonces accepted so far, the oldest first. Slot \<open>p mod n\<close> holds the nonce accepted
  as number \<open>p\<close>, for the last \<open>n\<close> of them.
\<close>

definition recent :: "nat \<Rightarrow> 'a list \<Rightarrow> 'a list" where
  "recent n log = drop (length log - n) log"

definition shield_holds :: "nat \<Rightarrow> u64 list \<Rightarrow> replay_shield \<Rightarrow> bool" where
  "shield_holds n log sh \<longleftrightarrow> length (sh_slots sh) = n \<and> 0 < n \<and> sh_cursor sh = length log mod n
     \<and> (\<forall>p < length log. length log \<le> p + n \<longrightarrow> sh_slots sh ! (p mod n) = \<lparr>rp_active = True, rp_nonce = log ! p\<rparr>)
     \<and> (\<forall>i < n. length log \<le> i \<longrightarrow> \<not> rp_active (sh_slots sh ! i))"

lemma set_recent: "x \<in> set (recent n log) \<longleftrightarrow> (\<exists>p < length log. length log \<le> p + n \<and> log ! p = x)"
proof -
  have "x \<in> set (recent n log) \<longleftrightarrow> (\<exists>i < length log - (length log - n). log ! (length log - n + i) = x)"
    by (auto simp: recent_def in_set_conv_nth)
  also have "\<dots> \<longleftrightarrow> (\<exists>p < length log. length log \<le> p + n \<and> log ! p = x)"
  proof
    assume "\<exists>p < length log. length log \<le> p + n \<and> log ! p = x"
    then obtain p where "p < length log" "length log \<le> p + n" "log ! p = x" by blast
    then show "\<exists>i < length log - (length log - n). log ! (length log - n + i) = x"
      by (intro exI[of _ "p - (length log - n)"]) auto
  next
    assume "\<exists>i < length log - (length log - n). log ! (length log - n + i) = x"
    then obtain i where "i < length log - (length log - n)" "log ! (length log - n + i) = x" by blast
    then show "\<exists>p < length log. length log \<le> p + n \<and> log ! p = x" by (intro exI[of _ "length log - n + i"]) auto
  qed
  finally show ?thesis .
qed

lemma slot_of_window:
  assumes "0 < n" and "i < n" and "i < len"
  shows "\<exists>p < len. len \<le> p + n \<and> p mod n = (i :: nat)"
proof -
  let ?k = "(len - 1 - i) div n"
  have "len - 1 - i = ?k * n + (len - 1 - i) mod n" "(len - 1 - i) mod n < n" using assms(1) by simp_all
  then have "i + ?k * n < len" "len \<le> i + ?k * n + n" using assms(3) by linarith+
  with assms(2) show ?thesis by (intro exI[of _ "i + ?k * n"]) simp
qed

lemma shield_duplicate:
  assumes "shield_holds n log sh"
  shows "list_ex (\<lambda>slot. rp_active slot \<and> rp_nonce slot = x) (sh_slots sh) \<longleftrightarrow> x \<in> set (recent n log)"
proof -
  have n: "length (sh_slots sh) = n" "0 < n" using assms by (simp_all add: shield_holds_def)
  have "\<exists>p < length log. length log \<le> p + n \<and> log ! p = x" if i: "i < n" "rp_active (sh_slots sh ! i)" "rp_nonce (sh_slots sh ! i) = x" for i
  proof -
    have "i < length log" using assms i by (meson not_le shield_holds_def)
    then obtain p where "p < length log" "length log \<le> p + n" "p mod n = i" using slot_of_window[OF n(2) i(1)] by blast
    moreover from this assms have "sh_slots sh ! i = \<lparr>rp_active = True, rp_nonce = log ! p\<rparr>" by (auto simp: shield_holds_def)
    ultimately show ?thesis using i by auto
  qed
  moreover have "\<exists>i < n. rp_active (sh_slots sh ! i) \<and> rp_nonce (sh_slots sh ! i) = x" if "p < length log" "length log \<le> p + n" "log ! p = x" for p
    using assms that n(2) by (intro exI[of _ "p mod n"]) (simp add: shield_holds_def)
  ultimately show ?thesis unfolding set_recent list_ex_iff by (metis in_set_conv_nth n(1))
qed

lemma shield_insert:
  assumes ok: "shield_holds n log sh"
  shows "shield_holds n (log @ [x]) (sh\<lparr>sh_slots := (sh_slots sh)[sh_cursor sh := \<lparr>rp_active = True, rp_nonce = x\<rparr>],
    sh_cursor := (sh_cursor sh + 1) mod length (sh_slots sh), sh_accepted := a\<rparr>)"
proof -
  have n: "length (sh_slots sh) = n" "0 < n" "sh_cursor sh = length log mod n" using ok by (simp_all add: shield_holds_def)
  have other: "p mod n \<noteq> length log mod n" if "p < length log" "length log < p + n" for p
  proof
    assume "p mod n = length log mod n"
    then have "n dvd length log - p" using that(1) by (metis less_imp_le_nat mod_eq_dvd_iff_nat)
    with that show False by (auto dest!: dvd_imp_le)
  qed
  have "length log mod n \<noteq> i" if "i < n" "length log < i" for i using that by simp
  moreover have "(sh_slots sh)[sh_cursor sh := \<lparr>rp_active = True, rp_nonce = x\<rparr>] ! (p mod n) = \<lparr>rp_active = True, rp_nonce = (log @ [x]) ! p\<rparr>"
    if p: "p < Suc (length log)" "Suc (length log) \<le> p + n" for p
  proof (cases "p = length log")
    case False
    with p n ok other[of p] show ?thesis by (simp add: shield_holds_def nth_append)
  qed (use n in simp)
  ultimately show ?thesis using ok n by (simp add: shield_holds_def mod_Suc_eq)
qed

definition admissible :: "causal_envelope \<Rightarrow> u64 \<Rightarrow> u64 \<Rightarrow> u64 \<Rightarrow> bool" where
  "admissible e now_tick maximum_past maximum_future \<longleftrightarrow> unat (ce_length e) \<le> CAUSAL_PAYLOAD_BYTES
     \<and> min (unat (cs_physical_tick (ce_stamp e)) + unat maximum_past) (2 ^ 64 - 1) \<ge> unat now_tick
     \<and> unat (cs_physical_tick (ce_stamp e)) \<le> min (unat now_tick + unat maximum_future) (2 ^ 64 - 1)"

inductive shield_step :: "u64 list \<times> replay_shield \<Rightarrow> u64 list \<times> replay_shield \<Rightarrow> bool" where
  "shield_accept e now past future sh = (r, sh') \<Longrightarrow> shield_step (log, sh) (if r = Ok () then log @ [ce_nonce e] else log, sh')"

lemma shield_rejects [simp]: "shield_holds n log (sh\<lparr>sh_rejected := x\<rparr>) \<longleftrightarrow> shield_holds n log sh"
  by (simp add: shield_holds_def)

lemma shield_accept_holds:
  assumes "shield_holds n log sh" and "shield_accept e now past future sh = (r, sh')"
  shows "shield_holds n (if r = Ok () then log @ [ce_nonce e] else log) sh'"
  using assms shield_insert[OF assms(1), of "ce_nonce e"] by (auto simp: shield_accept_def shield_reject_def split: if_splits)

interpretation shield: invariant_system "\<lambda>x. 0 < n \<and> x = ([], replay_shield_new n)" shield_step "\<lambda>x. shield_holds n (fst x) (snd x)" for n
proof
  show "\<And>x. 0 < n \<and> x = ([], replay_shield_new n) \<Longrightarrow> shield_holds n (fst x) (snd x)"
    by (auto simp: shield_holds_def replay_shield_new_def)
  show "shield_holds n (fst y) (snd y)" if "shield_holds n (fst x) (snd x)" "shield_step x y" for x y
    using that(2) by cases (use that(1) shield_accept_holds in simp)
qed

section \<open>Theorems\<close>

text \<open>
  C17 (safety). Stamps respect causality. In a system of clocks that stamp local events and observe each other's stamps in
  any order and at any wall ticks, an event that happened before another, on the same clock or through a chain of
  messages, carries the smaller stamp; two events never carry the same stamp; and no stamp is
  ahead of every wall tick read so far. The logical counter is assumed not to have reached its largest value.\<close>

theorem stamps_respect_causality:
  assumes "causal_step\<^sup>*\<^sup>* (\<lambda>i. causal_clock_new i, []) (cs, es)" and "unsaturated es"
  shows "(happened_before es a b \<longrightarrow> ev_stamp (es ! a) < ev_stamp (es ! b))
    \<and> (a < b \<and> b < length es \<longrightarrow> ev_stamp (es ! a) \<noteq> ev_stamp (es ! b))
    \<and> (b < length es \<longrightarrow> (\<exists>c \<le> b. cs_physical_tick (ev_stamp (es ! b)) \<le> ev_wall (es ! c)))"
proof -
  have "history_ok (cs, es)" using causal.inv_reachable[OF refl assms(1)] assms(2) by simp
  then have cl: "clocks_ok cs es" and ev: "\<And>a. a < length es \<Longrightarrow> event_ok es a" by (auto simp: history_ok_def)
  have "ev_stamp (es ! a) \<noteq> ev_stamp (es ! b)" if ab: "a < b" "b < length es"
  proof (cases "ev_clock (es ! a) = ev_clock (es ! b)")
    case True
    with ab happened_before_ticks[OF happened_before.same_clock ev] show ?thesis by fastforce
  next
    case False
    moreover have "cs_node (ev_stamp (es ! a)) = ev_clock (es ! a)" "cs_node (ev_stamp (es ! b)) = ev_clock (es ! b)"
      using cl ab by (simp_all add: clocks_ok_def)
    ultimately show ?thesis by auto
  qed
  then show ?thesis using happened_before_ticks[OF _ ev] ticks_less ev[of b] unfolding event_ok_def by blast
qed

text \<open>
  C32 (functional). The replay shield refuses exactly the recent nonces. After any calls, an envelope whose length and age are admissible is
  accepted exactly when its nonce is not among the last nonces accepted, as many as the shield has slots, and is
  refused as a duplicate otherwise; an inadmissible one is refused for the check it fails; a refusal changes
  nothing but the count of refusals.\<close>

theorem replay_window_exact:
  assumes "0 < n" and "shield_step\<^sup>*\<^sup>* ([], replay_shield_new n) (log, sh)" and "shield_accept e now past future sh = (r, sh')"
  shows "(r = Ok () \<longleftrightarrow> admissible e now past future \<and> ce_nonce e \<notin> set (recent n log))
    \<and> (r = Err Duplicate \<longleftrightarrow> admissible e now past future \<and> ce_nonce e \<in> set (recent n log))
    \<and> (r \<noteq> Ok () \<longrightarrow> sh' = sh\<lparr>sh_rejected := saturating_add (sh_rejected sh) 1\<rparr>)
    \<and> sh_accepted sh' = (if r = Ok () then saturating_add (sh_accepted sh) 1 else sh_accepted sh)"
proof -
  have ok: "shield_holds n log sh" using shield.inv_reachable[OF _ assms(2)] assms(1) by simp
  then have "sh_slots sh \<noteq> []" using assms(1) by (auto simp: shield_holds_def)
  then show ?thesis
    using assms(3) shield_duplicate[OF ok, of "ce_nonce e"]
    by (auto simp: shield_accept_def shield_reject_def admissible_def word_less_nat_alt unat_saturating_add not_le not_less split: if_splits)
qed

text \<open>An envelope returns the payload it was built from, up to its capacity, and passes the shield's length check.\<close>

lemma envelope_round_trip:
  "envelope_bytes (causal_envelope_new stamp nonce route flags payload) = take 32 payload
   \<and> unat (ce_length (causal_envelope_new stamp nonce route flags payload)) \<le> 32
   \<and> length (ce_payload (causal_envelope_new stamp nonce route flags payload)) = 32"
proof -
  have "unat (of_nat (min (length payload) 32) :: u16) = min (length payload) 32"
    by (simp add: unat_of_nat min_def)
  then show ?thesis by (auto simp: envelope_bytes_def causal_envelope_new_def Let_def min_def)
qed

section \<open>Instances\<close>

text \<open>Two clocks: the first stamps an event at wall tick five, the second, whose wall clock is behind, observes it, and the first
  observes the reply.\<close>

definition sample_clocks :: "(u16 \<Rightarrow> causal_clock) \<times> causal_event list" where
  "sample_clocks =
     (let c = causal_clock_new;
          (s0, c1) = clock_stamp 5 (c 1);
          (s1, c2) = clock_observe s0 3 (c 2);
          (s2, c1') = clock_observe s1 5 c1
      in (c(1 := c1, 2 := c2, 1 := c1'),
          [\<lparr>ev_clock = 1, ev_wall = 5, ev_source = None, ev_stamp = s0\<rparr>, \<lparr>ev_clock = 2, ev_wall = 3, ev_source = Some 0, ev_stamp = s1\<rparr>,
           \<lparr>ev_clock = 1, ev_wall = 5, ev_source = Some 1, ev_stamp = s2\<rparr>]))"

lemma sample_clocks_reach: "causal_step\<^sup>*\<^sup>* (\<lambda>i. causal_clock_new i, []) (fst sample_clocks, snd sample_clocks)"
proof -
  let ?c = causal_clock_new
  obtain s0 c1 where a: "clock_stamp 5 (?c 1) = (s0, c1)" by fastforce
  obtain s1 c2 where b: "clock_observe s0 3 (?c 2) = (s1, c2)" by fastforce
  obtain s2 c1' where c: "clock_observe s1 5 c1 = (s2, c1')" by fastforce
  let ?e0 = "\<lparr>ev_clock = 1, ev_wall = 5, ev_source = None, ev_stamp = s0\<rparr>"
  let ?e1 = "\<lparr>ev_clock = 2, ev_wall = 3, ev_source = Some 0, ev_stamp = s1\<rparr>"
  let ?e2 = "\<lparr>ev_clock = 1, ev_wall = 5, ev_source = Some 1, ev_stamp = s2\<rparr>"
  have "causal_step (?c, []) (?c(1 := c1), [?e0])" using local_event[of 5 ?c 1 s0 c1 "[]"] a by simp
  moreover have "causal_step (?c(1 := c1), [?e0]) (?c(1 := c1, 2 := c2), [?e0, ?e1])"
    using receive_event[of 0 "[?e0]" 3 "?c(1 := c1)" 2 s1 c2] b by simp
  moreover have "causal_step (?c(1 := c1, 2 := c2), [?e0, ?e1]) (?c(1 := c1, 2 := c2, 1 := c1'), [?e0, ?e1, ?e2])"
    using receive_event[of 1 "[?e0, ?e1]" 5 "?c(1 := c1, 2 := c2)" 1 s2 c1'] c by simp
  ultimately have "causal_step\<^sup>*\<^sup>* (?c, []) (?c(1 := c1, 2 := c2, 1 := c1'), [?e0, ?e1, ?e2])"
    by (meson converse_rtranclp_into_rtranclp rtranclp.rtrancl_refl)
  moreover have "sample_clocks = (?c(1 := c1, 2 := c2, 1 := c1'), [?e0, ?e1, ?e2])" by (simp add: sample_clocks_def a b c)
  ultimately show ?thesis by (simp only: prod.collapse)
qed

theorem stamps_respect_causality_witness:
  "ev_stamp (snd sample_clocks ! 0) < ev_stamp (snd sample_clocks ! 2) \<and> cs_logical_tick (ev_stamp (snd sample_clocks ! 2)) = 2"
proof -
  have eq: "snd sample_clocks = [\<lparr>ev_clock = 1, ev_wall = 5, ev_source = None, ev_stamp = CausalStamp 5 0 1 0\<rparr>,
      \<lparr>ev_clock = 2, ev_wall = 3, ev_source = Some 0, ev_stamp = CausalStamp 5 1 2 0\<rparr>, \<lparr>ev_clock = 1, ev_wall = 5, ev_source = Some 1, ev_stamp = CausalStamp 5 2 1 0\<rparr>]"
    by (simp add: sample_clocks_def clock_stamp_def clock_observe_def merged_logical_def causal_clock_new_def Let_def saturating_add_def)
  have "unsaturated (snd sample_clocks)" by (simp add: eq unsaturated_def)
  moreover have "happened_before (snd sample_clocks) 0 2"
    by (rule happened_before.later[OF happened_before.message[of 1] happened_before.message[of 2]]) (simp_all add: eq)
  ultimately show ?thesis using stamps_respect_causality[OF sample_clocks_reach, of 0 2] by (simp add: eq)
qed

definition sample_envelope :: "u64 \<Rightarrow> causal_envelope" where
  "sample_envelope nonce = causal_envelope_new (CausalStamp 100 0 1 0) nonce 9 0 [1, 2, 3]"

theorem replay_window_exact_witness:
  "fst (shield_accept (sample_envelope 7) 101 10 10 (snd (shield_accept (sample_envelope 7) 100 10 10 (replay_shield_new 2)))) = Err Duplicate"
proof -
  let ?sh = "snd (shield_accept (sample_envelope 7) 100 10 10 (replay_shield_new 2))"
  have first: "shield_accept (sample_envelope 7) 100 10 10 (replay_shield_new 2) = (Ok (), ?sh)"
    by (simp add: sample_envelope_def causal_envelope_new_def shield_accept_def replay_shield_new_def saturating_add_def list_ex_iff)
  have "ce_nonce (sample_envelope 7) = 7" by (simp add: sample_envelope_def causal_envelope_new_def)
  with first have r: "shield_step\<^sup>*\<^sup>* ([], replay_shield_new 2) ([7], ?sh)" using shield_step.intros[OF first, of "[]"] by auto
  have "admissible (sample_envelope 7) 101 10 10" by (simp add: admissible_def sample_envelope_def causal_envelope_new_def)
  then show ?thesis
    using replay_window_exact[OF _ r prod.collapse[symmetric], of "sample_envelope 7" 101 10 10] \<open>ce_nonce (sample_envelope 7) = 7\<close>
    by (simp add: recent_def)
qed

end
