(* ===== verification/Spec2Isabelle.thy ===== *)
theory Spec2Isabelle
  imports Preemption RingAuthority Iova LeaseLattice Objects ServiceCalculus PolicyVm LabVm FrameSharing XhciRing ExactNtt Mpmc Causal
begin

text \<open>
  A verification library for Sisyphus OS, an experimental operating system in Rust. The kernel
  \<open>boulder\<close> (\<open>src/kernel/boulder\<close>) runs user processes under a lifecycle registry, dispatches privileged
  domains through a ring authority, manages physical frames, I/O addresses, VT-d page tables and an xHCI controller, and grants time and
  bandwidth through leases and service curves; the crates under \<open>src/core\<close> give it the frame allocator (\<open>abyss\<close>), the object table
  (\<open>kairos\<close>) and two virtual machines and a lock-free queue (\<open>aether\<close>); \<open>src/libraries/slope\<close> holds the admission calculus.

  \<^bold>\<open>Conventions.\<close> The models are shallow embeddings, named after the source. Machine integers are words (\<open>u8\<close> to \<open>u64\<close>,
  \<open>u128\<close>), with the wrapping, checked and saturating operations of \<open>Prelude\<close>; \<open>usize\<close> values that index or count are natural
  numbers. \<open>Result\<close> is a sum with \<open>Ok\<close> and \<open>Err\<close>, \<open>Option\<close> is \<open>option\<close>, fixed arrays are lists of the same length. A method on
  \<open>&mut self\<close> returns its result and the new state, errors included; state behind a spin lock changes in one step; atomics that are read and
  written one by one are machines with a program counter (\<open>Preemption\<close>, \<open>Mpmc\<close>). A trait is a record of functions, and what its
  implementations promise is a locale. Loops are recursive functions with termination proofs, folds, or \<open>partial_function\<close>
  with a proof that they return; the virtual machines keep the fuel of the source.

  \<^bold>\<open>Theories and sources.\<close>
  \<^item> \<open>Prelude\<close>: words, options and lists shared by all, and the locales of invariant systems and of tables whose handles carry
    generations, which the components interpret.
  \<^item> \<open>Paging\<close>, \<open>Frames\<close>: \<open>core/abyss/src\<close>, \<open>paging.rs\<close>, \<open>memory.rs\<close>, \<open>reservation.rs\<close> and \<open>frame.rs\<close>. The memory map, the
    reservation table and the bitmap allocator: what is free after boot, single and contiguous allocation (the search always returns
    and finds a run when there is one), and release.
  \<^item> \<open>FramePool\<close>: \<open>memory/frame_pool.rs\<close>, the allocator behind its lock, as its clients see it.
  \<^item> \<open>Context\<close>, \<open>Lifecycle\<close>: \<open>process/context.rs\<close>, \<open>process/lifecycle.rs\<close>. The saved register image with its checks, and the
    registry of processes with every transition: at most one process runs, identifiers are unique, a return authority is honoured only
    for the decision in force and dies with the next, scheduling is round robin and starves nobody.
  \<^item> \<open>Preemption\<close>: \<open>process/preemption.rs\<close>. The mailbox between timer interrupt and scheduler under every interleaving of its atomic
    accesses, and the tickets it carries.
  \<^item> \<open>RingAuthority\<close>: \<open>ring_authority.rs\<close>. Hardware grants that never overlap, domains that run on one processor at a time, and the
    round trip of a dispatch.
  \<^item> \<open>Iova\<close>: \<open>hw/iova.rs\<close>. The ledger of I/O address leases: disjointness, lowest-fit search, refinement of a map.
  \<^item> \<open>VtdSlpt\<close>, \<open>VtdMemory\<close>: \<open>hw/vtd_slpt.rs\<close> and the adapter \<open>DirectMapSlptMemory\<close> of \<open>hw/vtd_memory.rs\<close>. The second-level page tables over
    an abstract page memory (locale \<open>slpt_page_memory\<close>), and the direct map that implements it on the frame pool: the hardware
    walk finds what the ledger records, after any failures.
  \<^item> \<open>Bytes\<close>, \<open>XhciDma\<close>, \<open>XhciRing\<close>: \<open>drivers/xhci_dma.rs\<close>, \<open>drivers/xhci_ring.rs\<close>. The DMA arena (all or nothing, and everything comes
    back) and the command and event rings over it (locale \<open>ring_memory\<close>), driven together with a model of the
    controller: every command comes back and a block is published atomically; and against a device that may write anything: a completion
    is taken only from an event that answers the command.
  \<^item> \<open>FrameSharing\<close>: table memory and arenas on one pool; the property is below.
  \<^item> \<open>LeaseLattice\<close>: \<open>lease_lattice.rs\<close>. Delegated quotas are conserved, rights never grow, a revoked subtree stays dead.
  \<^item> \<open>Objects\<close>: \<open>core/kairos/src/object.rs\<close>. Handles resolve to their object and rights only shrink.
  \<^item> \<open>ServiceCalculus\<close>: \<open>libraries/slope/src/service_calculus.rs\<close>. Certified delays meet the deadline; arrivals keep to the envelope.
  \<^item> \<open>PolicyVm\<close>, \<open>LabVm\<close>: \<open>core/aether/src/policy.rs\<close>, \<open>blacklab_vm.rs\<close>. Verified programs run without faults within their
    fuel, and the decoded machine refines the operations.
  \<^item> \<open>Mpmc\<close>: \<open>core/aether/src/lockfree.rs\<close>. The bounded queue refines an atomic first-in first-out queue under every interleaving.
  \<^item> \<open>Causal\<close>: \<open>causal_lattice.rs\<close>. Stamps respect causality; the replay shield remembers exactly the recent nonces.
  \<^item> \<open>ExactNtt\<close>: \<open>certified_math/exact_ntt.rs\<close>. The transform-based convolution is the integer convolution (locales \<open>residue_ring\<close> and
    \<open>ntt_modulus\<close>, interpreted for both prime fields), and the fair queue built on it serves the neediest class.

  Paths without a crate are below \<open>src/kernel/boulder/src\<close>.

  \<^bold>\<open>How the parts meet.\<close> Frames are the common currency: the pool is built from the firmware map and feeds page tables and arenas.
  The lifecycle registry decides what runs; preemption hands it tickets from interrupts; the ring authority bounds what a dispatched
  domain may touch. The I/O ledger names the addresses the VT-d tables translate. The other components are used by
  the kernel's planes on their own, and are specified on their own.

  \<^bold>\<open>Bounds.\<close> The transform has the 64 points of the source. The theorems on \<open>Mpmc\<close> assume fewer than \<open>2 ^ 63\<close> enqueued values, where
  the source compares 64-bit positions as signed differences, and two slots at least: for one slot a theorem shows what goes wrong. Those on
  \<open>Causal\<close> assume that the 32-bit logical counter has not saturated. The claims on ancestors and on revocation in the lease
  lattice are stated for fewer than 65534 calls, before a 16-bit generation can wrap; a lemma shows an orphan revived after that. Reservations
  that end above \<open>2 ^ 64 - 4096\<close> reserve nothing, which the theorem on the frames after boot states as it is. The command ring refuses
  submissions when its 32-bit sequence is exhausted. The release of an arena succeeds if nobody else has released its frames; otherwise the
  theorem describes the debt it leaves. What else a property assumes is part of its statement.

  \<^bold>\<open>Not modelled.\<close> Port, register and assembly code (\<open>arch\<close>, \<open>boot\<close>, \<open>interrupts\<close>, \<open>cpu\<close>, the controllers under \<open>drivers\<close>, PCI, ACPI and the
  remapping unit's registers under \<open>hw\<close>, and the \<open>DirectMapVtdTables\<close> half of \<open>hw/vtd_memory.rs\<close>), whose meaning is that of the machine; image loading, relocation and
  foreign personalities (\<open>module\<close>, \<open>mirage\<close>, \<open>shim\<close>, \<open>process/image.rs\<close>), which patch and call code; the fixed-point numerics of
  \<open>certified_math\<close>, \<open>predictive_control\<close> and \<open>tensor_decomp\<close>, whose results are approximate; the experimental planes, vaults and governors at the root
  of the kernel crate, the file systems and channels, and the remaining modules of \<open>aether\<close>, \<open>blacklab\<close>, \<open>kairos\<close> and \<open>slope\<close>, which the modelled
  components do not rely on; the user programs, which are input and output; and the tools and scripts. Digests that seal
  receipts are computed as in the source, but nothing is claimed about their collisions. Memory is sequentially
  consistent throughout.
\<close>

section \<open>Frames across components\<close>

text \<open>
  C7 (invariant). Frames are conserved. Whatever table memory and DMA arenas do on the shared pool, in any order and with
  any failures, every frame that was free at the start is, at every moment, in exactly one place: free in the pool,
  a page table of the remapper, or part of one arena. None is lost and none is shared.\<close>

theorem frames_conserved:
  assumes "frame_wf frames" and "unat base + unat limit \<le> 2 ^ 64"
    and "platform_step\<^sup>*\<^sup>* \<lparr>pf_tables = direct_map_new OWNED frames base limit ram, pf_arenas = []\<rparr> s"
  shows "free_set (dm_pool (pf_tables s)) \<union> table_frames (pf_tables s) \<union> \<Union> (arena_held ` set (pf_arenas s)) = free_set frames
    \<and> table_frames (pf_tables s) \<inter> free_set (dm_pool (pf_tables s)) = {}
    \<and> (i < length (pf_arenas s) \<longrightarrow> arena_held (pf_arenas s ! i) \<inter> (table_frames (pf_tables s) \<union> free_set (dm_pool (pf_tables s))) = {})
    \<and> (i < j \<and> j < length (pf_arenas s) \<longrightarrow> arena_held (pf_arenas s ! i) \<inter> arena_held (pf_arenas s ! j) = {})"
proof -
  let ?m = "direct_map_new OWNED frames base limit ram"
  have start: "direct_map_wf ?m" "table_frames ?m = {}"
    using assms(1,2) by (auto simp: direct_map_new_def direct_map_wf_def owns_iff distinct_slots_def table_frames_def)
  have "platform_wf (free_set frames) s"
    by (rule platform.inv_reachable[OF _ assms(3)]) (use start in \<open>simp add: direct_map_new_def\<close>)
  note ok = this[unfolded platform_wf_def platform_frames_def]
  have "arena_held (pf_arenas s ! i) \<inter> arena_held (pf_arenas s ! j) = {}" if "i < j" "j < length (pf_arenas s)"
    using ok that by (auto simp: sorted_wrt_iff_nth_less disjnt_def)
  with ok table_frames_free show ?thesis by auto
qed

theorem frames_conserved_witness:
  "free_set (xa_frames sample_arena) \<union> arena_held sample_arena = free_set sample_allocator \<and> arena_held sample_arena \<inter> free_set (xa_frames sample_arena) = {}"
proof -
  let ?m = "direct_map_new 1 sample_allocator 0xFFFF800000000000 0x8000 (\<lambda>_. 0)"
  let ?s = "\<lparr>pf_tables = ?m, pf_arenas = []\<rparr>"
  have "dm_pool ?m = sample_allocator" by (simp add: direct_map_new_def)
  then have "platform_step ?s (with_pool ?s (xa_frames sample_arena) [sample_arena])"
    using builds[of ?s "\<lambda>_. 0" sample_window 0 True 9 "Ok ()" sample_arena] sample_arena_Ok by simp
  then have r: "platform_step\<^sup>*\<^sup>* ?s (with_pool ?s (xa_frames sample_arena) [sample_arena])" by simp
  have "table_frames ?m = {}" by (simp add: direct_map_new_def table_frames_def owns_iff)
  with frames_conserved[OF sample_allocator_wf _ r, of 0 0] show ?thesis by (simp add: with_pool_def)
qed

end
